(* ===== verification/B4_Prelude.thy ===== *)
theory B4_Prelude
  imports Main "HOL-Library.Word" "HOL-Library.Monad_Syntax"
begin

text \<open>
  The vocabulary the component theories share.

  \<^item> Bytes are \<^typ>\<open>8 word\<close>; a Go byte slice and a Go string are both lists of bytes (a Go
    string is a sequence of bytes, not of code points), so the conversions
    \<^verbatim>\<open>string(b)\<close> and \<^verbatim>\<open>[]byte(s)\<close> are the identity. \<^verbatim>\<open>str ''abc''\<close> is a string literal.
  \<^item> A Go \<^verbatim>\<open>int\<close> that holds a length or an offset is a \<^typ>\<open>nat\<close>: offsets into a packet are far
    below the width of the type. Where a value read from the wire is converted to \<^verbatim>\<open>int\<close> without
    a bound, \<open>go_int\<close> makes the conversion at the platform's width explicit.
  \<^item> Code that indexes or slices memory runs in the option monad: \<^const>\<open>None\<close> is a run-time
    panic (index or slice bounds out of range), and \<open>no_panic\<close> states that a computation does
    not panic. Indexing and slicing past the length is a panic of the model; Go allows
    slicing up to the capacity, so the model panics whenever the code does and more often,
    and a proof of \<open>no_panic\<close> covers the code.
  \<^item> Durations and points in time are \<^typ>\<open>nat\<close> (nanoseconds); \<^verbatim>\<open>time.Now()\<close> is an argument.
\<close>

unbundle bit_operations_syntax

type_synonym byte = "8 word"
type_synonym bytes = "byte list"
type_synonym gostr = "byte list"

declare add_2_eq_Suc [simp del] add_2_eq_Suc' [simp del]

named_theorems no_panic_intros "introduction rules that show a computation does not panic"
named_theorems wire_simps "rewrite rules that read back what was written to a byte string"

definition str :: "string \<Rightarrow> gostr" where
  "str s = map of_char s"

subsection \<open>Checked reads\<close>

definition at :: "bytes \<Rightarrow> nat \<Rightarrow> byte option" where
  "at b i = (if i < length b then Some (b ! i) else None)"

definition sub_bytes :: "bytes \<Rightarrow> nat \<Rightarrow> nat \<Rightarrow> bytes option" where
  "sub_bytes b i j = (if i \<le> j \<and> j \<le> length b then Some (take (j - i) (drop i b)) else None)"

definition at_nat :: "bytes \<Rightarrow> nat \<Rightarrow> nat option" where
  "at_nat b i = map_option unat (at b i)"

definition be16 :: "bytes \<Rightarrow> nat \<Rightarrow> nat option" where
  "be16 b i = do { hi \<leftarrow> at_nat b i; lo \<leftarrow> at_nat b (i + 1); Some (256 * hi + lo) }"

definition be24 :: "bytes \<Rightarrow> nat \<Rightarrow> nat option" where
  "be24 b i = do { hi \<leftarrow> at_nat b i; lo \<leftarrow> be16 b (i + 1); Some (65536 * hi + lo) }"

definition be32 :: "bytes \<Rightarrow> nat \<Rightarrow> nat option" where
  "be32 b i = do { hi \<leftarrow> be16 b i; lo \<leftarrow> be16 b (i + 2); Some (65536 * hi + lo) }"

definition put16 :: "nat \<Rightarrow> bytes" where
  "put16 n = [word_of_nat (n div 256), word_of_nat n]"

definition put24 :: "nat \<Rightarrow> bytes" where
  "put24 n = word_of_nat (n div 65536) # put16 n"

definition put32 :: "nat \<Rightarrow> bytes" where
  "put32 n = put16 (n div 65536) @ put16 n"

text \<open>The platform's \<^verbatim>\<open>int\<close>: the conversion of an unsigned 64-bit value to a signed integer of
  \<open>w\<close> bits (32 on the 386, ARM and MIPS builds, 64 elsewhere).\<close>

definition go_int :: "nat \<Rightarrow> nat \<Rightarrow> int" where
  "go_int w v = (int v + 2 ^ (w - 1)) mod 2 ^ w - 2 ^ (w - 1)"

lemma go_int_small: "0 < w \<Longrightarrow> v < 2 ^ (w - 1) \<Longrightarrow> go_int w v = int v"
proof -
  assume w: "0 < w" and v: "v < 2 ^ (w - 1)"
  have p: "(2::int) ^ w = 2 ^ (w - 1) + 2 ^ (w - 1)"
    using w by (cases w) auto
  have "int v < 2 ^ (w - 1)" using v by (simp flip: of_nat_less_iff)
  then have "(int v + 2 ^ (w - 1)) mod 2 ^ w = int v + 2 ^ (w - 1)"
    using p by (intro mod_pos_pos_trivial) auto
  then show ?thesis by (simp add: go_int_def)
qed

text \<open>Signed arithmetic at that width.\<close>

definition go_wrap :: "nat \<Rightarrow> int \<Rightarrow> int" where
  "go_wrap w x = (x + 2 ^ (w - 1)) mod 2 ^ w - 2 ^ (w - 1)"

lemma go_wrap_small: "0 < w \<Longrightarrow> - (2 ^ (w - 1)) \<le> x \<Longrightarrow> x < 2 ^ (w - 1) \<Longrightarrow> go_wrap w x = x"
proof -
  assume w: "0 < w" and b: "- (2 ^ (w - 1)) \<le> x" "x < 2 ^ (w - 1)"
  have "(2::int) ^ w = 2 ^ (w - 1) + 2 ^ (w - 1)" using w by (cases w) auto
  then have "(x + 2 ^ (w - 1)) mod 2 ^ w = x + 2 ^ (w - 1)"
    using b by (intro mod_pos_pos_trivial) auto
  then show ?thesis by (simp add: go_wrap_def)
qed

subsection \<open>Computations that do not panic\<close>

definition no_panic :: "'a option \<Rightarrow> bool" where
  "no_panic m \<longleftrightarrow> m \<noteq> None"

lemma no_panic_Some [simp, no_panic_intros]: "no_panic (Some x)"
  by (simp add: no_panic_def)

lemma no_panicE: "no_panic m \<Longrightarrow> (\<And>x. m = Some x \<Longrightarrow> P) \<Longrightarrow> P"
  by (auto simp: no_panic_def)

lemma no_panic_ex: "no_panic m \<longleftrightarrow> (\<exists>x. m = Some x)"
  by (auto simp: no_panic_def)

lemma no_panic_bind [no_panic_intros]:
  "no_panic m \<Longrightarrow> (\<And>x. m = Some x \<Longrightarrow> no_panic (f x)) \<Longrightarrow> no_panic (Option.bind m f)"
  by (auto simp: no_panic_def)

lemma no_panic_if [no_panic_intros]:
  "(P \<Longrightarrow> no_panic a) \<Longrightarrow> (\<not> P \<Longrightarrow> no_panic b) \<Longrightarrow> no_panic (if P then a else b)"
  by simp

lemma no_panic_option [no_panic_intros]:
  "(v = None \<Longrightarrow> no_panic a) \<Longrightarrow> (\<And>x. v = Some x \<Longrightarrow> no_panic (f x)) \<Longrightarrow>
   no_panic (case v of None \<Rightarrow> a | Some x \<Rightarrow> f x)"
  by (cases v) auto

lemma no_panic_prod [no_panic_intros]:
  "(\<And>x y. v = (x, y) \<Longrightarrow> no_panic (f x y)) \<Longrightarrow> no_panic (case v of (x, y) \<Rightarrow> f x y)"
  by (cases v) auto

lemma bind_SomeE:
  "Option.bind m f = Some y \<Longrightarrow> (\<And>x. m = Some x \<Longrightarrow> f x = Some y \<Longrightarrow> P) \<Longrightarrow> P"
  by (auto simp: bind_eq_Some_conv)

lemma if_eqE:
  "(if c then a else b) = y \<Longrightarrow> (c \<Longrightarrow> a = y \<Longrightarrow> P) \<Longrightarrow> (\<not> c \<Longrightarrow> b = y \<Longrightarrow> P) \<Longrightarrow> P"
  by (auto split: if_splits)

lemmas go_elims = bind_SomeE if_eqE

lemma no_panic_at [no_panic_intros]: "i < length b \<Longrightarrow> no_panic (at b i)"
  by (simp add: at_def no_panic_def)

lemma no_panic_at_nat [no_panic_intros]: "i < length b \<Longrightarrow> no_panic (at_nat b i)"
  by (simp add: at_nat_def at_def no_panic_def)

lemma no_panic_sub_bytes [no_panic_intros]:
  "i \<le> j \<Longrightarrow> j \<le> length b \<Longrightarrow> no_panic (sub_bytes b i j)"
  by (simp add: sub_bytes_def no_panic_def)

lemma no_panic_be16 [no_panic_intros]: "i + 1 < length b \<Longrightarrow> no_panic (be16 b i)"
  by (simp add: be16_def at_nat_def at_def no_panic_def)

lemma no_panic_be24 [no_panic_intros]: "i + 2 < length b \<Longrightarrow> no_panic (be24 b i)"
  by (simp add: be24_def be16_def at_nat_def at_def no_panic_def)

lemma no_panic_be32 [no_panic_intros]: "i + 3 < length b \<Longrightarrow> no_panic (be32 b i)"
  by (simp add: be32_def be16_def at_nat_def at_def no_panic_def)

subsection \<open>What the reads return\<close>

lemma at_Some: "at b i = Some x \<longleftrightarrow> i < length b \<and> x = b ! i"
  by (auto simp: at_def)

lemma at_lt [simp]: "i < length b \<Longrightarrow> at b i = Some (b ! i)"
  by (simp add: at_def)

lemma at_nat_lt [simp]: "i < length b \<Longrightarrow> at_nat b i = Some (unat (b ! i))"
  by (simp add: at_nat_def)

lemma unat_byte_less [simp]: "unat (x :: byte) < 256"
proof -
  have "unat x < 2 ^ LENGTH(8)" by (rule unsigned_less)
  then show ?thesis by simp
qed

lemma at_nat_bound: "at_nat b i = Some n \<Longrightarrow> n < 256"
  using unat_byte_less by (auto simp: at_nat_def)

lemma at_nat_SomeD: "at_nat b i = Some n \<Longrightarrow> i < length b \<and> n < 256"
  using at_nat_bound by (fastforce simp: at_nat_def at_def split: if_splits)

lemma be16_SomeD: "be16 b i = Some n \<Longrightarrow> i + 1 < length b \<and> n < 65536"
  by (auto simp: be16_def bind_eq_Some_conv dest!: at_nat_SomeD)

lemma be24_SomeD: "be24 b i = Some n \<Longrightarrow> i + 2 < length b \<and> n < 16777216"
  by (auto simp: be24_def bind_eq_Some_conv dest!: at_nat_SomeD be16_SomeD)

lemma be32_SomeD: "be32 b i = Some n \<Longrightarrow> i + 3 < length b \<and> n < 4294967296"
  by (auto simp: be32_def bind_eq_Some_conv dest!: be16_SomeD)

lemma be16_lt: "i + 1 < length b \<Longrightarrow> be16 b i = Some (256 * unat (b ! i) + unat (b ! (i + 1)))"
  by (simp add: be16_def)

lemma sub_bytes_SomeD:
  "sub_bytes b i j = Some c \<Longrightarrow> i \<le> j \<and> j \<le> length b \<and> length c = j - i \<and> c = take (j - i) (drop i b)"
  by (auto simp: sub_bytes_def split: if_splits)

lemma sub_bytes_lt [simp]:
  "i \<le> j \<Longrightarrow> j \<le> length b \<Longrightarrow> sub_bytes b i j = Some (take (j - i) (drop i b))"
  by (simp add: sub_bytes_def)

subsection \<open>Reading back what was written\<close>

lemma length_put16 [simp]: "length (put16 n) = 2"
  by (simp add: put16_def)

lemma length_put24 [simp]: "length (put24 n) = 3"
  by (simp add: put24_def)

lemma length_put32 [simp]: "length (put32 n) = 4"
  by (simp add: put32_def)

lemma byte_of_nat [wire_simps]: "n < 256 \<Longrightarrow> unat (word_of_nat n :: byte) = n"
  by (simp add: unat_of_nat)

lemma split16: "n < 65536 \<Longrightarrow> 256 * (n div 256 mod 256) + n mod 256 = (n::nat)"
  by simp

lemma unat_byte_of_nat: "unat (word_of_nat n :: byte) = n mod 256"
  by (simp add: unat_of_nat)

lemma nth_put16 [simp]: "put16 n ! 0 = word_of_nat (n div 256)" "put16 n ! Suc 0 = word_of_nat n"
  by (simp_all add: put16_def)

lemma at_append_left [wire_simps]: "i < length xs \<Longrightarrow> at (xs @ ys) i = at xs i"
  by (simp add: at_def nth_append)

lemma at_append_right [wire_simps]:
  "length xs \<le> i \<Longrightarrow> at (xs @ ys) i = at ys (i - length xs)"
  by (auto simp: at_def nth_append)

lemma at_nat_append_left [wire_simps]: "i < length xs \<Longrightarrow> at_nat (xs @ ys) i = at_nat xs i"
  by (simp add: nth_append)

lemma at_nat_append_right [wire_simps]:
  "length xs \<le> i \<Longrightarrow> at_nat (xs @ ys) i = at_nat ys (i - length xs)"
  by (simp add: at_nat_def at_append_right)

lemma be16_append_right [wire_simps]:
  "length xs \<le> i \<Longrightarrow> be16 (xs @ ys) i = be16 ys (i - length xs)"
  by (simp add: be16_def at_nat_append_right Suc_diff_le)

lemma be16_append_left [wire_simps]: "i + 1 < length xs \<Longrightarrow> be16 (xs @ ys) i = be16 xs i"
  by (simp add: be16_def nth_append)

lemma be16_put16 [wire_simps]: "n < 65536 \<Longrightarrow> be16 (put16 n @ ys) 0 = Some n"
  by (simp add: be16_def at_nat_def at_def put16_def unat_byte_of_nat split16)

lemma be16_put16_Nil [wire_simps]: "n < 65536 \<Longrightarrow> be16 (put16 n) 0 = Some n"
  using be16_put16 [of n "[]"] by simp

lemma be16_put16_at:
  "n < 65536 \<Longrightarrow> length xs = i \<Longrightarrow> be16 (xs @ put16 n @ ys) i = Some n"
  by (simp add: be16_append_right be16_put16)

lemma at_nat_at:
  "length xs = i \<Longrightarrow> at_nat (xs @ x # ys) i = Some (unat x)"
  by (simp add: nth_append)

lemma sub_bytes_at:
  "length xs = i \<Longrightarrow> j = i + length ys \<Longrightarrow> sub_bytes (xs @ ys @ zs) i j = Some ys"
  by simp

lemma drop_prefix: "length xs = n \<Longrightarrow> drop n (xs @ ys) = ys"
  by simp

subsection \<open>List searches\<close>

text \<open>\<open>first_some f xs\<close> is the search loop of the code: the first element of \<open>xs\<close> for which
  \<open>f\<close> answers, and its answer.\<close>

fun first_some :: "('a \<Rightarrow> 'b option) \<Rightarrow> 'a list \<Rightarrow> 'b option" where
  "first_some f [] = None"
| "first_some f (x # xs) = (case f x of Some y \<Rightarrow> Some y | None \<Rightarrow> first_some f xs)"

lemma first_some_append:
  "first_some f (xs @ ys) = (case first_some f xs of Some y \<Rightarrow> Some y | None \<Rightarrow> first_some f ys)"
  by (induction xs) (auto split: option.splits)

lemma first_some_None_iff: "first_some f xs = None \<longleftrightarrow> (\<forall>x \<in> set xs. f x = None)"
  by (induction xs) (auto split: option.splits)

lemma first_some_SomeD:
  "first_some f xs = Some y \<Longrightarrow>
   \<exists>ys x zs. xs = ys @ x # zs \<and> f x = Some y \<and> (\<forall>v \<in> set ys. f v = None)"
proof (induction xs)
  case Nil
  then show ?case by simp
next
  case (Cons a xs)
  show ?case
  proof (cases "f a")
    case None
    with Cons obtain ys x zs where
      "xs = ys @ x # zs" "f x = Some y" "\<forall>v \<in> set ys. f v = None" by auto
    with None have "a # xs = (a # ys) @ x # zs" "f x = Some y" "\<forall>v \<in> set (a # ys). f v = None"
      by auto
    then show ?thesis by blast
  next
    case (Some b)
    with Cons.prems have "a # xs = [] @ a # xs \<and> f a = Some y \<and> (\<forall>v \<in> set []. f v = None)"
      by simp
    then show ?thesis by blast
  qed
qed

lemma first_some_cong:
  "(\<And>x. x \<in> set xs \<Longrightarrow> f x = g x) \<Longrightarrow> first_some f xs = first_some g xs"
  by (induction xs) (auto split: option.splits)

lemma find_SomeD: "List.find P xs = Some x \<Longrightarrow> x \<in> set xs \<and> P x"
  by (induction xs) (auto split: if_splits)

lemma find_None: "List.find P xs = None \<longleftrightarrow> (\<forall>x \<in> set xs. \<not> P x)"
  by (induction xs) auto

end
