(* ===== verification/Go_Strings.thy ===== *)
theory Go_Strings
  imports B4_Prelude
begin

text \<open>
  The parts of Go's \<^verbatim>\<open>strings\<close>, \<^verbatim>\<open>bytes\<close>, \<^verbatim>\<open>strconv\<close> and \<^verbatim>\<open>net\<close> packages the program calls, on byte
  strings. Everything that depends on the Unicode tables beyond the white-space set, and the
  regular-expression engine, is a field of the record \<open>golib\<close>, an argument of the
  definitions that use it; on strings of ASCII bytes the model does not consult those fields.
\<close>

record golib =
  int_bits :: nat
  uni_lower :: "gostr \<Rightarrow> gostr"
  uni_equal_fold :: "gostr \<Rightarrow> gostr \<Rightarrow> bool"
  re_compile :: "gostr \<Rightarrow> (gostr \<Rightarrow> bool) option"

text \<open>\<open>re_compile p\<close> is \<^verbatim>\<open>regexp.Compile(p)\<close>: \<^const>\<open>None\<close> for a pattern that does not compile,
  otherwise the \<^verbatim>\<open>MatchString\<close> of the compiled expression.\<close>

definition is_ascii :: "gostr \<Rightarrow> bool" where
  "is_ascii s \<longleftrightarrow> (\<forall>c \<in> set s. c < 128)"

definition lower_byte :: "byte \<Rightarrow> byte" where
  "lower_byte c = (if 65 \<le> c \<and> c \<le> 90 then c + 32 else c)"

definition to_lower :: "golib \<Rightarrow> gostr \<Rightarrow> gostr" where
  "to_lower L s = (if is_ascii s then map lower_byte s else uni_lower L s)"

definition equal_fold :: "golib \<Rightarrow> gostr \<Rightarrow> gostr \<Rightarrow> bool" where
  "equal_fold L s t = (if is_ascii s \<and> is_ascii t then map lower_byte s = map lower_byte t
                       else uni_equal_fold L s t)"

subsection \<open>Prefixes, suffixes, searches\<close>

definition has_prefix :: "gostr \<Rightarrow> gostr \<Rightarrow> bool" where
  "has_prefix s p \<longleftrightarrow> take (length p) s = p"

definition has_suffix :: "gostr \<Rightarrow> gostr \<Rightarrow> bool" where
  "has_suffix s p \<longleftrightarrow> length p \<le> length s \<and> drop (length s - length p) s = p"

definition trim_prefix :: "gostr \<Rightarrow> gostr \<Rightarrow> gostr" where
  "trim_prefix s p = (if has_prefix s p then drop (length p) s else s)"

definition trim_suffix :: "gostr \<Rightarrow> gostr \<Rightarrow> gostr" where
  "trim_suffix s p = (if has_suffix s p then take (length s - length p) s else s)"

definition trim_right_byte :: "byte \<Rightarrow> gostr \<Rightarrow> gostr" where
  "trim_right_byte c s = rev (dropWhile (\<lambda>x. x = c) (rev s))"

fun index_byte :: "gostr \<Rightarrow> byte \<Rightarrow> nat option" where
  "index_byte [] c = None"
| "index_byte (x # xs) c = (if x = c then Some 0 else map_option Suc (index_byte xs c))"

definition last_index_byte :: "gostr \<Rightarrow> byte \<Rightarrow> nat option" where
  "last_index_byte s c = map_option (\<lambda>i. length s - 1 - i) (index_byte (rev s) c)"

text \<open>\<^verbatim>\<open>bytes.Index\<close> for a non-empty pattern.\<close>

fun index_sub :: "bytes \<Rightarrow> bytes \<Rightarrow> nat option" where
  "index_sub [] p = None"
| "index_sub (x # xs) p =
     (if has_prefix (x # xs) p then Some 0 else map_option Suc (index_sub xs p))"

fun split_byte :: "gostr \<Rightarrow> byte \<Rightarrow> gostr list" where
  "split_byte [] c = [[]]"
| "split_byte (x # xs) c =
     (if x = c then [] # split_byte xs c
      else (case split_byte xs c of [] \<Rightarrow> [[x]] | y # ys \<Rightarrow> (x # y) # ys))"

fun join_byte :: "gostr list \<Rightarrow> byte \<Rightarrow> gostr" where
  "join_byte [] c = []"
| "join_byte [x] c = x"
| "join_byte (x # y # ys) c = x @ c # join_byte (y # ys) c"

subsection \<open>White space\<close>

text \<open>The code points of \<^verbatim>\<open>unicode.IsSpace\<close> in UTF-8. A match at either end of the string decodes
  to exactly that code point, so \<^verbatim>\<open>strings.TrimSpace\<close> strips these byte sequences.\<close>

definition space_seqs :: "bytes list" where
  "space_seqs =
     [[9], [10], [11], [12], [13], [32], [0xC2, 0x85], [0xC2, 0xA0], [0xE1, 0x9A, 0x80],
      [0xE2, 0x80, 0x80], [0xE2, 0x80, 0x81], [0xE2, 0x80, 0x82], [0xE2, 0x80, 0x83],
      [0xE2, 0x80, 0x84], [0xE2, 0x80, 0x85], [0xE2, 0x80, 0x86], [0xE2, 0x80, 0x87],
      [0xE2, 0x80, 0x88], [0xE2, 0x80, 0x89], [0xE2, 0x80, 0x8A], [0xE2, 0x80, 0xA8],
      [0xE2, 0x80, 0xA9], [0xE2, 0x80, 0xAF], [0xE2, 0x81, 0x9F], [0xE3, 0x80, 0x80]]"

function strip_seqs :: "bytes list \<Rightarrow> gostr \<Rightarrow> gostr" where
  "strip_seqs qs s =
     (case List.find (\<lambda>q. q \<noteq> [] \<and> has_prefix s q) qs of
        None \<Rightarrow> s
      | Some q \<Rightarrow> strip_seqs qs (drop (length q) s))"
  by pat_completeness auto
termination
proof (relation "measure (\<lambda>(qs, s). length s)")
  fix qs s q
  assume "List.find (\<lambda>q. q \<noteq> [] \<and> has_prefix s q) qs = Some q"
  then have "q \<noteq> []" "has_prefix s q" by (auto dest: find_SomeD)
  then have "length s \<noteq> 0" "length q \<noteq> 0" by (auto simp: has_prefix_def)
  then show "((qs, drop (length q) s), qs, s) \<in> measure (\<lambda>(qs, s). length s)" by simp
qed simp

declare strip_seqs.simps [simp del]

definition trim_space :: "gostr \<Rightarrow> gostr" where
  "trim_space s = rev (strip_seqs (map rev space_seqs) (rev (strip_seqs space_seqs s)))"

subsection \<open>Numbers and host:port\<close>

definition is_digit :: "byte \<Rightarrow> bool" where
  "is_digit c \<longleftrightarrow> 48 \<le> c \<and> c \<le> 57"

definition digits_val :: "gostr \<Rightarrow> int" where
  "digits_val s = foldl (\<lambda>n c. 10 * n + int (unat (c - 48))) 0 s"

definition atoi :: "golib \<Rightarrow> gostr \<Rightarrow> int option" where
  "atoi L s =
     (let neg = has_prefix s (str ''-'');
          ds = (if neg \<or> has_prefix s (str ''+'') then drop 1 s else s);
          v = (if neg then - digits_val ds else digits_val ds)
      in if ds = [] \<or> \<not> list_all is_digit ds then None
         else if - (2 ^ (int_bits L - 1)) \<le> v \<and> v < 2 ^ (int_bits L - 1) then Some v else None)"

text \<open>\<^verbatim>\<open>net.SplitHostPort\<close>: the host, or \<^const>\<open>None\<close> for an error (the port is not used).\<close>

definition split_host_port :: "gostr \<Rightarrow> gostr option" where
  "split_host_port hp =
     (case last_index_byte hp 58 of
        None \<Rightarrow> None
      | Some i \<Rightarrow>
          if hp ! 0 = 91 then
            (case index_byte hp 93 of
               None \<Rightarrow> None
             | Some e \<Rightarrow>
                 if e + 1 = length hp \<or> e + 1 \<noteq> i then None
                 else if index_byte (drop 1 hp) 91 \<noteq> None \<or> index_byte (drop (e + 1) hp) 93 \<noteq> None
                 then None else Some (take (e - 1) (drop 1 hp)))
          else if index_byte (take i hp) 58 \<noteq> None then None
          else if index_byte hp 91 \<noteq> None \<or> index_byte hp 93 \<noteq> None then None
          else Some (take i hp))"

subsection \<open>Lemmas\<close>

lemma index_byte_None: "index_byte s c = None \<longleftrightarrow> c \<notin> set s"
  by (induction s) auto

lemma index_byte_SomeD:
  "index_byte s c = Some i \<Longrightarrow> i < length s \<and> s ! i = c \<and> c \<notin> set (take i s)"
proof (induction s arbitrary: i)
  case Nil
  then show ?case by simp
next
  case (Cons a s)
  show ?case
  proof (cases "a = c")
    case True
    with Cons.prems show ?thesis by simp
  next
    case False
    with Cons.prems obtain j where "index_byte s c = Some j" "i = Suc j" by auto
    with Cons.IH [of j] False show ?thesis by auto
  qed
qed

lemma index_byte_less: "index_byte s c = Some i \<Longrightarrow> i < length s"
  by (simp add: index_byte_SomeD)

lemma index_byte_append_notin:
  "c \<notin> set xs \<Longrightarrow> index_byte (xs @ c # ys) c = Some (length xs)"
  by (induction xs) auto

lemma has_prefix_append: "has_prefix s p \<longleftrightarrow> (\<exists>t. s = p @ t)"
proof
  assume "has_prefix s p"
  then have "s = p @ drop (length p) s"
    by (metis append_take_drop_id has_prefix_def)
  then show "\<exists>t. s = p @ t" by blast
qed (auto simp: has_prefix_def)

lemma has_suffix_append: "has_suffix s p \<longleftrightarrow> (\<exists>t. s = t @ p)"
proof
  assume "has_suffix s p"
  then have "s = take (length s - length p) s @ p"
    by (metis append_take_drop_id has_suffix_def)
  then show "\<exists>t. s = t @ p" by blast
qed (auto simp: has_suffix_def)

lemma index_sub_SomeD:
  "index_sub b p = Some i \<Longrightarrow> i + length p \<le> length b \<and> take (length p) (drop i b) = p"
proof (induction b p arbitrary: i rule: index_sub.induct)
  case (1 p)
  then show ?case by simp
next
  case (2 x xs p)
  show ?case
  proof (cases "has_prefix (x # xs) p")
    case True
    then obtain t where t: "x # xs = p @ t" by (auto simp: has_prefix_append)
    then have "length p \<le> length (x # xs)" by simp
    moreover from 2 True have "i = 0" by simp
    ultimately show ?thesis using True by (simp add: has_prefix_def)
  next
    case False
    with 2 show ?thesis by auto
  qed
qed

lemma split_byte_nonempty [simp]: "split_byte s c \<noteq> []"
  by (induction s) (auto split: list.splits)

lemma join_split_byte: "join_byte (split_byte s c) c = s"
proof (induction s)
  case Nil
  then show ?case by simp
next
  case (Cons x s)
  then show ?case
    by (cases "split_byte s c"; cases "tl (split_byte s c)") auto
qed

lemma split_byte_parts: "l \<in> set (split_byte s c) \<Longrightarrow> c \<notin> set l"
  by (induction s arbitrary: l) (auto split: if_splits list.splits)

lemma split_byte_part_subset: "l \<in> set (split_byte s c) \<Longrightarrow> set l \<subseteq> set s"
  by (induction s arbitrary: l) (fastforce split: if_splits list.splits)+

lemma split_byte_no_sep: "c \<notin> set s \<Longrightarrow> split_byte s c = [s]"
  by (induction s) auto

lemma split_byte_append:
  "c \<notin> set x \<Longrightarrow> split_byte (x @ c # s) c = x # split_byte s c"
  by (induction x) auto

lemma split_join_byte:
  "ls \<noteq> [] \<Longrightarrow> (\<forall>l \<in> set ls. c \<notin> set l) \<Longrightarrow> split_byte (join_byte ls c) c = ls"
  by (induction ls c rule: join_byte.induct) (auto simp: split_byte_no_sep split_byte_append)

lemma trim_right_byte_id: "s = [] \<or> last s \<noteq> c \<Longrightarrow> trim_right_byte c s = s"
  by (cases s rule: rev_cases) (auto simp: trim_right_byte_def)

lemma trim_right_byte_last: "trim_right_byte c s \<noteq> [] \<Longrightarrow> last (trim_right_byte c s) \<noteq> c"
proof -
  assume "trim_right_byte c s \<noteq> []"
  then have "dropWhile (\<lambda>x. x = c) (rev s) \<noteq> []" by (simp add: trim_right_byte_def)
  then have "hd (dropWhile (\<lambda>x. x = c) (rev s)) \<noteq> c" by (rule hd_dropWhile)
  then show ?thesis using \<open>dropWhile _ _ \<noteq> []\<close> by (simp add: trim_right_byte_def last_rev)
qed

lemma trim_right_byte_subset: "set (trim_right_byte c s) \<subseteq> set s"
  by (auto simp: trim_right_byte_def dest: set_dropWhileD)

lemma lower_byte_idem [simp]: "lower_byte (lower_byte c) = lower_byte c"
proof (cases "65 \<le> c \<and> c \<le> 90")
  case True
  then have "97 \<le> c + 32" by (auto simp: word_le_nat_alt unat_plus_if')
  with True show ?thesis by (auto simp: lower_byte_def word_le_nat_alt)
qed (auto simp: lower_byte_def)

lemma lower_byte_ascii: "c < 128 \<Longrightarrow> lower_byte c < 128"
  by (auto simp: lower_byte_def word_less_nat_alt word_le_nat_alt unat_plus_if')

lemma is_ascii_lower: "is_ascii s \<Longrightarrow> is_ascii (map lower_byte s)"
  by (auto simp: is_ascii_def lower_byte_ascii)

lemma to_lower_idem: "is_ascii s \<Longrightarrow> to_lower L (to_lower L s) = to_lower L s"
  by (simp add: to_lower_def is_ascii_lower o_def)

definition is_space_byte :: "byte \<Rightarrow> bool" where
  "is_space_byte c \<longleftrightarrow> c \<in> set (concat space_seqs)"

text \<open>A string with no byte of a white-space sequence is left alone.\<close>

lemma strip_seqs_id:
  assumes "\<forall>q \<in> set qs. \<forall>c \<in> set q. c \<notin> set s"
  shows "strip_seqs qs s = s"
proof -
  have "List.find (\<lambda>q. q \<noteq> [] \<and> has_prefix s q) qs = None"
    unfolding find_None
  proof (intro ballI notI)
    fix q assume q: "q \<in> set qs" "q \<noteq> [] \<and> has_prefix s q"
    then have "hd q \<in> set q" "hd q \<in> set s"
      by (auto simp: has_prefix_append)
    with assms q show False by blast
  qed
  then show ?thesis by (subst strip_seqs.simps) simp
qed

lemma trim_space_id: "(\<forall>c \<in> set s. \<not> is_space_byte c) \<Longrightarrow> trim_space s = s"
proof -
  assume "\<forall>c \<in> set s. \<not> is_space_byte c"
  then have none: "\<forall>q \<in> set space_seqs. \<forall>c \<in> set q. c \<notin> set s"
    by (auto simp: is_space_byte_def)
  then have "strip_seqs space_seqs s = s" by (rule strip_seqs_id)
  moreover have "strip_seqs (map rev space_seqs) (rev s) = rev s"
    by (rule strip_seqs_id) (use none in auto)
  ultimately show ?thesis by (simp add: trim_space_def)
qed

end
