(* ===== verification/Tls_Hello.thy ===== *)
theory Tls_Hello
  imports Go_Strings
begin

text \<open>
  The TLS ClientHello readers of \<^verbatim>\<open>src/sni/tls.go\<close> and \<^verbatim>\<open>src/sni/locate.go\<close>: the parser that
  extracts the server name, the ECH flag, the ALPN list and the highest version a client
  offers, and the locators that return the byte range of the server name in a record.
  The readers run on bytes a peer chose, so each is shown not to panic on any input.
\<close>

subsection \<open>Server names\<close>

definition MaxSNINameLen :: nat where
  "MaxSNINameLen = 255"

definition isValidSNIChar :: "byte \<Rightarrow> bool" where
  "isValidSNIChar b \<longleftrightarrow>
     (97 \<le> b \<and> b \<le> 122) \<or> (65 \<le> b \<and> b \<le> 90) \<or> (48 \<le> b \<and> b \<le> 57) \<or>
     b = 45 \<or> b = 46 \<or> b = 95 \<or> 128 \<le> b"

definition contains :: "gostr \<Rightarrow> byte \<Rightarrow> bool" where
  "contains s c \<longleftrightarrow> list_ex (\<lambda>x. x = c) s"

definition validateSNI :: "gostr \<Rightarrow> bool" where
  "validateSNI sni \<longleftrightarrow>
     \<not> (length sni = 0 \<or> length sni > MaxSNINameLen) \<and>
     list_all isValidSNIChar sni \<and>
     \<not> (sni \<noteq> str ''localhost'' \<and> \<not> contains sni 46)"

definition IsValidSNI :: "bytes \<Rightarrow> bool" where
  "IsValidSNI name \<longleftrightarrow> validateSNI name"

subsection \<open>Extension bodies\<close>

function maxver_loop :: "bytes \<Rightarrow> nat \<Rightarrow> nat \<Rightarrow> nat \<Rightarrow> nat option" where
  "maxver_loop ed i lim maxVer =
     (if i + 1 < lim then
        do { ver \<leftarrow> be16 ed i;
             if (word_of_nat ver :: 16 word) AND 0x0f0f = 0x0a0a then maxver_loop ed (i + 2) lim maxVer
             else if ver > maxVer then maxver_loop ed (i + 2) lim ver
             else maxver_loop ed (i + 2) lim maxVer }
      else Some maxVer)"
  by pat_completeness auto
termination
  by (relation "measure (\<lambda>(ed, i, lim, m). lim - i)") auto

definition extractMaxSupportedVersion :: "bytes \<Rightarrow> nat option" where
  "extractMaxSupportedVersion ed =
     (if length ed < 1 then Some 0
      else do { listLen \<leftarrow> at_nat ed 0;
                if listLen < 2 \<or> 1 + listLen > length ed then Some 0
                else maxver_loop ed 1 (1 + listLen) 0 })"

function sni_loop :: "bytes \<Rightarrow> nat \<Rightarrow> nat \<Rightarrow> gostr option" where
  "sni_loop ed r listEnd =
     (if r + 3 \<le> listEnd then
        do { nameType \<leftarrow> at ed r;
             if r + 1 + 2 > listEnd then Some []
             else do { nameLen \<leftarrow> be16 ed (r + 1);
                       if nameLen = 0 \<or> nameLen > MaxSNINameLen \<or> r + 3 + nameLen > listEnd
                          \<or> r + 3 + nameLen > length ed then Some []
                       else if nameType = 0 then
                         do { sniBytes \<leftarrow> sub_bytes ed (r + 3) (r + 3 + nameLen);
                              Some (takeWhile isValidSNIChar sniBytes) }
                       else sni_loop ed (r + 3 + nameLen) listEnd } }
      else Some [])"
  by pat_completeness auto
termination
  by (relation "measure (\<lambda>(ed, r, listEnd). listEnd - r)") auto

definition extractSNIFromExtension :: "bytes \<Rightarrow> gostr option" where
  "extractSNIFromExtension ed =
     (if length ed < 2 then Some []
      else do { listLen \<leftarrow> be16 ed 0;
                if listLen = 0 \<or> 2 + listLen > length ed then Some []
                else sni_loop ed 2 (2 + listLen) })"

function alpn_loop :: "bytes \<Rightarrow> nat \<Rightarrow> nat \<Rightarrow> gostr list \<Rightarrow> gostr list option" where
  "alpn_loop ed r listEnd alpns =
     (if r < listEnd then
        if r \<ge> length ed then Some alpns
        else do { protoLen \<leftarrow> at_nat ed r;
                  if protoLen = 0 \<or> r + 1 + protoLen > listEnd \<or> r + 1 + protoLen > length ed
                  then Some alpns
                  else do { p \<leftarrow> sub_bytes ed (r + 1) (r + 1 + protoLen);
                            alpn_loop ed (r + 1 + protoLen) listEnd (alpns @ [p]) } }
      else Some alpns)"
  by pat_completeness auto
termination
  by (relation "measure (\<lambda>(ed, r, listEnd, a). listEnd - r)") auto

definition extractALPNFromExtension :: "bytes \<Rightarrow> gostr list option" where
  "extractALPNFromExtension ed =
     (if length ed < 2 then Some []
      else do { listLen \<leftarrow> be16 ed 0;
                if listLen = 0 \<or> 2 + listLen > length ed then Some []
                else alpn_loop ed 2 (2 + listLen) [] })"

subsection \<open>The ClientHello body\<close>

record hello_meta =
  m_sni :: gostr
  m_hasECH :: bool
  m_alpns :: "gostr list"
  m_maxVer :: nat

definition no_meta :: hello_meta where
  "no_meta = \<lparr>m_sni = [], m_hasECH = False, m_alpns = [], m_maxVer = 0\<rparr>"

text \<open>One turn of the extension loop: the \<^verbatim>\<open>switch et\<close>.\<close>

definition meta_ext :: "nat \<Rightarrow> bytes \<Rightarrow> hello_meta \<Rightarrow> hello_meta option" where
  "meta_ext et ed st =
     (if et = 0 then do { s \<leftarrow> extractSNIFromExtension ed;
                          Some (if s \<noteq> [] then st\<lparr>m_sni := s\<rparr> else st) }
      else if et = 16 then do { a \<leftarrow> extractALPNFromExtension ed; Some (st\<lparr>m_alpns := a\<rparr>) }
      else if et = 43 then do { v \<leftarrow> extractMaxSupportedVersion ed; Some (st\<lparr>m_maxVer := v\<rparr>) }
      else if et = 0xfe0d \<or> et = 0xfe0e \<or> et = 0xfe0f then Some (st\<lparr>m_hasECH := True\<rparr>)
      else Some st)"

function meta_loop :: "bytes \<Rightarrow> nat \<Rightarrow> hello_meta \<Rightarrow> hello_meta option" where
  "meta_loop exts q st =
     (if q + 4 \<le> length exts then
        do { et \<leftarrow> be16 exts q;
             el \<leftarrow> be16 exts (q + 2);
             if q + 4 + el > length exts then Some st
             else do { ed \<leftarrow> sub_bytes exts (q + 4) (q + 4 + el);
                       st' \<leftarrow> meta_ext et ed st;
                       meta_loop exts (q + 4 + el) st' } }
      else Some st)"
  by pat_completeness auto
termination
  by (relation "measure (\<lambda>(exts, q, st). length exts - q)") auto

declare maxver_loop.simps [simp del] sni_loop.simps [simp del] alpn_loop.simps [simp del]
  meta_loop.simps [simp del]

definition parse_extensions :: "bytes \<Rightarrow> nat \<Rightarrow> nat \<Rightarrow> hello_meta option" where
  "parse_extensions ch p legacyVersion =
     (if p + 2 > length ch then Some no_meta
      else do { extLen \<leftarrow> be16 ch p;
                if extLen = 0 then Some no_meta
                else
                  let extLen' = (if p + 2 + extLen > length ch then length ch - (p + 2) else extLen)
                  in if extLen' = 0 then Some no_meta
                     else do { exts \<leftarrow> sub_bytes ch (p + 2) (p + 2 + extLen');
                               st \<leftarrow> meta_loop exts 0 no_meta;
                               Some (if m_maxVer st = 0 then st\<lparr>m_maxVer := legacyVersion\<rparr> else st) } })"

definition parseTLSClientHelloMeta :: "bytes \<Rightarrow> hello_meta option" where
  "parseTLSClientHelloMeta ch =
     (if 2 > length ch then Some no_meta
      else do {
        legacyVersion \<leftarrow> be16 ch 0;
        if 2 + 32 > length ch then Some no_meta
        else if 34 + 1 > length ch then Some no_meta
        else do {
          sidLen \<leftarrow> at_nat ch 34;
          let p = 35;
          if p + sidLen > length ch then Some no_meta
          else do {
            let p = p + sidLen;
            if p + 2 > length ch then Some no_meta
            else do {
              csLen \<leftarrow> be16 ch p;
              let p = p + 2;
              if p + csLen > length ch then Some no_meta
              else do {
                let p = p + csLen;
                if p + 1 > length ch then Some no_meta
                else do {
                  cmLen \<leftarrow> at_nat ch p;
                  let p = p + 1;
                  if p + cmLen > length ch then Some no_meta
                  else parse_extensions ch (p + cmLen) legacyVersion } } } } } })"

definition ParseTLSClientHelloBodySNI :: "bytes \<Rightarrow> (gostr \<times> bool) option" where
  "ParseTLSClientHelloBodySNI ch =
     do { st \<leftarrow> parseTLSClientHelloMeta ch;
          if m_sni st = [] then Some ([], False)
          else if \<not> validateSNI (m_sni st) then Some ([], False)
          else Some (m_sni st, True) }"

subsection \<open>The record scanner\<close>

text \<open>The body of the loop at offset \<open>i\<close>: \<^term>\<open>Inl i'\<close> continues at \<open>i'\<close>, \<^term>\<open>Inr (s, v)\<close>
  returns. \<open>hello_at\<close> is the part that reads a record starting with a ClientHello.\<close>

definition hello_at :: "bytes \<Rightarrow> nat \<Rightarrow> (nat + gostr \<times> nat) option" where
  "hello_at rec i =
     do { hl \<leftarrow> be24 rec 1;
          let hl' = (if 4 + hl > length rec then length rec - 4 else hl);
          if 4 + hl > length rec \<and> hl' = 0 then Some (Inl (i + 1))
          else do { ch \<leftarrow> sub_bytes rec 4 (4 + hl');
                    st \<leftarrow> parseTLSClientHelloMeta ch;
                    if m_sni st = [] then Some (Inl (i + 1))
                    else if \<not> validateSNI (m_sni st) then Some (Inl (i + 1))
                    else Some (Inr (m_sni st, m_maxVer st)) } }"

definition record_at :: "bytes \<Rightarrow> nat \<Rightarrow> (nat + gostr \<times> nat) option" where
  "record_at b i =
     do { t \<leftarrow> at b i;
          if t \<noteq> 0x16 then Some (Inl (i + 1))
          else do {
            recLen \<leftarrow> be16 b (i + 3);
            if recLen = 0 then Some (Inl (i + 1))
            else do {
              let recLen' = (if i + 5 + recLen > length b then length b - i - 5 else recLen);
              if recLen' = 0 then Some (Inl (i + 1))
              else do {
                rec \<leftarrow> sub_bytes b (i + 5) (i + 5 + recLen');
                if length rec < 4 then Some (Inl (i + 1))
                else do {
                  r0 \<leftarrow> at rec 0;
                  if r0 = 1 then hello_at rec i
                  else Some (Inl (i + 5 + recLen')) } } } } }"

lemma hello_at_advances: "hello_at rec i = Some (Inl j) \<Longrightarrow> i < j"
  by (auto simp: hello_at_def bind_eq_Some_conv Let_def split: if_splits)

lemma record_at_advances: "record_at b i = Some (Inl j) \<Longrightarrow> i < j"
  by (auto simp: record_at_def bind_eq_Some_conv Let_def split: if_splits dest: hello_at_advances)

function scan_records :: "bytes \<Rightarrow> nat \<Rightarrow> (gostr \<times> nat \<times> bool) option" where
  "scan_records b i =
     (if i + 5 \<le> length b then
        (case record_at b i of
           None \<Rightarrow> None
         | Some (Inl j) \<Rightarrow> scan_records b j
         | Some (Inr (sni, tlsVer)) \<Rightarrow> Some (sni, tlsVer, True))
      else Some ([], 0, False))"
  by pat_completeness auto
termination
  by (relation "measure (\<lambda>(b, i). length b - i)") (auto dest: record_at_advances)

declare scan_records.simps [simp del]

definition ParseTLSClientHelloSNI :: "bytes \<Rightarrow> (gostr \<times> nat \<times> bool) option" where
  "ParseTLSClientHelloSNI b = scan_records b 0"

subsection \<open>Locating the name in the bytes of a record\<close>

function scan_name :: "bytes \<Rightarrow> nat \<Rightarrow> (nat \<times> nat \<times> bool) option" where
  "scan_name payload i =
     (if i + 9 \<le> length payload then
        do { b0 \<leftarrow> at payload i;
             b1 \<leftarrow> at payload (i + 1);
             if b0 \<noteq> 0 \<or> b1 \<noteq> 0 then scan_name payload (i + 1)
             else do {
               extLen \<leftarrow> be16 payload (i + 2);
               listLen \<leftarrow> be16 payload (i + 4);
               if listLen < 4 \<or> extLen \<noteq> listLen + 2 then scan_name payload (i + 1)
               else do {
                 b6 \<leftarrow> at payload (i + 6);
                 if b6 \<noteq> 0 then scan_name payload (i + 1)
                 else do {
                   nameLen \<leftarrow> be16 payload (i + 7);
                   if nameLen \<noteq> listLen - 3 \<or> nameLen > MaxSNINameLen then scan_name payload (i + 1)
                   else if i + 9 + nameLen > length payload then scan_name payload (i + 1)
                   else do {
                     name \<leftarrow> sub_bytes payload (i + 9) (i + 9 + nameLen);
                     if \<not> IsValidSNI name then scan_name payload (i + 1)
                     else Some (i + 9, i + 9 + nameLen, True) } } } } }
      else Some (0, 0, False))"
  by pat_completeness auto
termination
  by (relation "measure (\<lambda>(payload, i). length payload - i)") auto

definition ScanServerName :: "bytes \<Rightarrow> (nat \<times> nat \<times> bool) option" where
  "ScanServerName payload =
     (if length payload < 10 then Some (0, 0, False)
      else do { t \<leftarrow> at payload 0;
                if t = 20 \<or> t = 21 \<or> t = 23 \<or> t = 24 then Some (0, 0, False)
                else scan_name payload 0 })"

text \<open>The server_name extension at offset \<open>e\<close>, data length \<open>l\<close>: each \<^verbatim>\<open>break\<close> leaves the loop.\<close>

definition locate_in_ext :: "bytes \<Rightarrow> nat \<Rightarrow> nat \<Rightarrow> (nat \<times> nat \<times> bool) option" where
  "locate_in_ext payload e l =
     (if e + 2 > e + l then Some (0, 0, False)
      else do {
        listLen \<leftarrow> be16 payload e;
        if e + 2 + listLen > e + l then Some (0, 0, False)
        else if e + 2 + 3 > e + l then Some (0, 0, False)
        else do {
          nameType \<leftarrow> at payload (e + 2);
          if nameType \<noteq> 0 then Some (0, 0, False)
          else do {
            nameLen \<leftarrow> be16 payload (e + 3);
            if nameLen = 0 \<or> e + 5 + nameLen > e + l then Some (0, 0, False)
            else Some (e + 5, e + 5 + nameLen, True) } } })"

function locate_ext :: "bytes \<Rightarrow> nat \<Rightarrow> nat \<Rightarrow> (nat \<times> nat \<times> bool) option" where
  "locate_ext payload e ee =
     (if e + 4 \<le> ee then
        do { extType \<leftarrow> be16 payload e;
             extDataLen \<leftarrow> be16 payload (e + 2);
             if e + 4 + extDataLen > ee then Some (0, 0, False)
             else if extType = 0 \<and> extDataLen \<ge> 5 then locate_in_ext payload (e + 4) extDataLen
             else locate_ext payload (e + 4 + extDataLen) ee }
      else Some (0, 0, False))"
  by pat_completeness auto
termination
  by (relation "measure (\<lambda>(payload, e, ee). ee - e)") auto

declare scan_name.simps [simp del] locate_ext.simps [simp del]

definition LocateServerNameInRecord :: "bytes \<Rightarrow> (nat \<times> nat \<times> bool) option" where
  "LocateServerNameInRecord payload =
     (let n = length payload; nope = Some (0, 0, False) in
      if n < 5 then nope else do {
      t \<leftarrow> at payload 0;
      if t \<noteq> 0x16 then nope
      else if 5 + 4 > n then nope else do {
      hs \<leftarrow> at payload 5;
      if hs \<noteq> 1 then nope
      else if 9 + 2 + 32 > n then nope
      else if 43 \<ge> n then nope else do {
      sidLen \<leftarrow> at_nat payload 43;
      let p = 44;
      if p + sidLen > n then nope else do {
      let p = p + sidLen;
      if p + 2 > n then nope else do {
      csLen \<leftarrow> be16 payload p;
      let p = p + 2;
      if p + csLen > n then nope else do {
      let p = p + csLen;
      if p \<ge> n then nope else do {
      cmLen \<leftarrow> at_nat payload p;
      let p = p + 1;
      if p + cmLen > n then nope else do {
      let p = p + cmLen;
      if p + 2 > n then nope else do {
      extLen \<leftarrow> be16 payload p;
      let p = p + 2;
      let extLen = (if p + extLen > n then n - p else extLen);
      locate_ext payload p (p + extLen) } } } } } } } } })"

definition LocateServerName :: "bytes \<Rightarrow> (nat \<times> nat \<times> bool) option" where
  "LocateServerName payload =
     do { (s, e, found) \<leftarrow> LocateServerNameInRecord payload;
          if found then Some (s, e, True) else ScanServerName payload }"

subsection \<open>No reader panics\<close>

lemma no_panic_maxver_loop [no_panic_intros]:
  "lim \<le> length ed \<Longrightarrow> no_panic (maxver_loop ed i lim m)"
proof (induction ed i lim m rule: maxver_loop.induct)
  case (1 ed i lim m)
  then show ?case
    by (subst maxver_loop.simps) (auto intro!: no_panic_intros)
qed

lemma no_panic_extractMaxSupportedVersion [no_panic_intros]:
  "no_panic (extractMaxSupportedVersion ed)"
  unfolding extractMaxSupportedVersion_def by (auto intro!: no_panic_intros)

lemma no_panic_sni_loop [no_panic_intros]:
  "listEnd \<le> length ed \<Longrightarrow> no_panic (sni_loop ed r listEnd)"
proof (induction ed r listEnd rule: sni_loop.induct)
  case (1 ed r listEnd)
  then show ?case
    by (subst sni_loop.simps) (auto intro!: no_panic_intros)
qed

lemma no_panic_extractSNIFromExtension [no_panic_intros]:
  "no_panic (extractSNIFromExtension ed)"
  unfolding extractSNIFromExtension_def by (auto intro!: no_panic_intros)

lemma no_panic_alpn_loop [no_panic_intros]: "no_panic (alpn_loop ed r listEnd a)"
proof (induction ed r listEnd a rule: alpn_loop.induct)
  case (1 ed r listEnd a)
  then show ?case
    by (subst alpn_loop.simps) (auto intro!: no_panic_intros)
qed

lemma no_panic_extractALPNFromExtension [no_panic_intros]:
  "no_panic (extractALPNFromExtension ed)"
  unfolding extractALPNFromExtension_def by (auto intro!: no_panic_intros)

lemma no_panic_meta_ext [no_panic_intros]: "no_panic (meta_ext et ed st)"
  unfolding meta_ext_def by (auto intro!: no_panic_intros)

lemma no_panic_meta_loop [no_panic_intros]: "no_panic (meta_loop exts q st)"
proof (induction exts q st rule: meta_loop.induct)
  case (1 exts q st)
  then show ?case
    by (subst meta_loop.simps) (auto intro!: no_panic_intros)
qed

lemma no_panic_parse_extensions [no_panic_intros]: "no_panic (parse_extensions ch p v)"
  unfolding parse_extensions_def Let_def by (auto intro!: no_panic_intros)

lemma no_panic_parseTLSClientHelloMeta [no_panic_intros]:
  "no_panic (parseTLSClientHelloMeta ch)"
  unfolding parseTLSClientHelloMeta_def Let_def by (auto intro!: no_panic_intros)

lemma no_panic_hello_at [no_panic_intros]: "4 \<le> length rec \<Longrightarrow> no_panic (hello_at rec i)"
  unfolding hello_at_def Let_def by (intro no_panic_intros) auto

lemma no_panic_record_at [no_panic_intros]: "i + 5 \<le> length b \<Longrightarrow> no_panic (record_at b i)"
  unfolding record_at_def Let_def by (auto intro!: no_panic_intros dest!: sub_bytes_SomeD)

lemma no_panic_scan_records [no_panic_intros]: "no_panic (scan_records b i)"
proof (induction b i rule: scan_records.induct)
  case (1 b i)
  then show ?case
    by (subst scan_records.simps)
      (auto intro!: no_panic_if no_panic_option no_panic_Some split: sum.split
        dest: no_panic_record_at simp: no_panic_def [of None])
qed

lemma no_panic_scan_name [no_panic_intros]: "no_panic (scan_name payload i)"
proof (induction "length payload - i" arbitrary: i rule: less_induct)
  case less
  show ?case
    by (subst scan_name.simps) (intro no_panic_intros less, auto)
qed

lemma no_panic_ScanServerName [no_panic_intros]: "no_panic (ScanServerName payload)"
  unfolding ScanServerName_def by (auto intro!: no_panic_intros)

lemma no_panic_locate_in_ext [no_panic_intros]:
  "e + l \<le> length payload \<Longrightarrow> no_panic (locate_in_ext payload e l)"
  unfolding locate_in_ext_def by (auto intro!: no_panic_intros)

lemma no_panic_locate_ext [no_panic_intros]:
  "ee \<le> length payload \<Longrightarrow> no_panic (locate_ext payload e ee)"
proof (induction "ee - e" arbitrary: e rule: less_induct)
  case less
  show ?case
    by (subst locate_ext.simps) (intro no_panic_intros less, use less.prems in auto)
qed

lemma no_panic_LocateServerNameInRecord [no_panic_intros]:
  "no_panic (LocateServerNameInRecord payload)"
  unfolding LocateServerNameInRecord_def Let_def by (auto intro!: no_panic_intros)

lemma no_panic_LocateServerName [no_panic_intros]: "no_panic (LocateServerName payload)"
  unfolding LocateServerName_def by (auto intro!: no_panic_intros)

lemma no_panic_ParseTLSClientHelloSNI [no_panic_intros]: "no_panic (ParseTLSClientHelloSNI b)"
  unfolding ParseTLSClientHelloSNI_def by (rule no_panic_scan_records)

lemma no_panic_ParseTLSClientHelloBodySNI [no_panic_intros]:
  "no_panic (ParseTLSClientHelloBodySNI ch)"
  unfolding ParseTLSClientHelloBodySNI_def by (auto intro!: no_panic_intros)

subsection \<open>What the readers return\<close>

lemma hello_at_valid: "hello_at rec i = Some (Inr (s, v)) \<Longrightarrow> validateSNI s"
  by (auto simp: hello_at_def bind_eq_Some_conv Let_def split: if_splits)

lemma record_at_valid: "record_at b i = Some (Inr (s, v)) \<Longrightarrow> validateSNI s"
  by (auto simp: record_at_def bind_eq_Some_conv Let_def split: if_splits dest: hello_at_valid)

lemma scan_records_result:
  "scan_records b i = Some (s, v, ok) \<Longrightarrow> if ok then validateSNI s else s = [] \<and> v = 0"
proof (induction b i rule: scan_records.induct)
  case (1 b i)
  show ?case
  proof (cases "i + 5 \<le> length b")
    case True
    with "1.prems" show ?thesis
      by (auto simp: scan_records.simps [of b i] split: option.splits sum.splits
          dest: record_at_valid dest!: "1.IH")
  next
    case False
    with "1.prems" show ?thesis by (auto simp: scan_records.simps [of b i])
  qed
qed

lemma scan_name_found:
  "scan_name payload i = Some (s, e, True) \<Longrightarrow>
   s \<le> e \<and> e \<le> length payload \<and> validateSNI (take (e - s) (drop s payload))"
proof (induction "length payload - i" arbitrary: i rule: less_induct)
  case less
  let ?R = "s \<le> e \<and> e \<le> length payload \<and> validateSNI (take (e - s) (drop s payload))"
  have IH: "i + 9 \<le> length payload \<Longrightarrow> scan_name payload (i + 1) = Some (s, e, True) \<Longrightarrow> ?R"
    by (rule less.hyps) auto
  show ?case
    using less.prems
    by (subst (asm) scan_name.simps)
      (auto simp: bind_eq_Some_conv IsValidSNI_def simp del: One_nat_def add_Suc_right split: if_splits dest: IH)
qed

lemma ScanServerName_found:
  "ScanServerName payload = Some (s, e, True) \<Longrightarrow>
   s < e \<and> e \<le> length payload \<and> validateSNI (take (e - s) (drop s payload))"
  using scan_name_found [of payload 0 s e]
  by (auto simp: ScanServerName_def bind_eq_Some_conv validateSNI_def split: if_splits)

lemma locate_in_ext_found:
  "locate_in_ext payload e l = Some (s, f, True) \<Longrightarrow> e < s \<and> s < f \<and> f \<le> e + l"
  by (auto simp: locate_in_ext_def bind_eq_Some_conv split: if_splits)

lemma locate_ext_found:
  "locate_ext payload e ee = Some (s, f, True) \<Longrightarrow> e < s \<and> s < f \<and> f \<le> ee"
proof (induction "ee - e" arbitrary: e rule: less_induct)
  case less
  show ?case
    using less.prems
    by (subst (asm) locate_ext.simps)
      (auto simp: bind_eq_Some_conv split: if_splits dest!: locate_in_ext_found less.hyps [rotated])
qed

lemma LocateServerNameInRecord_found:
  "LocateServerNameInRecord payload = Some (s, f, True) \<Longrightarrow> s < f \<and> f \<le> length payload"
  unfolding LocateServerNameInRecord_def Let_def
  by (auto simp: bind_eq_Some_conv split: if_splits dest!: locate_ext_found)

text \<open>
  Whatever bytes a client sends, the ClientHello parsers and the server-name locators
  return: no index or slice expression in them is ever out of range.
\<close>

theorem tls_readers_never_panic:
  "no_panic (ParseTLSClientHelloSNI b) \<and> no_panic (ParseTLSClientHelloBodySNI b) \<and>
   no_panic (LocateServerName b) \<and> no_panic (ScanServerName b)"
  by (intro conjI no_panic_intros)

text \<open>
  The record scanner returns on every input, and what it reports is consistent: with
  \<^verbatim>\<open>ok\<close> the name has passed \<^verbatim>\<open>validateSNI\<close> (1 to 255 bytes, permitted characters, a dot unless it
  is localhost); without it the name is empty and the version 0.
\<close>

theorem parsed_sni_is_valid:
  "\<exists>s v ok. ParseTLSClientHelloSNI b = Some (s, v, ok) \<and>
    (if ok then validateSNI s else s = [] \<and> v = 0)"
proof -
  obtain s v ok where r: "scan_records b 0 = Some (s, v, ok)"
    using no_panic_scan_records [of b 0] by (auto simp: no_panic_ex)
  with scan_records_result [OF r] show ?thesis
    unfolding ParseTLSClientHelloSNI_def by blast
qed



end
