(* ===== verification/Tls_Gen.thy ===== *)
theory Tls_Gen
  imports Tls_Hello
begin

text \<open>
  The ClientHello generator of \<^verbatim>\<open>src/tlsgen/generator.go\<close>. What \<^verbatim>\<open>rand.Read\<close> stores is an argument:
  \<^const>\<open>None\<close> for the two reads whose error is checked, plain buffer contents for the three
  whose error is ignored. The readers of \<open>Tls_Hello\<close> are then run on what it generates.
\<close>

record Extension =
  Type :: nat
  Data :: bytes

definition mkExt :: "nat \<Rightarrow> bytes \<Rightarrow> Extension" where
  "mkExt t d = \<lparr>Type = t, Data = d\<rparr>"

definition cipherSuites :: "nat list" where
  "cipherSuites =
     [0x1301, 0x1303, 0x1302, 0xc02b, 0xc02f, 0xcca9, 0xcca8, 0xc02c, 0xc030, 0xc00a, 0xc009,
      0xc013, 0xc014, 0x009c, 0x009d, 0x002f, 0x0035]"

definition buildSNI :: "gostr \<Rightarrow> bytes" where
  "buildSNI domain = put16 (3 + length domain) @ [0x00] @ put16 (length domain) @ domain"

definition buildKeyShare :: "bytes \<Rightarrow> bytes \<Rightarrow> bytes" where
  "buildKeyShare x25519Key secp256r1Key =
     put16 (4 + 32 + 4 + 65) @ put16 0x001d @ put16 32 @ x25519Key @ put16 0x0017 @ put16 65 @ secp256r1Key"

definition buildECH :: "bytes \<Rightarrow> bytes" where
  "buildECH padding =
     [0xfe, 0x0d, 0x01, 0x19, 0x00, 0x00, 0x01, 0x00, 0x01, 0xf8, 0x00, 0x20] @ padding"

definition buildExtensions :: "gostr \<Rightarrow> bytes \<Rightarrow> bytes \<Rightarrow> bytes \<Rightarrow> Extension list" where
  "buildExtensions domain xkey skey padding =
    (let groups = [0x001d, 0x0017, 0x0018, 0x0019, 0x0100, 0x0101];
         sigAlgs = [0x0403, 0x0503, 0x0603, 0x0804, 0x0805, 0x0806, 0x0401, 0x0501, 0x0601, 0x0203, 0x0201]
     in
     [mkExt 0x0000 (buildSNI domain),
      mkExt 0x0017 [],
      mkExt 0xff01 [0x00],
      mkExt 0x000a (put16 (length groups * 2) @ concat (map put16 groups)),
      mkExt 0x000b [0x01, 0x00],
      mkExt 0x0023 [],
      mkExt 0x0010 ([0x00, 0x0c, 0x02] @ str ''h2'' @ [0x08] @ str ''http/1.1''),
      mkExt 0x0005 [0x01, 0x00, 0x00, 0x00, 0x00],
      mkExt 0x0022 [0x00, 0x04, 0x03, 0x05, 0x03, 0x06, 0x03, 0x02, 0x03, 0x00],
      mkExt 0x0033 (buildKeyShare xkey skey),
      mkExt 0x002b [0x04, 0x03, 0x04, 0x03, 0x03],
      mkExt 0x000d (put16 (length sigAlgs * 2) @ concat (map put16 sigAlgs)),
      mkExt 0x002d [0x01, 0x01],
      mkExt 0x001c [0x40, 0x01],
      mkExt 0xfe0d (buildECH padding)])"

fun serializeExtensions :: "Extension list \<Rightarrow> bytes" where
  "serializeExtensions [] = []"
| "serializeExtensions (ext # exts) =
     put16 (Type ext) @ put16 (length (Data ext)) @ Data ext @ serializeExtensions exts"

definition clientHelloBody :: "bytes \<Rightarrow> bytes \<Rightarrow> Extension list \<Rightarrow> bytes" where
  "clientHelloBody random sessionID extensions =
     (let extensionsData = serializeExtensions extensions in
      [0x03, 0x03] @ random @ [word_of_nat (length sessionID)] @ sessionID @
      put16 (length cipherSuites * 2) @ concat (map put16 cipherSuites) @
      [0x01, 0x00] @ put16 (length extensionsData) @ extensionsData)"

definition wrapHandshake :: "bytes \<Rightarrow> bytes" where
  "wrapHandshake clientHello = [0x01] @ put24 (length clientHello) @ clientHello"

definition wrapRecord :: "bytes \<Rightarrow> bytes" where
  "wrapRecord handshake = [0x16] @ [0x03, 0x01] @ put16 (length handshake) @ handshake"

definition GenerateTLSClientHello ::
  "gostr \<Rightarrow> bytes option \<Rightarrow> bytes option \<Rightarrow> bytes \<Rightarrow> bytes \<Rightarrow> bytes \<Rightarrow> gostr + bytes" where
  "GenerateTLSClientHello domain random sessionID xkey skey padding =
     (if domain = [] then Inl (str ''domain required'')
      else case random of
        None \<Rightarrow> Inl (str ''failed to generate random'')
      | Some rnd \<Rightarrow>
          (case sessionID of
             None \<Rightarrow> Inl (str ''failed to generate session ID'')
           | Some sid \<Rightarrow>
               Inr (wrapRecord (wrapHandshake
                 (clientHelloBody rnd sid (buildExtensions domain xkey skey padding))))))"

text \<open>The sizes of the buffers \<^verbatim>\<open>rand.Read\<close> fills.\<close>

definition rand_sizes :: "bytes \<Rightarrow> bytes \<Rightarrow> bytes \<Rightarrow> bytes \<Rightarrow> bytes \<Rightarrow> bool" where
  "rand_sizes rnd sid xkey skey padding \<longleftrightarrow>
     length rnd = 32 \<and> length sid = 32 \<and> length xkey = 32 \<and> length skey = 65 \<and> length padding = 269"

subsection \<open>The extension loop on serialised extensions\<close>

fun fold_exts :: "Extension list \<Rightarrow> hello_meta \<Rightarrow> hello_meta option" where
  "fold_exts [] st = Some st"
| "fold_exts (e # es) st = do { st' \<leftarrow> meta_ext (Type e) (Data e) st; fold_exts es st' }"

definition ext_fits :: "Extension \<Rightarrow> bool" where
  "ext_fits e \<longleftrightarrow> Type e < 65536 \<and> length (Data e) < 65536"

lemma length_serializeExtensions_Cons [simp]:
  "length (serializeExtensions (e # es)) = 4 + length (Data e) + length (serializeExtensions es)"
  by simp

lemma meta_loop_serialize:
  "list_all ext_fits es \<Longrightarrow>
   meta_loop (pre @ serializeExtensions es) (length pre) st = fold_exts es st"
proof (induction es arbitrary: pre st)
  case Nil
  then show ?case by (subst meta_loop.simps) simp
next
  case (Cons e es)
  let ?hd = "put16 (Type e) @ put16 (length (Data e)) @ Data e"
  let ?b = "pre @ serializeExtensions (e # es)"
  have fits: "Type e < 65536" "length (Data e) < 65536"
    using Cons.prems by (auto simp: ext_fits_def)
  have b: "?b = pre @ put16 (Type e) @ put16 (length (Data e)) @ Data e @ serializeExtensions es"
    by simp
  have et: "be16 ?b (length pre) = Some (Type e)"
    unfolding b using fits by (intro be16_put16_at) auto
  have el: "be16 ?b (length pre + 2) = Some (length (Data e))"
    using be16_put16_at [of "length (Data e)" "pre @ put16 (Type e)" "length pre + 2"] fits
    unfolding b by simp
  have ed: "sub_bytes ?b (length pre + 4) (length pre + 4 + length (Data e)) = Some (Data e)"
    using sub_bytes_at [of "pre @ put16 (Type e) @ put16 (length (Data e))"] unfolding b by simp
  have "meta_loop ?b (length pre + 4 + length (Data e)) st' = fold_exts es st'" for st'
    using Cons.IH [of "pre @ ?hd" st'] Cons.prems by (simp add: eval_nat_numeral)
  then have rest: "meta_loop ?b (length pre + 4 + length (Data e)) = fold_exts es" by blast
  show ?case
    by (subst meta_loop.simps) (simp add: et el ed rest del: serializeExtensions.simps(2))
qed

lemma extractSNIFromExtension_buildSNI:
  assumes "0 < length d" "length d \<le> 255"
  shows "extractSNIFromExtension (buildSNI d) = Some (takeWhile isValidSNIChar d)"
proof -
  have l: "be16 (buildSNI d) 0 = Some (3 + length d)"
    using assms by (simp add: buildSNI_def be16_put16)
  have t: "at (buildSNI d) 2 = Some 0"
    by (simp add: buildSNI_def nth_append)
  have n: "be16 (buildSNI d) 3 = Some (length d)"
    using be16_put16_at [of "length d" "put16 (3 + length d) @ [0]" 3 d] assms
    by (simp add: buildSNI_def)
  have s: "sub_bytes (buildSNI d) 5 (5 + length d) = Some d"
    using sub_bytes_at [of "put16 (3 + length d) @ [0] @ put16 (length d)" 5 _ d "[]"]
    by (simp add: buildSNI_def)
  have len: "length (buildSNI d) = 5 + length d" by (simp add: buildSNI_def)
  show ?thesis
    unfolding extractSNIFromExtension_def
    by (subst sni_loop.simps) (use assms in \<open>simp add: l t n s len MaxSNINameLen_def\<close>)
qed

subsection \<open>The body and the record\<close>

lemma length_concat_put16 [simp]: "length (concat (map put16 ns)) = 2 * length ns"
  by (induction ns) auto

lemma clientHelloBody_fields:
  assumes rnd: "length rnd = 32" and sid: "length sid = 32"
    and len: "length (serializeExtensions es) < 65536"
  defines "ch \<equiv> clientHelloBody rnd sid es"
  shows "length ch = 107 + length (serializeExtensions es)"
    and "be16 ch 0 = Some 0x0303" and "at_nat ch 34 = Some 32" and "be16 ch 67 = Some 34"
    and "at_nat ch 103 = Some 1" and "be16 ch 105 = Some (length (serializeExtensions es))"
    and "\<exists>pre. length pre = 107 \<and> ch = pre @ serializeExtensions es"
proof -
  let ?cs = "concat (map put16 cipherSuites)" and ?ex = "serializeExtensions es"
  have ncs: "length cipherSuites = 17" by (simp add: cipherSuites_def)
  have ch: "ch = [3, 3] @ rnd @ [32] @ sid @ put16 34 @ ?cs @ [1, 0] @ put16 (length ?ex) @ ?ex"
    by (simp add: ch_def clientHelloBody_def Let_def sid ncs)
  show "length ch = 107 + length ?ex" by (simp add: ch rnd sid ncs)
  show "be16 ch 0 = Some 0x0303" by (simp add: ch be16_def at_nat_def at_def)
  show "at_nat ch 34 = Some 32"
    using at_nat_at [of "[3, 3] @ rnd" 34 32] by (simp add: ch rnd)
  show "be16 ch 67 = Some 34"
    using be16_put16_at [of 34 "[3, 3] @ rnd @ [32] @ sid" 67] by (simp add: ch rnd sid)
  show "at_nat ch 103 = Some 1"
    using at_nat_at [of "[3, 3] @ rnd @ [32] @ sid @ put16 34 @ ?cs" 103 1]
    by (simp add: ch rnd sid ncs)
  show "be16 ch 105 = Some (length ?ex)"
    using be16_put16_at [of "length ?ex" "[3, 3] @ rnd @ [32] @ sid @ put16 34 @ ?cs @ [1, 0]" 105 ?ex] len
    by (simp add: ch rnd sid ncs)
  show "\<exists>pre. length pre = 107 \<and> ch = pre @ ?ex"
    by (rule exI [of _ "[3, 3] @ rnd @ [32] @ sid @ put16 34 @ ?cs @ [1, 0] @ put16 (length ?ex)"])
      (simp add: ch rnd sid ncs)
qed

lemma parse_clientHelloBody:
  assumes rnd: "length rnd = 32" and sid: "length sid = 32"
    and fits: "list_all ext_fits es" and len: "0 < length (serializeExtensions es)"
      "length (serializeExtensions es) < 65536"
  shows "parseTLSClientHelloMeta (clientHelloBody rnd sid es) =
    map_option (\<lambda>st. if m_maxVer st = 0 then st\<lparr>m_maxVer := 0x0303\<rparr> else st) (fold_exts es no_meta)"
proof -
  let ?ex = "serializeExtensions es" and ?ch = "clientHelloBody rnd sid es"
  note f = clientHelloBody_fields [OF rnd sid len(2)]
  have x: "sub_bytes ?ch 107 (107 + length ?ex) = Some ?ex"
    using f(7) sub_bytes_at [of _ 107 "107 + length ?ex" ?ex "[]"] by auto
  have loop: "meta_loop ?ex 0 no_meta = fold_exts es no_meta"
    using meta_loop_serialize [OF fits, of "[]"] by simp
  have pe: "parse_extensions ?ch 105 0x0303 =
      map_option (\<lambda>st. if m_maxVer st = 0 then st\<lparr>m_maxVer := 0x0303\<rparr> else st) (fold_exts es no_meta)"
    using len by (simp add: parse_extensions_def f x loop Option.map_conv_bind_option o_def)
  show ?thesis
    unfolding parseTLSClientHelloMeta_def by (simp add: f pe Let_def)
qed

lemma record_at_wrap:
  assumes len: "length ch < 65532"
    and parse: "parseTLSClientHelloMeta ch = Some st"
    and sni: "validateSNI (m_sni st)"
  shows "record_at (wrapRecord (wrapHandshake ch)) 0 = Some (Inr (m_sni st, m_maxVer st))"
proof -
  let ?hs = "wrapHandshake ch" and ?b = "wrapRecord (wrapHandshake ch)"
  have hs: "length ?hs = 4 + length ch" by (simp add: wrapHandshake_def)
  have b: "length ?b = 9 + length ch" by (simp add: wrapRecord_def hs)
  have t: "at ?b 0 = Some 0x16" by (simp add: wrapRecord_def)
  have l: "be16 ?b 3 = Some (4 + length ch)"
    using be16_put16_at [of "4 + length ch" "[0x16, 3, 1]" 3 ?hs] len by (simp add: wrapRecord_def hs)
  have r: "sub_bytes ?b 5 (9 + length ch) = Some ?hs"
    using sub_bytes_at [of "[0x16, 3, 1] @ put16 (4 + length ch)" 5 "9 + length ch" ?hs "[]"] hs
    by (simp add: wrapRecord_def)
  have one: "at ?hs 0 = Some 1" by (simp add: wrapHandshake_def)
  have lo: "be16 ?hs 2 = Some (length ch)"
    using be16_put16_at [of "length ch" "[1, word_of_nat (length ch div 65536)]" 2 ch] len
    by (simp add: wrapHandshake_def put24_def)
  have hi: "at_nat ?hs 1 = Some 0"
    using len by (simp add: wrapHandshake_def put24_def)
  have h: "be24 ?hs (Suc 0) = Some (length ch)"
    using lo hi by (simp add: be24_def numeral_2_eq_2)
  have c: "sub_bytes ?hs 4 (4 + length ch) = Some ch"
    using sub_bytes_at [of "[1] @ put24 (length ch)" 4 "4 + length ch" ch "[]"]
    by (simp add: wrapHandshake_def)
  have ne: "m_sni st \<noteq> []" using sni by (auto simp: validateSNI_def)
  have "hello_at ?hs 0 = Some (Inr (m_sni st, m_maxVer st))"
    by (simp add: hello_at_def h c parse ne sni hs Let_def)
  then show ?thesis by (simp add: record_at_def t l r one b hs)
qed

lemma fold_buildExtensions:
  assumes "validateSNI d"
  shows "fold_exts (buildExtensions d xkey skey padding) no_meta =
    Some \<lparr>m_sni = d, m_hasECH = True, m_alpns = [str ''h2'', str ''http/1.1''], m_maxVer = 0x0304\<rparr>"
proof -
  have d: "extractSNIFromExtension (buildSNI d) = Some d" "d \<noteq> []"
    using assms extractSNIFromExtension_buildSNI [of d]
    by (auto simp: validateSNI_def MaxSNINameLen_def takeWhile_eq_all_conv list_all_iff)
  have a: "extractALPNFromExtension ([0, 0xC, 2] @ str ''h2'' @ [8] @ str ''http/1.1'') =
      Some [str ''h2'', str ''http/1.1'']"
    by code_simp
  have v: "extractMaxSupportedVersion [4, 3, 4, 3, 3] = Some 0x0304"
    by code_simp
  show ?thesis
    unfolding buildExtensions_def Let_def
    by (simp add: mkExt_def meta_ext_def d a [simplified] v no_meta_def)
qed

lemma generated_sizes:
  assumes "validateSNI d" "rand_sizes rnd sid xkey skey padding"
  shows "list_all ext_fits (buildExtensions d xkey skey padding)"
    and "length (serializeExtensions (buildExtensions d xkey skey padding)) = 532 + length d"
    and "length (clientHelloBody rnd sid (buildExtensions d xkey skey padding)) = 639 + length d"
proof -
  have l: "length d \<le> 255" using assms by (simp add: validateSNI_def MaxSNINameLen_def)
  show "list_all ext_fits (buildExtensions d xkey skey padding)"
    using assms l by (simp add: buildExtensions_def mkExt_def ext_fits_def buildSNI_def buildKeyShare_def
        buildECH_def rand_sizes_def str_def)
  show s: "length (serializeExtensions (buildExtensions d xkey skey padding)) = 532 + length d"
    using assms by (simp add: buildExtensions_def mkExt_def buildSNI_def buildKeyShare_def
        buildECH_def rand_sizes_def str_def)
  show "length (clientHelloBody rnd sid (buildExtensions d xkey skey padding)) = 639 + length d"
    using assms s by (simp add: clientHelloBody_def Let_def rand_sizes_def cipherSuites_def)
qed

lemma generated_record:
  assumes v: "validateSNI d" and r: "rand_sizes rnd sid xkey skey padding"
  shows "ParseTLSClientHelloSNI
      (wrapRecord (wrapHandshake (clientHelloBody rnd sid (buildExtensions d xkey skey padding)))) =
    Some (d, 0x0304, True)"
proof -
  let ?es = "buildExtensions d xkey skey padding"
  have l: "length d \<le> 255" using v by (simp add: validateSNI_def MaxSNINameLen_def)
  have p: "parseTLSClientHelloMeta (clientHelloBody rnd sid ?es) =
      Some \<lparr>m_sni = d, m_hasECH = True, m_alpns = [str ''h2'', str ''http/1.1''], m_maxVer = 0x0304\<rparr>"
    using r generated_sizes [OF v r] l
    by (subst parse_clientHelloBody) (auto simp: rand_sizes_def fold_buildExtensions [OF v])
  have "record_at (wrapRecord (wrapHandshake (clientHelloBody rnd sid ?es))) 0 = Some (Inr (d, 0x0304))"
    using record_at_wrap [OF _ p] v l generated_sizes(3) [OF v r] by simp
  then show ?thesis
    by (simp add: ParseTLSClientHelloSNI_def scan_records.simps [of _ 0] wrapRecord_def)
qed

text \<open>
  C31. The generator and the parser agree: for every name the program accepts as a server name
  and whatever the random reads return, the generated record is parsed as a ClientHello
  for exactly that name, offering TLS 1.3.
\<close>

theorem generated_hello_parses:
  assumes "validateSNI domain" and "rand_sizes rnd sid xkey skey padding"
  shows "\<exists>rec. GenerateTLSClientHello domain (Some rnd) (Some sid) xkey skey padding = Inr rec \<and>
    ParseTLSClientHelloSNI rec = Some (domain, 0x0304, True)"
  using generated_record [OF assms] assms(1)
  by (auto simp: GenerateTLSClientHello_def validateSNI_def)

theorem generated_hello_parses_witness:
  "\<exists>rec. GenerateTLSClientHello (str ''ya.ru'') (Some (replicate 32 1)) (Some (replicate 32 2))
      (replicate 32 3) (replicate 65 4) (replicate 269 5) = Inr rec \<and>
    ParseTLSClientHelloSNI rec = Some (str ''ya.ru'', 0x0304, True)"
proof -
  have v: "validateSNI (str ''ya.ru'')" by code_simp
  have r: "rand_sizes (replicate 32 1) (replicate 32 2) (replicate 32 3) (replicate 65 4) (replicate 269 5)"
    by (simp add: rand_sizes_def)
  show ?thesis by (rule generated_hello_parses [OF v r])
qed

lemma locate_ext_sni:
  assumes "0 < length d" "length d \<le> 255"
  shows "locate_ext (pre @ serializeExtensions (mkExt 0 (buildSNI d) # es)) (length pre)
      (length pre + length (serializeExtensions (mkExt 0 (buildSNI d) # es))) =
    Some (length pre + 9, length pre + 9 + length d, True)"
proof -
  let ?post = "serializeExtensions es" and ?e = "length pre"
  define bs where "bs = pre @ serializeExtensions (mkExt 0 (buildSNI d) # es)"
  have b: "bs = pre @ put16 0 @ put16 (5 + length d) @ put16 (3 + length d) @ [0] @ put16 (length d) @ d @ ?post"
    by (simp add: bs_def mkExt_def buildSNI_def)
  have t: "be16 bs ?e = Some 0"
    using be16_put16_at [of 0 pre ?e] by (simp add: b)
  have l: "be16 bs (?e + 2) = Some (5 + length d)"
    using be16_put16_at [of "5 + length d" "pre @ put16 0" "?e + 2"] assms by (simp add: b)
  have i: "be16 bs (?e + 4) = Some (3 + length d)"
    using be16_put16_at [of "3 + length d" "pre @ put16 0 @ put16 (5 + length d)" "?e + 4"] assms
    by (simp add: b)
  have z: "at bs (?e + 6) = Some 0"
    by (simp add: b nth_append)
  have n: "be16 bs (?e + 7) = Some (length d)"
    using be16_put16_at [of "length d" "pre @ put16 0 @ put16 (5 + length d) @ put16 (3 + length d) @ [0]" "?e + 7"]
      assms by (simp add: b)
  have "locate_in_ext bs (?e + 4) (5 + length d) = Some (?e + 9, ?e + 9 + length d, True)"
    using assms i z n by (simp add: locate_in_ext_def add.assoc)
  moreover have "length (serializeExtensions (mkExt 0 (buildSNI d) # es)) = 9 + length d + length ?post"
    by (simp add: mkExt_def buildSNI_def)
  ultimately show ?thesis
    unfolding bs_def [symmetric] by (subst locate_ext.simps) (simp add: t l)
qed

lemma locate_generated:
  assumes v: "validateSNI d" and r: "rand_sizes rnd sid xkey skey padding"
  defines "rec \<equiv> wrapRecord (wrapHandshake (clientHelloBody rnd sid (buildExtensions d xkey skey padding)))"
  shows "LocateServerNameInRecord rec = Some (125, 125 + length d, True)"
    and "sub_bytes rec 125 (125 + length d) = Some d"
proof -
  let ?es = "buildExtensions d xkey skey padding"
  let ?ch = "clientHelloBody rnd sid ?es"
  have d: "0 < length d" "length d \<le> 255" using v by (auto simp: validateSNI_def MaxSNINameLen_def)
  obtain es where es: "?es = mkExt 0 (buildSNI d) # es" by (simp add: buildExtensions_def Let_def)
  have sz: "length (serializeExtensions ?es) = 532 + length d" "length rnd = 32" "length sid = 32"
    using generated_sizes [OF v r] r by (auto simp: rand_sizes_def)
  have small: "length (serializeExtensions ?es) < 65536" using sz d by simp
  note f = clientHelloBody_fields [OF sz(2,3) small]
  obtain hdr where hdr: "rec = hdr @ ?ch" "length hdr = 9" "hdr ! 0 = 0x16" "hdr ! 5 = 1"
    by (rule that [of "[0x16, 3, 1] @ put16 (length (wrapHandshake ?ch)) @ [1] @ put24 (length ?ch)"])
      (simp_all add: rec_def wrapRecord_def wrapHandshake_def nth_append)
  obtain pre where pre: "length pre = 107" "?ch = pre @ serializeExtensions ?es" using f(7) by blast
  have ex: "locate_ext rec 116 (116 + length (serializeExtensions ?es)) = Some (125, 125 + length d, True)"
    using locate_ext_sni [OF d, of "hdr @ pre" es] by (simp add: hdr pre es [symmetric])
  have n: "length rec = 648 + length d" by (simp add: hdr f(1) sz)
  have at: "at rec 0 = Some 0x16" "at rec 5 = Some 1" "at_nat rec 43 = Some 32" "be16 rec 76 = Some 34"
      "at_nat rec 112 = Some 1" "be16 rec 114 = Some (length (serializeExtensions ?es))"
    by (simp_all add: hdr f at_append_left at_nat_append_right be16_append_right del: at_lt at_nat_lt)
      (simp_all add: hdr)
  show "LocateServerNameInRecord rec = Some (125, 125 + length d, True)"
    unfolding LocateServerNameInRecord_def
    using ex by (simp add: Let_def at n sz(1) del: at_lt at_nat_lt)
  show "sub_bytes rec 125 (125 + length d) = Some d"
    using sub_bytes_at [of "hdr @ pre @ put16 0 @ put16 (5 + length d) @ put16 (3 + length d) @ [0] @ put16 (length d)"
        125 "125 + length d" d "serializeExtensions es"]
    unfolding hdr(1) pre(2) unfolding es by (simp add: hdr(2) pre(1) mkExt_def buildSNI_def)
qed

text \<open>
  The locator agrees with the generator: in a generated ClientHello the located range is the
  125th byte up to the end of the name, and the bytes there are the name itself.
\<close>

theorem generated_name_is_located:
  assumes "validateSNI domain" and "rand_sizes rnd sid xkey skey padding"
  shows "\<exists>rec. GenerateTLSClientHello domain (Some rnd) (Some sid) xkey skey padding = Inr rec \<and>
    LocateServerName rec = Some (125, 125 + length domain, True) \<and>
    sub_bytes rec 125 (125 + length domain) = Some domain"
  using locate_generated [OF assms] assms(1)
  by (auto simp: GenerateTLSClientHello_def LocateServerName_def validateSNI_def)

theorem generated_name_is_located_witness:
  "\<exists>rec. GenerateTLSClientHello (str ''b4.app'') (Some (replicate 32 1)) (Some (replicate 32 2))
      (replicate 32 3) (replicate 65 4) (replicate 269 5) = Inr rec \<and>
    LocateServerName rec = Some (125, 125 + length (str ''b4.app''), True) \<and>
    sub_bytes rec 125 (125 + length (str ''b4.app'')) = Some (str ''b4.app'')"
proof -
  have v: "validateSNI (str ''b4.app'')" by code_simp
  have r: "rand_sizes (replicate 32 1) (replicate 32 2) (replicate 32 3) (replicate 65 4) (replicate 269 5)"
    by (simp add: rand_sizes_def)
  show ?thesis by (rule generated_name_is_located [OF v r])
qed

end
