(* ===== verification/Quic_Varint.thy ===== *)
theory Quic_Varint
  imports B4_Prelude
begin

text \<open>
  QUIC variable-length integers: the two readers \<^verbatim>\<open>readVar\<close> (\<^verbatim>\<open>src/quic/sniff.go\<close>) and
  \<^verbatim>\<open>readVarint\<close> (\<^verbatim>\<open>src/quic/assemble.go\<close>) and the writer \<^verbatim>\<open>writeVar\<close> (\<^verbatim>\<open>src/quic/coalesce.go\<close>),
  on 64-bit words. A length of 0 reports a truncated buffer.
\<close>

definition shift_in :: "64 word \<Rightarrow> byte \<Rightarrow> 64 word" where
  "shift_in v x = push_bit 8 v OR ucast x"

definition readVar :: "bytes \<Rightarrow> 64 word \<times> nat" where
  "readVar b =
     (if length b = 0 then (0, 0)
      else let ln = 2 ^ unat (drop_bit 6 (b ! 0)) in
        if length b < ln then (0, 0)
        else (foldl shift_in (ucast (b ! 0 AND 0x3F)) (take (ln - 1) (drop 1 b)), ln))"

function varint_loop :: "bytes \<Rightarrow> nat \<Rightarrow> nat \<Rightarrow> 64 word \<Rightarrow> 64 word" where
  "varint_loop b i l val =
     (if i < l then varint_loop b (i + 1) l (push_bit 8 val OR ucast (b ! i)) else val)"
  by pat_completeness auto
termination
  by (relation "measure (\<lambda>(b, i, l, v). l - i)") auto

declare varint_loop.simps [simp del]

definition readVarint :: "bytes \<Rightarrow> 64 word \<times> nat" where
  "readVarint b =
     (if length b = 0 then (0, 0)
      else let l = 2 ^ unat (drop_bit 6 (b ! 0)) in
        if length b < l then (0, 0)
        else (varint_loop b 1 l (ucast (b ! 0 AND 0x3f)), l))"

definition byte_of :: "64 word \<Rightarrow> nat \<Rightarrow> byte" where
  "byte_of v k = ucast (drop_bit (8 * k) v)"

definition writeVar :: "bytes \<Rightarrow> 64 word \<Rightarrow> bytes" where
  "writeVar dst v =
     (if v < 2 ^ 6 then dst @ [byte_of v 0]
      else if v < 2 ^ 14 then dst @ [byte_of v 1 OR 0x40, byte_of v 0]
      else if v < 2 ^ 30 then dst @ [byte_of v 3 OR 0x80, byte_of v 2, byte_of v 1, byte_of v 0]
      else dst @ [byte_of v 7 OR 0xC0, byte_of v 6, byte_of v 5, byte_of v 4,
                  byte_of v 3, byte_of v 2, byte_of v 1, byte_of v 0])"

subsection \<open>Bits of the first byte\<close>

lemma mask6: "(x :: byte) AND 0x3F = take_bit 6 x"
  by (simp add: take_bit_eq_mask mask_eq_exp_minus_1)

lemma prefix_bits:
  fixes x :: byte
  assumes "take_bit 6 x = x" and p: "take_bit 6 p = 0"
  shows "(x OR p) AND 0x3F = x" and "drop_bit 6 (x OR p) = drop_bit 6 p"
proof -
  show "(x OR p) AND 0x3F = x" using assms by (simp add: mask6 take_bit_or)
  have "drop_bit 6 x = 0" using assms(1) by (metis drop_bit_take_bit diff_self_eq_0 take_bit_0)
  then show "drop_bit 6 (x OR p) = drop_bit 6 p" by (simp add: drop_bit_or)
qed

lemma take_bit_byte_of:
  assumes "take_bit (8 * k + 6) v = v"
  shows "take_bit 6 (byte_of v k) = byte_of v k"
proof (rule bit_word_eqI)
  fix n assume n: "n < LENGTH(8)"
  have "\<not> bit v (8 * k + n)" if "6 \<le> n"
    using assms that by (metis bit_take_bit_iff nat_add_left_cancel_less not_less)
  then show "bit (take_bit 6 (byte_of v k)) n = bit (byte_of v k) n"
    using n by (cases "6 \<le> n") (auto simp: byte_of_def bit_simps)
qed

lemma shift_in_byte_of:
  assumes "8 * (k + 1) \<le> 64"
  shows "shift_in (drop_bit (8 * (k + 1)) v) (byte_of v k) = drop_bit (8 * k) v"
proof (rule bit_word_eqI)
  fix n assume n: "n < LENGTH(64)"
  have "8 * (k + 1) + (n - 8) = 8 * k + n" if "8 \<le> n" using that by simp
  then show "bit (shift_in (drop_bit (8 * (k + 1)) v) (byte_of v k)) n = bit (drop_bit (8 * k) v) n"
    using n by (cases "n < 8") (auto simp: shift_in_def byte_of_def bit_simps)
qed

lemma ucast_byte_of_top:
  assumes "take_bit (8 * k + 8) v = v"
  shows "(ucast (byte_of v k) :: 64 word) = drop_bit (8 * k) v"
proof (rule bit_word_eqI)
  fix n assume n: "n < LENGTH(64)"
  have "\<not> bit v (8 * k + n)" if "8 \<le> n"
    using assms that by (metis bit_take_bit_iff nat_add_left_cancel_less not_less)
  then show "bit (ucast (byte_of v k) :: 64 word) n = bit (drop_bit (8 * k) v) n"
    using n by (cases "8 \<le> n") (auto simp: byte_of_def bit_simps)
qed

lemma take_bit_less: "v < 2 ^ n \<Longrightarrow> n < 64 \<Longrightarrow> take_bit n v = (v :: 64 word)"
  by (simp add: take_bit_eq_mask less_mask_eq)

subsection \<open>Reading back what was written\<close>

definition be_bytes :: "64 word \<Rightarrow> nat \<Rightarrow> bytes" where
  "be_bytes v k = map (byte_of v) (rev [0..<k])"

lemma foldl_shift_in_be_bytes:
  "8 * k \<le> 64 \<Longrightarrow> foldl shift_in (drop_bit (8 * k) v) (be_bytes v k) = v"
proof (induction k)
  case 0
  then show ?case by (simp add: be_bytes_def)
next
  case (Suc k)
  have "shift_in (drop_bit (8 * (k + 1)) v) (byte_of v k) = drop_bit (8 * k) v"
    using Suc.prems by (intro shift_in_byte_of) simp
  with Suc show ?case by (simp add: be_bytes_def)
qed

lemma readVar_prefixed:
  assumes p: "take_bit 6 p = 0" "2 ^ unat (drop_bit 6 p) = Suc k" and k: "8 * k < 64"
    and v: "take_bit (8 * k + 6) v = v"
  shows "readVar ((byte_of v k OR p) # be_bytes v k @ rest) = (v, Suc k)"
proof -
  note x = prefix_bits [OF take_bit_byte_of [OF v] p(1)]
  have "take_bit (8 * k + 8) (take_bit (8 * k + 6) v) = take_bit (8 * k + 6) v" by simp
  then have "take_bit (8 * k + 8) v = v" by (simp add: v)
  then have top: "(ucast (byte_of v k) :: 64 word) = drop_bit (8 * k) v" by (rule ucast_byte_of_top)
  have "foldl shift_in (drop_bit (8 * k) v) (be_bytes v k) = v"
    using k by (intro foldl_shift_in_be_bytes) simp
  then show ?thesis
    by (simp add: readVar_def Let_def x p(2) top be_bytes_def del: drop_bit_or)
qed

lemma varint_loop_foldl:
  "l \<le> length b \<Longrightarrow> varint_loop b i l v = foldl shift_in v (take (l - i) (drop i b))"
proof (induction b i l v rule: varint_loop.induct)
  case (1 b i l v)
  show ?case
  proof (cases "i < l")
    case True
    then have "take (l - i) (drop i b) = b ! i # take (l - (i + 1)) (drop (i + 1) b)"
      using "1.prems" by (simp add: take_Cons' Cons_nth_drop_Suc [symmetric])
    with True 1 show ?thesis
      by (simp add: varint_loop.simps [of b i] shift_in_def)
  next
    case False
    then show ?thesis by (simp add: varint_loop.simps [of b i])
  qed
qed

lemma readVarint_readVar: "readVarint b = readVar b"
  by (simp add: readVarint_def readVar_def Let_def varint_loop_foldl)

lemma readVar_written:
  assumes "v < 2 ^ 62"
  shows "readVar (writeVar [] v @ rest) = (v, length (writeVar [] v))"
proof -
  have e: "be_bytes v 0 = []" "be_bytes v (Suc 0) = [byte_of v 0]"
      "be_bytes v 3 = [byte_of v 2, byte_of v 1, byte_of v 0]"
      "be_bytes v 7 = [byte_of v 6, byte_of v 5, byte_of v 4, byte_of v 3, byte_of v 2, byte_of v 1, byte_of v 0]"
    by (simp_all add: be_bytes_def eval_nat_numeral)
  have r: "take_bit (8 * k + 6) v = v \<Longrightarrow> take_bit 6 p = 0 \<Longrightarrow> 2 ^ unat (drop_bit 6 p) = Suc k \<Longrightarrow>
      8 * k < 64 \<Longrightarrow> readVar ((byte_of v k OR p) # be_bytes v k @ rest) = (v, Suc k)" for k p
    by (rule readVar_prefixed)
  consider "v < 2 ^ 6" | "\<not> v < 2 ^ 6" "v < 2 ^ 14" | "\<not> v < 2 ^ 14" "v < 2 ^ 30" | "\<not> v < 2 ^ 30"
    by blast
  then show ?thesis
  proof cases
    case 1
    then show ?thesis using r [of 0 0] by (simp add: writeVar_def e take_bit_less)
  next
    case 2
    then show ?thesis using r [of 1 "0x40"] by (simp add: writeVar_def e take_bit_less)
  next
    case 3
    then have "\<not> v < 2 ^ 6" by (simp add: word_less_nat_alt)
    with 3 show ?thesis using r [of 3 "0x80"] by (simp add: writeVar_def e take_bit_less)
  next
    case 4
    then have "\<not> v < 2 ^ 6" "\<not> v < 2 ^ 14" by (simp_all add: word_less_nat_alt)
    with 4 assms show ?thesis using r [of 7 "0xC0"] by (simp add: writeVar_def e take_bit_less)
  qed
qed

text \<open>
  Every value below \<open>2 ^ 62\<close> (the range of the encoding) survives \<^verbatim>\<open>writeVar\<close> followed by
  either of the two readers of the package, whatever follows it in the buffer, and the reader
  consumes exactly the bytes written; on every buffer the two readers agree.
\<close>

theorem readVar_writeVar:
  assumes "v < 2 ^ 62"
  shows "readVar (writeVar [] v @ rest) = (v, length (writeVar [] v)) \<and>
    readVarint (writeVar [] v @ rest) = (v, length (writeVar [] v)) \<and> readVarint b = readVar b"
  using assms by (simp add: readVar_written readVarint_readVar)

theorem readVar_writeVar_witness:
  "(494878333 :: 64 word) < 2 ^ 62 \<and>
   readVar (writeVar [] 494878333 @ [1, 2, 3]) = (494878333, length (writeVar [] 494878333)) \<and>
   readVarint (writeVar [] 494878333 @ [1, 2, 3]) = (494878333, length (writeVar [] 494878333)) \<and>
   readVarint [0x40] = readVar [0x40]"
proof -
  have h: "(494878333 :: 64 word) < 2 ^ 62" by simp
  show ?thesis using h readVar_writeVar [OF h, of "[1, 2, 3]"  "[0x40]"] by simp
qed

end
