(* ===== verification/Quic_Packet.thy ===== *)
theory Quic_Packet
  imports Quic_Varint Go_Strings
begin

text \<open>
  QUIC Initial packets: \<^verbatim>\<open>src/quic/initial.go\<close>, \<^verbatim>\<open>parse.go\<close>, \<^verbatim>\<open>hkdf.go\<close>, \<^verbatim>\<open>coalesce.go\<close> and the header
  walk of \<^verbatim>\<open>locate.go\<close>. The cryptographic primitives (HMAC-SHA-256, HKDF-Expand, the AES block
  function, AES-GCM) are the fields of \<open>crypto_lib\<close>, an argument of the definitions that call
  them; \<open>crypto_ok\<close> collects what their documentation promises. The key schedule, the header
  walk, the header protection and the nonce are modelled. In the results an outer
  \<^const>\<open>None\<close> is a panic and an inner one the code's \<^verbatim>\<open>false\<close>.
\<close>

record crypto_lib =
  hmac_sha256 :: "bytes \<Rightarrow> bytes \<Rightarrow> bytes"
  hkdf_expand :: "bytes \<Rightarrow> bytes \<Rightarrow> nat \<Rightarrow> bytes option"
  aes_encrypt :: "bytes \<Rightarrow> bytes \<Rightarrow> bytes"
  gcm_seal :: "bytes \<Rightarrow> bytes \<Rightarrow> bytes \<Rightarrow> bytes \<Rightarrow> bytes"
  gcm_open :: "bytes \<Rightarrow> bytes \<Rightarrow> bytes \<Rightarrow> bytes \<Rightarrow> bytes option"

definition crypto_ok :: "crypto_lib \<Rightarrow> bool" where
  "crypto_ok C \<longleftrightarrow>
     (\<forall>s info n r. hkdf_expand C s info n = Some r \<longrightarrow> length r = n) \<and>
     (\<forall>k x. length x = 16 \<longrightarrow> length (aes_encrypt C k x) = 16) \<and>
     (\<forall>k n p a. length (gcm_seal C k n p a) = length p + 16) \<and>
     (\<forall>k n p a. length n = 12 \<longrightarrow> gcm_open C k n (gcm_seal C k n p a) a = Some p) \<and>
     (\<forall>k n c a p. gcm_open C k n c a = Some p \<longrightarrow> length c = length p + 16)"

subsection \<open>Headers\<close>

definition u32_at :: "bytes \<Rightarrow> nat \<Rightarrow> nat" where
  "u32_at b i = 16777216 * unat (b ! i) + 65536 * unat (b ! (i + 1)) +
                256 * unat (b ! (i + 2)) + unat (b ! (i + 3))"

definition versionV1 :: nat where "versionV1 = 0x00000001"
definition versionV2 :: nat where "versionV2 = 0x6b3343cf"
definition maxCIDLen :: nat where "maxCIDLen = 20"
definition shortHdrMinLen :: nat where "shortHdrMinLen = 18"

definition IsInitial :: "bytes \<Rightarrow> bool" where
  "IsInitial b =
     (if length b < 7 \<or> b ! 0 AND 0x80 = 0 then False
      else let ptype = drop_bit 4 (b ! 0 AND 0x30); ver = u32_at b 1 in
        if ver = versionV1 then ptype = 0x00
        else if ver = versionV2 then ptype = 0x01
        else False)"

definition LooksLikeQUIC :: "bytes \<Rightarrow> bool option" where
  "LooksLikeQUIC b =
     (if length b < 7 \<or> b ! 0 AND 0xC0 \<noteq> 0xC0 then Some False
      else do {
        let off = 1 + 4;
        if length b < off + 1 then Some False
        else do {
          dlen \<leftarrow> at_nat b off;
          let off = off + 1;
          if dlen > 20 \<or> length b < off + dlen + 1 then Some False
          else do {
            let off = off + dlen;
            slen \<leftarrow> at_nat b off;
            let off = off + 1;
            if slen > 20 \<or> length b < off + slen then Some False else Some True } } })"

definition LooksLikeShortHeader :: "bytes \<Rightarrow> bool" where
  "LooksLikeShortHeader b \<longleftrightarrow> length b \<ge> shortHdrMinLen \<and> b ! 0 AND 0x80 = 0"

definition LooksLikeVersionedLongHeader :: "bytes \<Rightarrow> bool option" where
  "LooksLikeVersionedLongHeader b =
     (if length b < 7 \<or> b ! 0 AND 0x80 = 0 then Some False
      else if u32_at b 1 \<noteq> versionV1 \<and> u32_at b 1 \<noteq> versionV2 then Some False
      else do {
        let off = 1 + 4;
        dlen \<leftarrow> at_nat b off;
        let off = off + 1;
        if dlen > maxCIDLen \<or> length b < off + dlen + 1 then Some False
        else do {
          let off = off + dlen;
          slen \<leftarrow> at_nat b off;
          let off = off + 1;
          Some (slen \<le> maxCIDLen \<and> length b \<ge> off + slen) } })"

definition ParseDCID :: "bytes \<Rightarrow> bytes option option" where
  "ParseDCID b =
     (if length b < 7 \<or> b ! 0 AND 0x80 = 0 then Some None
      else do {
        let off = 1 + 4;
        dlen \<leftarrow> at_nat b off;
        let off = off + 1;
        if length b < off + dlen then Some None
        else do { d \<leftarrow> sub_bytes b off (off + dlen); Some (Some d) } })"

definition ParseInitialCIDs :: "bytes \<Rightarrow> (bytes \<times> bytes \<times> nat) option option" where
  "ParseInitialCIDs b =
     (if \<not> IsInitial b then Some None
      else do {
        let version = u32_at b 1;
        let off = 1 + 4;
        if length b < off + 1 then Some None
        else do {
          dlen \<leftarrow> at_nat b off;
          let off = off + 1;
          if dlen > maxCIDLen \<or> length b < off + dlen + 1 then Some None
          else do {
            dcid \<leftarrow> sub_bytes b off (off + dlen);
            let off = off + dlen;
            slen \<leftarrow> at_nat b off;
            let off = off + 1;
            if slen > maxCIDLen \<or> length b < off + slen then Some None
            else do {
              scid \<leftarrow> sub_bytes b off (off + slen);
              Some (Some (dcid, scid, version)) } } } })"

subsection \<open>Keys\<close>

definition saltV1 :: bytes where
  "saltV1 = [0x38, 0x76, 0x2c, 0xf7, 0xf5, 0x59, 0x34, 0xb3, 0x4d, 0x17, 0x9a, 0xe6, 0xa4, 0xc8,
             0x0c, 0xad, 0xcc, 0xbb, 0x7f, 0x0a]"

definition saltV2 :: bytes where
  "saltV2 = [0x0d, 0xed, 0xe3, 0xde, 0xf7, 0x00, 0xa6, 0xdb, 0x81, 0x93, 0x81, 0xbe, 0x6e, 0x26,
             0x9d, 0xcb, 0xf9, 0xbd, 0x2e, 0xd9]"

definition hkdfExpandLabel :: "crypto_lib \<Rightarrow> bytes \<Rightarrow> gostr \<Rightarrow> nat \<Rightarrow> bytes option" where
  "hkdfExpandLabel C secret label outLen =
     (let fullLabel = str ''tls13 '' @ label;
          info = put16 outLen @ [word_of_nat (length fullLabel)] @ fullLabel @ [0]
      in hkdf_expand C secret info outLen)"

definition hkdfExtractSHA256 :: "crypto_lib \<Rightarrow> bytes \<Rightarrow> bytes \<Rightarrow> bytes" where
  "hkdfExtractSHA256 C salt ikm = hmac_sha256 C salt ikm"

definition NewCipher :: "bytes \<Rightarrow> bytes option" where
  "NewCipher key = (if length key = 16 \<or> length key = 24 \<or> length key = 32 then Some key else None)"

definition version_params :: "nat \<Rightarrow> (bytes \<times> gostr) option" where
  "version_params version =
     (if version = versionV1 then Some (saltV1, str ''quic'')
      else if version = versionV2 then Some (saltV2, str ''quicv2'')
      else None)"

record keys =
  hpKey :: bytes
  aeadKey :: bytes
  ivBytes :: bytes

definition deriveInitial :: "crypto_lib \<Rightarrow> bytes \<Rightarrow> nat \<Rightarrow> keys option" where
  "deriveInitial C dcid version = do {
     (salt, labelPrefix) \<leftarrow> version_params version;
     let secret = hkdfExtractSHA256 C salt dcid;
     client \<leftarrow> hkdfExpandLabel C secret (str ''client in'') 32;
     key \<leftarrow> hkdfExpandLabel C client (labelPrefix @ str '' key'') 16;
     iv \<leftarrow> hkdfExpandLabel C client (labelPrefix @ str '' iv'') 12;
     hpkey \<leftarrow> hkdfExpandLabel C client (labelPrefix @ str '' hp'') 16;
     block \<leftarrow> NewCipher key;
     hp \<leftarrow> NewCipher hpkey;
     Some \<lparr>hpKey = hp, aeadKey = block, ivBytes = iv\<rparr> }"

definition deriveHP :: "crypto_lib \<Rightarrow> bytes \<Rightarrow> nat \<Rightarrow> bytes option" where
  "deriveHP C dcid version = do {
     (salt, labelPrefix) \<leftarrow> version_params version;
     let secret = hkdfExtractSHA256 C salt dcid;
     client \<leftarrow> hkdfExpandLabel C secret (str ''client in'') 32;
     hpkey \<leftarrow> hkdfExpandLabel C client (labelPrefix @ str '' hp'') 16;
     NewCipher hpkey }"

subsection \<open>Decrypting\<close>

text \<open>The part of \<^verbatim>\<open>DecryptInitial\<close> that walks the header: the offset of the packet number and the
  value of the Length field.\<close>

definition decrypt_walk :: "bytes \<Rightarrow> (nat \<times> 64 word) option option" where
  "decrypt_walk packet = (
     let off = 1 + 4 in
     if length packet < off + 1 then Some None else do {
     dlen \<leftarrow> at_nat packet off;
     let off = off + 1;
     if length packet < off + dlen + 1 then Some None else do {
     let off = off + dlen;
     slen \<leftarrow> at_nat packet off;
     let off = off + 1;
     if length packet < off + slen then Some None else do {
     let off = off + slen;
     let (tlen, n) = readVar (drop off packet);
     if n = 0 \<or> unat tlen > length packet \<or> length packet < off + n + unat tlen then Some None
     else do {
     let off = off + n + unat tlen;
     let (len, m) = readVar (drop off packet);
     if m = 0 then Some None else Some (Some (off + m, len)) } } } })"

fun xor_list :: "bytes \<Rightarrow> bytes \<Rightarrow> bytes" where
  "xor_list (x # xs) (y # ys) = (x XOR y) # xor_list xs ys"
| "xor_list xs [] = xs"
| "xor_list [] ys = []"

definition xor_tail :: "bytes \<Rightarrow> bytes \<Rightarrow> bytes" where
  "xor_tail iv pn = take (length iv - length pn) iv @ xor_list (drop (length iv - length pn) iv) pn"

text \<open>Header protection removed, nonce and additional data formed, ciphertext opened.\<close>

definition decrypt_payload :: "crypto_lib \<Rightarrow> keys \<Rightarrow> bytes \<Rightarrow> nat \<Rightarrow> 64 word \<Rightarrow> bytes option option" where
  "decrypt_payload C K packet pnOff len =
     (if pnOff + 4 + 16 > length packet then Some None
      else do {
        sample \<leftarrow> sub_bytes packet (pnOff + 4) (pnOff + 4 + 16);
        let mask = aes_encrypt C (hpKey K) sample;
        mask0 \<leftarrow> at mask 0;
        let first = packet ! 0 XOR (mask0 AND 0x0f);
        let pnLen = unat (first AND 0x03) + 1;
        if pnOff + pnLen > length packet then Some None
        else do {
          pnEnc \<leftarrow> sub_bytes packet pnOff (pnOff + pnLen);
          pnMask \<leftarrow> sub_bytes mask 1 (1 + pnLen);
          let pnBytes = xor_list pnEnc pnMask;
          let aad = (take pnOff packet)[0 := first] @ pnBytes;
          let nonce = xor_tail (ivBytes K) pnBytes;
          let ctEnd = (if unat len > pnLen \<and> unat len \<le> length packet - pnOff
                       then pnOff + unat len else length packet);
          ct \<leftarrow> sub_bytes packet (pnOff + pnLen) ctEnd;
          Some (gcm_open C (aeadKey K) nonce ct aad) } })"

definition DecryptInitial :: "crypto_lib \<Rightarrow> bytes \<Rightarrow> bytes \<Rightarrow> bytes option option" where
  "DecryptInitial C dcid packet =
     (if length packet < 7 \<or> packet ! 0 AND 0x80 = 0 then Some None
      else case deriveInitial C dcid (u32_at packet 1) of
        None \<Rightarrow> Some None
      | Some K \<Rightarrow> do {
          w \<leftarrow> decrypt_walk packet;
          case w of
            None \<Rightarrow> Some None
          | Some (pnOff, len) \<Rightarrow> decrypt_payload C K packet pnOff len })"

subsection \<open>The header walk of the locator\<close>

definition parseHeaderLength :: "crypto_lib \<Rightarrow> bytes \<Rightarrow> (nat \<times> nat) option option" where
  "parseHeaderLength C packet =
     (if length packet < 7 then Some None else do {
     let off = 1 + 4;
     if length packet < off + 1 then Some None else do {
     dlen \<leftarrow> at_nat packet off;
     let off = off + 1;
     if length packet < off + dlen then Some None else do {
     dcid \<leftarrow> sub_bytes packet off (off + dlen);
     let off = off + dlen;
     if length packet < off + 1 then Some None else do {
     slen \<leftarrow> at_nat packet off;
     let off = off + 1;
     if length packet < off + slen then Some None else do {
     let off = off + slen;
     let (tlen, n) = readVar (drop off packet);
     if n = 0 then Some None
     else if unat tlen > length packet \<or> off + n + unat tlen > length packet then Some None
     else do {
     let off = off + n + unat tlen;
     let (_, m) = readVar (drop off packet);
     if m = 0 then Some None else do {
     let pnOff = off + m;
     if pnOff + 4 + 16 > length packet then Some None else
     case deriveHP C dcid (u32_at packet 1) of
       None \<Rightarrow> Some (Some (pnOff, 2))
     | Some hp \<Rightarrow> do {
         sample \<leftarrow> sub_bytes packet (pnOff + 4) (pnOff + 4 + 16);
         let mask = aes_encrypt C hp sample;
         mask0 \<leftarrow> at mask 0;
         let first = packet ! 0 XOR (mask0 AND 0x0f);
         Some (Some (pnOff, unat (first AND 0x03) + 1)) } } } } } } } })"

subsection \<open>Building and coalescing\<close>

definition initialFirstByte :: "nat \<Rightarrow> byte option" where
  "initialFirstByte version =
     (if version = versionV1 then Some (0xC0 OR 0x03)
      else if version = versionV2 then Some (0xC0 OR 0x10 OR 0x03)
      else None)"

definition dummyPacketNumber :: nat where "dummyPacketNumber = 20"
definition dummyPayloadLen :: nat where "dummyPayloadLen = 32"

text \<open>The masking of the packet number: \<^verbatim>\<open>pkt[off+i] ^= mask[i]\<close> for each \<open>i\<close>.\<close>

fun xor_from :: "bytes \<Rightarrow> nat \<Rightarrow> bytes \<Rightarrow> bytes" where
  "xor_from pkt off [] = pkt"
| "xor_from pkt off (m # ms) = xor_from (pkt[off := pkt ! off XOR m]) (off + 1) ms"

definition BuildDummyInitial ::
  "crypto_lib \<Rightarrow> bytes \<Rightarrow> bytes \<Rightarrow> nat \<Rightarrow> nat \<Rightarrow> int \<Rightarrow> bytes option option" where
  "BuildDummyInitial C dcid scid version packetNumber payloadLen =
     (if length dcid = 0 \<or> length dcid > maxCIDLen \<or> length scid > maxCIDLen then Some None
      else
        let plen = (if payloadLen < 4 then dummyPayloadLen else nat payloadLen) in
        case initialFirstByte version of
          None \<Rightarrow> Some None
        | Some first \<Rightarrow>
            (case deriveInitial C dcid version of
               None \<Rightarrow> Some None
             | Some K \<Rightarrow> do {
                 let hdr = [first] @ put32 version @ [word_of_nat (length dcid)] @ dcid @
                           [word_of_nat (length scid)] @ scid;
                 let hdr = writeVar hdr 0;
                 let hdr = writeVar hdr (word_of_nat (4 + plen + 16));
                 let pnOff = length hdr;
                 let hdr = hdr @ put32 packetNumber;
                 pn \<leftarrow> sub_bytes hdr pnOff (pnOff + 4);
                 let nonce = xor_tail (ivBytes K) pn;
                 let pkt = hdr @ gcm_seal C (aeadKey K) nonce (replicate plen 0) hdr;
                 if pnOff + 4 + 16 > length pkt then Some None
                 else do {
                   sample \<leftarrow> sub_bytes pkt (pnOff + 4) (pnOff + 4 + 16);
                   let mask = aes_encrypt C (hpKey K) sample;
                   mask0 \<leftarrow> at mask 0;
                   pnMask \<leftarrow> sub_bytes mask 1 5;
                   let pkt = pkt[0 := pkt ! 0 XOR (mask0 AND 0x0f)];
                   Some (Some (xor_from pkt pnOff pnMask)) } }))"

definition CoalesceInitial :: "crypto_lib \<Rightarrow> bytes \<Rightarrow> int \<Rightarrow> bytes option option" where
  "CoalesceInitial C payload payloadLen = do {
     r \<leftarrow> ParseInitialCIDs payload;
     case r of
       None \<Rightarrow> Some None
     | Some (dcid, scid, version) \<Rightarrow>
         if length dcid = 0 then Some None
         else do {
           let sealDCID = dcid[0 := dcid ! 0 XOR 0xff];
           d \<leftarrow> BuildDummyInitial C sealDCID scid version dummyPacketNumber payloadLen;
           case d of
             None \<Rightarrow> Some None
           | Some dummy \<Rightarrow>
               Some (Some ((take 6 dummy @ dcid @ drop (6 + length dcid) dummy) @ payload)) } }"

subsection \<open>Nothing panics\<close>

lemma and_three: "unat ((x :: byte) AND 3) \<le> 3"
proof -
  have "x AND 3 \<le> 3" by (rule word_and_le1)
  then show ?thesis by (simp add: word_le_nat_alt)
qed

lemma no_panic_ParseDCID [no_panic_intros]: "no_panic (ParseDCID b)"
  unfolding ParseDCID_def Let_def by (auto intro!: no_panic_intros)

lemma no_panic_LooksLikeQUIC [no_panic_intros]: "no_panic (LooksLikeQUIC b)"
  unfolding LooksLikeQUIC_def Let_def by (intro no_panic_intros) auto

lemma no_panic_LooksLikeVersionedLongHeader [no_panic_intros]:
  "no_panic (LooksLikeVersionedLongHeader b)"
  unfolding LooksLikeVersionedLongHeader_def Let_def by (intro no_panic_intros) auto

lemma no_panic_ParseInitialCIDs [no_panic_intros]: "no_panic (ParseInitialCIDs b)"
  unfolding ParseInitialCIDs_def Let_def by (intro no_panic_intros) auto

lemma no_panic_decrypt_walk [no_panic_intros]: "no_panic (decrypt_walk packet)"
  unfolding decrypt_walk_def Let_def by (intro no_panic_intros) auto

lemma crypto_ok_expand:
  "crypto_ok C \<Longrightarrow> hkdfExpandLabel C s l n = Some r \<Longrightarrow> length r = n"
  by (auto simp: crypto_ok_def hkdfExpandLabel_def Let_def)

lemma deriveInitial_sizes:
  "crypto_ok C \<Longrightarrow> deriveInitial C dcid v = Some K \<Longrightarrow>
   length (hpKey K) = 16 \<and> length (aeadKey K) = 16 \<and> length (ivBytes K) = 12"
  by (auto simp: deriveInitial_def bind_eq_Some_conv Let_def NewCipher_def
      split: if_splits prod.splits dest: crypto_ok_expand)

lemma aes_block: "crypto_ok C \<Longrightarrow> length x = 16 \<Longrightarrow> length (aes_encrypt C k x) = 16"
  by (simp add: crypto_ok_def)

lemma no_panic_mask:
  assumes "crypto_ok C" and "length x = 16"
  shows "no_panic (at (aes_encrypt C k x) 0)"
    and "no_panic (sub_bytes (aes_encrypt C k x) 1 (1 + (unat ((y :: byte) AND 3) + 1)))"
    and "no_panic (sub_bytes (aes_encrypt C k x) 1 5)"
  using aes_block [OF assms] and_three [of y] by (auto intro!: no_panic_intros)

lemma no_panic_decrypt_payload [no_panic_intros]:
  assumes "crypto_ok C"
  shows "no_panic (decrypt_payload C K packet pnOff len)"
  unfolding decrypt_payload_def Let_def
  by (intro no_panic_mask [OF assms] no_panic_intros) (auto dest!: sub_bytes_SomeD)

lemma no_panic_DecryptInitial [no_panic_intros]:
  assumes "crypto_ok C"
  shows "no_panic (DecryptInitial C dcid packet)"
  unfolding DecryptInitial_def Let_def by (intro no_panic_intros assms)

lemma no_panic_parseHeaderLength [no_panic_intros]:
  assumes "crypto_ok C"
  shows "no_panic (parseHeaderLength C packet)"
  unfolding parseHeaderLength_def Let_def
  by (intro no_panic_mask [OF assms] no_panic_intros) (auto dest!: sub_bytes_SomeD)

subsection \<open>The two header walks agree\<close>

lemma deriveHP_eq: "deriveInitial C dcid v = Some K \<Longrightarrow> deriveHP C dcid v = Some (hpKey K)"
  by (auto simp: deriveInitial_def deriveHP_def bind_eq_Some_conv Let_def split: prod.splits)

lemma parseHeaderLength_decrypt_walk:
  assumes "7 \<le> length packet" and "decrypt_walk packet = Some (Some (pnOff, len))"
    and "pnOff + 4 + 16 \<le> length packet"
    and "ParseDCID packet = Some (Some dcid)"
    and "deriveHP C dcid (u32_at packet 1) = Some hp"
  shows "parseHeaderLength C packet =
    do { mask0 \<leftarrow> at (aes_encrypt C hp (take 16 (drop (pnOff + 4) packet))) 0;
         Some (Some (pnOff, unat ((packet ! 0 XOR (mask0 AND 0x0f)) AND 0x03) + 1)) }"
  using assms
  by (auto simp: decrypt_walk_def parseHeaderLength_def ParseDCID_def Let_def bind_eq_Some_conv
      split: if_splits prod.splits option.splits)

lemma decrypt_payload_opened:
  assumes "decrypt_payload C K packet pnOff len = Some (Some plain)"
  shows "\<exists>sample mask0 ctEnd ct nonce aad.
    sub_bytes packet (pnOff + 4) (pnOff + 4 + 16) = Some sample \<and>
    at (aes_encrypt C (hpKey K) sample) 0 = Some mask0 \<and>
    sub_bytes packet (pnOff + (unat ((packet ! 0 XOR (mask0 AND 0x0f)) AND 0x03) + 1)) ctEnd = Some ct \<and>
    gcm_open C (aeadKey K) nonce ct aad = Some plain"
  using assms unfolding decrypt_payload_def Let_def
  by (elim go_elims) (simp, simp, blast)

lemma opened_slice:
  assumes "crypto_ok C" and "ParseDCID packet = Some (Some dcid)"
    and "DecryptInitial C dcid packet = Some (Some plain)"
  shows "\<exists>pnOff pnLen ctEnd key nonce aad.
    parseHeaderLength C packet = Some (Some (pnOff, pnLen)) \<and>
    pnOff + pnLen \<le> ctEnd \<and> ctEnd \<le> length packet \<and>
    gcm_open C key nonce (take (ctEnd - (pnOff + pnLen)) (drop (pnOff + pnLen) packet)) aad = Some plain"
proof -
  from assms(3) obtain K pnOff len where
    long: "7 \<le> length packet" and K: "deriveInitial C dcid (u32_at packet 1) = Some K"
    and w: "decrypt_walk packet = Some (Some (pnOff, len))"
    and p: "decrypt_payload C K packet pnOff len = Some (Some plain)"
    by (auto simp: DecryptInitial_def bind_eq_Some_conv split: if_splits option.splits)
  from p have room: "pnOff + 4 + 16 \<le> length packet"
    by (auto simp: decrypt_payload_def split: if_splits)
  let ?mask = "aes_encrypt C (hpKey K) (take 16 (drop (pnOff + 4) packet))"
  let ?pnLen = "unat ((packet ! 0 XOR (?mask ! 0 AND 0x0f)) AND 0x03) + 1"
  have "length ?mask = 16" using room by (intro aes_block [OF assms(1)]) simp
  then have h: "parseHeaderLength C packet = Some (Some (pnOff, ?pnLen))"
    using parseHeaderLength_decrypt_walk [OF long w room assms(2) deriveHP_eq [OF K]] by simp
  from decrypt_payload_opened [OF p] \<open>length ?mask = 16\<close> room obtain ctEnd ct nonce aad where
    ct: "sub_bytes packet (pnOff + ?pnLen) ctEnd = Some ct"
    and op: "gcm_open C (aeadKey K) nonce ct aad = Some plain"
    by auto
  show ?thesis
    using h sub_bytes_SomeD [OF ct] op by blast
qed

text \<open>
  C29. The locator and the decrypter agree on where the protected payload starts: when
  \<^verbatim>\<open>DecryptInitial\<close> succeeds with the connection id of the packet, \<^verbatim>\<open>parseHeaderLength\<close> returns the
  packet-number offset and length, and the ciphertext that was opened is the slice of the
  packet that starts right behind them.
\<close>

theorem locator_and_decrypter_agree:
  assumes "crypto_ok C" and "ParseDCID packet = Some (Some dcid)"
    and "DecryptInitial C dcid packet = Some (Some plain)"
  shows "\<exists>pnOff pnLen ctEnd key nonce aad.
    parseHeaderLength C packet = Some (Some (pnOff, pnLen)) \<and>
    pnOff + pnLen \<le> ctEnd \<and> ctEnd \<le> length packet \<and>
    gcm_open C key nonce (take (ctEnd - (pnOff + pnLen)) (drop (pnOff + pnLen) packet)) aad = Some plain"
  using assms by (rule opened_slice)

subsection \<open>A built packet decrypts\<close>

lemma writeVar_append: "writeVar dst v = dst @ writeVar [] v"
  by (simp add: writeVar_def)

lemma xor_from_append:
  "length ms \<le> length xs \<Longrightarrow> off = length pre \<Longrightarrow>
   xor_from (pre @ xs @ post) off ms = pre @ xor_list xs ms @ post"
proof (induction ms arbitrary: xs pre off)
  case Nil
  then show ?case by (cases xs) auto
next
  case (Cons m ms)
  then obtain x xs' where xs: "xs = x # xs'" by (cases xs) auto
  have "xor_from ((pre @ [x XOR m]) @ xs' @ post) (off + 1) ms = (pre @ [x XOR m]) @ xor_list xs' ms @ post"
    using Cons.prems xs by (intro Cons.IH) auto
  then show ?case using Cons.prems xs by (simp add: nth_append)
qed

lemma length_xor_list [simp]: "length (xor_list xs ms) = length xs"
  by (induction xs ms rule: xor_list.induct) auto

lemma xor_list_twice: "xor_list (xor_list xs ms) ms = xs"
  by (induction xs ms rule: xor_list.induct) (auto simp: xor.assoc)

lemma u32_at_put32: "v < 4294967296 \<Longrightarrow> u32_at (x # put32 v @ rest) 1 = v"
proof -
  assume v: "v < 4294967296"
  have "u32_at (x # put32 v @ rest) 1 =
      16777216 * (v div 65536 div 256 mod 256) + 65536 * (v div 65536 mod 256) + 256 * (v div 256 mod 256) + v mod 256"
    by (simp add: u32_at_def put32_def put16_def unat_byte_of_nat nth_append)
  also have "\<dots> = 65536 * (256 * (v div 65536 div 256 mod 256) + v div 65536 mod 256) +
      (256 * (v div 256 mod 256) + v mod 256)" by simp
  also have "256 * (v div 65536 div 256 mod 256) + v div 65536 mod 256 = v div 65536"
    using v by (intro split16) simp
  also have "256 * (v div 256 mod 256) + v mod 256 = v mod 65536"
    using mod_mult2_eq [of v 256 256] by simp
  finally show ?thesis by simp
qed

lemma decrypt_walk_built:
  assumes "length dcid \<le> 20" "length scid \<le> 20" "L < 2 ^ 62"
  shows "decrypt_walk ([f] @ put32 v @ [word_of_nat (length dcid)] @ dcid @
      [word_of_nat (length scid)] @ scid @ [0] @ writeVar [] L @ rest) =
    Some (Some (8 + length dcid + length scid + length (writeVar [] L), L))"
proof -
  let ?b = "[f] @ put32 v @ [word_of_nat (length dcid)] @ dcid @
      [word_of_nat (length scid)] @ scid @ [0] @ writeVar [] L @ rest"
  define b where "b = ?b"
  have n: "length b = 8 + length dcid + length scid + length (writeVar [] L) + length rest"
    by (simp add: b_def)
  have d: "at_nat b 5 = Some (length dcid)"
    using at_nat_at [of "[f] @ put32 v" 5] assms by (simp add: b_def byte_of_nat)
  have s: "at_nat b (6 + length dcid) = Some (length scid)"
    using at_nat_at [of "[f] @ put32 v @ [word_of_nat (length dcid)] @ dcid" "6 + length dcid"] assms
    by (simp add: b_def byte_of_nat)
  let ?pre = "[f] @ put32 v @ [word_of_nat (length dcid)] @ dcid @ [word_of_nat (length scid)] @ scid"
  have t: "drop (7 + length dcid + length scid) b = 0 # writeVar [] L @ rest"
    using drop_prefix [of ?pre "7 + length dcid + length scid"] by (simp add: b_def)
  have l: "drop (8 + (length dcid + length scid)) b = writeVar [] L @ rest"
    using drop_prefix [of "?pre @ [0]" "8 + (length dcid + length scid)"] by (simp add: b_def)
  have t0: "readVar (0 # writeVar [] L @ rest) = (0, 1)"
    by (simp add: readVar_def)
  have wl: "length (writeVar [] L) \<noteq> 0" by (simp add: writeVar_def)
  show ?thesis
    unfolding b_def [symmetric] decrypt_walk_def Let_def
    using readVar_written [OF assms(3), of rest] wl
    by (simp add: d s n t l t0 del: at_nat_lt)
qed

lemma first_byte_bits:
  assumes "initialFirstByte v = Some f"
  shows "f AND 0x03 = 3" and "(f XOR (m AND 0x0f)) AND 0x80 \<noteq> 0"
    and "(f XOR (m AND 0x0f)) AND 0x30 = f AND 0x30"
proof -
  have f: "f = 0xC3 \<or> f = 0xD3" using assms by (auto simp: initialFirstByte_def split: if_splits)
  then show "f AND 0x03 = 3" by auto
  have "m AND (0x0f AND 0x80) = 0" "m AND (0x0f AND 0x30) = 0" by simp_all
  then have z: "(m AND 0x0f) AND 0x80 = 0" "(m AND 0x0f) AND 0x30 = 0"
    by (simp_all only: and.assoc)
  have d: "(f XOR (m AND 0x0f)) AND k = (f AND k) XOR ((m AND 0x0f) AND k)" for k
    by (rule bit_word_eqI) (auto simp: bit_simps)
  show "(f XOR (m AND 0x0f)) AND 0x80 \<noteq> 0" using f by (simp only: d z) auto
  show "(f XOR (m AND 0x0f)) AND 0x30 = f AND 0x30" by (simp only: d z xor.right_neutral)
qed

text \<open>The shape of a built packet: header with the masked first byte, masked packet number,
  sealed padding.\<close>

definition built_hdr :: "bytes \<Rightarrow> bytes \<Rightarrow> nat \<Rightarrow> nat \<Rightarrow> bytes" where
  "built_hdr dcid scid v plen =
     put32 v @ [word_of_nat (length dcid)] @ dcid @ [word_of_nat (length scid)] @ scid @ [0] @
     writeVar [] (word_of_nat (4 + plen + 16))"

definition built_ct :: "crypto_lib \<Rightarrow> keys \<Rightarrow> byte \<Rightarrow> bytes \<Rightarrow> nat \<Rightarrow> nat \<Rightarrow> bytes" where
  "built_ct C K f hs pn plen =
     gcm_seal C (aeadKey K) (xor_tail (ivBytes K) (put32 pn)) (replicate plen 0) ((f # hs) @ put32 pn)"

definition built_packet :: "crypto_lib \<Rightarrow> keys \<Rightarrow> byte \<Rightarrow> bytes \<Rightarrow> nat \<Rightarrow> nat \<Rightarrow> bytes" where
  "built_packet C K f hs pn plen =
     (let ct = built_ct C K f hs pn plen; m = aes_encrypt C (hpKey K) (take 16 ct)
      in (f XOR (m ! 0 AND 0x0f)) # hs @ xor_list (put32 pn) (take 4 (drop 1 m)) @ ct)"

lemma BuildDummyInitial_eq:
  assumes ok: "crypto_ok C" and f: "initialFirstByte v = Some f" and K: "deriveInitial C dcid v = Some K"
    and sz: "0 < length dcid" "length dcid \<le> 20" "length scid \<le> 20"
    and plen: "plen = (if pl < 4 then 32 else nat pl)"
  shows "BuildDummyInitial C dcid scid v pn pl =
    Some (Some (built_packet C K f (built_hdr dcid scid v plen) pn plen))"
proof -
  define hd where "hd = built_hdr dcid scid v plen"
  have hdr: "writeVar (writeVar ([f] @ put32 v @ [word_of_nat (length dcid)] @ dcid @
      [word_of_nat (length scid)] @ scid) 0) (word_of_nat (4 + plen + 16)) = f # hd"
    by (subst writeVar_append, subst (2) writeVar_append)
      (simp add: hd_def built_hdr_def writeVar_def byte_of_def)
  define ct where "ct = built_ct C K f hd pn plen"
  have ct: "length ct = plen + 16" using ok by (simp add: ct_def built_ct_def crypto_ok_def)
  let ?mask = "aes_encrypt C (hpKey K) (take 16 ct)" and ?pm = "take 4 (drop 1 (aes_encrypt C (hpKey K) (take 16 ct)))"
  have mask: "length ?mask = 16" using ct by (intro aes_block [OF ok]) simp
  have sm: "sub_bytes ((f # hd) @ put32 pn @ ct) (Suc (length hd) + 4) (Suc (length hd) + 4 + 16) = Some (take 16 ct)"
    using ct drop_prefix [of "(f # hd) @ put32 pn" "5 + length hd" ct] by (simp add: sub_bytes_def)
  have x: "xor_from (((f # hd) @ put32 pn @ ct)[0 := f XOR (?mask ! 0 AND 0x0f)]) (Suc (length hd)) ?pm =
      (f XOR (?mask ! 0 AND 0x0f)) # hd @ xor_list (put32 pn) ?pm @ ct"
    using xor_from_append [of ?pm "put32 pn" "Suc (length hd)" "(f XOR (?mask ! 0 AND 0x0f)) # hd" ct] mask
    by simp
  have p: "built_packet C K f hd pn plen =
      (f XOR (?mask ! 0 AND 0x0f)) # hd @ xor_list (put32 pn) ?pm @ ct"
    by (simp add: built_packet_def ct_def Let_def)
  have "BuildDummyInitial C dcid scid v pn pl = Some (Some (built_packet C K f hd pn plen))"
    unfolding BuildDummyInitial_def Let_def maxCIDLen_def dummyPayloadLen_def plen [symmetric] hdr f K option.case p
    using sz sm x mask ct
    by (simp add: ct_def [unfolded built_ct_def, symmetric, simplified] sub_bytes_def)
  then show ?thesis by (simp add: hd_def)
qed

lemma BuildDummyInitial_SomeD:
  assumes "BuildDummyInitial C dcid scid v pn pl = Some (Some pkt)"
  shows "\<exists>f K. initialFirstByte v = Some f \<and> deriveInitial C dcid v = Some K \<and>
    0 < length dcid \<and> length dcid \<le> 20 \<and> length scid \<le> 20"
  using assms by (auto simp: BuildDummyInitial_def maxCIDLen_def Let_def split: if_splits option.splits)

lemma length_xor_tail: "length pn \<le> length iv \<Longrightarrow> length (xor_tail iv pn) = length iv"
  by (simp add: xor_tail_def)

lemma decrypt_payload_built:
  assumes ok: "crypto_ok C" and f: "f AND 0x03 = 3" and iv: "length (ivBytes K) = 12"
    and ct: "ct = gcm_seal C (aeadKey K) (xor_tail (ivBytes K) (put32 pn)) p ((f # hs) @ put32 pn)"
    and m: "m = aes_encrypt C (hpKey K) (take 16 ct)" and len: "unat L = 20 + length p"
  defines "pkt \<equiv> (f XOR (m ! 0 AND 0x0f)) # hs @ xor_list (put32 pn) (take 4 (drop 1 m)) @ ct"
  shows "decrypt_payload C K pkt (Suc (length hs)) L = Some (Some p)"
proof -
  let ?o = "Suc (length hs)" and ?pm = "take 4 (drop 1 m)"
  let ?h = "(f XOR (m ! 0 AND 0x0f)) # hs"
  have pkt: "pkt = ?h @ xor_list (put32 pn) ?pm @ ct" by (simp add: pkt_def)
  have lct: "length ct = length p + 16" using ok by (simp add: ct crypto_ok_def)
  have lm: "length m = 16" unfolding m using lct by (intro aes_block [OF ok]) simp
  have n: "length pkt = ?o + 4 + (length p + 16)" by (simp add: pkt lct)
  have s: "sub_bytes pkt (?o + 4) (?o + 4 + 16) = Some (take 16 ct)"
    using drop_prefix [of "?h @ xor_list (put32 pn) ?pm" "?o + 4" ct] n by (simp add: pkt sub_bytes_def)
  have fst: "pkt ! 0 XOR (m ! 0 AND 0x0f) = f" by (simp add: pkt xor.assoc)
  have e: "sub_bytes pkt ?o (?o + 4) = Some (xor_list (put32 pn) ?pm)"
    using sub_bytes_at [of ?h ?o "?o + 4" "xor_list (put32 pn) ?pm" ct] by (simp add: pkt)
  have pmk: "sub_bytes m 1 (1 + 4) = Some ?pm" using lm by (simp add: sub_bytes_def)
  have c: "sub_bytes pkt (?o + 4) (length pkt) = Some ct"
    using sub_bytes_at [of "?h @ xor_list (put32 pn) ?pm" "?o + 4" "length pkt" ct "[]"] n lct
    by (simp add: pkt)
  have a: "(take ?o pkt)[0 := f] = f # hs" by (simp add: pkt)
  have op: "gcm_open C (aeadKey K) (xor_tail (ivBytes K) (put32 pn)) ct ((f # hs) @ put32 pn) = Some p"
    using ok iv unfolding ct crypto_ok_def by (simp add: length_xor_tail)
  have pl: "unat ((f :: byte) AND 0x03) + 1 = 4" using f by simp
  have le: "(if 4 < unat L \<and> unat L \<le> length pkt - ?o then ?o + unat L else length pkt) = length pkt"
    using len n by simp
  have g: "(length pkt < ?o + 4 + 16) = False" "(length pkt < ?o + 4) = False" using n by auto
  have m0: "at m 0 = Some (m ! 0)" using lm by simp
  show ?thesis
    unfolding decrypt_payload_def Let_def
    by (simp only: g s m [symmetric] m0 Option.bind_lunit fst pl e pmk xor_list_twice a le c op if_False)
qed

lemma built_header:
  fixes m :: byte
  assumes f: "initialFirstByte v = Some f" and sz: "0 < length dcid" "length dcid \<le> 20" "length scid \<le> 20"
    and rest: "length rest \<noteq> 0"
  defines "pkt \<equiv> (f XOR (m AND 0x0f)) # put32 v @ [word_of_nat (length dcid)] @ dcid @
      [word_of_nat (length scid)] @ scid @ rest"
  shows "IsInitial pkt" and "ParseInitialCIDs pkt = Some (Some (dcid, scid, v))" and "u32_at pkt 1 = v"
proof -
  have v: "v = versionV1 \<and> f = 0xC3 \<or> v = versionV2 \<and> f = 0xD3"
    using f by (auto simp: initialFirstByte_def split: if_splits)
  then show u: "u32_at pkt 1 = v"
    unfolding pkt_def by (intro u32_at_put32) (auto simp: versionV1_def versionV2_def)
  have p0: "pkt ! 0 = f XOR (m AND 0x0f)" and n: "length pkt = 7 + length dcid + length scid + length rest"
    by (simp_all add: pkt_def)
  have "drop_bit 4 (f AND 0x30) = (if v = versionV1 then 0 else 1)"
    using v by (auto simp: versionV1_def versionV2_def)
  then show i: "IsInitial pkt"
    using v first_byte_bits(2,3) [OF f, of m] n sz
    by (auto simp: IsInitial_def Let_def p0 u [simplified] versionV1_def versionV2_def)
  have d: "at_nat pkt 5 = Some (length dcid)"
    using at_nat_at [of "(f XOR (m AND 0x0f)) # put32 v" 5] sz by (simp add: pkt_def byte_of_nat)
  have s: "at_nat pkt (6 + length dcid) = Some (length scid)"
    using at_nat_at [of "(f XOR (m AND 0x0f)) # put32 v @ [word_of_nat (length dcid)] @ dcid" "6 + length dcid"] sz
    by (simp add: pkt_def byte_of_nat)
  have dc: "sub_bytes pkt 6 (6 + length dcid) = Some dcid"
    using sub_bytes_at [of "(f XOR (m AND 0x0f)) # put32 v @ [word_of_nat (length dcid)]" 6 "6 + length dcid" dcid]
    by (simp add: pkt_def)
  have sc: "sub_bytes pkt (7 + length dcid) (7 + length dcid + length scid) = Some scid"
    using sub_bytes_at [of "(f XOR (m AND 0x0f)) # put32 v @ [word_of_nat (length dcid)] @ dcid @ [word_of_nat (length scid)]"
        "7 + length dcid" "7 + length dcid + length scid" scid] by (simp add: pkt_def)
  show "ParseInitialCIDs pkt = Some (Some (dcid, scid, v))"
    unfolding ParseInitialCIDs_def Let_def
    using i d s dc sc sz n by (simp add: u [simplified] maxCIDLen_def del: at_nat_lt sub_bytes_lt)
qed

lemma built_initial_decrypts:
  assumes ok: "crypto_ok C" and b: "BuildDummyInitial C dcid scid version pn payloadLen = Some (Some pkt)"
    and small: "payloadLen < 2 ^ 32"
  shows "IsInitial pkt \<and> ParseInitialCIDs pkt = Some (Some (dcid, scid, version)) \<and>
    DecryptInitial C dcid pkt = Some (Some (replicate (if payloadLen < 4 then 32 else nat payloadLen) 0))"
proof -
  obtain f K where f: "initialFirstByte version = Some f" and K: "deriveInitial C dcid version = Some K"
    and sz: "0 < length dcid" "length dcid \<le> 20" "length scid \<le> 20"
    using BuildDummyInitial_SomeD [OF b] by blast
  define plen where "plen = (if payloadLen < 4 then 32 else nat payloadLen)"
  define hs where "hs = built_hdr dcid scid version plen"
  define ct where "ct = built_ct C K f hs pn plen"
  define m where "m = aes_encrypt C (hpKey K) (take 16 ct)"
  have pkt: "pkt = (f XOR (m ! 0 AND 0x0f)) # hs @ xor_list (put32 pn) (take 4 (drop 1 m)) @ ct"
    using b BuildDummyInitial_eq [OF ok f K sz plen_def]
    by (simp add: built_packet_def Let_def hs_def ct_def m_def)
  let ?L = "word_of_nat (4 + plen + 16) :: 64 word"
  let ?rest = "[0] @ writeVar [] ?L @ xor_list (put32 pn) (take 4 (drop 1 m)) @ ct"
  have bound: "plen < 2 ^ 32" using small plen_def by auto
  have "unat ?L = (4 + plen + 16) mod 2 ^ LENGTH(64)" by (rule unat_of_nat)
  then have L: "unat ?L = 20 + plen" using bound by simp
  then have L2: "?L < 2 ^ 62" using bound by (simp only: word_less_nat_alt) simp
  have eq: "pkt = (f XOR (m ! 0 AND 0x0f)) # put32 version @ [word_of_nat (length dcid)] @ dcid @
      [word_of_nat (length scid)] @ scid @ ?rest"
    by (simp add: pkt hs_def built_hdr_def)
  have h: "IsInitial pkt" "ParseInitialCIDs pkt = Some (Some (dcid, scid, version))" "u32_at pkt 1 = version"
    unfolding eq by (rule built_header [OF f sz]; simp)+
  have w: "decrypt_walk pkt = Some (Some (Suc (length hs), ?L))"
    using decrypt_walk_built [OF sz(2,3) L2, of _ version "xor_list (put32 pn) (take 4 (drop 1 m)) @ ct"]
    by (simp add: eq hs_def built_hdr_def)
  have "decrypt_payload C K pkt (Suc (length hs)) ?L = Some (Some (replicate plen 0))"
    unfolding pkt
    by (rule decrypt_payload_built [OF ok first_byte_bits(1) [OF f] _ ct_def [unfolded built_ct_def] m_def])
      (use deriveInitial_sizes [OF ok K] L in auto)
  moreover have "\<not> (length pkt < 7 \<or> pkt ! 0 AND 0x80 = 0)"
    using first_byte_bits(2) [OF f, of "m ! 0"] sz by (simp add: eq)
  ultimately have "DecryptInitial C dcid pkt = Some (Some (replicate plen 0))"
    unfolding DecryptInitial_def by (simp add: h(3) [simplified] K w)
  with h(1,2) plen_def show ?thesis by simp
qed

text \<open>
  C8. An Initial packet that \<^verbatim>\<open>BuildDummyInitial\<close> returns is well formed: it is recognised as an
  Initial, carries the connection ids and the version it was built with, and decrypts under the
  keys of its destination connection id to nothing but PADDING frames of the requested length.
\<close>

theorem dummy_initial_decrypts:
  assumes "crypto_ok C" and "BuildDummyInitial C dcid scid version pn payloadLen = Some (Some pkt)"
    and "payloadLen < 2 ^ 32"
  shows "IsInitial pkt \<and> ParseInitialCIDs pkt = Some (Some (dcid, scid, version)) \<and>
    DecryptInitial C dcid pkt = Some (Some (replicate (if payloadLen < 4 then 32 else nat payloadLen) 0))"
  using assms by (rule built_initial_decrypts)

text \<open>A concrete library for the witnesses: the keystream is all zero, the tag is 16 zero bytes.\<close>

definition plain_crypto :: crypto_lib where
  "plain_crypto = \<lparr>hmac_sha256 = (\<lambda>k m. replicate 32 0), hkdf_expand = (\<lambda>s i n. Some (replicate n 0)),
     aes_encrypt = (\<lambda>k x. replicate 16 7),
     gcm_seal = (\<lambda>k n p a. p @ replicate 16 0), gcm_open = (\<lambda>k n c a. if length c < 16 then None else Some (take (length c - 16) c))\<rparr>"

lemma plain_crypto_ok: "crypto_ok plain_crypto"
  by (auto simp: crypto_ok_def plain_crypto_def)

definition sample_initial :: bytes where
  "sample_initial = [0xC4, 0, 0, 0, 1, 4, 1, 2, 3, 4, 1, 9, 0, 52, 7, 7, 7, 19] @ replicate 48 0"

lemma sample_initial_built:
  "BuildDummyInitial plain_crypto [1, 2, 3, 4] [9] versionV1 20 32 = Some (Some sample_initial)"
proof -
  let ?K = "\<lparr>hpKey = replicate 16 0, aeadKey = replicate 16 0, ivBytes = replicate 12 0\<rparr>"
  have K: "deriveInitial plain_crypto [1, 2, 3, 4] versionV1 = Some ?K"
    by (simp add: deriveInitial_def version_params_def hkdfExpandLabel_def plain_crypto_def NewCipher_def Let_def)
  have f: "initialFirstByte versionV1 = Some 0xC3" by (simp add: initialFirstByte_def)
  have h: "built_hdr [1, 2, 3, 4] [9] versionV1 32 = [0, 0, 0, 1, 4, 1, 2, 3, 4, 1, 9, 0, 52]"
    by (simp add: built_hdr_def put32_def put16_def versionV1_def writeVar_def byte_of_def)
  have "built_packet plain_crypto ?K 0xC3 [0, 0, 0, 1, 4, 1, 2, 3, 4, 1, 9, 0, 52] 20 32 = sample_initial"
  proof -
    have r4: "replicate 4 (7 :: byte) = [7, 7, 7, 7]" by (simp add: numeral_eq_Suc)
    have r48: "replicate 32 (0 :: byte) @ replicate 16 0 = replicate 48 0" by (simp flip: replicate_add)
    show ?thesis
      by (simp add: built_packet_def built_ct_def plain_crypto_def sample_initial_def put32_def put16_def
          r4 r48)
  qed
  then show ?thesis
    using BuildDummyInitial_eq [OF plain_crypto_ok f K, of "[9]" 32 32 20] by (simp add: h)
qed

theorem dummy_initial_decrypts_witness:
  "IsInitial sample_initial \<and> ParseInitialCIDs sample_initial = Some (Some ([1, 2, 3, 4], [9], versionV1)) \<and>
   DecryptInitial plain_crypto [1, 2, 3, 4] sample_initial = Some (Some (replicate 32 0))"
  using dummy_initial_decrypts [OF plain_crypto_ok sample_initial_built] by simp

theorem locator_and_decrypter_agree_witness:
  "\<exists>pnOff pnLen ctEnd key nonce aad.
    parseHeaderLength plain_crypto sample_initial = Some (Some (pnOff, pnLen)) \<and>
    pnOff + pnLen \<le> ctEnd \<and> ctEnd \<le> length sample_initial \<and>
    gcm_open plain_crypto key nonce
      (take (ctEnd - (pnOff + pnLen)) (drop (pnOff + pnLen) sample_initial)) aad = Some (replicate 32 0)"
proof -
  have d: "ParseDCID sample_initial = Some (Some [1, 2, 3, 4])"
    by (simp add: ParseDCID_def sample_initial_def Let_def)
  have "DecryptInitial plain_crypto [1, 2, 3, 4] sample_initial = Some (Some (replicate 32 0))"
    using built_initial_decrypts [OF plain_crypto_ok sample_initial_built] by simp
  from locator_and_decrypter_agree [OF plain_crypto_ok d this] show ?thesis .
qed

subsection \<open>Coalescing\<close>

lemma no_panic_BuildDummyInitial [no_panic_intros]:
  assumes "crypto_ok C"
  shows "no_panic (BuildDummyInitial C dcid scid v pn pl)"
proof (cases "length dcid = 0 \<or> length dcid > maxCIDLen \<or> length scid > maxCIDLen \<or>
    initialFirstByte v = None \<or> deriveInitial C dcid v = None")
  case True
  then show ?thesis
    by (auto simp: BuildDummyInitial_def Let_def split: option.splits)
next
  case False
  then obtain f K where "initialFirstByte v = Some f" "deriveInitial C dcid v = Some K"
      "0 < length dcid" "length dcid \<le> 20" "length scid \<le> 20"
    by (auto simp: maxCIDLen_def)
  from BuildDummyInitial_eq [OF assms this refl] show ?thesis by simp
qed

lemma no_panic_CoalesceInitial [no_panic_intros]:
  assumes "crypto_ok C"
  shows "no_panic (CoalesceInitial C payload pl)"
  unfolding CoalesceInitial_def Let_def by (intro no_panic_intros assms)

text \<open>
  No reader or builder of Initial packets panics, on any packet: header classifiers, connection
  id parsers, the decrypter, the header walk of the locator and the coalescer.
\<close>

theorem quic_initial_never_panics:
  assumes "crypto_ok C"
  shows "no_panic (LooksLikeQUIC b) \<and> no_panic (LooksLikeVersionedLongHeader b) \<and>
    no_panic (ParseDCID b) \<and> no_panic (ParseInitialCIDs b) \<and> no_panic (DecryptInitial C dcid b) \<and>
    no_panic (parseHeaderLength C b) \<and> no_panic (CoalesceInitial C b pl)"
  by (intro conjI no_panic_intros assms)

theorem quic_initial_never_panics_witness:
  "no_panic (LooksLikeQUIC [0xC0]) \<and> no_panic (LooksLikeVersionedLongHeader [0xC0]) \<and>
    no_panic (ParseDCID [0xC0]) \<and> no_panic (ParseInitialCIDs [0xC0]) \<and>
    no_panic (DecryptInitial plain_crypto [] [0xC0]) \<and>
    no_panic (parseHeaderLength plain_crypto [0xC0]) \<and> no_panic (CoalesceInitial plain_crypto [0xC0] 0)"
  by (rule quic_initial_never_panics [OF plain_crypto_ok])

lemma coalesced_shape:
  assumes ok: "crypto_ok C" and c: "CoalesceInitial C payload pl = Some (Some out)"
  obtains dcid scid v f m rest where
    "ParseInitialCIDs payload = Some (Some (dcid, scid, v))" "initialFirstByte v = Some f"
    "0 < length dcid" "length dcid \<le> 20" "length scid \<le> 20" "rest \<noteq> []"
    "out = ((f XOR (m AND 0x0f)) # put32 v @ [word_of_nat (length dcid)] @ dcid @
      [word_of_nat (length scid)] @ scid @ rest) @ payload"
proof -
  from c obtain dcid scid v where p: "ParseInitialCIDs payload = Some (Some (dcid, scid, v))"
    unfolding CoalesceInitial_def by (elim bind_SomeE) (auto split: option.splits)
  with c obtain dummy where ne: "length dcid \<noteq> 0" and
    d: "BuildDummyInitial C (dcid[0 := dcid ! 0 XOR 0xff]) scid v dummyPacketNumber pl = Some (Some dummy)" and
    out: "out = (take 6 dummy @ dcid @ drop (6 + length dcid) dummy) @ payload"
    by (auto simp: CoalesceInitial_def Let_def split: if_splits option.splits elim!: bind_SomeE)
  obtain f K where f: "initialFirstByte v = Some f" and
      K: "deriveInitial C (dcid[0 := dcid ! 0 XOR 0xff]) v = Some K" and
      sz: "0 < length dcid" "length dcid \<le> 20" "length scid \<le> 20"
    using BuildDummyInitial_SomeD [OF d] by auto
  obtain m rest where dummy: "dummy = (f XOR (m AND 0x0f)) # put32 v @ [word_of_nat (length dcid)] @
      dcid[0 := dcid ! 0 XOR 0xff] @ [word_of_nat (length scid)] @ scid @ rest" "rest \<noteq> []"
    using d BuildDummyInitial_eq [OF ok f K _ _ sz(3) refl, of dummyPacketNumber pl] sz
    by (simp add: built_packet_def built_hdr_def Let_def)
  have t: "take 6 dummy = (f XOR (m AND 0x0f)) # put32 v @ [word_of_nat (length dcid)]"
    by (simp add: dummy)
  have "drop (6 + length dcid) dummy = [word_of_nat (length scid)] @ scid @ rest"
    using drop_prefix [of "(f XOR (m AND 0x0f)) # put32 v @ [word_of_nat (length dcid)] @ dcid[0 := dcid ! 0 XOR 0xff]"
        "6 + length dcid" "[word_of_nat (length scid)] @ scid @ rest"] by (simp add: dummy)
  with t have "out = ((f XOR (m AND 0x0f)) # put32 v @ [word_of_nat (length dcid)] @ dcid @
      [word_of_nat (length scid)] @ scid @ rest) @ payload"
    by (simp add: out)
  then show ?thesis using that [OF p f sz dummy(2)] by blast
qed

text \<open>
  A coalesced datagram starts with a packet that looks like the real one: it is an Initial
  with the connection ids and version of the payload, and the payload follows it unchanged.
\<close>

theorem coalesced_initial_keeps_payload:
  assumes "crypto_ok C" and "CoalesceInitial C payload pl = Some (Some out)"
  shows "\<exists>dummy. out = dummy @ payload \<and> dummy \<noteq> [] \<and> IsInitial out \<and>
    ParseInitialCIDs out = ParseInitialCIDs payload"
proof -
  obtain dcid scid v f m rest where
    p: "ParseInitialCIDs payload = Some (Some (dcid, scid, v))" and f: "initialFirstByte v = Some f" and
    sz: "0 < length dcid" "length dcid \<le> 20" "length scid \<le> 20" and ne: "rest \<noteq> []" and
    out: "out = ((f XOR (m AND 0x0f)) # put32 v @ [word_of_nat (length dcid)] @ dcid @
      [word_of_nat (length scid)] @ scid @ rest) @ payload"
    by (rule coalesced_shape [OF assms])
  have eq: "out = (f XOR (m AND 0x0f)) # put32 v @ [word_of_nat (length dcid)] @ dcid @
      [word_of_nat (length scid)] @ scid @ (rest @ payload)" by (simp add: out)
  have "IsInitial out" "ParseInitialCIDs out = Some (Some (dcid, scid, v))"
    unfolding eq using ne by (intro built_header [OF f sz]; simp)+
  then show ?thesis using out p by auto
qed

theorem coalesced_initial_keeps_payload_witness:
  "\<exists>out dummy. CoalesceInitial plain_crypto sample_initial 0 = Some (Some out) \<and>
    out = dummy @ sample_initial \<and> dummy \<noteq> [] \<and> IsInitial out \<and>
    ParseInitialCIDs out = ParseInitialCIDs sample_initial"
proof -
  have p: "ParseInitialCIDs sample_initial = Some (Some ([1, 2, 3, 4], [9], versionV1))"
    using built_initial_decrypts [OF plain_crypto_ok sample_initial_built] by simp
  let ?K = "\<lparr>hpKey = replicate 16 0, aeadKey = replicate 16 0, ivBytes = replicate 12 0\<rparr>"
  have K: "deriveInitial plain_crypto [0xFE, 2, 3, 4] versionV1 = Some ?K"
    by (simp add: deriveInitial_def version_params_def hkdfExpandLabel_def plain_crypto_def NewCipher_def Let_def)
  have f: "initialFirstByte versionV1 = Some 0xC3" by (simp add: initialFirstByte_def)
  obtain d where "BuildDummyInitial plain_crypto [0xFE, 2, 3, 4] [9] versionV1 20 0 = Some (Some d)"
    using BuildDummyInitial_eq [OF plain_crypto_ok f K, of "[9]" 32 0] by simp
  then obtain out where c: "CoalesceInitial plain_crypto sample_initial 0 = Some (Some out)"
    by (simp add: CoalesceInitial_def p dummyPacketNumber_def)
  from coalesced_initial_keeps_payload [OF plain_crypto_ok c] c show ?thesis by blast
qed

end
