(* ===== verification/Quic_Crypto.thy ===== *)
theory Quic_Crypto
  imports Quic_Packet
begin

text \<open>
  The CRYPTO stream of QUIC Initial packets: the reassembly buffers of \<^verbatim>\<open>src/quic/assemble.go\<close>,
  the frame walk of \<^verbatim>\<open>src/quic/sniff.go\<close> and the server-name locator of \<^verbatim>\<open>src/quic/locate.go\<close>.

  The process-wide \<^verbatim>\<open>cmap\<close> is a map from connection ids to buffers, passed and returned; the
  clock is read once per call. Where a varint from the wire becomes an \<^verbatim>\<open>int\<close> the platform's
  width \<open>w\<close> is an argument. \<^verbatim>\<open>sync.Map.Range\<close> visits the keys in an order of its own, which is
  an argument of the clean-up tick. An outer \<^const>\<open>None\<close> is a panic.
\<close>

subsection \<open>Slices at the width of the platform\<close>

text \<open>The upper bound of \<^verbatim>\<open>b[i : i+int(v)]\<close>, or a panic when the bounds are not in order.\<close>

definition slice_end :: "nat \<Rightarrow> bytes \<Rightarrow> nat \<Rightarrow> nat \<Rightarrow> nat option" where
  "slice_end w b i v =
     (let j = go_wrap w (int i + go_int w v) in
      if int i \<le> j \<and> j \<le> int (length b) then Some (nat j) else None)"

definition slice_of :: "bytes \<Rightarrow> nat \<Rightarrow> nat \<Rightarrow> bytes" where
  "slice_of b i j = take (j - i) (drop i b)"

lemma slice_end_SomeD: "slice_end w b i v = Some j \<Longrightarrow> i \<le> j \<and> j \<le> length b"
  by (auto simp: slice_end_def Let_def split: if_splits)

subsection \<open>Frames\<close>

record cryptoFrame =
  frm_off :: nat
  frm_b :: bytes

function frames_from :: "nat \<Rightarrow> bytes \<Rightarrow> nat \<Rightarrow> cryptoFrame list \<Rightarrow> cryptoFrame list option" where
  "frames_from w plain i out =
     (if \<not> i < length plain then Some out
      else let t = plain ! i; i = i + 1 in
        if t = 0x06 then
          (let r = readVarint (drop i plain); n = snd r in
           if n = 0 then Some out
           else let i = i + n; r2 = readVarint (drop i plain); ln = unat (fst r2); n2 = snd r2 in
             if n2 = 0 \<or> go_int w ln > int (length plain) - int i - int n2 then Some out
             else (case slice_end w plain (i + n2) ln of
                     None \<Rightarrow> None
                   | Some j \<Rightarrow> frames_from w plain j
                       (out @ [\<lparr>frm_off = unat (fst r), frm_b = slice_of plain (i + n2) j\<rparr>])))
        else if t = 0x00 then
          frames_from w plain (i + length (takeWhile (\<lambda>x. x = 0) (drop i plain))) out
        else if t = 0x01 then frames_from w plain i out
        else Some out)"
  by pat_completeness auto
termination
  by (relation "measure (\<lambda>(w, plain, i, out). length plain - i)") (auto dest!: slice_end_SomeD)

declare frames_from.simps [simp del]

definition parseCryptoFrames :: "nat \<Rightarrow> bytes \<Rightarrow> cryptoFrame list option" where
  "parseCryptoFrames w plain = frames_from w plain 0 []"

subsection \<open>Buffers\<close>

record cbuf =
  data :: bytes
  cmask :: bytes
  head :: nat
  lastAccess :: nat

definition maxBufSize :: nat where "maxBufSize = 32 * 1024"
definition maxEntries :: nat where "maxEntries = 10000"
definition entryTTL :: nat where "entryTTL = 30 * 1000000000"

definition go_copy :: "bytes \<Rightarrow> bytes \<Rightarrow> bytes" where
  "go_copy dst src = take (length dst) src @ drop (length src) dst"

definition ensure :: "cbuf \<Rightarrow> nat \<Rightarrow> cbuf" where
  "ensure b n =
     (if n > maxBufSize then b
      else if n \<le> length (data b) then b
      else b\<lparr>data := go_copy (replicate n 0) (data b), cmask := go_copy (replicate n 0) (cmask b),
             head := (if head b > n then n else head b)\<rparr>)"

function mark :: "bytes \<Rightarrow> nat \<Rightarrow> nat \<Rightarrow> bytes option" where
  "mark m i e = (if i < e then (if i < length m then mark (m[i := 1]) (i + 1) e else None) else Some m)"
  by pat_completeness auto
termination
  by (relation "measure (\<lambda>(m, i, e). e - i)") auto

function advance :: "bytes \<Rightarrow> nat \<Rightarrow> nat" where
  "advance m h = (if h < length m \<and> m ! h = 1 then advance m (h + 1) else h)"
  by pat_completeness auto
termination
  by (relation "measure (\<lambda>(m, h). length m - h)") auto

declare mark.simps [simp del] advance.simps [simp del]

definition buf_write :: "nat \<Rightarrow> cbuf \<Rightarrow> nat \<Rightarrow> bytes \<Rightarrow> cbuf option" where
  "buf_write now b off p =
     (let e = off + length p in
      if e > maxBufSize then Some b
      else let b = ensure b e in
        if e > length (data b) then Some b
        else do {
          m \<leftarrow> mark (cmask b) off e;
          Some (b\<lparr>data := take off (data b) @ p @ drop e (data b), cmask := m,
                  head := advance m (head b), lastAccess := now\<rparr>) })"

definition snapshot :: "cbuf \<Rightarrow> bytes option option" where
  "snapshot b =
     (if head b = 0 then Some None
      else do { s \<leftarrow> sub_bytes (data b) 0 (head b); Some (Some s) })"

definition new_buf :: "nat \<Rightarrow> cbuf" where
  "new_buf now = \<lparr>data = [], cmask = [], head = 0, lastAccess = now\<rparr>"

type_synonym cmap = "bytes \<rightharpoonup> cbuf"

text \<open>The loop over the frames; \<^const>\<open>None\<close> in the inner option is the exit that drops the entry.\<close>

fun write_frames :: "nat \<Rightarrow> cbuf \<Rightarrow> cryptoFrame list \<Rightarrow> cbuf option option" where
  "write_frames now buf [] = Some (Some buf)"
| "write_frames now buf (f # fs) =
     (if frm_off f > 2 ^ 20 then write_frames now buf fs
      else do {
        buf' \<leftarrow> buf_write now buf (frm_off f) (frm_b f);
        if head buf' > 2 ^ 20 then Some None else write_frames now buf' fs })"

definition AssembleCrypto ::
    "nat \<Rightarrow> nat \<Rightarrow> cmap \<Rightarrow> bytes \<Rightarrow> bytes \<Rightarrow> (cmap \<times> bytes option) option" where
  "AssembleCrypto w now cm dcid plain =
     (if length dcid = 0 \<or> length plain = 0 then Some (cm, None)
      else do {
        frames \<leftarrow> parseCryptoFrames w plain;
        if frames = [] then Some (cm, None)
        else do {
          let buf = (case cm dcid of Some b \<Rightarrow> b | None \<Rightarrow> new_buf now);
          r \<leftarrow> write_frames now buf frames;
          case r of
            None \<Rightarrow> Some (cm(dcid := None), None)
          | Some buf' \<Rightarrow> do { s \<leftarrow> snapshot buf'; Some (cm(dcid \<mapsto> buf'), s) } } })"

definition ClearDCID :: "cmap \<Rightarrow> bytes \<Rightarrow> cmap" where
  "ClearDCID cm dcid = (if length dcid = 0 then cm else cm(dcid := None))"

text \<open>One tick of the clean-up goroutine: the first pass over the entries, in the order \<open>ks\<close>,
  then, when too many are left, the second pass in the order \<open>ks'\<close>.\<close>

fun stale_pass :: "nat \<Rightarrow> bytes list \<Rightarrow> cmap \<Rightarrow> nat \<Rightarrow> nat \<Rightarrow> cmap \<times> nat \<times> nat" where
  "stale_pass now [] cm totalCount stale = (cm, totalCount, stale)"
| "stale_pass now (k # ks) cm totalCount stale =
     (case cm k of
        None \<Rightarrow> stale_pass now ks cm totalCount stale
      | Some buf \<Rightarrow>
          if int now - int (lastAccess buf) > int entryTTL
          then stale_pass now ks (cm(k := None)) (totalCount + 1 - 1) (stale + 1)
          else stale_pass now ks cm (totalCount + 1) stale)"

fun excess_pass :: "bytes list \<Rightarrow> cmap \<Rightarrow> nat \<Rightarrow> nat \<Rightarrow> cmap" where
  "excess_pass [] cm totalCount excess = cm"
| "excess_pass (k # ks) cm totalCount excess =
     (if int totalCount - int excess \<le> int maxEntries then cm
      else excess_pass ks (cm(k := None)) totalCount (excess + 1))"

definition cleanup_tick :: "nat \<Rightarrow> bytes list \<Rightarrow> bytes list \<Rightarrow> cmap \<Rightarrow> cmap" where
  "cleanup_tick now ks ks' cm =
     (case stale_pass now ks cm 0 0 of (cm1, totalCount, stale) \<Rightarrow>
        if totalCount > maxEntries then excess_pass ks' cm1 totalCount 0 else cm1)"

subsection \<open>The varints on the wire\<close>

lemma shift_in_bits:
  assumes "take_bit n v = v" and "n + 8 \<le> 64"
  shows "take_bit (n + 8) (shift_in v x) = shift_in v x"
proof (rule bit_word_eqI)
  fix k assume k: "k < LENGTH(64)"
  have "\<not> bit v (k - 8)" if "n + 8 \<le> k"
    using assms(1) that by (metis bit_take_bit_iff le_diff_conv2 add_leE leD)
  moreover have "\<not> bit x k" if "n + 8 \<le> k"
    using that bit_imp_le_length [of x k] by auto
  ultimately show "bit (take_bit (n + 8) (shift_in v x)) k = bit (shift_in v x) k"
    by (auto simp: shift_in_def bit_simps not_less)
qed

lemma foldl_shift_in_bits:
  "take_bit n v = v \<Longrightarrow> n + 8 * length xs \<le> 64 \<Longrightarrow>
   take_bit (n + 8 * length xs) (foldl shift_in v xs) = foldl shift_in v xs"
proof (induction xs arbitrary: n v)
  case Nil
  then show ?case by simp
next
  case (Cons x xs)
  have "take_bit (n + 8) (shift_in v x) = shift_in v x"
    using Cons.prems by (intro shift_in_bits) auto
  with Cons.IH [of "n + 8" "shift_in v x"] Cons.prems show ?case by (simp add: algebra_simps)
qed

lemma readVar_bound: "unat (fst (readVar b)) < 2 ^ 62"
proof (cases "length b = 0 \<or> length b < 2 ^ unat (drop_bit 6 (b ! 0))")
  case True
  then show ?thesis by (auto simp: readVar_def Let_def)
next
  case False
  define ln :: nat where "ln = 2 ^ unat (drop_bit 6 (b ! 0))"
  define v where "v = foldl shift_in (ucast (b ! 0 AND 0x3F)) (take (ln - 1) (drop 1 b))"
  have r: "readVar b = (v, ln)" using False by (simp add: readVar_def ln_def v_def Let_def)
  have "unat (drop_bit 6 (b ! 0)) = unat (b ! 0) div 64" by (simp only: unat_drop_bit_eq) (simp add: drop_bit_eq_div)
  then have "unat (drop_bit 6 (b ! 0)) \<le> 3"
    using less_mult_imp_div_less [of "unat (b ! 0)" 4 64] unat_byte_less [of "b ! 0"] by simp
  then have l: "ln \<le> 8" using power_increasing [of "unat (drop_bit 6 (b ! 0))" 3 "2 :: nat"] by (simp add: ln_def)
  have t: "take_bit 6 (ucast (b ! 0 AND 0x3F) :: 64 word) = ucast (b ! 0 AND 0x3F)"
    unfolding mask6 by (rule bit_word_eqI) (auto simp: bit_simps)
  define k where "k = length (take (ln - 1) (drop 1 b))"
  have k: "k \<le> 7" using l by (simp add: k_def)
  then have "take_bit (6 + 8 * k) v = v"
    unfolding v_def k_def by (intro foldl_shift_in_bits [OF t]) simp
  then have "unat v < 2 ^ (6 + 8 * k)" by (metis take_bit_nat_less_exp unsigned_take_bit_eq)
  also have "\<dots> \<le> 2 ^ 62" using k by (intro power_increasing) auto
  finally show ?thesis by (simp add: r)
qed

lemma readVar_length: "snd (readVar b) \<le> length b"
  by (auto simp: readVar_def Let_def)

lemma slice_end_64:
  assumes "i + v \<le> length b" and "length b < 2 ^ 63"
  shows "slice_end 64 b i v = Some (i + v)"
proof -
  have v: "go_int 64 v = int v" using assms by (intro go_int_small) auto
  have "int (i + v) < int (2 ^ 63)" using assms by (simp only: of_nat_less_iff)
  then have "int i + int v < 2 ^ 63" by simp
  then have "go_wrap 64 (int i + int v) = int i + int v" by (intro go_wrap_small) auto
  then show ?thesis using assms by (simp add: slice_end_def v nat_int_add)
qed

subsection \<open>The stream-buffer interface\<close>

text \<open>What a reassembly buffer promises: its content is a partial map from stream offsets to
  bytes, a write inside the limit overlays the map and one beyond it changes nothing, and a
  read returns the longest contiguous prefix. The client's laws are proved from that alone.\<close>

definition overlay :: "(nat \<rightharpoonup> byte) \<Rightarrow> nat \<Rightarrow> bytes \<Rightarrow> (nat \<rightharpoonup> byte)" where
  "overlay m off p = (\<lambda>i. if off \<le> i \<and> i < off + length p then Some (p ! (i - off)) else m i)"

definition contiguous :: "(nat \<rightharpoonup> byte) \<Rightarrow> bytes \<Rightarrow> bool" where
  "contiguous m xs \<longleftrightarrow> (\<forall>i < length xs. m i = Some (xs ! i)) \<and> m (length xs) = None"

definition agrees :: "(nat \<rightharpoonup> byte) \<Rightarrow> bytes \<Rightarrow> bool" where
  "agrees m S \<longleftrightarrow> (\<forall>i x. m i = Some x \<longrightarrow> i < length S \<and> S ! i = x)"

definition part_of :: "bytes \<Rightarrow> cryptoFrame \<Rightarrow> bool" where
  "part_of S f \<longleftrightarrow> frm_off f + length (frm_b f) \<le> length S \<and>
     frm_b f = take (length (frm_b f)) (drop (frm_off f) S)"

definition frame_span :: "cryptoFrame \<Rightarrow> nat set" where
  "frame_span f = {frm_off f ..< frm_off f + length (frm_b f)}"

definition frames_span :: "cryptoFrame list \<Rightarrow> nat set" where
  "frames_span fs = (\<Union>f \<in> set fs. frame_span f)"

lemma frames_span_simps [simp]: "frames_span [] = {}" "frames_span (f # fs) = frame_span f \<union> frames_span fs"
  by (auto simp: frames_span_def)

lemma dom_overlay: "dom (overlay m (frm_off f) (frm_b f)) = dom m \<union> frame_span f"
  by (auto simp: overlay_def frame_span_def dom_def)

lemma agrees_overlay:
  assumes "agrees m S" and "part_of S f"
  shows "agrees (overlay m (frm_off f) (frm_b f)) S"
proof -
  have "i < length S \<and> S ! i = frm_b f ! (i - frm_off f)"
    if i: "frm_off f \<le> i" "i < frm_off f + length (frm_b f)" for i
  proof -
    have "frm_b f ! (i - frm_off f) = take (length (frm_b f)) (drop (frm_off f) S) ! (i - frm_off f)"
      using assms(2) by (simp add: part_of_def)
    then show ?thesis using assms(2) i by (auto simp: part_of_def)
  qed
  with assms(1) show ?thesis by (auto simp: agrees_def overlay_def)
qed

lemma contiguous_agrees:
  assumes "contiguous m xs" and "agrees m S"
  shows "xs = take (length xs) S"
proof (rule nth_equalityI)
  have lt: "i < length S \<and> S ! i = xs ! i" if "i < length xs" for i
    using assms that by (auto simp: contiguous_def agrees_def)
  then have "length xs \<le> length S" by (meson not_le lessI less_le_trans linorder_not_less nat_less_le)
  then show "length xs = length (take (length xs) S)" by simp
  show "xs ! i = take (length xs) S ! i" if "i < length xs" for i using lt [OF that] that by simp
qed

lemma contiguous_complete:
  assumes "contiguous m xs" and "agrees m S" and "{..<length S} \<subseteq> dom m"
  shows "xs = S"
proof -
  have "m (length xs) = None" using assms(1) by (simp add: contiguous_def)
  then have "length S \<le> length xs" using assms(3) by (metis domIff lessThan_iff not_le subsetD)
  then show ?thesis using contiguous_agrees [OF assms(1,2)] by simp
qed

locale stream_buffer =
  fixes inv :: "'b \<Rightarrow> bool" and content :: "'b \<Rightarrow> nat \<rightharpoonup> byte"
    and wr :: "'b \<Rightarrow> nat \<Rightarrow> bytes \<Rightarrow> 'b option" and rd :: "'b \<Rightarrow> bytes option option" and limit :: nat
  assumes wr_ok: "inv b \<Longrightarrow> \<exists>b'. wr b off p = Some b' \<and> inv b' \<and>
      content b' = (if off + length p > limit then content b else overlay (content b) off p)"
    and rd_ok: "inv b \<Longrightarrow> \<exists>r. rd b = Some r \<and> r \<noteq> Some [] \<and>
      contiguous (content b) (case r of None \<Rightarrow> [] | Some s \<Rightarrow> s)"
begin

fun wr_all :: "'b \<Rightarrow> cryptoFrame list \<Rightarrow> 'b option" where
  "wr_all b [] = Some b"
| "wr_all b (f # fs) = do { b' \<leftarrow> wr b (frm_off f) (frm_b f); wr_all b' fs }"

lemma wr_all_ok: "inv b \<Longrightarrow> \<exists>b'. wr_all b fs = Some b' \<and> inv b'"
proof (induction fs arbitrary: b)
  case (Cons f fs)
  from wr_ok [OF Cons.prems, of "frm_off f" "frm_b f"] obtain b1 where
    "wr b (frm_off f) (frm_b f) = Some b1" "inv b1" by blast
  with Cons.IH show ?case by simp
qed simp

lemma wr_all_stream:
  assumes "inv b" and "agrees (content b) S" and "\<forall>f \<in> set fs. part_of S f" and "length S \<le> limit"
    and "wr_all b fs = Some b'"
  shows "agrees (content b') S \<and> dom (content b') = dom (content b) \<union> frames_span fs"
  using assms
proof (induction fs arbitrary: b)
  case (Cons f fs)
  from wr_ok [OF Cons.prems(1), of "frm_off f" "frm_b f"] obtain b1 where
    b1: "wr b (frm_off f) (frm_b f) = Some b1" "inv b1" and
    c: "content b1 = (if frm_off f + length (frm_b f) > limit then content b
                      else overlay (content b) (frm_off f) (frm_b f))" by blast
  have f: "part_of S f" using Cons.prems(3) by simp
  then have "\<not> frm_off f + length (frm_b f) > limit" using Cons.prems(4) by (simp add: part_of_def)
  with c have c1: "content b1 = overlay (content b) (frm_off f) (frm_b f)" by simp
  have a1: "agrees (content b1) S" unfolding c1 using Cons.prems(2) f by (rule agrees_overlay)
  have "wr_all b1 fs = Some b'" using Cons.prems(5) b1(1) by simp
  from Cons.IH [OF b1(2) a1 _ Cons.prems(4) this] Cons.prems(3)
  show ?case by (auto simp: c1 dom_overlay)
qed simp

lemma rd_stream:
  assumes "inv b" and "agrees (content b) S"
  shows "\<exists>r. rd b = Some r \<and> (case r of None \<Rightarrow> True | Some s \<Rightarrow> s \<noteq> [] \<and> s = take (length s) S) \<and>
    ({..<length S} \<subseteq> dom (content b) \<and> S \<noteq> [] \<longrightarrow> r = Some S)"
proof -
  from rd_ok [OF assms(1)] obtain r where r: "rd b = Some r" "r \<noteq> Some []"
    and c: "contiguous (content b) (case r of None \<Rightarrow> [] | Some s \<Rightarrow> s)" by blast
  have "(case r of None \<Rightarrow> True | Some s \<Rightarrow> s \<noteq> [] \<and> s = take (length s) S)"
    using r(2) contiguous_agrees [OF c assms(2)] by (auto split: option.splits)
  moreover have "r = Some S" if "{..<length S} \<subseteq> dom (content b)" "S \<noteq> []"
    using contiguous_complete [OF c assms(2) that(1)] that(2) by (auto split: option.splits)
  ultimately show ?thesis using r(1) by blast
qed

end

subsection \<open>The buffers implement the interface\<close>

definition cbuf_inv :: "cbuf \<Rightarrow> bool" where
  "cbuf_inv b \<longleftrightarrow> length (cmask b) = length (data b) \<and> length (data b) \<le> maxBufSize \<and>
     head b \<le> length (data b) \<and> (\<forall>i < head b. cmask b ! i = 1) \<and>
     (head b < length (data b) \<longrightarrow> cmask b ! head b \<noteq> 1)"

definition written :: "cbuf \<Rightarrow> nat \<rightharpoonup> byte" where
  "written b = (\<lambda>i. if i < length (data b) \<and> cmask b ! i = 1 then Some (data b ! i) else None)"

lemma mark_eq:
  "e \<le> length m \<Longrightarrow> \<exists>m'. mark m i e = Some m' \<and> length m' = length m \<and>
     (\<forall>k < length m. m' ! k = (if i \<le> k \<and> k < e then 1 else m ! k))"
proof (induction m i e rule: mark.induct)
  case (1 m i e)
  show ?case
  proof (cases "i < e")
    case True
    with 1 have i: "i < length m" by simp
    from 1(1) [OF True i] 1(2) i obtain m' where
      "mark (m[i := 1]) (i + 1) e = Some m'" "length m' = length m"
      "\<forall>k < length m. m' ! k = (if i + 1 \<le> k \<and> k < e then 1 else m[i := 1] ! k)" by auto
    then show ?thesis using True i by (auto simp: mark.simps [of m] nth_list_update)
  next
    case False
    then show ?thesis by (auto simp: mark.simps [of m])
  qed
qed

lemma advance_ok:
  "h \<le> length m \<Longrightarrow> \<forall>i < h. m ! i = 1 \<Longrightarrow>
   h \<le> advance m h \<and> advance m h \<le> length m \<and> (\<forall>i < advance m h. m ! i = 1) \<and>
   (advance m h < length m \<longrightarrow> m ! advance m h \<noteq> 1)"
proof (induction m h rule: advance.induct)
  case (1 m h)
  show ?case
  proof (cases "h < length m \<and> m ! h = 1")
    case True
    then have "\<forall>i < h + 1. m ! i = 1" using 1(3) by (auto simp: less_Suc_eq)
    with 1(1) [OF True] True show ?thesis by (simp add: advance.simps [of m h])
  next
    case False
    then show ?thesis using 1(2,3) by (auto simp: advance.simps [of m h])
  qed
qed

lemma ensure_ok:
  assumes "cbuf_inv b" and "n \<le> maxBufSize"
  shows "written (ensure b n) = written b \<and> n \<le> length (data (ensure b n)) \<and>
    length (data (ensure b n)) \<le> maxBufSize \<and> length (cmask (ensure b n)) = length (data (ensure b n)) \<and>
    head (ensure b n) = head b \<and> (\<forall>i < head b. cmask (ensure b n) ! i = 1) \<and>
    head b \<le> length (data (ensure b n))"
proof (cases "n \<le> length (data b)")
  case True
  with assms show ?thesis by (auto simp: ensure_def cbuf_inv_def)
next
  case False
  then have e: "ensure b n = b\<lparr>data := data b @ replicate (n - length (data b)) 0,
      cmask := cmask b @ replicate (n - length (data b)) 0\<rparr>"
    using assms by (auto simp: ensure_def go_copy_def cbuf_inv_def)
  show ?thesis using False assms
    by (auto simp: e written_def cbuf_inv_def nth_append fun_eq_iff)
qed

lemma buf_write_ok:
  assumes inv: "cbuf_inv b"
  shows "\<exists>b'. buf_write now b off p = Some b' \<and> cbuf_inv b' \<and>
    written b' = (if off + length p > maxBufSize then written b else overlay (written b) off p)"
proof (cases "off + length p > maxBufSize")
  case True
  with inv show ?thesis by (simp add: buf_write_def)
next
  case False
  define e where "e = off + length p"
  define c where "c = ensure b e"
  have c: "written c = written b" "e \<le> length (data c)" "length (data c) \<le> maxBufSize"
      "length (cmask c) = length (data c)" "head c = head b" "\<forall>i < head b. cmask c ! i = 1"
      "head b \<le> length (data c)"
    using ensure_ok [OF inv, of e] False by (auto simp: c_def e_def)
  obtain m where m: "mark (cmask c) off e = Some m" "length m = length (data c)"
      "\<forall>k < length (data c). m ! k = (if off \<le> k \<and> k < e then 1 else cmask c ! k)"
    using mark_eq [of e "cmask c" off] c(2,4) by auto
  define d where "d = take off (data c) @ p @ drop e (data c)"
  have d: "length d = length (data c)" using c(2) by (simp add: d_def e_def)
  have dn: "d ! k = (if off \<le> k \<and> k < e then p ! (k - off) else data c ! k)" if "k < length (data c)" for k
    using that c(2) by (auto simp: d_def e_def nth_append)
  have h1: "\<forall>i < head b. m ! i = 1" using m(3) c(6,7) by auto
  have h2: "head b \<le> length m" using m(2) c(7) by simp
  define b' where "b' = c\<lparr>data := d, cmask := m, head := advance m (head b), lastAccess := now\<rparr>"
  have "buf_write now b off p = Some b'"
    using False c(2) m(1) by (simp add: buf_write_def Let_def b'_def d_def c(5) flip: e_def c_def)
  moreover have "cbuf_inv b'"
    using advance_ok [OF h2 h1] c(3) m(2) d by (auto simp: cbuf_inv_def b'_def)
  moreover have "written b' i = overlay (written c) off p i" for i
    using m(2,3) d dn c(2) by (auto simp: written_def b'_def overlay_def e_def)
  then have "written b' = overlay (written b) off p" unfolding c(1) by (rule ext)
  ultimately show ?thesis using False by simp
qed

lemma snapshot_ok:
  assumes "cbuf_inv b"
  shows "\<exists>r. snapshot b = Some r \<and> r \<noteq> Some [] \<and>
    contiguous (written b) (case r of None \<Rightarrow> [] | Some s \<Rightarrow> s)"
proof -
  have c: "contiguous (written b) (take (head b) (data b))"
    using assms by (auto simp: contiguous_def written_def cbuf_inv_def)
  show ?thesis
  proof (cases "head b = 0")
    case True
    with c show ?thesis by (simp add: snapshot_def)
  next
    case False
    moreover from False assms have "data b \<noteq> []" by (auto simp: cbuf_inv_def)
    ultimately show ?thesis using c assms by (simp add: snapshot_def cbuf_inv_def)
  qed
qed

interpretation crypto_buf: stream_buffer cbuf_inv written "buf_write now" snapshot maxBufSize for now
  by unfold_locales (rule buf_write_ok snapshot_ok; assumption)+

lemma buf_write_far: "off > 2 ^ 20 \<Longrightarrow> buf_write now b off p = Some b"
  by (simp add: buf_write_def maxBufSize_def)

lemma head_bound: "cbuf_inv b \<Longrightarrow> \<not> head b > 2 ^ 20"
  by (auto simp: cbuf_inv_def maxBufSize_def)

text \<open>The frame loop is the interface's sequence of writes: frames beyond \<^verbatim>\<open>1<<20\<close> would not be
  written anyway, and the exit for a buffer that has grown too large is never taken.\<close>

lemma write_frames_eq:
  "cbuf_inv b \<Longrightarrow> write_frames now b fs = map_option Some (stream_buffer.wr_all (buf_write now) b fs)"
proof (induction fs arbitrary: b)
  case (Cons f fs)
  from buf_write_ok [OF Cons.prems] obtain b' where
    "buf_write now b (frm_off f) (frm_b f) = Some b'" "cbuf_inv b'" by blast
  with Cons.IH Cons.prems buf_write_far [of "frm_off f" now b "frm_b f"] head_bound [of b'] show ?case
    by auto
qed simp

subsection \<open>Frames at 64 bits\<close>

lemma frames_from_64:
  assumes "length plain < 2 ^ 63"
  shows "no_panic (frames_from 64 plain i out)"
proof (induction "length plain - i" arbitrary: i out rule: less_induct)
  case less
  have step: "no_panic (frames_from 64 plain j out')" if "i < j" "i < length plain" for j out'
    using that by (intro less.hyps) simp
  show ?case
  proof (cases "i < length plain \<and> plain ! i = 6")
    case False
    then show ?thesis by (auto simp: frames_from.simps [of _ plain i] Let_def intro!: step)
  next
    case True
    define k where "k = i + 1 + snd (readVarint (drop (i + 1) plain))"
    define r2 where "r2 = readVarint (drop k plain)"
    show ?thesis
    proof (cases "snd (readVarint (drop (i + 1) plain)) = 0 \<or> snd r2 = 0 \<or>
        go_int 64 (unat (fst r2)) > int (length plain) - int k - int (snd r2)")
      case stop: True
      then show ?thesis using True by (auto simp: frames_from.simps [of _ plain i] Let_def k_def r2_def)
    next
      case go: False
      have ln: "unat (fst r2) < 2 ^ 62" unfolding r2_def readVarint_readVar by (rule readVar_bound)
      then have "go_int 64 (unat (fst r2)) = int (unat (fst r2))" by (intro go_int_small) auto
      then have "k + snd r2 + unat (fst r2) \<le> length plain" using go by linarith
      then have "slice_end 64 plain (k + snd r2) (unat (fst r2)) = Some (k + snd r2 + unat (fst r2))"
        using assms by (intro slice_end_64) auto
      moreover have "no_panic (frames_from 64 plain (k + snd r2 + unat (fst r2)) out')" for out'
        using True by (intro step) (auto simp: k_def)
      ultimately show ?thesis using True go
        by (simp add: frames_from.simps [of _ plain i] Let_def k_def r2_def)
    qed
  qed
qed

subsection \<open>Reassembly over a sequence of packets\<close>

definition cm_ok :: "cmap \<Rightarrow> bool" where
  "cm_ok cm \<longleftrightarrow> (\<forall>b \<in> ran cm. cbuf_inv b)"

definition cm_content :: "cmap \<Rightarrow> bytes \<Rightarrow> nat \<rightharpoonup> byte" where
  "cm_content cm d = (case cm d of None \<Rightarrow> Map.empty | Some b \<Rightarrow> written b)"

definition carried :: "nat \<Rightarrow> bytes \<Rightarrow> cryptoFrame list" where
  "carried w plain = (case parseCryptoFrames w plain of None \<Rightarrow> [] | Some fs \<Rightarrow> fs)"

definition good_result :: "bytes \<Rightarrow> bool \<Rightarrow> bytes option \<Rightarrow> bool" where
  "good_result S complete r \<longleftrightarrow>
     (case r of None \<Rightarrow> True | Some s \<Rightarrow> s \<noteq> [] \<and> s = take (length s) S) \<and> (complete \<longrightarrow> r = Some S)"

lemma new_buf_ok: "cbuf_inv (new_buf now)" "written (new_buf now) = Map.empty"
  by (simp_all add: cbuf_inv_def written_def new_buf_def)

lemma cm_ok_upd: "cm_ok cm \<Longrightarrow> cbuf_inv b \<Longrightarrow> cm_ok (cm(d \<mapsto> b))"
  by (auto simp: cm_ok_def ran_def)

lemma AssembleCrypto_quiet:
  "d = [] \<or> carried w plain = [] \<Longrightarrow> no_panic (parseCryptoFrames w plain) \<Longrightarrow>
   AssembleCrypto w now cm d plain = Some (cm, None)"
  by (auto simp: AssembleCrypto_def carried_def no_panic_def)

text \<open>One call with frames: the buffer is in the map, holds what it held and the frames, and the
  answer is its contiguous prefix.\<close>

lemma AssembleCrypto_writes:
  assumes ok: "cm_ok cm" and fs: "parseCryptoFrames w plain = Some fs" "fs \<noteq> []" and d: "d \<noteq> []"
  obtains b b' r where "cbuf_inv b" "written b = cm_content cm d"
    "stream_buffer.wr_all (buf_write now) b fs = Some b'" "cbuf_inv b'" "snapshot b' = Some r"
    "AssembleCrypto w now cm d plain = Some (cm(d \<mapsto> b'), r)"
proof -
  define b where "b = (case cm d of Some b \<Rightarrow> b | None \<Rightarrow> new_buf now)"
  have b: "cbuf_inv b" "written b = cm_content cm d"
    using ok by (auto simp: b_def cm_ok_def cm_content_def new_buf_ok ran_def split: option.splits)
  obtain b' where b': "stream_buffer.wr_all (buf_write now) b fs = Some b'" "cbuf_inv b'"
    using crypto_buf.wr_all_ok [OF b(1)] by blast
  obtain r where r: "snapshot b' = Some r" using snapshot_ok [OF b'(2)] by blast
  have "plain \<noteq> []"
    using fs by (auto simp: parseCryptoFrames_def frames_from.simps)
  then have "AssembleCrypto w now cm d plain = Some (cm(d \<mapsto> b'), r)"
    using fs d b' r by (simp add: AssembleCrypto_def write_frames_eq [OF b(1)] flip: b_def)
  with that b b' r show ?thesis by blast
qed

lemma AssembleCrypto_other:
  assumes "cm_ok cm" and "no_panic (parseCryptoFrames w plain)"
  shows "\<exists>cm' r. AssembleCrypto w now cm d plain = Some (cm', r) \<and> cm_ok cm' \<and> (\<forall>d'. d' \<noteq> d \<longrightarrow> cm' d' = cm d')"
proof (cases "d = [] \<or> carried w plain = []")
  case True
  with assms show ?thesis by (simp add: AssembleCrypto_quiet)
next
  case False
  with assms(2) obtain fs where fs: "parseCryptoFrames w plain = Some fs" "fs \<noteq> []" "d \<noteq> []"
    by (auto simp: carried_def no_panic_def)
  obtain b b' r where "cbuf_inv b'" "AssembleCrypto w now cm d plain = Some (cm(d \<mapsto> b'), r)"
    by (rule AssembleCrypto_writes [OF assms(1) fs])
  then show ?thesis using cm_ok_upd [OF assms(1), of b' d] by auto
qed

lemma AssembleCrypto_stream:
  assumes ok: "cm_ok cm" and d: "d \<noteq> []" and S: "S \<noteq> []" "length S \<le> maxBufSize"
    and np: "no_panic (parseCryptoFrames w plain)"
    and parts: "\<forall>f \<in> set (carried w plain). part_of S f" and ag: "agrees (cm_content cm d) S"
  shows "\<exists>cm' r. AssembleCrypto w now cm d plain = Some (cm', r) \<and> cm_ok cm' \<and>
    agrees (cm_content cm' d) S \<and>
    dom (cm_content cm' d) = dom (cm_content cm d) \<union> frames_span (carried w plain) \<and>
    good_result S (carried w plain \<noteq> [] \<and> {..<length S} \<subseteq> dom (cm_content cm' d)) r"
proof (cases "carried w plain = []")
  case True
  with assms show ?thesis by (simp add: AssembleCrypto_quiet good_result_def)
next
  case False
  with np obtain fs where fs: "parseCryptoFrames w plain = Some fs" "fs \<noteq> []" and c: "carried w plain = fs"
    by (auto simp: carried_def no_panic_def)
  obtain b b' r where b: "cbuf_inv b" "written b = cm_content cm d"
    and wr: "stream_buffer.wr_all (buf_write now) b fs = Some b'" "cbuf_inv b'" and r: "snapshot b' = Some r"
    and a: "AssembleCrypto w now cm d plain = Some (cm(d \<mapsto> b'), r)"
    by (rule AssembleCrypto_writes [OF ok fs d])
  have st: "agrees (written b') S \<and> dom (written b') = dom (written b) \<union> frames_span fs"
    using crypto_buf.wr_all_stream [OF b(1) _ _ S(2) wr(1)] ag parts by (simp add: b(2) c)
  have "good_result S ({..<length S} \<subseteq> dom (written b')) r"
    using crypto_buf.rd_stream [OF wr(2), of S] st r S(1) by (auto simp: good_result_def)
  moreover have "cm_content (cm(d \<mapsto> b')) d = written b'" by (simp add: cm_content_def)
  ultimately show ?thesis using a st cm_ok_upd [OF ok wr(2), of d] by (simp add: c fs b(2))
qed

type_synonym arrival = "nat \<times> bytes \<times> bytes"

fun run_assemble :: "nat \<Rightarrow> cmap \<Rightarrow> arrival list \<Rightarrow> (cmap \<times> bytes option list) option" where
  "run_assemble w cm [] = Some (cm, [])"
| "run_assemble w cm ((now, d, p) # es) = do {
     (cm, r) \<leftarrow> AssembleCrypto w now cm d p;
     (cm, rs) \<leftarrow> run_assemble w cm es;
     Some (cm, r # rs) }"

definition received :: "bytes \<Rightarrow> arrival list \<Rightarrow> nat set" where
  "received dcid es = (\<Union>(now, d, p) \<in> set es. if d = dcid then frames_span (carried 64 p) else {})"

definition arrivals_of :: "bytes \<Rightarrow> bytes \<Rightarrow> arrival list \<Rightarrow> bool" where
  "arrivals_of dcid S es \<longleftrightarrow> (\<forall>(now, d, p) \<in> set es. length p < 2 ^ 63 \<and>
     (d = dcid \<longrightarrow> (\<forall>f \<in> set (carried 64 p). part_of S f)))"

lemma run_assemble_stream:
  assumes S: "dcid \<noteq> []" "S \<noteq> []" "length S \<le> maxBufSize"
    and "cm_ok cm" and "agrees (cm_content cm dcid) S" and "arrivals_of dcid S es"
  shows "\<exists>cm' rs. run_assemble 64 cm es = Some (cm', rs) \<and> length rs = length es \<and>
    (\<forall>i < length es. fst (snd (es ! i)) = dcid \<longrightarrow>
      good_result S (carried 64 (snd (snd (es ! i))) \<noteq> [] \<and>
        {..<length S} \<subseteq> dom (cm_content cm dcid) \<union> received dcid (take (Suc i) es)) (rs ! i))"
  using assms(4-)
proof (induction es arbitrary: cm)
  case (Cons e es)
  obtain now d p where e: "e = (now, d, p)" by (cases e)
  have np: "no_panic (parseCryptoFrames 64 p)"
    using Cons.prems(3) by (auto simp: arrivals_of_def e parseCryptoFrames_def intro!: frames_from_64)
  have arr: "arrivals_of dcid S es" using Cons.prems(3) by (simp add: arrivals_of_def)
  let ?D = "\<lambda>c. dom (cm_content c dcid)"
  have "\<exists>cm1 r. AssembleCrypto 64 now cm d p = Some (cm1, r) \<and> cm_ok cm1 \<and>
      agrees (cm_content cm1 dcid) S \<and> ?D cm1 = ?D cm \<union> received dcid [e] \<and>
      (d = dcid \<longrightarrow> good_result S (carried 64 p \<noteq> [] \<and> {..<length S} \<subseteq> ?D cm1) r)"
  proof (cases "d = dcid")
    case True
    with AssembleCrypto_stream [OF Cons.prems(1) S np, of now] Cons.prems(2,3) show ?thesis
      by (simp add: received_def e arrivals_of_def)
  next
    case False
    from AssembleCrypto_other [OF Cons.prems(1) np, of now d] obtain cm1 r where
      "AssembleCrypto 64 now cm d p = Some (cm1, r)" "cm_ok cm1" "cm1 dcid = cm dcid"
      using False by metis
    with Cons.prems(2) False show ?thesis by (simp add: received_def e cm_content_def)
  qed
  then obtain cm1 r where a: "AssembleCrypto 64 now cm d p = Some (cm1, r)" "cm_ok cm1"
      "agrees (cm_content cm1 dcid) S" and D: "?D cm1 = ?D cm \<union> received dcid [e]"
    and g: "d = dcid \<Longrightarrow> good_result S (carried 64 p \<noteq> [] \<and> {..<length S} \<subseteq> ?D cm1) r" by blast
  obtain cm2 rs where run: "run_assemble 64 cm1 es = Some (cm2, rs)" "length rs = length es" and
    rest: "\<And>i. i < length es \<Longrightarrow> fst (snd (es ! i)) = dcid \<Longrightarrow>
      good_result S (carried 64 (snd (snd (es ! i))) \<noteq> [] \<and>
        {..<length S} \<subseteq> ?D cm1 \<union> received dcid (take (Suc i) es)) (rs ! i)"
    using Cons.IH [OF a(2,3) arr] by blast
  have R: "received dcid (e # es') = received dcid [e] \<union> received dcid es'" for es'
    by (simp add: received_def)
  have "good_result S (carried 64 (snd (snd ((e # es) ! i))) \<noteq> [] \<and>
      {..<length S} \<subseteq> ?D cm \<union> received dcid (take (Suc i) (e # es))) ((r # rs) ! i)"
    if "i < length (e # es)" "fst (snd ((e # es) ! i)) = dcid" for i
  proof (cases i)
    case 0
    with that g D show ?thesis by (simp add: e)
  next
    case (Suc j)
    then show ?thesis using that rest [of j] by (simp add: R [of "take (Suc j) es"] D Un_assoc)
  qed
  then show ?case using run a(1) by (simp add: e)
qed simp

text \<open>
  C7. Reassembly delivers the stream. Take any interleaving of packets of any connections, in any
  order, with gaps, duplicates and overlaps, in which the CRYPTO frames of one connection are
  pieces of one stream of at most \<^verbatim>\<open>maxBufSize\<close> bytes. On a 64-bit build no call panics, every
  answer for that connection is a prefix of the stream, and as soon as the frames received
  so far cover the stream, the answer to a packet with frames is the whole stream.
\<close>

theorem crypto_stream_reassembled:
  assumes "dcid \<noteq> []" and "S \<noteq> []" and "length S \<le> maxBufSize" and "arrivals_of dcid S es"
  shows "\<exists>cm rs. run_assemble 64 (\<lambda>_. None) es = Some (cm, rs) \<and> length rs = length es \<and>
    (\<forall>i < length es. fst (snd (es ! i)) = dcid \<longrightarrow>
      (case rs ! i of None \<Rightarrow> True | Some s \<Rightarrow> s \<noteq> [] \<and> s = take (length s) S) \<and>
      (carried 64 (snd (snd (es ! i))) \<noteq> [] \<and> {..<length S} \<subseteq> received dcid (take (Suc i) es) \<longrightarrow>
        rs ! i = Some S))"
  using run_assemble_stream [of dcid S "\<lambda>_. None" es] assms
  by (simp add: cm_ok_def cm_content_def agrees_def good_result_def)

subsection \<open>Frames as the protocol encodes them\<close>

definition encodeFrame :: "cryptoFrame \<Rightarrow> bytes" where
  "encodeFrame f = [0x06] @ writeVar [] (word_of_nat (frm_off f)) @
     writeVar [] (word_of_nat (length (frm_b f))) @ frm_b f"

lemma writeVar_length: "0 < length (writeVar [] v)"
  by (simp add: writeVar_def)

lemma word_of_small:
  "n < 2 ^ 62 \<Longrightarrow> (word_of_nat n :: 64 word) < 2 ^ 62 \<and> unat (word_of_nat n :: 64 word) = n"
proof -
  assume n: "n < 2 ^ 62"
  have "unat (word_of_nat n :: 64 word) = n mod 2 ^ LENGTH(64)" by (rule unat_of_nat)
  then have u: "unat (word_of_nat n :: 64 word) = n" using n by simp
  then show ?thesis using n by (simp add: word_less_nat_alt)
qed

lemma frames_from_encoded:
  assumes len: "length (pre @ encodeFrame f @ rest) < 2 ^ 62" and off: "frm_off f < 2 ^ 62"
  shows "frames_from 64 (pre @ encodeFrame f @ rest) (length pre) out =
    frames_from 64 (pre @ encodeFrame f @ rest) (length pre + length (encodeFrame f)) (out @ [f])"
proof -
  define V where "V = writeVar [] (word_of_nat (frm_off f))"
  define W where "W = writeVar [] (word_of_nat (length (frm_b f)))"
  define P where "P = pre @ encodeFrame f @ rest"
  have P: "P = pre @ 6 # V @ W @ frm_b f @ rest" by (simp add: P_def encodeFrame_def V_def W_def)
  have lb: "length (frm_b f) < 2 ^ 62" using len by (simp add: encodeFrame_def)
  have v: "readVarint (V @ x) = (word_of_nat (frm_off f), length V)" for x
    using word_of_small [OF off] by (simp add: readVarint_readVar V_def readVar_written)
  have w: "readVarint (W @ x) = (word_of_nat (length (frm_b f)), length W)" for x
    using word_of_small [OF lb] by (simp add: readVarint_readVar W_def readVar_written)
  define k where "k = length pre + 1 + length V"
  have d1: "drop (length pre + 1) P = V @ W @ frm_b f @ rest" by (simp add: P)
  have d2: "drop k P = W @ frm_b f @ rest" by (simp add: P k_def)
  have nz: "length V \<noteq> 0" "length W \<noteq> 0" using writeVar_length by (auto simp: V_def W_def)
  have fits: "k + length W + length (frm_b f) \<le> length P" by (simp add: P k_def)
  have ln: "go_int 64 (length (frm_b f)) = int (length (frm_b f))" using lb by (intro go_int_small) auto
  have sl: "slice_end 64 P (k + length W) (length (frm_b f)) = Some (k + length W + length (frm_b f))"
    using fits len by (intro slice_end_64) (auto simp: P_def)
  have so: "slice_of P (k + length W) (k + length W + length (frm_b f)) = frm_b f"
    using drop_prefix [of "pre @ 6 # V @ W" "k + length W" "frm_b f @ rest"]
    by (simp add: slice_of_def P k_def)
  have el: "length pre + length (encodeFrame f) = k + length W + length (frm_b f)"
    by (simp add: encodeFrame_def V_def W_def k_def)
  have "length pre < length P" "P ! length pre = 6" by (simp_all add: P)
  moreover have eta: "\<lparr>frm_off = frm_off f, frm_b = frm_b f\<rparr> = f" by simp
  ultimately have "frames_from 64 P (length pre) out = frames_from 64 P (k + length W + length (frm_b f)) (out @ [f])"
    using nz fits
    by (subst frames_from.simps [of 64 P])
      (simp del: add_Suc_right add: Let_def d1 [simplified] v d2 [unfolded k_def, simplified] w
        word_of_small [OF off] word_of_small [OF lb] ln sl [unfolded k_def, simplified]
        so [unfolded k_def, simplified] k_def eta)
  then show ?thesis by (simp add: el flip: P_def)
qed

lemma frames_from_padding: "frames_from 64 (pre @ replicate n 0) (length pre) out = Some out"
proof -
  have "takeWhile (\<lambda>x. x = 0) (replicate k (0 :: byte)) = replicate k 0" for k
    by (simp add: takeWhile_eq_all_conv)
  then show ?thesis
    by (cases n) (simp_all add: frames_from.simps [of 64 "pre @ _"] frames_from.simps [of 64 pre "length pre"] Let_def nth_append)
qed

lemma frames_from_all:
  assumes "length (pre @ concat (map encodeFrame fs) @ replicate n 0) < 2 ^ 62"
    and "\<forall>f \<in> set fs. frm_off f < 2 ^ 62"
  shows "frames_from 64 (pre @ concat (map encodeFrame fs) @ replicate n 0) (length pre) out = Some (out @ fs)"
  using assms
proof (induction fs arbitrary: pre out)
  case Nil
  then show ?case by (simp add: frames_from_padding)
next
  case (Cons f fs)
  let ?rest = "concat (map encodeFrame fs) @ replicate n 0"
  have "frames_from 64 (pre @ encodeFrame f @ ?rest) (length pre) out =
      frames_from 64 (pre @ encodeFrame f @ ?rest) (length pre + length (encodeFrame f)) (out @ [f])"
    using Cons.prems by (intro frames_from_encoded) auto
  also have "\<dots> = Some ((out @ [f]) @ fs)"
    using Cons.IH [of "pre @ encodeFrame f" "out @ [f]"] Cons.prems by simp
  finally show ?case by simp
qed

lemma parse_encoded:
  assumes "length (concat (map encodeFrame fs) @ replicate n 0) < 2 ^ 62"
    and "\<forall>f \<in> set fs. frm_off f < 2 ^ 62"
  shows "parseCryptoFrames 64 (concat (map encodeFrame fs) @ replicate n 0) = Some fs"
  using frames_from_all [of "[]" fs n "[]"] assms by (simp add: parseCryptoFrames_def)

text \<open>
  The frame parser is complete: a payload that holds the protocol's encoding of a list of
  CRYPTO frames, followed by any amount of padding, is parsed into exactly those frames, in order.
\<close>

theorem encoded_frames_parse:
  assumes "length (concat (map encodeFrame fs) @ replicate n 0) < 2 ^ 62"
    and "\<forall>f \<in> set fs. frm_off f < 2 ^ 62"
  shows "parseCryptoFrames 64 (concat (map encodeFrame fs) @ replicate n 0) = Some fs"
  using assms by (rule parse_encoded)

theorem encoded_frames_parse_witness:
  "parseCryptoFrames 64 [6, 0, 2, 10, 20, 6, 1, 2, 20, 30, 0, 0] =
     Some [\<lparr>frm_off = 0, frm_b = [10, 20]\<rparr>, \<lparr>frm_off = 1, frm_b = [20, 30]\<rparr>]"
proof -
  have "replicate 2 (0 :: byte) = [0, 0]" by (simp add: numeral_2_eq_2)
  then show ?thesis
    using encoded_frames_parse [of "[\<lparr>frm_off = 0, frm_b = [10, 20]\<rparr>, \<lparr>frm_off = 1, frm_b = [20, 30]\<rparr>]" 2]
    by (simp add: encodeFrame_def writeVar_def byte_of_def)
qed

theorem crypto_stream_reassembled_witness:
  "\<exists>cm rs. run_assemble 64 (\<lambda>_. None)
      [(1, [7], [6, 1, 2, 20, 30]), (2, [8], [6, 0, 1, 99]), (3, [7], [6, 0, 2, 10, 20])] = Some (cm, rs) \<and>
    length rs = 3 \<and> rs ! 2 = Some [10, 20, 30]"
proof -
  let ?es = "[(1, [7], [6, 1, 2, 20, 30]), (2, [8], [6, 0, 1, 99]), (3, [7], [6, 0, 2, 10, 20])] :: arrival list"
  have enc: "carried 64 (encodeFrame f) = [f]" if "frm_off f < 9" "length (frm_b f) < 9" for f
  proof -
    have "length (encodeFrame f) < 30" using that by (simp add: encodeFrame_def writeVar_def)
    then show ?thesis using parse_encoded [of "[f]" 0] that by (simp add: carried_def)
  qed
  have p1: "carried 64 [6, 1, 2, 20, 30] = [\<lparr>frm_off = 1, frm_b = [20, 30]\<rparr>]"
    using enc [of "\<lparr>frm_off = 1, frm_b = [20, 30]\<rparr>"] by (simp add: encodeFrame_def writeVar_def byte_of_def)
  have p3: "carried 64 [6, 0, 2, 10, 20] = [\<lparr>frm_off = 0, frm_b = [10, 20]\<rparr>]"
    using enc [of "\<lparr>frm_off = 0, frm_b = [10, 20]\<rparr>"] by (simp add: encodeFrame_def writeVar_def byte_of_def)
  have arr: "arrivals_of [7] [10, 20, 30] ?es"
    by (simp add: arrivals_of_def p1 p3 part_of_def)
  have cover: "{..<length [10, 20, 30 :: byte]} \<subseteq> received [7] (take (Suc 2) ?es)"
    by (auto simp: received_def p1 p3 frame_span_def)
  obtain cm rs where run: "run_assemble 64 (\<lambda>_. None) ?es = Some (cm, rs)" "length rs = length ?es"
    and all: "\<forall>i < length ?es. fst (snd (?es ! i)) = [7] \<longrightarrow>
      (case rs ! i of None \<Rightarrow> True | Some s \<Rightarrow> s \<noteq> [] \<and> s = take (length s) [10, 20, 30]) \<and>
      (carried 64 (snd (snd (?es ! i))) \<noteq> [] \<and> {..<length [10, 20, 30 :: byte]} \<subseteq> received [7] (take (Suc i) ?es) \<longrightarrow>
        rs ! i = Some [10, 20, 30])"
    using crypto_stream_reassembled [OF _ _ _ arr] by (auto simp: maxBufSize_def)
  have "rs ! 2 = Some [10, 20, 30]"
    using all [rule_format, of 2] cover by (simp add: p3)
  with run show ?thesis by auto
qed

subsection \<open>The clean-up tick\<close>

definition fresh_entry :: "nat \<Rightarrow> cbuf \<Rightarrow> bool" where
  "fresh_entry now b \<longleftrightarrow> int now - int (lastAccess b) \<le> int entryTTL"

definition fresh_keys :: "nat \<Rightarrow> cmap \<Rightarrow> bytes set" where
  "fresh_keys now cm = {k. \<exists>b. cm k = Some b \<and> fresh_entry now b}"

lemma stale_pass_eq:
  assumes "distinct ks" and "set ks \<subseteq> dom cm"
  shows "\<exists>s'. stale_pass now ks cm t s =
    (cm |` (- {k \<in> set ks. k \<notin> fresh_keys now cm}), t + card (set ks \<inter> fresh_keys now cm), s')"
  using assms
proof (induction ks arbitrary: cm t s)
  case Nil
  then show ?case by (simp add: restrict_map_def)
next
  case (Cons k ks)
  then obtain b where b: "cm k = Some b" by auto
  show ?case
  proof (cases "fresh_entry now b")
    case True
    then have k: "k \<in> fresh_keys now cm" using b by (simp add: fresh_keys_def)
    then have "card (set (k # ks) \<inter> fresh_keys now cm) = Suc (card (set ks \<inter> fresh_keys now cm))"
      using Cons.prems by (simp add: Int_insert_left)
    moreover have "{x \<in> set (k # ks). x \<notin> fresh_keys now cm} = {x \<in> set ks. x \<notin> fresh_keys now cm}"
      using k by auto
    moreover obtain s' where "stale_pass now ks cm (t + 1) s =
        (cm |` (- {x \<in> set ks. x \<notin> fresh_keys now cm}), t + 1 + card (set ks \<inter> fresh_keys now cm), s')"
      using Cons.IH [of cm "t + 1" s] Cons.prems by auto
    ultimately show ?thesis using True b by (simp add: fresh_entry_def)
  next
    case False
    let ?cm = "cm(k := None)"
    have k: "k \<notin> fresh_keys now cm" using False b by (simp add: fresh_keys_def)
    have fr: "fresh_keys now ?cm = fresh_keys now cm" using k by (auto simp: fresh_keys_def)
    have sub: "set ks \<subseteq> dom ?cm" and dist: "distinct ks" using Cons.prems by auto
    from Cons.IH [OF dist sub, of t "s + 1"] obtain s' where
      "stale_pass now ks ?cm t (s + 1) = (?cm |` (- {x \<in> set ks. x \<notin> fresh_keys now cm}),
         t + card (set ks \<inter> fresh_keys now cm), s')" unfolding fr by blast
    moreover have "?cm |` (- {x \<in> set ks. x \<notin> fresh_keys now cm}) =
        cm |` (- {x \<in> set (k # ks). x \<notin> fresh_keys now cm})"
      using k by (auto simp: restrict_map_def fun_eq_iff)
    moreover have "set (k # ks) \<inter> fresh_keys now cm = set ks \<inter> fresh_keys now cm" using k by auto
    ultimately show ?thesis using False b by (simp add: fresh_entry_def)
  qed
qed

lemma excess_pass_ok:
  assumes "distinct ks" and "set ks = dom cm" and "int (card (dom cm)) = int t - int e"
  shows "card (dom (excess_pass ks cm t e)) \<le> maxEntries \<and> excess_pass ks cm t e \<subseteq>\<^sub>m cm"
  using assms
proof (induction ks arbitrary: cm e)
  case (Cons k ks)
  show ?case
  proof (cases "int t - int e \<le> int maxEntries")
    case True
    with Cons.prems show ?thesis by (auto simp: map_le_def)
  next
    case False
    let ?cm = "cm(k := None)"
    have "dom ?cm = set (k # ks) - {k}" unfolding Cons.prems(2) by simp
    then have dk: "set ks = dom ?cm" using Cons.prems(1) by auto
    have "finite (dom cm)" unfolding Cons.prems(2) [symmetric] by simp
    moreover have "k \<in> dom cm" unfolding Cons.prems(2) [symmetric] by simp
    ultimately have "card (dom cm) = Suc (card (dom ?cm))" using card.remove [of "dom cm" k] by simp
    then have c: "int (card (dom ?cm)) = int t - int (e + 1)" using Cons.prems(3) by simp
    have "distinct ks" using Cons.prems(1) by simp
    from Cons.IH [OF this dk c] have "card (dom (excess_pass ks ?cm t (e + 1))) \<le> maxEntries"
        "excess_pass ks ?cm t (e + 1) \<subseteq>\<^sub>m ?cm" by blast+
    moreover have "?cm \<subseteq>\<^sub>m cm" by (simp add: map_le_def)
    ultimately show ?thesis using False map_le_trans [of "excess_pass ks ?cm t (e + 1)" ?cm cm] by simp
  qed
qed (simp add: map_le_def)

lemma cleanup_tick_eq:
  assumes "distinct ks" and "set ks = dom cm"
  shows "cleanup_tick now ks ks' cm =
    (if card (fresh_keys now cm) > maxEntries
     then excess_pass ks' (cm |` fresh_keys now cm) (card (fresh_keys now cm)) 0
     else cm |` fresh_keys now cm)"
proof -
  have "set ks \<inter> fresh_keys now cm = fresh_keys now cm" using assms by (auto simp: fresh_keys_def)
  moreover have "cm |` (- {k \<in> set ks. k \<notin> fresh_keys now cm}) = cm |` fresh_keys now cm"
    using assms by (auto simp: restrict_map_def fun_eq_iff)
  ultimately show ?thesis
    using stale_pass_eq [OF assms(1), of cm now 0 0] assms(2) by (auto simp: cleanup_tick_def)
qed

text \<open>
  A clean-up tick bounds the table: in whatever order the two passes visit the entries, at most
  \<^verbatim>\<open>maxEntries\<close> are left, every one of them unchanged and used within the last 30 seconds, and
  when the fresh entries fit nothing but the stale ones is dropped.
\<close>

theorem cleanup_tick_bounds:
  assumes "distinct ks" and "set ks = dom cm" and "distinct ks'" and "set ks' = fresh_keys now cm"
  shows "card (dom (cleanup_tick now ks ks' cm)) \<le> maxEntries \<and>
    (\<forall>k b. cleanup_tick now ks ks' cm k = Some b \<longrightarrow>
       cm k = Some b \<and> int now - int (lastAccess b) \<le> int entryTTL) \<and>
    (card (fresh_keys now cm) \<le> maxEntries \<longrightarrow> cleanup_tick now ks ks' cm = cm |` fresh_keys now cm)"
proof -
  let ?F = "fresh_keys now cm"
  have d: "dom (cm |` ?F) = ?F" by (auto simp: fresh_keys_def restrict_map_def dom_def)
  have old: "cm k = Some b \<and> int now - int (lastAccess b) \<le> int entryTTL" if "(cm |` ?F) k = Some b" for k b
    using that by (auto simp: restrict_map_def fresh_keys_def fresh_entry_def split: if_splits)
  have x: "card (dom (excess_pass ks' (cm |` ?F) (card ?F) 0)) \<le> maxEntries"
      "excess_pass ks' (cm |` ?F) (card ?F) 0 \<subseteq>\<^sub>m cm |` ?F"
    using excess_pass_ok [OF assms(3), of "cm |` ?F" "card ?F" 0] assms(4) d by auto
  then have "(cm |` ?F) k = Some b" if "excess_pass ks' (cm |` ?F) (card ?F) 0 k = Some b" for k b
    using that by (metis domI map_le_def)
  with old have e: "\<forall>k b. excess_pass ks' (cm |` ?F) (card ?F) 0 k = Some b \<longrightarrow>
      cm k = Some b \<and> int now - int (lastAccess b) \<le> int entryTTL"
    and o: "\<forall>k b. (cm |` ?F) k = Some b \<longrightarrow> cm k = Some b \<and> int now - int (lastAccess b) \<le> int entryTTL"
    by blast+
  then show ?thesis
    using x(1) d by (cases "card ?F > maxEntries") (simp_all add: cleanup_tick_eq [OF assms(1,2)] not_less)
qed

theorem cleanup_tick_bounds_witness:
  "cleanup_tick 40000000000 [[1], [2]] [[2]]
     [[1] \<mapsto> new_buf 1, [2] \<mapsto> new_buf 20000000000] [1] = None \<and>
   card (dom (cleanup_tick 40000000000 [[1], [2]] [[2]]
     [[1] \<mapsto> new_buf 1, [2] \<mapsto> new_buf 20000000000])) \<le> maxEntries"
proof -
  let ?cm = "[[1] \<mapsto> new_buf 1, [2] \<mapsto> new_buf 20000000000]"
  have f: "fresh_keys 40000000000 ?cm = {[2]}"
    by (auto simp: fresh_keys_def fresh_entry_def new_buf_def entryTTL_def split: if_splits)
  let ?r = "cleanup_tick 40000000000 [[1], [2]] [[2]] ?cm"
  have k: "distinct [[1 :: byte], [2]]" "distinct [[2 :: byte]]" "set [[1], [2]] = dom ?cm"
      "set [[2]] = fresh_keys 40000000000 ?cm" using f by auto
  have b: "card (dom ?r) \<le> maxEntries" "\<And>k b. ?r k = Some b \<Longrightarrow> ?cm k = Some b \<and>
      int 40000000000 - int (lastAccess b) \<le> int entryTTL"
    using cleanup_tick_bounds [OF k(1,3,2,4)] by blast+
  have "?r [1] \<noteq> Some b" for b
    using b(2) [of "[1]" b] by (auto simp: new_buf_def entryTTL_def)
  then show ?thesis using b(1) by (cases "?r [1]") auto
qed

subsection \<open>Locating the server name\<close>

function locate_sni_ext :: "bytes \<Rightarrow> nat \<Rightarrow> nat \<Rightarrow> (nat \<times> nat) option option" where
  "locate_sni_ext ch pos extEnd =
     (if pos + 4 \<le> extEnd then do {
        extType \<leftarrow> be16 ch pos;
        extDataLen \<leftarrow> be16 ch (pos + 2);
        let pos = pos + 4;
        if pos + extDataLen > extEnd then Some None
        else if extType = 0 then
          (if extDataLen < 5 then Some None
           else do {
             nameLen \<leftarrow> be16 ch (pos + 3);
             let nameStart = pos + 5;
             if nameStart + nameLen > pos + extDataLen then Some None
             else Some (Some (nameStart, nameLen)) })
        else locate_sni_ext ch (pos + extDataLen) extEnd }
      else Some None)"
  by pat_completeness auto
termination
  by (relation "measure (\<lambda>(ch, pos, e). e - pos)") auto

declare locate_sni_ext.simps [simp del]

definition locateSNIInClientHello :: "bytes \<Rightarrow> (nat \<times> nat) option option" where
  "locateSNIInClientHello ch =
     (if length ch < 4 then Some None
      else if ch ! 0 \<noteq> 0x01 then Some None
      else do {
        let pos = 4;
        if pos + 34 > length ch then Some None
        else do {
          let pos = pos + 34;
          if pos \<ge> length ch then Some None
          else do {
            sidLen \<leftarrow> at_nat ch pos;
            let pos = pos + 1 + sidLen;
            if pos + 2 > length ch then Some None
            else do {
              csLen \<leftarrow> be16 ch pos;
              let pos = pos + 2 + csLen;
              if pos \<ge> length ch then Some None
              else do {
                compLen \<leftarrow> at_nat ch pos;
                let pos = pos + 1 + compLen;
                if pos + 2 > length ch then Some None
                else do {
                  extLen \<leftarrow> be16 ch pos;
                  let pos = pos + 2;
                  locate_sni_ext ch pos (min (pos + extLen) (length ch)) } } } } } })"

function locate_frames :: "nat \<Rightarrow> bytes \<Rightarrow> nat \<Rightarrow> (nat \<times> nat) option option" where
  "locate_frames w plain pos =
     (if \<not> pos < length plain then Some None
      else if plain ! pos = 0x00 then locate_frames w plain (pos + 1)
      else if plain ! pos = 0x01 then locate_frames w plain (pos + 1)
      else if plain ! pos \<noteq> 0x06 then Some None
      else
        let pos = pos + 1; r = readVar (drop pos plain); n = snd r in
        if n = 0 then Some None
        else let pos = pos + n; r2 = readVar (drop pos plain); n2 = snd r2; cryptoLen = unat (fst r2) in
          if n2 = 0 then Some None
          else let pos = pos + n2 in
            if go_wrap w (int pos + go_int w cryptoLen) > int (length plain) then Some None
            else (case slice_end w plain pos cryptoLen of
                    None \<Rightarrow> None
                  | Some j \<Rightarrow> do {
                      hit \<leftarrow> locateSNIInClientHello (slice_of plain pos j);
                      (case hit of
                         Some (off, len) \<Rightarrow>
                           if unat (fst r) = 0 then Some (Some (pos + off, len)) else locate_frames w plain j
                       | None \<Rightarrow> locate_frames w plain j) }))"
  by pat_completeness auto
termination
  by (relation "measure (\<lambda>(w, plain, i). length plain - i)") (auto dest!: slice_end_SomeD)

declare locate_frames.simps [simp del]

definition locateSNIInCrypto :: "nat \<Rightarrow> bytes \<Rightarrow> (nat \<times> nat) option option" where
  "locateSNIInCrypto w plain = locate_frames w plain 0"

text \<open>The connection id is read with \<^verbatim>\<open>ParseDCID\<close>, which answers nil for a failure; a slice of
  length 0 is not nil.\<close>

definition LocateSNIOffset :: "crypto_lib \<Rightarrow> nat \<Rightarrow> bytes \<Rightarrow> (nat \<times> nat) option option" where
  "LocateSNIOffset C w packet =
     (if \<not> IsInitial packet then Some None
      else do {
        h \<leftarrow> parseHeaderLength C packet;
        case h of
          None \<Rightarrow> Some None
        | Some (headerLen, pnLen) \<Rightarrow> do {
            d \<leftarrow> ParseDCID packet;
            case d of
              None \<Rightarrow> Some None
            | Some dcid \<Rightarrow> do {
                p \<leftarrow> DecryptInitial C dcid packet;
                case p of
                  None \<Rightarrow> Some None
                | Some plain \<Rightarrow> do {
                    s \<leftarrow> locateSNIInCrypto w plain;
                    case s of
                      None \<Rightarrow> Some None
                    | Some (off, len) \<Rightarrow> Some (Some (headerLen + pnLen + off, len)) } } } })"

subsection \<open>The locator on 64-bit builds\<close>

lemma locate_sni_ext_ok:
  "extEnd \<le> length ch \<Longrightarrow> \<exists>r. locate_sni_ext ch pos extEnd = Some r \<and>
     (\<forall>s n. r = Some (s, n) \<longrightarrow> pos \<le> s \<and> s + n \<le> length ch)"
proof (induction ch pos extEnd rule: locate_sni_ext.induct)
  case (1 ch pos extEnd)
  show ?case
  proof (cases "pos + 4 \<le> extEnd")
    case True
    with 1(2) obtain t where t: "be16 ch pos = Some t" by (simp add: be16_lt)
    from True 1(2) obtain n where n: "be16 ch (pos + 2) = Some n" by (simp add: be16_lt)
    show ?thesis
    proof (cases "pos + 4 + n > extEnd \<or> t = 0 \<and> n < 5")
      case True
      with \<open>pos + 4 \<le> extEnd\<close> t n show ?thesis by (auto simp: locate_sni_ext.simps [of ch pos] Let_def)
    next
      case go: False
      show ?thesis
      proof (cases "t = 0")
        case True
        with go 1(2) have "pos + 4 + 3 + 1 < length ch" by simp
        then obtain l where "be16 ch (pos + 4 + 3) = Some l" by (simp add: be16_lt)
        with True go \<open>pos + 4 \<le> extEnd\<close> t n 1(2) show ?thesis
          by (auto simp: locate_sni_ext.simps [of ch pos] Let_def)
      next
        case False
        with 1(1) [OF \<open>pos + 4 \<le> extEnd\<close> t n refl _ False 1(2)] go \<open>pos + 4 \<le> extEnd\<close> t n
        show ?thesis by (auto simp: locate_sni_ext.simps [of ch pos] Let_def)
      qed
    qed
  next
    case False
    then show ?thesis by (simp add: locate_sni_ext.simps [of ch pos])
  qed
qed

lemma no_panic_locate_sni_ext [no_panic_intros]:
  "extEnd \<le> length ch \<Longrightarrow> no_panic (locate_sni_ext ch pos extEnd)"
  using locate_sni_ext_ok [of extEnd ch pos] by (auto simp: no_panic_def)

lemma locateSNIInClientHello_ok:
  "\<exists>r. locateSNIInClientHello ch = Some r \<and> (\<forall>s n. r = Some (s, n) \<longrightarrow> s + n \<le> length ch)"
proof -
  have "no_panic (locateSNIInClientHello ch)"
    unfolding locateSNIInClientHello_def Let_def
    by (intro no_panic_intros) auto
  moreover have "s + n \<le> length ch" if "locateSNIInClientHello ch = Some (Some (s, n))" for s n
  proof -
    from that obtain pos e where "locate_sni_ext ch pos e = Some (Some (s, n))" "e \<le> length ch"
      unfolding locateSNIInClientHello_def Let_def
      by (elim go_elims) (auto simp: bind_eq_Some_conv split: if_splits)
    with locate_sni_ext_ok [of e ch pos] show ?thesis by auto
  qed
  ultimately show ?thesis by (auto simp: no_panic_ex)
qed

lemma locate_frames_ok:
  assumes "length plain < 2 ^ 62"
  shows "\<exists>r. locate_frames 64 plain pos = Some r \<and> (\<forall>s n. r = Some (s, n) \<longrightarrow> s + n \<le> length plain)"
proof (induction "length plain - pos" arbitrary: pos rule: less_induct)
  case less
  have step: "\<exists>r. locate_frames 64 plain j = Some r \<and> (\<forall>s n. r = Some (s, n) \<longrightarrow> s + n \<le> length plain)"
    if "pos < j" "pos < length plain" for j
    using that by (intro less.hyps) simp
  define i where "i = pos + 1 + snd (readVar (drop (pos + 1) plain))"
  define r2 where "r2 = readVar (drop i plain)"
  define k where "k = i + snd r2"
  define cl where "cl = unat (fst r2)"
  have cl: "cl < 2 ^ 62" unfolding cl_def r2_def by (rule readVar_bound)
  show ?case
  proof (cases "pos < length plain \<and> plain ! pos = 6 \<and> snd (readVar (drop (pos + 1) plain)) \<noteq> 0 \<and>
      snd r2 \<noteq> 0 \<and> \<not> go_wrap 64 (int k + go_int 64 cl) > int (length plain)")
    case False
    then consider "\<not> pos < length plain" | "pos < length plain" "plain ! pos = 0 \<or> plain ! pos = 1"
      | "pos < length plain" "plain ! pos \<noteq> 0" "plain ! pos \<noteq> 1" "plain ! pos \<noteq> 6"
      | "pos < length plain" "plain ! pos = 6" "snd (readVar (drop (pos + 1) plain)) = 0 \<or> snd r2 = 0 \<or>
          go_wrap 64 (int k + go_int 64 cl) > int (length plain)" by blast
    then show ?thesis
    proof cases
      case 4
      then show ?thesis by (auto simp: locate_frames.simps [of _ _ pos] Let_def i_def r2_def k_def cl_def)
    qed (use step [of "pos + 1"] in \<open>auto simp: locate_frames.simps [of _ _ pos]\<close>)
  next
    case True
    have c: "go_int 64 cl = int cl" using cl by (intro go_int_small) auto
    have "k \<le> length plain"
      using readVar_length [of "drop i plain"] readVar_length [of "drop (pos + 1) plain"] True
      by (auto simp: k_def r2_def i_def)
    moreover from this have "k + cl < 2 ^ 62 + 2 ^ 62" using cl assms by linarith
    then have "int (k + cl) < int (2 ^ 62 + 2 ^ 62)" by (simp only: of_nat_less_iff)
    then have "go_wrap 64 (int k + int cl) = int k + int cl" by (intro go_wrap_small) auto
    then have "k + cl \<le> length plain" using True c by simp
    ultimately have sl: "slice_end 64 plain k cl = Some (k + cl)" "k + cl \<le> length plain"
      using assms by (auto intro!: slice_end_64)
    obtain hit where hit: "locateSNIInClientHello (slice_of plain k (k + cl)) = Some hit"
      "\<forall>s n. hit = Some (s, n) \<longrightarrow> s + n \<le> cl"
      using locateSNIInClientHello_ok [of "slice_of plain k (k + cl)"] sl(2) by (auto simp: slice_of_def)
    have eq: "locate_frames 64 plain pos = (case hit of
        Some (off, len) \<Rightarrow> if unat (fst (readVar (drop (pos + 1) plain))) = 0 then Some (Some (k + off, len))
                           else locate_frames 64 plain (k + cl)
      | None \<Rightarrow> locate_frames 64 plain (k + cl))"
      using True sl(1) hit(1)
      by (cases hit) (simp_all add: locate_frames.simps [of 64 plain pos] Let_def i_def r2_def k_def cl_def
          split: prod.split)
    have "pos < k + cl" by (simp add: k_def i_def)
    then show ?thesis using step [of "k + cl"] True hit(2) sl(2) by (fastforce simp: eq split: option.splits)
  qed
qed

lemma gcm_open_length: "crypto_ok C \<Longrightarrow> gcm_open C k n c a = Some p \<Longrightarrow> length c = length p + 16"
  unfolding crypto_ok_def by blast

lemma no_panic_LocateSNIOffset [no_panic_intros]:
  assumes "crypto_ok C" and "length packet < 2 ^ 62"
  shows "no_panic (LocateSNIOffset C 64 packet)"
proof -
  have "no_panic (locateSNIInCrypto 64 plain)" if
    "ParseDCID packet = Some (Some dcid)" "DecryptInitial C dcid packet = Some (Some plain)" for dcid plain
  proof -
    from opened_slice [OF assms(1) that] obtain a e key nonce aad where
      "gcm_open C key nonce (take (e - a) (drop a packet)) aad = Some plain" by blast
    then have "length (take (e - a) (drop a packet)) = length plain + 16"
      by (rule gcm_open_length [OF assms(1)])
    then have "length plain < 2 ^ 62" using assms(2) by simp
    then show ?thesis using locate_frames_ok [of plain 0] by (auto simp: locateSNIInCrypto_def no_panic_def)
  qed
  then show ?thesis
    unfolding LocateSNIOffset_def by (intro no_panic_intros assms) auto
qed

text \<open>
  C33. What the locator reports lies in the packet. On a 64-bit build \<^verbatim>\<open>LocateSNIOffset\<close> never panics,
  and when it reports an offset and a length, the packet is an Initial that decrypts, the
  decrypted payload is the opening of the bytes right behind the packet number, and the
  reported range is inside that slice: the position of the name in the plaintext, moved by
  the length of the header.
\<close>

theorem located_quic_name_in_packet:
  assumes "crypto_ok C" and "length packet < 2 ^ 62"
  shows "no_panic (LocateSNIOffset C 64 packet) \<and>
    (\<forall>off len. LocateSNIOffset C 64 packet = Some (Some (off, len)) \<longrightarrow>
      (\<exists>hdr pnLen plain ctEnd key nonce aad s.
        parseHeaderLength C packet = Some (Some (hdr, pnLen)) \<and>
        gcm_open C key nonce (take (ctEnd - (hdr + pnLen)) (drop (hdr + pnLen) packet)) aad = Some plain \<and>
        locateSNIInCrypto 64 plain = Some (Some (s, len)) \<and> s + len \<le> length plain \<and>
        off = hdr + pnLen + s \<and> off + len + 16 \<le> ctEnd \<and> ctEnd \<le> length packet))"
proof -
  have "\<exists>hdr pnLen plain ctEnd key nonce aad s.
        parseHeaderLength C packet = Some (Some (hdr, pnLen)) \<and>
        gcm_open C key nonce (take (ctEnd - (hdr + pnLen)) (drop (hdr + pnLen) packet)) aad = Some plain \<and>
        locateSNIInCrypto 64 plain = Some (Some (s, len)) \<and> s + len \<le> length plain \<and>
        off = hdr + pnLen + s \<and> off + len + 16 \<le> ctEnd \<and> ctEnd \<le> length packet"
    if L: "LocateSNIOffset C 64 packet = Some (Some (off, len))" for off len
  proof -
    from L obtain hdr pnLen dcid plain s where
      h: "parseHeaderLength C packet = Some (Some (hdr, pnLen))" and
      d: "ParseDCID packet = Some (Some dcid)" and p: "DecryptInitial C dcid packet = Some (Some plain)" and
      s: "locateSNIInCrypto 64 plain = Some (Some (s, len))" and off: "off = hdr + pnLen + s"
      unfolding LocateSNIOffset_def
      by (auto split: if_splits option.splits elim!: bind_SomeE)
    from opened_slice [OF assms(1) d p] obtain x y ctEnd key nonce aad where
      h': "parseHeaderLength C packet = Some (Some (x, y))" and e': "x + y \<le> ctEnd" "ctEnd \<le> length packet" and
      g': "gcm_open C key nonce (take (ctEnd - (x + y)) (drop (x + y) packet)) aad = Some plain" by blast
    have xy: "x = hdr" "y = pnLen" using h h' by simp_all
    note g = g' [unfolded xy] and e = e' [unfolded xy]
    have "length (take (ctEnd - (hdr + pnLen)) (drop (hdr + pnLen) packet)) = length plain + 16"
      using g by (rule gcm_open_length [OF assms(1)])
    with e have lp: "hdr + pnLen + length plain + 16 = ctEnd" by simp
    then have "length plain < 2 ^ 62" using e assms(2) by simp
    then have "s + len \<le> length plain" using locate_frames_ok [of plain 0] s by (auto simp: locateSNIInCrypto_def)
    moreover from this have "off + len + 16 \<le> ctEnd" using lp off by simp
    ultimately show ?thesis using h g s off e(2) by blast
  qed
  then show ?thesis using no_panic_LocateSNIOffset [OF assms] by blast
qed


text \<open>A packet for \<^const>\<open>plain_crypto\<close> that carries a ClientHello with the name \<^verbatim>\<open>ab\<close>.\<close>

definition named_hello :: bytes where
  "named_hello = [1, 0, 0, 51] @ replicate 34 5 @ [0, 0, 0, 0, 0, 11, 0, 0, 0, 7, 0, 5, 0, 0, 2, 97, 98]"

definition named_initial :: bytes where
  "named_initial = [0xC4, 0, 0, 0, 1, 4, 1, 2, 3, 4, 1, 9, 0, 0x40, 78, 7, 7, 7, 19] @
     ([6, 0, 55] @ named_hello) @ replicate 16 0"

lemma named_hello_located: "locateSNIInCrypto 64 ([6, 0, 55] @ named_hello) = Some (Some (56, 2))"
proof -
  have l: "length named_hello = 55" by (simp add: named_hello_def)
  have n: "named_hello ! 0 = 1" "named_hello ! 38 = 0" "named_hello ! 39 = 0" "named_hello ! 40 = 0"
      "named_hello ! 41 = 0" "named_hello ! 42 = 0" "named_hello ! 43 = 11" "named_hello ! 44 = 0"
      "named_hello ! 45 = 0" "named_hello ! 46 = 0" "named_hello ! 47 = 7" "named_hello ! 51 = 0" "named_hello ! 52 = 2"
    by (simp_all add: named_hello_def nth_append)
  have "locate_sni_ext named_hello 44 55 = Some (Some (53, 2))"
    by (simp add: locate_sni_ext.simps [of _ 44] be16_def l n)
  then have h: "locateSNIInClientHello named_hello = Some (Some (53, 2))"
    by (simp add: locateSNIInClientHello_def be16_def l n)
  have v: "readVar (0 # 55 # named_hello) = (0, 1)" "readVar (55 # named_hello) = (55, 1)"
    by (simp_all add: readVar_def)
  have s: "slice_end 64 (6 # 0 # 55 # named_hello) (Suc (Suc (Suc 0))) 55 = Some 58"
    by (subst slice_end_64) (simp_all add: l)
  show ?thesis
    by (simp add: locateSNIInCrypto_def locate_frames.simps [of _ _ 0] v s slice_of_def l h go_wrap_def go_int_def)
qed

lemma named_initial_located: "LocateSNIOffset plain_crypto 64 named_initial = Some (Some (75, 2))"
proof -
  define body where "body = [6, 0, 55] @ named_hello"
  have lb: "length body = 58" by (simp add: body_def named_hello_def)
  have P: "named_initial = [0xC4, 0, 0, 0, 1, 4, 1, 2, 3, 4, 1, 9, 0, 0x40, 78, 7, 7, 7, 19] @ body @ replicate 16 0"
    by (simp add: named_initial_def body_def)
  let ?K = "\<lparr>hpKey = replicate 16 0, aeadKey = replicate 16 0, ivBytes = replicate 12 0\<rparr>"
  have K: "deriveInitial plain_crypto [1, 2, 3, 4] 1 = Some ?K"
    by (simp add: deriveInitial_def version_params_def hkdfExpandLabel_def plain_crypto_def NewCipher_def Let_def
        versionV1_def)
  have d: "ParseDCID named_initial = Some (Some [1, 2, 3, 4])" by (simp add: ParseDCID_def P)
  have u: "u32_at named_initial 1 = 1" by (simp add: u32_at_def P)
  have i: "IsInitial named_initial" by (simp add: IsInitial_def u [simplified] versionV1_def) (simp add: P)
  have r: "readVar (0 # xs) = (0, 1)" "readVar (0x40 # 78 # xs) = (78, 2)" for xs
    by (simp_all add: readVar_def shift_in_def)
  have w: "decrypt_walk named_initial = Some (Some (15, 78))"
    by (simp add: decrypt_walk_def P r lb)
  have "decrypt_payload plain_crypto ?K named_initial 15 78 = Some (Some body)"
    by (simp add: decrypt_payload_def P lb plain_crypto_def sub_bytes_def at_def)
  then have D: "DecryptInitial plain_crypto [1, 2, 3, 4] named_initial = Some (Some body)"
    by (simp add: DecryptInitial_def u [simplified] K [simplified] w) (simp add: P lb)
  have h: "parseHeaderLength plain_crypto named_initial = Some (Some (15, 4))"
    by (simp add: parseHeaderLength_def P r lb) (simp add: plain_crypto_def sub_bytes_def at_def deriveHP_def u32_at_def
        version_params_def versionV1_def hkdfExpandLabel_def NewCipher_def Let_def)
  show ?thesis using named_hello_located by (simp add: LocateSNIOffset_def i h d D body_def)
qed

theorem located_quic_name_in_packet_witness:
  "LocateSNIOffset plain_crypto 64 named_initial = Some (Some (75, 2)) \<and>
   (\<exists>ctEnd. 75 + 2 + 16 \<le> ctEnd \<and> ctEnd \<le> length named_initial)"
proof -
  have "length named_initial < 2 ^ 62" by (simp add: named_initial_def named_hello_def)
  from located_quic_name_in_packet [OF plain_crypto_ok this] named_initial_located
  show ?thesis by blast
qed

end
