(* ===== verification/Caches.thy ===== *)
theory Caches
  imports B4_Prelude
begin

text \<open>
  The two kinds of cache the matcher keeps. An LRU cache is a Go map beside a doubly linked list
  of its keys, most recently used first; every entry points at its list element, which the
  model identifies by the key. A bounded cache is a \<^verbatim>\<open>sync.Map\<close> with a counter that stops
  growing at a limit. Both are used to remember the result of a computation, and the locale
  \<open>memo\<close> is what their clients rely on: a cache that is consistent with the computation
  stays consistent and answers as the computation would.
\<close>

record 'v lru =
  entries :: "gostr \<rightharpoonup> 'v"
  order :: "gostr list"
  limit :: nat

definition lru_empty :: "nat \<Rightarrow> 'v lru" where
  "lru_empty n = \<lparr>entries = Map.empty, order = [], limit = n\<rparr>"

definition lru_size :: "'v lru \<Rightarrow> nat" where
  "lru_size c = card (dom (entries c))"

definition lru_touch :: "'v lru \<Rightarrow> gostr \<Rightarrow> 'v lru" where
  "lru_touch c k = c\<lparr>order := k # remove1 k (order c)\<rparr>"

definition lru_remove :: "'v lru \<Rightarrow> gostr \<Rightarrow> 'v lru" where
  "lru_remove c k = c\<lparr>entries := (entries c)(k := None), order := remove1 k (order c)\<rparr>"

definition lru_make_room :: "'v lru \<Rightarrow> 'v lru" where
  "lru_make_room c =
     (if lru_size c \<ge> limit c \<and> order c \<noteq> [] then lru_remove c (last (order c)) else c)"

definition lru_add :: "'v lru \<Rightarrow> gostr \<Rightarrow> 'v \<Rightarrow> 'v lru" where
  "lru_add c k v =
     (let c = lru_make_room c in c\<lparr>entries := (entries c)(k \<mapsto> v), order := k # order c\<rparr>)"

definition lru_set :: "'v lru \<Rightarrow> gostr \<Rightarrow> 'v \<Rightarrow> 'v lru" where
  "lru_set c k v = c\<lparr>entries := (entries c)(k \<mapsto> v)\<rparr>"

definition lru_ok :: "'v lru \<Rightarrow> bool" where
  "lru_ok c \<longleftrightarrow> distinct (order c) \<and> set (order c) = dom (entries c) \<and> 0 < limit c \<and> length (order c) \<le> limit c"

lemma lru_size_order: "lru_ok c \<Longrightarrow> lru_size c = length (order c)"
  by (metis lru_ok_def lru_size_def distinct_card)

lemma lru_ok_empty: "0 < n \<Longrightarrow> lru_ok (lru_empty n)"
  by (simp add: lru_ok_def lru_empty_def)

lemma lru_touch_ok: "lru_ok c \<Longrightarrow> entries c k = Some v \<Longrightarrow> lru_ok (lru_touch c k)"
proof -
  assume ok: "lru_ok c" and k: "entries c k = Some v"
  then have "k \<in> set (order c)" by (auto simp: lru_ok_def)
  moreover from this have "0 < length (order c)" by (rule length_pos_if_in_set)
  ultimately have "length (order (lru_touch c k)) = length (order c)" "set (order (lru_touch c k)) = set (order c)"
      "distinct (order (lru_touch c k))"
    using ok by (auto simp: lru_touch_def lru_ok_def length_remove1)
  then show ?thesis using ok by (auto simp: lru_ok_def lru_touch_def)
qed

lemma lru_remove_ok: "lru_ok c \<Longrightarrow> lru_ok (lru_remove c k)"
  by (auto simp: lru_ok_def lru_remove_def length_remove1 set_remove1_eq)

lemma lru_set_ok: "lru_ok c \<Longrightarrow> entries c k = Some u \<Longrightarrow> lru_ok (lru_set c k v)"
  by (auto simp: lru_ok_def lru_set_def)

lemma lru_make_room_ok:
  assumes "lru_ok c"
  shows "lru_ok (lru_make_room c) \<and> length (order (lru_make_room c)) < limit c \<and>
    limit (lru_make_room c) = limit c"
proof (cases "lru_size c \<ge> limit c \<and> order c \<noteq> []")
  case True
  then have "length (remove1 (last (order c)) (order c)) = length (order c) - 1"
    by (simp add: length_remove1)
  then show ?thesis using assms True lru_remove_ok [OF assms, of "last (order c)"]
    by (cases "order c") (auto simp: lru_make_room_def lru_remove_def lru_ok_def)
next
  case False
  then show ?thesis using assms by (auto simp: lru_make_room_def lru_ok_def lru_size_order [OF assms])
qed

lemma lru_make_room_le: "entries (lru_make_room c) \<subseteq>\<^sub>m entries c"
  by (auto simp: lru_make_room_def lru_remove_def map_le_def)

lemma lru_add_ok: "lru_ok c \<Longrightarrow> entries c k = None \<Longrightarrow> lru_ok (lru_add c k v)"
proof -
  assume ok: "lru_ok c" and k: "entries c k = None"
  note r = lru_make_room_ok [OF ok]
  have "entries (lru_make_room c) k = None" using lru_make_room_le [of c] k
    by (metis domIff map_le_def)
  with r show ?thesis by (auto simp: lru_ok_def lru_add_def Let_def)
qed

lemma lru_add_entries:
  "entries (lru_add c k v) j = Some u \<Longrightarrow> (j = k \<and> u = v) \<or> entries c j = Some u"
  using lru_make_room_le [of c] by (auto simp: lru_add_def Let_def map_le_def dom_def split: if_splits)

lemma lru_limits [simp]:
  "limit (lru_touch c k) = limit c" "limit (lru_set c k v) = limit c" "limit (lru_remove c k) = limit c"
  "limit (lru_add c k v) = limit c"
  by (simp_all add: lru_touch_def lru_set_def lru_remove_def lru_add_def lru_make_room_def Let_def)

text \<open>Only the least recently used entry makes room, and only in a full cache.\<close>

lemma lru_add_keeps:
  assumes "lru_ok c" and "entries c j = Some u" and "j \<noteq> k"
    and "length (order c) < limit c \<or> j \<noteq> last (order c)"
  shows "entries (lru_add c k v) j = Some u"
  using assms by (auto simp: lru_add_def Let_def lru_make_room_def lru_remove_def lru_size_order)

subsection \<open>Remembering a computation\<close>

locale memo =
  fixes get :: "'c \<Rightarrow> 'k \<Rightarrow> 'v option" and run :: "'c \<Rightarrow> 'k \<Rightarrow> 'c \<times> 'v" and f :: "'k \<Rightarrow> 'v"
  assumes hit: "get c k = Some v \<Longrightarrow> snd (run c k) = v"
    and miss: "get c k = None \<Longrightarrow> snd (run c k) = f k"
    and grows: "get (fst (run c k)) j = Some u \<Longrightarrow> get c j = Some u \<or> (j = k \<and> u = f k)"
begin

definition consistent :: "'c \<Rightarrow> bool" where
  "consistent c \<longleftrightarrow> (\<forall>k v. get c k = Some v \<longrightarrow> v = f k)"

lemma run_consistent: "consistent c \<Longrightarrow> snd (run c k) = f k \<and> consistent (fst (run c k))"
  unfolding consistent_def by (metis grows hit miss option.exhaust)

fun run_all :: "'c \<Rightarrow> 'k list \<Rightarrow> 'v list" where
  "run_all c [] = []"
| "run_all c (k # ks) = (case run c k of (c', v) \<Rightarrow> v # run_all c' ks)"

lemma run_all_eq: "consistent c \<Longrightarrow> run_all c ks = map f ks"
proof (induction ks arbitrary: c)
  case (Cons k ks)
  then show ?case using run_consistent [OF Cons.prems, of k] by (cases "run c k") auto
qed simp

end

text \<open>The lookup of an LRU cache in front of a computation: a hit moves the key to the front, a
  miss computes and adds.\<close>

definition lru_memo :: "(gostr \<Rightarrow> 'v) \<Rightarrow> 'v lru \<Rightarrow> gostr \<Rightarrow> 'v lru \<times> 'v" where
  "lru_memo f c k =
     (case entries c k of
        Some v \<Rightarrow> (lru_touch c k, v)
      | None \<Rightarrow> (lru_add c k (f k), f k))"

lemma lru_memo_ok: "lru_ok c \<Longrightarrow> lru_ok (fst (lru_memo f c k))"
  by (auto simp: lru_memo_def lru_touch_ok lru_add_ok split: option.splits)

interpretation lru: memo entries "lru_memo f" f for f
  by unfold_locales (auto simp: lru_memo_def lru_touch_def dest: lru_add_entries split: option.splits)

text \<open>A \<^verbatim>\<open>sync.Map\<close> with a counter: nothing is stored once the counter has reached the limit.\<close>

record 'v bounded =
  stored :: "gostr \<rightharpoonup> 'v"
  counter :: nat

definition bounded_memo :: "nat \<Rightarrow> (gostr \<Rightarrow> 'v) \<Rightarrow> 'v bounded \<Rightarrow> gostr \<Rightarrow> 'v bounded \<times> 'v" where
  "bounded_memo n f c k =
     (case stored c k of
        Some v \<Rightarrow> (c, v)
      | None \<Rightarrow> (if counter c < n then c\<lparr>stored := (stored c)(k \<mapsto> f k), counter := counter c + 1\<rparr> else c, f k))"

interpretation bounded: memo stored "bounded_memo n f" f for n f
  by unfold_locales (auto simp: bounded_memo_def split: option.splits if_splits)

definition bounded_ok :: "nat \<Rightarrow> 'v bounded \<Rightarrow> bool" where
  "bounded_ok n c \<longleftrightarrow> finite (dom (stored c)) \<and> card (dom (stored c)) = counter c \<and> counter c \<le> n"

lemma bounded_memo_ok: "bounded_ok n c \<Longrightarrow> bounded_ok n (fst (bounded_memo n f c k))"
  by (auto simp: bounded_ok_def bounded_memo_def card_insert_if domIff split: option.splits)

end
