(* ===== verification/Set_Config.thy ===== *)
theory Set_Config
  imports Go_Strings
begin

text \<open>
  The configuration of a set, the unit of matching and of traffic handling: the records of
  \<^verbatim>\<open>src/config/types.go\<close> with the fields the modelled code reads, the predicates and the port
  arithmetic of \<^verbatim>\<open>src/config/methods.go\<close>, and the clean-up of escalation links.

  The program passes sets by pointer and compares pointers; \<open>set_ptr\<close> is the address. The
  platform's \<^verbatim>\<open>int\<close> is as wide as \<open>int_bits\<close> of the library record.
\<close>

record TargetsConfig =
  SNIDomains :: "gostr list"
  IPs :: "gostr list"
  GeoSiteCategories :: "gostr list"
  GeoIpCategories :: "gostr list"
  ASNs :: "gostr list"
  SourceDevices :: "gostr list"
  SourceDevicesExclude :: bool
  DomainOnly :: bool
  IPPriority :: bool
  TLSVersion :: gostr
  IPVersion :: gostr
  DomainsToMatch :: "gostr list"
  IpsToMatch :: "gostr list"

record PortRange =
  PMin :: "16 word"
  PMax :: "16 word"

record RoutingConfig =
  REnabled :: bool
  RMode :: gostr
  SourceInterfaces :: "gostr list"

record SetConfig =
  set_ptr :: nat
  SetId :: gostr
  SetName :: gostr
  TCPDPortFilter :: gostr
  UDPDPortFilter :: gostr
  FilterL7 :: "gostr list"
  Targets :: TargetsConfig
  Enabled :: bool
  TCPPortRanges :: "PortRange list"
  UDPPortRanges :: "PortRange list"
  UDPL7OnlyPorts :: "PortRange list"
  Routing :: RoutingConfig
  EscalateTo :: gostr

subsection \<open>Predicates\<close>

definition TLSVersionCode :: "gostr \<Rightarrow> nat" where
  "TLSVersionCode flt =
     (if flt = str ''1.0'' then 0x0301
      else if flt = str ''1.1'' then 0x0302
      else if flt = str ''1.2'' then 0x0303
      else if flt = str ''1.3'' then 0x0304
      else 0)"

definition TLSVersionString :: "nat \<Rightarrow> gostr" where
  "TLSVersionString ver =
     (if ver = 0x0301 then str ''1.0''
      else if ver = 0x0302 then str ''1.1''
      else if ver = 0x0303 then str ''1.2''
      else if ver = 0x0304 then str ''1.3''
      else [])"

definition MatchesTLSVersion :: "SetConfig \<Rightarrow> nat \<Rightarrow> bool" where
  "MatchesTLSVersion s tlsVersion =
     (if TLSVersion (Targets s) = [] then True
      else let filterVer = TLSVersionCode (TLSVersion (Targets s)) in
        if filterVer = 0 then False else tlsVersion = 0 \<or> tlsVersion = filterVer)"

definition IPPriorityApplies :: "SetConfig \<Rightarrow> bool" where
  "IPPriorityApplies s \<longleftrightarrow> IPPriority (Targets s) \<and> TLSVersion (Targets s) = []"

definition MatchesIPVersion :: "SetConfig \<Rightarrow> nat \<Rightarrow> bool" where
  "MatchesIPVersion s version =
     (if IPVersion (Targets s) = [] then True
      else if IPVersion (Targets s) = str ''4'' then version = 0 \<or> version = 4
      else if IPVersion (Targets s) = str ''6'' then version = 0 \<or> version = 6
      else False)"

definition HasIPOrDomainTargets :: "SetConfig \<Rightarrow> bool" where
  "HasIPOrDomainTargets s \<longleftrightarrow> IpsToMatch (Targets s) \<noteq> [] \<or> DomainsToMatch (Targets s) \<noteq> []"

definition DeclaresDestinationTargets :: "SetConfig \<Rightarrow> bool" where
  "DeclaresDestinationTargets s =
     (if HasIPOrDomainTargets s then True
      else let t = Targets s in
        SNIDomains t \<noteq> [] \<or> IPs t \<noteq> [] \<or> GeoSiteCategories t \<noteq> [] \<or> GeoIpCategories t \<noteq> [] \<or> ASNs t \<noteq> [])"

definition anyNonBlank :: "gostr list \<Rightarrow> bool" where
  "anyNonBlank values \<longleftrightarrow> list_ex (\<lambda>v. trim_space v \<noteq> []) values"

definition RoutingIsBlock :: "gostr \<Rightarrow> bool" where
  "RoutingIsBlock mode \<longleftrightarrow> mode = str ''block''"

definition BlockRoutingScoped :: "SetConfig \<Rightarrow> bool" where
  "BlockRoutingScoped s \<longleftrightarrow>
     REnabled (Routing s) \<and> RoutingIsBlock (RMode (Routing s)) \<and> anyNonBlank (SourceInterfaces (Routing s))"

definition portInRanges :: "PortRange list \<Rightarrow> 16 word \<Rightarrow> bool" where
  "portInRanges ranges port \<longleftrightarrow> list_ex (\<lambda>r. PMin r \<le> port \<and> port \<le> PMax r) ranges"

definition MatchesTCPDPort :: "SetConfig \<Rightarrow> 16 word \<Rightarrow> bool" where
  "MatchesTCPDPort s port = (if TCPPortRanges s = [] then True else portInRanges (TCPPortRanges s) port)"

definition MatchesUDPDPort :: "SetConfig \<Rightarrow> 16 word \<Rightarrow> bool" where
  "MatchesUDPDPort s port =
     (if UDPPortRanges s = [] then \<not> portInRanges (UDPL7OnlyPorts s) port
      else portInRanges (UDPPortRanges s) port)"

definition SelectsL7 :: "SetConfig \<Rightarrow> bool" where
  "SelectsL7 s \<longleftrightarrow> FilterL7 s \<noteq> []"

definition SelectsL7Class :: "SetConfig \<Rightarrow> gostr \<Rightarrow> bool" where
  "SelectsL7Class s cls = (if cls = [] then False else cls \<in> set (FilterL7 s))"

fun normalize_l7 :: "golib \<Rightarrow> gostr list \<Rightarrow> gostr list \<Rightarrow> gostr list" where
  "normalize_l7 L [] seen = []"
| "normalize_l7 L (c # cs) seen =
     (let c = to_lower L (trim_space c) in
      if c = [] \<or> c \<in> set seen then normalize_l7 L cs seen else c # normalize_l7 L cs (c # seen))"

definition NormalizeL7Filter :: "golib \<Rightarrow> gostr list \<Rightarrow> gostr list" where
  "NormalizeL7Filter L classes = normalize_l7 L classes []"

definition GetSetById :: "SetConfig list \<Rightarrow> gostr \<Rightarrow> SetConfig option" where
  "GetSetById sets i = List.find (\<lambda>s. SetId s = i) sets"

subsection \<open>Port ranges\<close>

text \<open>\<^verbatim>\<open>strings.SplitN(part, "-", 2)\<close> on a string that contains a \<^verbatim>\<open>-\<close>: what is before the first
  one and what is after it.\<close>

definition cut_byte :: "gostr \<Rightarrow> byte \<Rightarrow> (gostr \<times> gostr) option" where
  "cut_byte s c = map_option (\<lambda>i. (take i s, drop (i + 1) s)) (index_byte s c)"

definition parsePortRangeStr :: "golib \<Rightarrow> gostr \<Rightarrow> PortRange option" where
  "parsePortRangeStr L part =
     (let part = trim_space part in
      if part = [] then None
      else case cut_byte part 45 of
        Some (lo, hi) \<Rightarrow>
          (case (atoi L lo, atoi L hi) of
             (Some mn, Some mx) \<Rightarrow>
               if mn \<ge> 1 \<and> mx \<ge> 1 \<and> mn \<le> mx \<and> mn \<le> 65535 \<and> mx \<le> 65535
               then Some \<lparr>PMin = word_of_int mn, PMax = word_of_int mx\<rparr> else None
           | _ \<Rightarrow> None)
      | None \<Rightarrow>
          (case atoi L part of
             Some port \<Rightarrow> if port \<ge> 1 \<and> port \<le> 65535
               then Some \<lparr>PMin = word_of_int port, PMax = word_of_int port\<rparr> else None
           | None \<Rightarrow> None))"

definition ParsePortRanges :: "golib \<Rightarrow> gostr \<Rightarrow> PortRange list" where
  "ParsePortRanges L flt = List.map_filter (parsePortRangeStr L) (split_byte flt 44)"

definition subtract_one :: "PortRange \<Rightarrow> PortRange \<Rightarrow> PortRange list" where
  "subtract_one m r =
     (if PMax m < PMin r \<or> PMin m > PMax r then [r]
      else (if PMin r < PMin m then [\<lparr>PMin = PMin r, PMax = PMin m - 1\<rparr>] else []) @
           (if PMax r > PMax m then [\<lparr>PMin = PMax m + 1, PMax = PMax r\<rparr>] else []))"

definition subtractPortRanges :: "PortRange list \<Rightarrow> PortRange list \<Rightarrow> PortRange list" where
  "subtractPortRanges from gone =
     (if from = [] then []
      else foldl (\<lambda>out m. concat (map (subtract_one m) out)) from gone)"

definition l7_only_ports :: "SetConfig list \<Rightarrow> PortRange list" where
  "l7_only_ports sets =
     (let enabled = filter Enabled sets;
          selected = concat (map UDPPortRanges (filter SelectsL7 enabled));
          listed = concat (map UDPPortRanges (filter (\<lambda>s. \<not> SelectsL7 s) enabled))
      in subtractPortRanges selected (listed @ [\<lparr>PMin = 443, PMax = 443\<rparr>]))"

definition BuildSetPortRanges :: "golib \<Rightarrow> SetConfig list \<Rightarrow> SetConfig list" where
  "BuildSetPortRanges L sets =
     (let sets = map (\<lambda>s. s\<lparr>TCPPortRanges := ParsePortRanges L (TCPDPortFilter s),
                            UDPPortRanges := ParsePortRanges L (UDPDPortFilter s)\<rparr>) sets;
          l7Only = l7_only_ports sets
      in map (\<lambda>s. s\<lparr>UDPL7OnlyPorts :=
                      if \<not> SelectsL7 s \<and> UDPPortRanges s = [] then l7Only else []\<rparr>) sets)"

subsection \<open>Merging port lists\<close>

text \<open>\<^verbatim>\<open>v, _ := strconv.Atoi(s)\<close>: 0 for a syntax error, the nearest \<^verbatim>\<open>int\<close> for a number out of range.\<close>

definition atoi_val :: "golib \<Rightarrow> gostr \<Rightarrow> int" where
  "atoi_val L s =
     (let neg = has_prefix s (str ''-'');
          ds = (if neg \<or> has_prefix s (str ''+'') then drop 1 s else s);
          v = (if neg then - digits_val ds else digits_val ds)
      in if ds = [] \<or> \<not> list_all is_digit ds then 0
         else max (- (2 ^ (int_bits L - 1))) (min v (2 ^ (int_bits L - 1) - 1)))"

fun digits_of :: "nat \<Rightarrow> gostr" where
  "digits_of n = (if n < 10 then [word_of_nat (48 + n)] else digits_of (n div 10) @ [word_of_nat (48 + n mod 10)])"

declare digits_of.simps [simp del]

definition itoa :: "int \<Rightarrow> gostr" where
  "itoa v = (if v < 0 then 45 # digits_of (nat (- v)) else digits_of (nat v))"

definition read_range :: "golib \<Rightarrow> gostr \<Rightarrow> (int \<times> int) option" where
  "read_range L p =
     (let p = trim_space p in
      if p = [] then None
      else let p = map (\<lambda>c. if c = 58 then 45 else c) p in
        if 45 \<in> set p then
          (case split_byte p 45 of
             [a, b] \<Rightarrow>
               let start = atoi_val L a; e = atoi_val L b in
               if start > 0 \<and> e > 0 \<and> start \<le> e then Some (start, e) else None
           | _ \<Rightarrow> None)
        else let port = atoi_val L p in if port > 0 then Some (port, port) else None)"

fun merge_ranges :: "golib \<Rightarrow> int \<times> int \<Rightarrow> (int \<times> int) list \<Rightarrow> (int \<times> int) list" where
  "merge_ranges L prev [] = [prev]"
| "merge_ranges L prev (cur # rs) =
     (if fst cur \<le> (if snd prev = 2 ^ (int_bits L - 1) - 1 then - (2 ^ (int_bits L - 1)) else snd prev + 1)
      then merge_ranges L (if snd cur > snd prev then (fst prev, snd cur) else prev) rs
      else prev # merge_ranges L cur rs)"

definition show_range :: "int \<times> int \<Rightarrow> gostr" where
  "show_range r = (if fst r = snd r then itoa (fst r) else itoa (fst r) @ 45 # itoa (snd r))"

definition mergeAndNormalizePorts :: "golib \<Rightarrow> gostr list \<Rightarrow> gostr list" where
  "mergeAndNormalizePorts L ports =
     (case sort_key fst (List.map_filter (read_range L) ports) of
        [] \<Rightarrow> []
      | r # rs \<Rightarrow> map show_range (merge_ranges L r rs))"

subsection \<open>Escalation links\<close>

text \<open>The map \<^verbatim>\<open>byID\<close>: the position of the last set with the id; sets without an id are not in it.\<close>

definition byID :: "SetConfig list \<Rightarrow> gostr \<Rightarrow> nat option" where
  "byID sets i =
     (if i = [] then None
      else map_option fst (List.find (\<lambda>(k, s). SetId s = i) (rev (enumerate 0 sets))))"

definition clear_link :: "SetConfig list \<Rightarrow> nat \<Rightarrow> SetConfig list" where
  "clear_link sets i = sets[i := (sets ! i)\<lparr>EscalateTo := []\<rparr>]"

definition drop_bad_link :: "golib \<Rightarrow> SetConfig list \<Rightarrow> nat \<Rightarrow> SetConfig list" where
  "drop_bad_link L sets i =
     (let s = sets ! i in
      if EscalateTo s = [] then sets
      else if EscalateTo s = SetId s then clear_link sets i
      else case byID sets (EscalateTo s) of
        None \<Rightarrow> clear_link sets i
      | Some t \<Rightarrow> if NormalizeL7Filter L (FilterL7 (sets ! t)) \<noteq> [] then clear_link sets i else sets)"

lemma byID_SomeD:
  "byID sets i = Some k \<Longrightarrow> k < length sets \<and> SetId (sets ! k) = i \<and> i \<noteq> []"
  by (auto simp: byID_def in_set_enumerate_eq dest!: find_SomeD split: if_splits)

function break_cycle :: "SetConfig list \<Rightarrow> gostr list \<Rightarrow> nat \<Rightarrow> SetConfig list" where
  "break_cycle sets seen cur =
     (let to = EscalateTo (sets ! cur) in
      if to = [] then sets
      else if to \<in> set seen then clear_link sets cur
      else case byID sets to of
        None \<Rightarrow> sets
      | Some k \<Rightarrow> break_cycle sets (to # seen) k)"
  by pat_completeness auto
termination
proof (relation "measure (\<lambda>(sets, seen, cur). card (set (map SetId sets) - set seen))")
  fix sets seen cur to k
  assume "to = EscalateTo (sets ! cur)" "to \<notin> set seen" "byID sets to = Some k"
  moreover from this have "k < length sets" "SetId (sets ! k) = to" using byID_SomeD by auto
  then have "to \<in> set (map SetId sets)" by (metis length_map nth_map nth_mem)
  ultimately have "to \<in> set (map SetId sets) - set seen" by simp
  moreover have "set (map SetId sets) - set (to # seen) = (set (map SetId sets) - set seen) - {to}" by auto
  ultimately have "card (set (map SetId sets) - set (to # seen)) < card (set (map SetId sets) - set seen)"
    by (simp only:) (rule card_Diff1_less, auto)
  then show "((sets, to # seen, k), sets, seen, cur) \<in>
      measure (\<lambda>(sets, seen, cur). card (set (map SetId sets) - set seen))" by simp
qed simp

declare break_cycle.simps [simp del]

definition sanitizeEscalation :: "golib \<Rightarrow> SetConfig list \<Rightarrow> SetConfig list" where
  "sanitizeEscalation L sets =
     (let sets = foldl (drop_bad_link L) sets [0..<length sets] in
      foldl (\<lambda>sets i. if EscalateTo (sets ! i) = [] then sets
                      else break_cycle sets [SetId (sets ! i)] i) sets [0..<length sets])"

subsection \<open>Subtracting port ranges\<close>

lemma portInRanges_simps [simp]:
  "\<not> portInRanges [] p"
  "portInRanges (r # rs) p \<longleftrightarrow> PMin r \<le> p \<and> p \<le> PMax r \<or> portInRanges rs p"
  "portInRanges (xs @ ys) p \<longleftrightarrow> portInRanges xs p \<or> portInRanges ys p"
  by (auto simp: portInRanges_def)

lemma portInRanges_concat: "portInRanges (concat rss) p \<longleftrightarrow> (\<exists>rs \<in> set rss. portInRanges rs p)"
  by (induction rss) auto

lemma pred_le: "a < b \<Longrightarrow> p \<le> b - 1 \<longleftrightarrow> p < (b :: 16 word)"
  by uint_arith

lemma succ_le: "a < b \<Longrightarrow> a + 1 \<le> p \<longleftrightarrow> a < (p :: 16 word)"
  by uint_arith

lemma subtract_one_ports:
  "portInRanges (subtract_one m r) p \<longleftrightarrow> (PMin r \<le> p \<and> p \<le> PMax r) \<and> \<not> (PMin m \<le> p \<and> p \<le> PMax m)"
proof (cases "PMax m < PMin r \<or> PMin m > PMax r")
  case True
  then show ?thesis by (auto simp: subtract_one_def)
next
  case False
  then have le: "PMin r \<le> PMax m" "PMin m \<le> PMax r" by auto
  have "portInRanges (subtract_one m r) p \<longleftrightarrow>
      PMin r < PMin m \<and> PMin r \<le> p \<and> p < PMin m \<or> PMax m < PMax r \<and> PMax m < p \<and> p \<le> PMax r"
    using False pred_le [of "PMin r" "PMin m" p] succ_le [of "PMax m" "PMax r" p]
    by (auto simp: subtract_one_def)
  also have "\<dots> \<longleftrightarrow> (PMin r \<le> p \<and> p \<le> PMax r) \<and> \<not> (PMin m \<le> p \<and> p \<le> PMax m)"
    using le by (auto simp: not_le)
  finally show ?thesis .
qed

lemma subtractPortRanges_ports:
  "portInRanges (subtractPortRanges from gone) p \<longleftrightarrow> portInRanges from p \<and> \<not> portInRanges gone p"
proof -
  have one: "portInRanges (concat (map (subtract_one m) out)) p \<longleftrightarrow>
      portInRanges out p \<and> \<not> (PMin m \<le> p \<and> p \<le> PMax m)" for m out
    by (induction out) (auto simp: subtract_one_ports)
  have "portInRanges (foldl (\<lambda>out m. concat (map (subtract_one m) out)) out gone) p \<longleftrightarrow>
      portInRanges out p \<and> \<not> portInRanges gone p" for out
    by (induction gone arbitrary: out) (auto simp: one)
  then show ?thesis by (simp add: subtractPortRanges_def)
qed

definition udp_listed :: "golib \<Rightarrow> SetConfig list \<Rightarrow> bool \<Rightarrow> 16 word \<Rightarrow> bool" where
  "udp_listed L sets l7 p \<longleftrightarrow> (\<exists>s \<in> set sets. Enabled s \<and> SelectsL7 s = l7 \<and>
     portInRanges (ParsePortRanges L (UDPDPortFilter s)) p)"

lemma l7_only_ports_iff:
  assumes "\<forall>s \<in> set sets. UDPPortRanges s = ParsePortRanges L (UDPDPortFilter s)"
  shows "portInRanges (l7_only_ports sets) p \<longleftrightarrow>
    udp_listed L sets True p \<and> \<not> udp_listed L sets False p \<and> p \<noteq> 443"
proof -
  have "(443 :: 16 word) \<le> p \<and> p \<le> 443 \<longleftrightarrow> p = 443" by (metis order.antisym order.refl)
  then show ?thesis
    using assms
    by (auto simp: l7_only_ports_def Let_def subtractPortRanges_ports portInRanges_concat udp_listed_def)
qed

text \<open>
  What the port filters mean after \<^verbatim>\<open>BuildSetPortRanges\<close>. A set's TCP filter admits the ports it
  lists, or all of them when it lists none. A set with a UDP filter admits exactly the ports
  it lists. A set without one admits every port except those that only protocol-selecting
  sets list: a port that some enabled set selects by protocol, that no other enabled set
  lists, and that is not 443.
\<close>

theorem built_port_ranges:
  assumes "i < length sets"
  shows "length (BuildSetPortRanges L sets) = length sets \<and>
    MatchesTCPDPort (BuildSetPortRanges L sets ! i) p =
      (ParsePortRanges L (TCPDPortFilter (sets ! i)) = [] \<or>
       portInRanges (ParsePortRanges L (TCPDPortFilter (sets ! i))) p) \<and>
    MatchesUDPDPort (BuildSetPortRanges L sets ! i) p =
      (if ParsePortRanges L (UDPDPortFilter (sets ! i)) \<noteq> []
       then portInRanges (ParsePortRanges L (UDPDPortFilter (sets ! i))) p
       else SelectsL7 (sets ! i) \<or>
            \<not> (udp_listed L sets True p \<and> \<not> udp_listed L sets False p \<and> p \<noteq> 443))"
proof -
  define f where "f = (\<lambda>s :: SetConfig. s\<lparr>TCPPortRanges := ParsePortRanges L (TCPDPortFilter s),
      UDPPortRanges := ParsePortRanges L (UDPDPortFilter s)\<rparr>)"
  have l7: "portInRanges (l7_only_ports (map f sets)) p \<longleftrightarrow>
      udp_listed L sets True p \<and> \<not> udp_listed L sets False p \<and> p \<noteq> 443"
    by (subst l7_only_ports_iff [of _ L]) (auto simp: f_def udp_listed_def SelectsL7_def)
  have "BuildSetPortRanges L sets ! i = (f (sets ! i))\<lparr>UDPL7OnlyPorts :=
      if \<not> SelectsL7 (f (sets ! i)) \<and> UDPPortRanges (f (sets ! i)) = [] then l7_only_ports (map f sets) else []\<rparr>"
    using assms unfolding BuildSetPortRanges_def Let_def f_def [symmetric] by simp
  then show ?thesis using l7
    by (auto simp: MatchesTCPDPort_def MatchesUDPDPort_def f_def SelectsL7_def BuildSetPortRanges_def Let_def)
qed

subsection \<open>Escalation chains end\<close>

definition next_set :: "SetConfig list \<Rightarrow> nat \<Rightarrow> nat option" where
  "next_set sets i = byID sets (EscalateTo (sets ! i))"

text \<open>\<open>chain_ends sets i\<close>: following the links from set \<open>i\<close> comes to an end.\<close>

inductive chain_ends :: "SetConfig list \<Rightarrow> nat \<Rightarrow> bool" where
  stop: "next_set sets i = None \<Longrightarrow> chain_ends sets i"
| step: "next_set sets i = Some j \<Longrightarrow> chain_ends sets j \<Longrightarrow> chain_ends sets i"

inductive_cases chain_endsE: "chain_ends sets i"

text \<open>\<open>cleared sets sets'\<close>: the second configuration is the first with some links cleared.\<close>

definition cleared :: "SetConfig list \<Rightarrow> SetConfig list \<Rightarrow> bool" where
  "cleared sets sets' \<longleftrightarrow> length sets' = length sets \<and>
     (\<forall>i < length sets. sets' ! i = sets ! i \<or> sets' ! i = (sets ! i)\<lparr>EscalateTo := []\<rparr>)"

lemma cleared_refl [simp]: "cleared sets sets"
  by (simp add: cleared_def)

lemma cleared_trans: "cleared a b \<Longrightarrow> cleared b c \<Longrightarrow> cleared a c"
  by (fastforce simp: cleared_def)

lemma cleared_clear_link: "cleared sets (clear_link sets i)"
  by (cases "i < length sets") (auto simp: cleared_def clear_link_def nth_list_update)

lemma cleared_ids: "cleared sets sets' \<Longrightarrow> map SetId sets' = map SetId sets"
  by (rule nth_equalityI) (auto simp: cleared_def)

lemma byID_eq: "map SetId sets' = map SetId sets \<Longrightarrow> byID sets' i = byID sets i"
proof -
  assume m: "map SetId sets' = map SetId sets"
  have e: "map_option fst (List.find (\<lambda>(k, s). SetId s = i) xs) =
      map_option fst (List.find (\<lambda>(k, d). d = i) (map (\<lambda>(k, s). (k, SetId s)) xs))" for xs :: "(nat \<times> SetConfig) list"
    by (induction xs) auto
  have "map (\<lambda>(k, s). (k, SetId s)) (rev (enumerate 0 xs)) = rev (enumerate 0 (map SetId xs))" for xs :: "SetConfig list"
    by (simp only: enumerate_eq_zip zip_map2 rev_map length_map)
  with m show ?thesis by (simp add: byID_def e)
qed

lemma cleared_byID: "cleared sets sets' \<Longrightarrow> byID sets' = byID sets"
  by (rule ext) (rule byID_eq [OF cleared_ids])

lemma cleared_next:
  assumes "cleared sets sets'" and "i < length sets"
  shows "next_set sets' i = next_set sets i \<or> next_set sets' i = None"
proof -
  have "EscalateTo (sets' ! i) = EscalateTo (sets ! i) \<or> EscalateTo (sets' ! i) = []"
    using assms by (auto simp: cleared_def)
  then show ?thesis by (auto simp: next_set_def cleared_byID [OF assms(1)] byID_def)
qed

lemma next_set_bound: "next_set sets i = Some j \<Longrightarrow> j < length sets"
  by (auto simp: next_set_def dest: byID_SomeD)

lemma cleared_chain: "chain_ends sets i \<Longrightarrow> cleared sets sets' \<Longrightarrow> i < length sets \<Longrightarrow> chain_ends sets' i"
proof (induction rule: chain_ends.induct)
  case (stop sets i)
  then show ?case using cleared_next [of sets sets' i] by (auto intro: chain_ends.stop)
next
  case (step sets i j)
  then have "chain_ends sets' j" using next_set_bound by blast
  then show ?case using cleared_next [OF step.prems] step.hyps(1)
    by (metis chain_ends.intros)
qed

lemma cleared_break_cycle: "cleared sets (break_cycle sets seen cur)"
proof (induction sets seen cur rule: break_cycle.induct)
  case (1 sets seen cur)
  then show ?case
    by (subst break_cycle.simps) (auto simp: Let_def cleared_clear_link split: option.splits)
qed

lemma break_cycle_ends: "cur < length sets \<Longrightarrow> chain_ends (break_cycle sets seen cur) cur"
proof (induction sets seen cur rule: break_cycle.induct)
  case (1 sets seen cur)
  define to where "to = EscalateTo (sets ! cur)"
  consider "to = []" | "to \<noteq> []" "to \<in> set seen" | "to \<notin> set seen" "to \<noteq> []" "byID sets to = None"
    | k where "to \<noteq> []" "to \<notin> set seen" "byID sets to = Some k" by (cases "byID sets to") auto
  then show ?case
  proof cases
    case 1
    then show ?thesis
      by (auto simp: break_cycle.simps [of sets] to_def next_set_def byID_def intro!: chain_ends.stop)
  next
    case 2
    then show ?thesis using 1
      by (auto simp: break_cycle.simps [of sets] Let_def to_def next_set_def byID_def clear_link_def
          intro!: chain_ends.stop)
  next
    case 3
    then show ?thesis
      by (auto simp: break_cycle.simps [of sets] Let_def to_def next_set_def intro!: chain_ends.stop)
  next
    case 4
    let ?r = "break_cycle sets (to # seen) k"
    have r: "break_cycle sets seen cur = ?r" using 4 by (simp add: break_cycle.simps [of sets seen] to_def)
    have "chain_ends ?r k"
      using 1(1) [OF to_def] 4 byID_SomeD [OF 4(3)] by simp
    moreover have "next_set ?r cur = Some k \<or> next_set ?r cur = None"
      using cleared_next [OF cleared_break_cycle 1(2), of "to # seen" k] 4(3) by (simp add: next_set_def to_def)
    ultimately show ?thesis unfolding r by (auto intro: chain_ends.intros)
  qed
qed

lemma foldl_cleared:
  assumes "\<And>sets i. cleared sets (f sets i)"
  shows "cleared sets (foldl f sets is)"
proof (induction "is" arbitrary: sets)
  case (Cons i "is")
  then show ?case using assms cleared_trans by (metis foldl_Cons)
qed simp

lemma foldl_establishes:
  assumes f: "\<And>sets i. cleared sets (f sets i)"
    and P: "\<And>sets i. i < length sets \<Longrightarrow> P (f sets i) i"
    and keep: "\<And>sets sets' i. P sets i \<Longrightarrow> cleared sets sets' \<Longrightarrow> i < length sets \<Longrightarrow> P sets' i"
    and i: "i \<in> set is" "i < length sets"
  shows "P (foldl f sets is) i"
  using i
proof (induction "is" arbitrary: sets)
  case (Cons k "is")
  have len: "length (f sets k) = length sets" using f [of sets k] by (simp add: cleared_def)
  show ?case
  proof (cases "i \<in> set is")
    case True
    then show ?thesis using Cons.IH [of "f sets k"] Cons.prems(2) len by simp
  next
    case False
    then have "P (f sets k) i" using P Cons.prems by auto
    then show ?thesis using keep foldl_cleared [of f, OF f] Cons.prems(2) len by simp
  qed
qed simp

definition good_link :: "golib \<Rightarrow> SetConfig list \<Rightarrow> nat \<Rightarrow> bool" where
  "good_link L sets i \<longleftrightarrow> (let s = sets ! i in EscalateTo s \<noteq> [] \<longrightarrow>
     EscalateTo s \<noteq> SetId s \<and>
     (\<exists>t. byID sets (EscalateTo s) = Some t \<and> NormalizeL7Filter L (FilterL7 (sets ! t)) = []))"

lemma cleared_drop_bad_link: "cleared sets (drop_bad_link L sets i)"
  by (auto simp: drop_bad_link_def Let_def cleared_clear_link split: option.splits)

lemma good_link_cleared: "good_link L sets i \<Longrightarrow> cleared sets sets' \<Longrightarrow> i < length sets \<Longrightarrow> good_link L sets' i"
proof -
  assume g: "good_link L sets i" and c: "cleared sets sets'" and i: "i < length sets"
  have s: "SetId (sets' ! k) = SetId (sets ! k) \<and> FilterL7 (sets' ! k) = FilterL7 (sets ! k) \<and>
      (EscalateTo (sets' ! k) = EscalateTo (sets ! k) \<or> EscalateTo (sets' ! k) = [])" if "k < length sets" for k
    using c that by (auto simp: cleared_def)
  have "t < length sets" if "byID sets (EscalateTo (sets ! i)) = Some t" for t
    using byID_SomeD [OF that] by simp
  then show ?thesis using g s [OF i] s by (fastforce simp: good_link_def Let_def cleared_byID [OF c])
qed

lemma good_link_drop: "i < length sets \<Longrightarrow> good_link L (drop_bad_link L sets i) i"
  by (auto simp: drop_bad_link_def good_link_def Let_def clear_link_def split: option.splits)

lemma chain_ends_pass:
  "i < length sets \<Longrightarrow> chain_ends (if EscalateTo (sets ! i) = [] then sets
     else break_cycle sets [SetId (sets ! i)] i) i"
  using break_cycle_ends [of i sets]
  by (auto simp: next_set_def byID_def intro!: chain_ends.stop)

text \<open>
  C34. After \<^verbatim>\<open>sanitizeEscalation\<close> every escalation link is usable: it does not point at its own set,
  it resolves to a set, and that set does not select UDP protocols; and the links form no
  cycle: from every set, following them comes to an end. Nothing but links changes, and a
  link is only ever cleared, never redirected.
\<close>

theorem escalation_chains_end:
  assumes "i < length sets"
  shows "chain_ends (sanitizeEscalation L sets) i \<and> good_link L (sanitizeEscalation L sets) i \<and>
    cleared sets (sanitizeEscalation L sets)"
proof -
  define one where "one = foldl (drop_bad_link L) sets [0..<length sets]"
  define pass where "pass = (\<lambda>sets i. if EscalateTo (sets ! i) = [] then sets
      else break_cycle sets [SetId (sets ! i)] i)"
  have r: "sanitizeEscalation L sets = foldl pass one [0..<length one]"
    by (simp add: sanitizeEscalation_def Let_def one_def pass_def)
  have c1: "cleared sets one" unfolding one_def by (rule foldl_cleared) (rule cleared_drop_bad_link)
  have p: "cleared s (pass s k)" for s k by (simp add: pass_def cleared_break_cycle)
  have c2: "cleared one (foldl pass one [0..<length one])" by (rule foldl_cleared) (rule p)
  have i1: "i < length one" using c1 assms by (simp add: cleared_def)
  have "good_link L one i" unfolding one_def
    by (rule foldl_establishes [where P = "good_link L"])
      (use assms in \<open>auto intro: cleared_drop_bad_link good_link_drop good_link_cleared\<close>)
  then have g: "good_link L (sanitizeEscalation L sets) i"
    unfolding r using c2 i1 by (rule good_link_cleared)
  have e: "chain_ends (pass s k) k" if "k < length s" for s k
    using that unfolding pass_def by (rule chain_ends_pass)
  have "chain_ends (foldl pass one [0..<length one]) i"
    by (rule foldl_establishes [where P = chain_ends, OF p]) (use i1 in \<open>auto intro: e cleared_chain\<close>)
  with g c1 c2 show ?thesis unfolding r by (blast intro: cleared_trans)
qed

subsection \<open>Merging keeps the ports\<close>

lemma digit_word:
  assumes "n < 10"
  shows "is_digit (word_of_nat (48 + n))" and "unat ((word_of_nat (48 + n) :: byte) - 48) = n"
    and "word_of_nat (48 + n) \<notin> {45, 43, 58 :: byte}" and "\<not> is_space_byte (word_of_nat (48 + n))"
proof -
  have "n \<in> {0, 1, 2, 3, 4, 5, 6, 7, 8, 9}" using assms by auto
  then show "is_digit (word_of_nat (48 + n))" "unat ((word_of_nat (48 + n) :: byte) - 48) = n"
      "word_of_nat (48 + n) \<notin> {45, 43, 58 :: byte}" "\<not> is_space_byte (word_of_nat (48 + n))"
    by (auto simp: is_digit_def is_space_byte_def space_seqs_def)
qed

lemma digits_of_chars:
  "c \<in> set (digits_of n) \<Longrightarrow> is_digit c \<and> c \<notin> {45, 43, 58} \<and> \<not> is_space_byte c"
proof (induction n rule: digits_of.induct)
  case (1 n)
  have "n mod 10 < 10" by simp
  from digit_word [OF this] digit_word [of n] 1 show ?case
    by (auto simp: digits_of.simps [of n] split: if_splits)
qed

lemma digits_of_nonempty: "digits_of n \<noteq> []"
  by (simp add: digits_of.simps [of n])

lemma digits_val_snoc: "digits_val (xs @ [c]) = 10 * digits_val xs + int (unat (c - 48))"
  by (simp add: digits_val_def)

lemma digits_val_of: "digits_val (digits_of n) = int n"
proof (induction n rule: digits_of.induct)
  case (1 n)
  show ?case
  proof (cases "n < 10")
    case True
    have "digits_val [c] = int (unat (c - 48))" for c by (simp add: digits_val_def)
    then have "digits_val (digits_of n) = int (unat ((word_of_nat (48 + n) :: byte) - 48))"
      using True by (simp only: digits_of.simps [of n] if_True)
    then show ?thesis using digit_word(2) [OF True] by (simp only:)
  next
    case False
    then have "digits_val (digits_of n) = 10 * int (n div 10) + int (n mod 10)"
      using 1 digit_word(2) [of "n mod 10"] by (simp add: digits_of.simps [of n] digits_val_snoc)
    also have "\<dots> = int (10 * (n div 10) + n mod 10)" by (simp only: of_nat_add of_nat_mult of_nat_numeral)
    finally show ?thesis by simp
  qed
qed

definition max_int :: "golib \<Rightarrow> int" where
  "max_int L = 2 ^ (int_bits L - 1) - 1"

lemma atoi_val_bound: "atoi_val L s \<le> max_int L"
proof -
  have "(1 :: int) \<le> 2 ^ (int_bits L - 1)" by simp
  then show ?thesis by (auto simp: atoi_val_def max_int_def Let_def)
qed

lemma atoi_val_itoa:
  assumes "0 \<le> v" and "v \<le> max_int L"
  shows "atoi_val L (itoa v) = v"
proof -
  let ?d = "digits_of (nat v)"
  have "hd ?d \<in> set ?d" using digits_of_nonempty by simp
  then have "hd ?d \<noteq> 45" "hd ?d \<noteq> 43" using digits_of_chars by blast+
  then have p: "\<not> has_prefix ?d (str ''-'')" "\<not> has_prefix ?d (str ''+'')"
    using digits_of_nonempty [of "nat v"] by (auto simp: has_prefix_append str_def)
  have "list_all is_digit ?d" using digits_of_chars by (auto simp: list_all_iff)
  moreover have "- (2 ^ (int_bits L - 1)) \<le> v" using assms(1) by (smt (verit) zero_le_power)
  ultimately show ?thesis
    using assms digits_of_nonempty p by (simp add: atoi_val_def itoa_def Let_def digits_val_of max_int_def)
qed

definition valid_range :: "golib \<Rightarrow> int \<times> int \<Rightarrow> bool" where
  "valid_range L r \<longleftrightarrow> 0 < fst r \<and> fst r \<le> snd r \<and> snd r \<le> max_int L"

lemma read_range_valid: "read_range L p = Some r \<Longrightarrow> valid_range L r"
  using atoi_val_bound [of L]
  by (auto simp: read_range_def valid_range_def Let_def split: if_splits list.splits)

lemma read_show_range:
  assumes "valid_range L r"
  shows "read_range L (show_range r) = Some r"
proof -
  obtain a b where r: "r = (a, b)" by (cases r)
  have v: "0 < a" "a \<le> b" "b \<le> max_int L" "0 < b" using assms by (auto simp: valid_range_def r)
  have i: "itoa x = digits_of (nat x)" if "0 < x" for x using that by (simp add: itoa_def)
  have ch: "c \<in> set (itoa x) \<Longrightarrow> 0 < x \<Longrightarrow> c \<noteq> 45 \<and> c \<noteq> 58 \<and> \<not> is_space_byte c" for c x
    using digits_of_chars by (auto simp: i)
  have "\<not> is_space_byte 45" by (simp add: is_space_byte_def space_seqs_def)
  then have t: "trim_space (show_range r) = show_range r"
    using v ch by (intro trim_space_id) (auto simp: show_range_def r)
  have "58 \<notin> set (show_range r)" using v ch [of 58 a] ch [of 58 b] by (auto simp: show_range_def r)
  then have m: "map (\<lambda>c. if c = 58 then 45 else c) (show_range r) = show_range r"
    by (intro map_idI) auto
  have ne: "itoa a \<noteq> []" using v digits_of_nonempty by (simp add: i)
  have at: "atoi_val L (itoa a) = a" "atoi_val L (itoa b) = b" using v by (auto intro: atoi_val_itoa)
  show ?thesis
  proof (cases "a = b")
    case True
    then have "show_range r = itoa a" by (simp add: show_range_def r)
    moreover have "45 \<notin> set (itoa a)" using ch v by blast
    ultimately show ?thesis using t m ne at v True by (simp add: read_range_def r)
  next
    case False
    then have s: "show_range r = itoa a @ 45 # itoa b" by (simp add: show_range_def r)
    have "45 \<notin> set (itoa a)" "45 \<notin> set (itoa b)" using ch v by fastforce+
    then have "split_byte (show_range r) 45 = [itoa a, itoa b]"
      by (simp add: s split_byte_append split_byte_no_sep)
    moreover have "45 \<in> set (show_range r)" "show_range r \<noteq> []" by (simp_all add: s)
    ultimately have "read_range L (show_range r) = Some (a, b)"
      using t m at v unfolding read_range_def Let_def by simp
    then show ?thesis by (simp add: r)
  qed
qed

definition in_range :: "int \<Rightarrow> int \<times> int \<Rightarrow> bool" where
  "in_range p r \<longleftrightarrow> fst r \<le> p \<and> p \<le> snd r"

lemma merge_ranges_Cons:
  assumes "valid_range L r" and "valid_range L c"
  shows "merge_ranges L r (c # rs) =
    (if snd r < max_int L \<and> fst c \<le> snd r + 1
     then merge_ranges L (if snd c > snd r then (fst r, snd c) else r) rs
     else r # merge_ranges L c rs)"
proof -
  have "\<not> fst c \<le> - (2 ^ (int_bits L - 1))"
    using assms(2) zero_le_power [of "2 :: int" "int_bits L - 1"] unfolding valid_range_def by linarith
  moreover have "snd r = max_int L \<or> snd r < max_int L" using assms(1) by (auto simp: valid_range_def)
  ultimately show ?thesis by (auto simp: max_int_def)
qed

lemma merge_ranges_cover:
  assumes "sorted (map fst (r # rs))" and "\<forall>x \<in> set (r # rs). valid_range L x"
  shows "((\<exists>x \<in> set (merge_ranges L r rs). in_range p x) \<longleftrightarrow> (\<exists>x \<in> set (r # rs). in_range p x)) \<and>
    (\<forall>x \<in> set (merge_ranges L r rs). valid_range L x \<and> fst r \<le> fst x) \<and>
    sorted_wrt (\<lambda>x y. snd x < max_int L \<longrightarrow> snd x + 1 < fst y) (merge_ranges L r rs)"
  using assms
proof (induction rs arbitrary: r)
  case (Cons c rs)
  then have v: "valid_range L r" "valid_range L c" and s: "fst r \<le> fst c" by auto
  note J = merge_ranges_Cons [OF v]
  show ?case
  proof (cases "snd r < max_int L \<and> fst c \<le> snd r + 1")
    case True
    let ?m = "if snd c > snd r then (fst r, snd c) else r"
    have m: "valid_range L ?m" "fst ?m = fst r" using v s by (auto simp: valid_range_def)
    have "sorted (map fst (?m # rs))" "\<forall>x \<in> set (?m # rs). valid_range L x"
      using Cons.prems m by (auto simp del: if_split)
    note IH = Cons.IH [OF this]
    have "in_range p ?m \<longleftrightarrow> in_range p r \<or> in_range p c"
      using True s v by (auto simp: in_range_def valid_range_def)
    then show ?thesis using IH True m(2) by (simp add: J del: merge_ranges.simps)
  next
    case False
    have "sorted (map fst (c # rs))" "\<forall>x \<in> set (c # rs). valid_range L x" using Cons.prems by auto
    note IH = Cons.IH [OF this]
    have "snd r < max_int L \<longrightarrow> snd r + 1 < fst x" if "x \<in> set (merge_ranges L c rs)" for x
      using IH that False by fastforce
    then show ?thesis using IH False v s by (fastforce simp: J simp del: merge_ranges.simps)
  qed
qed simp

definition ranges_of :: "golib \<Rightarrow> gostr list \<Rightarrow> (int \<times> int) list" where
  "ranges_of L ports = List.map_filter (read_range L) ports"

lemma ranges_of_valid: "\<forall>r \<in> set (ranges_of L ports). valid_range L r"
  by (auto simp: ranges_of_def map_filter_def intro: read_range_valid)

lemma ranges_of_show: "\<forall>r \<in> set rs. valid_range L r \<Longrightarrow> ranges_of L (map show_range rs) = rs"
  by (induction rs) (auto simp: ranges_of_def map_filter_simps read_show_range)

text \<open>
  Merging a port list loses and adds no port: read back by the program's own reader, the
  merged list covers exactly the ports the original list covers. Its ranges are in order
  and neither overlap nor touch (a range that ends at the largest \<^verbatim>\<open>int\<close> apart, where the
  sum that tests for adjacency wraps around).
\<close>

theorem merged_ports_cover:
  "((\<exists>r \<in> set (ranges_of L (mergeAndNormalizePorts L ports)). in_range p r) \<longleftrightarrow>
     (\<exists>r \<in> set (ranges_of L ports). in_range p r)) \<and>
   sorted_wrt (\<lambda>x y. snd x < max_int L \<longrightarrow> snd x + 1 < fst y) (ranges_of L (mergeAndNormalizePorts L ports))"
proof (cases "sort_key fst (ranges_of L ports)")
  case Nil
  then have "ranges_of L ports = []" by (metis length_0_conv length_sort)
  then show ?thesis by (simp add: mergeAndNormalizePorts_def ranges_of_def map_filter_simps)
next
  case (Cons r rs)
  have s: "set (r # rs) = set (ranges_of L ports)" by (metis Cons set_sort)
  have so: "sorted (map fst (r # rs))" by (metis Cons sorted_sort_key)
  have v: "\<forall>x \<in> set (r # rs). valid_range L x" unfolding s by (rule ranges_of_valid)
  note m = merge_ranges_cover [OF so v]
  have "ranges_of L (mergeAndNormalizePorts L ports) = merge_ranges L r rs"
    using Cons m by (simp add: mergeAndNormalizePorts_def ranges_of_show flip: ranges_of_def)
  then show ?thesis using m by (simp only: s)
qed

text \<open>A library and sets for the witnesses.\<close>

definition plain_lib :: golib where
  "plain_lib = \<lparr>int_bits = 64, uni_lower = (\<lambda>s. s), uni_equal_fold = (=), re_compile = (\<lambda>_. None)\<rparr>"

definition no_targets :: TargetsConfig where
  "no_targets = \<lparr>SNIDomains = [], IPs = [], GeoSiteCategories = [], GeoIpCategories = [], ASNs = [],
     SourceDevices = [], SourceDevicesExclude = False, DomainOnly = False, IPPriority = False,
     TLSVersion = [], IPVersion = [], DomainsToMatch = [], IpsToMatch = []\<rparr>"

definition plain_set :: "nat \<Rightarrow> gostr \<Rightarrow> SetConfig" where
  "plain_set p i = \<lparr>set_ptr = p, SetId = i, SetName = i, TCPDPortFilter = [], UDPDPortFilter = [], FilterL7 = [],
     Targets = no_targets, Enabled = True, TCPPortRanges = [], UDPPortRanges = [], UDPL7OnlyPorts = [],
     Routing = \<lparr>REnabled = False, RMode = [], SourceInterfaces = []\<rparr>, EscalateTo = []\<rparr>"

definition link_loop :: "SetConfig list" where
  "link_loop = [(plain_set 1 (str ''a''))\<lparr>EscalateTo := str ''b''\<rparr>, (plain_set 2 (str ''b''))\<lparr>EscalateTo := str ''a''\<rparr>]"

theorem escalation_chains_end_witness:
  "map EscalateTo (sanitizeEscalation plain_lib link_loop) = [str ''b'', []] \<and>
   chain_ends (sanitizeEscalation plain_lib link_loop) 0 \<and> good_link plain_lib (sanitizeEscalation plain_lib link_loop) 0"
proof -
  have b: "byID link_loop (str ''a'') = Some 0" "byID link_loop (str ''b'') = Some 1"
    by (simp_all add: link_loop_def byID_def plain_set_def str_def)
  have d: "drop_bad_link plain_lib link_loop 0 = link_loop" "drop_bad_link plain_lib link_loop 1 = link_loop"
    using b by (simp_all add: drop_bad_link_def link_loop_def plain_set_def NormalizeL7Filter_def str_def)
  have l: "[0..<length link_loop] = [0, 1]" by (simp add: link_loop_def)
  have c: "break_cycle link_loop [str ''a''] 0 = clear_link link_loop 1"
  proof -
    have "EscalateTo (link_loop ! 0) = str ''b''" "EscalateTo (link_loop ! Suc 0) = str ''a''"
      by (simp_all add: link_loop_def)
    moreover have "str ''a'' \<noteq> []" "str ''b'' \<noteq> []" "str ''a'' \<noteq> str ''b''" by (simp_all add: str_def)
    ultimately show ?thesis using b
      by (simp add: break_cycle.simps [of link_loop "[str ''a'']" 0]
          break_cycle.simps [of link_loop "[str ''b'', str ''a'']" "Suc 0"])
  qed
  have "sanitizeEscalation plain_lib link_loop = clear_link link_loop 1"
    using c unfolding sanitizeEscalation_def l foldl_Cons foldl_Nil d Let_def
    by (simp add: link_loop_def plain_set_def str_def clear_link_def)
  then have "map EscalateTo (sanitizeEscalation plain_lib link_loop) = [str ''b'', []]"
    by (simp add: link_loop_def plain_set_def clear_link_def)
  with escalation_chains_end [of 0 link_loop plain_lib] show ?thesis by (simp add: link_loop_def)
qed

definition port_sets :: "SetConfig list" where
  "port_sets = [(plain_set 1 (str ''a''))\<lparr>UDPDPortFilter := str ''50-60'', FilterL7 := [str ''stun'']\<rparr>,
     plain_set 2 (str ''b'')]"

theorem built_port_ranges_witness:
  "\<not> MatchesUDPDPort (BuildSetPortRanges plain_lib port_sets ! 1) 55 \<and>
   MatchesUDPDPort (BuildSetPortRanges plain_lib port_sets ! 1) 61"
proof -
  have sp: "trim_space (str ''50-60'') = str ''50-60''"
    by (rule trim_space_id) (simp add: is_space_byte_def space_seqs_def str_def)
  have e: "ParsePortRanges plain_lib (str ''50-60'') = [\<lparr>PMin = 50, PMax = 60\<rparr>]"
    unfolding ParsePortRanges_def
    by (simp add: str_def map_filter_def parsePortRangeStr_def sp [unfolded str_def, simplified] cut_byte_def atoi_def
        plain_lib_def is_digit_def digits_val_def has_prefix_def)
  have z: "ParsePortRanges plain_lib [] = []"
    by (simp add: ParsePortRanges_def map_filter_def parsePortRangeStr_def trim_space_id)
  have u: "udp_listed plain_lib port_sets True p = (50 \<le> p \<and> p \<le> 60)" "\<not> udp_listed plain_lib port_sets False p" for p
    by (simp_all add: udp_listed_def port_sets_def plain_set_def SelectsL7_def e z)
  have s: "1 < length port_sets" "UDPDPortFilter (port_sets ! 1) = []" "\<not> SelectsL7 (port_sets ! 1)"
    by (simp_all add: port_sets_def plain_set_def SelectsL7_def)
  show ?thesis
    using built_port_ranges [OF s(1), of plain_lib 55] built_port_ranges [OF s(1), of plain_lib 61]
    by (simp add: u s [simplified] z)
qed

theorem merged_ports_cover_witness:
  "(\<exists>r \<in> set (ranges_of plain_lib (mergeAndNormalizePorts plain_lib [str ''81:90'', str ''80''])). in_range 85 r) \<and>
   sorted_wrt (\<lambda>x y. snd x < max_int plain_lib \<longrightarrow> snd x + 1 < fst y)
     (ranges_of plain_lib (mergeAndNormalizePorts plain_lib [str ''81:90'', str ''80'']))"
proof -
  have t: "trim_space (str ''81:90'') = str ''81:90''" "trim_space (str ''80'') = str ''80''"
    by (rule trim_space_id, simp add: is_space_byte_def space_seqs_def str_def)+
  have "ranges_of plain_lib [str ''81:90'', str ''80''] = [(81, 90), (80, 80)]"
    unfolding ranges_of_def map_filter_def
    by (simp add: read_range_def t) (simp add: str_def atoi_val_def has_prefix_def is_digit_def digits_val_def plain_lib_def)
  then have "\<exists>r \<in> set (ranges_of plain_lib [str ''81:90'', str ''80'']). in_range 85 r"
    by (simp add: in_range_def)
  with merged_ports_cover [of plain_lib "[str ''81:90'', str ''80'']" 85] show ?thesis by blast
qed

end
