(* ===== verification/Domain.thy ===== *)
theory Domain
  imports Caches Set_Config
begin

text \<open>
  Domain entries of a set (\<^verbatim>\<open>src/sni/domain.go\<close>) and their overlaps (\<^verbatim>\<open>src/sni/overlap.go\<close>): names, which
  cover their subdomains, and regular expressions behind the prefix \<^verbatim>\<open>regexp:\<close>. The process-wide
  cache of compiled expressions is passed and returned; it is an instance of the bounded
  cache of theory \<open>Caches\<close>, so that the interface \<open>memo\<close> gives its transparency.
\<close>

datatype DomainRelation = RelationNone | RelationExact | RelationCovered | RelationRegexp | RelationCovers

definition regexEntryPrefix :: gostr where "regexEntryPrefix = str ''regexp:''"
definition entryRegexCacheLimit :: nat where "entryRegexCacheLimit = 2000"

fun Priority :: "DomainRelation \<Rightarrow> nat" where
  "Priority RelationExact = 4"
| "Priority RelationCovered = 3"
| "Priority RelationRegexp = 2"
| "Priority RelationCovers = 1"
| "Priority RelationNone = 0"

definition NormalizeDomain :: "golib \<Rightarrow> gostr \<Rightarrow> gostr" where
  "NormalizeDomain L domain = trim_right_byte 46 (to_lower L (trim_space domain))"

definition ParseDomainEntry :: "golib \<Rightarrow> gostr \<Rightarrow> gostr \<times> bool" where
  "ParseDomainEntry L entry =
     (let e = to_lower L (trim_space entry) in
      if has_prefix e regexEntryPrefix then (trim_prefix e regexEntryPrefix, True)
      else (trim_right_byte 46 e, False))"

definition CanonicalDomainEntry :: "golib \<Rightarrow> gostr \<Rightarrow> gostr" where
  "CanonicalDomainEntry L entry =
     (case ParseDomainEntry L entry of (v, isRegex) \<Rightarrow>
        if v = [] then [] else if isRegex then regexEntryPrefix @ v else v)"

definition isSubdomain :: "gostr \<Rightarrow> gostr \<Rightarrow> bool" where
  "isSubdomain name parent \<longleftrightarrow> length name > length parent \<and>
     name ! (length name - length parent - 1) = 46 \<and> has_suffix name parent"

type_synonym regex_cache = "(gostr \<Rightarrow> bool) option bounded"

definition compileEntryRegex :: "golib \<Rightarrow> regex_cache \<Rightarrow> gostr \<Rightarrow> regex_cache \<times> (gostr \<Rightarrow> bool) option" where
  "compileEntryRegex L c pattern = bounded_memo entryRegexCacheLimit (re_compile L) c pattern"

definition MatchParsedEntry ::
    "golib \<Rightarrow> regex_cache \<Rightarrow> gostr \<Rightarrow> bool \<Rightarrow> gostr \<Rightarrow> regex_cache \<times> DomainRelation \<times> gostr" where
  "MatchParsedEntry L c v isRegex domain =
     (if domain = [] \<or> v = [] then (c, RelationNone, [])
      else if isRegex then
        (case compileEntryRegex L c v of (c', re) \<Rightarrow>
           (case re of
              Some m \<Rightarrow> if m domain then (c', RelationRegexp, regexEntryPrefix @ v) else (c', RelationNone, [])
            | None \<Rightarrow> (c', RelationNone, [])))
      else if v = domain then (c, RelationExact, v)
      else if isSubdomain domain v then (c, RelationCovered, v)
      else if isSubdomain v domain then (c, RelationCovers, v)
      else (c, RelationNone, []))"

definition MatchDomainEntry ::
    "golib \<Rightarrow> regex_cache \<Rightarrow> gostr \<Rightarrow> gostr \<Rightarrow> regex_cache \<times> DomainRelation \<times> gostr" where
  "MatchDomainEntry L c entry domain =
     (case ParseDomainEntry L entry of (v, isRegex) \<Rightarrow>
        MatchParsedEntry L c v isRegex (NormalizeDomain L domain))"

subsection \<open>Overlaps\<close>

text \<open>\<open>owners\<close> and \<open>order\<close> of the code, as an association list in the order of first appearance.\<close>

type_synonym owner_list = "(gostr \<times> gostr list) list"

fun add_owner :: "owner_list \<Rightarrow> gostr \<Rightarrow> gostr \<Rightarrow> owner_list" where
  "add_owner [] entry name = [(entry, [name])]"
| "add_owner ((e, ns) # os) entry name =
     (if e = entry then (e, ns @ [name]) # os else (e, ns) # add_owner os entry name)"

fun overlap_entries :: "golib \<Rightarrow> gostr \<Rightarrow> gostr list \<Rightarrow> gostr list \<Rightarrow> owner_list \<Rightarrow> owner_list" where
  "overlap_entries L name [] seen os = os"
| "overlap_entries L name (entry # es) seen os =
     (let canonical = CanonicalDomainEntry L entry in
      if canonical = [] \<or> canonical \<in> set seen then overlap_entries L name es seen os
      else overlap_entries L name es (canonical # seen) (add_owner os canonical name))"

fun overlap_sets :: "golib \<Rightarrow> SetConfig option list \<Rightarrow> owner_list \<Rightarrow> owner_list" where
  "overlap_sets L [] os = os"
| "overlap_sets L (None # ss) os = overlap_sets L ss os"
| "overlap_sets L (Some s # ss) os =
     (if \<not> Enabled s then overlap_sets L ss os
      else overlap_sets L ss (overlap_entries L (SetName s) (SNIDomains (Targets s)) [] os))"

definition FindDomainOverlaps :: "golib \<Rightarrow> SetConfig option list \<Rightarrow> owner_list" where
  "FindDomainOverlaps L sets = filter (\<lambda>(entry, names). length names > 1) (overlap_sets L sets [])"

subsection \<open>What an entry matches\<close>

lemma isSubdomain_iff: "isSubdomain name parent \<longleftrightarrow> (\<exists>x. name = x @ 46 # parent)"
proof
  assume s: "isSubdomain name parent"
  then obtain t where t: "name = t @ parent" by (auto simp: isSubdomain_def has_suffix_append)
  with s have "t \<noteq> []" "t ! (length t - 1) = 46" by (auto simp: isSubdomain_def nth_append)
  then have "t = butlast t @ [46]" by (metis append_butlast_last_id last_conv_nth)
  then have "name = butlast t @ 46 # parent" using t by (metis append.assoc append_Cons append_Nil)
  then show "\<exists>x. name = x @ 46 # parent" by blast
next
  assume "\<exists>x. name = x @ 46 # parent"
  then obtain x where x: "name = x @ 46 # parent" by blast
  have "has_suffix name parent" unfolding has_suffix_append x by (intro exI [of _ "x @ [46]"]) simp
  then show "isSubdomain name parent" by (simp add: isSubdomain_def x nth_append)
qed

definition entry_relation :: "golib \<Rightarrow> gostr \<Rightarrow> bool \<Rightarrow> gostr \<Rightarrow> DomainRelation" where
  "entry_relation L v isRegex d =
     (if d = [] \<or> v = [] then RelationNone
      else if isRegex then (if \<exists>m. re_compile L v = Some m \<and> m d then RelationRegexp else RelationNone)
      else if v = d then RelationExact
      else if \<exists>x. d = x @ 46 # v then RelationCovered
      else if \<exists>x. v = x @ 46 # d then RelationCovers
      else RelationNone)"

lemma MatchParsedEntry_eq:
  assumes "memo.consistent stored (re_compile L) c"
  shows "\<exists>c'. MatchParsedEntry L c v isRegex d =
    (c', entry_relation L v isRegex d,
     if entry_relation L v isRegex d = RelationNone then [] else if isRegex then regexEntryPrefix @ v else v) \<and>
    memo.consistent stored (re_compile L) c'"
proof (cases "d \<noteq> [] \<and> v \<noteq> [] \<and> isRegex")
  case True
  obtain c' r where r: "compileEntryRegex L c v = (c', r)" by (cases "compileEntryRegex L c v")
  then have "r = re_compile L v" "memo.consistent stored (re_compile L) c'"
    using bounded.run_consistent [OF assms, of entryRegexCacheLimit v] by (auto simp: compileEntryRegex_def)
  with True r show ?thesis by (auto simp: MatchParsedEntry_def entry_relation_def split: option.splits)
next
  case False
  with assms show ?thesis by (auto simp: MatchParsedEntry_def entry_relation_def isSubdomain_iff)
qed

text \<open>
  What a domain entry matches, whatever has been cached before. A name matches itself, covers
  its proper subdomains (the name behind a dot) and is covered by its parents, and nothing
  else; a \<^verbatim>\<open>regexp:\<close> entry matches when it compiles and accepts the normalised domain. The answer
  names the entry in its canonical form, and the cache of compiled expressions stays right.
\<close>

theorem domain_entry_meaning:
  assumes "\<forall>p r. stored c p = Some r \<longrightarrow> r = re_compile L p"
  shows "\<exists>c' v isRegex d.
    ParseDomainEntry L entry = (v, isRegex) \<and> d = NormalizeDomain L domain \<and>
    MatchDomainEntry L c entry domain =
      (c', entry_relation L v isRegex d,
       if entry_relation L v isRegex d = RelationNone then [] else CanonicalDomainEntry L entry) \<and>
    (\<forall>p r. stored c' p = Some r \<longrightarrow> r = re_compile L p)"
proof -
  obtain v isRegex where p: "ParseDomainEntry L entry = (v, isRegex)" by (cases "ParseDomainEntry L entry")
  have "memo.consistent stored (re_compile L) c" using assms by (simp add: bounded.consistent_def)
  from MatchParsedEntry_eq [OF this, of v isRegex "NormalizeDomain L domain"] obtain c' where
    m: "MatchParsedEntry L c v isRegex (NormalizeDomain L domain) =
      (c', entry_relation L v isRegex (NormalizeDomain L domain),
       if entry_relation L v isRegex (NormalizeDomain L domain) = RelationNone then []
       else if isRegex then regexEntryPrefix @ v else v)"
    and c: "memo.consistent stored (re_compile L) c'" by blast
  have "v \<noteq> []" if "entry_relation L v isRegex (NormalizeDomain L domain) \<noteq> RelationNone"
    using that by (auto simp: entry_relation_def)
  then have "MatchDomainEntry L c entry domain =
      (c', entry_relation L v isRegex (NormalizeDomain L domain),
       if entry_relation L v isRegex (NormalizeDomain L domain) = RelationNone then [] else CanonicalDomainEntry L entry)"
    using m by (auto simp: MatchDomainEntry_def p CanonicalDomainEntry_def)
  then show ?thesis using p c by (auto simp: bounded.consistent_def)
qed

definition no_regexes :: regex_cache where
  "no_regexes = \<lparr>stored = Map.empty, counter = 0\<rparr>"

lemma trim_plain: "(\<forall>c \<in> set s. c \<in> {33..126}) \<Longrightarrow> trim_space s = s"
proof (rule trim_space_id)
  assume "\<forall>c \<in> set s. c \<in> {33..126}"
  moreover have "\<not> is_space_byte c" if "c \<in> {33..126 :: byte}" for c
    using that by (auto simp: is_space_byte_def space_seqs_def)
  ultimately show "\<forall>c \<in> set s. \<not> is_space_byte c" by blast
qed

theorem domain_entry_meaning_witness:
  "\<exists>c' v isRegex d. ParseDomainEntry plain_lib (str ''B4.com.'') = (v, isRegex) \<and>
     d = NormalizeDomain plain_lib (str ''www.b4.com'') \<and>
     MatchDomainEntry plain_lib no_regexes (str ''B4.com.'') (str ''www.b4.com'') =
       (c', RelationCovered, str ''b4.com'')"
proof -
  have t: "trim_space (str ''B4.com.'') = str ''B4.com.''" "trim_space (str ''www.b4.com'') = str ''www.b4.com''"
    by (rule trim_plain, simp add: str_def)+
  have p: "ParseDomainEntry plain_lib (str ''B4.com.'') = (str ''b4.com'', False)"
    by (simp add: ParseDomainEntry_def t)
      (simp add: str_def to_lower_def is_ascii_def lower_byte_def regexEntryPrefix_def has_prefix_def trim_right_byte_def)
  have n: "NormalizeDomain plain_lib (str ''www.b4.com'') = str ''www.b4.com''"
    by (simp add: NormalizeDomain_def t)
      (simp add: str_def to_lower_def is_ascii_def lower_byte_def trim_right_byte_def)
  have "str ''www.b4.com'' = str ''www'' @ 46 # str ''b4.com''" by (simp add: str_def)
  moreover have "str ''www.b4.com'' \<noteq> str ''b4.com''" "str ''b4.com'' \<noteq> []" by (simp_all add: str_def)
  ultimately have r: "entry_relation plain_lib (str ''b4.com'') False (str ''www.b4.com'') = RelationCovered"
    by (auto simp: entry_relation_def)
  have "CanonicalDomainEntry plain_lib (str ''B4.com.'') = str ''b4.com''"
    using \<open>str ''b4.com'' \<noteq> []\<close> by (simp add: CanonicalDomainEntry_def p)
  then show ?thesis
    using domain_entry_meaning [of no_regexes plain_lib "str ''B4.com.''" "str ''www.b4.com''"]
    by (auto simp: no_regexes_def p n r)
qed

subsection \<open>Canonical entries\<close>

lemma trim_right_prefix: "\<exists>t. s = trim_right_byte c s @ t"
proof -
  have "rev s = takeWhile (\<lambda>x. x = c) (rev s) @ dropWhile (\<lambda>x. x = c) (rev s)" by simp
  then have "s = rev (dropWhile (\<lambda>x. x = c) (rev s)) @ rev (takeWhile (\<lambda>x. x = c) (rev s))"
    by (metis rev_append rev_rev_ident)
  then show ?thesis unfolding trim_right_byte_def by blast
qed

lemma lower_space: "is_space_byte (lower_byte c) \<Longrightarrow> is_space_byte c"
proof (cases "65 \<le> c \<and> c \<le> 90")
  case True
  then have "97 \<le> unat (c + 32)" "unat (c + 32) \<le> 122" by (auto simp: word_le_nat_alt unat_plus_if')
  then have "c + 32 \<in> {97..122}" by (simp add: word_le_nat_alt)
  moreover have "\<not> is_space_byte x" if "x \<in> {97..122}" for x
    using that by (auto simp: is_space_byte_def space_seqs_def)
  ultimately have "\<not> is_space_byte (c + 32)" by blast
  then show "is_space_byte (lower_byte c) \<Longrightarrow> is_space_byte c" using True by (simp add: lower_byte_def)
qed (simp add: lower_byte_def)

text \<open>
  The canonical form of an entry is a normal form: for an ASCII entry without white space it
  parses to the same value and kind as the entry itself, so canonicalising twice changes nothing.
\<close>

theorem canonical_entry_roundtrip:
  assumes "is_ascii entry" and "\<forall>c \<in> set entry. \<not> is_space_byte c" and "CanonicalDomainEntry L entry \<noteq> []"
  shows "ParseDomainEntry L (CanonicalDomainEntry L entry) = ParseDomainEntry L entry \<and>
    CanonicalDomainEntry L (CanonicalDomainEntry L entry) = CanonicalDomainEntry L entry"
proof -
  define e where "e = map lower_byte entry"
  have e: "to_lower L (trim_space entry) = e" using assms by (simp add: to_lower_def trim_space_id e_def)
  have ascii: "is_ascii e" using assms(1) by (simp add: e_def is_ascii_lower)
  have nosp: "\<forall>c \<in> set e. \<not> is_space_byte c" using assms(2) lower_space by (auto simp: e_def)
  have low: "map lower_byte e = e" by (simp add: e_def)
  have norm: "to_lower L (trim_space x) = x" if "set x \<subseteq> set e" for x
  proof -
    have "trim_space x = x" using that nosp by (intro trim_space_id) auto
    moreover have "is_ascii x" using that ascii by (auto simp: is_ascii_def)
    moreover have "map lower_byte x = x" using that low by (auto intro!: map_idI simp: e_def)
    ultimately show ?thesis by (simp add: to_lower_def)
  qed
  have "ParseDomainEntry L (CanonicalDomainEntry L entry) = ParseDomainEntry L entry"
  proof (cases "has_prefix e regexEntryPrefix")
    case True
    then obtain t where t: "e = regexEntryPrefix @ t" by (auto simp: has_prefix_append)
    have p: "ParseDomainEntry L entry = (t, True)"
      using True t by (simp add: ParseDomainEntry_def e trim_prefix_def)
    then have "CanonicalDomainEntry L entry = e" using assms(3) t by (auto simp: CanonicalDomainEntry_def split: if_splits)
    then show ?thesis using norm [of e] p True t by (simp add: ParseDomainEntry_def trim_prefix_def)
  next
    case False
    define v where "v = trim_right_byte 46 e"
    have p: "ParseDomainEntry L entry = (v, False)" using False by (simp add: ParseDomainEntry_def e v_def)
    then have c: "CanonicalDomainEntry L entry = v" by (simp add: CanonicalDomainEntry_def)
    have "\<not> has_prefix v regexEntryPrefix"
      using False trim_right_prefix [of e 46] unfolding v_def has_prefix_append by (metis append_assoc)
    moreover have "trim_right_byte 46 v = v"
      using trim_right_byte_last [of 46 e] unfolding v_def by (intro trim_right_byte_id) auto
    ultimately show ?thesis
      using norm [of v] trim_right_byte_subset [of 46 e] p by (simp add: c ParseDomainEntry_def v_def)
  qed
  then show ?thesis by (simp add: CanonicalDomainEntry_def [of L "CanonicalDomainEntry L entry"])
      (simp add: CanonicalDomainEntry_def)
qed

theorem canonical_entry_roundtrip_witness:
  "ParseDomainEntry plain_lib (CanonicalDomainEntry plain_lib (str ''A.''))
     = ParseDomainEntry plain_lib (str ''A.'')"
proof -
  have "\<forall>c \<in> set (str ''A.''). \<not> is_space_byte c" by (simp add: str_def is_space_byte_def space_seqs_def)
  moreover have "trim_space (str ''A.'') = str ''A.''" by (rule trim_plain) (simp add: str_def)
  then have "CanonicalDomainEntry plain_lib (str ''A.'') \<noteq> []"
    by (simp add: CanonicalDomainEntry_def ParseDomainEntry_def)
      (simp add: str_def to_lower_def is_ascii_def lower_byte_def trim_right_byte_def regexEntryPrefix_def has_prefix_def)
  moreover have "is_ascii (str ''A.'')" by (simp add: str_def is_ascii_def)
  ultimately show ?thesis using canonical_entry_roundtrip by blast
qed

subsection \<open>Overlapping entries\<close>

definition owners_in :: "owner_list \<Rightarrow> gostr \<Rightarrow> gostr list" where
  "owners_in os e = (case map_of os e of None \<Rightarrow> [] | Some ns \<Rightarrow> ns)"

definition set_owners :: "golib \<Rightarrow> SetConfig option list \<Rightarrow> gostr \<Rightarrow> gostr list" where
  "set_owners L sets e =
     map SetName (filter (\<lambda>s. Enabled s \<and> e \<in> CanonicalDomainEntry L ` set (SNIDomains (Targets s))) (List.map_filter id sets))"

definition owners_ok :: "owner_list \<Rightarrow> bool" where
  "owners_ok os \<longleftrightarrow> distinct (map fst os) \<and> [] \<notin> fst ` set os"

lemma add_owner_keys: "fst ` set (add_owner os e n) = insert e (fst ` set os)"
  by (induction os e n rule: add_owner.induct) auto

lemma add_owner_ok: "owners_ok os \<Longrightarrow> e \<noteq> [] \<Longrightarrow> owners_ok (add_owner os e n)"
proof (induction os e n rule: add_owner.induct)
  case (2 x ns os e n)
  have "x \<notin> fst ` set (add_owner os e n)" if "x \<noteq> e"
    using that 2(2) by (simp add: add_owner_keys owners_ok_def)
  with 2 show ?case by (auto simp: owners_ok_def add_owner_keys)
qed (simp add: owners_ok_def)

lemma owners_in_add: "owners_in (add_owner os e n) x = owners_in os x @ (if x = e then [n] else [])"
  by (induction os e n rule: add_owner.induct) (auto simp: owners_in_def split: option.splits)

lemma overlap_entries_ok:
  "owners_ok os \<Longrightarrow> owners_ok (overlap_entries L n es seen os) \<and>
   (e \<noteq> [] \<longrightarrow> owners_in (overlap_entries L n es seen os) e =
     owners_in os e @ (if e \<notin> set seen \<and> e \<in> CanonicalDomainEntry L ` set es then [n] else []))"
  by (induction L n es seen os rule: overlap_entries.induct) (auto simp: Let_def add_owner_ok owners_in_add)

lemma overlap_sets_ok:
  "owners_ok os \<Longrightarrow> owners_ok (overlap_sets L ss os) \<and>
   (e \<noteq> [] \<longrightarrow> owners_in (overlap_sets L ss os) e = owners_in os e @ set_owners L ss e)"
proof (induction L ss os rule: overlap_sets.induct)
  case (3 L s ss os)
  then show ?case using overlap_entries_ok [OF 3(3), of L "SetName s" "SNIDomains (Targets s)" "[]" e]
    by (auto simp: set_owners_def map_filter_simps plain_set_def)
qed (auto simp: set_owners_def map_filter_simps)

text \<open>
  Overlap detection is exact: an entry is reported once, and exactly when two or more enabled
  sets list it in canonical form, with the names of those sets in configuration order.
\<close>

theorem overlaps_exact:
  assumes "e \<noteq> []"
  shows "distinct (map fst (FindDomainOverlaps L sets)) \<and>
    ((e, names) \<in> set (FindDomainOverlaps L sets) \<longleftrightarrow> names = set_owners L sets e \<and> length names > 1)"
proof -
  have o: "owners_ok (overlap_sets L sets [])" "owners_in (overlap_sets L sets []) e = set_owners L sets e"
    using overlap_sets_ok [of "[]" L sets e] assms by (auto simp: owners_ok_def owners_in_def)
  let ?os = "overlap_sets L sets []"
  have d: "distinct (map fst ?os)" using o(1) by (simp add: owners_ok_def)
  then have m: "(e, names) \<in> set ?os \<longleftrightarrow> map_of ?os e = Some names" for names by simp
  have "(e, names) \<in> set ?os \<and> length names > 1 \<longleftrightarrow> names = set_owners L sets e \<and> length names > 1"
    unfolding m using o(2) by (auto simp: owners_in_def split: option.splits)
  moreover have "distinct (map fst (FindDomainOverlaps L sets))"
    using d by (simp add: FindDomainOverlaps_def distinct_map_filter)
  ultimately show ?thesis by (auto simp: FindDomainOverlaps_def)
qed

theorem overlaps_exact_witness:
  "(str ''a'', [str ''x'', str ''y'']) \<in> set (FindDomainOverlaps plain_lib
     [Some ((plain_set 1 (str ''x''))\<lparr>Targets := no_targets\<lparr>SNIDomains := [str ''A.'', str ''a'']\<rparr>\<rparr>), None,
      Some ((plain_set 2 (str ''y''))\<lparr>Targets := no_targets\<lparr>SNIDomains := [str ''a'']\<rparr>\<rparr>)])"
proof -
  have "trim_space (str ''A.'') = str ''A.''" "trim_space (str ''a'') = str ''a''"
    by (rule trim_plain, simp add: str_def)+
  then have "CanonicalDomainEntry plain_lib (str ''A.'') = str ''a''" "CanonicalDomainEntry plain_lib (str ''a'') = str ''a''"
    by (simp_all add: CanonicalDomainEntry_def ParseDomainEntry_def)
      (simp_all add: str_def to_lower_def is_ascii_def lower_byte_def trim_right_byte_def regexEntryPrefix_def has_prefix_def)
  moreover have "str ''a'' \<noteq> []" by (simp add: str_def)
  ultimately show ?thesis by (subst conjunct2 [OF overlaps_exact]) (auto simp: set_owners_def map_filter_simps plain_set_def)
qed

end
