(* ===== verification/Matcher.thy ===== *)
theory Matcher
  imports Domain
begin

text \<open>
  The matcher (\<^verbatim>\<open>src/sni/match.go\<close>): which set a connection belongs to, by server name, address,
  port and protocol class, under device, TLS-version and IP-version filters. This theory holds
  the data and the operations; the properties are in the theories that import it.

  \<^item> An address is its canonical byte string (4 bytes for IPv4, mapped addresses included, 16 for
    IPv6); \<^verbatim>\<open>ip.String()\<close>, which is injective on those, is the identity on it, so the address
    itself is the key of the address caches.
  \<^item> The textual forms of addresses and networks (\<^verbatim>\<open>net.ParseIP\<close>, \<^verbatim>\<open>net.ParseCIDR\<close>) and the CIDR index
    (the third-party \<^verbatim>\<open>cidranger\<close>) are the fields of \<open>netlib\<close>. \<open>containing nets ip\<close> is
    \<^verbatim>\<open>ContainingNetworks\<close> on an index into which \<open>nets\<close> were inserted, in that order.
  \<^item> The index holds pointers to \<open>ipRange\<close> structs whose set lists grow while the matcher is
    built; \<open>ipEntries\<close> is the store they point into, keyed by the network.
  \<^item> A nil \<^verbatim>\<open>*SuffixSet\<close> matches nothing; the model starts at a matcher that exists.
\<close>

record IPNet =
  net_ip :: bytes
  net_ones :: nat

record netlib =
  parse_ip :: "gostr \<Rightarrow> bytes option"
  parse_cidr :: "gostr \<Rightarrow> IPNet option"
  containing :: "IPNet list \<Rightarrow> bytes \<Rightarrow> IPNet list option"

record ipRange =
  ipNet :: IPNet
  rsets :: "SetConfig list"
  rorder :: nat

record portRange =
  pmin :: int
  pmax :: int
  pset :: SetConfig

record regexWithSet =
  regex :: "gostr \<Rightarrow> bool"
  rx_set :: SetConfig
  pattern :: nat

record learnedIPEntry =
  le_domain :: gostr
  le_set :: SetConfig
  learnedAt :: nat

type_synonym match_result = "SetConfig option"

record SuffixSet =
  ss_sets :: "gostr \<rightharpoonup> SetConfig"
  multiSets :: "gostr \<rightharpoonup> SetConfig list"
  regexes :: "regexWithSet list"
  regexPatterns :: nat
  regexCache :: "match_result bounded"
  ipRanger :: "IPNet list"
  ipEntries :: "IPNet \<rightharpoonup> ipRange"
  udpPortRanges :: "portRange list"
  udpL7Ranges :: "portRange list"
  tcpPortRanges :: "portRange list"
  ipCache :: "match_result lru"
  domainCache :: "match_result lru"
  learnedIPCache :: "learnedIPEntry lru"
  learnedIPTTL :: nat
  scopesBlock :: bool
  nameSets :: "SetConfig list"
  setIndex :: "gostr \<rightharpoonup> nat"
  scopedSet :: "gostr \<rightharpoonup> bool"
  anyIPPriority :: bool
  builtFrom :: "SetConfig list"

subsection \<open>Filters\<close>

type_synonym SetFilter = "(SetConfig \<Rightarrow> bool) option"

definition Keeps :: "SetFilter \<Rightarrow> SetConfig \<Rightarrow> bool" where
  "Keeps f s = (case f of None \<Rightarrow> True | Some g \<Rightarrow> g s)"

fun join_from :: "SetFilter \<Rightarrow> SetFilter list \<Rightarrow> SetFilter" where
  "join_from joined [] = joined"
| "join_from joined (None # fs) = join_from joined fs"
| "join_from None (Some f # fs) = join_from (Some f) fs"
| "join_from (Some prev) (Some f # fs) = join_from (Some (\<lambda>s. prev s \<and> f s)) fs"

definition joinFilters :: "SetFilter list \<Rightarrow> SetFilter" where
  "joinFilters filters = join_from None filters"

definition setMatchesSource :: "golib \<Rightarrow> SetConfig \<Rightarrow> gostr \<Rightarrow> bool" where
  "setMatchesSource L s srcMAC =
     (if SourceDevices (Targets s) = [] then True
      else let exclude = SourceDevicesExclude (Targets s) in
        if srcMAC = [] then exclude
        else if list_ex (\<lambda>mac. equal_fold L mac srcMAC) (SourceDevices (Targets s)) then \<not> exclude
        else exclude)"

definition SetMatchesSource :: "golib \<Rightarrow> SetConfig option \<Rightarrow> gostr \<Rightarrow> SetFilter list \<Rightarrow> bool" where
  "SetMatchesSource L s srcMAC keep =
     (case s of None \<Rightarrow> False | Some s \<Rightarrow> setMatchesSource L s srcMAC \<and> Keeps (joinFilters keep) s)"

definition acceptsAnyVersion :: "SetConfig \<Rightarrow> bool" where
  "acceptsAnyVersion s \<longleftrightarrow> MatchesTLSVersion s 0 \<and> MatchesIPVersion s 0"

definition scoped :: "SetConfig \<Rightarrow> bool" where
  "scoped s \<longleftrightarrow> SourceDevices (Targets s) \<noteq> []"

definition select_pass ::
    "golib \<Rightarrow> SetConfig list \<Rightarrow> gostr \<Rightarrow> nat \<Rightarrow> nat \<Rightarrow> SetFilter \<Rightarrow> SetConfig option" where
  "select_pass L candidates srcMAC tls ipv keep =
     (case List.find (\<lambda>s. scoped s \<and> setMatchesSource L s srcMAC \<and> MatchesTLSVersion s tls \<and>
                          MatchesIPVersion s ipv \<and> Keeps keep s) candidates of
        Some s \<Rightarrow> Some s
      | None \<Rightarrow> List.find (\<lambda>s. \<not> scoped s \<and> MatchesTLSVersion s tls \<and>
                          MatchesIPVersion s ipv \<and> Keeps keep s) candidates)"

text \<open>The recursive call passes 0 for both versions and does not recurse again.\<close>

definition selectSetBySourceAndTLS ::
    "golib \<Rightarrow> SetConfig list \<Rightarrow> gostr \<Rightarrow> nat \<Rightarrow> nat \<Rightarrow> SetFilter \<Rightarrow> SetConfig option" where
  "selectSetBySourceAndTLS L candidates srcMAC tls ipv keep =
     (if candidates = [] then None
      else case select_pass L candidates srcMAC tls ipv keep of
        Some s \<Rightarrow> Some s
      | None \<Rightarrow> if tls \<noteq> 0 \<or> ipv \<noteq> 0 then select_pass L candidates srcMAC 0 0 keep else None)"

definition selectSetBySource :: "golib \<Rightarrow> SetConfig list \<Rightarrow> gostr \<Rightarrow> nat \<Rightarrow> SetFilter \<Rightarrow> SetConfig option" where
  "selectSetBySource L candidates srcMAC ipv keep = selectSetBySourceAndTLS L candidates srcMAC 0 ipv keep"

subsection \<open>Building the matcher\<close>

definition parsePortRange :: "golib \<Rightarrow> gostr \<Rightarrow> SetConfig \<Rightarrow> portRange option" where
  "parsePortRange L part s =
     (let part = trim_space part in
      if part = [] then None
      else case cut_byte part 45 of
        Some (lo, hi) \<Rightarrow>
          (case (atoi L lo, atoi L hi) of
             (Some mn, Some mx) \<Rightarrow>
               if mn \<ge> 0 \<and> mx \<ge> 0 \<and> mn \<le> mx then Some \<lparr>pmin = mn, pmax = mx, pset = s\<rparr> else None
           | _ \<Rightarrow> None)
      | None \<Rightarrow>
          (case atoi L part of
             Some port \<Rightarrow> if port \<ge> 0 then Some \<lparr>pmin = port, pmax = port, pset = s\<rparr> else None
           | None \<Rightarrow> None))"

definition parse_ports :: "golib \<Rightarrow> gostr \<Rightarrow> SetConfig \<Rightarrow> portRange list" where
  "parse_ports L flt s =
     (if flt = [] then [] else List.map_filter (\<lambda>part. parsePortRange L part s) (split_byte flt 44))"

definition parseTargetNetwork :: "netlib \<Rightarrow> gostr \<Rightarrow> IPNet option" where
  "parseTargetNetwork N raw =
     (let raw = trim_space raw in
      if raw = [] then None
      else if 47 \<in> set raw then parse_cidr N raw
      else map_option (\<lambda>ip. \<lparr>net_ip = ip, net_ones = 8 * length ip\<rparr>) (parse_ip N raw))"

text \<open>The variables of the constructor's loops: the matcher, \<^verbatim>\<open>seenRegexes\<close>, \<^verbatim>\<open>patternIndex\<close> (\<^const>\<open>None\<close>
  inside for an index of -1) and \<^verbatim>\<open>patterns\<close>.\<close>

record builder =
  b_ss :: SuffixSet
  seenRegexes :: "(nat \<times> gostr) list"
  patternIndex :: "gostr \<rightharpoonup> nat option"
  patterns :: "(gostr \<Rightarrow> bool) list"

definition intern_pattern :: "golib \<Rightarrow> builder \<Rightarrow> gostr \<Rightarrow> builder \<times> nat option" where
  "intern_pattern L b d =
     (case patternIndex b d of
        Some idx \<Rightarrow> (b, idx)
      | None \<Rightarrow>
          (case re_compile L d of
             Some re \<Rightarrow>
               (b\<lparr>patterns := patterns b @ [re], patternIndex := (patternIndex b)(d \<mapsto> Some (length (patterns b)))\<rparr>,
                Some (length (patterns b)))
           | None \<Rightarrow> (b\<lparr>patternIndex := (patternIndex b)(d \<mapsto> None)\<rparr>, None)))"

definition add_regex :: "golib \<Rightarrow> SetConfig \<Rightarrow> builder \<Rightarrow> gostr \<Rightarrow> builder \<times> bool" where
  "add_regex L s b d =
     (if (set_ptr s, d) \<in> set (seenRegexes b) then (b, False)
      else let b = b\<lparr>seenRegexes := (set_ptr s, d) # seenRegexes b\<rparr> in
        case intern_pattern L b d of
          (b, Some idx) \<Rightarrow>
            (b\<lparr>b_ss := (b_ss b)\<lparr>regexes := regexes (b_ss b) @
                 [\<lparr>regex = patterns b ! idx, rx_set = s, pattern = idx\<rparr>]\<rparr>\<rparr>, True)
        | (b, None) \<Rightarrow> (b, False))"

definition add_name :: "SetConfig \<Rightarrow> SuffixSet \<Rightarrow> gostr \<Rightarrow> SuffixSet" where
  "add_name s ss d =
     (case ss_sets ss d of
        None \<Rightarrow> ss\<lparr>ss_sets := (ss_sets ss)(d \<mapsto> s)\<rparr>
      | Some prev \<Rightarrow>
          (case multiSets ss d of
             Some multi \<Rightarrow> ss\<lparr>multiSets := (multiSets ss)(d \<mapsto> multi @ [s])\<rparr>
           | None \<Rightarrow> ss\<lparr>multiSets := (multiSets ss)(d \<mapsto> [prev, s])\<rparr>))"

fun add_domains :: "golib \<Rightarrow> SetConfig \<Rightarrow> gostr list \<Rightarrow> builder \<Rightarrow> bool \<Rightarrow> builder \<times> bool" where
  "add_domains L s [] b named = (b, named)"
| "add_domains L s (entry # es) b named =
     (case ParseDomainEntry L entry of (d, isRegex) \<Rightarrow>
        if d = [] then add_domains L s es b named
        else if isRegex then
          (case add_regex L s b d of (b, added) \<Rightarrow> add_domains L s es b (named \<or> added))
        else add_domains L s es (b\<lparr>b_ss := add_name s (b_ss b) d\<rparr>) True)"

definition add_network :: "netlib \<Rightarrow> nat \<Rightarrow> SetConfig \<Rightarrow> SuffixSet \<Rightarrow> gostr \<Rightarrow> SuffixSet" where
  "add_network N ord s ss ipStr =
     (case parseTargetNetwork N ipStr of
        None \<Rightarrow> ss
      | Some n \<Rightarrow>
          (case ipEntries ss n of
             Some e \<Rightarrow>
               if set_ptr (last (rsets e)) \<noteq> set_ptr s
               then ss\<lparr>ipEntries := (ipEntries ss)(n \<mapsto> e\<lparr>rsets := rsets e @ [s]\<rparr>)\<rparr> else ss
           | None \<Rightarrow>
               ss\<lparr>ipEntries := (ipEntries ss)(n \<mapsto> \<lparr>ipNet = n, rsets = [s], rorder = ord\<rparr>),
                  ipRanger := ipRanger ss @ [n]\<rparr>))"

definition note_set :: "nat \<Rightarrow> SetConfig \<Rightarrow> SuffixSet \<Rightarrow> SuffixSet" where
  "note_set ord s ss =
     (let ss = (if setIndex ss (SetId s) = None \<and> SetId s \<noteq> []
                then ss\<lparr>setIndex := (setIndex ss)(SetId s \<mapsto> ord), scopedSet := (scopedSet ss)(SetId s \<mapsto> scoped s)\<rparr>
                else ss);
          ss = (if IPPriorityApplies s \<and> IpsToMatch (Targets s) \<noteq> [] then ss\<lparr>anyIPPriority := True\<rparr> else ss)
      in if BlockRoutingScoped s then ss\<lparr>scopesBlock := True\<rparr> else ss)"

definition add_ports :: "golib \<Rightarrow> SetConfig \<Rightarrow> SuffixSet \<Rightarrow> SuffixSet" where
  "add_ports L s ss =
     (let udp = parse_ports L (UDPDPortFilter s) s;
          ss = (if SelectsL7 s then ss\<lparr>udpL7Ranges := udpL7Ranges ss @ udp\<rparr>
                else ss\<lparr>udpPortRanges := udpPortRanges ss @ udp\<rparr>)
      in ss\<lparr>tcpPortRanges := tcpPortRanges ss @ parse_ports L (TCPDPortFilter s) s\<rparr>)"

definition add_set :: "golib \<Rightarrow> netlib \<Rightarrow> builder \<Rightarrow> nat \<times> SetConfig \<Rightarrow> builder" where
  "add_set L N b os =
     (case os of (ord, s) \<Rightarrow>
        if \<not> Enabled s then b
        else case add_domains L s (DomainsToMatch (Targets s)) (b\<lparr>b_ss := note_set ord s (b_ss b)\<rparr>) False of
          (b, named) \<Rightarrow>
            let ss = b_ss b;
                ss = (if named then ss\<lparr>nameSets := nameSets ss @ [s]\<rparr> else ss);
                ss = foldl (add_network N ord s) ss (IpsToMatch (Targets s))
            in b\<lparr>b_ss := add_ports L s ss\<rparr>)"

definition empty_matcher :: "SetConfig list \<Rightarrow> SuffixSet" where
  "empty_matcher cfg =
     \<lparr>ss_sets = Map.empty, multiSets = Map.empty, regexes = [], regexPatterns = 0,
      regexCache = \<lparr>stored = Map.empty, counter = 0\<rparr>, ipRanger = [], ipEntries = Map.empty,
      udpPortRanges = [], udpL7Ranges = [], tcpPortRanges = [],
      ipCache = lru_empty 2000, domainCache = lru_empty 2000, learnedIPCache = lru_empty 5000,
      learnedIPTTL = 600 * 1000000000, scopesBlock = False, nameSets = [], setIndex = Map.empty,
      scopedSet = Map.empty, anyIPPriority = False, builtFrom = cfg\<rparr>"

definition NewSuffixSet :: "golib \<Rightarrow> netlib \<Rightarrow> SetConfig list \<Rightarrow> SuffixSet" where
  "NewSuffixSet L N cfg =
     (let b = foldl (add_set L N)
                \<lparr>b_ss = empty_matcher cfg, seenRegexes = [], patternIndex = Map.empty, patterns = []\<rparr>
                (enumerate 0 cfg)
      in (b_ss b)\<lparr>regexPatterns := length (patterns b)\<rparr>)"

definition KeepNameSets :: "SuffixSet \<Rightarrow> SetFilter \<Rightarrow> SuffixSet" where
  "KeepNameSets ss keep = ss\<lparr>nameSets := filter (Keeps keep) (nameSets ss)\<rparr>"

definition NameSetCoversTCPPort :: "SuffixSet \<Rightarrow> 16 word \<Rightarrow> bool" where
  "NameSetCoversTCPPort ss port \<longleftrightarrow> list_ex (\<lambda>s. MatchesTCPDPort s port) (nameSets ss)"

subsection \<open>Ports and protocols\<close>

definition in_ports :: "portRange \<Rightarrow> 16 word \<Rightarrow> bool" where
  "in_ports r dport \<longleftrightarrow> uint dport \<ge> pmin r \<and> uint dport \<le> pmax r"

definition match_port :: "golib \<Rightarrow> portRange list \<Rightarrow> 16 word \<Rightarrow> gostr \<Rightarrow> SetFilter list \<Rightarrow> match_result" where
  "match_port L ranges dport srcMAC keep =
     map_option pset (List.find (\<lambda>r. \<not> DeclaresDestinationTargets (pset r) \<and> setMatchesSource L (pset r) srcMAC \<and>
       in_ports r dport \<and> Keeps (joinFilters keep) (pset r)) ranges)"

definition MatchUDPPort :: "golib \<Rightarrow> SuffixSet \<Rightarrow> 16 word \<Rightarrow> gostr \<Rightarrow> SetFilter list \<Rightarrow> match_result" where
  "MatchUDPPort L ss dport srcMAC keep = match_port L (udpPortRanges ss) dport srcMAC keep"

definition MatchTCPPort :: "golib \<Rightarrow> SuffixSet \<Rightarrow> 16 word \<Rightarrow> gostr \<Rightarrow> SetFilter list \<Rightarrow> match_result" where
  "MatchTCPPort L ss dport srcMAC keep = match_port L (tcpPortRanges ss) dport srcMAC keep"

definition MatchUDPL7 ::
    "golib \<Rightarrow> SuffixSet \<Rightarrow> 16 word \<Rightarrow> gostr \<Rightarrow> gostr \<Rightarrow> nat \<Rightarrow> SetFilter list \<Rightarrow> match_result" where
  "MatchUDPL7 L ss dport srcMAC cls ipv keep =
     (if cls = [] then None
      else map_option pset (List.find (\<lambda>r. SelectsL7Class (pset r) cls \<and> MatchesIPVersion (pset r) ipv \<and>
        setMatchesSource L (pset r) srcMAC \<and> in_ports r dport \<and> Keeps (joinFilters keep) (pset r)) (udpL7Ranges ss)))"

definition UDPL7Owner ::
    "golib \<Rightarrow> SuffixSet \<Rightarrow> gostr \<Rightarrow> 16 word \<Rightarrow> gostr \<Rightarrow> nat \<Rightarrow> SetFilter list \<Rightarrow> match_result" where
  "UDPL7Owner L ss i dport srcMAC ipv keep =
     (if i = [] then None
      else map_option pset (List.find (\<lambda>r. SetId (pset r) = i \<and> in_ports r dport \<and> MatchesIPVersion (pset r) ipv \<and>
        setMatchesSource L (pset r) srcMAC \<and> Keeps (joinFilters keep) (pset r)) (udpL7Ranges ss)))"

subsection \<open>Names\<close>

text \<open>The loop all name lookups share: try the name, then what is behind its first dot, and so on.\<close>

function suffix_walk :: "(gostr \<Rightarrow> 'a option) \<Rightarrow> gostr \<Rightarrow> 'a option" where
  "suffix_walk probe name =
     (case probe name of
        Some r \<Rightarrow> Some r
      | None \<Rightarrow>
          (case index_byte name 46 of
             None \<Rightarrow> None
           | Some i \<Rightarrow> suffix_walk probe (drop (i + 1) name)))"
  by pat_completeness auto
termination
  by (relation "measure (\<lambda>(probe, name). length name)") (auto dest: index_byte_less)

declare suffix_walk.simps [simp del]

text \<open>One scan of the regular expressions with the per-call memory, indexed by pattern: 0 is
  not yet tried, 1 a match, -1 none. \<^const>\<open>None\<close> is an index out of range.\<close>

definition rx_matches :: "regexWithSet \<Rightarrow> gostr \<Rightarrow> int list \<Rightarrow> (int list \<times> bool) option" where
  "rx_matches r host mm =
     (if pattern r < length mm then
        (let mm = (if mm ! pattern r = 0 then mm[pattern r := (if regex r host then 1 else - 1)] else mm)
         in Some (mm, mm ! pattern r > 0))
      else None)"

definition regexMemo :: "SuffixSet \<Rightarrow> int list" where
  "regexMemo ss = replicate (regexPatterns ss) 0"

fun first_regex :: "(SetConfig \<Rightarrow> bool) \<Rightarrow> (SetConfig \<Rightarrow> bool) \<Rightarrow> gostr \<Rightarrow> int list \<Rightarrow> regexWithSet list \<Rightarrow> match_result option" where
  "first_regex pre post host mm [] = Some None"
| "first_regex pre post host mm (r # rs) =
     (if \<not> pre (rx_set r) then first_regex pre post host mm rs
      else do {
        (mm, m) \<leftarrow> rx_matches r host mm;
        if m \<and> post (rx_set r) then Some (Some (rx_set r)) else first_regex pre post host mm rs })"

fun all_regexes :: "gostr \<Rightarrow> int list \<Rightarrow> regexWithSet list \<Rightarrow> SetConfig list option" where
  "all_regexes host mm [] = Some []"
| "all_regexes host mm (r # rs) = do {
     (mm, m) \<leftarrow> rx_matches r host mm;
     cs \<leftarrow> all_regexes host mm rs;
     Some (if m then rx_set r # cs else cs) }"

definition matchDomain :: "SuffixSet \<Rightarrow> gostr \<Rightarrow> SuffixSet \<times> match_result" where
  "matchDomain ss host =
     (case lru_memo (suffix_walk (ss_sets ss)) (domainCache ss) host of (c, r) \<Rightarrow> (ss\<lparr>domainCache := c\<rparr>, r))"

text \<open>The cached scan: the outer option is the panic of a mm index out of range.\<close>

definition matchRegex :: "SuffixSet \<Rightarrow> gostr \<Rightarrow> (SuffixSet \<times> match_result) option" where
  "matchRegex ss host =
     (case stored (regexCache ss) host of
        Some r \<Rightarrow> Some (ss, r)
      | None \<Rightarrow> do {
          r \<leftarrow> first_regex (\<lambda>_. True) (\<lambda>_. True) host (regexMemo ss) (regexes ss);
          Some (ss\<lparr>regexCache := fst (bounded_memo 2000 (\<lambda>_. r) (regexCache ss) host)\<rparr>, r) })"

definition MatchSNI :: "golib \<Rightarrow> SuffixSet \<Rightarrow> gostr \<Rightarrow> (SuffixSet \<times> match_result) option" where
  "MatchSNI L ss host =
     (if (ss_sets ss = Map.empty \<and> regexes ss = []) \<or> host = [] then Some (ss, None)
      else let lower = NormalizeDomain L host in
        if lower = [] then Some (ss, None)
        else case matchDomain ss lower of
          (ss, Some s) \<Rightarrow> Some (ss, Some s)
        | (ss, None) \<Rightarrow> if regexes ss \<noteq> [] then matchRegex ss lower else Some (ss, None))"

definition candidates_at :: "SuffixSet \<Rightarrow> gostr \<Rightarrow> SetConfig list option" where
  "candidates_at ss name =
     (case multiSets ss name of
        Some cs \<Rightarrow> Some cs
      | None \<Rightarrow> (case ss_sets ss name of Some s \<Rightarrow> Some [s] | None \<Rightarrow> None))"

definition findDomainCandidates :: "SuffixSet \<Rightarrow> gostr \<Rightarrow> SetConfig list" where
  "findDomainCandidates ss host =
     (case suffix_walk (candidates_at ss) host of Some cs \<Rightarrow> cs | None \<Rightarrow> [])"

definition matchDomainWithSourceTLS ::
    "golib \<Rightarrow> SuffixSet \<Rightarrow> gostr \<Rightarrow> gostr \<Rightarrow> nat \<Rightarrow> nat \<Rightarrow> SetFilter \<Rightarrow> match_result" where
  "matchDomainWithSourceTLS L ss host srcMAC tls ipv keep =
     (let cs = findDomainCandidates ss host in
      if cs = [] then None else selectSetBySourceAndTLS L cs srcMAC tls ipv keep)"

definition matchRegexWithSourceTLS ::
    "golib \<Rightarrow> SuffixSet \<Rightarrow> gostr \<Rightarrow> gostr \<Rightarrow> nat \<Rightarrow> nat \<Rightarrow> SetFilter \<Rightarrow> match_result option" where
  "matchRegexWithSourceTLS L ss host srcMAC tls ipv keep = do {
     cs \<leftarrow> all_regexes host (regexMemo ss) (regexes ss);
     Some (if cs = [] then None else selectSetBySourceAndTLS L cs srcMAC tls ipv keep) }"

definition MatchSNIWithSourceTLS ::
    "golib \<Rightarrow> SuffixSet \<Rightarrow> gostr \<Rightarrow> gostr \<Rightarrow> nat \<Rightarrow> nat \<Rightarrow> SetFilter list \<Rightarrow> match_result option" where
  "MatchSNIWithSourceTLS L ss host srcMAC tls ipv keep =
     (if (ss_sets ss = Map.empty \<and> regexes ss = []) \<or> host = [] then Some None
      else let lower = to_lower L host; keepSet = joinFilters keep in
        case matchDomainWithSourceTLS L ss lower srcMAC tls ipv keepSet of
          Some s \<Rightarrow> Some (Some s)
        | None \<Rightarrow> if regexes ss \<noteq> [] then matchRegexWithSourceTLS L ss lower srcMAC tls ipv keepSet else Some None)"

definition MatchSNIWithSource :: "golib \<Rightarrow> SuffixSet \<Rightarrow> gostr \<Rightarrow> gostr \<Rightarrow> SetFilter list \<Rightarrow> match_result option" where
  "MatchSNIWithSource L ss host srcMAC keep = MatchSNIWithSourceTLS L ss host srcMAC 0 0 keep"

definition ScopedBlockSetWins :: "golib \<Rightarrow> SuffixSet \<Rightarrow> gostr \<Rightarrow> gostr \<Rightarrow> nat \<Rightarrow> nat \<Rightarrow> bool option" where
  "ScopedBlockSetWins L ss host srcMAC tls ipv =
     (if \<not> scopesBlock ss then Some False
      else do {
        r \<leftarrow> MatchSNIWithSourceTLS L ss host srcMAC tls ipv [];
        Some (case r of None \<Rightarrow> False | Some s \<Rightarrow> BlockRoutingScoped s) })"

text \<open>\<^verbatim>\<open>unknownDeviceSetAt\<close>: \<^const>\<open>None\<close> when the name is not listed by a set that counts, otherwise
  whether one of those sets accepts every version, and which.\<close>

definition unknownDeviceSetAt :: "SuffixSet \<Rightarrow> gostr \<Rightarrow> SetFilter \<Rightarrow> match_result option" where
  "unknownDeviceSetAt ss name keep =
     (case candidates_at ss name of
        None \<Rightarrow> None
      | Some cs \<Rightarrow>
          let usable = filter (\<lambda>s. \<not> scoped s \<and> Keeps keep s) cs in
          if usable = [] then None else Some (List.find acceptsAnyVersion usable))"

definition MatchSNIForUnknownDevice :: "golib \<Rightarrow> SuffixSet \<Rightarrow> gostr \<Rightarrow> SetFilter list \<Rightarrow> match_result option" where
  "MatchSNIForUnknownDevice L ss host keep =
     (if (ss_sets ss = Map.empty \<and> regexes ss = []) \<or> host = [] then Some None
      else let lower = to_lower L host; keepSet = joinFilters keep in
        case suffix_walk (\<lambda>name. unknownDeviceSetAt ss name keepSet) lower of
          Some (Some s) \<Rightarrow> Some (Some s)
        | _ \<Rightarrow> first_regex (\<lambda>s. \<not> scoped s \<and> acceptsAnyVersion s) (Keeps keepSet) lower (regexMemo ss) (regexes ss))"

definition SetHasDomain :: "golib \<Rightarrow> SuffixSet \<Rightarrow> gostr \<Rightarrow> gostr \<Rightarrow> bool" where
  "SetHasDomain L ss setID host =
     (if setID = [] then False
      else let h = NormalizeDomain L host in
        if h = [] then False
        else if suffix_walk (\<lambda>name.
                  if (case ss_sets ss name of None \<Rightarrow> False | Some s \<Rightarrow> SetId s = setID) \<or>
                     (case multiSets ss name of None \<Rightarrow> False | Some cs \<Rightarrow> list_ex (\<lambda>s. SetId s = setID) cs)
                  then Some () else None) h \<noteq> None then True
        else list_ex (\<lambda>r. SetId (rx_set r) = setID \<and> regex r h) (regexes ss))"

subsection \<open>Addresses\<close>

definition ipVersionOf :: "bytes \<Rightarrow> nat" where
  "ipVersionOf ip = (if length ip = 4 then 4 else 6)"

text \<open>The stable sort by prefix length, longest first, then by configuration order.\<close>

definition sortEntriesBySpecificity :: "ipRange list \<Rightarrow> ipRange list" where
  "sortEntriesBySpecificity es = sort_key (\<lambda>e. - int (net_ones (ipNet e))) (sort_key rorder es)"

definition ContainingNetworks :: "netlib \<Rightarrow> SuffixSet \<Rightarrow> bytes \<Rightarrow> ipRange list option" where
  "ContainingNetworks N ss ip =
     map_option (List.map_filter (ipEntries ss)) (containing N (ipRanger ss) ip)"

definition match_ip_fresh :: "netlib \<Rightarrow> SuffixSet \<Rightarrow> bytes \<Rightarrow> match_result" where
  "match_ip_fresh N ss ip =
     (case ContainingNetworks N ss ip of
        None \<Rightarrow> None
      | Some [] \<Rightarrow> None
      | Some es \<Rightarrow> Some (hd (rsets (hd (sortEntriesBySpecificity es)))))"

definition MatchIP :: "netlib \<Rightarrow> SuffixSet \<Rightarrow> bytes \<Rightarrow> SuffixSet \<times> match_result" where
  "MatchIP N ss ip =
     (case lru_memo (match_ip_fresh N ss) (ipCache ss) ip of (c, r) \<Rightarrow> (ss\<lparr>ipCache := c\<rparr>, r))"

definition ip_candidates :: "netlib \<Rightarrow> SuffixSet \<Rightarrow> bytes \<Rightarrow> SetConfig list" where
  "ip_candidates N ss ip =
     (case ContainingNetworks N ss ip of
        None \<Rightarrow> []
      | Some es \<Rightarrow> concat (map rsets (sortEntriesBySpecificity es)))"

definition MatchIPWithSource :: "golib \<Rightarrow> netlib \<Rightarrow> SuffixSet \<Rightarrow> bytes \<Rightarrow> gostr \<Rightarrow> SetFilter list \<Rightarrow> match_result" where
  "MatchIPWithSource L N ss ip srcMAC keep =
     (let cs = ip_candidates N ss ip in
      if cs = [] then None else selectSetBySource L cs srcMAC (ipVersionOf ip) (joinFilters keep))"

definition bits_of :: "bytes \<Rightarrow> bool list" where
  "bits_of ip = concat (map (\<lambda>b. map (bit b) [7, 6, 5, 4, 3, 2, 1, 0]) ip)"

definition net_contains :: "IPNet \<Rightarrow> bytes \<Rightarrow> bool" where
  "net_contains n ip \<longleftrightarrow> length ip = length (net_ip n) \<and>
     take (net_ones n) (bits_of ip) = take (net_ones n) (bits_of (net_ip n))"

definition privateNets :: "IPNet list" where
  "privateNets =
     [\<lparr>net_ip = [10, 0, 0, 0], net_ones = 8\<rparr>, \<lparr>net_ip = [172, 16, 0, 0], net_ones = 12\<rparr>,
      \<lparr>net_ip = [192, 168, 0, 0], net_ones = 16\<rparr>, \<lparr>net_ip = [127, 0, 0, 0], net_ones = 8\<rparr>,
      \<lparr>net_ip = replicate 15 0 @ [1], net_ones = 128\<rparr>, \<lparr>net_ip = [0xfe, 0x80] @ replicate 14 0, net_ones = 10\<rparr>,
      \<lparr>net_ip = 0xfc # replicate 15 0, net_ones = 7\<rparr>]"

definition IsPrivateNet :: "IPNet \<Rightarrow> bool" where
  "IsPrivateNet n \<longleftrightarrow> list_ex (\<lambda>p. length (net_ip n) = length (net_ip p) \<and> net_ones n \<ge> net_ones p \<and>
     net_contains p (net_ip n)) privateNets"

definition ListsPrivateTCPTarget :: "golib \<Rightarrow> netlib \<Rightarrow> SuffixSet \<Rightarrow> bytes \<Rightarrow> gostr \<Rightarrow> 16 word \<Rightarrow> bool" where
  "ListsPrivateTCPTarget L N ss ip srcMAC dport =
     (case ContainingNetworks N ss ip of
        None \<Rightarrow> False
      | Some es \<Rightarrow> list_ex (\<lambda>r. IsPrivateNet (ipNet r) \<and>
          list_ex (\<lambda>s. \<not> (scoped s \<and> \<not> setMatchesSource L s srcMAC) \<and>
            MatchesIPVersion s (ipVersionOf ip) \<and> MatchesTCPDPort s dport) (rsets r)) es)"

subsection \<open>Learned addresses\<close>

definition LearnIPToDomain :: "SuffixSet \<Rightarrow> nat \<Rightarrow> bytes \<Rightarrow> gostr \<Rightarrow> SetConfig \<Rightarrow> SuffixSet" where
  "LearnIPToDomain ss now ip domain s =
     (if domain = [] then ss
      else if DomainOnly (Targets s) then ss
      else let c = learnedIPCache ss; e = \<lparr>le_domain = domain, le_set = s, learnedAt = now\<rparr> in
        ss\<lparr>learnedIPCache :=
          (case entries c ip of
             Some _ \<Rightarrow> lru_set (lru_touch c ip) ip e
           | None \<Rightarrow> lru_add c ip e)\<rparr>)"

definition refresh_learned :: "SuffixSet \<Rightarrow> nat \<Rightarrow> bytes \<Rightarrow> learnedIPEntry \<Rightarrow> SuffixSet" where
  "refresh_learned ss now ip e =
     ss\<lparr>learnedIPCache := lru_touch (lru_set (learnedIPCache ss) ip (e\<lparr>learnedAt := now\<rparr>)) ip\<rparr>"

definition expired :: "SuffixSet \<Rightarrow> nat \<Rightarrow> learnedIPEntry \<Rightarrow> bool" where
  "expired ss now e \<longleftrightarrow> int now - int (learnedAt e) > int (learnedIPTTL ss)"

definition MatchLearnedIP :: "SuffixSet \<Rightarrow> nat \<Rightarrow> bytes \<Rightarrow> SuffixSet \<times> (SetConfig \<times> gostr) option" where
  "MatchLearnedIP ss now ip =
     (case entries (learnedIPCache ss) ip of
        None \<Rightarrow> (ss, None)
      | Some e \<Rightarrow>
          if DomainOnly (Targets (le_set e)) then (ss, None)
          else if expired ss now e then (ss\<lparr>learnedIPCache := lru_remove (learnedIPCache ss) ip\<rparr>, None)
          else (refresh_learned ss now ip e, Some (le_set e, le_domain e)))"

text \<open>With and without filters the code takes two paths; \<open>keep\<close> is what \<^verbatim>\<open>joinFilters\<close> returns, nil on
  the first. On both an entry whose set does not fit the device, the IP version or the filter is
  looked up again by its domain.\<close>

definition match_learned ::
    "golib \<Rightarrow> SuffixSet \<Rightarrow> nat \<Rightarrow> bytes \<Rightarrow> nat \<Rightarrow> gostr \<Rightarrow> SetFilter \<Rightarrow> (SuffixSet \<times> (SetConfig \<times> gostr) option) option" where
  "match_learned L ss now ip ipv srcMAC keep =
     (case entries (learnedIPCache ss) ip of
        None \<Rightarrow> Some (ss, None)
      | Some e \<Rightarrow>
          if DomainOnly (Targets (le_set e)) then Some (ss, None)
          else if expired ss now e then Some (ss\<lparr>learnedIPCache := lru_remove (learnedIPCache ss) ip\<rparr>, None)
          else if \<not> setMatchesSource L (le_set e) srcMAC \<or> \<not> MatchesIPVersion (le_set e) ipv \<or> \<not> Keeps keep (le_set e)
          then do {
            r \<leftarrow> MatchSNIWithSourceTLS L ss (le_domain e) srcMAC 0 ipv [keep];
            Some (case r of
                    None \<Rightarrow> (ss, None)
                  | Some s \<Rightarrow> (refresh_learned ss now ip e, Some (s, le_domain e))) }
          else Some (refresh_learned ss now ip e, Some (le_set e, le_domain e)))"

definition MatchLearnedIPWithSource ::
    "golib \<Rightarrow> SuffixSet \<Rightarrow> nat \<Rightarrow> bytes \<Rightarrow> gostr \<Rightarrow> SetFilter list \<Rightarrow> (SuffixSet \<times> (SetConfig \<times> gostr) option) option" where
  "MatchLearnedIPWithSource L ss now ip srcMAC keep =
     match_learned L ss now ip (ipVersionOf ip) srcMAC (joinFilters keep)"

text \<open>The old matcher's entries in the order the map iteration yields them, \<open>ks\<close>.\<close>

fun transfer_entries :: "golib \<Rightarrow> nat \<Rightarrow> (bytes \<times> gostr) list \<Rightarrow> SuffixSet \<Rightarrow> SuffixSet option" where
  "transfer_entries L now [] ss = Some ss"
| "transfer_entries L now ((ip, domain) # es) ss = do {
     (ss, r) \<leftarrow> MatchSNI L ss domain;
     transfer_entries L now es (case r of None \<Rightarrow> ss | Some s \<Rightarrow> LearnIPToDomain ss now ip domain s) }"

definition TransferLearnedIPs :: "golib \<Rightarrow> SuffixSet \<Rightarrow> nat \<Rightarrow> SuffixSet \<Rightarrow> bytes list \<Rightarrow> SuffixSet option" where
  "TransferLearnedIPs L ss now old ks =
     transfer_entries L now
       (List.map_filter (\<lambda>ip. case entries (learnedIPCache old) ip of
            None \<Rightarrow> None
          | Some e \<Rightarrow> if int now - int (learnedAt e) \<le> int (learnedIPTTL old) then Some (ip, le_domain e) else None) ks)
       ss"

end
