(* ===== verification/Match_Names.thy ===== *)
theory Match_Names
  imports Matcher
begin

text \<open>
  The index that \<^verbatim>\<open>NewSuffixSet\<close> builds, against the configuration it was built from: which sets
  list a name, in which order, and which regular expressions are tried.
\<close>

subsection \<open>Names by label suffixes\<close>

function label_suffixes :: "gostr \<Rightarrow> gostr list" where
  "label_suffixes name =
     name # (case index_byte name 46 of None \<Rightarrow> [] | Some i \<Rightarrow> label_suffixes (drop (i + 1) name))"
  by pat_completeness auto
termination
  by (relation "measure length") (auto dest: index_byte_less)

declare label_suffixes.simps [simp del]

lemma suffix_walk_eq: "suffix_walk probe name = first_some probe (label_suffixes name)"
proof (induction "length name" arbitrary: name rule: less_induct)
  case less
  show ?case
  proof (cases "index_byte name 46")
    case None
    then show ?thesis by (simp add: suffix_walk.simps [of _ name] label_suffixes.simps [of name] split: option.splits)
  next
    case (Some i)
    have "suffix_walk probe (drop (i + 1) name) = first_some probe (label_suffixes (drop (i + 1) name))"
      using index_byte_less [OF Some] by (intro less.hyps) simp
    then show ?thesis
      using Some by (simp add: suffix_walk.simps [of _ name] label_suffixes.simps [of name] split: option.splits)
  qed
qed

text \<open>The suffixes are the name and what is behind each of its dots, longest first.\<close>

lemma label_suffixes_iff: "d \<in> set (label_suffixes name) \<longleftrightarrow> d = name \<or> (\<exists>x. name = x @ 46 # d)"
proof (induction "length name" arbitrary: name rule: less_induct)
  case less
  show ?case
  proof (cases "index_byte name 46")
    case None
    then have "46 \<notin> set name" by (simp add: index_byte_None)
    then show ?thesis using None by (auto simp: label_suffixes.simps [of name])
  next
    case (Some i)
    note i = index_byte_SomeD [OF Some]
    have n: "name = take i name @ 46 # drop (i + 1) name" using i by (metis Suc_eq_plus1 id_take_nth_drop)
    have ih: "d \<in> set (label_suffixes (drop (i + 1) name)) \<longleftrightarrow>
        d = drop (i + 1) name \<or> (\<exists>x. drop (i + 1) name = x @ 46 # d)"
      using i by (intro less.hyps) auto
    have "(\<exists>x. name = x @ 46 # d) \<longleftrightarrow> d = drop (i + 1) name \<or> (\<exists>x. drop (i + 1) name = x @ 46 # d)"
    proof
      assume "\<exists>x. name = x @ 46 # d"
      then obtain x where x: "name = x @ 46 # d" by blast
      have "46 \<notin> set (take i name)" using i by simp
      moreover have "46 \<in> set (take i name)" if "length x < i"
      proof -
        have "take i name ! length x = name ! length x" using that by simp
        also have "\<dots> = 46" by (simp add: x)
        finally show ?thesis using that i nth_mem [of "length x" "take i name"] by simp
      qed
      ultimately have "i \<le> length x" using not_le by blast
      then show "d = drop (i + 1) name \<or> (\<exists>x. drop (i + 1) name = x @ 46 # d)"
        using x by (cases "length x = i") (auto simp: Cons_nth_drop_Suc)
    next
      assume "d = drop (i + 1) name \<or> (\<exists>x. drop (i + 1) name = x @ 46 # d)"
      then show "\<exists>x. name = x @ 46 # d" using n by (metis append.assoc append_Cons)
    qed
    then show ?thesis using Some ih by (simp add: label_suffixes.simps [of name])
  qed
qed

lemma first_suffix_longest:
  assumes "first_some f (label_suffixes name) = Some r"
  shows "\<exists>d. f d = Some r \<and> (d = name \<or> (\<exists>x. name = x @ 46 # d)) \<and>
    (\<forall>d'. (d' = name \<or> (\<exists>x. name = x @ 46 # d')) \<and> length d < length d' \<longrightarrow> f d' = None)"
proof -
  have "f d' = None \<or> length d' \<le> length d" if
    "label_suffixes name = ys @ d # zs" "\<forall>v \<in> set ys. f v = None" "d' \<in> set (label_suffixes name)" for ys d zs d' name
    using that
  proof (induction "length name" arbitrary: name ys rule: less_induct)
    case less
    have shorter: "length e < length name \<or> e = name" if "e \<in> set (label_suffixes name)" for e
      using that by (auto simp: label_suffixes_iff)
    show ?case
    proof (cases ys)
      case Nil
      then have "d = name" using less.prems(1) by (simp add: label_suffixes.simps [of name])
      then show ?thesis using shorter [OF less.prems(3)] by auto
    next
      case (Cons y ys')
      then obtain i where i: "index_byte name 46 = Some i"
        and rest: "label_suffixes (drop (i + 1) name) = ys' @ d # zs" and y: "y = name"
      proof (cases "index_byte name 46")
        case None
        then have "label_suffixes name = [name]" by (simp add: label_suffixes.simps [of name])
        then show ?thesis using less.prems(1) Cons by simp
      next
        case (Some i)
        then have "label_suffixes name = name # label_suffixes (drop (i + 1) name)"
          by (simp add: label_suffixes.simps [of name])
        then have "label_suffixes (drop (i + 1) name) = ys' @ d # zs" "y = name"
          using less.prems(1) Cons by simp_all
        then show ?thesis using Some that by blast
      qed
      show ?thesis
      proof (cases "d' = name")
        case True
        then show ?thesis using less.prems(2) Cons y by simp
      next
        case False
        then have "d' \<in> set (label_suffixes (drop (i + 1) name))"
          using less.prems(3) i by (simp add: label_suffixes.simps [of name])
        then show ?thesis
          using less.hyps [of "drop (i + 1) name" ys'] index_byte_less [OF i] rest less.prems(2) Cons by auto
      qed
    qed
  qed
  moreover from first_some_SomeD [OF assms] obtain ys d zs where
    "label_suffixes name = ys @ d # zs" "f d = Some r" "\<forall>v \<in> set ys. f v = None" by blast
  moreover from this have "d \<in> set (label_suffixes name)" by simp
  ultimately show ?thesis by (metis label_suffixes_iff not_le)
qed

subsection \<open>What the configuration lists\<close>

definition entry_names :: "golib \<Rightarrow> gostr list \<Rightarrow> gostr list" where
  "entry_names L es = map fst (filter (\<lambda>(d, isRegex). d \<noteq> [] \<and> \<not> isRegex) (map (ParseDomainEntry L) es))"

definition entry_regexes :: "golib \<Rightarrow> gostr list \<Rightarrow> (gostr \<Rightarrow> bool) list" where
  "entry_regexes L es = List.map_filter (\<lambda>(d, isRegex). if d \<noteq> [] \<and> isRegex then re_compile L d else None)
     (map (ParseDomainEntry L) es)"

definition listed_names :: "golib \<Rightarrow> SetConfig \<Rightarrow> gostr list" where
  "listed_names L s = entry_names L (DomainsToMatch (Targets s))"

definition listed_regexes :: "golib \<Rightarrow> SetConfig \<Rightarrow> (gostr \<Rightarrow> bool) list" where
  "listed_regexes L s = entry_regexes L (DomainsToMatch (Targets s))"

text \<open>The sets that list a name, in configuration order, once for each time they list it.\<close>

definition listers :: "golib \<Rightarrow> SetConfig list \<Rightarrow> gostr \<Rightarrow> SetConfig list" where
  "listers L cfg d = concat (map (\<lambda>s. map (\<lambda>_. s) (filter (\<lambda>x. x = d) (listed_names L s))) (filter Enabled cfg))"

definition regex_rules :: "golib \<Rightarrow> SetConfig list \<Rightarrow> (SetConfig \<times> (gostr \<Rightarrow> bool)) list" where
  "regex_rules L cfg = concat (map (\<lambda>s. map (Pair s) (listed_regexes L s)) (filter Enabled cfg))"

lemma listers_append: "listers L (xs @ ys) d = listers L xs d @ listers L ys d"
  by (simp add: listers_def)

lemma regex_rules_append: "regex_rules L (xs @ ys) = regex_rules L xs @ regex_rules L ys"
  by (simp add: regex_rules_def)

lemma set_listers: "s \<in> set (listers L cfg d) \<longleftrightarrow> s \<in> set cfg \<and> Enabled s \<and> d \<in> set (listed_names L s)"
  by (auto simp: listers_def)

lemma first_lister: "listers L cfg d = s # rest \<Longrightarrow>
    List.find (\<lambda>s. Enabled s \<and> d \<in> set (listed_names L s)) cfg = Some s"
proof (induction cfg)
  case (Cons c cfg)
  show ?case
  proof (cases "Enabled c \<and> d \<in> set (listed_names L c)")
    case True
    then have "filter (\<lambda>x. x = d) (listed_names L c) \<noteq> []" by (simp add: filter_empty_conv)
    then obtain y ys where "filter (\<lambda>x. x = d) (listed_names L c) = y # ys" by (meson neq_Nil_conv)
    then show ?thesis using Cons.prems True by (simp add: listers_def)
  next
    case False
    then have "listers L (c # cfg) d = listers L cfg d" by (auto simp: listers_def filter_empty_conv)
    then show ?thesis using Cons False by auto
  qed
qed (simp add: listers_def)

subsection \<open>The index of names\<close>

definition names_inv :: "SuffixSet \<Rightarrow> (gostr \<Rightarrow> SetConfig list) \<Rightarrow> bool" where
  "names_inv ss X \<longleftrightarrow> (\<forall>d. ss_sets ss d = (case X d of [] \<Rightarrow> None | s # _ \<Rightarrow> Some s) \<and>
     multiSets ss d = (if length (X d) \<ge> 2 then Some (X d) else None))"

lemma add_name_inv: "names_inv ss X \<Longrightarrow> names_inv (add_name s ss d) (X(d := X d @ [s]))"
proof -
  assume inv: "names_inv ss X"
  consider "X d = []" | a where "X d = [a]" | a b cs where "X d = a # b # cs"
    by (metis list.exhaust)
  then show ?thesis
    using inv by cases (auto simp: names_inv_def add_name_def)
qed

lemma candidates_at_eq: "names_inv ss X \<Longrightarrow> candidates_at ss d = (if X d = [] then None else Some (X d))"
proof -
  assume inv: "names_inv ss X"
  consider "X d = []" | a where "X d = [a]" | a b cs where "X d = a # b # cs"
    by (metis list.exhaust)
  then show ?thesis
    using inv by cases (auto simp: names_inv_def candidates_at_def)
qed

subsection \<open>The list of regular expressions\<close>

text \<open>A set that repeats an expression is recorded once; no search for a first match can tell.\<close>

definition same_first :: "'a list \<Rightarrow> 'a list \<Rightarrow> bool" where
  "same_first xs ys \<longleftrightarrow> (\<forall>Q. List.find Q xs = List.find Q ys)"

lemma find_append: "List.find Q (xs @ ys) = (case List.find Q xs of Some x \<Rightarrow> Some x | None \<Rightarrow> List.find Q ys)"
  by (induction xs) auto

lemma same_first_snoc: "same_first xs ys \<Longrightarrow> same_first (xs @ [x]) (ys @ [x])"
  by (simp add: same_first_def find_append)

lemma same_first_dup:
  assumes "same_first xs ys" and "x \<in> set ys"
  shows "same_first xs (ys @ [x])"
proof -
  have "List.find Q (ys @ [x]) = List.find Q ys" for Q
  proof (cases "List.find Q ys")
    case None
    then have "\<not> Q x" using assms(2) by (simp add: find_None)
    with None show ?thesis by (simp add: find_append)
  qed (simp add: find_append)
  then show ?thesis using assms(1) by (simp add: same_first_def)
qed

definition rules_of :: "regexWithSet list \<Rightarrow> (SetConfig \<times> (gostr \<Rightarrow> bool)) list" where
  "rules_of rs = map (\<lambda>r. (rx_set r, regex r)) rs"

definition regex_inv :: "golib \<Rightarrow> SetConfig list \<Rightarrow> builder \<Rightarrow> (SetConfig \<times> (gostr \<Rightarrow> bool)) list \<Rightarrow> bool" where
  "regex_inv L cfg b U \<longleftrightarrow>
     (\<forall>r \<in> set (regexes (b_ss b)). pattern r < length (patterns b) \<and> patterns b ! pattern r = regex r) \<and>
     (\<forall>d i. patternIndex b d = Some (Some i) \<longrightarrow> i < length (patterns b) \<and> re_compile L d = Some (patterns b ! i)) \<and>
     (\<forall>d. patternIndex b d = Some None \<longrightarrow> re_compile L d = None) \<and>
     same_first (rules_of (regexes (b_ss b))) U \<and>
     (\<forall>p d. (p, d) \<in> set (seenRegexes b) \<longrightarrow>
       (\<exists>s \<in> set cfg. set_ptr s = p \<and> (\<forall>m. re_compile L d = Some m \<longrightarrow> (s, m) \<in> set U)))"

lemma regex_invI:
  assumes "\<And>r. r \<in> set (regexes (b_ss b)) \<Longrightarrow> pattern r < length (patterns b) \<and> patterns b ! pattern r = regex r"
    and "\<And>d i. patternIndex b d = Some (Some i) \<Longrightarrow> i < length (patterns b) \<and> re_compile L d = Some (patterns b ! i)"
    and "\<And>d. patternIndex b d = Some None \<Longrightarrow> re_compile L d = None"
    and "same_first (rules_of (regexes (b_ss b))) U"
    and "\<And>p d. (p, d) \<in> set (seenRegexes b) \<Longrightarrow>
       \<exists>s \<in> set cfg. set_ptr s = p \<and> (\<forall>m. re_compile L d = Some m \<longrightarrow> (s, m) \<in> set U)"
  shows "regex_inv L cfg b U"
  using assms unfolding regex_inv_def by blast

lemma regex_invD:
  assumes "regex_inv L cfg b U"
  shows "r \<in> set (regexes (b_ss b)) \<Longrightarrow> pattern r < length (patterns b) \<and> patterns b ! pattern r = regex r"
    and "patternIndex b d = Some (Some i) \<Longrightarrow> i < length (patterns b) \<and> re_compile L d = Some (patterns b ! i)"
    and "patternIndex b d = Some None \<Longrightarrow> re_compile L d = None"
    and "same_first (rules_of (regexes (b_ss b))) U"
    and "(p, d) \<in> set (seenRegexes b) \<Longrightarrow>
       \<exists>s \<in> set cfg. set_ptr s = p \<and> (\<forall>m. re_compile L d = Some m \<longrightarrow> (s, m) \<in> set U)"
  using assms unfolding regex_inv_def by blast+

lemma intern_pattern_ok:
  assumes inv: "regex_inv L cfg b U" and r: "intern_pattern L b d = (b', i)"
  shows "regex_inv L cfg b' U \<and>
    (case i of None \<Rightarrow> re_compile L d = None
     | Some k \<Rightarrow> k < length (patterns b') \<and> re_compile L d = Some (patterns b' ! k))"
proof (cases "patternIndex b d")
  case (Some j)
  then have "b' = b" "i = j" using r by (auto simp: intern_pattern_def)
  then show ?thesis using inv regex_invD(2,3) [OF inv] Some by (auto split: option.splits)
next
  case None
  show ?thesis
  proof (cases "re_compile L d")
    case c: None
    then have b': "b' = b\<lparr>patternIndex := (patternIndex b)(d \<mapsto> None)\<rparr>" "i = None"
      using r None by (auto simp: intern_pattern_def)
    have "regex_inv L cfg b' U"
      by (rule regex_invI) (use regex_invD [OF inv] c in \<open>auto simp: b' split: if_splits\<close>)
    then show ?thesis using c by (simp add: b')
  next
    case (Some re)
    then have b': "b' = b\<lparr>patterns := patterns b @ [re], patternIndex := (patternIndex b)(d \<mapsto> Some (length (patterns b)))\<rparr>"
        "i = Some (length (patterns b))"
      using r None by (auto simp: intern_pattern_def)
    have "regex_inv L cfg b' U"
    proof (rule regex_invI)
      show "pattern r < length (patterns b') \<and> patterns b' ! pattern r = regex r" if "r \<in> set (regexes (b_ss b'))" for r
        using regex_invD(1) [OF inv, of r] that by (simp add: b' nth_append)
      show "k < length (patterns b') \<and> re_compile L e = Some (patterns b' ! k)" if "patternIndex b' e = Some (Some k)" for e k
        using regex_invD(2) [OF inv, of e k] that Some by (auto simp: b' nth_append split: if_splits)
    qed (use regex_invD(3-5) [OF inv] in \<open>auto simp: b' split: if_splits\<close>)
    then show ?thesis using Some by (simp add: b')
  qed
qed

lemma intern_pattern_keeps:
  "intern_pattern L b d = (b', i) \<Longrightarrow> b_ss b' = b_ss b \<and> seenRegexes b' = seenRegexes b"
  by (auto simp: intern_pattern_def split: option.splits)

lemma regex_inv_grow:
  assumes inv: "regex_inv L cfg b U" and f: "same_first (rules_of (regexes (b_ss b))) (U @ V)"
  shows "regex_inv L cfg b (U @ V)"
proof (rule regex_invI)
  show "\<exists>s \<in> set cfg. set_ptr s = p \<and> (\<forall>m. re_compile L d = Some m \<longrightarrow> (s, m) \<in> set (U @ V))"
    if "(p, d) \<in> set (seenRegexes b)" for p d
    using regex_invD(5) [OF inv that] by auto
qed (use regex_invD(1-3) [OF inv] f in auto)

lemma add_regex_ok:
  assumes inv: "regex_inv L cfg b U" and s: "s \<in> set cfg" "distinct (map set_ptr cfg)"
    and r: "add_regex L s b d = (b', n)"
  shows "regex_inv L cfg b' (U @ (case re_compile L d of None \<Rightarrow> [] | Some m \<Rightarrow> [(s, m)]))"
proof (cases "(set_ptr s, d) \<in> set (seenRegexes b)")
  case True
  then have b': "b' = b" using r by (simp add: add_regex_def)
  from regex_invD(5) [OF inv True] obtain s' where s': "s' \<in> set cfg" "set_ptr s' = set_ptr s"
      "\<forall>m. re_compile L d = Some m \<longrightarrow> (s', m) \<in> set U" by blast
  then have "s' = s" using s by (metis distinct_map inj_on_eq_iff)
  then have "same_first (rules_of (regexes (b_ss b))) (U @ (case re_compile L d of None \<Rightarrow> [] | Some m \<Rightarrow> [(s, m)]))"
    using regex_invD(4) [OF inv] s'(3) by (auto intro: same_first_dup split: option.splits)
  then show ?thesis unfolding b' by (rule regex_inv_grow [OF inv])
next
  case False
  let ?b = "b\<lparr>seenRegexes := (set_ptr s, d) # seenRegexes b\<rparr>"
  let ?V = "case re_compile L d of None \<Rightarrow> [] | Some m \<Rightarrow> [(s, m)]"
  obtain b1 i where i: "intern_pattern L ?b d = (b1, i)" by (cases "intern_pattern L ?b d")
  obtain b2 where b2: "intern_pattern L b d = (b2, i)" "b1 = b2\<lparr>seenRegexes := (set_ptr s, d) # seenRegexes b2\<rparr>"
    using i by (auto simp: intern_pattern_def split: option.splits)
  have inv2: "regex_inv L cfg b2 U" and k: "case i of None \<Rightarrow> re_compile L d = None
     | Some k \<Rightarrow> k < length (patterns b2) \<and> re_compile L d = Some (patterns b2 ! k)"
    using intern_pattern_ok [OF inv b2(1)] by auto
  have seen: "\<exists>s' \<in> set cfg. set_ptr s' = p \<and> (\<forall>m. re_compile L e = Some m \<longrightarrow> (s', m) \<in> set (U @ ?V))"
    if "(p, e) \<in> set (seenRegexes b1)" for p e
  proof (cases "(p, e) = (set_ptr s, d)")
    case True
    then show ?thesis using s(1) by (intro bexI [of _ s]) auto
  next
    case False
    then show ?thesis using regex_invD(5) [OF inv2, of p e] that by (auto simp: b2(2))
  qed
  show ?thesis
  proof (cases i)
    case None
    then have "b' = b1" "?V = []" using r False i k by (auto simp: add_regex_def)
    then show ?thesis
      by (intro regex_invI) (use regex_invD [OF inv2] seen in \<open>auto simp: b2(2)\<close>)
  next
    case (Some j)
    define rw where "rw = \<lparr>regex = patterns b2 ! j, rx_set = s, pattern = j\<rparr>"
    have b': "b' = b1\<lparr>b_ss := (b_ss b2)\<lparr>regexes := regexes (b_ss b2) @ [rw]\<rparr>\<rparr>"
      using r False i Some by (simp add: add_regex_def rw_def b2(2))
    have j: "j < length (patterns b2)" "?V = [(s, patterns b2 ! j)]" using k Some by auto
    have f: "same_first (rules_of (regexes (b_ss b2)) @ [(s, patterns b2 ! j)]) (U @ ?V)"
      using regex_invD(4) [OF inv2] unfolding j(2) by (rule same_first_snoc)
    show ?thesis
    proof (rule regex_invI)
      show "same_first (rules_of (regexes (b_ss b'))) (U @ ?V)" using f by (simp add: b' rules_of_def rw_def)
      show "\<exists>s' \<in> set cfg. set_ptr s' = p \<and> (\<forall>m. re_compile L e = Some m \<longrightarrow> (s', m) \<in> set (U @ ?V))"
        if "(p, e) \<in> set (seenRegexes b')" for p e
        using that by (intro seen) (simp add: b')
    qed (use regex_invD(1-3) [OF inv2] j in \<open>auto simp: b' b2(2) rw_def\<close>)
  qed
qed

lemma add_regex_keeps:
  "add_regex L s b d = (b', n) \<Longrightarrow> ss_sets (b_ss b') = ss_sets (b_ss b) \<and> multiSets (b_ss b') = multiSets (b_ss b)"
  by (auto simp: add_regex_def Let_def split: if_splits option.splits prod.splits dest!: intern_pattern_keeps)

subsection \<open>The index of a whole configuration\<close>

lemma entry_simps:
  "entry_names L [] = []" "entry_regexes L [] = []"
  "ParseDomainEntry L e = (d, r) \<Longrightarrow> entry_names L (e # es) = (if d \<noteq> [] \<and> \<not> r then [d] else []) @ entry_names L es"
  "ParseDomainEntry L e = (d, r) \<Longrightarrow> entry_regexes L (e # es) =
     (if d \<noteq> [] \<and> r then (case re_compile L d of None \<Rightarrow> [] | Some m \<Rightarrow> [m]) else []) @ entry_regexes L es"
  by (auto simp: entry_names_def entry_regexes_def map_filter_simps split: option.splits)

lemma add_domains_ok:
  assumes s: "s \<in> set cfg" "distinct (map set_ptr cfg)"
  shows "names_inv (b_ss b) X \<Longrightarrow> regex_inv L cfg b U \<Longrightarrow> add_domains L s es b named = (b', n) \<Longrightarrow>
    names_inv (b_ss b') (\<lambda>d. X d @ map (\<lambda>_. s) (filter (\<lambda>x. x = d) (entry_names L es))) \<and>
    regex_inv L cfg b' (U @ map (Pair s) (entry_regexes L es))"
proof (induction es arbitrary: b X U named)
  case Nil
  then show ?case by (simp add: entry_simps)
next
  case (Cons e es)
  obtain d r where p: "ParseDomainEntry L e = (d, r)" by (cases "ParseDomainEntry L e")
  consider "d = []" | "d \<noteq> []" "r" | "d \<noteq> []" "\<not> r" by blast
  then show ?case
  proof cases
    case 1
    then have "add_domains L s es b named = (b', n)" using Cons.prems(3) by (simp add: p)
    from Cons.IH [OF Cons.prems(1,2) this] 1 show ?thesis by (simp add: entry_simps(3,4) [OF p])
  next
    case 2
    obtain b1 k where a: "add_regex L s b d = (b1, k)" by (cases "add_regex L s b d")
    have "names_inv (b_ss b1) X" using Cons.prems(1) add_regex_keeps [OF a] by (simp add: names_inv_def)
    moreover note add_regex_ok [OF Cons.prems(2) s a]
    moreover have "add_domains L s es b1 (named \<or> k) = (b', n)" using Cons.prems(3) 2 a by (simp add: p)
    ultimately show ?thesis
      using 2 Cons.IH by (fastforce simp: entry_simps(3,4) [OF p] split: option.splits)
  next
    case 3
    let ?b = "b\<lparr>b_ss := add_name s (b_ss b) d\<rparr>"
    have "names_inv (b_ss ?b) (X(d := X d @ [s]))" using add_name_inv [OF Cons.prems(1)] by simp
    moreover have "regexes (add_name s (b_ss b) d) = regexes (b_ss b)"
      by (simp add: add_name_def split: option.splits)
    then have "regex_inv L cfg ?b U"
      by (intro regex_invI) (use regex_invD [OF Cons.prems(2)] in auto)
    moreover have "add_domains L s es ?b True = (b', n)" using Cons.prems(3) 3 by (simp add: p)
    ultimately have "names_inv (b_ss b') (\<lambda>x. (X(d := X d @ [s])) x @ map (\<lambda>_. s) (filter (\<lambda>y. y = x) (entry_names L es)))"
        "regex_inv L cfg b' (U @ map (Pair s) (entry_regexes L es))"
      using Cons.IH by blast+
    moreover have "(\<lambda>x. (X(d := X d @ [s])) x @ map (\<lambda>_. s) (filter (\<lambda>y. y = x) (entry_names L es))) =
        (\<lambda>x. X x @ map (\<lambda>_. s) (filter (\<lambda>y. y = x) (entry_names L (e # es))))"
      using 3 by (auto simp: entry_simps(3) [OF p])
    ultimately show ?thesis using 3 by (simp add: entry_simps(4) [OF p])
  qed
qed

lemma add_network_keeps:
  "ss_sets (add_network N ord s ss x) = ss_sets ss \<and> multiSets (add_network N ord s ss x) = multiSets ss \<and>
   regexes (add_network N ord s ss x) = regexes ss"
  by (simp add: add_network_def split: option.splits)

lemma add_networks_keep:
  "ss_sets (foldl (add_network N ord s) ss xs) = ss_sets ss \<and> multiSets (foldl (add_network N ord s) ss xs) = multiSets ss \<and>
   regexes (foldl (add_network N ord s) ss xs) = regexes ss"
  by (induction xs arbitrary: ss) (simp_all add: add_network_keeps)

lemma add_ports_keeps:
  "ss_sets (add_ports L s ss) = ss_sets ss \<and> multiSets (add_ports L s ss) = multiSets ss \<and> regexes (add_ports L s ss) = regexes ss"
  by (simp add: add_ports_def Let_def)

lemma note_set_keeps:
  "ss_sets (note_set ord s ss) = ss_sets ss \<and> multiSets (note_set ord s ss) = multiSets ss \<and>
   regexes (note_set ord s ss) = regexes ss"
  by (simp add: note_set_def Let_def)

lemma regex_inv_ss: "regex_inv L cfg b U \<Longrightarrow> regexes ss = regexes (b_ss b) \<Longrightarrow> regex_inv L cfg (b\<lparr>b_ss := ss\<rparr>) U"
  by (intro regex_invI) (auto dest: regex_invD)

lemma add_set_ok:
  assumes s: "s \<in> set cfg" "distinct (map set_ptr cfg)"
    and inv: "names_inv (b_ss b) X" "regex_inv L cfg b U"
  shows "names_inv (b_ss (add_set L N b (ord, s))) (\<lambda>d. X d @ listers L [s] d) \<and>
    regex_inv L cfg (add_set L N b (ord, s)) (U @ regex_rules L [s])"
proof (cases "Enabled s")
  case True
  define b0 where "b0 = b\<lparr>b_ss := note_set ord s (b_ss b)\<rparr>"
  obtain b1 n where a: "add_domains L s (DomainsToMatch (Targets s)) b0 False = (b1, n)"
    by (cases "add_domains L s (DomainsToMatch (Targets s)) b0 False")
  have "names_inv (b_ss b0) X" using inv(1) note_set_keeps [of ord s "b_ss b"] by (simp add: names_inv_def b0_def)
  moreover have "regex_inv L cfg b0 U"
    unfolding b0_def using inv(2) note_set_keeps [of ord s "b_ss b"] by (intro regex_inv_ss) auto
  ultimately have r: "names_inv (b_ss b1) (\<lambda>d. X d @ listers L [s] d)" "regex_inv L cfg b1 (U @ regex_rules L [s])"
    using add_domains_ok [OF s _ _ a] True by (simp_all add: listers_def regex_rules_def listed_names_def listed_regexes_def)
  define ss where "ss = add_ports L s (foldl (add_network N ord s)
      (if n then (b_ss b1)\<lparr>nameSets := nameSets (b_ss b1) @ [s]\<rparr> else b_ss b1) (IpsToMatch (Targets s)))"
  have k: "ss_sets ss = ss_sets (b_ss b1)" "multiSets ss = multiSets (b_ss b1)" "regexes ss = regexes (b_ss b1)"
    by (auto simp: ss_def add_ports_keeps add_networks_keep)
  have "add_set L N b (ord, s) = b1\<lparr>b_ss := ss\<rparr>"
    using True a by (simp add: add_set_def b0_def ss_def Let_def)
  then show ?thesis using r k regex_inv_ss [OF r(2) k(3)] by (simp add: names_inv_def)
qed (use inv in \<open>simp add: add_set_def listers_def regex_rules_def\<close>)

lemma foldl_add_set_ok:
  assumes "distinct (map set_ptr cfg)" and "set xs \<subseteq> set cfg"
  shows "names_inv (b_ss b) X \<Longrightarrow> regex_inv L cfg b U \<Longrightarrow>
    names_inv (b_ss (foldl (add_set L N) b (enumerate k xs))) (\<lambda>d. X d @ listers L xs d) \<and>
    regex_inv L cfg (foldl (add_set L N) b (enumerate k xs)) (U @ regex_rules L xs)"
  using assms(2)
proof (induction xs arbitrary: k b X U)
  case Nil
  then show ?case by (simp add: listers_def regex_rules_def)
next
  case (Cons s xs)
  have "s \<in> set cfg" using Cons.prems(3) by simp
  note one = add_set_ok [OF this assms(1) Cons.prems(1,2), of N k]
  have "listers L (s # xs) d = listers L [s] d @ listers L xs d" for d using listers_append [of L "[s]" xs] by simp
  moreover have "regex_rules L (s # xs) = regex_rules L [s] @ regex_rules L xs" using regex_rules_append [of L "[s]" xs] by simp
  moreover have "set xs \<subseteq> set cfg" using Cons.prems(3) by simp
  ultimately show ?case using Cons.IH [OF conjunct1 [OF one] conjunct2 [OF one]] by simp
qed

definition regex_index_ok :: "SuffixSet \<Rightarrow> bool" where
  "regex_index_ok ss \<longleftrightarrow> (\<forall>r \<in> set (regexes ss). pattern r < regexPatterns ss) \<and>
     (\<forall>r \<in> set (regexes ss). \<forall>r' \<in> set (regexes ss). pattern r = pattern r' \<longrightarrow> regex r = regex r')"

lemma NewSuffixSet_index:
  assumes "distinct (map set_ptr cfg)"
  shows "names_inv (NewSuffixSet L N cfg) (listers L cfg)"
    and "same_first (rules_of (regexes (NewSuffixSet L N cfg))) (regex_rules L cfg)"
    and "regex_index_ok (NewSuffixSet L N cfg)"
proof -
  let ?b0 = "\<lparr>b_ss = empty_matcher cfg, seenRegexes = [], patternIndex = Map.empty, patterns = []\<rparr>"
  define b where "b = foldl (add_set L N) ?b0 (enumerate 0 cfg)"
  have "names_inv (b_ss ?b0) (\<lambda>_. [])" by (simp add: names_inv_def empty_matcher_def)
  moreover have "regex_inv L cfg ?b0 []" by (simp add: regex_inv_def empty_matcher_def rules_of_def same_first_def)
  ultimately have r: "names_inv (b_ss b) (listers L cfg)" "regex_inv L cfg b (regex_rules L cfg)"
    using foldl_add_set_ok [OF assms subset_refl, of ?b0 "\<lambda>_. []" L "[]" N 0] by (auto simp: b_def)
  have e: "NewSuffixSet L N cfg = (b_ss b)\<lparr>regexPatterns := length (patterns b)\<rparr>"
    by (simp add: NewSuffixSet_def b_def Let_def)
  show "names_inv (NewSuffixSet L N cfg) (listers L cfg)" using r(1) by (simp add: e names_inv_def)
  show "same_first (rules_of (regexes (NewSuffixSet L N cfg))) (regex_rules L cfg)"
    using regex_invD(4) [OF r(2)] by (simp add: e)
  show "regex_index_ok (NewSuffixSet L N cfg)"
    using regex_invD(1) [OF r(2)] unfolding regex_index_ok_def e by (simp, metis)
qed

end
