(* ===== verification/Match_State.thy ===== *)
theory Match_State
  imports Match_Names
begin

text \<open>
  The matcher at work: a matcher in use is one that was built from a configuration and has since
  answered queries and learned addresses, in any order. The invariant is that its index is
  the one it was built with and that every cache is within its limit and agrees with the
  computation it stands for; the answers are therefore those of the configuration.
\<close>

subsection \<open>Scanning the regular expressions\<close>

definition mm_cell :: "regexWithSet \<Rightarrow> gostr \<Rightarrow> int \<Rightarrow> bool" where
  "mm_cell r host x \<longleftrightarrow> x = 0 \<or> x = (if regex r host then 1 else - 1)"

definition mm_ok :: "regexWithSet list \<Rightarrow> gostr \<Rightarrow> nat \<Rightarrow> int list \<Rightarrow> bool" where
  "mm_ok R host n mm \<longleftrightarrow> length mm = n \<and> (\<forall>r \<in> set R. mm_cell r host (mm ! pattern r))"

lemma regex_index_okD:
  assumes "regex_index_ok ss" and "r \<in> set (regexes ss)"
  shows "pattern r < regexPatterns ss"
    and "r' \<in> set (regexes ss) \<Longrightarrow> pattern r = pattern r' \<Longrightarrow> regex r = regex r'"
  using assms unfolding regex_index_ok_def by blast+

lemma rx_matches_ok:
  assumes ok: "regex_index_ok ss" and r: "r \<in> set (regexes ss)" and mm: "mm_ok (regexes ss) host (regexPatterns ss) mm"
  shows "\<exists>mm'. rx_matches r host mm = Some (mm', regex r host) \<and> mm_ok (regexes ss) host (regexPatterns ss) mm'"
proof -
  have p: "pattern r < length mm" using regex_index_okD(1) [OF ok r] mm by (simp add: mm_ok_def)
  define v :: int where "v = (if regex r host then 1 else - 1)"
  define mm' where "mm' = (if mm ! pattern r = 0 then mm[pattern r := v] else mm)"
  have "mm_cell r host (mm ! pattern r)" using mm r by (simp add: mm_ok_def)
  then have v: "mm' ! pattern r = v" using p by (auto simp: mm_cell_def mm'_def v_def)
  have "rx_matches r host mm = Some (mm', mm' ! pattern r > 0)"
    using p unfolding rx_matches_def mm'_def v_def Let_def by (simp only: if_True)
  then have "rx_matches r host mm = Some (mm', regex r host)" unfolding v by (simp add: v_def)
  moreover have "mm_cell x host (mm' ! pattern x)" if x: "x \<in> set (regexes ss)" for x
  proof (cases "pattern x = pattern r")
    case True
    then have "regex x = regex r" by (rule regex_index_okD(2) [OF ok x r])
    then show ?thesis using True v by (simp add: v_def mm_cell_def)
  next
    case False
    then have "mm' ! pattern x = mm ! pattern x" by (simp add: mm'_def)
    then show ?thesis using mm x by (simp add: mm_ok_def)
  qed
  moreover have "length mm' = regexPatterns ss" using mm by (simp add: mm_ok_def mm'_def)
  ultimately show ?thesis unfolding mm_ok_def by blast
qed

lemma regexMemo_ok: "regex_index_ok ss \<Longrightarrow> mm_ok (regexes ss) host (regexPatterns ss) (regexMemo ss)"
  using regex_index_okD(1) [of ss] by (simp add: mm_ok_def mm_cell_def regexMemo_def)

lemma first_regex_eq:
  assumes ok: "regex_index_ok ss"
  shows "set rs \<subseteq> set (regexes ss) \<Longrightarrow> mm_ok (regexes ss) host (regexPatterns ss) mm \<Longrightarrow>
    first_regex pre post host mm rs = Some (map_option fst (List.find (\<lambda>(s, m). pre s \<and> m host \<and> post s) (rules_of rs)))"
proof (induction rs arbitrary: mm)
  case Nil
  then show ?case by (simp add: rules_of_def)
next
  case (Cons r rs)
  show ?case
  proof (cases "pre (rx_set r)")
    case True
    obtain mm' where "rx_matches r host mm = Some (mm', regex r host)" "mm_ok (regexes ss) host (regexPatterns ss) mm'"
      using rx_matches_ok [OF ok, of r host mm] Cons.prems by auto
    then show ?thesis using True Cons.IH [of mm'] Cons.prems(1) by (simp add: rules_of_def)
  qed (use Cons in \<open>simp add: rules_of_def\<close>)
qed

lemma all_regexes_eq:
  assumes ok: "regex_index_ok ss"
  shows "set rs \<subseteq> set (regexes ss) \<Longrightarrow> mm_ok (regexes ss) host (regexPatterns ss) mm \<Longrightarrow>
    all_regexes host mm rs = Some (map fst (filter (\<lambda>(s, m). m host) (rules_of rs)))"
proof (induction rs arbitrary: mm)
  case Nil
  then show ?case by (simp add: rules_of_def)
next
  case (Cons r rs)
  obtain mm' where "rx_matches r host mm = Some (mm', regex r host)" "mm_ok (regexes ss) host (regexPatterns ss) mm'"
    using rx_matches_ok [OF ok, of r host mm] Cons.prems by auto
  then show ?case using Cons.IH [of mm'] Cons.prems(1) by (simp add: rules_of_def)
qed

lemma find_map_filter: "List.find P (map fst (filter Q xs)) = map_option fst (List.find (\<lambda>x. Q x \<and> P (fst x)) xs)"
  by (induction xs) auto

lemma filter_Nil_find: "filter Q xs = [] \<longleftrightarrow> List.find Q xs = None"
  by (induction xs) auto

lemma same_first_select:
  assumes "same_first xs ys"
  shows "select_pass L (map fst (filter Q xs)) mac t v k = select_pass L (map fst (filter Q ys)) mac t v k"
    and "map fst (filter Q xs) = [] \<longleftrightarrow> map fst (filter Q ys) = []"
proof -
  have f: "List.find Q xs = List.find Q ys" for Q using assms by (simp add: same_first_def)
  show "select_pass L (map fst (filter Q xs)) mac t v k = select_pass L (map fst (filter Q ys)) mac t v k"
    unfolding select_pass_def find_map_filter f ..
  show "map fst (filter Q xs) = [] \<longleftrightarrow> map fst (filter Q ys) = []"
    by (simp add: filter_Nil_find f)
qed

subsection \<open>What the configuration says about a name\<close>

definition name_owner :: "golib \<Rightarrow> SetConfig list \<Rightarrow> gostr \<Rightarrow> SetConfig option" where
  "name_owner L cfg d = List.find (\<lambda>s. Enabled s \<and> d \<in> set (listed_names L s)) cfg"

definition regex_owner :: "golib \<Rightarrow> SetConfig list \<Rightarrow> gostr \<Rightarrow> SetConfig option" where
  "regex_owner L cfg host = map_option fst (List.find (\<lambda>(s, m). m host) (regex_rules L cfg))"

definition sni_owner :: "golib \<Rightarrow> SetConfig list \<Rightarrow> gostr \<Rightarrow> SetConfig option" where
  "sni_owner L cfg host =
     (let h = NormalizeDomain L host in
      if h = [] then None
      else case first_some (name_owner L cfg) (label_suffixes h) of
        Some s \<Rightarrow> Some s
      | None \<Rightarrow> regex_owner L cfg h)"

lemma name_owner_index:
  assumes "names_inv ss (listers L cfg)"
  shows "ss_sets ss = name_owner L cfg"
proof
  fix d
  show "ss_sets ss d = name_owner L cfg d"
  proof (cases "listers L cfg d")
    case Nil
    then have "\<forall>s \<in> set cfg. \<not> (Enabled s \<and> d \<in> set (listed_names L s))"
      using set_listers [of _ L cfg d] by auto
    then have "name_owner L cfg d = None" unfolding name_owner_def find_None .
    moreover have "ss_sets ss d = None" using assms Nil by (simp add: names_inv_def)
    ultimately show ?thesis by simp
  next
    case (Cons s rest)
    then show ?thesis using assms first_lister [OF Cons] by (simp add: names_inv_def name_owner_def)
  qed
qed

subsection \<open>Matchers in use\<close>

inductive matcher_reach :: "golib \<Rightarrow> netlib \<Rightarrow> SetConfig list \<Rightarrow> SuffixSet \<Rightarrow> bool" for L N cfg where
  build: "matcher_reach L N cfg (NewSuffixSet L N cfg)"
| keep: "matcher_reach L N cfg ss \<Longrightarrow> matcher_reach L N cfg (KeepNameSets ss f)"
| sni: "matcher_reach L N cfg ss \<Longrightarrow> MatchSNI L ss host = Some (ss', r) \<Longrightarrow> matcher_reach L N cfg ss'"
| ip: "matcher_reach L N cfg ss \<Longrightarrow> MatchIP N ss ip = (ss', r) \<Longrightarrow> matcher_reach L N cfg ss'"
| learn: "matcher_reach L N cfg ss \<Longrightarrow> matcher_reach L N cfg (LearnIPToDomain ss now ip domain s)"
| learned: "matcher_reach L N cfg ss \<Longrightarrow> MatchLearnedIP ss now ip = (ss', q) \<Longrightarrow> matcher_reach L N cfg ss'"
| learned_source: "matcher_reach L N cfg ss \<Longrightarrow> MatchLearnedIPWithSource L ss now ip mac fs = Some (ss', q) \<Longrightarrow>
    matcher_reach L N cfg ss'"
| transfer: "matcher_reach L N cfg ss \<Longrightarrow> TransferLearnedIPs L ss now old ks = Some ss' \<Longrightarrow> matcher_reach L N cfg ss'"

definition static_of :: "SuffixSet \<Rightarrow> SuffixSet \<Rightarrow> bool" where
  "static_of ss0 ss \<longleftrightarrow> ss = ss0\<lparr>regexCache := regexCache ss, ipCache := ipCache ss, domainCache := domainCache ss,
     learnedIPCache := learnedIPCache ss, nameSets := nameSets ss\<rparr>"

definition caches_ok :: "SuffixSet \<Rightarrow> bool" where
  "caches_ok ss \<longleftrightarrow> lru_ok (ipCache ss) \<and> lru_ok (domainCache ss) \<and> lru_ok (learnedIPCache ss) \<and>
     bounded_ok 2000 (regexCache ss) \<and>
     limit (ipCache ss) = 2000 \<and> limit (domainCache ss) = 2000 \<and> limit (learnedIPCache ss) = 5000"

definition caches_right :: "golib \<Rightarrow> netlib \<Rightarrow> SetConfig list \<Rightarrow> SuffixSet \<Rightarrow> SuffixSet \<Rightarrow> bool" where
  "caches_right L N cfg ss0 ss \<longleftrightarrow>
     memo.consistent entries (suffix_walk (ss_sets ss0)) (domainCache ss) \<and>
     memo.consistent entries (match_ip_fresh N ss0) (ipCache ss) \<and>
     memo.consistent stored (regex_owner L cfg) (regexCache ss)"

definition matcher_inv :: "golib \<Rightarrow> netlib \<Rightarrow> SetConfig list \<Rightarrow> SuffixSet \<Rightarrow> bool" where
  "matcher_inv L N cfg ss \<longleftrightarrow> static_of (NewSuffixSet L N cfg) ss \<and> caches_ok ss \<and>
     caches_right L N cfg (NewSuffixSet L N cfg) ss"

lemma static_fields:
  "static_of ss0 ss \<Longrightarrow> ss_sets ss = ss_sets ss0 \<and> multiSets ss = multiSets ss0 \<and> regexes ss = regexes ss0 \<and>
   regexPatterns ss = regexPatterns ss0 \<and> ipRanger ss = ipRanger ss0 \<and> ipEntries ss = ipEntries ss0 \<and>
   learnedIPTTL ss = learnedIPTTL ss0"
proof -
  assume "static_of ss0 ss"
  then have e: "ss = ss0\<lparr>regexCache := regexCache ss, ipCache := ipCache ss, domainCache := domainCache ss,
     learnedIPCache := learnedIPCache ss, nameSets := nameSets ss\<rparr>" by (simp only: static_of_def)
  show ?thesis by (intro conjI) (subst e, simp)+
qed

subsection \<open>A new matcher has empty caches\<close>

definition cache_fields ::
    "SuffixSet \<Rightarrow> match_result bounded \<times> match_result lru \<times> match_result lru \<times> learnedIPEntry lru \<times> nat" where
  "cache_fields ss = (regexCache ss, ipCache ss, domainCache ss, learnedIPCache ss, learnedIPTTL ss)"

lemma add_regex_caches: "add_regex L s b d = (b', n) \<Longrightarrow> cache_fields (b_ss b') = cache_fields (b_ss b)"
  by (auto simp: add_regex_def Let_def cache_fields_def split: if_splits option.splits prod.splits
      dest!: intern_pattern_keeps)

lemma add_domains_caches: "add_domains L s es b n = (b', n') \<Longrightarrow> cache_fields (b_ss b') = cache_fields (b_ss b)"
proof (induction es arbitrary: b n)
  case (Cons e es)
  obtain d r where p: "ParseDomainEntry L e = (d, r)" by (cases "ParseDomainEntry L e")
  obtain b1 k where a: "add_regex L s b d = (b1, k)" by (cases "add_regex L s b d")
  have "cache_fields (add_name s (b_ss b) d) = cache_fields (b_ss b)"
    by (simp add: add_name_def cache_fields_def split: option.splits)
  then show ?case using Cons add_regex_caches [OF a] by (auto simp: p a split: if_splits)
qed simp

lemma add_networks_caches: "cache_fields (foldl (add_network N ord s) ss xs) = cache_fields ss"
proof (induction xs arbitrary: ss)
  case (Cons x xs)
  have "cache_fields (add_network N ord s ss x) = cache_fields ss"
    by (simp add: add_network_def cache_fields_def split: option.splits)
  then show ?case using Cons by simp
qed simp

lemma add_set_caches: "cache_fields (b_ss (add_set L N b x)) = cache_fields (b_ss b)"
proof (cases x)
  case (Pair ord s)
  define b0 where "b0 = b\<lparr>b_ss := note_set ord s (b_ss b)\<rparr>"
  obtain b1 n where a: "add_domains L s (DomainsToMatch (Targets s)) b0 False = (b1, n)"
    by (cases "add_domains L s (DomainsToMatch (Targets s)) b0 False")
  have "cache_fields (b_ss b1) = cache_fields (b_ss b)"
    using add_domains_caches [OF a] by (simp add: b0_def note_set_def Let_def cache_fields_def)
  moreover have "cache_fields (add_ports L s ss) = cache_fields ss" for ss
    by (simp add: add_ports_def Let_def cache_fields_def)
  moreover have "cache_fields (ss\<lparr>nameSets := v\<rparr>) = cache_fields ss" for ss v by (simp add: cache_fields_def)
  moreover have "add_set L N b (ord, s) = (if Enabled s then b1\<lparr>b_ss := add_ports L s (foldl (add_network N ord s)
      (if n then (b_ss b1)\<lparr>nameSets := nameSets (b_ss b1) @ [s]\<rparr> else b_ss b1) (IpsToMatch (Targets s)))\<rparr> else b)"
    using a by (simp add: add_set_def b0_def Let_def)
  ultimately show ?thesis unfolding Pair by (simp add: add_networks_caches)
qed

lemma NewSuffixSet_caches: "cache_fields (NewSuffixSet L N cfg) = cache_fields (empty_matcher cfg)"
proof -
  have "cache_fields (b_ss (foldl (add_set L N) b xs)) = cache_fields (b_ss b)" for b xs
    by (induction xs arbitrary: b) (simp_all add: add_set_caches)
  then show ?thesis by (simp add: NewSuffixSet_def Let_def cache_fields_def)
qed

lemma matcher_inv_build: "matcher_inv L N cfg (NewSuffixSet L N cfg)"
proof -
  have "caches_ok (NewSuffixSet L N cfg)"
    using NewSuffixSet_caches [of L N cfg]
    by (simp add: cache_fields_def empty_matcher_def caches_ok_def lru_ok_empty bounded_ok_def) (simp add: lru_empty_def)
  moreover have "caches_right L N cfg (NewSuffixSet L N cfg) (NewSuffixSet L N cfg)"
    using NewSuffixSet_caches [of L N cfg]
    by (simp add: cache_fields_def empty_matcher_def caches_right_def lru.consistent_def bounded.consistent_def lru_empty_def)
  ultimately show ?thesis by (simp add: matcher_inv_def static_of_def)
qed

subsection \<open>Every operation keeps the invariant\<close>

lemma static_trans: "static_of ss0 ss \<Longrightarrow> static_of ss ss' \<Longrightarrow> static_of ss0 ss'"
proof -
  assume a: "static_of ss0 ss" and b: "static_of ss ss'"
  have "ss' = ss\<lparr>regexCache := regexCache ss', ipCache := ipCache ss', domainCache := domainCache ss',
     learnedIPCache := learnedIPCache ss', nameSets := nameSets ss'\<rparr>" using b by (simp only: static_of_def)
  also have "\<dots> = ss0\<lparr>regexCache := regexCache ss', ipCache := ipCache ss', domainCache := domainCache ss',
     learnedIPCache := learnedIPCache ss', nameSets := nameSets ss'\<rparr>"
    by (subst a [unfolded static_of_def]) simp
  finally show ?thesis by (simp only: static_of_def)
qed

lemma static_upd:
  "static_of ss (ss\<lparr>domainCache := c1\<rparr>)" "static_of ss (ss\<lparr>ipCache := c1\<rparr>)" "static_of ss (ss\<lparr>learnedIPCache := c3\<rparr>)"
  "static_of ss (ss\<lparr>regexCache := c4\<rparr>)" "static_of ss (ss\<lparr>nameSets := c5\<rparr>)" "static_of ss ss"
  by (simp_all add: static_of_def)

lemma matcher_inv_domain:
  assumes inv: "matcher_inv L N cfg ss" and m: "matchDomain ss host = (ss', r)"
  shows "matcher_inv L N cfg ss' \<and> r = suffix_walk (ss_sets (NewSuffixSet L N cfg)) host"
proof -
  let ?ss0 = "NewSuffixSet L N cfg"
  have st: "static_of ?ss0 ss" and ok: "caches_ok ss" and rt: "caches_right L N cfg ?ss0 ss"
    using inv by (auto simp: matcher_inv_def)
  have e: "ss_sets ss = ss_sets ?ss0" using static_fields [OF st] by simp
  define c where "c = fst (lru_memo (suffix_walk (ss_sets ?ss0)) (domainCache ss) host)"
  have ss': "ss' = ss\<lparr>domainCache := c\<rparr>" "r = snd (lru_memo (suffix_walk (ss_sets ?ss0)) (domainCache ss) host)"
    using m by (auto simp: matchDomain_def e c_def split: prod.splits)
  have "memo.consistent entries (suffix_walk (ss_sets ?ss0)) (domainCache ss)" using rt by (simp add: caches_right_def)
  from lru.run_consistent [OF this] have "r = suffix_walk (ss_sets ?ss0) host"
      "memo.consistent entries (suffix_walk (ss_sets ?ss0)) c" by (auto simp: ss' c_def)
  moreover have "lru_ok c" "limit c = 2000"
    using ok lru_memo_ok [of "domainCache ss"] unfolding c_def caches_ok_def
    by (auto simp: lru_memo_def lru_touch_def lru_add_def lru_make_room_def lru_remove_def Let_def split: option.splits)
  ultimately show ?thesis
    using ok rt static_trans [OF st static_upd(1) [of ss c]] by (simp add: matcher_inv_def caches_ok_def caches_right_def ss'(1))
qed

lemma matcher_inv_ip:
  assumes inv: "matcher_inv L N cfg ss" and m: "MatchIP N ss ip = (ss', r)"
  shows "matcher_inv L N cfg ss' \<and> r = match_ip_fresh N (NewSuffixSet L N cfg) ip"
proof -
  let ?ss0 = "NewSuffixSet L N cfg"
  have st: "static_of ?ss0 ss" and ok: "caches_ok ss" and rt: "caches_right L N cfg ?ss0 ss"
    using inv by (auto simp: matcher_inv_def)
  have "ContainingNetworks N ss = ContainingNetworks N ?ss0"
    by (rule ext) (use static_fields [OF st] in \<open>simp add: ContainingNetworks_def\<close>)
  then have e: "match_ip_fresh N ss = match_ip_fresh N ?ss0"
    by (intro ext) (simp add: match_ip_fresh_def)
  define c where "c = fst (lru_memo (match_ip_fresh N ?ss0) (ipCache ss) ip)"
  have ss': "ss' = ss\<lparr>ipCache := c\<rparr>" "r = snd (lru_memo (match_ip_fresh N ?ss0) (ipCache ss) ip)"
    using m by (auto simp: MatchIP_def e c_def split: prod.splits)
  have "memo.consistent entries (match_ip_fresh N ?ss0) (ipCache ss)" using rt by (simp add: caches_right_def)
  from lru.run_consistent [OF this] have "r = match_ip_fresh N ?ss0 ip"
      "memo.consistent entries (match_ip_fresh N ?ss0) c" by (auto simp: ss' c_def)
  moreover have "lru_ok c" "limit c = 2000"
    using ok lru_memo_ok [of "ipCache ss"] unfolding c_def caches_ok_def
    by (auto simp: lru_memo_def lru_touch_def lru_add_def lru_make_room_def lru_remove_def Let_def split: option.splits)
  ultimately show ?thesis
    using ok rt static_trans [OF st static_upd(2) [of ss c]] by (simp add: matcher_inv_def caches_ok_def caches_right_def ss'(1))
qed

lemma matcher_inv_learned:
  "matcher_inv L N cfg ss \<Longrightarrow> lru_ok c \<Longrightarrow> limit c = 5000 \<Longrightarrow> matcher_inv L N cfg (ss\<lparr>learnedIPCache := c\<rparr>)"
  using static_trans [OF _ static_upd(3) [of ss c], of "NewSuffixSet L N cfg"]
  by (auto simp: matcher_inv_def caches_ok_def caches_right_def)

lemma matcher_inv_names: "matcher_inv L N cfg ss \<Longrightarrow> matcher_inv L N cfg (KeepNameSets ss f)"
  using static_trans [OF _ static_upd(5) [of ss], of "NewSuffixSet L N cfg"]
  by (auto simp: matcher_inv_def caches_ok_def caches_right_def KeepNameSets_def)

lemma matcher_inv_learn: "matcher_inv L N cfg ss \<Longrightarrow> matcher_inv L N cfg (LearnIPToDomain ss now ip domain s)"
proof -
  assume inv: "matcher_inv L N cfg ss"
  then have c: "lru_ok (learnedIPCache ss)" "limit (learnedIPCache ss) = 5000"
    by (auto simp: matcher_inv_def caches_ok_def)
  show ?thesis
  proof (cases "entries (learnedIPCache ss) ip")
    case None
    then show ?thesis using inv c
      by (auto simp: LearnIPToDomain_def Let_def intro!: matcher_inv_learned lru_add_ok)
  next
    case (Some e)
    moreover from Some c have "lru_ok (lru_touch (learnedIPCache ss) ip)" by (intro lru_touch_ok)
    ultimately show ?thesis using inv c
      by (auto simp: LearnIPToDomain_def Let_def lru_touch_def intro!: matcher_inv_learned lru_set_ok)
  qed
qed

lemma matcher_inv_refresh:
  "matcher_inv L N cfg ss \<Longrightarrow> entries (learnedIPCache ss) ip = Some e \<Longrightarrow> matcher_inv L N cfg (refresh_learned ss now ip e)"
  unfolding refresh_learned_def
  by (rule matcher_inv_learned)
    (auto simp: matcher_inv_def caches_ok_def lru_set_def intro!: lru_touch_ok lru_set_ok [unfolded lru_set_def])

lemma matcher_inv_forget:
  "matcher_inv L N cfg ss \<Longrightarrow> matcher_inv L N cfg (ss\<lparr>learnedIPCache := lru_remove (learnedIPCache ss) ip\<rparr>)"
  by (rule matcher_inv_learned) (auto simp: matcher_inv_def caches_ok_def intro: lru_remove_ok)

lemma matcher_inv_MatchLearnedIP:
  "matcher_inv L N cfg ss \<Longrightarrow> MatchLearnedIP ss now ip = (ss', q) \<Longrightarrow> matcher_inv L N cfg ss'"
  by (auto simp: MatchLearnedIP_def matcher_inv_refresh matcher_inv_forget split: option.splits if_splits)

lemma matcher_inv_match_learned:
  "matcher_inv L N cfg ss \<Longrightarrow> match_learned L ss now ip ipv mac k = Some (ss', q) \<Longrightarrow> matcher_inv L N cfg ss'"
  by (auto simp: match_learned_def matcher_inv_refresh matcher_inv_forget bind_eq_Some_conv
      split: option.splits if_splits)

subsection \<open>Names are answered as the configuration says\<close>

lemma first_regex_owner:
  assumes "distinct (map set_ptr cfg)" and "static_of (NewSuffixSet L N cfg) ss"
  shows "first_regex pre post host (regexMemo ss) (regexes ss) =
    Some (map_option fst (List.find (\<lambda>(s, m). pre s \<and> m host \<and> post s) (regex_rules L cfg)))"
proof -
  note f = static_fields [OF assms(2)]
  have ok: "regex_index_ok ss"
    using NewSuffixSet_index(3) [OF assms(1), of L N] unfolding regex_index_ok_def by (simp only: f)
  have "same_first (rules_of (regexes ss)) (regex_rules L cfg)"
    using NewSuffixSet_index(2) [OF assms(1), of L N] by (simp only: f)
  then show ?thesis
    using first_regex_eq [OF ok subset_refl regexMemo_ok [OF ok]] by (simp add: same_first_def)
qed

lemma matcher_inv_regex:
  assumes ptr: "distinct (map set_ptr cfg)" and inv: "matcher_inv L N cfg ss"
  shows "\<exists>ss'. matchRegex ss host = Some (ss', regex_owner L cfg host) \<and> matcher_inv L N cfg ss'"
proof -
  let ?ss0 = "NewSuffixSet L N cfg"
  have st: "static_of ?ss0 ss" and ok: "caches_ok ss" and rt: "caches_right L N cfg ?ss0 ss"
    using inv by (auto simp: matcher_inv_def)
  have con: "memo.consistent stored (regex_owner L cfg) (regexCache ss)" using rt by (simp add: caches_right_def)
  show ?thesis
  proof (cases "stored (regexCache ss) host")
    case (Some r)
    then have "r = regex_owner L cfg host" using con by (simp add: bounded.consistent_def)
    then show ?thesis using Some inv by (simp add: matchRegex_def)
  next
    case None
    define c where "c = fst (bounded_memo 2000 (regex_owner L cfg) (regexCache ss) host)"
    have "fst (bounded_memo 2000 (\<lambda>_. regex_owner L cfg host) (regexCache ss) host) = c"
      using None by (simp add: bounded_memo_def c_def)
    then have m: "matchRegex ss host = Some (ss\<lparr>regexCache := c\<rparr>, regex_owner L cfg host)"
      using None first_regex_owner [OF ptr st, of "\<lambda>_. True" "\<lambda>_. True" host]
      by (simp add: matchRegex_def regex_owner_def)
    have "memo.consistent stored (regex_owner L cfg) c" unfolding c_def
      using bounded.run_consistent [OF con] by blast
    moreover have "bounded_ok 2000 c" unfolding c_def using ok by (intro bounded_memo_ok) (simp add: caches_ok_def)
    ultimately have "matcher_inv L N cfg (ss\<lparr>regexCache := c\<rparr>)"
      using ok rt static_trans [OF st static_upd(4) [of ss c]]
      by (simp add: matcher_inv_def caches_ok_def caches_right_def)
    with m show ?thesis by blast
  qed
qed

lemma empty_index:
  assumes "distinct (map set_ptr cfg)" and "ss_sets (NewSuffixSet L N cfg) = Map.empty" and "regexes (NewSuffixSet L N cfg) = []"
  shows "sni_owner L cfg host = None"
proof -
  have "name_owner L cfg d = None" for d
    using name_owner_index [OF NewSuffixSet_index(1) [OF assms(1), of L N]] assms(2) by (simp add: fun_eq_iff)
  then have "first_some (name_owner L cfg) xs = None" for xs by (simp add: first_some_None_iff)
  moreover have "regex_owner L cfg h = None" for h
    using NewSuffixSet_index(2) [OF assms(1), of L N] assms(3) by (simp add: regex_owner_def same_first_def rules_of_def)
  ultimately show ?thesis by (simp add: sni_owner_def Let_def)
qed

lemma MatchSNI_eq:
  assumes ptr: "distinct (map set_ptr cfg)" and inv: "matcher_inv L N cfg ss"
  shows "\<exists>ss'. MatchSNI L ss host = Some (ss', sni_owner L cfg host) \<and> matcher_inv L N cfg ss'"
proof -
  let ?ss0 = "NewSuffixSet L N cfg"
  have st: "static_of ?ss0 ss" using inv by (simp add: matcher_inv_def)
  note f = static_fields [OF st]
  have own: "ss_sets ?ss0 = name_owner L cfg" by (rule name_owner_index [OF NewSuffixSet_index(1) [OF ptr]])
  have tr: "NormalizeDomain L [] = []"
    by (simp add: NormalizeDomain_def trim_space_id to_lower_def is_ascii_def trim_right_byte_def)
  consider "ss_sets ss = Map.empty \<and> regexes ss = []"
    | "\<not> (ss_sets ss = Map.empty \<and> regexes ss = [])" "host = [] \<or> NormalizeDomain L host = []"
    | "\<not> (ss_sets ss = Map.empty \<and> regexes ss = [])" "host \<noteq> []" "NormalizeDomain L host \<noteq> []" by blast
  then show ?thesis
  proof cases
    case 1
    then show ?thesis using inv empty_index [OF ptr, of L N host] f by (simp add: MatchSNI_def)
  next
    case 2
    then have "sni_owner L cfg host = None" by (auto simp: sni_owner_def tr)
    then show ?thesis using 2 inv by (auto simp: MatchSNI_def)
  next
    case 3
    define h where "h = NormalizeDomain L host"
    obtain ss1 r where d: "matchDomain ss h = (ss1, r)" by (cases "matchDomain ss h")
    have inv1: "matcher_inv L N cfg ss1" and r: "r = first_some (name_owner L cfg) (label_suffixes h)"
      using matcher_inv_domain [OF inv d] by (simp_all add: own suffix_walk_eq)
    have m: "MatchSNI L ss host = (case r of Some s \<Rightarrow> Some (ss1, Some s)
        | None \<Rightarrow> if regexes ss1 \<noteq> [] then matchRegex ss1 h else Some (ss1, None))"
    proof -
      have c: "((ss_sets ss = Map.empty \<and> regexes ss = []) \<or> host = []) = False" "(h = []) = False"
        using 3 by (auto simp: h_def)
      show ?thesis unfolding MatchSNI_def Let_def h_def [symmetric] c if_False d by (simp split: option.split)
    qed
    have o: "sni_owner L cfg host = (case r of Some s \<Rightarrow> Some s | None \<Rightarrow> regex_owner L cfg h)"
      unfolding sni_owner_def Let_def r h_def [symmetric] using 3(3) by (simp add: h_def)
    have "regex_owner L cfg h = None" if "regexes ss1 = []"
    proof -
      have "static_of ?ss0 ss1" using inv1 by (simp add: matcher_inv_def)
      then have "regexes ?ss0 = []" using static_fields that by metis
      then show ?thesis
        using NewSuffixSet_index(2) [OF ptr, of L N] by (simp add: regex_owner_def same_first_def rules_of_def)
    qed
    then show ?thesis using matcher_inv_regex [OF ptr inv1, of h] inv1 m o by (cases r) auto
  qed
qed

lemma matcher_inv_transfer:
  assumes ptr: "distinct (map set_ptr cfg)"
  shows "matcher_inv L N cfg ss \<Longrightarrow> \<exists>ss'. transfer_entries L now es ss = Some ss' \<and> matcher_inv L N cfg ss'"
proof (induction es arbitrary: ss)
  case (Cons e es)
  obtain ip d where e: "e = (ip, d)" by (cases e)
  obtain ss1 where m: "MatchSNI L ss d = Some (ss1, sni_owner L cfg d)" "matcher_inv L N cfg ss1"
    using MatchSNI_eq [OF ptr Cons.prems] by blast
  have "matcher_inv L N cfg (case sni_owner L cfg d of None \<Rightarrow> ss1 | Some s \<Rightarrow> LearnIPToDomain ss1 now ip d s)"
    using m(2) by (auto intro: matcher_inv_learn split: option.splits)
  from Cons.IH [OF this] m(1) show ?case by (simp add: e)
qed simp

lemma matcher_reach_inv:
  assumes ptr: "distinct (map set_ptr cfg)"
  shows "matcher_reach L N cfg ss \<Longrightarrow> matcher_inv L N cfg ss"
proof (induction rule: matcher_reach.induct)
  case (sni ss host ss' r)
  then show ?case using MatchSNI_eq [OF ptr sni.IH, of host] by auto
next
  case (transfer ss now old ks ss')
  obtain es where "transfer_entries L now es ss = Some ss'"
    using transfer.hyps(2) unfolding TransferLearnedIPs_def by blast
  moreover obtain ss2 where "transfer_entries L now es ss = Some ss2" "matcher_inv L N cfg ss2"
    using matcher_inv_transfer [OF ptr transfer.IH] by blast
  ultimately show ?case by simp
next
  case (learned_source ss now ip mac fs ss' q)
  then show ?case using matcher_inv_match_learned [OF learned_source.IH] by (simp add: MatchLearnedIPWithSource_def)
qed (auto intro: matcher_inv_build matcher_inv_names matcher_inv_learn
      dest: matcher_inv_ip matcher_inv_MatchLearnedIP)

text \<open>The names a host falls under: itself and its parent domains.\<close>

definition falls_under :: "gostr \<Rightarrow> gostr \<Rightarrow> bool" where
  "falls_under h d \<longleftrightarrow> d = h \<or> (\<exists>x. h = x @ 46 # d)"

lemma falls_under_label: "d \<in> set (label_suffixes h) \<longleftrightarrow> falls_under h d"
  by (simp add: label_suffixes_iff falls_under_def)

lemma falls_under_unique: "falls_under h d \<Longrightarrow> falls_under h d' \<Longrightarrow> length d = length d' \<Longrightarrow> d = d'"
proof -
  assume "falls_under h d" "falls_under h d'" and l: "length d = length d'"
  then obtain x y where "h = x @ d" "h = y @ d'" unfolding falls_under_def by (metis append.assoc append_Cons append_Nil)
  then show ?thesis using l by (metis append_eq_append_conv)
qed

lemma first_owner_longest:
  assumes d: "falls_under h d" "f d = Some r"
    and top: "\<forall>d'. falls_under h d' \<and> length d < length d' \<longrightarrow> f d' = None"
  shows "first_some f (label_suffixes h) = Some r"
proof (cases "first_some f (label_suffixes h)")
  case None
  then show ?thesis using d by (simp add: first_some_None_iff falls_under_label)
next
  case (Some r')
  obtain e where e: "f e = Some r'" "falls_under h e"
      "\<forall>d'. falls_under h d' \<and> length e < length d' \<longrightarrow> f d' = None"
    using first_suffix_longest [OF Some] unfolding falls_under_def by blast
  have "length e = length d" using d top e by (metis linorder_neqE_nat option.distinct(1))
  then have "e = d" using e(2) d(1) by (rule falls_under_unique [rotated 2])
  then show ?thesis using Some e(1) d(2) by simp
qed

text \<open>
  C5. A server name goes to the set that lists its longest suffix. However a matcher has been used
  since it was built, \<^verbatim>\<open>MatchSNI\<close> answers for a name what the configuration says: when some
  enabled set lists the name or a parent domain of it, the first set, in configuration
  order, that lists the longest such suffix; otherwise the set of the first regular
  expression that accepts the name. It never panics, and caching never shows.
\<close>

theorem sni_goes_to_longest_suffix:
  assumes "distinct (map set_ptr cfg)" and "matcher_reach L N cfg ss"
    and h: "h = NormalizeDomain L host" "h \<noteq> []"
  shows "\<exists>ss' r. MatchSNI L ss host = Some (ss', r) \<and>
    ((\<forall>d. falls_under h d \<longrightarrow> name_owner L cfg d = None) \<longrightarrow> r = regex_owner L cfg h) \<and>
    (\<forall>d s. falls_under h d \<and> name_owner L cfg d = Some s \<and>
       (\<forall>d'. falls_under h d' \<and> length d < length d' \<longrightarrow> name_owner L cfg d' = None) \<longrightarrow> r = Some s)"
proof -
  have inv: "matcher_inv L N cfg ss" by (rule matcher_reach_inv [OF assms(1,2)])
  obtain ss' where m: "MatchSNI L ss host = Some (ss', sni_owner L cfg host)"
    using MatchSNI_eq [OF assms(1) inv] by blast
  have o: "sni_owner L cfg host = (case first_some (name_owner L cfg) (label_suffixes h) of
      Some s \<Rightarrow> Some s | None \<Rightarrow> regex_owner L cfg h)"
    unfolding sni_owner_def Let_def h(1) [symmetric] using h(2) by simp
  have "sni_owner L cfg host = regex_owner L cfg h" if "\<forall>d. falls_under h d \<longrightarrow> name_owner L cfg d = None"
    using that unfolding o by (simp add: first_some_None_iff [THEN iffD2] falls_under_label)
  moreover have "sni_owner L cfg host = Some s" if "falls_under h d" "name_owner L cfg d = Some s"
      "\<forall>d'. falls_under h d' \<and> length d < length d' \<longrightarrow> name_owner L cfg d' = None" for d s
    unfolding o by (simp add: first_owner_longest [OF that])
  ultimately show ?thesis using m by blast
qed

text \<open>A configuration of two sets, one listing a parent domain of what the other lists.\<close>

definition no_nets :: netlib where
  "no_nets = \<lparr>parse_ip = (\<lambda>_. None), parse_cidr = (\<lambda>_. None), containing = (\<lambda>_ _. Some [])\<rparr>"

definition listing :: "nat \<Rightarrow> gostr list \<Rightarrow> SetConfig" where
  "listing p ds = (plain_set p (str ''s''))\<lparr>Targets := no_targets\<lparr>DomainsToMatch := ds\<rparr>\<rparr>"

definition two_sets :: "SetConfig list" where
  "two_sets = [listing 7 [str ''b.c''], listing 8 [str ''a.b.c'']]"

lemma two_sets_ptr: "distinct (map set_ptr two_sets)"
  by (simp add: two_sets_def listing_def plain_set_def)

lemma two_sets_names:
  "listed_names plain_lib (listing 7 [str ''b.c'']) = [str ''b.c'']"
  "listed_names plain_lib (listing 8 [str ''a.b.c'']) = [str ''a.b.c'']"
proof -
  have t: "trim_space (str ''b.c'') = str ''b.c''" "trim_space (str ''a.b.c'') = str ''a.b.c''"
    by (rule trim_plain, simp add: str_def)+
  have "ParseDomainEntry plain_lib (str ''b.c'') = (str ''b.c'', False)"
      "ParseDomainEntry plain_lib (str ''a.b.c'') = (str ''a.b.c'', False)"
    by (simp_all add: ParseDomainEntry_def t)
      (simp_all add: str_def to_lower_def is_ascii_def lower_byte_def trim_right_byte_def regexEntryPrefix_def has_prefix_def)
  then show "listed_names plain_lib (listing 7 [str ''b.c'']) = [str ''b.c'']"
    "listed_names plain_lib (listing 8 [str ''a.b.c'']) = [str ''a.b.c'']"
    by (simp_all add: listed_names_def entry_names_def listing_def plain_set_def) (simp_all add: str_def)
qed

lemma two_sets_owner:
  "name_owner plain_lib two_sets d =
     (if d = str ''b.c'' then Some (listing 7 [str ''b.c''])
      else if d = str ''a.b.c'' then Some (listing 8 [str ''a.b.c'']) else None)"
proof -
  have "Enabled (listing p ds)" for p ds by (simp add: listing_def plain_set_def)
  then show ?thesis by (simp add: name_owner_def two_sets_def two_sets_names)
qed

lemma query_name: "NormalizeDomain plain_lib (str ''X.a.b.c.'') = str ''x.a.b.c''"
proof -
  have "trim_space (str ''X.a.b.c.'') = str ''X.a.b.c.''" by (rule trim_plain) (simp add: str_def)
  then show ?thesis
    by (simp add: NormalizeDomain_def) (simp add: str_def to_lower_def is_ascii_def lower_byte_def trim_right_byte_def)
qed

theorem sni_goes_to_longest_suffix_witness:
  "\<exists>ss'. MatchSNI plain_lib (NewSuffixSet plain_lib no_nets two_sets) (str ''X.a.b.c.'') =
     Some (ss', Some (listing 8 [str ''a.b.c'']))"
proof -
  have ne: "str ''x.a.b.c'' \<noteq> []" "str ''b.c'' \<noteq> str ''a.b.c''" by (simp_all add: str_def)
  have "str ''x.a.b.c'' = str ''x'' @ 46 # str ''a.b.c''" by (simp add: str_def)
  then have "falls_under (str ''x.a.b.c'') (str ''a.b.c'')" unfolding falls_under_def by blast
  moreover have "name_owner plain_lib two_sets (str ''a.b.c'') = Some (listing 8 [str ''a.b.c''])"
    using ne by (simp add: two_sets_owner)
  moreover have "name_owner plain_lib two_sets d = None" if "length (str ''a.b.c'') < length d" for d
    using that by (auto simp: two_sets_owner str_def)
  ultimately show ?thesis
    using sni_goes_to_longest_suffix [OF two_sets_ptr matcher_reach.build [of plain_lib no_nets two_sets]
        query_name [symmetric] ne(1)] by metis
qed

end
