(* ===== verification/Match_Select.thy ===== *)
theory Match_Select
  imports Match_State
begin

text \<open>
  Matching for a known device: which of the sets that list a name is taken, under the device,
  TLS-version and IP-version filters and the caller's filter; matching for a device that is
  not known; the bounds of the caches; and what is learned about addresses.
\<close>

subsection \<open>Selecting among candidates\<close>

lemma Keeps_join: "Keeps (join_from k fs) s \<longleftrightarrow> Keeps k s \<and> (\<forall>f \<in> set fs. Keeps f s)"
  by (induction k fs rule: join_from.induct) (auto simp: Keeps_def)

lemma Keeps_joinFilters: "Keeps (joinFilters fs) s \<longleftrightarrow> (\<forall>f \<in> set fs. Keeps f s)"
  by (simp add: joinFilters_def Keeps_join) (simp add: Keeps_def)

text \<open>A set is eligible when it applies to the device and passes every filter.\<close>

definition eligible :: "golib \<Rightarrow> gostr \<Rightarrow> nat \<Rightarrow> nat \<Rightarrow> SetFilter \<Rightarrow> SetConfig \<Rightarrow> bool" where
  "eligible L mac tls ipv keep s \<longleftrightarrow>
     setMatchesSource L s mac \<and> MatchesTLSVersion s tls \<and> MatchesIPVersion s ipv \<and> Keeps keep s"

lemma unscoped_source: "\<not> scoped s \<Longrightarrow> setMatchesSource L s mac"
  by (simp add: scoped_def setMatchesSource_def)

lemma select_pass_law:
  "case select_pass L cs mac tls ipv keep of
     None \<Rightarrow> \<forall>s \<in> set cs. \<not> eligible L mac tls ipv keep s
   | Some s \<Rightarrow> s \<in> set cs \<and> eligible L mac tls ipv keep s \<and>
       (\<not> scoped s \<longrightarrow> (\<forall>c \<in> set cs. scoped c \<longrightarrow> \<not> eligible L mac tls ipv keep c))"
proof -
  let ?P = "\<lambda>s. scoped s \<and> setMatchesSource L s mac \<and> MatchesTLSVersion s tls \<and> MatchesIPVersion s ipv \<and> Keeps keep s"
  let ?Q = "\<lambda>s. \<not> scoped s \<and> MatchesTLSVersion s tls \<and> MatchesIPVersion s ipv \<and> Keeps keep s"
  show ?thesis
  proof (cases "List.find ?P cs")
    case (Some s)
    from find_SomeD [OF this] have "s \<in> set cs" "?P s" by simp_all
    then show ?thesis using Some by (simp add: select_pass_def eligible_def)
  next
    case None
    then have np: "\<forall>c \<in> set cs. \<not> ?P c" unfolding find_None_iff by blast
    show ?thesis
    proof (cases "List.find ?Q cs")
      case q: None
      then have "\<forall>c \<in> set cs. \<not> ?Q c" unfolding find_None_iff by blast
      then show ?thesis using None q np by (auto simp: select_pass_def eligible_def)
    next
      case (Some s)
      from find_SomeD [OF this] have "s \<in> set cs" "?Q s" by simp_all
      then show ?thesis using None Some np by (auto simp: select_pass_def eligible_def unscoped_source)
    qed
  qed
qed

text \<open>The whole selection: the versions count first, and only when no candidate fits with them are
  they treated as unknown.\<close>

lemma select_law:
  "case selectSetBySourceAndTLS L cs mac tls ipv keep of
     None \<Rightarrow> \<forall>s \<in> set cs. \<not> eligible L mac tls ipv keep s \<and> \<not> eligible L mac 0 0 keep s
   | Some s \<Rightarrow> s \<in> set cs \<and> setMatchesSource L s mac \<and> Keeps keep s \<and>
       (if \<exists>c \<in> set cs. eligible L mac tls ipv keep c
        then eligible L mac tls ipv keep s \<and>
          (\<not> scoped s \<longrightarrow> (\<forall>c \<in> set cs. scoped c \<longrightarrow> \<not> eligible L mac tls ipv keep c))
        else eligible L mac 0 0 keep s \<and>
          (\<not> scoped s \<longrightarrow> (\<forall>c \<in> set cs. scoped c \<longrightarrow> \<not> eligible L mac 0 0 keep c)))"
proof (cases "select_pass L cs mac tls ipv keep")
  case (Some s)
  then have "cs \<noteq> []" by (auto simp: select_pass_def)
  then show ?thesis using Some select_pass_law [of cs L mac tls ipv keep]
    by (auto simp: selectSetBySourceAndTLS_def eligible_def)
next
  case None
  then have n: "\<forall>s \<in> set cs. \<not> eligible L mac tls ipv keep s"
    using select_pass_law [of cs L mac tls ipv keep] by simp
  show ?thesis
  proof (cases "tls \<noteq> 0 \<or> ipv \<noteq> 0")
    case True
    then show ?thesis using None n select_pass_law [of cs L mac 0 0 keep]
      by (cases "select_pass L cs mac 0 0 keep") (auto simp: selectSetBySourceAndTLS_def eligible_def)
  next
    case False
    then show ?thesis using None n by (auto simp: selectSetBySourceAndTLS_def)
  qed
qed

subsection \<open>Names for a device\<close>

text \<open>The sets that list the longest listed suffix of a name.\<close>

definition suffix_listers :: "golib \<Rightarrow> SetConfig list \<Rightarrow> gostr \<Rightarrow> SetConfig list" where
  "suffix_listers L cfg h =
     (case first_some (\<lambda>d. if listers L cfg d = [] then None else Some (listers L cfg d)) (label_suffixes h) of
        None \<Rightarrow> [] | Some cs \<Rightarrow> cs)"

definition regex_listers :: "golib \<Rightarrow> SetConfig list \<Rightarrow> gostr \<Rightarrow> SetConfig list" where
  "regex_listers L cfg h = map fst (filter (\<lambda>(s, m). m h) (regex_rules L cfg))"

definition source_owner ::
    "golib \<Rightarrow> SetConfig list \<Rightarrow> gostr \<Rightarrow> gostr \<Rightarrow> nat \<Rightarrow> nat \<Rightarrow> SetFilter \<Rightarrow> SetConfig option" where
  "source_owner L cfg h mac tls ipv keep =
     (case selectSetBySourceAndTLS L (suffix_listers L cfg h) mac tls ipv keep of
        Some s \<Rightarrow> Some s
      | None \<Rightarrow> selectSetBySourceAndTLS L (regex_listers L cfg h) mac tls ipv keep)"

lemma select_Nil [simp]: "selectSetBySourceAndTLS L [] mac tls ipv keep = None"
  by (simp add: selectSetBySourceAndTLS_def)

lemma select_same_first:
  assumes "same_first xs ys"
  shows "selectSetBySourceAndTLS L (map fst (filter Q xs)) mac t v k =
    selectSetBySourceAndTLS L (map fst (filter Q ys)) mac t v k"
  using same_first_select [OF assms] unfolding selectSetBySourceAndTLS_def by presburger

lemma MatchSNIWithSourceTLS_eq:
  assumes ptr: "distinct (map set_ptr cfg)" and inv: "matcher_inv L N cfg ss" and host: "host \<noteq> []"
  shows "MatchSNIWithSourceTLS L ss host mac tls ipv keep =
    Some (source_owner L cfg (to_lower L host) mac tls ipv (joinFilters keep))"
proof -
  let ?ss0 = "NewSuffixSet L N cfg" and ?h = "to_lower L host" and ?k = "joinFilters keep"
  have st: "static_of ?ss0 ss" using inv by (simp add: matcher_inv_def)
  note f = static_fields [OF st]
  have names: "names_inv ss (listers L cfg)"
    using NewSuffixSet_index(1) [OF ptr, of L N] unfolding names_inv_def by (simp only: f) auto
  have sf: "same_first (rules_of (regexes ss)) (regex_rules L cfg)"
    using NewSuffixSet_index(2) [OF ptr, of L N] by (simp only: f)
  have idx: "regex_index_ok ss"
    using NewSuffixSet_index(3) [OF ptr, of L N] unfolding regex_index_ok_def by (simp only: f)
  have "candidates_at ss = (\<lambda>d. if listers L cfg d = [] then None else Some (listers L cfg d))"
    by (rule ext) (rule candidates_at_eq [OF names])
  then have cand: "findDomainCandidates ss ?h = suffix_listers L cfg ?h"
    by (simp add: findDomainCandidates_def suffix_walk_eq suffix_listers_def)
  have dom: "matchDomainWithSourceTLS L ss ?h mac tls ipv ?k =
      selectSetBySourceAndTLS L (suffix_listers L cfg ?h) mac tls ipv ?k"
    by (simp add: matchDomainWithSourceTLS_def Let_def cand)
  have rx: "matchRegexWithSourceTLS L ss ?h mac tls ipv ?k =
      Some (selectSetBySourceAndTLS L (regex_listers L cfg ?h) mac tls ipv ?k)"
    unfolding matchRegexWithSourceTLS_def regex_listers_def select_same_first [OF sf, symmetric]
      all_regexes_eq [OF idx subset_refl regexMemo_ok [OF idx], of ?h] by simp
  have none: "selectSetBySourceAndTLS L (regex_listers L cfg ?h) mac tls ipv ?k = None" if "regexes ss = []"
  proof -
    have "regex_rules L cfg = []"
    proof -
      have "List.find (\<lambda>_. True) (regex_rules L cfg) = None" using sf that by (simp add: same_first_def rules_of_def)
      then show ?thesis by (cases "regex_rules L cfg") simp_all
    qed
    then show ?thesis by (simp add: regex_listers_def)
  qed
  show ?thesis
  proof (cases "ss_sets ss = Map.empty \<and> regexes ss = []")
    case True
    then have "name_owner L cfg d = None" for d using name_owner_index [OF names] by (simp add: fun_eq_iff)
    then have "listers L cfg d = []" for d using first_lister [of L cfg d] by (cases "listers L cfg d") (auto simp: name_owner_def)
    then have "suffix_listers L cfg ?h = []" by (simp add: suffix_listers_def first_some_None_iff [THEN iffD2])
    then have "source_owner L cfg ?h mac tls ipv ?k = None" using none True by (simp add: source_owner_def)
    then show ?thesis using True by (simp add: MatchSNIWithSourceTLS_def)
  next
    case False
    then have c: "((ss_sets ss = Map.empty \<and> regexes ss = []) \<or> host = []) = False" using host by simp
    show ?thesis
      unfolding MatchSNIWithSourceTLS_def c if_False Let_def dom rx source_owner_def
      using none by (auto split: option.split)
  qed
qed

text \<open>The contract of a selection: nothing fits, or the choice is the best one.\<close>

definition none_fits :: "golib \<Rightarrow> gostr \<Rightarrow> nat \<Rightarrow> nat \<Rightarrow> SetFilter \<Rightarrow> SetConfig list \<Rightarrow> bool" where
  "none_fits L mac tls ipv keep cs \<longleftrightarrow>
     (\<forall>s \<in> set cs. \<not> eligible L mac tls ipv keep s \<and> \<not> eligible L mac 0 0 keep s)"

definition best_of :: "golib \<Rightarrow> gostr \<Rightarrow> nat \<Rightarrow> nat \<Rightarrow> SetFilter \<Rightarrow> SetConfig list \<Rightarrow> SetConfig \<Rightarrow> bool" where
  "best_of L mac tls ipv keep cs s \<longleftrightarrow> s \<in> set cs \<and>
     (let exact = (\<exists>c \<in> set cs. eligible L mac tls ipv keep c);
          fits = (if exact then eligible L mac tls ipv keep else eligible L mac 0 0 keep)
      in fits s \<and> (\<not> scoped s \<longrightarrow> (\<forall>c \<in> set cs. scoped c \<longrightarrow> \<not> fits c)))"

lemma select_best:
  "case selectSetBySourceAndTLS L cs mac tls ipv keep of
     None \<Rightarrow> none_fits L mac tls ipv keep cs | Some s \<Rightarrow> best_of L mac tls ipv keep cs s"
  using select_law [of cs L mac tls ipv keep]
  by (cases "selectSetBySourceAndTLS L cs mac tls ipv keep")
    (auto simp: none_fits_def best_of_def Let_def split: if_splits)

lemma suffix_listers_longest:
  assumes "s \<in> set (suffix_listers L cfg h)"
  shows "\<exists>d. falls_under h d \<and> d \<in> set (listed_names L s) \<and> s \<in> set cfg \<and> Enabled s \<and>
    (\<forall>d'. falls_under h d' \<and> length d < length d' \<longrightarrow> listers L cfg d' = [])"
proof -
  let ?f = "\<lambda>d. if listers L cfg d = [] then None else Some (listers L cfg d)"
  obtain cs where cs: "first_some ?f (label_suffixes h) = Some cs" "s \<in> set cs"
    using assms by (cases "first_some ?f (label_suffixes h)") (simp_all add: suffix_listers_def)
  obtain d where "?f d = Some cs" "falls_under h d" "\<forall>d'. falls_under h d' \<and> length d < length d' \<longrightarrow> ?f d' = None"
    using first_suffix_longest [OF cs(1)] unfolding falls_under_def by blast
  then show ?thesis using cs(2) set_listers [of s L cfg d] by (metis option.distinct(1) option.inject)
qed

text \<open>
  C6. Among the sets that list a name, the device decides. However a matcher has been used since it
  was built, \<^verbatim>\<open>MatchSNIWithSourceTLS\<close> returns (it never panics); its candidates are the enabled sets
  that list the longest listed suffix of the name, and after them the sets of the regular
  expressions that accept it. It answers nil only if no candidate applies to the device, passes
  every filter and accepts the versions, known or taken as unknown. Otherwise the answer
  comes from the longest suffix if a set there fits at all; it applies to the device and
  passes the filters; it accepts the TLS and IP version unless no candidate of its
  kind does; and a set for all devices is only chosen when no device-specific one would do.
\<close>

theorem device_selects_set:
  assumes "distinct (map set_ptr cfg)" and "matcher_reach L N cfg ss" and "host \<noteq> []"
  defines "names \<equiv> suffix_listers L cfg (to_lower L host)" and "regs \<equiv> regex_listers L cfg (to_lower L host)"
  shows "\<exists>r. MatchSNIWithSourceTLS L ss host mac tls ipv keep = Some r \<and>
    (case r of
       None \<Rightarrow> none_fits L mac tls ipv (joinFilters keep) names \<and> none_fits L mac tls ipv (joinFilters keep) regs
     | Some s \<Rightarrow> (\<forall>f \<in> set keep. Keeps f s) \<and> setMatchesSource L s mac \<and>
         (best_of L mac tls ipv (joinFilters keep) names s \<and>
            (\<exists>d. falls_under (to_lower L host) d \<and> d \<in> set (listed_names L s) \<and> s \<in> set cfg \<and> Enabled s \<and>
              (\<forall>d'. falls_under (to_lower L host) d' \<and> length d < length d' \<longrightarrow> listers L cfg d' = [])) \<or>
          none_fits L mac tls ipv (joinFilters keep) names \<and> best_of L mac tls ipv (joinFilters keep) regs s))"
proof -
  let ?k = "joinFilters keep"
  have m: "MatchSNIWithSourceTLS L ss host mac tls ipv keep =
      Some (source_owner L cfg (to_lower L host) mac tls ipv ?k)"
    by (rule MatchSNIWithSourceTLS_eq [OF assms(1) matcher_reach_inv [OF assms(1,2)] assms(3)])
  have b: "Keeps ?k s \<and> setMatchesSource L s mac" if "best_of L mac tls ipv ?k cs s" for cs s
    using that by (auto simp: best_of_def eligible_def Let_def split: if_splits)
  show ?thesis
  proof (cases "selectSetBySourceAndTLS L names mac tls ipv ?k")
    case (Some s)
    then have o: "source_owner L cfg (to_lower L host) mac tls ipv ?k = Some s"
      by (simp add: source_owner_def names_def)
    have "best_of L mac tls ipv ?k names s" using select_best [of L mac tls ipv ?k names] Some by simp
    moreover from this have "s \<in> set names" by (simp add: best_of_def)
    ultimately show ?thesis using m o b suffix_listers_longest [of s L cfg "to_lower L host"]
      by (auto simp: Keeps_joinFilters names_def)
  next
    case None
    then have o: "source_owner L cfg (to_lower L host) mac tls ipv ?k = selectSetBySourceAndTLS L regs mac tls ipv ?k"
      by (simp add: source_owner_def names_def regs_def)
    have n: "none_fits L mac tls ipv ?k names" using select_best [of L mac tls ipv ?k names] None by simp
    show ?thesis using m n b select_best [of L mac tls ipv ?k regs] unfolding o
      by (cases "selectSetBySourceAndTLS L regs mac tls ipv ?k") (auto simp: Keeps_joinFilters)
  qed
qed

text \<open>Two sets that list the same name, one of them for one device only.\<close>

definition shared_name :: "SetConfig list" where
  "shared_name = [listing 7 [str ''b.c''],
     (listing 8 [str ''b.c''])\<lparr>Targets := no_targets\<lparr>DomainsToMatch := [str ''b.c''], SourceDevices := [str ''aa'']\<rparr>\<rparr>]"

lemma shared_name_listed: "s \<in> set shared_name \<Longrightarrow> listed_names plain_lib s = [str ''b.c'']"
  using two_sets_names(1) by (auto simp: shared_name_def listing_def plain_set_def listed_names_def)

lemma shared_name_ptr: "distinct (map set_ptr shared_name)"
  by (simp add: shared_name_def listing_def plain_set_def)

lemma shared_name_suffix: "set (suffix_listers plain_lib shared_name (str ''b.c'')) = set shared_name"
proof -
  have e: "\<forall>s \<in> set shared_name. Enabled s" by (simp add: shared_name_def listing_def plain_set_def)
  then have l: "set (listers plain_lib shared_name (str ''b.c'')) = set shared_name"
    using shared_name_listed by (auto simp: set_listers)
  have "listers plain_lib shared_name (str ''b.c'') \<noteq> []" using l by (auto simp: shared_name_def)
  moreover obtain rest where "label_suffixes (str ''b.c'') = str ''b.c'' # rest"
    using label_suffixes.simps [of "str ''b.c''"] by blast
  ultimately show ?thesis by (simp add: suffix_listers_def l)
qed

theorem device_selects_set_witness:
  "\<exists>s. MatchSNIWithSourceTLS plain_lib (NewSuffixSet plain_lib no_nets shared_name) (str ''b.c'') (str ''AA'') 0 4 [] =
     Some (Some s) \<and> set_ptr s = 8"
proof -
  let ?m = "MatchSNIWithSourceTLS plain_lib (NewSuffixSet plain_lib no_nets shared_name) (str ''b.c'') (str ''AA'') 0 4 []"
  have ne: "str ''b.c'' \<noteq> []" by (simp add: str_def)
  have low: "to_lower plain_lib (str ''b.c'') = str ''b.c''"
    by (simp add: str_def to_lower_def is_ascii_def lower_byte_def)
  have el: "eligible plain_lib (str ''AA'') 0 4 None s" if "s \<in> set shared_name" for s
    using that by (auto simp: shared_name_def eligible_def listing_def plain_set_def no_targets_def setMatchesSource_def
        MatchesTLSVersion_def MatchesIPVersion_def Keeps_def)
      (simp_all add: str_def equal_fold_def is_ascii_def lower_byte_def TLSVersionCode_def)
  obtain r where r: "?m = Some r" "case r of
       None \<Rightarrow> none_fits plain_lib (str ''AA'') 0 4 (joinFilters []) (suffix_listers plain_lib shared_name (str ''b.c''))
     | Some s \<Rightarrow> best_of plain_lib (str ''AA'') 0 4 (joinFilters []) (suffix_listers plain_lib shared_name (str ''b.c'')) s \<or>
         none_fits plain_lib (str ''AA'') 0 4 (joinFilters []) (suffix_listers plain_lib shared_name (str ''b.c''))"
    using device_selects_set [OF shared_name_ptr matcher_reach.build [of plain_lib no_nets shared_name] ne,
        of "str ''AA''" 0 4 "[]"] unfolding low by (auto split: option.splits)
  have j: "joinFilters [] = None" by (simp add: joinFilters_def)
  have c: "shared_name ! 1 \<in> set shared_name" "scoped (shared_name ! 1)"
    by (simp_all add: shared_name_def scoped_def)
  then have "\<not> none_fits plain_lib (str ''AA'') 0 4 None (suffix_listers plain_lib shared_name (str ''b.c''))"
    using el shared_name_suffix by (auto simp: none_fits_def)
  then obtain s where s: "r = Some s" "best_of plain_lib (str ''AA'') 0 4 None (suffix_listers plain_lib shared_name (str ''b.c'')) s"
    using r(2) unfolding j by (cases r) auto
  then have "s \<in> set shared_name" "scoped s"
    using c el shared_name_suffix by (auto simp: best_of_def Let_def split: if_splits)
  then have "set_ptr s = 8"
    by (auto simp: shared_name_def listing_def scoped_def plain_set_def no_targets_def)
  then show ?thesis using r(1) s(1) by blast
qed

subsection \<open>Devices that are not known\<close>

text \<open>A set that any device may be given: bound to no device, to no version, and kept.\<close>

definition common :: "SetFilter list \<Rightarrow> SetConfig \<Rightarrow> bool" where
  "common keep s \<longleftrightarrow> \<not> scoped s \<and> acceptsAnyVersion s \<and> (\<forall>f \<in> set keep. Keeps f s)"

lemma suffix_walk_falls:
  "suffix_walk f h = Some r \<Longrightarrow> \<exists>d. falls_under h d \<and> f d = Some r"
  using first_suffix_longest [of f h r] unfolding suffix_walk_eq falls_under_def by blast

lemma unknown_at_listed:
  assumes "names_inv ss (listers L cfg)" and "unknownDeviceSetAt ss d keep = Some (Some s)"
  shows "s \<in> set (listers L cfg d) \<and> \<not> scoped s \<and> Keeps keep s \<and> acceptsAnyVersion s"
  using assms(2) unfolding unknownDeviceSetAt_def candidates_at_eq [OF assms(1)]
  by (auto simp: Let_def dest!: find_SomeD split: if_splits)

text \<open>
  A device that is not known is never given another device's set. However a matcher has been
  used, \<^verbatim>\<open>MatchSNIForUnknownDevice\<close> returns; a set it returns is an enabled one of the configuration
  that is not bound to devices, accepts every TLS and IP version and passes all filters, and it
  lists the name, a parent domain of it, or a regular expression that accepts it; and it answers
  nil only if no such regular expression exists.
\<close>

theorem unknown_device_gets_common_set:
  assumes "distinct (map set_ptr cfg)" and "matcher_reach L N cfg ss" and "host \<noteq> []"
  defines "h \<equiv> to_lower L host"
  shows "\<exists>r. MatchSNIForUnknownDevice L ss host keep = Some r \<and>
    (\<forall>s. r = Some s \<longrightarrow> common keep s \<and>
       ((\<exists>d. falls_under h d \<and> s \<in> set (listers L cfg d)) \<or> (\<exists>m. (s, m) \<in> set (regex_rules L cfg) \<and> m h))) \<and>
    (r = None \<longrightarrow> (\<forall>(s, m) \<in> set (regex_rules L cfg). common keep s \<longrightarrow> \<not> m h))"
proof -
  let ?k = "joinFilters keep"
  have inv: "matcher_inv L N cfg ss" by (rule matcher_reach_inv [OF assms(1,2)])
  then have st: "static_of (NewSuffixSet L N cfg) ss" by (simp add: matcher_inv_def)
  note f = static_fields [OF st]
  have names: "names_inv ss (listers L cfg)"
    using NewSuffixSet_index(1) [OF assms(1), of L N] unfolding names_inv_def by (simp only: f) auto
  have rx: "first_regex (\<lambda>s. \<not> scoped s \<and> acceptsAnyVersion s) (Keeps ?k) h (regexMemo ss) (regexes ss) =
      Some (map_option fst (List.find (\<lambda>(s, m). common keep s \<and> m h) (regex_rules L cfg)))"
    unfolding first_regex_owner [OF assms(1) st] common_def Keeps_joinFilters
    by (intro arg_cong [of _ _ Some] arg_cong [of _ _ "map_option fst"] arg_cong2 [of _ _ _ _ List.find] refl) auto
  let ?rs = "map_option fst (List.find (\<lambda>(s, m). common keep s \<and> m h) (regex_rules L cfg))"
  have rs: "common keep s \<and> (\<exists>m. (s, m) \<in> set (regex_rules L cfg) \<and> m h)" if "?rs = Some s" for s
    using that by (auto dest!: find_SomeD)
  have rn: "\<forall>(s, m) \<in> set (regex_rules L cfg). common keep s \<longrightarrow> \<not> m h" if "?rs = None"
    using that by (auto simp: find_None)
  show ?thesis
  proof (cases "ss_sets ss = Map.empty \<and> regexes ss = []")
    case True
    then have "?rs = None" using rx by simp
    then show ?thesis using True rn by (simp add: MatchSNIForUnknownDevice_def)
  next
    case False
    then have c: "((ss_sets ss = Map.empty \<and> regexes ss = []) \<or> host = []) = False" using assms(3) by simp
    let ?w = "suffix_walk (\<lambda>name. unknownDeviceSetAt ss name ?k) h"
    have m: "MatchSNIForUnknownDevice L ss host keep = (case ?w of Some (Some s) \<Rightarrow> Some (Some s) | _ \<Rightarrow> Some ?rs)"
      unfolding MatchSNIForUnknownDevice_def c if_False Let_def h_def [symmetric] rx ..
    show ?thesis
    proof (cases "\<exists>s. ?w = Some (Some s)")
      case True
      then obtain s where s: "?w = Some (Some s)" by blast
      obtain d where d: "falls_under h d" "unknownDeviceSetAt ss d ?k = Some (Some s)"
        using suffix_walk_falls [OF s] by blast
      have "common keep s \<and> s \<in> set (listers L cfg d)"
        using unknown_at_listed [OF names d(2)] by (simp add: common_def Keeps_joinFilters)
      then show ?thesis using m s d(1) by auto
    next
      case False
      then consider "?w = None" | "?w = Some None" by (metis option.exhaust)
      then have "MatchSNIForUnknownDevice L ss host keep = Some ?rs" unfolding m by cases (simp_all only: option.case)
      then show ?thesis
        by (intro exI [of _ ?rs] conjI allI impI) (simp, metis rs, metis rs, rule rn)
    qed
  qed
qed

theorem unknown_device_gets_common_set_witness:
  "\<exists>r. MatchSNIForUnknownDevice plain_lib (NewSuffixSet plain_lib no_nets shared_name) (str ''b.c'') [] = Some r \<and>
     (\<forall>s. r = Some s \<longrightarrow> \<not> scoped s)"
proof -
  have "str ''b.c'' \<noteq> []" by (simp add: str_def)
  from unknown_device_gets_common_set [OF shared_name_ptr matcher_reach.build [of plain_lib no_nets shared_name] this,
      of "[]"]
  show ?thesis by (auto simp: common_def)
qed

subsection \<open>What is kept is bounded\<close>

text \<open>
  The caches stay within their limits. In every matcher that was built from a configuration
  and has since been used in any order, the name and address caches hold at most 2,000 entries, the
  cache of regular-expression results at most 2,000 and the learned addresses at most 5,000; the recency
  list of each LRU cache holds exactly its keys, each once; and the index and the
  lifetime of what is learned are those of the build.
\<close>

theorem matcher_caches_bounded:
  assumes "distinct (map set_ptr cfg)" and "matcher_reach L N cfg ss"
  shows "lru_size (ipCache ss) \<le> 2000 \<and> lru_size (domainCache ss) \<le> 2000 \<and>
    lru_size (learnedIPCache ss) \<le> 5000 \<and> card (dom (stored (regexCache ss))) \<le> 2000 \<and>
    (distinct (order (ipCache ss)) \<and> set (order (ipCache ss)) = dom (entries (ipCache ss))) \<and>
    (distinct (order (domainCache ss)) \<and> set (order (domainCache ss)) = dom (entries (domainCache ss))) \<and>
    (distinct (order (learnedIPCache ss)) \<and> set (order (learnedIPCache ss)) = dom (entries (learnedIPCache ss))) \<and>
    ss_sets ss = ss_sets (NewSuffixSet L N cfg) \<and> regexes ss = regexes (NewSuffixSet L N cfg) \<and>
    ipEntries ss = ipEntries (NewSuffixSet L N cfg) \<and> learnedIPTTL ss = learnedIPTTL (NewSuffixSet L N cfg)"
proof -
  have inv: "static_of (NewSuffixSet L N cfg) ss" "caches_ok ss"
    using matcher_reach_inv [OF assms] by (simp_all add: matcher_inv_def)
  have size: "lru_size c \<le> n \<and> distinct (order c) \<and> set (order c) = dom (entries c)"
    if "lru_ok c" "limit c = n" for c :: "'v lru" and n
    using that lru_size_order [OF that(1)] by (simp add: lru_ok_def)
  have ok: "lru_ok (ipCache ss)" "limit (ipCache ss) = 2000" "lru_ok (domainCache ss)" "limit (domainCache ss) = 2000"
      "lru_ok (learnedIPCache ss)" "limit (learnedIPCache ss) = 5000" "bounded_ok 2000 (regexCache ss)"
    using inv(2) by (simp_all add: caches_ok_def)
  show ?thesis
    using size [OF ok(1,2)] size [OF ok(3,4)] size [OF ok(5,6)] ok(7) static_fields [OF inv(1)]
    by (simp add: bounded_ok_def)
qed

theorem matcher_caches_bounded_witness:
  "lru_size (learnedIPCache (LearnIPToDomain (NewSuffixSet plain_lib no_nets two_sets) 5 [1, 2, 3, 4] (str ''b.c'')
     (listing 7 [str ''b.c'']))) \<le> 5000"
  using matcher_caches_bounded [OF two_sets_ptr matcher_reach.learn [OF matcher_reach.build [of plain_lib no_nets two_sets]],
      of 5 "[1, 2, 3, 4]" "str ''b.c''" "listing 7 [str ''b.c'']"] by blast

subsection \<open>Learned addresses\<close>

lemma learned_at:
  assumes "domain \<noteq> []" and "\<not> DomainOnly (Targets s)"
  shows "entries (learnedIPCache (LearnIPToDomain ss now ip domain s)) ip =
    Some \<lparr>le_domain = domain, le_set = s, learnedAt = now\<rparr>"
  using assms by (auto simp: LearnIPToDomain_def Let_def lru_set_def lru_touch_def lru_add_def split: option.splits)

lemma learned_other:
  assumes ok: "lru_ok (learnedIPCache ss)" and e: "entries (learnedIPCache ss) j = Some e" "j \<noteq> ip"
    and room: "lru_size (learnedIPCache ss) < limit (learnedIPCache ss) \<or> j \<noteq> last (order (learnedIPCache ss))"
  shows "entries (learnedIPCache (LearnIPToDomain ss now ip domain s)) j = Some e"
  using lru_add_keeps [OF ok e, of v for v] e room lru_size_order [OF ok]
  by (auto simp: LearnIPToDomain_def Let_def lru_set_def lru_touch_def split: option.splits)

lemma learned_ttl [simp]:
  "learnedIPTTL (LearnIPToDomain ss now ip domain s) = learnedIPTTL ss"
  "learnedIPTTL (refresh_learned ss now ip e) = learnedIPTTL ss"
  by (simp_all add: LearnIPToDomain_def refresh_learned_def Let_def)

lemma refresh_entries:
  "entries (learnedIPCache (refresh_learned ss now ip e)) = (entries (learnedIPCache ss))(ip \<mapsto> e\<lparr>learnedAt := now\<rparr>)"
  by (simp add: refresh_learned_def lru_set_def lru_touch_def)

text \<open>
  C37. A learned address is remembered for as long as it is used, and then forgotten. Once an
  address was learned for a domain of a set that does not restrict itself to names, a lookup not
  later than the lifetime answers that set and domain, and starts the lifetime anew, so that a
  second lookup within the lifetime of the first answers the same; a later lookup answers
  nothing and removes the entry. Learning changes what is known of another address only
  if the cache is full and that address is the least recently used one, and nothing
  is learned for a set that matches names only.
\<close>

theorem learned_address_lifetime:
  fixes ss :: SuffixSet and now t u :: nat and ip domain :: gostr and s :: SetConfig
  assumes "domain \<noteq> []" and "lru_ok (learnedIPCache ss)"
  defines "ss1 \<equiv> LearnIPToDomain ss now ip domain s"
  shows "(\<not> DomainOnly (Targets s) \<and> t \<le> now + learnedIPTTL ss \<longrightarrow>
      snd (MatchLearnedIP ss1 t ip) = Some (s, domain) \<and>
      (u \<le> t + learnedIPTTL ss \<longrightarrow> snd (MatchLearnedIP (fst (MatchLearnedIP ss1 t ip)) u ip) = Some (s, domain))) \<and>
    (\<not> DomainOnly (Targets s) \<and> now + learnedIPTTL ss < t \<longrightarrow>
      snd (MatchLearnedIP ss1 t ip) = None \<and> entries (learnedIPCache (fst (MatchLearnedIP ss1 t ip))) ip = None) \<and>
    (DomainOnly (Targets s) \<longrightarrow> ss1 = ss) \<and>
    (\<forall>j e. j \<noteq> ip \<and> entries (learnedIPCache ss) j = Some e \<and>
      (lru_size (learnedIPCache ss) < limit (learnedIPCache ss) \<or> j \<noteq> last (order (learnedIPCache ss))) \<longrightarrow>
      entries (learnedIPCache ss1) j = Some e)"
proof (intro conjI allI impI; (elim conjE)?)
  let ?e = "\<lparr>le_domain = domain, le_set = s, learnedAt = now\<rparr>"
  assume d: "\<not> DomainOnly (Targets s)"
  note e = learned_at [OF assms(1) d, of ss now ip, folded ss1_def]
  have ttl: "learnedIPTTL ss1 = learnedIPTTL ss" by (simp add: ss1_def)
  {
    assume t: "t \<le> now + learnedIPTTL ss"
    then have m: "MatchLearnedIP ss1 t ip = (refresh_learned ss1 t ip ?e, Some (s, domain))"
      using d by (simp add: MatchLearnedIP_def e expired_def ttl)
    then show "snd (MatchLearnedIP ss1 t ip) = Some (s, domain)" by simp
    show "snd (MatchLearnedIP (fst (MatchLearnedIP ss1 t ip)) u ip) = Some (s, domain)" if "u \<le> t + learnedIPTTL ss"
      using that d unfolding m by (simp add: MatchLearnedIP_def refresh_entries expired_def ttl)
  next
    assume "now + learnedIPTTL ss < t"
    then have m: "MatchLearnedIP ss1 t ip = (ss1\<lparr>learnedIPCache := lru_remove (learnedIPCache ss1) ip\<rparr>, None)"
      using d by (simp add: MatchLearnedIP_def e expired_def ttl)
    then show "snd (MatchLearnedIP ss1 t ip) = None"
      and "entries (learnedIPCache (fst (MatchLearnedIP ss1 t ip))) ip = None" by (simp_all add: lru_remove_def)
  }
next
  assume "DomainOnly (Targets s)"
  then show "ss1 = ss" by (simp add: ss1_def LearnIPToDomain_def)
next
  fix j e
  assume "j \<noteq> ip" "entries (learnedIPCache ss) j = Some e"
    "lru_size (learnedIPCache ss) < limit (learnedIPCache ss) \<or> j \<noteq> last (order (learnedIPCache ss))"
  then show "entries (learnedIPCache ss1) j = Some e" unfolding ss1_def by (intro learned_other assms(2))
qed

theorem learned_address_lifetime_witness:
  "snd (MatchLearnedIP (LearnIPToDomain (empty_matcher []) 5 [1, 2, 3, 4] (str ''b.c'') (listing 7 [])) 6 [1, 2, 3, 4]) =
     Some (listing 7 [], str ''b.c'')"
proof -
  have "str ''b.c'' \<noteq> []" "lru_ok (learnedIPCache (empty_matcher []))" "\<not> DomainOnly (Targets (listing 7 []))"
    by (simp_all add: str_def empty_matcher_def lru_ok_empty listing_def no_targets_def)
  moreover have "6 \<le> 5 + learnedIPTTL (empty_matcher [])" by (simp add: empty_matcher_def)
  ultimately show ?thesis
    using learned_address_lifetime [of "str ''b.c''" "empty_matcher []" "listing 7 []" 6 5 "[1, 2, 3, 4]"] by blast
qed

end
