(* ===== verification/Ip_Checksum.thy ===== *)
theory Ip_Checksum
  imports B4_Prelude
begin

text \<open>
  Editing packets in place and the Internet checksum (\<^verbatim>\<open>src/sock/fake_ipv4.go\<close>, \<^verbatim>\<open>fake_ipv6.go\<close>,
  \<^verbatim>\<open>udp_ipv4.go\<close>, \<^verbatim>\<open>udp_ipv6.go\<close>, \<^verbatim>\<open>payload.go\<close>, and \<^verbatim>\<open>corruptTCPChecksum\<close> of \<^verbatim>\<open>src/nfq/desync.go\<close>).

  The code overwrites parts of a byte slice; here an edit returns the new bytes, or \<^const>\<open>None\<close>
  where the code would panic. Sums are \<^verbatim>\<open>uint32\<close> with the wrap-around written out; the reference is
  the sum of the 16-bit words of RFC 1071, \<open>words_sum\<close>, and a packet is accepted when that sum,
  over the pseudo header and the segment, is a multiple of 65535.
\<close>

named_theorems edit_simps "what an edit leaves as it was"

subsection \<open>Edits\<close>

definition patch :: "bytes \<Rightarrow> nat \<Rightarrow> bytes \<Rightarrow> bytes" where
  "patch b i v = take i b @ v @ drop (i + length v) b"

definition put_at :: "bytes \<Rightarrow> nat \<Rightarrow> bytes \<Rightarrow> bytes option" where
  "put_at b i v = (if i + length v \<le> length b then Some (patch b i v) else None)"

definition ip_hdr_len :: "bytes \<Rightarrow> nat option" where
  "ip_hdr_len p = map_option (\<lambda>b. unat ((b AND 0x0F) * 4)) (at p 0)"

definition tcp_hdr_len :: "bytes \<Rightarrow> nat \<Rightarrow> nat option" where
  "tcp_hdr_len p off = map_option (\<lambda>b. unat (drop_bit 4 b * 4)) (at p (off + 12))"

subsection \<open>Summing and folding\<close>

fun add_words :: "nat \<Rightarrow> bytes \<Rightarrow> nat" where
  "add_words s [] = s"
| "add_words s [a] = (s + 256 * unat a) mod 2 ^ 32"
| "add_words s (a # b # bs) = add_words ((s + (256 * unat a + unat b)) mod 2 ^ 32) bs"

function fold_sum :: "nat \<Rightarrow> nat" where
  "fold_sum s = (if s > 65535 then fold_sum (s div 65536 + s mod 65536) else s)"
  by pat_completeness auto
termination
proof (relation "measure id")
  fix s :: nat
  assume "65535 < s"
  then have "0 < s div 65536" by simp
  moreover have "s = 65536 * (s div 65536) + s mod 65536" by simp
  ultimately have "s div 65536 + s mod 65536 < s" by linarith
  then show "(s div 65536 + s mod 65536, s) \<in> measure id" by simp
qed simp

declare fold_sum.simps [simp del]

subsection \<open>The checksum routines\<close>

definition FixIPv4Checksum :: "bytes \<Rightarrow> bytes option" where
  "FixIPv4Checksum ip =
     (if length ip < 20 then Some ip
      else do {
        ip \<leftarrow> put_at ip 10 [0, 0];
        ihl \<leftarrow> ip_hdr_len ip;
        hdr \<leftarrow> sub_bytes ip 0 ihl;
        put_at ip 10 (put16 (65535 - fold_sum (add_words 0 hdr))) })"

text \<open>The call on the slice \<^verbatim>\<open>packet[:n]\<close>, which shares its bytes with the packet.\<close>

definition fix_ip_header :: "bytes \<Rightarrow> nat \<Rightarrow> bytes option" where
  "fix_ip_header p n = do {
     hdr \<leftarrow> sub_bytes p 0 n;
     hdr \<leftarrow> FixIPv4Checksum hdr;
     Some (hdr @ drop n p) }"

definition FixTCPChecksum :: "bytes \<Rightarrow> bytes option" where
  "FixTCPChecksum p = do {
     h \<leftarrow> ip_hdr_len p;
     p \<leftarrow> put_at p (h + 16) [0];
     p \<leftarrow> put_at p (h + 17) [0];
     total \<leftarrow> be16 p 2;
     src \<leftarrow> sub_bytes p 12 16;
     dst \<leftarrow> sub_bytes p 16 20;
     if total < h then None
     else do {
       let pseudo = src @ dst @ [0, 6] @ put16 (total - h);
       tcp \<leftarrow> sub_bytes p h total;
       put_at p (h + 16) (put16 (65535 - fold_sum (add_words (add_words 0 pseudo) tcp))) } }"

definition udp_checksum_value :: "nat \<Rightarrow> nat" where
  "udp_checksum_value s = (let c = 65535 - fold_sum s in if c = 0 then 65535 else c)"

definition FixUDPChecksum :: "bytes \<Rightarrow> nat \<Rightarrow> bytes option" where
  "FixUDPChecksum p ihl =
     (if length p < ihl + 8 then Some p
      else do {
        p \<leftarrow> put_at p (ihl + 6) [0, 0];
        src \<leftarrow> sub_bytes p 12 16;
        dst \<leftarrow> sub_bytes p 16 20;
        let udp = drop ihl p;
        let s = add_words (add_words 0 src) dst;
        let s = (s + 17) mod 2 ^ 32;
        let s = (s + length udp) mod 2 ^ 32;
        put_at p (ihl + 6) (put16 (udp_checksum_value (add_words s udp))) })"

definition pseudo6 :: "byte \<Rightarrow> bytes \<Rightarrow> bytes \<Rightarrow> nat \<Rightarrow> bytes" where
  "pseudo6 proto src dst n = src @ dst @ put32 n @ [0, 0, 0, proto]"

definition FixTCPChecksumV6 :: "bytes \<Rightarrow> bytes option" where
  "FixTCPChecksumV6 p =
     (if length p < 40 then Some p
      else do {
        p \<leftarrow> put_at p 56 [0];
        p \<leftarrow> put_at p 57 [0];
        n \<leftarrow> be16 p 4;
        src \<leftarrow> sub_bytes p 8 24;
        dst \<leftarrow> sub_bytes p 24 40;
        tcp \<leftarrow> sub_bytes p 40 (40 + n);
        put_at p 56 (put16 (65535 - fold_sum (add_words (add_words 0 (pseudo6 6 src dst n)) tcp))) })"

definition FixUDPChecksumV6 :: "bytes \<Rightarrow> bytes option" where
  "FixUDPChecksumV6 p =
     (if length p < 48 then Some p
      else do {
        p \<leftarrow> put_at p 46 [0];
        p \<leftarrow> put_at p 47 [0];
        n \<leftarrow> be16 p 4;
        src \<leftarrow> sub_bytes p 8 24;
        dst \<leftarrow> sub_bytes p 24 40;
        udp \<leftarrow> sub_bytes p 40 (40 + n);
        put_at p 46 (put16 (udp_checksum_value (add_words (add_words 0 (pseudo6 17 src dst n)) udp))) })"

definition udpChecksumIPv4 :: "bytes \<Rightarrow> bytes option" where
  "udpChecksumIPv4 p = do {
     h \<leftarrow> ip_hdr_len p;
     n \<leftarrow> be16 p (h + 4);
     src \<leftarrow> sub_bytes p 12 16;
     dst \<leftarrow> sub_bytes p 16 20;
     let pseudo = src @ dst @ [0, 17] @ put16 n;
     p \<leftarrow> put_at p (h + 6) [0, 0];
     udp \<leftarrow> sub_bytes p h (h + n);
     put_at p (h + 6) (put16 (udp_checksum_value (add_words (add_words 0 pseudo) udp))) }"

definition udpChecksumIPv6 :: "bytes \<Rightarrow> bytes option" where
  "udpChecksumIPv6 p =
     (if length p < 48 then Some p
      else do {
        n \<leftarrow> be16 p 44;
        src \<leftarrow> sub_bytes p 8 24;
        dst \<leftarrow> sub_bytes p 24 40;
        p \<leftarrow> put_at p 46 [0, 0];
        udp \<leftarrow> sub_bytes p 40 (40 + n);
        put_at p 46 (put16 (udp_checksum_value (add_words (add_words 0 (pseudo6 17 src dst n)) udp))) })"

definition TCPChecksumValid :: "bytes \<Rightarrow> bool option" where
  "TCPChecksumValid p = do {
     h \<leftarrow> ip_hdr_len p;
     probe \<leftarrow> FixTCPChecksum p;
     a \<leftarrow> at probe (h + 16); b \<leftarrow> at p (h + 16);
     if a \<noteq> b then Some False
     else do { a \<leftarrow> at probe (h + 17); b \<leftarrow> at p (h + 17); Some (a = b) } }"

definition CorruptTCPChecksum :: "bytes \<Rightarrow> bytes option" where
  "CorruptTCPChecksum p = do {
     h \<leftarrow> ip_hdr_len p;
     b \<leftarrow> at p (h + 16);
     put_at p (h + 16) [b XOR 0xFF] }"

definition corruptTCPChecksum :: "bytes \<Rightarrow> nat \<Rightarrow> bytes option" where
  "corruptTCPChecksum p h = do {
     b \<leftarrow> at p (h + 16);
     p \<leftarrow> put_at p (h + 16) [b XOR 0xFF];
     c \<leftarrow> at p (h + 17);
     put_at p (h + 17) [c XOR 0xFF] }"

subsection \<open>What edits do\<close>

lemma put_at_in [simp]: "i + length v \<le> length b \<Longrightarrow> put_at b i v = Some (patch b i v)"
  by (simp add: put_at_def)

lemma put_at_eq: "put_at b i v = Some b' \<longleftrightarrow> i + length v \<le> length b \<and> b' = patch b i v"
  by (auto simp: put_at_def)

lemma no_panic_put_at [no_panic_intros]: "i + length v \<le> length b \<Longrightarrow> no_panic (put_at b i v)"
  by simp

lemma length_patch [simp, edit_simps]: "i + length v \<le> length b \<Longrightarrow> length (patch b i v) = length b"
  by (simp add: patch_def)

lemma nth_patch [edit_simps]:
  "i + length v \<le> length b \<Longrightarrow> j < i \<or> i + length v \<le> j \<Longrightarrow> patch b i v ! j = b ! j"
  by (auto simp: patch_def nth_append)

lemma nth_patch_in: "i + length v \<le> length b \<Longrightarrow> i \<le> j \<Longrightarrow> j < i + length v \<Longrightarrow> patch b i v ! j = v ! (j - i)"
  by (auto simp: patch_def nth_append min_def)

lemma take_patch [edit_simps]: "i + length v \<le> length b \<Longrightarrow> n \<le> i \<Longrightarrow> take n (patch b i v) = take n b"
  by (simp add: patch_def min_def)

lemma drop_patch [edit_simps]: "i + length v \<le> length b \<Longrightarrow> i + length v \<le> n \<Longrightarrow> drop n (patch b i v) = drop n b"
  by (simp add: patch_def min_def)

lemma slice_patch [edit_simps]:
  "i + length v \<le> length b \<Longrightarrow> a + n \<le> i \<Longrightarrow> take n (drop a (patch b i v)) = take n (drop a b)"
  by (simp add: patch_def take_drop min_def)

lemma drop_patch_in:
  "i + length v \<le> length b \<Longrightarrow> n \<le> i \<Longrightarrow> drop n (patch b i v) = patch (drop n b) (i - n) v"
  by (simp add: patch_def drop_take)

lemma take_patch_in:
  "i + length v \<le> n \<Longrightarrow> n \<le> length b \<Longrightarrow> take n (patch b i v) = patch (take n b) i v"
  by (cases "n = i") (auto simp: patch_def min_def take_drop)

lemma patch_patch: "length v = length w \<Longrightarrow> i + length v \<le> length b \<Longrightarrow> patch (patch b i v) i w = patch b i w"
  by (simp add: patch_def)

lemma patch_two: "i + 2 \<le> length b \<Longrightarrow> patch (patch b i [x]) (i + 1) [y] = patch b i [x, y]"
  by (simp add: patch_def min_def numeral_2_eq_2 drop_Suc tl_drop)

lemma be16_patch [edit_simps]:
  assumes "i + length v \<le> length b" and "j + 2 \<le> i \<or> i + length v \<le> j" and "j + 1 < length b"
  shows "be16 (patch b i v) j = be16 b j"
  using assms nth_patch [of i v b j] nth_patch [of i v b "j + 1"] by (auto simp: be16_lt)

lemma be16_patch_same: "i + 2 \<le> length b \<Longrightarrow> n < 65536 \<Longrightarrow> be16 (patch b i (put16 n)) i = Some n"
  by (simp add: patch_def be16_put16_at min_def)

lemma unat_low4: "unat ((b AND 0x0F) * 4 :: byte) = 4 * (unat b mod 16)"
proof -
  have "(b AND 0x0F :: byte) = take_bit 4 b" by (simp add: take_bit_eq_mask mask_eq_exp_minus_1)
  then have "unat (b AND 0x0F) = unat b mod 16" by (simp add: take_bit_eq_mod unat_mod)
  then show ?thesis by (simp add: unat_word_ariths)
qed

lemma unat_high4: "unat (drop_bit 4 b * 4 :: byte) = 4 * (unat b div 16)"
proof -
  have "unat (drop_bit 4 b) = unat b div 16" by (simp add: drop_bit_eq_div unat_div)
  moreover have "unat b div 16 < 16" using unat_byte_less [of b] by linarith
  ultimately show ?thesis by (simp add: unat_word_ariths)
qed

lemma ip_hdr_len_eq: "ip_hdr_len p = Some h \<longleftrightarrow> p \<noteq> [] \<and> h = 4 * (unat (p ! 0) mod 16)"
  by (auto simp: ip_hdr_len_def unat_low4 at_def)

lemma tcp_hdr_len_eq: "tcp_hdr_len p off = Some n \<longleftrightarrow> off + 12 < length p \<and> n = 4 * (unat (p ! (off + 12)) div 16)"
  by (auto simp: tcp_hdr_len_def unat_high4 at_def)

lemma ip_hdr_len_bound: "ip_hdr_len p = Some h \<Longrightarrow> h \<le> 60 \<and> even h"
  by (auto simp: ip_hdr_len_eq)

subsection \<open>The reference sum\<close>

fun words_sum :: "bytes \<Rightarrow> nat" where
  "words_sum [] = 0"
| "words_sum [a] = 256 * unat a"
| "words_sum (a # b # bs) = 256 * unat a + unat b + words_sum bs"

definition inet_ok :: "bytes \<Rightarrow> bool" where
  "inet_ok bs \<longleftrightarrow> words_sum bs mod 65535 = 0"

lemma words_sum_append: "even (length xs) \<Longrightarrow> words_sum (xs @ ys) = words_sum xs + words_sum ys"
  by (induction xs rule: words_sum.induct) auto

lemma words_sum_bound: "words_sum xs \<le> 65535 * ((length xs + 1) div 2)"
proof (induction xs rule: words_sum.induct)
  case (2 a)
  then show ?case using unat_byte_less [of a] by (simp del: unat_byte_less)
next
  case (3 a b bs)
  then show ?case using unat_byte_less [of a] unat_byte_less [of b] by (simp del: unat_byte_less)
qed simp

lemma add_words_eq: "s + words_sum xs < 2 ^ 32 \<Longrightarrow> add_words s xs = s + words_sum xs"
  by (induction s xs rule: add_words.induct) auto

lemma fold_sum_le: "fold_sum s \<le> 65535"
  by (induction s rule: fold_sum.induct) (simp add: fold_sum.simps)

lemma fold_sum_mod: "fold_sum s mod 65535 = s mod 65535"
proof (induction s rule: fold_sum.induct)
  case (1 s)
  show ?case
  proof (cases "s > 65535")
    case True
    have "s = (s div 65536 + s mod 65536) + 65535 * (s div 65536)"
      using mult_div_mod_eq [of 65536 s] by linarith
    also have "\<dots> mod 65535 = (s div 65536 + s mod 65536) mod 65535" by (rule mod_mult_self2)
    finally have "s mod 65535 = (s div 65536 + s mod 65536) mod 65535" .
    then show ?thesis using 1 [OF True] True by (simp add: fold_sum.simps [of s])
  qed (simp add: fold_sum.simps [of s])
qed

lemma fold_sum_zero: "fold_sum s = 0 \<longleftrightarrow> s = 0"
proof (induction s rule: fold_sum.induct)
  case (1 s)
  then show ?case by (cases "s > 65535") (auto simp: fold_sum.simps [of s])
qed

lemma words_sum_put16: "n \<le> 65535 \<Longrightarrow> words_sum (put16 n) = n"
  by (simp add: put16_def unat_byte_of_nat)

lemma complement_ok: "(s + (65535 - fold_sum s)) mod 65535 = 0"
proof -
  have "(s + (65535 - fold_sum s)) mod 65535 = (fold_sum s + (65535 - fold_sum s)) mod 65535"
    by (metis fold_sum_mod mod_add_left_eq)
  then show ?thesis using fold_sum_le [of s] by simp
qed

lemma udp_complement_ok: "(s + udp_checksum_value s) mod 65535 = 0"
proof (cases "65535 - fold_sum s = 0")
  case True
  then have "fold_sum s = 65535" using fold_sum_le [of s] by simp
  then show ?thesis using fold_sum_mod [of s] by (simp add: udp_checksum_value_def)
qed (use complement_ok [of s] in \<open>simp add: udp_checksum_value_def\<close>)

lemma udp_checksum_le: "udp_checksum_value s \<le> 65535"
  by (simp add: udp_checksum_value_def Let_def)

text \<open>Writing at an even place of a byte string that has two zeros there.\<close>

lemma inet_ok_put:
  assumes even: "even (length pre)" "even i" and i: "i + 2 \<le> length seg" and n: "n \<le> 65535"
    and sum: "(words_sum pre + words_sum (take i seg) + words_sum (drop (i + 2) seg) + n) mod 65535 = 0"
  shows "inet_ok (pre @ patch seg i (put16 n))"
proof -
  have "even (length (take i seg))" using even(2) i by (simp add: min_def)
  then have "words_sum (pre @ take i seg @ put16 n @ drop (i + 2) seg) =
      words_sum pre + (words_sum (take i seg) + (n + words_sum (drop (i + 2) seg)))"
    using even(1) n by (simp add: words_sum_append words_sum_put16)
  then show ?thesis unfolding inet_ok_def patch_def using sum by (simp add: ac_simps)
qed

lemma words_sum_zeros:
  assumes "even i" "i + 2 \<le> length seg" "seg ! i = 0" "seg ! (i + 1) = 0"
  shows "words_sum seg = words_sum (take i seg) + words_sum (drop (i + 2) seg)"
proof -
  have "seg = take i seg @ drop i seg" by simp
  moreover have "drop i seg = seg ! i # seg ! (i + 1) # drop (i + 2) seg"
    using assms(2) Cons_nth_drop_Suc [of i seg] Cons_nth_drop_Suc [of "Suc i" seg] by (simp add: numeral_2_eq_2)
  moreover have "even (length (take i seg))" using assms(1,2) by (simp add: min_def)
  ultimately have "words_sum seg = words_sum (take i seg) + words_sum (seg ! i # seg ! (i + 1) # drop (i + 2) seg)"
    using words_sum_append by metis
  then show ?thesis using assms(3,4) by simp
qed

text \<open>Summing with the checksum field at zero and writing the complement there.\<close>

lemma checksum_written:
  assumes pre: "even (length pre)" and i: "even i" "i + 2 \<le> length seg" and z: "zeroed = patch seg i [0, 0]"
    and small: "length pre + length seg < 100000"
    and c: "c \<le> 65535" "(add_words (add_words 0 pre) zeroed + c) mod 65535 = 0"
  shows "inet_ok (pre @ patch seg i (put16 c))"
proof -
  have l: "length zeroed = length seg" using i z by simp
  have "words_sum zeroed = words_sum (take i zeroed) + words_sum (drop (i + 2) zeroed)"
    using i z by (intro words_sum_zeros) (simp_all add: nth_patch_in)
  then have w: "words_sum zeroed = words_sum (take i seg) + words_sum (drop (i + 2) seg)"
    using i z by (simp add: take_patch drop_patch)
  have "words_sum pre + words_sum zeroed < 2 ^ 32"
    using words_sum_bound [of pre] words_sum_bound [of zeroed] small l by simp
  then have "add_words (add_words 0 pre) zeroed = words_sum pre + words_sum zeroed"
    by (simp add: add_words_eq)
  then show ?thesis using c w i by (intro inet_ok_put pre) (simp_all add: ac_simps)
qed

subsection \<open>Packets with a right checksum\<close>

text \<open>What a receiver checks: the sum over the pseudo header and the segment, and over the IPv4 header.\<close>

definition pseudo4 :: "byte \<Rightarrow> bytes \<Rightarrow> nat \<Rightarrow> bytes" where
  "pseudo4 proto p n = take 4 (drop 12 p) @ take 4 (drop 16 p) @ [0, proto] @ put16 n"

definition tcp4_valid :: "bytes \<Rightarrow> nat \<Rightarrow> nat \<Rightarrow> bool" where
  "tcp4_valid p h tot \<longleftrightarrow> inet_ok (pseudo4 6 p (tot - h) @ take (tot - h) (drop h p))"

definition tcp6_valid :: "bytes \<Rightarrow> nat \<Rightarrow> bool" where
  "tcp6_valid p n \<longleftrightarrow> inet_ok (pseudo6 6 (take 16 (drop 8 p)) (take 16 (drop 24 p)) n @ take n (drop 40 p))"

definition udp6_valid :: "bytes \<Rightarrow> nat \<Rightarrow> bool" where
  "udp6_valid p n \<longleftrightarrow> inet_ok (pseudo6 17 (take 16 (drop 8 p)) (take 16 (drop 24 p)) n @ take n (drop 40 p))"

lemma fold_complement_le: "65535 - fold_sum s \<le> 65535"
  by simp

text \<open>The pattern all routines for a segment share: the field at \<open>h + i\<close>, the segment from \<open>h\<close> to \<open>h + n\<close>.\<close>

lemma segment_checksum:
  assumes h: "h + n \<le> length p" and i: "even i" "i + 2 \<le> n" and pre: "even (length pre)" "length pre \<le> 40"
    and n: "n \<le> 65535" and c: "c \<le> 65535"
    "(add_words (add_words 0 pre) (take n (drop h (patch p (h + i) [0, 0]))) + c) mod 65535 = 0"
  shows "inet_ok (pre @ take n (drop h (patch p (h + i) (put16 c))))"
proof -
  have e: "take n (drop h (patch p (h + i) v)) = patch (take n (drop h p)) i v" if "length v = 2" for v
    using that h i by (simp add: drop_patch_in take_patch_in)
  show ?thesis unfolding e [of "put16 c", simplified]
  proof (rule checksum_written [OF pre(1) i(1) _ refl _ c(1)])
    show "i + 2 \<le> length (take n (drop h p))" using h i by simp
    show "length pre + length (take n (drop h p)) < 100000" using pre(2) n by simp
    show "(add_words (add_words 0 pre) (patch (take n (drop h p)) i [0, 0]) + c) mod 65535 = 0"
      using c(2) e [of "[0, 0]"] by simp
  qed
qed

lemma FixTCPChecksum_eq:
  assumes hdr: "ip_hdr_len p = Some h" "20 \<le> h" and tot: "be16 p 2 = Some tot" "h + 18 \<le> tot" "tot \<le> length p"
  shows "\<exists>c. FixTCPChecksum p = Some (patch p (h + 16) (put16 c)) \<and> tcp4_valid (patch p (h + 16) (put16 c)) h tot"
proof -
  let ?z = "patch p (h + 16) [0, 0]"
  let ?pre = "pseudo4 6 p (tot - h)"
  define c where "c = 65535 - fold_sum (add_words (add_words 0 ?pre) (take (tot - h) (drop h ?z)))"
  have z: "patch (patch p (h + 16) [0]) (h + 17) [0] = ?z"
    using tot patch_two [of "h + 16" p 0 0] by (simp add: add.commute)
  have sl: "take 4 (drop a (patch p (h + 16) v)) = take 4 (drop a p)" if "length v = 2" "a \<le> 16" for a v
    using that hdr(2) tot by (intro slice_patch) auto
  have t: "be16 ?z 2 = Some tot" using hdr(2) tot by (subst be16_patch) auto
  have "FixTCPChecksum p = Some (patch ?z (h + 16) (put16 c))"
    using hdr tot t by (simp add: FixTCPChecksum_def z sl c_def pseudo4_def)
  then have f: "FixTCPChecksum p = Some (patch p (h + 16) (put16 c))"
    using tot by (simp add: patch_patch)
  have "inet_ok (?pre @ take (tot - h) (drop h (patch p (h + 16) (put16 c))))"
  proof (rule segment_checksum)
    show "even (length ?pre)" "length ?pre \<le> 40" using hdr(2) tot by (simp_all add: pseudo4_def)
    show "(add_words (add_words 0 ?pre) (take (tot - h) (drop h ?z)) + c) mod 65535 = 0"
      unfolding c_def by (rule complement_ok)
    show "c \<le> 65535" by (simp add: c_def)
    show "tot - h \<le> 65535" using be16_SomeD [OF tot(1)] by linarith
  qed (use hdr tot in auto)
  then have "tcp4_valid (patch p (h + 16) (put16 c)) h tot"
    by (simp add: tcp4_valid_def pseudo4_def sl)
  with f show ?thesis by blast
qed

lemma FixIPv4Checksum_eq:
  assumes hdr: "ip_hdr_len ip = Some (length ip)" "20 \<le> length ip"
  shows "\<exists>c. FixIPv4Checksum ip = Some (patch ip 10 (put16 c)) \<and> inet_ok (patch ip 10 (put16 c))"
proof -
  let ?z = "patch ip 10 [0, 0]"
  define c where "c = 65535 - fold_sum (add_words 0 ?z)"
  have z: "ip_hdr_len ?z = Some (length ip)" "length ?z = length ip"
    using hdr by (simp_all add: ip_hdr_len_eq nth_patch) (auto simp: patch_def)
  have "FixIPv4Checksum ip = Some (patch ip 10 (put16 c))"
    using hdr z by (simp add: FixIPv4Checksum_def c_def patch_patch)
  moreover have "inet_ok ([] @ patch ip 10 (put16 c))"
    using hdr ip_hdr_len_bound [OF hdr(1)] complement_ok [of "add_words 0 ?z"]
    by (intro checksum_written [where zeroed = ?z]) (simp_all add: c_def)
  ultimately show ?thesis by auto
qed

lemma fix_ip_header_eq:
  assumes "ip_hdr_len p = Some h" "20 \<le> h" "h \<le> length p"
  shows "\<exists>c. fix_ip_header p h = Some (patch p 10 (put16 c)) \<and> inet_ok (take h (patch p 10 (put16 c)))"
proof -
  have "ip_hdr_len (take h p) = Some (length (take h p))" using assms by (auto simp: ip_hdr_len_eq)
  from FixIPv4Checksum_eq [OF this] obtain c where
    c: "FixIPv4Checksum (take h p) = Some (patch (take h p) 10 (put16 c))" "inet_ok (patch (take h p) 10 (put16 c))"
    using assms by auto
  moreover have "patch (take h p) 10 (put16 c) = take h (patch p 10 (put16 c))" using assms by (simp add: take_patch_in)
  moreover have "take h (patch p 10 (put16 c)) @ drop h p = patch p 10 (put16 c)"
    using assms by (subst drop_patch [of 10 "put16 c" p h, symmetric]) simp_all
  ultimately show ?thesis using assms by (auto simp: fix_ip_header_def)
qed

lemma pseudo6_length [simp]: "length src = 16 \<Longrightarrow> length dst = 16 \<Longrightarrow> length (pseudo6 proto src dst n) = 40"
  by (simp add: pseudo6_def)

lemma FixTCPChecksumV6_eq:
  assumes n: "be16 p 4 = Some n" "18 \<le> n" "40 + n \<le> length p"
  shows "\<exists>c. FixTCPChecksumV6 p = Some (patch p 56 (put16 c)) \<and> tcp6_valid (patch p 56 (put16 c)) n"
proof -
  let ?z = "patch p (40 + 16) [0, 0]"
  let ?pre = "pseudo6 6 (take 16 (drop 8 p)) (take 16 (drop 24 p)) n"
  define c where "c = 65535 - fold_sum (add_words (add_words 0 ?pre) (take n (drop 40 ?z)))"
  have z: "patch (patch p 56 [0]) 57 [0] = ?z" using n patch_two [of 56 p 0 0] by simp
  have sl: "take 16 (drop a (patch p 56 v)) = take 16 (drop a p)" if "length v = 2" "a \<le> 24" for a v
    using that n by (intro slice_patch) auto
  have t: "be16 (patch p 56 [0, 0]) 4 = Some n" using n by (subst be16_patch) auto
  have f: "FixTCPChecksumV6 p = Some (patch p 56 (put16 c))"
    using n t z by (simp add: FixTCPChecksumV6_def sl c_def patch_patch)
  have "inet_ok (?pre @ take n (drop 40 (patch p (40 + 16) (put16 c))))"
  proof (rule segment_checksum)
    show "even (length ?pre)" "length ?pre \<le> 40" using n by simp_all
    show "(add_words (add_words 0 ?pre) (take n (drop 40 ?z)) + c) mod 65535 = 0" unfolding c_def by (rule complement_ok)
    show "n \<le> 65535" using be16_SomeD [OF n(1)] by linarith
  qed (use n in \<open>auto simp: c_def\<close>)
  then have "tcp6_valid (patch p 56 (put16 c)) n" by (simp add: tcp6_valid_def sl)
  with f show ?thesis by blast
qed

lemma FixUDPChecksumV6_eq:
  assumes n: "be16 p 4 = Some n" "8 \<le> n" "40 + n \<le> length p"
  shows "\<exists>c. FixUDPChecksumV6 p = Some (patch p 46 (put16 c)) \<and> udp6_valid (patch p 46 (put16 c)) n \<and> 0 < c \<and> c \<le> 65535"
proof -
  let ?z = "patch p (40 + 6) [0, 0]"
  let ?pre = "pseudo6 17 (take 16 (drop 8 p)) (take 16 (drop 24 p)) n"
  define c where "c = udp_checksum_value (add_words (add_words 0 ?pre) (take n (drop 40 ?z)))"
  have z: "patch (patch p 46 [0]) 47 [0] = ?z" using n patch_two [of 46 p 0 0] by simp
  have sl: "take 16 (drop a (patch p 46 v)) = take 16 (drop a p)" if "length v = 2" "a \<le> 24" for a v
    using that n by (intro slice_patch) auto
  have t: "be16 (patch p 46 [0, 0]) 4 = Some n" using n by (subst be16_patch) auto
  have f: "FixUDPChecksumV6 p = Some (patch p 46 (put16 c))"
    using n t z by (simp add: FixUDPChecksumV6_def sl c_def patch_patch)
  have "inet_ok (?pre @ take n (drop 40 (patch p (40 + 6) (put16 c))))"
  proof (rule segment_checksum)
    show "even (length ?pre)" "length ?pre \<le> 40" using n by simp_all
    show "(add_words (add_words 0 ?pre) (take n (drop 40 ?z)) + c) mod 65535 = 0" unfolding c_def by (rule udp_complement_ok)
    show "n \<le> 65535" using be16_SomeD [OF n(1)] by linarith
  qed (use n in \<open>auto simp: c_def udp_checksum_le\<close>)
  then have "udp6_valid (patch p 46 (put16 c)) n" by (simp add: udp6_valid_def sl)
  moreover have "0 < c" "c \<le> 65535" by (simp_all add: c_def udp_checksum_value_def Let_def)
  ultimately show ?thesis using f by blast
qed

text \<open>
  C28. The checksum routines leave packets that a receiver accepts. For a packet whose header
  lengths are consistent, \<^verbatim>\<open>FixTCPChecksum\<close> and \<^verbatim>\<open>FixTCPChecksumV6\<close> return without a panic, change nothing
  but the two bytes of the checksum, and the one's-complement sum over the pseudo header and the
  TCP segment is then right; \<^verbatim>\<open>FixIPv4Checksum\<close> does the same for the IPv4 header.
\<close>

theorem checksums_made_right:
  assumes v4: "ip_hdr_len p = Some h" "20 \<le> h" "be16 p 2 = Some tot" "h + 18 \<le> tot" "tot \<le> length p"
    and v6: "be16 q 4 = Some n" "18 \<le> n" "40 + n \<le> length q"
  shows "(\<exists>c. FixTCPChecksum p = Some (patch p (h + 16) (put16 c)) \<and> tcp4_valid (patch p (h + 16) (put16 c)) h tot) \<and>
    (\<exists>c. fix_ip_header p h = Some (patch p 10 (put16 c)) \<and> inet_ok (take h (patch p 10 (put16 c)))) \<and>
    (\<exists>c. FixTCPChecksumV6 q = Some (patch q 56 (put16 c)) \<and> tcp6_valid (patch q 56 (put16 c)) n)"
  using FixTCPChecksum_eq [OF v4] fix_ip_header_eq [OF v4(1,2)] FixTCPChecksumV6_eq [OF v6] v4 by auto

theorem checksums_made_right_witness:
  "\<exists>c. FixTCPChecksumV6 ([0x60, 0, 0, 0, 0, 18] @ replicate 52 7) = Some (patch ([0x60, 0, 0, 0, 0, 18] @ replicate 52 7) 56 (put16 c))"
proof -
  let ?q = "[0x60, 0, 0, 0, 0, 18] @ replicate 52 (7 :: byte)"
  let ?p = "[0x45, 0, 0, 40] @ replicate 36 (7 :: byte)"
  have "be16 ?q 4 = Some 18" "40 + 18 \<le> length ?q" by (simp_all add: be16_def)
  moreover have "ip_hdr_len ?p = Some 20" "be16 ?p 2 = Some 40" "40 \<le> length ?p" by (simp_all add: be16_def ip_hdr_len_eq)
  ultimately show ?thesis using checksums_made_right [of ?p 20 40 ?q 18] by auto
qed

subsection \<open>Spoiling a checksum\<close>

lemma unat_flip: "unat (b XOR 0xFF :: byte) = 255 - unat b"
proof -
  have "(0xFF :: byte) = - 1" by simp
  then have "b XOR 0xFF = NOT b" by (simp only:) (simp add: bit_eq_iff bit_simps)
  then have "b XOR 0xFF = - 1 - b" by (simp add: not_eq_complement)
  moreover have "unat (- 1 - b) = unat (- 1 :: byte) - unat b" by (rule unat_sub) simp
  moreover have "unat (- 1 :: byte) = 255" by (simp add: unsigned_minus_1_eq_mask mask_eq_exp_minus_1)
  ultimately show ?thesis by simp
qed

lemma words_sum_patch:
  "even i \<Longrightarrow> i + 2 \<le> length seg \<Longrightarrow>
   words_sum (patch seg i [x, y]) = words_sum (take i seg) + (256 * unat x + unat y) + words_sum (drop (i + 2) seg)"
  by (simp add: patch_def words_sum_append min_def numeral_2_eq_2)

lemma patch_same: "i + 2 \<le> length b \<Longrightarrow> patch b i [b ! i, b ! (i + 1)] = b"
  using Cons_nth_drop_Suc [of i b] Cons_nth_drop_Suc [of "Suc i" b] by (simp add: patch_def numeral_2_eq_2)

lemma flip_word_multiple:
  fixes S w :: nat
  assumes "(S + w) mod 65535 = 0" and "w \<le> 65535"
  shows "(S + (65535 - w)) mod 65535 = 0 \<longleftrightarrow> w = 0 \<or> w = 65535"
proof -
  obtain k where k: "S + w = 65535 * k" using assms(1) by auto
  show ?thesis
  proof
    assume "(S + (65535 - w)) mod 65535 = 0"
    then obtain j where "S + (65535 - w) = 65535 * j" by auto
    with k assms(2) have "2 * w + 65535 * j = 65535 * (k + 1)" by simp
    moreover from this have "j \<le> k + 1" "k + 1 \<le> j + 2" using assms(2) by simp_all
    then have "k + 1 = j \<or> k + 1 = j + 1 \<or> k + 1 = j + 2" by arith
    moreover have "2 * w \<noteq> 65535" by presburger
    ultimately show "w = 0 \<or> w = 65535" by auto
  next
    assume "w = 0 \<or> w = 65535"
    then show "(S + (65535 - w)) mod 65535 = 0" using assms(1) by (auto simp: mod_eq_0_iff_dvd)
  qed
qed

lemma flip_byte_multiple:
  fixes S b :: nat
  assumes "(S + 256 * b) mod 65535 = 0" and "b \<le> 255"
  shows "(S + 256 * (255 - b)) mod 65535 \<noteq> 0"
proof
  assume "(S + 256 * (255 - b)) mod 65535 = 0"
  then obtain j where j: "S + 256 * (255 - b) = 65535 * j" by auto
  obtain k where k: "S + 256 * b = 65535 * k" using assms(1) by auto
  have "256 * (255 - b) = 65280 - 256 * b" by simp
  with j k assms(2) have "512 * b + 65535 * j = 65535 * k + 65280" by simp
  then show False
  proof (cases j k rule: linorder_cases)
    case equal
    then have "512 * b = 65280" using \<open>512 * b + 65535 * j = 65535 * k + 65280\<close> by simp
    then show False by presburger
  qed (use \<open>512 * b + 65535 * j = 65535 * k + 65280\<close> assms(2) in linarith)+
qed

lemma corrupt_checksum_facts:
  assumes hdr: "ip_hdr_len p = Some h" "20 \<le> h" and tot: "h + 18 \<le> tot" "tot \<le> length p"
    and ok: "tcp4_valid p h tot"
  shows "(\<exists>q. CorruptTCPChecksum p = Some q \<and> \<not> tcp4_valid q h tot) \<and>
    (\<exists>q. corruptTCPChecksum p h = Some q \<and>
       (tcp4_valid q h tot \<longleftrightarrow> be16 p (h + 16) = Some 0 \<or> be16 p (h + 16) = Some 65535))"
proof -
  define n where "n = tot - h"
  define seg where "seg = take n (drop h p)"
  define x y where "x = p ! (h + 16)" and "y = p ! (h + 17)"
  define S where "S = words_sum (pseudo4 6 p n) + words_sum (take 16 seg) + words_sum (drop 18 seg)"
  have len: "length seg = n" "18 \<le> n" using tot by (simp_all add: seg_def n_def)
  have pre: "even (length (pseudo4 6 p n))" using hdr tot by (simp add: pseudo4_def)
  have sum: "tcp4_valid (patch p (h + 16) [a, b]) h tot \<longleftrightarrow> (S + (256 * unat a + unat b)) mod 65535 = 0" for a b
  proof -
    have e: "take n (drop h (patch p (h + 16) [a, b])) = patch seg 16 [a, b]"
      using tot by (simp add: seg_def n_def drop_patch_in take_patch_in)
    have ps: "pseudo4 6 (patch p (h + 16) [a, b]) n = pseudo4 6 p n"
      using hdr tot by (simp add: pseudo4_def slice_patch)
    show ?thesis
      unfolding tcp4_valid_def n_def [symmetric] e ps inet_ok_def words_sum_append [OF pre]
      using words_sum_patch [of 16 seg a b] len by (simp add: S_def ac_simps)
  qed
  have same: "patch p (h + 16) [x, y] = p"
    using patch_same [of "h + 16" p] tot by (simp add: x_def y_def add.commute)
  have w: "(S + (256 * unat x + unat y)) mod 65535 = 0" using sum [of x y] ok same by simp
  have b16: "be16 p (h + 16) = Some (256 * unat x + unat y)"
    using tot be16_lt [of "h + 16" p] by (simp add: x_def y_def add.commute)
  have patch1: "patch p (h + 16) [a] = patch p (h + 16) [a, y]" for a
    using tot Cons_nth_drop_Suc [of "h + 17" p] by (simp add: patch_def y_def numeral_2_eq_2 add.commute)
  have c1: "CorruptTCPChecksum p = Some (patch p (h + 16) [x XOR 0xFF, y])"
    using hdr(1) tot patch1 by (simp add: CorruptTCPChecksum_def x_def)
  have "\<not> tcp4_valid (patch p (h + 16) [x XOR 0xFF, y]) h tot"
    unfolding sum using w flip_byte_multiple [of "S + unat y" "unat x"] unat_byte_less [of x]
    by (simp add: unat_flip ac_simps)
  moreover have c2: "corruptTCPChecksum p h = Some (patch p (h + 16) [x XOR 0xFF, y XOR 0xFF])"
    using tot patch_two [of "h + 16" p "x XOR 0xFF" "y XOR 0xFF"]
    by (simp add: corruptTCPChecksum_def x_def y_def nth_patch add.commute)
  moreover have "tcp4_valid (patch p (h + 16) [x XOR 0xFF, y XOR 0xFF]) h tot \<longleftrightarrow>
      256 * unat x + unat y = 0 \<or> 256 * unat x + unat y = 65535"
  proof -
    have "256 * (255 - unat x) + (255 - unat y) = 65535 - (256 * unat x + unat y)" "256 * unat x + unat y \<le> 65535"
      using unat_byte_less [of x] unat_byte_less [of y] by linarith+
    then show ?thesis unfolding sum unat_flip using flip_word_multiple [OF w] by simp
  qed
  ultimately show ?thesis using c1 b16 by auto
qed

text \<open>
  C38. When a spoilt checksum is really wrong. \<^verbatim>\<open>CorruptTCPChecksum\<close>, which flips the first byte of the checksum,
  makes every valid packet invalid. \<^verbatim>\<open>corruptTCPChecksum\<close>, which flips both bytes, does so exactly when the
  checksum is neither 0x0000 nor 0xFFFF: the two stand for the same value in one's-complement
  arithmetic, so flipping one gives the other and the packet stays valid.
\<close>

theorem corrupting_a_checksum:
  assumes hdr: "ip_hdr_len p = Some h" "20 \<le> h" and tot: "h + 18 \<le> tot" "tot \<le> length p"
    and ok: "tcp4_valid p h tot"
  shows "(\<exists>q. CorruptTCPChecksum p = Some q \<and> \<not> tcp4_valid q h tot) \<and>
    (\<exists>q. corruptTCPChecksum p h = Some q \<and>
       (tcp4_valid q h tot \<longleftrightarrow> be16 p (h + 16) = Some 0 \<or> be16 p (h + 16) = Some 65535))"
  by (rule corrupt_checksum_facts [OF assms])

definition small_segment :: bytes where
  "small_segment = [0x45, 0, 0, 40, 0, 0, 0, 0, 0, 0, 0, 0, 0, 0, 0, 0, 0, 0, 0, 0,
     0, 0, 0, 0, 0, 0, 0, 0, 0, 0, 0, 0, 0, 0, 0, 0, 0xFF, 0xE5, 0, 0]"

theorem corrupting_a_checksum_witness:
  "\<exists>q. corruptTCPChecksum small_segment 20 = Some q \<and> \<not> tcp4_valid q 20 40"
proof -
  have "ip_hdr_len small_segment = Some 20" "tcp4_valid small_segment 20 40" "be16 small_segment 36 = Some 65509"
    by (simp_all add: small_segment_def ip_hdr_len_eq tcp4_valid_def inet_ok_def pseudo4_def put16_def be16_def)
  moreover have "length small_segment = 40" by (simp add: small_segment_def)
  ultimately show ?thesis using corrupting_a_checksum [of small_segment 20 40] by auto
qed

end
