(* ===== verification/Tcp_Segments.thy ===== *)
theory Tcp_Segments
  imports Ip_Checksum Tls_Hello "HOL-Library.Multiset"
begin

text \<open>
  Cutting a TCP segment into several (\<^verbatim>\<open>src/nfq/common.go\<close>, \<^verbatim>\<open>common_ipv6.go\<close>, \<^verbatim>\<open>extsplit.go\<close> and parts of
  \<^verbatim>\<open>desync.go\<close>, \<^verbatim>\<open>clienthello.go\<close>, \<^verbatim>\<open>httpmethod.go\<close>, \<^verbatim>\<open>config/types.go\<close>): reading the headers, building segments, choosing
  the places to cut and the order to send.

  The strategies exist once for IPv4 and once for IPv6 and differ only in the functions they
  call; these functions are the fields of \<open>ip_family\<close>. Sequence numbers are \<^typ>\<open>32 word\<close> and
  wrap as \<^verbatim>\<open>uint32\<close> does. The values of the random source,
  and the width of \<^verbatim>\<open>int\<close>, are arguments (\<open>draws\<close>).
  An outer \<^const>\<open>None\<close> is a panic.
\<close>

subsection \<open>Settings\<close>

text \<open>The fields of the settings that this code reads; fields of the same name in two of the structs carry the struct's name in front.\<close>

record ComboFragConfig =
  FirstByteSplit :: bool
  ExtensionSplit :: bool
  ComboShuffleMode :: gostr
  DecoyEnabled :: bool
  ComboFakePerSegment :: bool
  ComboFakePerSegCount :: int
  ComboFakePerSegCountMax :: int

record DisorderFragConfig =
  DisorderShuffleMode :: gostr
  MinJitterUs :: int
  MaxJitterUs :: int
  DisorderFakePerSegment :: bool
  DisorderFakePerSegCount :: int
  DisorderFakePerSegCountMax :: int

record FragmentationConfig =
  Strategy :: gostr
  ReverseOrder :: bool
  StrategyPool :: "gostr list"
  TLSRecordPosition :: int
  TLSRecordPositionMax :: int
  MiddleSNI :: bool
  SNIPosition :: int
  SNIPositionMax :: int
  OOBPosition :: int
  OOBPositionMax :: int
  OOBChar :: byte
  SeqOverlapBytes :: bytes
  SeqOverlapLength :: int
  Combo :: ComboFragConfig
  Disorder :: DisorderFragConfig

record FakingConfig =
  FakeTTL :: byte
  FakeStrategy :: gostr

record draws =
  int_width :: nat
  draw_shuffle :: "nat \<Rightarrow> nat"
  draw_count :: nat
  draw_position :: nat
  draw_strategy :: nat

text \<open>\<^verbatim>\<open>ResolveRange\<close> at the width \<open>w\<close> of \<^verbatim>\<open>int\<close>; \<open>r\<close> is the draw behind \<^verbatim>\<open>rand.Intn\<close>.\<close>

definition ResolveRange :: "nat \<Rightarrow> nat \<Rightarrow> int \<Rightarrow> int \<Rightarrow> int" where
  "ResolveRange w r mn mx =
     (if mx \<le> mn then mn
      else let span = go_wrap w (mx - mn) in
        if span < 0 \<or> span = 2 ^ (w - 1) - 1 then mn
        else mn + int r mod (span + 1))"

definition ResolveStrategyPool :: "nat \<Rightarrow> gostr list \<Rightarrow> gostr \<Rightarrow> gostr" where
  "ResolveStrategyPool r pool fallback = (if pool = [] then fallback else pool ! (r mod length pool))"

subsection \<open>Reading the headers\<close>

record PacketInfo =
  IPHdrLen :: nat
  TCPHdrLen :: nat
  PayloadStart :: nat
  PayloadLen :: nat
  Payload :: bytes
  Seq0 :: "32 word"
  ID0 :: "16 word"
  IsIPv6 :: bool

record Segment =
  Data :: bytes
  SegSeq :: "32 word"

definition ExtractPacketInfoV4 :: "bytes \<Rightarrow> PacketInfo option option" where
  "ExtractPacketInfoV4 packet =
     (if length packet < 40 then Some None
      else do {
        h \<leftarrow> ip_hdr_len packet;
        if length packet < h + 20 then Some None
        else do {
          d \<leftarrow> tcp_hdr_len packet h;
          if h + d > length packet then Some None
          else do {
            seq \<leftarrow> be32 packet (h + 4);
            i \<leftarrow> be16 packet 4;
            Some (Some \<lparr>IPHdrLen = h, TCPHdrLen = d, PayloadStart = h + d, PayloadLen = length packet - (h + d),
              Payload = drop (h + d) packet, Seq0 = word_of_nat seq, ID0 = word_of_nat i, IsIPv6 = False\<rparr>) } } })"

function upper_layer :: "bytes \<Rightarrow> byte \<Rightarrow> nat \<Rightarrow> (nat \<times> byte) option option" where
  "upper_layer packet nextHeader offset =
     (if nextHeader = 0 \<or> nextHeader = 43 \<or> nextHeader = 60 then
        if length packet < offset + 2 then Some None
        else do {
          nh \<leftarrow> at packet offset;
          l \<leftarrow> at_nat packet (offset + 1);
          upper_layer packet nh (offset + (l * 8 + 8)) }
      else if nextHeader = 44 then Some None
      else if offset > length packet then Some None
      else Some (Some (offset, nextHeader)))"
  by pat_completeness auto
termination
  by (relation "measure (\<lambda>(packet, nh, offset). length packet - offset)") auto

declare upper_layer.simps [simp del]

definition upperLayerOffsetV6 :: "bytes \<Rightarrow> (nat \<times> byte) option option" where
  "upperLayerOffsetV6 packet =
     (if length packet < 40 then Some None
      else do {
        v \<leftarrow> at packet 0;
        if drop_bit 4 v \<noteq> 6 then Some None
        else do { nh \<leftarrow> at packet 6; upper_layer packet nh 40 } })"

definition hasPlainIPv6Header :: "bytes \<Rightarrow> byte \<Rightarrow> bool option" where
  "hasPlainIPv6Header packet proto = do {
     r \<leftarrow> upperLayerOffsetV6 packet;
     Some (case r of None \<Rightarrow> False | Some (offset, upper) \<Rightarrow> offset = 40 \<and> upper = proto) }"

definition ExtractPacketInfoV6 :: "bytes \<Rightarrow> PacketInfo option option" where
  "ExtractPacketInfoV6 packet =
     (if length packet < 60 then Some None
      else do {
        r \<leftarrow> upperLayerOffsetV6 packet;
        case r of
          None \<Rightarrow> Some None
        | Some (offset, proto) \<Rightarrow>
            if proto \<noteq> 6 then Some None
            else if length packet < offset + 20 then Some None
            else do {
              d \<leftarrow> tcp_hdr_len packet offset;
              if offset + d > length packet then Some None
              else do {
                seq \<leftarrow> be32 packet (offset + 4);
                Some (Some \<lparr>IPHdrLen = offset, TCPHdrLen = d, PayloadStart = offset + d,
                  PayloadLen = length packet - (offset + d), Payload = drop (offset + d) packet,
                  Seq0 = word_of_nat seq, ID0 = 0, IsIPv6 = True\<rparr>) } } })"

subsection \<open>Building segments\<close>

definition BuildSegmentV4 :: "bytes \<Rightarrow> PacketInfo \<Rightarrow> bytes \<Rightarrow> 32 word \<Rightarrow> 16 word \<Rightarrow> bytes option" where
  "BuildSegmentV4 packet pi payloadSlice seqOffset idOffset = do {
     hdr \<leftarrow> sub_bytes packet 0 (PayloadStart pi);
     let seg = hdr @ payloadSlice;
     seg \<leftarrow> put_at seg (IPHdrLen pi + 4) (put32 (unat (Seq0 pi + seqOffset)));
     seg \<leftarrow> put_at seg 4 (put16 (unat (ID0 pi + idOffset)));
     seg \<leftarrow> put_at seg 2 (put16 (length seg));
     seg \<leftarrow> fix_ip_header seg (IPHdrLen pi);
     FixTCPChecksum seg }"

definition BuildSegmentV6 :: "bytes \<Rightarrow> PacketInfo \<Rightarrow> bytes \<Rightarrow> 32 word \<Rightarrow> bytes option" where
  "BuildSegmentV6 packet pi payloadSlice seqOffset = do {
     hdr \<leftarrow> sub_bytes packet 0 (PayloadStart pi);
     let seg = hdr @ payloadSlice;
     seg \<leftarrow> put_at seg (IPHdrLen pi + 4) (put32 (unat (Seq0 pi + seqOffset)));
     seg \<leftarrow> put_at seg 4 (put16 (length seg - 40));
     FixTCPChecksumV6 seg }"

definition SetPSH :: "bytes \<Rightarrow> nat \<Rightarrow> bytes option" where
  "SetPSH seg h = do { b \<leftarrow> at seg (h + 13); put_at seg (h + 13) [b OR 0x08] }"

definition ClearPSH :: "bytes \<Rightarrow> nat \<Rightarrow> bytes option" where
  "ClearPSH seg h = do { b \<leftarrow> at seg (h + 13); put_at seg (h + 13) [b AND NOT 0x08] }"

definition dynamicTTL :: "bytes \<Rightarrow> bool \<Rightarrow> byte \<Rightarrow> byte option" where
  "dynamicTTL packet v6 configTTL = do {
     realTTL \<leftarrow> at packet (if v6 then 7 else 8);
     let ttl = (if configTTL = 0 then 5 else configTTL);
     let ttl = (if ttl \<ge> realTTL \<and> realTTL > 1 then realTTL - 1 else ttl);
     Some (if ttl < 1 then 1 else ttl) }"

text \<open>The bytes of an overlap and of a fake segment.\<close>

definition pattern_bytes :: "bytes \<Rightarrow> nat \<Rightarrow> bytes" where
  "pattern_bytes pat n = map (\<lambda>i. pat ! (i mod length pat)) [0..<n]"

definition fake_bytes :: "bytes \<Rightarrow> nat \<Rightarrow> bytes" where
  "fake_bytes pat n =
     (if pat = [] then map (\<lambda>i. word_of_nat (i * 7) AND 0xFF) [0..<n] else pattern_bytes pat n)"

definition BuildFakeOverlapSegmentV4 ::
    "bytes \<Rightarrow> PacketInfo \<Rightarrow> nat \<Rightarrow> 32 word \<Rightarrow> 16 word \<Rightarrow> bytes \<Rightarrow> byte \<Rightarrow> bytes option option" where
  "BuildFakeOverlapSegmentV4 packet pi payloadLen seqOffset idOffset fakePattern fakeTTL =
     (if payloadLen = 0 then Some None
      else do {
        hdr \<leftarrow> sub_bytes packet 0 (PayloadStart pi);
        let seg = hdr @ fake_bytes fakePattern payloadLen;
        seg \<leftarrow> put_at seg (IPHdrLen pi + 4) (put32 (unat (Seq0 pi + seqOffset)));
        seg \<leftarrow> put_at seg 4 (put16 (unat (ID0 pi + idOffset)));
        seg \<leftarrow> put_at seg 2 (put16 (length seg));
        ttl \<leftarrow> dynamicTTL packet False fakeTTL;
        seg \<leftarrow> put_at seg 8 [ttl];
        seg \<leftarrow> ClearPSH seg (IPHdrLen pi);
        seg \<leftarrow> fix_ip_header seg (IPHdrLen pi);
        seg \<leftarrow> FixTCPChecksum seg;
        seg \<leftarrow> corruptTCPChecksum seg (IPHdrLen pi);
        Some (Some seg) })"

definition BuildFakeOverlapSegmentV6 ::
    "bytes \<Rightarrow> PacketInfo \<Rightarrow> nat \<Rightarrow> 32 word \<Rightarrow> bytes \<Rightarrow> byte \<Rightarrow> bytes option option" where
  "BuildFakeOverlapSegmentV6 packet pi payloadLen seqOffset fakePattern fakeHopLimit =
     (if payloadLen = 0 then Some None
      else do {
        hdr \<leftarrow> sub_bytes packet 0 (PayloadStart pi);
        let seg = hdr @ fake_bytes fakePattern payloadLen;
        seg \<leftarrow> put_at seg (IPHdrLen pi + 4) (put32 (unat (Seq0 pi + seqOffset)));
        seg \<leftarrow> put_at seg 4 (put16 (length seg - 40));
        ttl \<leftarrow> dynamicTTL packet True fakeHopLimit;
        seg \<leftarrow> put_at seg 7 [ttl];
        seg \<leftarrow> ClearPSH seg (IPHdrLen pi);
        seg \<leftarrow> FixTCPChecksumV6 seg;
        seg \<leftarrow> corruptTCPChecksum seg (IPHdrLen pi);
        Some (Some seg) })"

text \<open>The packet with the payload of a decoy, before it is cut in two.\<close>

definition decoy_packet4 :: "bytes \<Rightarrow> PacketInfo \<Rightarrow> bytes \<Rightarrow> byte \<Rightarrow> bytes option" where
  "decoy_packet4 packet pi blob fakeTTL = do {
     hdr \<leftarrow> sub_bytes packet 0 (PayloadStart pi);
     let p = hdr @ blob;
     p \<leftarrow> put_at p 2 (put16 (length p));
     ttl \<leftarrow> dynamicTTL packet False fakeTTL;
     p \<leftarrow> put_at p 8 [ttl];
     p \<leftarrow> fix_ip_header p (IPHdrLen pi);
     FixTCPChecksum p }"

definition decoy_packet6 :: "bytes \<Rightarrow> PacketInfo \<Rightarrow> bytes \<Rightarrow> byte \<Rightarrow> bytes option" where
  "decoy_packet6 packet pi blob fakeTTL = do {
     hdr \<leftarrow> sub_bytes packet 0 (PayloadStart pi);
     let p = hdr @ blob;
     p \<leftarrow> put_at p 4 (put16 (length p - 40));
     ttl \<leftarrow> dynamicTTL packet True fakeTTL;
     p \<leftarrow> put_at p 7 [ttl];
     FixTCPChecksumV6 p }"

text \<open>Segments cut without a \<^verbatim>\<open>PacketInfo\<close>: the first \<open>n\<close> bytes of a packet, and its header with other data.\<close>

definition cut_first4 :: "bytes \<Rightarrow> nat \<Rightarrow> nat \<Rightarrow> bytes option" where
  "cut_first4 packet h n = do {
     seg \<leftarrow> sub_bytes packet 0 n;
     seg \<leftarrow> put_at seg 2 (put16 n);
     seg \<leftarrow> fix_ip_header seg h;
     FixTCPChecksum seg }"

definition cut_next4 :: "bytes \<Rightarrow> nat \<Rightarrow> nat \<Rightarrow> bytes \<Rightarrow> 32 word \<Rightarrow> 16 word \<Rightarrow> bytes option" where
  "cut_next4 packet h ps sl off i = do {
     hdr \<leftarrow> sub_bytes packet 0 ps;
     let seg = hdr @ sl;
     seq \<leftarrow> be32 packet (h + 4);
     id0 \<leftarrow> be16 packet 4;
     seg \<leftarrow> put_at seg (h + 4) (put32 (unat (word_of_nat seq + off)));
     seg \<leftarrow> put_at seg 4 (put16 (unat (word_of_nat id0 + i)));
     seg \<leftarrow> put_at seg 2 (put16 (length seg));
     seg \<leftarrow> fix_ip_header seg h;
     FixTCPChecksum seg }"

definition cut_first6 :: "bytes \<Rightarrow> nat \<Rightarrow> nat \<Rightarrow> bytes option" where
  "cut_first6 packet h n = do {
     seg \<leftarrow> sub_bytes packet 0 n;
     seg \<leftarrow> put_at seg 4 (put16 (n - h));
     FixTCPChecksumV6 seg }"

definition cut_next6 :: "bytes \<Rightarrow> nat \<Rightarrow> nat \<Rightarrow> bytes \<Rightarrow> 32 word \<Rightarrow> 16 word \<Rightarrow> bytes option" where
  "cut_next6 packet h ps sl off i = do {
     hdr \<leftarrow> sub_bytes packet 0 ps;
     let seg = hdr @ sl;
     seq \<leftarrow> be32 packet (h + 4);
     seg \<leftarrow> put_at seg (h + 4) (put32 (unat (word_of_nat seq + off)));
     seg \<leftarrow> put_at seg 4 (put16 (length seg - h));
     FixTCPChecksumV6 seg }"

subsection \<open>The two families\<close>

record ip_family =
  fam_extract :: "bytes \<Rightarrow> PacketInfo option option"
  fam_build :: "bytes \<Rightarrow> PacketInfo \<Rightarrow> bytes \<Rightarrow> 32 word \<Rightarrow> 16 word \<Rightarrow> bytes option"
  fam_fix :: "bytes \<Rightarrow> bytes option"
  fam_fake :: "bytes \<Rightarrow> PacketInfo \<Rightarrow> nat \<Rightarrow> 32 word \<Rightarrow> 16 word \<Rightarrow> bytes \<Rightarrow> byte \<Rightarrow> bytes option option"
  fam_decoy :: "bytes \<Rightarrow> PacketInfo \<Rightarrow> bytes \<Rightarrow> byte \<Rightarrow> bytes option"
  fam_hdr :: "bytes \<Rightarrow> nat option"
  fam_first :: "bytes \<Rightarrow> nat \<Rightarrow> nat \<Rightarrow> bytes option"
  fam_next :: "bytes \<Rightarrow> nat \<Rightarrow> nat \<Rightarrow> bytes \<Rightarrow> 32 word \<Rightarrow> 16 word \<Rightarrow> bytes option"

definition fam4 :: ip_family where
  "fam4 = \<lparr>fam_extract = ExtractPacketInfoV4, fam_build = BuildSegmentV4, fam_fix = FixTCPChecksum,
     fam_fake = BuildFakeOverlapSegmentV4, fam_decoy = decoy_packet4,
     fam_hdr = ip_hdr_len, fam_first = cut_first4, fam_next = cut_next4\<rparr>"

definition fam6 :: ip_family where
  "fam6 = \<lparr>fam_extract = ExtractPacketInfoV6, fam_build = (\<lambda>p pi sl off i. BuildSegmentV6 p pi sl off),
     fam_fix = FixTCPChecksumV6, fam_fake = (\<lambda>p pi n off i. BuildFakeOverlapSegmentV6 p pi n off),
     fam_decoy = decoy_packet6, fam_hdr = (\<lambda>p. Some 40), fam_first = cut_first6, fam_next = cut_next6\<rparr>"

definition build_overlap ::
    "ip_family \<Rightarrow> bytes \<Rightarrow> PacketInfo \<Rightarrow> bytes \<Rightarrow> nat \<Rightarrow> int \<Rightarrow> bytes \<Rightarrow> 16 word \<Rightarrow> bytes option" where
  "build_overlap F packet pi origPayload origStart seqovlLen pat i =
     (if seqovlLen \<le> 0 \<or> pat = [] then fam_build F packet pi origPayload (word_of_nat origStart) i
      else fam_build F packet pi (pattern_bytes pat (nat seqovlLen) @ origPayload)
             (word_of_nat origStart - word_of_int seqovlLen) i)"

definition BuildSeqOverlapSegmentV4 ::
    "bytes \<Rightarrow> PacketInfo \<Rightarrow> bytes \<Rightarrow> nat \<Rightarrow> int \<Rightarrow> bytes \<Rightarrow> 16 word \<Rightarrow> bytes option" where
  "BuildSeqOverlapSegmentV4 packet pi origPayload origStart seqovlLen pat idOffset =
     build_overlap fam4 packet pi origPayload origStart seqovlLen pat idOffset"

definition BuildSeqOverlapSegmentV6 ::
    "bytes \<Rightarrow> PacketInfo \<Rightarrow> bytes \<Rightarrow> nat \<Rightarrow> int \<Rightarrow> bytes \<Rightarrow> bytes option" where
  "BuildSeqOverlapSegmentV6 packet pi origPayload origStart seqovlLen pat =
     build_overlap fam6 packet pi origPayload origStart seqovlLen pat 0"

subsection \<open>Where to cut\<close>

function pre_sni_loop :: "bytes \<Rightarrow> nat \<Rightarrow> nat \<Rightarrow> nat \<Rightarrow> int option" where
  "pre_sni_loop payload lastSafePos pos extEnd =
     (if pos + 4 \<le> extEnd then do {
        extType \<leftarrow> be16 payload pos;
        extDataLen \<leftarrow> be16 payload (pos + 2);
        if extType = 0 then Some (int lastSafePos)
        else pre_sni_loop payload pos (pos + (4 + extDataLen)) extEnd }
      else Some (- 1))"
  by pat_completeness auto
termination
  by (relation "measure (\<lambda>(payload, safe, pos, e). e - pos)") auto

declare pre_sni_loop.simps [simp del]

definition findPreSNIExtensionPoint :: "bytes \<Rightarrow> int option" where
  "findPreSNIExtensionPoint payload =
     (if length payload < 5 then Some (- 1)
      else do {
        t \<leftarrow> at payload 0;
        if t \<noteq> 0x16 \<or> 5 + 4 > length payload then Some (- 1)
        else do {
          t \<leftarrow> at payload 5;
          if t \<noteq> 0x01 \<or> 9 + 34 > length payload \<or> 43 \<ge> length payload then Some (- 1)
          else do {
            sidLen \<leftarrow> at_nat payload 43;
            let pos = 43 + 1 + sidLen;
            if pos + 2 > length payload then Some (- 1)
            else do {
              csLen \<leftarrow> be16 payload pos;
              let pos = pos + (2 + csLen);
              if pos \<ge> length payload then Some (- 1)
              else do {
                compLen \<leftarrow> at_nat payload pos;
                let pos = pos + 1 + compLen;
                if pos + 2 > length payload then Some (- 1)
                else do {
                  extLen \<leftarrow> be16 payload pos;
                  let pos = pos + 2;
                  let extEnd = (if pos + extLen > length payload then length payload else pos + extLen);
                  pre_sni_loop payload pos pos extEnd } } } } } })"

definition GetSNISplitPoints :: "bytes \<Rightarrow> nat \<Rightarrow> bool \<Rightarrow> int \<Rightarrow> nat list option" where
  "GetSNISplitPoints payload payloadLen middleSNI sniPosition = do {
     splits \<leftarrow> (if middleSNI then do {
                  (sniStart, sniEnd, ok) \<leftarrow> LocateServerName payload;
                  Some (if ok \<and> sniEnd > sniStart then
                          sniStart # (if sniEnd - sniStart > 6 then [sniStart + (sniEnd - sniStart) div 2] else []) @ [sniEnd]
                        else []) }
                else Some []);
     Some (if splits = [] \<and> sniPosition > 0 \<and> sniPosition < int payloadLen then [nat sniPosition] else splits) }"

definition uniqueSorted :: "nat list \<Rightarrow> nat \<Rightarrow> nat list" where
  "uniqueSorted splits maxVal =
     sort (foldl (\<lambda>result s. if 0 < s \<and> s < maxVal \<and> s \<notin> set result then result @ [s] else result) [] splits)"

definition GetComboSplitPoints :: "bytes \<Rightarrow> nat \<Rightarrow> ComboFragConfig \<Rightarrow> bool \<Rightarrow> nat list option" where
  "GetComboSplitPoints payload payloadLen combo middleSNI = do {
     let splits = (if FirstByteSplit combo then [1] else []);
     splits \<leftarrow> (if ExtensionSplit combo then do {
                  extSplit \<leftarrow> findPreSNIExtensionPoint payload;
                  Some (if extSplit > 1 \<and> extSplit < int payloadLen - 5 then splits @ [nat extSplit] else splits) }
                else Some splits);
     if middleSNI then do {
       (sniStart, sniEnd, ok) \<leftarrow> LocateServerName payload;
       Some (if ok \<and> sniEnd > sniStart then
               let sniLen = sniEnd - sniStart in
               splits @ (if sniStart > 2 then [sniStart - 1] else []) @ [sniStart + sniLen div 2] @
                 (if sniLen > 15 then [sniStart + sniLen * 3 div 4] else [])
             else splits) }
     else Some splits }"

definition BuildValidSplits :: "nat list \<Rightarrow> nat \<Rightarrow> nat list" where
  "BuildValidSplits splits payloadLen = 0 # filter (\<lambda>s. 0 < s \<and> s < payloadLen) splits @ [payloadLen]"

definition GetDisorderJitter :: "DisorderFragConfig \<Rightarrow> int \<times> int" where
  "GetDisorderJitter d =
     (let mn = (if MinJitterUs d \<le> 0 then 1000 else MinJitterUs d)
      in (mn, if MaxJitterUs d \<le> mn then mn + 2000 else MaxJitterUs d))"

subsection \<open>The order of sending\<close>

definition swap_at :: "'a list \<Rightarrow> nat \<Rightarrow> nat \<Rightarrow> 'a list" where
  "swap_at xs i j = xs[i := xs ! j, j := xs ! i]"

fun shuffle_from :: "(nat \<Rightarrow> nat) \<Rightarrow> nat \<Rightarrow> 'a list \<Rightarrow> 'a list" where
  "shuffle_from r 0 xs = xs"
| "shuffle_from r (Suc i) xs = shuffle_from r i (swap_at xs (Suc i) (r (Suc i) mod (Suc i + 1)))"

function reverse_from :: "nat \<Rightarrow> nat \<Rightarrow> 'a list \<Rightarrow> 'a list" where
  "reverse_from i j xs = (if i < j then reverse_from (i + 1) (j - 1) (swap_at xs i j) else xs)"
  by pat_completeness auto
termination
  by (relation "measure (\<lambda>(i, j, xs). j - i)") auto

declare reverse_from.simps [simp del]

definition ShuffleSegments :: "'a list \<Rightarrow> gostr \<Rightarrow> (nat \<Rightarrow> nat) \<Rightarrow> 'a list" where
  "ShuffleSegments segments mode r =
     (if mode = str ''full'' then shuffle_from r (length segments - 1) segments
      else if mode = str ''reverse'' then reverse_from 0 (length segments - 1) segments
      else if mode = str ''middle'' then
        if length segments > 3 then
          take 1 segments @ shuffle_from r (length segments - 3) (take (length segments - 2) (drop 1 segments)) @
            drop (length segments - 1) segments
        else if length segments > 1 then reverse_from 0 (length segments - 1) segments
        else segments
      else segments)"

definition max_seq_index :: "Segment list \<Rightarrow> nat" where
  "max_seq_index segs = foldl (\<lambda>m i. if SegSeq (segs ! i) > SegSeq (segs ! m) then i else m) 0 [0..<length segs]"

fun clear_all_psh :: "(bytes \<Rightarrow> bytes option) \<Rightarrow> nat \<Rightarrow> Segment list \<Rightarrow> Segment list option" where
  "clear_all_psh fix_sum h [] = Some []"
| "clear_all_psh fix_sum h (s # segs) = do {
     d \<leftarrow> ClearPSH (Data s) h;
     d \<leftarrow> fix_sum d;
     segs \<leftarrow> clear_all_psh fix_sum h segs;
     Some (s\<lparr>Data := d\<rparr> # segs) }"

definition SetMaxSeqPSH :: "(bytes \<Rightarrow> bytes option) \<Rightarrow> nat \<Rightarrow> Segment list \<Rightarrow> Segment list option" where
  "SetMaxSeqPSH fix_sum h segs = do {
     segs \<leftarrow> clear_all_psh fix_sum h segs;
     let m = max_seq_index segs;
     if m < length segs then do {
       d \<leftarrow> SetPSH (Data (segs ! m)) h;
       d \<leftarrow> fix_sum d;
       Some (segs[m := (segs ! m)\<lparr>Data := d\<rparr>]) }
     else None }"

definition SendTwoSegments :: "bytes \<Rightarrow> bytes \<Rightarrow> bool \<Rightarrow> bytes list" where
  "SendTwoSegments seg1 seg2 reverse = (if reverse then [seg2, seg1] else [seg1, seg2])"

definition SendSegments :: "bytes list \<Rightarrow> bool \<Rightarrow> bytes list" where
  "SendSegments segs reverse = (if reverse then rev segs else segs)"

subsection \<open>Payloads that start a message\<close>

definition httpMethods :: "gostr list" where
  "httpMethods = map str [''GET '', ''POST '', ''HEAD '', ''PUT '', ''DELETE '', ''OPTIONS '', ''PATCH '', ''TRACE '', ''CONNECT '']"

definition looksLikeHTTPRequest :: "bytes \<Rightarrow> bool" where
  "looksLikeHTTPRequest payload \<longleftrightarrow> list_ex (has_prefix payload) httpMethods"

definition startsClientHelloRecord :: "bytes \<Rightarrow> bool" where
  "startsClientHelloRecord payload =
     (if length payload < 6 \<or> payload ! 0 \<noteq> 0x16 \<or> payload ! 1 \<noteq> 0x03 \<or> payload ! 2 > 0x04 \<or> payload ! 5 \<noteq> 0x01
      then False
      else let l = 256 * unat (payload ! 3) + unat (payload ! 4) in l > 0 \<and> l \<le> 16384)"

definition startsMessage :: "bytes \<Rightarrow> bool" where
  "startsMessage payload \<longleftrightarrow>
     startsClientHelloRecord payload \<or> looksLikeHTTPRequest (trim_prefix payload [13, 10])"

subsection \<open>Permuting\<close>

lemma mset_swap_at: "i < length xs \<Longrightarrow> j < length xs \<Longrightarrow> mset (swap_at xs i j) = mset xs"
  by (simp add: swap_at_def mset_swap)

lemma length_swap_at [simp]: "length (swap_at xs i j) = length xs"
  by (simp add: swap_at_def)

lemma mset_shuffle_from: "i < length xs \<Longrightarrow> mset (shuffle_from r i xs) = mset xs"
proof (induction r i xs rule: shuffle_from.induct)
  case (2 r i xs)
  have "r (Suc i) mod (Suc i + 1) < Suc i + 1" by (rule mod_less_divisor) simp
  then have "r (Suc i) mod (Suc i + 1) < length xs" using 2 by linarith
  then show ?case using 2 by (simp add: mset_swap_at)
qed simp

lemma mset_reverse_from: "j < length xs \<Longrightarrow> mset (reverse_from i j xs) = mset xs"
proof (induction i j xs rule: reverse_from.induct)
  case (1 i j xs)
  then show ?case by (cases "i < j") (auto simp: reverse_from.simps [of i j xs] mset_swap_at)
qed

lemma mset_ShuffleSegments: "mset (ShuffleSegments segs mode r) = mset segs"
proof (cases "segs = []")
  case True
  then show ?thesis by (simp add: ShuffleSegments_def reverse_from.simps)
next
  case False
  then have l: "length segs - 1 < length segs" by simp
  have m: "mset (take 1 segs @ shuffle_from r (length segs - 3) (take (length segs - 2) (drop 1 segs)) @
      drop (length segs - 1) segs) = mset segs" if "length segs > 3"
  proof -
    have "mset (shuffle_from r (length segs - 3) (take (length segs - 2) (drop 1 segs))) =
        mset (take (length segs - 2) (drop 1 segs))" using that by (intro mset_shuffle_from) simp
    moreover have "segs = take 1 segs @ take (length segs - 2) (drop 1 segs) @ drop (length segs - 1) segs"
    proof -
      have "length segs - 1 = length segs - 2 + 1" using that by simp
      then have "drop (length segs - 1) segs = drop (length segs - 2) (drop 1 segs)" by simp
      then show ?thesis by (metis append_take_drop_id)
    qed
    then have "mset segs = mset (take 1 segs) + mset (take (length segs - 2) (drop 1 segs)) + mset (drop (length segs - 1) segs)"
      by (metis add.assoc mset_append)
    ultimately show ?thesis by simp
  qed
  show ?thesis using mset_shuffle_from [OF l] mset_reverse_from [OF l] m by (simp add: ShuffleSegments_def)
qed

lemma set_ShuffleSegments: "set (ShuffleSegments segs mode r) = set segs"
  using mset_ShuffleSegments [of segs mode r] by (metis set_mset_mset)

end
