(* ===== verification/Tcp_View.thy ===== *)
theory Tcp_View
  imports Tcp_Segments
begin

text \<open>
  What the receiver of a packet sees: the sequence number and the data of an intact TCP segment
  over IPv4 or IPv6. The contract of the functions that build segments is the locale \<open>segment_family\<close>:
  from an intact segment they build intact segments with the header lengths and the hop
  limit of the original. Both families of the code fulfil it.
\<close>

subsection \<open>Reading back edits\<close>

lemma be32_lt:
  "i + 3 < length b \<Longrightarrow> be32 b i =
     Some (65536 * (256 * unat (b ! i) + unat (b ! (i + 1))) + (256 * unat (b ! (i + 2)) + unat (b ! (i + 3))))"
  by (simp add: be32_def be16_lt numeral_2_eq_2 numeral_3_eq_3)

lemma be32_patch_same: "i + 4 \<le> length b \<Longrightarrow> n < 2 ^ 32 \<Longrightarrow> be32 (patch b i (put32 n)) i = Some n"
proof -
  assume i: "i + 4 \<le> length b" and n: "n < 2 ^ 32"
  have a: "be16 (patch b i (put32 n)) i = Some (n div 65536)"
    using i n by (simp add: patch_def put32_def be16_put16_at min_def)
  have "be16 (patch b i (put32 n)) (i + 2) = Some (n mod 65536)"
  proof -
    have "put16 n = put16 (n mod 65536)"
    proof -
      have "n mod 65536 = 256 * (n div 256 mod 256) + n mod 256" using mod_mult2_eq [of n 256 256] by simp
      then have "n mod 65536 div 256 mod 256 = n div 256 mod 256" "n mod 65536 mod 256 = n mod 256" by simp_all
      then show ?thesis by (simp add: put16_def word_of_nat_eq_iff take_bit_eq_mod)
    qed
    then show ?thesis using i be16_put16_at [of "n mod 65536" "take i b @ put16 (n div 65536)" "i + 2" "drop (i + 4) b"]
      by (simp add: patch_def put32_def min_def)
  qed
  with a show ?thesis by (simp add: be32_def)
qed

lemma be32_patch:
  "i + length v \<le> length b \<Longrightarrow> j + 4 \<le> i \<or> i + length v \<le> j \<Longrightarrow> j + 3 < length b \<Longrightarrow>
   be32 (patch b i v) j = be32 b j"
  by (auto simp: be32_lt nth_patch)

lemma unat_word32 [simp]: "unat (x :: 32 word) < 4294967296"
  using unsigned_less [of x] by simp

subsection \<open>IPv4\<close>

text \<open>The parts of a segment that cutting never changes: the header lengths, the data, the time to live.\<close>

definition raw4 :: "nat \<Rightarrow> nat \<Rightarrow> bytes \<Rightarrow> byte \<Rightarrow> bytes \<Rightarrow> bool" where
  "raw4 h d data t p \<longleftrightarrow> ip_hdr_len p = Some h \<and> 20 \<le> h \<and> tcp_hdr_len p h = Some d \<and> 20 \<le> d \<and>
     length p = h + d + length data \<and> length p \<le> 65535 \<and> drop (h + d) p = data \<and> p ! 8 = t"

lemma raw4_patch:
  assumes "raw4 h d data t p" and "0 < i" "i + length v \<le> h + d" "i + length v \<le> 8 \<or> 8 < i"
    "i + length v \<le> h + 12 \<or> h + 12 < i"
  shows "raw4 h d data t (patch p i v)"
proof -
  have l: "i + length v \<le> length p" using assms by (simp add: raw4_def)
  have "patch p i v ! 0 = p ! 0" "patch p i v ! 8 = p ! 8" "patch p i v ! (h + 12) = p ! (h + 12)"
    using assms by (auto intro!: nth_patch [OF l])
  moreover have "drop (h + d) (patch p i v) = drop (h + d) p" using assms by (intro drop_patch [OF l]) simp
  moreover have "0 < length p" "h + 12 < length p" "length (patch p i v) = length p"
    using assms length_patch [OF l] by (simp_all add: raw4_def)
  ultimately have "ip_hdr_len (patch p i v) = ip_hdr_len p" "tcp_hdr_len (patch p i v) h = tcp_hdr_len p h"
      "drop (h + d) (patch p i v) = drop (h + d) p" "patch p i v ! 8 = p ! 8" "length (patch p i v) = length p"
    by (simp_all add: ip_hdr_len_def tcp_hdr_len_def)
  then show ?thesis using assms(1) unfolding raw4_def by (elim conjE, intro conjI) simp_all
qed

definition good4 :: "nat \<Rightarrow> nat \<Rightarrow> 32 word \<Rightarrow> bytes \<Rightarrow> byte \<Rightarrow> bytes \<Rightarrow> bool" where
  "good4 h d s data t p \<longleftrightarrow> raw4 h d data t p \<and> be16 p 2 = Some (length p) \<and> inet_ok (take h p) \<and>
     be32 p (h + 4) = Some (unat s) \<and> tcp4_valid p h (length p)"

text \<open>The receiver: both checksums right, the lengths consistent.\<close>

definition tcp4_view :: "bytes \<Rightarrow> (32 word \<times> bytes) option" where
  "tcp4_view p = do {
     h \<leftarrow> ip_hdr_len p;
     tot \<leftarrow> be16 p 2;
     d \<leftarrow> tcp_hdr_len p h;
     s \<leftarrow> be32 p (h + 4);
     if 20 \<le> h \<and> 20 \<le> d \<and> h + d \<le> tot \<and> tot \<le> length p \<and> inet_ok (take h p) \<and> tcp4_valid p h tot
     then Some (word_of_nat s, drop (h + d) (take tot p)) else None }"

lemma good4_view: "good4 h d s data t p \<Longrightarrow> tcp4_view p = Some (s, data) \<and> p ! 8 = t"
  by (auto simp: good4_def raw4_def tcp4_view_def)

lemma fix4:
  assumes raw: "raw4 h d data t p" and len: "be16 p 2 = Some (length p)" and ip: "inet_ok (take h p)"
    and seq: "be32 p (h + 4) = Some (unat s)"
  shows "\<exists>q. FixTCPChecksum p = Some q \<and> good4 h d s data t q"
proof -
  have r: "ip_hdr_len p = Some h" "20 \<le> h" "h + 20 \<le> length p" "20 \<le> d" using raw by (auto simp: raw4_def)
  obtain c where c: "FixTCPChecksum p = Some (patch p (h + 16) (put16 c))"
      "tcp4_valid (patch p (h + 16) (put16 c)) h (length p)"
    using FixTCPChecksum_eq [OF r(1,2) len] r(3) by auto
  have "raw4 h d data t (patch p (h + 16) (put16 c))" using r by (intro raw4_patch [OF raw]) auto
  moreover have "be16 (patch p (h + 16) (put16 c)) 2 = Some (length p)" using r len by (simp add: be16_patch)
  moreover have "be32 (patch p (h + 16) (put16 c)) (h + 4) = Some (unat s)" using r seq by (simp add: be32_patch)
  moreover have "take h (patch p (h + 16) (put16 c)) = take h p" using r by (simp add: take_patch)
  ultimately show ?thesis using c ip r by (auto simp: good4_def)
qed

text \<open>Writing the total length, then repairing both checksums: the end of every routine.\<close>

lemma finish4:
  assumes raw: "raw4 h d data t p" and seq: "be32 p (h + 4) = Some (unat s)" and len: "be16 p 2 = Some (length p)"
  shows "\<exists>q. fix_ip_header p h \<bind> FixTCPChecksum = Some q \<and> good4 h d s data t q"
proof -
  have r: "ip_hdr_len p = Some h" "20 \<le> h" "h + 20 \<le> length p" "20 \<le> d" using raw by (auto simp: raw4_def)
  obtain c where c: "fix_ip_header p h = Some (patch p 10 (put16 c))" "inet_ok (take h (patch p 10 (put16 c)))"
    using fix_ip_header_eq [OF r(1,2)] r(3) by auto
  let ?q = "patch p 10 (put16 c)"
  have "raw4 h d data t ?q" using r by (intro raw4_patch [OF raw]) auto
  moreover have "be16 ?q 2 = Some (length ?q)" using r len by (simp add: be16_patch)
  moreover have "be32 ?q (h + 4) = Some (unat s)" using r seq by (simp add: be32_patch)
  ultimately show ?thesis using fix4 [of h d data t ?q s] c by auto
qed

text \<open>Replacing the data.\<close>

lemma raw4_replace:
  assumes "raw4 h d data t p" and "h + d + length sl \<le> 65535"
  shows "sub_bytes p 0 (h + d) = Some (take (h + d) p) \<and> raw4 h d sl t (take (h + d) p @ sl)"
proof -
  have "8 < h + d" "h + 12 < h + d" "0 < h + d" "h + d \<le> length p" using assms by (auto simp: raw4_def)
  then show ?thesis using assms by (auto simp: raw4_def ip_hdr_len_eq tcp_hdr_len_eq nth_append)
qed

lemma BuildSegmentV4_good:
  assumes p: "raw4 h d data t p" and pi: "IPHdrLen pi = h" "PayloadStart pi = h + d" "Seq0 pi = s"
    and len: "h + d + length sl \<le> 65535"
  shows "\<exists>q. BuildSegmentV4 p pi sl off i = Some q \<and> good4 h d (s + off) sl t q"
proof -
  define p0 where "p0 = take (h + d) p @ sl"
  define p1 where "p1 = patch p0 (h + 4) (put32 (unat (s + off)))"
  define p2 where "p2 = patch p1 4 (put16 (unat (ID0 pi + i)))"
  define p3 where "p3 = patch p2 2 (put16 (length p2))"
  have hd: "20 \<le> h" "20 \<le> d" using p by (auto simp: raw4_def)
  have r0: "raw4 h d sl t p0" using raw4_replace [OF p len] by (simp add: p0_def)
  have r1: "raw4 h d sl t p1" unfolding p1_def using hd by (intro raw4_patch [OF r0]) auto
  have r2: "raw4 h d sl t p2" unfolding p2_def using hd by (intro raw4_patch [OF r1]) auto
  have r3: "raw4 h d sl t p3" unfolding p3_def using hd by (intro raw4_patch [OF r2]) auto
  have l: "length p0 = h + d + length sl" "length p1 = length p0" "length p2 = length p0" "length p3 = length p0"
    using r0 r1 r2 r3 by (simp_all add: raw4_def)
  have "be32 p1 (h + 4) = Some (unat (s + off))"
    using hd l by (simp add: p1_def be32_patch_same)
  then have "be32 p3 (h + 4) = Some (unat (s + off))" using hd l by (simp add: p2_def p3_def be32_patch)
  moreover have "be16 p3 2 = Some (length p3)" using hd l len by (simp add: p3_def be16_patch_same)
  ultimately obtain q where "fix_ip_header p3 h \<bind> FixTCPChecksum = Some q" "good4 h d (s + off) sl t q"
    using finish4 [OF r3] by blast
  moreover have "BuildSegmentV4 p pi sl off i = fix_ip_header p3 h \<bind> FixTCPChecksum"
    using raw4_replace [OF p len] pi hd l by (simp add: BuildSegmentV4_def p0_def [symmetric] p1_def p2_def p3_def)
  ultimately show ?thesis by auto
qed

lemma cut_next4_good:
  assumes p: "good4 h d s data t p" and len: "h + d + length sl \<le> 65535"
  shows "\<exists>q. cut_next4 p h (h + d) sl off i = Some q \<and> good4 h d (s + off) sl t q"
proof -
  have r: "raw4 h d data t p" and hd: "20 \<le> h" "20 \<le> d" "length p = h + d + length data" "be32 p (h + 4) = Some (unat s)"
    using p by (auto simp: good4_def raw4_def)
  obtain n where n: "be16 p 4 = Some n" using hd be16_lt [of 4 p] by simp
  define pi where "pi = \<lparr>IPHdrLen = h, TCPHdrLen = d, PayloadStart = h + d, PayloadLen = 0, Payload = [],
    Seq0 = s, ID0 = word_of_nat n, IsIPv6 = False\<rparr>"
  have "cut_next4 p h (h + d) sl off i = BuildSegmentV4 p pi sl off i"
    using n hd by (simp add: cut_next4_def BuildSegmentV4_def pi_def)
  then show ?thesis using BuildSegmentV4_good [OF r, of pi s sl off i] len by (simp add: pi_def)
qed

lemma cut_first4_good:
  assumes p: "good4 h d s data t p" and n: "n \<le> length data"
  shows "\<exists>q. cut_first4 p h (h + d + n) = Some q \<and> good4 h d s (take n data) t q"
proof -
  have r: "raw4 h d data t p" and hd: "20 \<le> h" "20 \<le> d" "length p = h + d + length data" "length p \<le> 65535"
      "drop (h + d) p = data" using p by (auto simp: good4_def raw4_def)
  define p0 where "p0 = take (h + d + n) p"
  define p1 where "p1 = patch p0 2 (put16 (h + d + n))"
  have "p0 = take (h + d) p @ take n data" using hd(5) by (simp add: p0_def take_add)
  then have r0: "raw4 h d (take n data) t p0" using raw4_replace [OF r, of "take n data"] hd n by simp
  have r1: "raw4 h d (take n data) t p1" unfolding p1_def using hd by (intro raw4_patch [OF r0]) auto
  have l: "length p0 = h + d + n" "length p1 = h + d + n" using r0 r1 n by (simp_all add: raw4_def)
  have "be32 p0 (h + 4) = be32 p (h + 4)" using hd l by (simp add: be32_lt p0_def)
  then have "be32 p1 (h + 4) = Some (unat s)" using p hd l by (simp add: p1_def be32_patch good4_def)
  moreover have "be16 p1 2 = Some (length p1)" using hd l n by (simp add: p1_def be16_patch_same)
  ultimately obtain q where "fix_ip_header p1 h \<bind> FixTCPChecksum = Some q" "good4 h d s (take n data) t q"
    using finish4 [OF r1] by blast
  moreover have "cut_first4 p h (h + d + n) = fix_ip_header p1 h \<bind> FixTCPChecksum"
    using hd l n by (simp add: cut_first4_def p0_def [symmetric] p1_def)
  ultimately show ?thesis by simp
qed

lemma raw4_ttl: "raw4 h d data t p \<Longrightarrow> raw4 h d data t' (patch p 8 [t'])"
proof -
  assume r: "raw4 h d data t p"
  then have l: "8 + length [t'] \<le> length p" and h: "20 \<le> h" "20 \<le> d" "h + d \<le> length p" by (auto simp: raw4_def)
  have "patch p 8 [t'] ! 0 = p ! 0" "patch p 8 [t'] ! (h + 12) = p ! (h + 12)" "patch p 8 [t'] ! 8 = t'"
      "drop (h + d) (patch p 8 [t']) = drop (h + d) p" "length (patch p 8 [t']) = length p"
    using h l nth_patch_in [OF l, of 8] by (simp_all add: nth_patch drop_patch)
  then show ?thesis using r h l unfolding raw4_def ip_hdr_len_def tcp_hdr_len_def
    by (elim conjE, intro conjI) simp_all
qed

lemma good4_raw: "good4 h d s data t p \<Longrightarrow> raw4 h d data t p"
  by (simp add: good4_def)

lemma good4_patch:
  assumes "good4 h d s data t p"
  shows "\<exists>q. FixTCPChecksum (patch p (h + 13) [b]) = Some q \<and> good4 h d s data t q"
proof -
  have r: "raw4 h d data t p" and h: "20 \<le> h" "20 \<le> d" "h + d \<le> length p"
    using assms by (auto simp: good4_def raw4_def)
  have "raw4 h d data t (patch p (h + 13) [b])" using h by (intro raw4_patch [OF r]) auto
  moreover have "be16 (patch p (h + 13) [b]) 2 = Some (length (patch p (h + 13) [b]))"
    using assms h by (simp add: be16_patch good4_def)
  moreover have "be32 (patch p (h + 13) [b]) (h + 4) = Some (unat s)" using assms h by (simp add: be32_patch good4_def)
  moreover have "inet_ok (take h (patch p (h + 13) [b]))" using assms h by (simp add: take_patch good4_def)
  ultimately show ?thesis by (intro fix4)
qed

lemma good4_psh:
  assumes "good4 h d s data t p"
  shows "\<exists>q. ClearPSH p h \<bind> FixTCPChecksum = Some q \<and> good4 h d s data t q"
    and "\<exists>q. SetPSH p h \<bind> FixTCPChecksum = Some q \<and> good4 h d s data t q"
proof -
  have "h + 13 < length p" using assms by (auto simp: good4_def raw4_def)
  then show "\<exists>q. ClearPSH p h \<bind> FixTCPChecksum = Some q \<and> good4 h d s data t q"
    and "\<exists>q. SetPSH p h \<bind> FixTCPChecksum = Some q \<and> good4 h d s data t q"
    using good4_patch [OF assms] by (simp_all add: ClearPSH_def SetPSH_def)
qed

lemma good4_extract:
  assumes "good4 h d s data t p"
  shows "\<exists>pi. ExtractPacketInfoV4 p = Some (Some pi) \<and> IPHdrLen pi = h \<and> PayloadStart pi = h + d \<and>
    PayloadLen pi = length data \<and> Payload pi = data \<and> Seq0 pi = s"
proof -
  have r: "ip_hdr_len p = Some h" "tcp_hdr_len p h = Some d" "20 \<le> h" "20 \<le> d" "length p = h + d + length data"
      "drop (h + d) p = data" "be32 p (h + 4) = Some (unat s)" using assms by (auto simp: good4_def raw4_def)
  moreover obtain i where "be16 p 4 = Some i" using r(3,4,5) be16_lt [of 4 p] by simp
  ultimately show ?thesis by (simp add: ExtractPacketInfoV4_def)
qed

lemma good4_fake:
  assumes p: "good4 h d s data t p" and pi: "IPHdrLen pi = h" "PayloadStart pi = h + d" "Seq0 pi = s"
    and n: "0 < n" "h + d + n \<le> 65535"
  shows "\<exists>q t'. BuildFakeOverlapSegmentV4 p pi n off i pat ft = Some (Some q) \<and> dynamicTTL p False ft = Some t' \<and> q ! 8 = t'"
proof -
  define sl where "sl = fake_bytes pat n"
  have sl: "length sl = n" by (simp add: sl_def fake_bytes_def pattern_bytes_def)
  have rp: "raw4 h d data t p" and hd: "20 \<le> h" "20 \<le> d" "8 < length p" using p by (auto simp: good4_def raw4_def)
  obtain t' where t': "dynamicTTL p False ft = Some t'" using hd by (simp add: dynamicTTL_def Let_def)
  define p0 where "p0 = take (h + d) p @ sl"
  define p1 where "p1 = patch p0 (h + 4) (put32 (unat (s + off)))"
  define p2 where "p2 = patch p1 4 (put16 (unat (ID0 pi + i)))"
  define p3 where "p3 = patch p2 2 (put16 (length p2))"
  define p4 where "p4 = patch p3 8 [t']"
  define p5 where "p5 = patch p4 (h + 13) [p4 ! (h + 13) AND NOT 0x08]"
  have len: "h + d + length sl \<le> 65535" using n sl by simp
  have r0: "raw4 h d sl t p0" using raw4_replace [OF rp len] by (simp add: p0_def)
  have r1: "raw4 h d sl t p1" unfolding p1_def using hd by (intro raw4_patch [OF r0]) auto
  have r2: "raw4 h d sl t p2" unfolding p2_def using hd by (intro raw4_patch [OF r1]) auto
  have r3: "raw4 h d sl t p3" unfolding p3_def using hd by (intro raw4_patch [OF r2]) auto
  have r4: "raw4 h d sl t' p4" unfolding p4_def by (rule raw4_ttl [OF r3])
  have r5: "raw4 h d sl t' p5" unfolding p5_def using hd by (intro raw4_patch [OF r4]) auto
  have l: "length p0 = h + d + length sl" "length p1 = length p0" "length p2 = length p0" "length p3 = length p0"
      "length p4 = length p0" "length p5 = length p0"
    using r0 r1 r2 r3 r4 r5 by (simp_all add: raw4_def)
  have "be32 p1 (h + 4) = Some (unat (s + off))" using hd l by (simp add: p1_def be32_patch_same)
  then have b: "be32 p5 (h + 4) = Some (unat (s + off))" using hd l by (simp add: p2_def p3_def p4_def p5_def be32_patch)
  have "be16 p3 2 = Some (length p3)" using hd l len by (simp add: p3_def be16_patch_same)
  then have "be16 p5 2 = Some (length p5)" using hd l by (simp add: p4_def p5_def be16_patch)
  from finish4 [OF r5 b this] obtain q where q: "fix_ip_header p5 h \<bind> FixTCPChecksum = Some q" "good4 h d (s + off) sl t' q"
    by blast
  then have lq: "h + 18 \<le> length q" "q ! 8 = t'" using hd by (auto simp: good4_def raw4_def)
  then obtain q' where q': "corruptTCPChecksum q h = Some q'" "q' ! 8 = t'"
    using hd by (simp add: corruptTCPChecksum_def nth_patch)
  have "BuildFakeOverlapSegmentV4 p pi n off i pat ft = (fix_ip_header p5 h \<bind> FixTCPChecksum) \<bind> (\<lambda>seg. corruptTCPChecksum seg h \<bind> (\<lambda>seg. Some (Some seg)))"
    using raw4_replace [OF rp len] pi hd l n t'
    by (simp add: BuildFakeOverlapSegmentV4_def p0_def [symmetric] sl_def [symmetric] p1_def p2_def p3_def p4_def p5_def ClearPSH_def)
  then show ?thesis using q(1) q' t' by auto
qed

lemma decoy_packet4_good:
  assumes p: "good4 h d s data t p" and pi: "IPHdrLen pi = h" "PayloadStart pi = h + d" and n: "h + d + length blob \<le> 65535"
  shows "\<exists>q t'. decoy_packet4 p pi blob ft = Some q \<and> dynamicTTL p False ft = Some t' \<and> raw4 h d blob t' q"
proof -
  have rp: "raw4 h d data t p" and hd: "20 \<le> h" "20 \<le> d" "8 < length p" using p by (auto simp: good4_def raw4_def)
  obtain t' where t': "dynamicTTL p False ft = Some t'" using hd by (simp add: dynamicTTL_def Let_def)
  define p0 where "p0 = take (h + d) p @ blob"
  define p1 where "p1 = patch p0 2 (put16 (length p0))"
  define p2 where "p2 = patch p1 8 [t']"
  have r0: "raw4 h d blob t p0" using raw4_replace [OF rp n] by (simp add: p0_def)
  have r1: "raw4 h d blob t p1" unfolding p1_def using hd by (intro raw4_patch [OF r0]) auto
  have r2: "raw4 h d blob t' p2" unfolding p2_def by (rule raw4_ttl [OF r1])
  have l: "length p0 = h + d + length blob" "length p1 = length p0" "length p2 = length p0"
    using r0 r1 r2 by (simp_all add: raw4_def)
  have "be16 p2 2 = Some (length p2)" using hd l n by (simp add: p2_def p1_def be16_patch be16_patch_same)
  moreover have "be32 p2 (h + 4) = Some (the (be32 p2 (h + 4)))" using hd l by (simp add: be32_lt)
  then obtain v where "be32 p2 (h + 4) = Some v" "v < 2 ^ 32" using be32_SomeD by fastforce
  then have "be32 p2 (h + 4) = Some (unat (word_of_nat v :: 32 word))" by (simp add: unat_of_nat)
  ultimately obtain q where "fix_ip_header p2 h \<bind> FixTCPChecksum = Some q" "good4 h d (word_of_nat v) blob t' q"
    using finish4 [OF r2] by blast
  moreover have "decoy_packet4 p pi blob ft = fix_ip_header p2 h \<bind> FixTCPChecksum"
    using raw4_replace [OF rp n] pi hd l t' rp by (simp add: raw4_def decoy_packet4_def p0_def [symmetric] p1_def p2_def)
  ultimately show ?thesis using t' good4_raw by fastforce
qed

subsection \<open>IPv6\<close>

definition raw6 :: "nat \<Rightarrow> bytes \<Rightarrow> byte \<Rightarrow> bytes \<Rightarrow> bool" where
  "raw6 d data t p \<longleftrightarrow> drop_bit 4 (p ! 0) = 6 \<and> p ! 6 = 6 \<and> tcp_hdr_len p 40 = Some d \<and> 20 \<le> d \<and>
     length p = 40 + d + length data \<and> length p \<le> 65535 \<and> drop (40 + d) p = data \<and> p ! 7 = t"

lemma raw6_patch:
  assumes "raw6 d data t p" and "0 < i" "i + length v \<le> 40 + d" "i + length v \<le> 6 \<or> 7 < i"
    "i + length v \<le> 52 \<or> 52 < i"
  shows "raw6 d data t (patch p i v)"
proof -
  have l: "i + length v \<le> length p" using assms by (simp add: raw6_def)
  have "patch p i v ! 0 = p ! 0" "patch p i v ! 6 = p ! 6" "patch p i v ! 7 = p ! 7" "patch p i v ! 52 = p ! 52"
    using assms by (auto intro!: nth_patch [OF l])
  moreover have "drop (40 + d) (patch p i v) = drop (40 + d) p" using assms by (intro drop_patch [OF l]) simp
  moreover have "52 < length p" "length (patch p i v) = length p"
    using assms length_patch [OF l] by (simp_all add: raw6_def)
  ultimately show ?thesis using assms(1) unfolding raw6_def tcp_hdr_len_def by (elim conjE, intro conjI) simp_all
qed

lemma raw6_ttl: "raw6 d data t p \<Longrightarrow> raw6 d data t' (patch p 7 [t'])"
proof -
  assume r: "raw6 d data t p"
  then have l: "7 + length [t'] \<le> length p" and h: "20 \<le> d" "40 + d \<le> length p" by (auto simp: raw6_def)
  have "patch p 7 [t'] ! 0 = p ! 0" "patch p 7 [t'] ! 52 = p ! 52" "patch p 7 [t'] ! 6 = p ! 6" "patch p 7 [t'] ! 7 = t'"
      "drop (40 + d) (patch p 7 [t']) = drop (40 + d) p" "length (patch p 7 [t']) = length p"
    using h l nth_patch_in [OF l, of 7] by (simp_all add: nth_patch drop_patch)
  then show ?thesis using r h l unfolding raw6_def tcp_hdr_len_def by (elim conjE, intro conjI) simp_all
qed

definition good6 :: "nat \<Rightarrow> 32 word \<Rightarrow> bytes \<Rightarrow> byte \<Rightarrow> bytes \<Rightarrow> bool" where
  "good6 d s data t p \<longleftrightarrow> raw6 d data t p \<and> be16 p 4 = Some (length p - 40) \<and>
     be32 p 44 = Some (unat s) \<and> tcp6_valid p (length p - 40)"

definition tcp6_view :: "bytes \<Rightarrow> (32 word \<times> bytes) option" where
  "tcp6_view p = do {
     v \<leftarrow> at p 0;
     nh \<leftarrow> at p 6;
     n \<leftarrow> be16 p 4;
     d \<leftarrow> tcp_hdr_len p 40;
     s \<leftarrow> be32 p 44;
     if drop_bit 4 v = 6 \<and> nh = 6 \<and> 20 \<le> d \<and> d \<le> n \<and> 40 + n \<le> length p \<and> tcp6_valid p n
     then Some (word_of_nat s, drop (40 + d) (take (40 + n) p)) else None }"

lemma good6_view: "good6 d s data t p \<Longrightarrow> tcp6_view p = Some (s, data) \<and> p ! 7 = t"
proof -
  assume g: "good6 d s data t p"
  then have "length p = 40 + d + length data" "drop (40 + d) p = data" "20 \<le> d" by (auto simp: good6_def raw6_def)
  moreover from this have "at p 0 = Some (p ! 0)" "at p 6 = Some (p ! 6)" by simp_all
  ultimately show ?thesis using g by (simp add: good6_def raw6_def tcp6_view_def del: at_lt)
qed

lemma fix6:
  assumes raw: "raw6 d data t p" and len: "be16 p 4 = Some (length p - 40)" and seq: "be32 p 44 = Some (unat s)"
  shows "\<exists>q. FixTCPChecksumV6 p = Some q \<and> good6 d s data t q"
proof -
  have r: "20 \<le> d" "40 + d \<le> length p" "length p \<le> 65535" using raw by (auto simp: raw6_def)
  obtain c where c: "FixTCPChecksumV6 p = Some (patch p 56 (put16 c))" "tcp6_valid (patch p 56 (put16 c)) (length p - 40)"
  proof -
    have "18 \<le> length p - 40" "40 + (length p - 40) \<le> length p" using r by linarith+
    from FixTCPChecksumV6_eq [OF len this] show thesis using that by blast
  qed
  have "raw6 d data t (patch p 56 (put16 c))" using r by (intro raw6_patch [OF raw]) auto
  moreover have "be16 (patch p 56 (put16 c)) 4 = Some (length p - 40)" using r len by (simp add: be16_patch)
  moreover have "be32 (patch p 56 (put16 c)) 44 = Some (unat s)" using r seq by (simp add: be32_patch)
  ultimately show ?thesis using c r by (auto simp: good6_def)
qed

lemma raw6_replace:
  assumes "raw6 d data t p" and "40 + d + length sl \<le> 65535"
  shows "sub_bytes p 0 (40 + d) = Some (take (40 + d) p) \<and> raw6 d sl t (take (40 + d) p @ sl)"
proof -
  have "52 < 40 + d" "40 + d \<le> length p" using assms by (auto simp: raw6_def)
  then show ?thesis using assms by (auto simp: raw6_def tcp_hdr_len_eq nth_append)
qed

lemma BuildSegmentV6_good:
  assumes p: "raw6 d data t p" and pi: "IPHdrLen pi = 40" "PayloadStart pi = 40 + d" "Seq0 pi = s"
    and len: "40 + d + length sl \<le> 65535"
  shows "\<exists>q. BuildSegmentV6 p pi sl off = Some q \<and> good6 d (s + off) sl t q"
proof -
  define p0 where "p0 = take (40 + d) p @ sl"
  define p1 where "p1 = patch p0 44 (put32 (unat (s + off)))"
  define p2 where "p2 = patch p1 4 (put16 (length p1 - 40))"
  have hd: "20 \<le> d" using p by (auto simp: raw6_def)
  have r0: "raw6 d sl t p0" using raw6_replace [OF p len] by (simp add: p0_def)
  have r1: "raw6 d sl t p1" unfolding p1_def using hd by (intro raw6_patch [OF r0]) auto
  have r2: "raw6 d sl t p2" unfolding p2_def using hd by (intro raw6_patch [OF r1]) auto
  have l: "length p0 = 40 + d + length sl" "length p1 = length p0" "length p2 = length p0"
    using r0 r1 r2 by (simp_all add: raw6_def)
  have "be32 p2 44 = Some (unat (s + off))" using hd l by (simp add: p1_def p2_def be32_patch be32_patch_same)
  moreover have "be16 p2 4 = Some (length p2 - 40)" using hd l len by (simp add: p2_def be16_patch_same)
  ultimately obtain q where "FixTCPChecksumV6 p2 = Some q" "good6 d (s + off) sl t q" using fix6 [OF r2] by blast
  moreover have "BuildSegmentV6 p pi sl off = FixTCPChecksumV6 p2"
    using raw6_replace [OF p len] pi hd l by (simp add: BuildSegmentV6_def p0_def [symmetric] p1_def p2_def)
  ultimately show ?thesis by auto
qed

lemma cut_next6_good:
  assumes p: "good6 d s data t p" and len: "40 + d + length sl \<le> 65535"
  shows "\<exists>q. cut_next6 p 40 (40 + d) sl off i = Some q \<and> good6 d (s + off) sl t q"
proof -
  have r: "raw6 d data t p" and hd: "20 \<le> d" "length p = 40 + d + length data" "be32 p 44 = Some (unat s)"
    using p by (auto simp: good6_def raw6_def)
  define pi where "pi = \<lparr>IPHdrLen = 40, TCPHdrLen = d, PayloadStart = 40 + d, PayloadLen = 0, Payload = [],
    Seq0 = s, ID0 = 0, IsIPv6 = True\<rparr>"
  have "cut_next6 p 40 (40 + d) sl off i = BuildSegmentV6 p pi sl off"
    using hd by (simp add: cut_next6_def BuildSegmentV6_def pi_def)
  then show ?thesis using BuildSegmentV6_good [OF r, of pi s sl off] len by (simp add: pi_def)
qed

lemma cut_first6_good:
  assumes p: "good6 d s data t p" and n: "n \<le> length data"
  shows "\<exists>q. cut_first6 p 40 (40 + d + n) = Some q \<and> good6 d s (take n data) t q"
proof -
  have r: "raw6 d data t p" and hd: "20 \<le> d" "length p = 40 + d + length data" "length p \<le> 65535"
      "drop (40 + d) p = data" using p by (auto simp: good6_def raw6_def)
  define p0 where "p0 = take (40 + d + n) p"
  define p1 where "p1 = patch p0 4 (put16 (d + n))"
  have "p0 = take (40 + d) p @ take n data" using hd(4) by (simp add: p0_def take_add)
  then have r0: "raw6 d (take n data) t p0" using raw6_replace [OF r, of "take n data"] hd n by simp
  have r1: "raw6 d (take n data) t p1" unfolding p1_def using hd by (intro raw6_patch [OF r0]) auto
  have l: "length p0 = 40 + d + n" "length p1 = 40 + d + n" using r0 r1 n by (simp_all add: raw6_def)
  have "be32 p0 44 = be32 p 44" using hd l by (simp add: be32_lt p0_def)
  then have "be32 p1 44 = Some (unat s)" using p hd l by (simp add: p1_def be32_patch good6_def)
  moreover have "be16 p1 4 = Some (length p1 - 40)" using hd l n by (simp add: p1_def be16_patch_same)
  ultimately obtain q where "FixTCPChecksumV6 p1 = Some q" "good6 d s (take n data) t q" using fix6 [OF r1] by blast
  moreover have "cut_first6 p 40 (40 + d + n) = FixTCPChecksumV6 p1"
    using hd l n by (simp add: cut_first6_def p0_def [symmetric] p1_def)
  ultimately show ?thesis by simp
qed

lemma good6_psh:
  assumes "good6 d s data t p"
  shows "\<exists>q. ClearPSH p 40 \<bind> FixTCPChecksumV6 = Some q \<and> good6 d s data t q"
    and "\<exists>q. SetPSH p 40 \<bind> FixTCPChecksumV6 = Some q \<and> good6 d s data t q"
proof -
  have r: "raw6 d data t p" and h: "20 \<le> d" "40 + d \<le> length p" using assms by (auto simp: good6_def raw6_def)
  have "\<exists>q. FixTCPChecksumV6 (patch p 53 [b]) = Some q \<and> good6 d s data t q" for b
  proof (rule fix6)
    show "raw6 d data t (patch p 53 [b])" using h by (intro raw6_patch [OF r]) auto
  qed (use assms h in \<open>simp_all add: be16_patch be32_patch good6_def\<close>)
  then show "\<exists>q. ClearPSH p 40 \<bind> FixTCPChecksumV6 = Some q \<and> good6 d s data t q"
    and "\<exists>q. SetPSH p 40 \<bind> FixTCPChecksumV6 = Some q \<and> good6 d s data t q"
    using h by (simp_all add: ClearPSH_def SetPSH_def)
qed

lemma upper_layer_tcp: "40 \<le> length p \<Longrightarrow> upper_layer p 6 40 = Some (Some (40, 6))"
  by (simp add: upper_layer.simps [of p 6 40])

lemma good6_extract:
  assumes "good6 d s data t p"
  shows "\<exists>pi. ExtractPacketInfoV6 p = Some (Some pi) \<and> IPHdrLen pi = 40 \<and> PayloadStart pi = 40 + d \<and>
    PayloadLen pi = length data \<and> Payload pi = data \<and> Seq0 pi = s"
proof -
  have r: "drop_bit 4 (p ! 0) = 6" "p ! 6 = 6" "tcp_hdr_len p 40 = Some d" "20 \<le> d" "length p = 40 + d + length data"
      "drop (40 + d) p = data" "be32 p 44 = Some (unat s)" using assms by (auto simp: good6_def raw6_def)
  have "upperLayerOffsetV6 p = Some (Some (40, 6))"
    using r upper_layer_tcp [of p] by (simp add: upperLayerOffsetV6_def)
  then show ?thesis using r by (simp add: ExtractPacketInfoV6_def)
qed

lemma good6_fake:
  assumes p: "good6 d s data t p" and pi: "IPHdrLen pi = 40" "PayloadStart pi = 40 + d" "Seq0 pi = s"
    and n: "0 < n" "40 + d + n \<le> 65535"
  shows "\<exists>q t'. BuildFakeOverlapSegmentV6 p pi n off pat ft = Some (Some q) \<and> dynamicTTL p True ft = Some t' \<and> q ! 7 = t'"
proof -
  define sl where "sl = fake_bytes pat n"
  have sl: "length sl = n" by (simp add: sl_def fake_bytes_def pattern_bytes_def)
  have rp: "raw6 d data t p" and hd: "20 \<le> d" "7 < length p" using p by (auto simp: good6_def raw6_def)
  obtain t' where t': "dynamicTTL p True ft = Some t'" using hd by (simp add: dynamicTTL_def Let_def)
  define p0 where "p0 = take (40 + d) p @ sl"
  define p1 where "p1 = patch p0 44 (put32 (unat (s + off)))"
  define p2 where "p2 = patch p1 4 (put16 (length p1 - 40))"
  define p3 where "p3 = patch p2 7 [t']"
  define p4 where "p4 = patch p3 53 [p3 ! 53 AND NOT 0x08]"
  have len: "40 + d + length sl \<le> 65535" using n sl by simp
  have r0: "raw6 d sl t p0" using raw6_replace [OF rp len] by (simp add: p0_def)
  have r1: "raw6 d sl t p1" unfolding p1_def using hd by (intro raw6_patch [OF r0]) auto
  have r2: "raw6 d sl t p2" unfolding p2_def using hd by (intro raw6_patch [OF r1]) auto
  have r3: "raw6 d sl t' p3" unfolding p3_def by (rule raw6_ttl [OF r2])
  have r4: "raw6 d sl t' p4" unfolding p4_def using hd by (intro raw6_patch [OF r3]) auto
  have l: "length p0 = 40 + d + length sl" "length p1 = length p0" "length p2 = length p0" "length p3 = length p0" "length p4 = length p0"
    using r0 r1 r2 r3 r4 by (simp_all add: raw6_def)
  have b: "be32 p4 44 = Some (unat (s + off))" using hd l by (simp add: p1_def p2_def p3_def p4_def be32_patch be32_patch_same)
  have "be16 p2 4 = Some (length p2 - 40)" using hd l len by (simp add: p2_def be16_patch_same)
  then have "be16 p4 4 = Some (length p4 - 40)" using hd l by (simp add: p3_def p4_def be16_patch)
  from fix6 [OF r4 this b] obtain q where q: "FixTCPChecksumV6 p4 = Some q" "good6 d (s + off) sl t' q" by blast
  then have lq: "60 \<le> length q" "q ! 7 = t'" using hd by (auto simp: good6_def raw6_def)
  then obtain q' where q': "corruptTCPChecksum q 40 = Some q'" "q' ! 7 = t'"
    by (simp add: corruptTCPChecksum_def nth_patch)
  have "BuildFakeOverlapSegmentV6 p pi n off pat ft = FixTCPChecksumV6 p4 \<bind> (\<lambda>seg. corruptTCPChecksum seg 40 \<bind> (\<lambda>seg. Some (Some seg)))"
    using raw6_replace [OF rp len] pi hd l n t'
    by (simp add: BuildFakeOverlapSegmentV6_def p0_def [symmetric] sl_def [symmetric] p1_def p2_def p3_def p4_def ClearPSH_def)
  then show ?thesis using q(1) q' t' by auto
qed

lemma decoy_packet6_good:
  assumes p: "good6 d s data t p" and pi: "IPHdrLen pi = 40" "PayloadStart pi = 40 + d" and n: "40 + d + length blob \<le> 65535"
  shows "\<exists>q t'. decoy_packet6 p pi blob ft = Some q \<and> dynamicTTL p True ft = Some t' \<and> raw6 d blob t' q"
proof -
  have rp: "raw6 d data t p" and hd: "20 \<le> d" "7 < length p" using p by (auto simp: good6_def raw6_def)
  obtain t' where t': "dynamicTTL p True ft = Some t'" using hd by (simp add: dynamicTTL_def Let_def)
  define p0 where "p0 = take (40 + d) p @ blob"
  define p1 where "p1 = patch p0 4 (put16 (length p0 - 40))"
  define p2 where "p2 = patch p1 7 [t']"
  have r0: "raw6 d blob t p0" using raw6_replace [OF rp n] by (simp add: p0_def)
  have r1: "raw6 d blob t p1" unfolding p1_def using hd by (intro raw6_patch [OF r0]) auto
  have r2: "raw6 d blob t' p2" unfolding p2_def by (rule raw6_ttl [OF r1])
  have l: "length p0 = 40 + d + length blob" "length p1 = length p0" "length p2 = length p0"
    using r0 r1 r2 by (simp_all add: raw6_def)
  have "be16 p2 4 = Some (length p2 - 40)" using hd l n by (simp add: p2_def p1_def be16_patch be16_patch_same)
  moreover have "be32 p2 44 = Some (the (be32 p2 44))" using hd l by (simp add: be32_lt)
  then obtain v where "be32 p2 44 = Some v" "v < 2 ^ 32" using be32_SomeD by fastforce
  then have "be32 p2 44 = Some (unat (word_of_nat v :: 32 word))" by (simp add: unat_of_nat)
  ultimately obtain q where "FixTCPChecksumV6 p2 = Some q" "good6 d (word_of_nat v) blob t' q" using fix6 [OF r2] by blast
  moreover have "decoy_packet6 p pi blob ft = FixTCPChecksumV6 p2"
    using raw6_replace [OF rp n] pi hd l t' rp by (simp add: raw6_def decoy_packet6_def p0_def [symmetric] p1_def p2_def)
  ultimately show ?thesis using t' by (auto simp: good6_def)
qed

subsection \<open>What the strategies rely on\<close>

lemma ip_hdr_len_le: "ip_hdr_len p = Some h \<Longrightarrow> h \<le> 60"
proof -
  assume "ip_hdr_len p = Some h"
  then have "h = 4 * (unat (p ! 0) mod 16)" by (simp add: ip_hdr_len_eq)
  moreover have "unat (p ! 0) mod 16 < 16" by simp
  ultimately show ?thesis by linarith
qed

lemma tcp_hdr_len_le: "tcp_hdr_len p h = Some d \<Longrightarrow> d \<le> 60"
proof -
  assume "tcp_hdr_len p h = Some d"
  then have "d = 4 * (unat (p ! (h + 12)) div 16)" by (simp add: tcp_hdr_len_eq)
  moreover have "unat (p ! (h + 12)) div 16 \<le> 15" using unat_byte_less [of "p ! (h + 12)"] by linarith
  ultimately show ?thesis by linarith
qed

locale segment_family =
  fixes F :: ip_family and v6 :: bool and raw :: "nat \<Rightarrow> nat \<Rightarrow> bytes \<Rightarrow> byte \<Rightarrow> bytes \<Rightarrow> bool"
    and good :: "nat \<Rightarrow> nat \<Rightarrow> 32 word \<Rightarrow> bytes \<Rightarrow> byte \<Rightarrow> bytes \<Rightarrow> bool"
    and view :: "bytes \<Rightarrow> (32 word \<times> bytes) option" and ttl_of :: "bytes \<Rightarrow> byte"
  assumes good_raw: "good h d s data t p \<Longrightarrow> raw h d data t p"
    and raw_length: "raw h d data t p \<Longrightarrow> length p = h + d + length data"
    and raw_bound: "raw h d data t p \<Longrightarrow> length p \<le> 65535"
    and good_view: "good h d s data t p \<Longrightarrow> view p = Some (s, data) \<and> ttl_of p = t"
    and extracted: "good h d s data t p \<Longrightarrow> \<exists>pi. fam_extract F p = Some (Some pi) \<and> IPHdrLen pi = h \<and>
      PayloadStart pi = h + d \<and> PayloadLen pi = length data \<and> Payload pi = data \<and> Seq0 pi = s"
    and build: "raw h d data t p \<Longrightarrow> IPHdrLen pi = h \<Longrightarrow> PayloadStart pi = h + d \<Longrightarrow> Seq0 pi = s \<Longrightarrow>
      h + d + length sl \<le> 65535 \<Longrightarrow> \<exists>q. fam_build F p pi sl off i = Some q \<and> good h d (s + off) sl t q"
    and clear_psh: "good h d s data t p \<Longrightarrow> \<exists>q. ClearPSH p h \<bind> fam_fix F = Some q \<and> good h d s data t q"
    and set_psh: "good h d s data t p \<Longrightarrow> \<exists>q. SetPSH p h \<bind> fam_fix F = Some q \<and> good h d s data t q"
    and fake: "good h d s data t p \<Longrightarrow> IPHdrLen pi = h \<Longrightarrow> PayloadStart pi = h + d \<Longrightarrow> Seq0 pi = s \<Longrightarrow>
      0 < n \<Longrightarrow> h + d + n \<le> 65535 \<Longrightarrow>
      \<exists>q t'. fam_fake F p pi n off i pat ft = Some (Some q) \<and> dynamicTTL p v6 ft = Some t' \<and> ttl_of q = t'"
    and decoy: "good h d s data t p \<Longrightarrow> IPHdrLen pi = h \<Longrightarrow> PayloadStart pi = h + d \<Longrightarrow>
      h + d + length blob \<le> 65535 \<Longrightarrow>
      \<exists>q t'. fam_decoy F p pi blob ft = Some q \<and> dynamicTTL p v6 ft = Some t' \<and> raw h d blob t' q"
    and headers: "good h d s data t p \<Longrightarrow> fam_hdr F p = Some h \<and> tcp_hdr_len p h = Some d"
    and first: "good h d s data t p \<Longrightarrow> n \<le> length data \<Longrightarrow>
      \<exists>q. fam_first F p h (h + d + n) = Some q \<and> good h d s (take n data) t q"
    and further: "good h d s data t p \<Longrightarrow> h + d + length sl \<le> 65535 \<Longrightarrow>
      \<exists>q. fam_next F p h (h + d) sl off i = Some q \<and> good h d (s + off) sl t q"
    and raw_data: "raw h d data t p \<Longrightarrow> drop (h + d) p = data"
    and raw_headers: "raw h d data t p \<Longrightarrow> h + d \<le> 120"

interpretation v4: segment_family fam4 False raw4 good4 tcp4_view "\<lambda>p. p ! 8"
proof (unfold_locales, goal_cases)
  case (1 h d s data t p)
  then show ?case by (rule good4_raw)
next
  case (5 h d s data t p)
  then show ?case using good4_extract by (simp add: fam4_def)
next
  case (6 h d data t p pi s sl off i)
  then show ?case using BuildSegmentV4_good [OF 6] by (simp add: fam4_def)
next
  case (7 h d s data t p)
  then show ?case using good4_psh(1) by (simp add: fam4_def)
next
  case (8 h d s data t p)
  then show ?case using good4_psh(2) by (simp add: fam4_def)
next
  case (9 h d s data t p pi n off i pat ft)
  then show ?case using good4_fake [OF 9(1-6)] by (simp add: fam4_def)
next
  case (10 h d s data t p pi blob ft)
  then show ?case using decoy_packet4_good [OF 10(1-4)] by (simp add: fam4_def)
next
  case (11 h d s data t p)
  then show ?case by (simp add: fam4_def good4_def raw4_def)
next
  case (12 h d s data t p n)
  then show ?case using cut_first4_good [OF 12] by (simp add: fam4_def)
next
  case (13 h d s data t p sl off i)
  then show ?case using cut_next4_good [OF 13] by (simp add: fam4_def)
next
  case (15 h d data t p)
  then show ?case using ip_hdr_len_le [of p h] tcp_hdr_len_le [of p h d] by (simp add: raw4_def)
qed (simp_all add: raw4_def good4_view)

interpretation v6: segment_family fam6 True "\<lambda>h d data t p. h = 40 \<and> raw6 d data t p"
    "\<lambda>h d s data t p. h = 40 \<and> good6 d s data t p" tcp6_view "\<lambda>p. p ! 7"
proof (unfold_locales, goal_cases)
  case (1 h d s data t p)
  then show ?case by (simp add: good6_def)
next
  case (5 h d s data t p)
  then show ?case using good6_extract [of d s data t p] by (simp add: fam6_def)
next
  case (6 h d data t p pi s sl off i)
  then show ?case using BuildSegmentV6_good [of d data t p pi s sl off] by (simp add: fam6_def)
next
  case (7 h d s data t p)
  then show ?case using good6_psh(1) [of d s data t p] by (simp add: fam6_def)
next
  case (8 h d s data t p)
  then show ?case using good6_psh(2) [of d s data t p] by (simp add: fam6_def)
next
  case (9 h d s data t p pi n off i pat ft)
  then show ?case using good6_fake [of d s data t p pi n off pat ft] by (simp add: fam6_def)
next
  case (10 h d s data t p pi blob ft)
  then show ?case using decoy_packet6_good [of d s data t p pi blob ft] by (simp add: fam6_def)
next
  case (11 h d s data t p)
  then show ?case by (simp add: fam6_def good6_def raw6_def)
next
  case (12 h d s data t p n)
  then show ?case using cut_first6_good [of d s data t p n] by (simp add: fam6_def)
next
  case (13 h d s data t p sl off i)
  then show ?case using cut_next6_good [of d s data t p sl off i] by (simp add: fam6_def)
next
  case (15 h d data t p)
  then show ?case using tcp_hdr_len_le [of p 40 d] by (simp add: raw6_def)
qed (auto simp: raw6_def dest: good6_view)

end
