(* ===== verification/Tcp_Strategies.thy ===== *)
theory Tcp_Strategies
  imports Tcp_View
begin

text \<open>
  The ways to send a TCP segment in pieces (\<^verbatim>\<open>sendTCPFragments\<close> and its siblings in \<^verbatim>\<open>src/nfq\<close>), for
  IPv4 and IPv6. A strategy returns the packets it hands to the raw socket, in the order it
  sends them; the pauses between them are left out. What the random source yields is an
  argument, and so is the payload of a decoy (\<^verbatim>\<open>sock.GetPayload\<close>).
\<close>

subsection \<open>Two or three segments\<close>

definition sni_split :: "bytes \<Rightarrow> int option" where
  "sni_split payload = do {
     (s, e, ok) \<leftarrow> LocateServerName payload;
     Some (if ok \<and> int e - int s \<ge> 4 then
             let sniLen = e - s in if sniLen > 30 then int e - 12 else int s + int (sniLen div 2)
           else - 1) }"

definition tcp_split_points :: "FragmentationConfig \<Rightarrow> draws \<Rightarrow> bytes \<Rightarrow> int \<Rightarrow> (int \<times> int \<times> bool \<times> bool) option" where
  "tcp_split_points fc dr payload payloadLen = do {
     let p1 = ResolveRange (int_width dr) (draw_position dr) (SNIPosition fc) (SNIPositionMax fc);
     let validP1 = (p1 > 0 \<and> p1 < payloadLen);
     p2 \<leftarrow> (if MiddleSNI fc then sni_split payload else Some (- 1));
     let p2 = (if p2 \<ge> payloadLen then payloadLen - 1 else p2);
     let validP2 = (p2 > 0 \<and> p2 < payloadLen \<and> (\<not> validP1 \<or> p2 \<noteq> p1));
     let (p1, validP1) = (if \<not> validP1 \<and> \<not> validP2 then (1, 1 < payloadLen) else (p1, validP1));
     Some (if validP1 \<and> validP2 \<and> p2 < p1 then (p2, p1, validP1, validP2) else (p1, p2, validP1, validP2)) }"

text \<open>\<^verbatim>\<open>packet[payloadStart+splitPos:]\<close> and the like, with a position that may be negative.\<close>

definition send_tcp :: "ip_family \<Rightarrow> FragmentationConfig \<Rightarrow> draws \<Rightarrow> bytes \<Rightarrow> bytes list option" where
  "send_tcp F fc dr packet = do {
     h \<leftarrow> fam_hdr F packet;
     d \<leftarrow> tcp_hdr_len packet h;
     let payloadStart = h + d;
     let payloadLen = int (length packet) - int payloadStart;
     if payloadLen \<le> 0 then Some [packet]
     else do {
       (p1, p2, validP1, validP2) \<leftarrow> tcp_split_points fc dr (drop payloadStart packet) payloadLen;
       if validP1 \<and> validP2 then do {
         seg1 \<leftarrow> fam_first F packet h (payloadStart + nat p1);
         mid \<leftarrow> sub_bytes packet (payloadStart + nat p1) (payloadStart + nat p2);
         seg2 \<leftarrow> fam_next F packet h payloadStart mid (word_of_int p1) 1;
         seg3 \<leftarrow> fam_next F packet h payloadStart (drop (payloadStart + nat p2) packet) (word_of_int p2) 2;
         Some (if ReverseOrder fc then [seg2, seg1, seg3] else [seg1, seg2, seg3]) }
       else do {
         let splitPos = (if \<not> validP1 then p2 else p1);
         let cut = nat (int payloadStart + splitPos);
         seg1 \<leftarrow> fam_first F packet h cut;
         seg2 \<leftarrow> fam_next F packet h payloadStart (drop cut packet) (word_of_int splitPos) 1;
         Some (SendTwoSegments seg1 seg2 (ReverseOrder fc)) } } }"

definition resolveTLSSplit :: "FragmentationConfig \<Rightarrow> draws \<Rightarrow> bytes \<Rightarrow> int \<Rightarrow> int option" where
  "resolveTLSSplit fc dr payload payloadLen = do {
     split \<leftarrow> (if MiddleSNI fc then do {
                 (s, e, ok) \<leftarrow> LocateServerName payload;
                 Some (if ok \<and> e > s then int (s + (e - s) div 2) else 0) }
               else Some 0);
     let split = (if split \<le> 0 then
                    let pos = ResolveRange (int_width dr) (draw_position dr) (TLSRecordPosition fc) (TLSRecordPositionMax fc)
                    in 5 + (if pos \<le> 0 then 1 else pos)
                  else split);
     let split = (if split \<ge> payloadLen then payloadLen div 2 else split);
     let split = (if split < 6 then 6 else split);
     Some (if split \<ge> payloadLen then payloadLen - 1 else split) }"

definition send_tls :: "ip_family \<Rightarrow> FragmentationConfig \<Rightarrow> draws \<Rightarrow> bytes \<Rightarrow> bytes list option" where
  "send_tls F fc dr packet = do {
     h \<leftarrow> fam_hdr F packet;
     d \<leftarrow> tcp_hdr_len packet h;
     let payloadStart = h + d;
     payload \<leftarrow> sub_bytes packet payloadStart (length packet);
     if length payload < 5 \<or> payload ! 0 \<noteq> 0x16 then Some [packet]
     else do {
       split \<leftarrow> resolveTLSSplit fc dr payload (int (length payload));
       let cut = payloadStart + nat split;
       seg1 \<leftarrow> fam_first F packet h cut;
       seg2 \<leftarrow> fam_next F packet h payloadStart (drop cut packet) (word_of_int split) 1;
       Some (SendTwoSegments seg1 seg2 (ReverseOrder fc)) } }"

definition send_firstbyte :: "ip_family \<Rightarrow> bytes \<Rightarrow> bytes list option" where
  "send_firstbyte F packet = do {
     r \<leftarrow> fam_extract F packet;
     case r of
       None \<Rightarrow> Some [packet]
     | Some pi \<Rightarrow>
         if PayloadLen pi < 2 then Some [packet]
         else do {
           a \<leftarrow> sub_bytes (Payload pi) 0 1;
           seg1 \<leftarrow> fam_build F packet pi a 0 0;
           seg1 \<leftarrow> ClearPSH seg1 (IPHdrLen pi) \<bind> fam_fix F;
           seg2 \<leftarrow> fam_build F packet pi (drop 1 (Payload pi)) 1 1;
           Some [seg1, seg2] } }"

definition send_extsplit :: "ip_family \<Rightarrow> FragmentationConfig \<Rightarrow> draws \<Rightarrow> bytes \<Rightarrow> bytes list option" where
  "send_extsplit F fc dr packet = do {
     r \<leftarrow> fam_extract F packet;
     case r of
       None \<Rightarrow> Some [packet]
     | Some pi \<Rightarrow>
         if PayloadLen pi < 50 then Some [packet]
         else do {
           splitPos \<leftarrow> findPreSNIExtensionPoint (Payload pi);
           if splitPos \<le> 5 \<or> splitPos \<ge> int (PayloadLen pi) - 10 then send_tcp F fc dr packet
           else do {
             a \<leftarrow> sub_bytes (Payload pi) 0 (nat splitPos);
             seg1 \<leftarrow> fam_build F packet pi a 0 0;
             seg1 \<leftarrow> ClearPSH seg1 (IPHdrLen pi) \<bind> fam_fix F;
             seg2 \<leftarrow> fam_build F packet pi (drop (nat splitPos) (Payload pi)) (word_of_int splitPos) 1;
             Some (SendTwoSegments seg1 seg2 (ReverseOrder fc)) } } }"

subsection \<open>Many segments, with fakes between them\<close>

fun make_fakes ::
    "ip_family \<Rightarrow> bytes \<Rightarrow> PacketInfo \<Rightarrow> nat \<Rightarrow> 32 word \<Rightarrow> bytes \<Rightarrow> byte \<Rightarrow> nat \<Rightarrow> bytes list option" where
  "make_fakes F packet pi n off pat ttl 0 = Some []"
| "make_fakes F packet pi n off pat ttl (Suc k) = do {
     f \<leftarrow> fam_fake F packet pi n off 0 pat ttl;
     rest \<leftarrow> make_fakes F packet pi n off pat ttl k;
     Some (case f of None \<Rightarrow> rest | Some q \<Rightarrow> q # rest) }"

fun send_segments ::
    "ip_family \<Rightarrow> bytes \<Rightarrow> PacketInfo \<Rightarrow> bytes \<Rightarrow> bool \<Rightarrow> nat \<Rightarrow> byte \<Rightarrow> nat \<Rightarrow> Segment list \<Rightarrow> bytes list option" where
  "send_segments F packet pi pat fakePerSeg cnt ttl i [] = Some []"
| "send_segments F packet pi pat fakePerSeg cnt ttl i (s # segs) = do {
     let n = length (Data s) - PayloadStart pi;
     fakes \<leftarrow> (if (fakePerSeg \<or> i = 0) \<and> pat \<noteq> [] \<and> length pat \<le> n
               then make_fakes F packet pi n (SegSeq s - Seq0 pi) pat ttl cnt else Some []);
     rest \<leftarrow> send_segments F packet pi pat fakePerSeg cnt ttl (Suc i) segs;
     Some (fakes @ Data s # rest) }"

definition fake_count :: "draws \<Rightarrow> int \<Rightarrow> int \<Rightarrow> nat" where
  "fake_count dr mn mx =
     (let c = ResolveRange (int_width dr) (draw_count dr) mn mx in
      if c \<le> 0 then 1 else if c > 11 then 11 else nat c)"

fun cut_segments :: "ip_family \<Rightarrow> bytes \<Rightarrow> PacketInfo \<Rightarrow> nat \<Rightarrow> nat list \<Rightarrow> Segment list option" where
  "cut_segments F packet pi i (a # b # rest) = do {
     sl \<leftarrow> sub_bytes (Payload pi) a b;
     seg \<leftarrow> fam_build F packet pi sl (word_of_nat a) (word_of_nat i);
     seg \<leftarrow> (if rest \<noteq> [] then ClearPSH seg (IPHdrLen pi) \<bind> fam_fix F else Some seg);
     segs \<leftarrow> cut_segments F packet pi (Suc i) (b # rest);
     Some (\<lparr>Data = seg, SegSeq = Seq0 pi + word_of_nat a\<rparr> # segs) }"
| "cut_segments F packet pi i _ = Some []"

definition disorder_overlap ::
    "ip_family \<Rightarrow> FragmentationConfig \<Rightarrow> bytes \<Rightarrow> PacketInfo \<Rightarrow> Segment list \<Rightarrow> Segment list option" where
  "disorder_overlap F fc packet pi segs =
     (if SeqOverlapLength fc > 0 \<and> SeqOverlapBytes fc \<noteq> [] \<and> length segs \<ge> 2 then
        let second = segs ! 1; startOff = unat (SegSeq second - Seq0 pi); n = length (Data second) - PayloadStart pi in
        if SeqOverlapLength fc < int startOff \<and> startOff + n \<le> PayloadLen pi then do {
          orig \<leftarrow> sub_bytes (Payload pi) startOff (startOff + n);
          nd \<leftarrow> build_overlap F packet pi orig startOff (SeqOverlapLength fc) (SeqOverlapBytes fc) 1;
          nd \<leftarrow> (if length segs > 2 then ClearPSH nd (IPHdrLen pi) \<bind> fam_fix F else Some nd);
          Some (segs[1 := \<lparr>Data = nd, SegSeq = Seq0 pi + word_of_nat startOff - word_of_int (SeqOverlapLength fc)\<rparr>]) }
        else Some segs
      else Some segs)"

definition send_disorder ::
    "ip_family \<Rightarrow> FragmentationConfig \<Rightarrow> FakingConfig \<Rightarrow> draws \<Rightarrow> bytes \<Rightarrow> bytes list option" where
  "send_disorder F fc fk dr packet = do {
     r \<leftarrow> fam_extract F packet;
     case r of
       None \<Rightarrow> Some [packet]
     | Some pi \<Rightarrow>
         if PayloadLen pi < 10 then Some [packet]
         else do {
           splits \<leftarrow> GetSNISplitPoints (Payload pi) (PayloadLen pi) (MiddleSNI fc) 0;
           let splits = (if splits = [] then [1, PayloadLen pi div 2, PayloadLen pi * 3 div 4] else splits);
           segs \<leftarrow> cut_segments F packet pi 0 (BuildValidSplits splits (PayloadLen pi));
           segs \<leftarrow> disorder_overlap F fc packet pi segs;
           let segs = ShuffleSegments segs (DisorderShuffleMode (Disorder fc)) (draw_shuffle dr);
           segs \<leftarrow> SetMaxSeqPSH (fam_fix F) (IPHdrLen pi) segs;
           send_segments F packet pi (SeqOverlapBytes fc) (DisorderFakePerSegment (Disorder fc))
             (fake_count dr (DisorderFakePerSegCount (Disorder fc)) (DisorderFakePerSegCountMax (Disorder fc)))
             (FakeTTL fk) 0 segs } }"

definition send_decoy :: "ip_family \<Rightarrow> FakingConfig \<Rightarrow> bytes \<Rightarrow> bytes \<Rightarrow> PacketInfo \<Rightarrow> bytes list option" where
  "send_decoy F fk fakeBlob packet pi =
     (if length fakeBlob < 3 then Some []
      else do {
        let blob = take 680 fakeBlob;
        fp \<leftarrow> fam_decoy F packet pi blob (FakeTTL fk);
        seg1 \<leftarrow> fam_build F fp pi (take 2 blob) 0 0;
        seg1 \<leftarrow> ClearPSH seg1 (IPHdrLen pi) \<bind> fam_fix F;
        seg2 \<leftarrow> fam_build F fp pi (drop 2 blob) 2 1;
        Some [seg1, seg2] })"

fun combo_cut ::
    "ip_family \<Rightarrow> bytes \<Rightarrow> PacketInfo \<Rightarrow> nat \<Rightarrow> nat \<Rightarrow> nat list \<Rightarrow> Segment list \<Rightarrow> (Segment list \<times> nat) option" where
  "combo_cut F packet pi idx prevEnd [] acc = Some (acc, prevEnd)"
| "combo_cut F packet pi idx prevEnd (s # ss) acc =
     (if s \<le> prevEnd then combo_cut F packet pi (Suc idx) prevEnd ss acc
      else do {
        sl \<leftarrow> sub_bytes (Payload pi) prevEnd s;
        seg \<leftarrow> fam_build F packet pi sl (word_of_nat prevEnd) (word_of_nat idx);
        combo_cut F packet pi (Suc idx) s ss (acc @ [\<lparr>Data = seg, SegSeq = Seq0 pi + word_of_nat prevEnd\<rparr>]) })"

definition combo_overlap ::
    "ip_family \<Rightarrow> FragmentationConfig \<Rightarrow> bytes \<Rightarrow> PacketInfo \<Rightarrow> Segment list \<Rightarrow> Segment list option" where
  "combo_overlap F fc packet pi segs =
     (if SeqOverlapLength fc > 0 \<and> SeqOverlapBytes fc \<noteq> [] \<and> startsMessage (Payload pi) then
        let fst_seg = segs ! 0; startOff = unat (SegSeq fst_seg - Seq0 pi); n = length (Data fst_seg) - PayloadStart pi in
        if startOff + n \<le> PayloadLen pi then do {
          orig \<leftarrow> sub_bytes (Payload pi) startOff (startOff + n);
          nd \<leftarrow> build_overlap F packet pi orig startOff (SeqOverlapLength fc) (SeqOverlapBytes fc) 0;
          Some (segs[0 := \<lparr>Data = nd, SegSeq = Seq0 pi + word_of_nat startOff - word_of_int (SeqOverlapLength fc)\<rparr>]) }
        else Some segs
      else Some segs)"

definition send_combo ::
    "ip_family \<Rightarrow> FragmentationConfig \<Rightarrow> FakingConfig \<Rightarrow> bytes \<Rightarrow> draws \<Rightarrow> bytes \<Rightarrow> bytes list option" where
  "send_combo F fc fk fakeBlob dr packet = do {
     r \<leftarrow> fam_extract F packet;
     case r of
       None \<Rightarrow> Some [packet]
     | Some pi \<Rightarrow>
         if PayloadLen pi < 20 then Some [packet]
         else do {
           decoys \<leftarrow> (if DecoyEnabled (Combo fc) then send_decoy F fk fakeBlob packet pi else Some []);
           splits \<leftarrow> GetComboSplitPoints (Payload pi) (PayloadLen pi) (Combo fc) (MiddleSNI fc);
           let splits = uniqueSorted splits (PayloadLen pi);
           let splits = (if splits = [] then [PayloadLen pi div 2] else splits);
           (segs, prevEnd) \<leftarrow> combo_cut F packet pi 0 0 splits [];
           segs \<leftarrow> (if prevEnd < PayloadLen pi then do {
                      seg \<leftarrow> fam_build F packet pi (drop prevEnd (Payload pi)) (word_of_nat prevEnd) (word_of_nat (length segs));
                      Some (segs @ [\<lparr>Data = seg, SegSeq = Seq0 pi + word_of_nat prevEnd\<rparr>]) }
                    else Some segs);
           if segs = [] then Some (decoys @ [packet])
           else do {
             segs \<leftarrow> combo_overlap F fc packet pi segs;
             let segs = ShuffleSegments segs (ComboShuffleMode (Combo fc)) (draw_shuffle dr);
             segs \<leftarrow> SetMaxSeqPSH (fam_fix F) (IPHdrLen pi) segs;
             sent \<leftarrow> send_segments F packet pi (SeqOverlapBytes fc) (ComboFakePerSegment (Combo fc))
               (fake_count dr (ComboFakePerSegCount (Combo fc)) (ComboFakePerSegCountMax (Combo fc)))
               (FakeTTL fk) 0 segs;
             Some (decoys @ sent) } } }"

definition send_hybrid ::
    "ip_family \<Rightarrow> FragmentationConfig \<Rightarrow> FakingConfig \<Rightarrow> bytes \<Rightarrow> draws \<Rightarrow> bytes \<Rightarrow> bytes list option" where
  "send_hybrid F fc fk fakeBlob dr packet = do {
     h \<leftarrow> fam_hdr F packet;
     d \<leftarrow> tcp_hdr_len packet h;
     if int (length packet) - int (h + d) < 10 then Some [packet]
     else do {
       let payload = drop (h + d) packet;
       extSplit \<leftarrow> findPreSNIExtensionPoint payload;
       (sniStart, sniEnd, hasSNI) \<leftarrow> LocateServerName payload;
       let longName = (hasSNI \<and> int sniEnd - int sniStart > 6);
       if extSplit > 5 \<and> longName then send_combo F fc fk fakeBlob dr packet
       else if longName then send_disorder F fc fk dr packet
       else if extSplit > 5 then send_extsplit F fc dr packet
       else send_firstbyte F packet } }"

text \<open>The two copies of each strategy in the code.\<close>

definition sendTCPFragments :: "FragmentationConfig \<Rightarrow> draws \<Rightarrow> bytes \<Rightarrow> bytes list option" where
  "sendTCPFragments = send_tcp fam4"

definition sendTCPSegmentsv6 :: "FragmentationConfig \<Rightarrow> draws \<Rightarrow> bytes \<Rightarrow> bytes list option" where
  "sendTCPSegmentsv6 = send_tcp fam6"

definition sendTLSFragments :: "FragmentationConfig \<Rightarrow> draws \<Rightarrow> bytes \<Rightarrow> bytes list option" where
  "sendTLSFragments = send_tls fam4"

definition sendTLSFragmentsV6 :: "FragmentationConfig \<Rightarrow> draws \<Rightarrow> bytes \<Rightarrow> bytes list option" where
  "sendTLSFragmentsV6 = send_tls fam6"

definition sendFirstByteDesync :: "bytes \<Rightarrow> bytes list option" where
  "sendFirstByteDesync = send_firstbyte fam4"

definition sendFirstByteDesyncV6 :: "bytes \<Rightarrow> bytes list option" where
  "sendFirstByteDesyncV6 = send_firstbyte fam6"

definition sendExtSplitFragments :: "FragmentationConfig \<Rightarrow> draws \<Rightarrow> bytes \<Rightarrow> bytes list option" where
  "sendExtSplitFragments = send_extsplit fam4"

definition sendExtSplitFragmentsV6 :: "FragmentationConfig \<Rightarrow> draws \<Rightarrow> bytes \<Rightarrow> bytes list option" where
  "sendExtSplitFragmentsV6 = send_extsplit fam6"

definition sendDisorderFragments :: "FragmentationConfig \<Rightarrow> FakingConfig \<Rightarrow> draws \<Rightarrow> bytes \<Rightarrow> bytes list option" where
  "sendDisorderFragments = send_disorder fam4"

definition sendDisorderFragmentsV6 :: "FragmentationConfig \<Rightarrow> FakingConfig \<Rightarrow> draws \<Rightarrow> bytes \<Rightarrow> bytes list option" where
  "sendDisorderFragmentsV6 = send_disorder fam6"

definition sendDecoyPacket :: "FakingConfig \<Rightarrow> bytes \<Rightarrow> bytes \<Rightarrow> PacketInfo \<Rightarrow> bytes list option" where
  "sendDecoyPacket = send_decoy fam4"

definition sendDecoyPacketV6 :: "FakingConfig \<Rightarrow> bytes \<Rightarrow> bytes \<Rightarrow> PacketInfo \<Rightarrow> bytes list option" where
  "sendDecoyPacketV6 = send_decoy fam6"

definition sendComboFragments ::
    "FragmentationConfig \<Rightarrow> FakingConfig \<Rightarrow> bytes \<Rightarrow> draws \<Rightarrow> bytes \<Rightarrow> bytes list option" where
  "sendComboFragments = send_combo fam4"

definition sendComboFragmentsV6 ::
    "FragmentationConfig \<Rightarrow> FakingConfig \<Rightarrow> bytes \<Rightarrow> draws \<Rightarrow> bytes \<Rightarrow> bytes list option" where
  "sendComboFragmentsV6 = send_combo fam6"

definition sendHybridFragments ::
    "FragmentationConfig \<Rightarrow> FakingConfig \<Rightarrow> bytes \<Rightarrow> draws \<Rightarrow> bytes \<Rightarrow> bytes list option" where
  "sendHybridFragments = send_hybrid fam4"

definition sendHybridFragmentsV6 ::
    "FragmentationConfig \<Rightarrow> FakingConfig \<Rightarrow> bytes \<Rightarrow> draws \<Rightarrow> bytes \<Rightarrow> bytes list option" where
  "sendHybridFragmentsV6 fc fk fakeBlob dr packet =
     (if length packet < 60 then Some [packet] else send_hybrid fam6 fc fk fakeBlob dr packet)"

end
