(* ===== verification/Tcp_Reassembly.thy ===== *)
theory Tcp_Reassembly
  imports Tcp_Strategies
begin

text \<open>
  The segments a strategy sends are the stream the client sent. \<open>delivers\<close> says what that means
  to a receiver whatever the order of arrival: no segment contradicts the data at its
  place in the sequence space, and every byte of the data is in some segment. Fakes and
  decoys are packets whose hop limit runs out before the receiver.
\<close>

subsection \<open>What a set of segments delivers\<close>

definition place :: "32 word \<Rightarrow> 32 word \<Rightarrow> nat \<Rightarrow> nat" where
  "place s0 s i = unat (s + word_of_nat i - s0)"

definition agrees :: "32 word \<Rightarrow> bytes \<Rightarrow> 32 word \<times> bytes \<Rightarrow> bool" where
  "agrees s0 data x \<longleftrightarrow> (\<forall>i < length (snd x). place s0 (fst x) i < length data \<longrightarrow> snd x ! i = data ! place s0 (fst x) i)"

definition covers :: "32 word \<Rightarrow> nat \<Rightarrow> 32 word \<times> bytes \<Rightarrow> bool" where
  "covers s0 k x \<longleftrightarrow> (\<exists>i < length (snd x). place s0 (fst x) i = k)"

definition delivers :: "32 word \<Rightarrow> bytes \<Rightarrow> (32 word \<times> bytes) list \<Rightarrow> bool" where
  "delivers s0 data xs \<longleftrightarrow> (\<forall>x \<in> set xs. agrees s0 data x) \<and> (\<forall>k < length data. \<exists>x \<in> set xs. covers s0 k x)"

lemma delivers_set: "set xs = set ys \<Longrightarrow> delivers s0 data xs = delivers s0 data ys"
  by (simp add: delivers_def)

lemma place_ahead: "a + i < 2 ^ 32 \<Longrightarrow> place s0 (s0 + word_of_nat a) i = a + i"
proof -
  assume a: "a + i < 2 ^ 32"
  have "s0 + word_of_nat a + word_of_nat i - s0 = (word_of_nat (a + i) :: 32 word)" by simp
  then show ?thesis using a by (simp add: place_def unat_of_nat del: of_nat_add)
qed

lemma place_behind: "i < v \<Longrightarrow> v < 2 ^ 31 \<Longrightarrow> place s0 (s0 - word_of_nat v) i \<ge> 2 ^ 31"
proof -
  assume i: "i < v" "v < 2 ^ 31"
  have "s0 - word_of_nat v + word_of_nat i - s0 = (word_of_nat (2 ^ 32 - (v - i)) :: 32 word)"
    using i by (simp add: of_nat_diff)
  moreover have "2 ^ 32 - (v - i) < (2 ^ 32 :: nat)" using i by simp
  ultimately have "place s0 (s0 - word_of_nat v) i = 2 ^ 32 - (v - i)"
    unfolding place_def by (simp only: unat_of_nat) simp
  then show ?thesis using i by simp
qed

definition piece :: "32 word \<Rightarrow> bytes \<Rightarrow> nat \<Rightarrow> nat \<Rightarrow> 32 word \<times> bytes" where
  "piece s0 data a b = (s0 + word_of_nat a, take (b - a) (drop a data))"

lemma agrees_piece: "b \<le> length data \<Longrightarrow> length data \<le> 65535 \<Longrightarrow> agrees s0 data (piece s0 data a b)"
  by (auto simp: agrees_def piece_def place_ahead)

lemma covers_piece: "a \<le> k \<Longrightarrow> k < b \<Longrightarrow> b \<le> length data \<Longrightarrow> length data \<le> 65535 \<Longrightarrow> covers s0 k (piece s0 data a b)"
  by (auto simp: covers_def piece_def place_ahead intro!: exI [of _ "k - a"])

fun pieces :: "32 word \<Rightarrow> bytes \<Rightarrow> nat list \<Rightarrow> (32 word \<times> bytes) list" where
  "pieces s0 data (a # b # rest) = piece s0 data a b # pieces s0 data (b # rest)"
| "pieces s0 data _ = []"

lemma pieces_agree:
  "sorted vs \<Longrightarrow> \<forall>v \<in> set vs. v \<le> length data \<Longrightarrow> length data \<le> 65535 \<Longrightarrow> x \<in> set (pieces s0 data vs) \<Longrightarrow> agrees s0 data x"
  by (induction s0 data vs rule: pieces.induct) (auto intro: agrees_piece)

lemma pieces_cover:
  "sorted vs \<Longrightarrow> vs \<noteq> [] \<Longrightarrow> \<forall>v \<in> set vs. v \<le> length data \<Longrightarrow> length data \<le> 65535 \<Longrightarrow> hd vs \<le> k \<Longrightarrow> k < last vs \<Longrightarrow>
   \<exists>x \<in> set (pieces s0 data vs). covers s0 k x"
proof (induction s0 data vs rule: pieces.induct)
  case (1 s0 data a b rest)
  show ?case
  proof (cases "k < b")
    case True
    then show ?thesis using 1 by (auto intro!: covers_piece)
  next
    case False
    then show ?thesis using 1 by auto
  qed
qed auto

lemma delivers_pieces:
  assumes "sorted vs" "vs \<noteq> []" "hd vs = 0" "last vs = length data" "length data \<le> 65535"
  shows "delivers s0 data (pieces s0 data vs)"
proof -
  have "\<forall>v \<in> set vs. v \<le> last vs"
    using assms(1,2) by (metis in_set_conv_nth last_conv_nth le_numeral_extra(4) length_greater_0_conv less_imp_diff_less nth_mem sorted_iff_nth_mono diff_Suc_1 Suc_leI diff_less less_Suc_eq_le zero_less_one One_nat_def Suc_pred)
  then show ?thesis using assms pieces_agree [of vs data] pieces_cover [of vs data] by (auto simp: delivers_def)
qed

text \<open>Bytes in front of the data do no harm: they are old to the receiver.\<close>

lemma delivers_overlap:
  assumes d: "delivers s0 data ((s0, sl) # xs)" and v: "length pre = v" "v < 2 ^ 31" "length data \<le> 65535" "length sl \<le> 65535"
  shows "delivers s0 data ((s0 - word_of_nat v, pre @ sl) # xs)"
proof -
  have at: "place s0 (s0 - word_of_nat v) (v + j) = place s0 s0 j" for j
    by (simp add: place_def)
  have "agrees s0 data (s0 - word_of_nat v, pre @ sl)"
    unfolding agrees_def
  proof (intro allI impI)
    fix i
    assume i: "i < length (snd (s0 - word_of_nat v, pre @ sl))"
      "place s0 (fst (s0 - word_of_nat v, pre @ sl)) i < length data"
    then have "\<not> i < v" using place_behind [of i v s0] v by auto
    then obtain j where j: "i = v + j" using le_Suc_ex by (metis not_less)
    have "agrees s0 data (s0, sl)" using d by (simp add: delivers_def)
    then show "snd (s0 - word_of_nat v, pre @ sl) ! i = data ! place s0 (fst (s0 - word_of_nat v, pre @ sl)) i"
      using i v by (simp add: agrees_def j at nth_append)
  qed
  moreover have "covers s0 k (s0 - word_of_nat v, pre @ sl)" if c: "covers s0 k (s0, sl)" for k
  proof -
    obtain i where "i < length sl" "place s0 s0 i = k" using c by (auto simp: covers_def)
    then show ?thesis using at [of i] v by (auto simp: covers_def intro!: exI [of _ "v + i"])
  qed
  ultimately show ?thesis using d by (auto simp: delivers_def)
qed

text \<open>A list of sent packets reaches a receiver \<open>hops\<close> routers away: what arrives there is intact and delivers the data.\<close>

definition arriving :: "(bytes \<Rightarrow> (32 word \<times> bytes) option) \<Rightarrow> (bytes \<Rightarrow> byte) \<Rightarrow> nat \<Rightarrow> bytes list \<Rightarrow> (32 word \<times> bytes) list" where
  "arriving view ttl_of hops sent = List.map_filter view (filter (\<lambda>q. hops < unat (ttl_of q)) sent)"

definition reaches ::
    "(bytes \<Rightarrow> (32 word \<times> bytes) option) \<Rightarrow> (bytes \<Rightarrow> byte) \<Rightarrow> nat \<Rightarrow> 32 word \<Rightarrow> bytes \<Rightarrow> bytes list \<Rightarrow> bool" where
  "reaches view ttl_of hops s data sent \<longleftrightarrow>
     (\<forall>q \<in> set sent. hops < unat (ttl_of q) \<longrightarrow> view q \<noteq> None) \<and> delivers s data (arriving view ttl_of hops sent)"

subsection \<open>The routines of a strategy\<close>

lemma max_seq_index_less: "segs \<noteq> [] \<Longrightarrow> max_seq_index segs < length segs"
proof -
  have "m < length segs \<Longrightarrow> set is \<subseteq> {..<length segs} \<Longrightarrow>
      foldl (\<lambda>m i. if SegSeq (segs ! i) > SegSeq (segs ! m) then i else m) m is < length segs" for m "is"
    by (induction "is" arbitrary: m) auto
  from this [of 0 "[0..<length segs]"] show "segs \<noteq> [] \<Longrightarrow> max_seq_index segs < length segs"
    by (simp add: max_seq_index_def atLeast0LessThan)
qed

context segment_family
begin

definition sees :: "nat \<Rightarrow> nat \<Rightarrow> byte \<Rightarrow> bytes \<Rightarrow> 32 word \<times> bytes \<Rightarrow> bool" where
  "sees h d t q x \<longleftrightarrow> good h d (fst x) (snd x) t q"

definition segs_see :: "nat \<Rightarrow> nat \<Rightarrow> byte \<Rightarrow> Segment list \<Rightarrow> (32 word \<times> bytes) list \<Rightarrow> bool" where
  "segs_see h d t segs xs \<longleftrightarrow> list_all2 (\<lambda>sg x. sees h d t (Data sg) x \<and> SegSeq sg = fst x) segs xs"

lemma sees_length: "sees h d t q x \<Longrightarrow> h + d \<le> length q \<and> length q \<le> 65535"
  using raw_length raw_bound good_raw by (fastforce simp: sees_def)

lemma reachesI:
  assumes "list_all2 (sees h d t) qs xs" and "hops < unat t" and "delivers s data xs"
    and "set qs \<subseteq> set sent" and "\<forall>q \<in> set sent. q \<in> set qs \<or> unat (ttl_of q) \<le> hops"
  shows "reaches view ttl_of hops s data sent"
proof -
  have v: "\<exists>x \<in> set xs. view q = Some x \<and> ttl_of q = t" if "q \<in> set qs" for q
    using assms(1) that good_view by (fastforce simp: sees_def list_all2_conv_all_nth in_set_conv_nth)
  have w: "\<exists>q \<in> set qs. view q = Some x \<and> ttl_of q = t" if "x \<in> set xs" for x
    using assms(1) that good_view by (fastforce simp: sees_def list_all2_conv_all_nth in_set_conv_nth)
  have "set (arriving view ttl_of hops sent) = {x. \<exists>q \<in> set sent. hops < unat (ttl_of q) \<and> view q = Some x}"
    by (force simp: arriving_def List.map_filter_def image_iff)
  also have "\<dots> = set xs"
  proof (intro set_eqI iffI)
    fix x
    assume "x \<in> {x. \<exists>q \<in> set sent. hops < unat (ttl_of q) \<and> view q = Some x}"
    then obtain q where "q \<in> set sent" "hops < unat (ttl_of q)" "view q = Some x" by blast
    then show "x \<in> set xs" using assms(5) v by fastforce
  next
    fix x
    assume "x \<in> set xs"
    then show "x \<in> {x. \<exists>q \<in> set sent. hops < unat (ttl_of q) \<and> view q = Some x}" using w assms(2,4) by blast
  qed
  finally have "delivers s data (arriving view ttl_of hops sent)" using assms(3) delivers_set by metis
  moreover have "view q \<noteq> None" if "q \<in> set sent" "hops < unat (ttl_of q)" for q using that assms(5) v by fastforce
  ultimately show ?thesis by (auto simp: reaches_def)
qed

lemma clear_all_psh_sees:
  "segs_see h d t segs xs \<Longrightarrow> \<exists>segs'. clear_all_psh (fam_fix F) h segs = Some segs' \<and> segs_see h d t segs' xs"
  unfolding segs_see_def
proof (induction segs xs rule: list_all2_induct)
  case (Cons sg segs x xs)
  obtain q where "ClearPSH (Data sg) h \<bind> fam_fix F = Some q" "sees h d t q x"
    using clear_psh Cons.hyps unfolding sees_def by blast
  then show ?case using Cons.IH Cons.hyps by (auto simp: bind_eq_Some_conv)
qed auto

lemma SetMaxSeqPSH_sees:
  assumes "segs_see h d t segs xs" "segs \<noteq> []"
  shows "\<exists>segs'. SetMaxSeqPSH (fam_fix F) h segs = Some segs' \<and> segs_see h d t segs' xs"
proof -
  obtain segs' where s: "clear_all_psh (fam_fix F) h segs = Some segs'" "segs_see h d t segs' xs"
    using clear_all_psh_sees assms by blast
  define m where "m = max_seq_index segs'"
  have l: "length segs' = length xs" "length segs = length xs"
    using s(2) assms(1) by (auto simp: segs_see_def dest: list_all2_lengthD)
  then have m: "m < length segs'" unfolding m_def using assms(2) by (intro max_seq_index_less) auto
  then have "sees h d t (Data (segs' ! m)) (xs ! m)" using s(2) by (auto simp: segs_see_def list_all2_conv_all_nth)
  then obtain q where q: "SetPSH (Data (segs' ! m)) h \<bind> fam_fix F = Some q" "sees h d t q (xs ! m)"
    using set_psh unfolding sees_def by blast
  have "segs_see h d t (segs'[m := (segs' ! m)\<lparr>Data := q\<rparr>]) xs"
    using s(2) q(2) m unfolding segs_see_def list_all2_conv_all_nth by (simp add: nth_list_update)
  then show ?thesis using s(1) q(1) m by (auto simp: SetMaxSeqPSH_def m_def [symmetric] bind_eq_Some_conv)
qed

lemma ShuffleSegments_sees:
  assumes "segs_see h d t segs xs"
  shows "\<exists>ys. set ys = set xs \<and> segs_see h d t (ShuffleSegments segs mode r) ys"
proof -
  obtain ys where "list_all2 (\<lambda>sg x. sees h d t (Data sg) x \<and> SegSeq sg = fst x) (ShuffleSegments segs mode r) ys" "mset ys = mset xs"
    using list_all2_reorder_left_invariance [OF assms [unfolded segs_see_def] mset_ShuffleSegments] by blast
  moreover from this(2) have "set ys = set xs" by (metis set_mset_mset)
  ultimately show ?thesis unfolding segs_see_def by blast
qed

text \<open>What is fixed while one packet is cut: its layout, the read headers and the hop limit of fakes.\<close>

definition reading :: "nat \<Rightarrow> nat \<Rightarrow> 32 word \<Rightarrow> bytes \<Rightarrow> byte \<Rightarrow> bytes \<Rightarrow> PacketInfo \<Rightarrow> bool" where
  "reading h d s data t p pi \<longleftrightarrow> good h d s data t p \<and> IPHdrLen pi = h \<and> PayloadStart pi = h + d \<and>
     PayloadLen pi = length data \<and> Payload pi = data \<and> Seq0 pi = s"

lemma reading_build:
  "reading h d s data t p pi \<Longrightarrow> h + d + length sl \<le> 65535 \<Longrightarrow>
   \<exists>q. fam_build F p pi sl off i = Some q \<and> sees h d t q (s + off, sl)"
  unfolding reading_def sees_def fst_conv snd_conv by (elim conjE, intro build good_raw) 

lemma reading_length: "reading h d s data t p pi \<Longrightarrow> h + d + length data \<le> 65535"
  using raw_length raw_bound good_raw by (metis reading_def)

lemma make_fakes_ttl:
  assumes "reading h d s data t p pi" "0 < n" "h + d + n \<le> 65535" "dynamicTTL p v6 ft = Some t'"
  shows "\<exists>fs. make_fakes F p pi n off pat ft k = Some fs \<and> (\<forall>f \<in> set fs. ttl_of f = t')"
proof (induction k)
  case (Suc k)
  obtain q where "fam_fake F p pi n off 0 pat ft = Some (Some q)" "ttl_of q = t'"
    using fake [of h d s data t p pi n] assms unfolding reading_def by (metis option.inject)
  then show ?case using Suc by auto
qed simp

lemma send_segments_sees:
  assumes r: "reading h d s data t p pi" and t: "dynamicTTL p v6 ft = Some t'"
  shows "segs_see h d t segs xs \<Longrightarrow> \<exists>sent. send_segments F p pi pat fps cnt ft i segs = Some sent \<and>
     set (map Data segs) \<subseteq> set sent \<and> (\<forall>q \<in> set sent. q \<in> set (map Data segs) \<or> ttl_of q = t')"
  unfolding segs_see_def
proof (induction segs xs arbitrary: i rule: list_all2_induct)
  case (Cons sg segs x xs)
  define n where "n = length (Data sg) - PayloadStart pi"
  have n: "0 < n \<Longrightarrow> h + d + n \<le> 65535"
    using sees_length [of h d t "Data sg" x] Cons.hyps r by (simp add: n_def reading_def)
  define fk where "fk = (if (fps \<or> i = 0) \<and> pat \<noteq> [] \<and> length pat \<le> n
      then make_fakes F p pi n (SegSeq sg - Seq0 pi) pat ft cnt else Some [])"
  have "\<exists>fs. fk = Some fs \<and> (\<forall>f \<in> set fs. ttl_of f = t')"
  proof (cases "(fps \<or> i = 0) \<and> pat \<noteq> [] \<and> length pat \<le> n")
    case True
    then have "0 < n" by (metis le_zero_eq length_0_conv neq0_conv)
    then show ?thesis using True make_fakes_ttl [OF r _ n t] by (simp add: fk_def)
  qed (auto simp: fk_def)
  then obtain fs where fs: "fk = Some fs" "\<forall>f \<in> set fs. ttl_of f = t'" by blast
  obtain rest where rest: "send_segments F p pi pat fps cnt ft (Suc i) segs = Some rest" "set (map Data segs) \<subseteq> set rest"
      "\<forall>q \<in> set rest. q \<in> set (map Data segs) \<or> ttl_of q = t'" using Cons.IH by blast
  have "send_segments F p pi pat fps cnt ft i (sg # segs) = Some (fs @ Data sg # rest)"
    using fs(1) rest(1) unfolding fk_def n_def send_segments.simps Let_def by simp
  then show ?case using fs(2) rest(2,3) by auto
qed auto

text \<open>The common end of the strategies that cut into many segments.\<close>

lemma shuffled_reaches:
  assumes r: "reading h d s data t p pi" and t: "dynamicTTL p v6 ft = Some t'" "unat t' \<le> hops" "hops < unat t"
    and segs: "segs_see h d t segs xs" "segs \<noteq> []" "delivers s data xs"
  shows "\<exists>segs' sent. SetMaxSeqPSH (fam_fix F) h (ShuffleSegments segs mode rnd) = Some segs' \<and>
     send_segments F p pi pat fps cnt ft 0 segs' = Some sent \<and> reaches view ttl_of hops s data sent"
proof -
  obtain ys where ys: "set ys = set xs" "segs_see h d t (ShuffleSegments segs mode rnd) ys"
    using ShuffleSegments_sees segs(1) by blast
  have "ShuffleSegments segs mode rnd \<noteq> []" using set_ShuffleSegments segs(2) by (metis set_empty)
  then obtain segs' where s': "SetMaxSeqPSH (fam_fix F) h (ShuffleSegments segs mode rnd) = Some segs'" "segs_see h d t segs' ys"
    using SetMaxSeqPSH_sees ys(2) by blast
  obtain sent where sent: "send_segments F p pi pat fps cnt ft 0 segs' = Some sent"
      "set (map Data segs') \<subseteq> set sent" "\<forall>q \<in> set sent. q \<in> set (map Data segs') \<or> ttl_of q = t'"
    using send_segments_sees [OF r t(1) s'(2)] by blast
  have "list_all2 (sees h d t) (map Data segs') ys"
    using s'(2) by (auto simp: segs_see_def list_all2_map1 elim: list_all2_mono)
  moreover have "delivers s data ys" using delivers_set ys(1) segs(3) by metis
  ultimately have "reaches view ttl_of hops s data sent"
    using reachesI [of h d t "map Data segs'" ys hops s data sent] t sent by auto
  then show ?thesis using s'(1) sent(1) by blast
qed

text \<open>A packet, two or three segments, in any order.\<close>

lemma pieces_reach:
  assumes "list_all2 (sees h d t) qs (pieces s data vs)" "sorted vs" "vs \<noteq> []" "hd vs = 0" "last vs = length data"
    "length data \<le> 65535" "hops < unat t" "set sent = set qs"
  shows "reaches view ttl_of hops s data sent"
  using reachesI [OF assms(1) assms(7) delivers_pieces [OF assms(2-6)]] assms(8) by simp

lemma whole_reaches:
  assumes "good h d s data t p" "hops < unat t"
  shows "reaches view ttl_of hops s data [p]"
proof (rule pieces_reach [of h d t "[p]" s data "[0, length data]"])
  show "length data \<le> 65535" using raw_length [OF good_raw [OF assms(1)]] raw_bound [OF good_raw [OF assms(1)]] by simp
qed (use assms in \<open>simp_all add: piece_def sees_def\<close>)

lemma two_reach:
  assumes "sees h d t q1 (s, take k data)" "sees h d t q2 (s + word_of_nat k, drop k data)"
    "k \<le> length data" "length data \<le> 65535" "hops < unat t"
  shows "reaches view ttl_of hops s data (SendTwoSegments q1 q2 rev_order)"
  using assms by (intro pieces_reach [of h d t "[q1, q2]" s data "[0, k, length data]"])
    (auto simp: piece_def SendTwoSegments_def)

lemma three_reach:
  assumes "sees h d t q1 (s, take a data)" "sees h d t q2 (s + word_of_nat a, take (b - a) (drop a data))"
    "sees h d t q3 (s + word_of_nat b, drop b data)" "a \<le> b" "b \<le> length data" "length data \<le> 65535" "hops < unat t"
    "set sent = {q1, q2, q3}"
  shows "reaches view ttl_of hops s data sent"
  using assms by (intro pieces_reach [of h d t "[q1, q2, q3]" s data "[0, a, b, length data]"]) (auto simp: piece_def)

lemma reading_ex: "good h d s data t p \<Longrightarrow> \<exists>pi. fam_extract F p = Some (Some pi) \<and> reading h d s data t p pi"
  using extracted unfolding reading_def by blast

lemma reading_cut:
  assumes "reading h d s data t p pi" "length sl \<le> length data"
  shows "\<exists>q. fam_build F p pi sl off i = Some q \<and> sees h d t q (s + off, sl)"
  using reading_build [OF assms(1)] reading_length [OF assms(1)] assms(2) by simp

lemma build_clear:
  assumes "reading h d s data t p pi" "length sl \<le> length data"
  shows "\<exists>q y q'. fam_build F p pi sl off i = Some q \<and> ClearPSH q h = Some y \<and> fam_fix F y = Some q' \<and>
    sees h d t q' (s + off, sl)"
proof -
  obtain q where q: "fam_build F p pi sl off i = Some q" "good h d (s + off) sl t q"
    using reading_cut [OF assms] unfolding sees_def by auto
  then show ?thesis using clear_psh [OF q(2)] unfolding sees_def by (auto simp: bind_eq_Some_conv)
qed

end

end
