(* ===== verification/Tcp_Delivery.thy ===== *)
theory Tcp_Delivery
  imports Tcp_Reassembly
begin

text \<open>
  Every strategy delivers the stream: the packets a strategy sends for an intact segment are intact
  or die on the way, and those that arrive carry the data of the segment. The lemmas are proved once
  in \<open>segment_family\<close> and hold for IPv4 and IPv6 by its interpretations.
\<close>

subsection \<open>Choosing the places to cut\<close>

lemma last_max: "sorted vs \<Longrightarrow> v \<in> set vs \<Longrightarrow> v \<le> last vs"
  by (induction vs) auto

lemma no_panic_pre_sni_loop: "e \<le> length payload \<Longrightarrow> no_panic (pre_sni_loop payload safe pos e)"
proof (induction payload safe pos e rule: pre_sni_loop.induct)
  case (1 payload safe pos e)
  show ?case
  proof (cases "pos + 4 \<le> e")
    case True
    then have "be16 payload pos \<noteq> None" "be16 payload (pos + 2) \<noteq> None" using 1(2) by (simp_all add: be16_lt)
    then show ?thesis using 1 True
      by (auto simp: pre_sni_loop.simps [of payload safe pos e] no_panic_def)
  qed (simp add: pre_sni_loop.simps)
qed

lemma findPreSNI_ex: "\<exists>n. findPreSNIExtensionPoint payload = Some n"
proof -
  have "no_panic (findPreSNIExtensionPoint payload)"
    unfolding findPreSNIExtensionPoint_def Let_def
    by (intro no_panic_intros no_panic_pre_sni_loop) auto
  then show ?thesis by (simp add: no_panic_ex)
qed

lemma LocateServerName_ex: "\<exists>s e ok. LocateServerName payload = Some (s, e, ok)"
  using no_panic_LocateServerName [of payload] by (auto simp: no_panic_ex)

lemma sni_split_ex: "\<exists>n. sni_split payload = Some n"
  using LocateServerName_ex [of payload] by (auto simp: sni_split_def)

lemma tcp_split_points_ok:
  assumes "2 \<le> n"
  shows "\<exists>a b va vb. tcp_split_points fc dr payload (int n) = Some (a, b, va, vb) \<and>
    (if va \<and> vb then 0 < a \<and> a < b \<and> b < int n else 0 < (if va then a else b) \<and> (if va then a else b) < int n)"
proof -
  have "\<exists>m. (if MiddleSNI fc then sni_split payload else Some (- 1)) = Some m" using sni_split_ex [of payload] by simp
  then obtain m where m: "(if MiddleSNI fc then sni_split payload else Some (- 1)) = Some m" by blast
  show ?thesis using assms unfolding tcp_split_points_def Let_def m by auto
qed

lemma resolveTLSSplit_ok:
  assumes "5 \<le> n"
  shows "\<exists>k. resolveTLSSplit fc dr payload (int n) = Some k \<and> 0 < k \<and> k < int n"
proof -
  obtain s e ok where "LocateServerName payload = Some (s, e, ok)" using LocateServerName_ex by blast
  then have "\<exists>m. (if MiddleSNI fc then do {
                 (s, e, ok) \<leftarrow> LocateServerName payload;
                 Some (if ok \<and> e > s then int (s + (e - s) div 2) else 0) } else Some 0) = Some m" by simp
  then obtain m where m: "(if MiddleSNI fc then do {
                 (s, e, ok) \<leftarrow> LocateServerName payload;
                 Some (if ok \<and> e > s then int (s + (e - s) div 2) else 0) } else Some 0) = Some m" by blast
  show ?thesis using assms unfolding resolveTLSSplit_def Let_def m by auto
qed

context segment_family
begin

subsection \<open>Two or three segments\<close>

lemma good_layout:
  assumes "good h d s data t p"
  shows "length p = h + d + length data" "drop (h + d) p = data" "length data \<le> 65535"
  using raw_length [OF good_raw [OF assms]] raw_data [OF good_raw [OF assms]] raw_bound [OF good_raw [OF assms]] by simp_all

lemma firstbyte_reaches:
  assumes g: "good h d s data t p" and t: "hops < unat t"
  shows "\<exists>sent. send_firstbyte F p = Some sent \<and> reaches view ttl_of hops s data sent"
proof -
  obtain pi where pi: "fam_extract F p = Some (Some pi)" and r: "reading h d s data t p pi" using reading_ex [OF g] by blast
  have l: "h + d + length data \<le> 65535" using reading_length [OF r] .
  show ?thesis
  proof (cases "length data < 2")
    case True
    then show ?thesis using whole_reaches [OF g t] pi r by (simp add: send_firstbyte_def reading_def)
  next
    case False
    obtain q y q1 where q: "fam_build F p pi (take 1 data) 0 0 = Some q" "ClearPSH q h = Some y" "fam_fix F y = Some q1"
        "sees h d t q1 (s + 0, take 1 data)" using build_clear [OF r, of "take 1 data" 0 0] by auto
    obtain q2 where q2: "fam_build F p pi (drop 1 data) 1 1 = Some q2" "sees h d t q2 (s + 1, drop 1 data)"
      using reading_cut [OF r, of "drop 1 data" 1 1] by auto
    have "reaches view ttl_of hops s data [q1, q2]"
      using two_reach [of h d t q1 s 1 data q2 hops False] q q2 l t False by (simp add: SendTwoSegments_def)
    then show ?thesis using pi q q2 r False by (auto simp: send_firstbyte_def reading_def)
  qed
qed

text \<open>Cutting with \<^const>\<open>fam_first\<close> and \<^const>\<open>fam_next\<close>.\<close>

lemma cut_sees:
  assumes g: "good h d s data t p" and ab: "a \<le> b" "b \<le> length data"
  shows "\<exists>q. fam_first F p h (h + d + a) = Some q \<and> sees h d t q (s, take a data)"
    and "\<exists>q. fam_next F p h (h + d) (take (b - a) (drop a data)) off i = Some q \<and>
      sees h d t q (s + off, take (b - a) (drop a data))"
    and "\<exists>q. fam_next F p h (h + d) (drop b data) off i = Some q \<and> sees h d t q (s + off, drop b data)"
proof -
  have "h + d + length data \<le> 65535" using raw_length [OF good_raw [OF g]] raw_bound [OF good_raw [OF g]] by simp
  then show "\<exists>q. fam_next F p h (h + d) (take (b - a) (drop a data)) off i = Some q \<and>
      sees h d t q (s + off, take (b - a) (drop a data))"
    and "\<exists>q. fam_next F p h (h + d) (drop b data) off i = Some q \<and> sees h d t q (s + off, drop b data)"
    unfolding sees_def fst_conv snd_conv by (intro further [OF g]; simp)+
  show "\<exists>q. fam_first F p h (h + d + a) = Some q \<and> sees h d t q (s, take a data)"
    using first [OF g, of a] ab by (simp add: sees_def)
qed

lemma tcp_reaches:
  assumes g: "good h d s data t p" and t: "hops < unat t" and n: "length data \<noteq> 1"
  shows "\<exists>sent. send_tcp F fc dr p = Some sent \<and> reaches view ttl_of hops s data sent"
proof (cases "data = []")
  case True
  then show ?thesis using headers [OF g] raw_length [OF good_raw [OF g]] whole_reaches [OF g t] by (simp add: send_tcp_def)
next
  case False
  have hd: "fam_hdr F p = Some h" "tcp_hdr_len p h = Some d" using headers [OF g] by auto
  note len = good_layout [OF g]
  have cutp: "drop (h + d + k) p = drop k data" for k using len(2) by (metis add.commute drop_drop)
  from False n have "2 \<le> length data" by (metis One_nat_def Suc_leI length_greater_0_conv nat_less_le numeral_2_eq_2)
  then obtain a b va vb where sp: "tcp_split_points fc dr data (int (length data)) = Some (a, b, va, vb)"
      "if va \<and> vb then 0 < a \<and> a < b \<and> b < int (length data)
       else 0 < (if va then a else b) \<and> (if va then a else b) < int (length data)"
    using tcp_split_points_ok by blast
  show ?thesis
  proof (cases "va \<and> vb")
    case True
    then have ab: "0 < a" "a < b" "b < int (length data)" using sp(2) by auto
    define i j where "i = nat a" and "j = nat b"
    have ij: "i \<le> j" "j \<le> length data" "word_of_int a = (word_of_nat i :: 32 word)" "word_of_int b = (word_of_nat j :: 32 word)"
      using ab by (auto simp: i_def j_def of_nat_nat)
    have mid: "sub_bytes p (h + d + i) (h + d + j) = Some (take (j - i) (drop i data))"
      using ij len by (simp add: cutp)
    obtain q1 q2 q3 where q: "fam_first F p h (h + d + i) = Some q1" "sees h d t q1 (s, take i data)"
        "fam_next F p h (h + d) (take (j - i) (drop i data)) (word_of_nat i) 1 = Some q2"
        "sees h d t q2 (s + word_of_nat i, take (j - i) (drop i data))"
        "fam_next F p h (h + d) (drop j data) (word_of_nat j) 2 = Some q3" "sees h d t q3 (s + word_of_nat j, drop j data)"
      using cut_sees [OF g ij(1,2)] by metis
    have "send_tcp F fc dr p = Some (if ReverseOrder fc then [q2, q1, q3] else [q1, q2, q3])"
      using hd len False sp(1) True q mid ij by (simp add: send_tcp_def cutp i_def [symmetric] j_def [symmetric])
    moreover have "set (if ReverseOrder fc then [q2, q1, q3] else [q1, q2, q3]) = {q1, q2, q3}" by auto
    ultimately show ?thesis using three_reach [OF q(2,4,6) ij(1,2) len(3) t] by blast
  next
    case one: False
    define k where "k = (if va then a else b)"
    define i where "i = nat k"
    have i: "i \<le> length data" "word_of_int k = (word_of_nat i :: 32 word)" "nat (int (h + d) + k) = h + d + i"
      using sp(2) one by (auto simp: k_def i_def of_nat_nat split: if_splits)
    obtain q1 q2 where q: "fam_first F p h (h + d + i) = Some q1" "sees h d t q1 (s, take i data)"
        "fam_next F p h (h + d) (drop i data) (word_of_nat i) 1 = Some q2" "sees h d t q2 (s + word_of_nat i, drop i data)"
      using cut_sees [OF g order_refl i(1)] by metis
    have "(if \<not> va then b else a) = k" by (simp add: k_def)
    then have "send_tcp F fc dr p = Some (SendTwoSegments q1 q2 (ReverseOrder fc))"
      using hd len False sp(1) one q i by (cases va) (simp_all add: send_tcp_def cutp Let_def)
    then show ?thesis using two_reach [OF q(2,4) i(1) len(3) t] by blast
  qed
qed

lemma tls_reaches:
  assumes g: "good h d s data t p" and t: "hops < unat t"
  shows "\<exists>sent. send_tls F fc dr p = Some sent \<and> reaches view ttl_of hops s data sent"
proof -
  have hd: "fam_hdr F p = Some h" "tcp_hdr_len p h = Some d" using headers [OF g] by auto
  note len = good_layout [OF g]
  have pl: "sub_bytes p (h + d) (length p) = Some data" using len by simp
  show ?thesis
  proof (cases "length data < 5 \<or> data ! 0 \<noteq> 0x16")
    case True
    then show ?thesis using whole_reaches [OF g t] hd pl unfolding send_tls_def Let_def by simp
  next
    case False
    then obtain k where k: "resolveTLSSplit fc dr data (int (length data)) = Some k" "0 < k" "k < int (length data)"
      using resolveTLSSplit_ok [of "length data"] by fastforce
    define i where "i = nat k"
    have i: "i \<le> length data" "word_of_int k = (word_of_nat i :: 32 word)" using k by (auto simp: i_def of_nat_nat)
    have cutp: "drop (h + d + i) p = drop i data" using len(2) by (metis add.commute drop_drop)
    obtain q1 q2 where q: "fam_first F p h (h + d + i) = Some q1" "sees h d t q1 (s, take i data)"
        "fam_next F p h (h + d) (drop i data) (word_of_nat i) 1 = Some q2" "sees h d t q2 (s + word_of_nat i, drop i data)"
      using cut_sees [OF g order_refl i(1)] by metis
    have "send_tls F fc dr p = Some (SendTwoSegments q1 q2 (ReverseOrder fc))"
      using hd pl False k q i cutp unfolding send_tls_def Let_def by (simp add: i_def [symmetric])
    then show ?thesis using two_reach [OF q(2,4) i(1) len(3) t] by blast
  qed
qed

lemma extsplit_reaches:
  assumes g: "good h d s data t p" and t: "hops < unat t"
  shows "\<exists>sent. send_extsplit F fc dr p = Some sent \<and> reaches view ttl_of hops s data sent"
proof -
  obtain pi where pi: "fam_extract F p = Some (Some pi)" and r: "reading h d s data t p pi" using reading_ex [OF g] by blast
  have rd: "PayloadLen pi = length data" "Payload pi = data" "IPHdrLen pi = h" using r by (auto simp: reading_def)
  obtain k where k: "findPreSNIExtensionPoint data = Some k" using findPreSNI_ex by blast
  consider "length data < 50" | "\<not> length data < 50" "k \<le> 5 \<or> k \<ge> int (length data) - 10"
    | "\<not> length data < 50" "\<not> (k \<le> 5 \<or> k \<ge> int (length data) - 10)" by blast
  then show ?thesis
  proof cases
    case 1
    then show ?thesis using whole_reaches [OF g t] pi rd by (simp add: send_extsplit_def)
  next
    case 2
    then show ?thesis using tcp_reaches [OF g t, of fc dr] pi rd k by (simp add: send_extsplit_def)
  next
    case 3
    define i where "i = nat k"
    have i: "i \<le> length data" "word_of_int k = (word_of_nat i :: 32 word)" using 3 by (auto simp: i_def of_nat_nat)
    obtain q y q1 where q: "fam_build F p pi (take i data) 0 0 = Some q" "ClearPSH q h = Some y" "fam_fix F y = Some q1"
        "sees h d t q1 (s + 0, take i data)" using build_clear [OF r, of "take i data" 0 0] by auto
    obtain q2 where q2: "fam_build F p pi (drop i data) (word_of_nat i) 1 = Some q2"
        "sees h d t q2 (s + word_of_nat i, drop i data)"
      using reading_cut [OF r, of "drop i data" "word_of_nat i" 1] by auto
    have "sub_bytes data 0 i = Some (take i data)" using i by simp
    then have "send_extsplit F fc dr p = Some (SendTwoSegments q1 q2 (ReverseOrder fc))"
      using pi rd k 3 q q2 i unfolding send_extsplit_def by (simp add: i_def [symmetric])
    then show ?thesis using two_reach [of h d t q1 s i data q2 hops] q q2 i good_layout(3) [OF g] t by auto
  qed
qed

subsection \<open>Many segments\<close>

lemma cut_segments_sees:
  assumes r: "reading h d s data t p pi"
  shows "sorted vs \<Longrightarrow> \<forall>v \<in> set vs. v \<le> length data \<Longrightarrow>
    \<exists>segs. cut_segments F p pi i vs = Some segs \<and> segs_see h d t segs (pieces s data vs)"
proof (induction vs arbitrary: i rule: induct_list012)
  case (3 a b rest)
  have ab: "a \<le> b" "b \<le> length data" using 3 by auto
  let ?sl = "take (b - a) (drop a data)"
  have sl: "length ?sl \<le> length data" using ab by simp
  obtain q y q' where q: "fam_build F p pi ?sl (word_of_nat a) (word_of_nat i) = Some q" "ClearPSH q h = Some y"
      "fam_fix F y = Some q'" "sees h d t q' (s + word_of_nat a, ?sl)"
    using build_clear [OF r sl] by blast
  have "sees h d t q (s + word_of_nat a, ?sl)"
    using reading_cut [OF r sl] q(1) by (metis option.inject)
  with q have "\<exists>g. (if rest \<noteq> [] then ClearPSH q h \<bind> fam_fix F else Some q) = Some g \<and> sees h d t g (s + word_of_nat a, ?sl)"
    by simp
  then obtain g where g: "(if rest \<noteq> [] then ClearPSH q h \<bind> fam_fix F else Some q) = Some g"
      "sees h d t g (s + word_of_nat a, ?sl)" by blast
  obtain segs where segs: "cut_segments F p pi (Suc i) (b # rest) = Some segs" "segs_see h d t segs (pieces s data (b # rest))"
    using "3.IH"(2) [of "Suc i"] "3.prems" by auto
  have "sub_bytes (Payload pi) a b = Some ?sl" "IPHdrLen pi = h" "Seq0 pi = s" using r ab by (auto simp: reading_def)
  then have "cut_segments F p pi i (a # b # rest) = Some (\<lparr>Data = g, SegSeq = s + word_of_nat a\<rparr> # segs)"
    using q(1-3) g(1) segs(1) by (cases "rest = []") simp_all
  then show ?case using g(2) segs(2) by (simp add: segs_see_def piece_def)
qed (auto simp: segs_see_def)

lemma GetSNISplitPoints_ok:
  "\<exists>sp. GetSNISplitPoints data n m 0 = Some sp \<and> sorted sp"
proof -
  obtain a b ok where "LocateServerName data = Some (a, b, ok)" using LocateServerName_ex by blast
  then show ?thesis by (auto simp: GetSNISplitPoints_def)
qed

lemma BuildValidSplits_ok:
  assumes "sorted sp"
  shows "sorted (BuildValidSplits sp n)" "hd (BuildValidSplits sp n) = 0" "last (BuildValidSplits sp n) = n"
    "BuildValidSplits sp n \<noteq> []" "\<forall>v \<in> set (BuildValidSplits sp n). v \<le> n" "length (BuildValidSplits sp n) \<ge> 2"
  using assms by (auto simp: BuildValidSplits_def sorted_append sorted_wrt_filter)

lemma pieces_Nil: "pieces s data vs = [] \<longleftrightarrow> length vs < 2"
  by (cases "(s, data, vs)" rule: pieces.cases) auto

lemma disorder_reaches:
  assumes g: "good h d s data t p" and t: "dynamicTTL p v6 (FakeTTL fk) = Some t'" "unat t' \<le> hops" "hops < unat t"
    and o: "SeqOverlapLength fc \<le> 0 \<or> SeqOverlapBytes fc = []"
  shows "\<exists>sent. send_disorder F fc fk dr p = Some sent \<and> reaches view ttl_of hops s data sent"
proof -
  obtain pi where pi: "fam_extract F p = Some (Some pi)" and r: "reading h d s data t p pi" using reading_ex [OF g] by blast
  have rd: "PayloadLen pi = length data" "Payload pi = data" "IPHdrLen pi = h" using r by (auto simp: reading_def)
  show ?thesis
  proof (cases "length data < 10")
    case True
    then show ?thesis using whole_reaches [OF g t(3)] pi rd by (simp add: send_disorder_def)
  next
    case False
    obtain sp0 where sp0: "GetSNISplitPoints data (length data) (MiddleSNI fc) 0 = Some sp0" "sorted sp0"
      using GetSNISplitPoints_ok by blast
    define sp where "sp = (if sp0 = [] then [1, length data div 2, length data * 3 div 4] else sp0)"
    have "1 \<le> length data div 2" "length data div 2 \<le> length data * 3 div 4" using False by linarith+
    then have "sorted [1, length data div 2, length data * 3 div 4]" by simp
    then have "sorted sp" using sp0 by (simp add: sp_def)
    note vs = BuildValidSplits_ok [OF this, of "length data"]
    obtain segs where segs: "cut_segments F p pi 0 (BuildValidSplits sp (length data)) = Some segs"
        "segs_see h d t segs (pieces s data (BuildValidSplits sp (length data)))"
      using cut_segments_sees [OF r vs(1,5)] by blast
    have "segs \<noteq> []" using segs(2) vs(6) pieces_Nil [of s data "BuildValidSplits sp (length data)"] by (auto simp: segs_see_def)
    moreover have "delivers s data (pieces s data (BuildValidSplits sp (length data)))"
      using delivers_pieces [OF vs(1,4,2,3)] good_layout(3) [OF g] .
    ultimately obtain segs' sent where fin: "SetMaxSeqPSH (fam_fix F) h
          (ShuffleSegments segs (DisorderShuffleMode (Disorder fc)) (draw_shuffle dr)) = Some segs'"
        "send_segments F p pi (SeqOverlapBytes fc) (DisorderFakePerSegment (Disorder fc))
          (fake_count dr (DisorderFakePerSegCount (Disorder fc)) (DisorderFakePerSegCountMax (Disorder fc)))
          (FakeTTL fk) 0 segs' = Some sent" "reaches view ttl_of hops s data sent"
      using shuffled_reaches [OF r t segs(2)] by blast
    have "disorder_overlap F fc p pi segs = Some segs" using o by (auto simp: disorder_overlap_def)
    then have "send_disorder F fc fk dr p = Some sent"
      using pi rd False sp0(1) segs(1) [unfolded sp_def] fin(1,2) unfolding send_disorder_def Let_def
      by (cases "sp0 = []") simp_all
    then show ?thesis using fin(3) by blast
  qed
qed

lemma pieces_snoc: "vs \<noteq> [] \<Longrightarrow> pieces s data (vs @ [b]) = pieces s data vs @ [piece s data (last vs) b]"
  by (induction s data vs rule: pieces.induct) auto

lemma combo_cut_sees:
  assumes r: "reading h d s data t p pi"
  shows "segs_see h d t acc (pieces s data vs) \<Longrightarrow> sorted vs \<Longrightarrow> vs \<noteq> [] \<Longrightarrow> hd vs = 0 \<Longrightarrow> last vs < length data \<Longrightarrow>
    \<forall>v \<in> set sp. v < length data \<Longrightarrow>
    \<exists>segs vs'. combo_cut F p pi i (last vs) sp acc = Some (segs, last vs') \<and> segs_see h d t segs (pieces s data vs') \<and>
      sorted vs' \<and> vs' \<noteq> [] \<and> hd vs' = 0 \<and> last vs' < length data"
proof (induction sp arbitrary: i acc vs)
  case Nil
  then show ?case by auto
next
  case (Cons v sp)
  show ?case
  proof (cases "v \<le> last vs")
    case True
    then show ?thesis using Cons by auto
  next
    case False
    let ?sl = "take (v - last vs) (drop (last vs) data)"
    have v: "v < length data" using Cons.prems by simp
    have sl: "length ?sl \<le> length data" using v by simp
    obtain q where q: "fam_build F p pi ?sl (word_of_nat (last vs)) (word_of_nat i) = Some q"
        "sees h d t q (s + word_of_nat (last vs), ?sl)" using reading_cut [OF r sl] by blast
    define acc' where "acc' = acc @ [\<lparr>Data = q, SegSeq = s + word_of_nat (last vs)\<rparr>]"
    have "segs_see h d t acc' (pieces s data (vs @ [v]))"
      using Cons.prems(1) q(2) by (simp add: segs_see_def acc'_def pieces_snoc [OF Cons.prems(3)] list_all2_appendI piece_def)
    moreover have "sorted (vs @ [v])" using Cons.prems(2,3) False last_max [of vs] by (force simp: sorted_append)
    ultimately obtain segs vs' where "combo_cut F p pi (Suc i) (last (vs @ [v])) sp acc' = Some (segs, last vs')"
        "segs_see h d t segs (pieces s data vs')" "sorted vs'" "vs' \<noteq> []" "hd vs' = 0" "last vs' < length data"
      using Cons.IH [of acc' "vs @ [v]" "Suc i"] Cons.prems v by auto
    moreover have "combo_cut F p pi i (last vs) (v # sp) acc = combo_cut F p pi (Suc i) (last (vs @ [v])) sp acc'"
      using r False v q(1) by (simp add: reading_def acc'_def)
    ultimately show ?thesis by auto
  qed
qed

text \<open>Decoys and the overlap in front of the first segment.\<close>

lemma decoy_dies:
  assumes r: "reading h d s data t p pi" and t: "dynamicTTL p v6 (FakeTTL fk) = Some t'"
  shows "\<exists>ds. send_decoy F fk blob p pi = Some ds \<and> (\<forall>q \<in> set ds. ttl_of q = t')"
proof (cases "length blob < 3")
  case False
  define b where "b = take 680 blob"
  have g: "good h d s data t p" using r by (simp add: reading_def)
  have "h + d \<le> 120" by (rule raw_headers [OF good_raw [OF g]])
  then have b: "h + d + length b \<le> 65535" "h + d + length (take 2 b) \<le> 65535" "h + d + length (drop 2 b) \<le> 65535"
    by (simp_all add: b_def)
  obtain fp where fp: "fam_decoy F p pi b (FakeTTL fk) = Some fp" "raw h d b t' fp"
    using decoy [OF g _ _ b(1), of pi "FakeTTL fk"] r t by (auto simp: reading_def)
  have pi: "IPHdrLen pi = h" "PayloadStart pi = h + d" "Seq0 pi = s" using r by (auto simp: reading_def)
  obtain q1 where q1: "fam_build F fp pi (take 2 b) 0 0 = Some q1" "good h d (s + 0) (take 2 b) t' q1"
    using build [OF fp(2) pi b(2)] by blast
  obtain q1' where q1': "ClearPSH q1 h \<bind> fam_fix F = Some q1'" "good h d (s + 0) (take 2 b) t' q1'"
    using clear_psh [OF q1(2)] by blast
  obtain q2 where q2: "fam_build F fp pi (drop 2 b) 2 1 = Some q2" "good h d (s + 2) (drop 2 b) t' q2"
    using build [OF fp(2) pi b(3)] by blast
  have "send_decoy F fk blob p pi = Some [q1', q2]"
    using False fp(1) q1(1) q1'(1) q2(1) pi(1) unfolding send_decoy_def Let_def b_def [symmetric]
    by (auto simp: bind_eq_Some_conv)
  then show ?thesis using good_view [OF q1'(2)] good_view [OF q2(2)] by auto
qed (simp add: send_decoy_def)

lemma combo_overlap_sees:
  assumes r: "reading h d s data t p pi" and segs: "segs_see h d t segs xs" "segs \<noteq> []" "delivers s data xs"
    and x0: "xs ! 0 = (s, take n data)" and n: "n \<le> length data"
    and len: "0 < SeqOverlapLength fc \<longrightarrow> SeqOverlapBytes fc \<noteq> [] \<longrightarrow> h + d + nat (SeqOverlapLength fc) + length data \<le> 65535"
  shows "\<exists>segs' ys. combo_overlap F fc p pi segs = Some segs' \<and> segs_see h d t segs' ys \<and> segs' \<noteq> [] \<and> delivers s data ys"
proof (cases "SeqOverlapLength fc > 0 \<and> SeqOverlapBytes fc \<noteq> [] \<and> startsMessage data")
  case True
  define v where "v = nat (SeqOverlapLength fc)"
  have v: "word_of_int (SeqOverlapLength fc) = (word_of_nat v :: 32 word)" using True by (simp add: v_def of_nat_nat)
  obtain sg rest x xs' where c: "segs = sg # rest" "xs = x # xs'" "sees h d t (Data sg) x" "SegSeq sg = fst x"
      "segs_see h d t rest xs'"
    using segs(1,2) by (auto simp: segs_see_def neq_Nil_conv list_all2_Cons1)
  have x: "x = (s, take n data)" using x0 c(2) by simp
  have rd: "PayloadLen pi = length data" "Payload pi = data" "IPHdrLen pi = h" "Seq0 pi = s" "PayloadStart pi = h + d"
    using r by (auto simp: reading_def)
  have l: "length (Data sg) - (h + d) = n"
    using raw_length [OF good_raw [OF c(3) [unfolded sees_def x]]] n by simp
  define sl where "sl = pattern_bytes (SeqOverlapBytes fc) v @ take n data"
  have "h + d + length sl \<le> 65535" using len True n by (simp add: sl_def pattern_bytes_def v_def)
  then obtain q where q: "fam_build F p pi sl (0 - word_of_nat v) 0 = Some q" "sees h d t q (s + (0 - word_of_nat v), sl)"
    using reading_build [OF r, of sl "0 - word_of_nat v" 0] by auto
  define segs' where "segs' = \<lparr>Data = q, SegSeq = s - word_of_nat v\<rparr> # rest"
  have "combo_overlap F fc p pi segs = Some segs'"
    using True c(1,4) rd l n q(1) x v unfolding combo_overlap_def build_overlap_def segs'_def sl_def Let_def
    by (simp add: v_def [symmetric])
  moreover have "segs_see h d t segs' ((s - word_of_nat v, sl) # xs')"
    using q(2) c(5) by (simp add: segs'_def segs_see_def)
  moreover have "delivers s data ((s - word_of_nat v, sl) # xs')"
  proof -
    have "v < 2 ^ 31" "length data \<le> 65535" "length (take n data) \<le> 65535" using len True by (auto simp: v_def)
    then show ?thesis
      using delivers_overlap [of s data "take n data" xs' "pattern_bytes (SeqOverlapBytes fc) v" v] segs(3) c(2) x
      by (simp add: sl_def pattern_bytes_def)
  qed
  ultimately show ?thesis by (auto simp: segs'_def)
next
  case False
  then have "combo_overlap F fc p pi segs = Some segs" using r by (auto simp: combo_overlap_def reading_def)
  then show ?thesis using segs by blast
qed

lemma reaches_dead:
  "\<forall>q \<in> set ds. unat (ttl_of q) \<le> hops \<Longrightarrow> reaches view ttl_of hops s data sent \<Longrightarrow> reaches view ttl_of hops s data (ds @ sent)"
proof -
  assume d: "\<forall>q \<in> set ds. unat (ttl_of q) \<le> hops"
  then have "filter (\<lambda>q. hops < unat (ttl_of q)) ds = []" by (auto simp: filter_empty_conv)
  then show "reaches view ttl_of hops s data sent \<Longrightarrow> reaches view ttl_of hops s data (ds @ sent)"
    using d by (auto simp: reaches_def arriving_def)
qed

end

lemma uniqueSorted_less: "v \<in> set (uniqueSorted splits n) \<Longrightarrow> v < n"
proof -
  have "\<forall>v \<in> set acc. v < n \<Longrightarrow> v \<in> set (foldl (\<lambda>result s. if 0 < s \<and> s < n \<and> s \<notin> set result then result @ [s] else result) acc splits) \<Longrightarrow> v < n" for acc
  proof (induction splits arbitrary: acc)
    case (Cons a splits)
    show ?case using Cons.IH [of "acc @ [a]"] Cons.IH [of acc] Cons.prems by (simp split: if_splits)
  qed simp
  from this [of "[]"] show "v \<in> set (uniqueSorted splits n) \<Longrightarrow> v < n" by (simp add: uniqueSorted_def)
qed

lemma GetComboSplitPoints_ex: "\<exists>sp. GetComboSplitPoints data n c m = Some sp"
proof -
  obtain a b ok where "LocateServerName data = Some (a, b, ok)" using LocateServerName_ex by blast
  moreover obtain k where "findPreSNIExtensionPoint data = Some k" using findPreSNI_ex by blast
  ultimately show ?thesis by (simp add: GetComboSplitPoints_def Let_def)
qed

context segment_family
begin

lemma combo_reaches:
  assumes g: "good h d s data t p" and t: "dynamicTTL p v6 (FakeTTL fk) = Some t'" "unat t' \<le> hops" "hops < unat t"
    and len: "0 < SeqOverlapLength fc \<longrightarrow> SeqOverlapBytes fc \<noteq> [] \<longrightarrow> h + d + nat (SeqOverlapLength fc) + length data \<le> 65535"
  shows "\<exists>sent. send_combo F fc fk blob dr p = Some sent \<and> reaches view ttl_of hops s data sent"
proof -
  obtain pi where pi: "fam_extract F p = Some (Some pi)" and r: "reading h d s data t p pi" using reading_ex [OF g] by blast
  have rd: "PayloadLen pi = length data" "Payload pi = data" "IPHdrLen pi = h" "Seq0 pi = s" using r by (auto simp: reading_def)
  show ?thesis
  proof (cases "length data < 20")
    case True
    then show ?thesis using whole_reaches [OF g t(3)] pi rd by (simp add: send_combo_def)
  next
    case False
    have "\<exists>ds. (if DecoyEnabled (Combo fc) then send_decoy F fk blob p pi else Some []) = Some ds \<and> (\<forall>q \<in> set ds. ttl_of q = t')"
      using decoy_dies [OF r t(1), of blob] by simp
    then obtain ds where ds: "(if DecoyEnabled (Combo fc) then send_decoy F fk blob p pi else Some []) = Some ds"
        "\<forall>q \<in> set ds. ttl_of q = t'" by blast
    obtain sp where sp: "GetComboSplitPoints data (length data) (Combo fc) (MiddleSNI fc) = Some sp"
      using GetComboSplitPoints_ex by blast
    define us where "us = (if uniqueSorted sp (length data) = [] then [length data div 2] else uniqueSorted sp (length data))"
    have "\<forall>v \<in> set us. v < length data" using uniqueSorted_less False by (auto simp: us_def)
    moreover have "data \<noteq> []" using False by auto
    ultimately obtain segs vs where cs: "combo_cut F p pi 0 0 us [] = Some (segs, last vs)" "segs_see h d t segs (pieces s data vs)"
        "sorted vs" "vs \<noteq> []" "hd vs = 0" "last vs < length data"
      using combo_cut_sees [OF r, of "[]" "[0]" us 0] by (auto simp: segs_see_def)
    obtain q where q: "fam_build F p pi (drop (last vs) data) (word_of_nat (last vs)) (word_of_nat (length segs)) = Some q"
        "sees h d t q (s + word_of_nat (last vs), drop (last vs) data)"
      using reading_cut [OF r, of "drop (last vs) data"] by auto
    define segs1 where "segs1 = segs @ [\<lparr>Data = q, SegSeq = s + word_of_nat (last vs)\<rparr>]"
    define ws where "ws = vs @ [length data]"
    have s1: "segs_see h d t segs1 (pieces s data ws)" "segs1 \<noteq> []"
      using cs(2) q(2) by (simp_all add: segs_see_def segs1_def ws_def pieces_snoc [OF cs(4)] list_all2_appendI piece_def)
    have w: "sorted ws" "ws \<noteq> []" "hd ws = 0" "last ws = length data"
      using cs(3-6) last_max [of vs] by (force simp: ws_def sorted_append)+
    then have del: "delivers s data (pieces s data ws)" by (intro delivers_pieces good_layout(3) [OF g])
    obtain b rest where b: "ws = 0 # b # rest" using cs(4,5) w(3) unfolding ws_def by (cases vs; cases "tl vs") auto
    then have "pieces s data ws ! 0 = (s, take b data)" "b \<le> length data" using last_max [OF w(1), of b] w(4) by (simp_all add: piece_def)
    then obtain segs2 ys where s2: "combo_overlap F fc p pi segs1 = Some segs2" "segs_see h d t segs2 ys" "segs2 \<noteq> []" "delivers s data ys"
      using combo_overlap_sees [OF r s1 del _ _ len] by blast
    obtain segs' sent where fin: "SetMaxSeqPSH (fam_fix F) h
          (ShuffleSegments segs2 (ComboShuffleMode (Combo fc)) (draw_shuffle dr)) = Some segs'"
        "send_segments F p pi (SeqOverlapBytes fc) (ComboFakePerSegment (Combo fc))
          (fake_count dr (ComboFakePerSegCount (Combo fc)) (ComboFakePerSegCountMax (Combo fc)))
          (FakeTTL fk) 0 segs' = Some sent" "reaches view ttl_of hops s data sent"
      using shuffled_reaches [OF r t s2(2-4)] by blast
    have "send_combo F fc fk blob dr p = Some (ds @ sent)"
      unfolding send_combo_def Let_def
      by (simp only: pi Option.bind.bind_lunit option.case rd False if_False ds(1) sp us_def [symmetric] cs(1)
          prod.case cs(6) if_True q(1) segs1_def [symmetric] s1(2) s2(1) fin(1,2))
    moreover have "reaches view ttl_of hops s data (ds @ sent)" using ds(2) t(2) by (intro reaches_dead fin(3)) auto
    ultimately show ?thesis by blast
  qed
qed

lemma hybrid_reaches:
  assumes g: "good h d s data t p" and t: "dynamicTTL p v6 (FakeTTL fk) = Some t'" "unat t' \<le> hops" "hops < unat t"
    and o: "SeqOverlapLength fc \<le> 0 \<or> SeqOverlapBytes fc = []"
  shows "\<exists>sent. send_hybrid F fc fk blob dr p = Some sent \<and> reaches view ttl_of hops s data sent"
proof -
  note len = good_layout [OF g]
  have hd: "fam_hdr F p = Some h" "tcp_hdr_len p h = Some d" using headers [OF g] by auto
  obtain k where k: "findPreSNIExtensionPoint data = Some k" using findPreSNI_ex by blast
  obtain a b ok where n: "LocateServerName data = Some (a, b, ok)" using LocateServerName_ex by blast
  have c: "\<exists>sent. send_combo F fc fk blob dr p = Some sent \<and> reaches view ttl_of hops s data sent"
    using o by (intro combo_reaches [OF g t]) auto
  show ?thesis
    using hd len k n c disorder_reaches [OF g t o, of dr] extsplit_reaches [OF g t(3), of fc dr]
      firstbyte_reaches [OF g t(3)] whole_reaches [OF g t(3)]
    unfolding send_hybrid_def Let_def by simp
qed

end

end
