(* ===== verification/Tcp_Oob.thy ===== *)
theory Tcp_Oob
  imports Tcp_Delivery
begin

text \<open>
  Out-of-band injection (\<^verbatim>\<open>src/nfq/oob.go\<close>): two clean segments around a fake with one urgent byte, for IPv4
  and IPv6. The locale \<open>oob_family\<close> adds the two builders to \<open>segment_family\<close>.
\<close>

subsection \<open>The code\<close>

definition oob_position :: "FragmentationConfig \<Rightarrow> draws \<Rightarrow> bytes \<Rightarrow> int \<Rightarrow> int option" where
  "oob_position fc dr payload payloadLen = do {
     let oobPos = ResolveRange (int_width dr) (draw_position dr) (OOBPosition fc) (OOBPositionMax fc);
     let oobPos = (if oobPos \<le> 0 then 1 else oobPos);
     oobPos \<leftarrow> (if MiddleSNI fc then do {
                  (sniStart, sniEnd, ok) \<leftarrow> LocateServerName payload;
                  Some (if ok \<and> sniEnd > sniStart then int (sniStart + (sniEnd - sniStart) div 2) else oobPos) }
                else Some oobPos);
     let oobPos = (if oobPos \<ge> payloadLen then payloadLen div 2 else oobPos);
     Some (if oobPos \<le> 0 then 1 else oobPos) }"

definition oob_byte :: "FragmentationConfig \<Rightarrow> byte" where
  "oob_byte fc = (if OOBChar fc = 0 then 0x78 else OOBChar fc)"

definition oob_ttl :: "byte \<Rightarrow> byte" where
  "oob_ttl ttl = (if ttl = 0 then 3 else ttl)"

definition flip_at :: "bytes \<Rightarrow> nat \<Rightarrow> bytes option" where
  "flip_at p i = do { b \<leftarrow> at p i; put_at p i [b XOR 0xFF] }"

definition oob_fake4 :: "FragmentationConfig \<Rightarrow> FakingConfig \<Rightarrow> bytes \<Rightarrow> nat \<Rightarrow> nat \<Rightarrow> 32 word \<Rightarrow> bytes option" where
  "oob_fake4 fc fk packet h payloadStart off = do {
     seq \<leftarrow> be32 packet (h + 4);
     id0 \<leftarrow> be16 packet 4;
     hdr \<leftarrow> sub_bytes packet 0 payloadStart;
     let fake = hdr @ [oob_byte fc];
     fake \<leftarrow> put_at fake (h + 4) (put32 (unat (word_of_nat seq + off)));
     flags \<leftarrow> at fake (h + 13);
     fake \<leftarrow> put_at fake (h + 13) [flags OR 0x20];
     fake \<leftarrow> put_at fake (h + 18) (put16 1);
     fake \<leftarrow> put_at fake 8 [oob_ttl (FakeTTL fk)];
     fake \<leftarrow> put_at fake 4 (put16 (unat (word_of_nat id0 + 1 :: 16 word)));
     fake \<leftarrow> put_at fake 2 (put16 (payloadStart + 1));
     fake \<leftarrow> fix_ip_header fake h;
     fake \<leftarrow> FixTCPChecksum fake;
     if FakeStrategy fk = str ''tcp_check'' then flip_at fake (h + 16) \<bind> (\<lambda>f. flip_at f (h + 17))
     else if FakeStrategy fk = str ''md5sum'' then flip_at fake (h + 16) \<bind> (\<lambda>f. flip_at f 10)
     else Some fake }"

definition oob_rest4 :: "bytes \<Rightarrow> nat \<Rightarrow> nat \<Rightarrow> bytes \<Rightarrow> 32 word \<Rightarrow> bytes option" where
  "oob_rest4 packet h payloadStart sl off = do {
     seq \<leftarrow> be32 packet (h + 4);
     id0 \<leftarrow> be16 packet 4;
     hdr \<leftarrow> sub_bytes packet 0 payloadStart;
     let seg2 = hdr @ sl;
     seg2 \<leftarrow> put_at seg2 (h + 4) (put32 (unat (word_of_nat seq + off)));
     seg2 \<leftarrow> put_at seg2 4 (put16 (unat (word_of_nat id0 + 2 :: 16 word)));
     seg2 \<leftarrow> put_at seg2 2 (put16 (length seg2));
     flags \<leftarrow> at seg2 (h + 13);
     seg2 \<leftarrow> put_at seg2 (h + 13) [flags AND NOT 0x20];
     seg2 \<leftarrow> put_at seg2 (h + 18) (put16 0);
     seg2 \<leftarrow> fix_ip_header seg2 h;
     FixTCPChecksum seg2 }"

definition oob_fake6 :: "FragmentationConfig \<Rightarrow> FakingConfig \<Rightarrow> bytes \<Rightarrow> nat \<Rightarrow> nat \<Rightarrow> 32 word \<Rightarrow> bytes option" where
  "oob_fake6 fc fk packet h payloadStart off = do {
     seq \<leftarrow> be32 packet (h + 4);
     hdr \<leftarrow> sub_bytes packet 0 payloadStart;
     let fake = hdr @ [oob_byte fc];
     fake \<leftarrow> put_at fake (h + 4) (put32 (unat (word_of_nat seq + off)));
     flags \<leftarrow> at fake (h + 13);
     fake \<leftarrow> put_at fake (h + 13) [flags OR 0x20];
     fake \<leftarrow> put_at fake (h + 18) (put16 1);
     fake \<leftarrow> put_at fake 7 [oob_ttl (FakeTTL fk)];
     fake \<leftarrow> put_at fake 4 (put16 (payloadStart + 1 - h));
     fake \<leftarrow> FixTCPChecksumV6 fake;
     if FakeStrategy fk = str ''tcp_check'' \<or> FakeStrategy fk = str ''md5sum''
     then flip_at fake (h + 16) \<bind> (\<lambda>f. flip_at f (h + 17)) else Some fake }"

definition oob_rest6 :: "bytes \<Rightarrow> nat \<Rightarrow> nat \<Rightarrow> bytes \<Rightarrow> 32 word \<Rightarrow> bytes option" where
  "oob_rest6 packet h payloadStart sl off = do {
     seq \<leftarrow> be32 packet (h + 4);
     hdr \<leftarrow> sub_bytes packet 0 payloadStart;
     let seg2 = hdr @ sl;
     seg2 \<leftarrow> put_at seg2 (h + 4) (put32 (unat (word_of_nat seq + off)));
     seg2 \<leftarrow> put_at seg2 4 (put16 (length seg2 - h));
     flags \<leftarrow> at seg2 (h + 13);
     seg2 \<leftarrow> put_at seg2 (h + 13) [flags AND NOT 0x20];
     seg2 \<leftarrow> put_at seg2 (h + 18) (put16 0);
     FixTCPChecksumV6 seg2 }"

definition send_oob ::
    "ip_family \<Rightarrow> (bytes \<Rightarrow> nat \<Rightarrow> nat \<Rightarrow> 32 word \<Rightarrow> bytes option) \<Rightarrow>
     (bytes \<Rightarrow> nat \<Rightarrow> nat \<Rightarrow> bytes \<Rightarrow> 32 word \<Rightarrow> bytes option) \<Rightarrow> FragmentationConfig \<Rightarrow> draws \<Rightarrow> bytes \<Rightarrow> bytes list option" where
  "send_oob F mk_fake mk_rest fc dr packet = do {
     h \<leftarrow> fam_hdr F packet;
     if length packet < h + 20 then Some [packet]
     else do {
       d \<leftarrow> tcp_hdr_len packet h;
       let payloadStart = h + d;
       let payloadLen = int (length packet) - int payloadStart;
       if payloadLen \<le> 0 then Some [packet]
       else do {
         let payload = drop payloadStart packet;
         oobPos \<leftarrow> oob_position fc dr payload payloadLen;
         if nat oobPos > length payload then None
         else do {
           seg1 \<leftarrow> fam_first F packet h (payloadStart + nat oobPos);
           fake \<leftarrow> mk_fake packet h payloadStart (word_of_int oobPos);
           seg2 \<leftarrow> mk_rest packet h payloadStart (drop (nat oobPos) payload) (word_of_int oobPos);
           Some (if ReverseOrder fc then [seg2, fake, seg1] else [seg1, fake, seg2]) } } } }"

definition sendOOBFragments :: "FragmentationConfig \<Rightarrow> FakingConfig \<Rightarrow> draws \<Rightarrow> bytes \<Rightarrow> bytes list option" where
  "sendOOBFragments fc fk = send_oob fam4 (oob_fake4 fc fk) oob_rest4 fc"

definition sendOOBFragmentsV6 :: "FragmentationConfig \<Rightarrow> FakingConfig \<Rightarrow> draws \<Rightarrow> bytes \<Rightarrow> bytes list option" where
  "sendOOBFragmentsV6 fc fk = send_oob fam6 (oob_fake6 fc fk) oob_rest6 fc"

subsection \<open>The builders\<close>

lemma oob_rest4_good:
  assumes p: "good4 h d s data t p" and len: "h + d + length sl \<le> 65535"
  shows "\<exists>q. oob_rest4 p h (h + d) sl off = Some q \<and> good4 h d (s + off) sl t q"
proof -
  have rp: "raw4 h d data t p" and hd: "20 \<le> h" "20 \<le> d" "length p = h + d + length data" "be32 p (h + 4) = Some (unat s)"
    using p by (auto simp: good4_def raw4_def)
  obtain n where n: "be16 p 4 = Some n" using hd be16_lt [of 4 p] by simp
  define p0 where "p0 = take (h + d) p @ sl"
  define p1 where "p1 = patch p0 (h + 4) (put32 (unat (s + off)))"
  define p2 where "p2 = patch p1 4 (put16 (unat (word_of_nat n + 2 :: 16 word)))"
  define p3 where "p3 = patch p2 2 (put16 (length p2))"
  define p4 where "p4 = patch p3 (h + 13) [p3 ! (h + 13) AND NOT 0x20]"
  define p5 where "p5 = patch p4 (h + 18) (put16 0)"
  have r0: "raw4 h d sl t p0" using raw4_replace [OF rp len] by (simp add: p0_def)
  have r1: "raw4 h d sl t p1" unfolding p1_def using hd by (intro raw4_patch [OF r0]) auto
  have r2: "raw4 h d sl t p2" unfolding p2_def using hd by (intro raw4_patch [OF r1]) auto
  have r3: "raw4 h d sl t p3" unfolding p3_def using hd by (intro raw4_patch [OF r2]) auto
  have r4: "raw4 h d sl t p4" unfolding p4_def using hd by (intro raw4_patch [OF r3]) auto
  have r5: "raw4 h d sl t p5" unfolding p5_def using hd by (intro raw4_patch [OF r4]) auto
  have l: "length p0 = h + d + length sl" "length p1 = length p0" "length p2 = length p0" "length p3 = length p0"
      "length p4 = length p0" "length p5 = length p0"
    using r0 r1 r2 r3 r4 r5 by (simp_all add: raw4_def)
  have "be32 p1 (h + 4) = Some (unat (s + off))" using hd l by (simp add: p1_def be32_patch_same)
  then have b: "be32 p5 (h + 4) = Some (unat (s + off))" using hd l by (simp add: p2_def p3_def p4_def p5_def be32_patch)
  have "be16 p3 2 = Some (length p3)" using hd l len by (simp add: p3_def be16_patch_same)
  then have "be16 p5 2 = Some (length p5)" using hd l by (simp add: p4_def p5_def be16_patch)
  from finish4 [OF r5 b this] obtain q where q: "fix_ip_header p5 h \<bind> FixTCPChecksum = Some q" "good4 h d (s + off) sl t q"
    by blast
  have "oob_rest4 p h (h + d) sl off = fix_ip_header p5 h \<bind> FixTCPChecksum"
    using raw4_replace [OF rp len] hd l n
    by (simp add: oob_rest4_def p0_def [symmetric] p1_def p2_def p3_def p4_def p5_def)
  then show ?thesis using q by auto
qed

lemma flip_at_keeps: "i < length p \<Longrightarrow> i \<noteq> k \<Longrightarrow> k < length p \<Longrightarrow> \<exists>q. flip_at p i = Some q \<and> q ! k = p ! k \<and> length q = length p"
  using nth_patch [of i "[p ! i XOR 0xFF]" p k] by (cases "k < i") (auto simp: flip_at_def)

lemma oob_fake4_ttl:
  assumes p: "good4 h d s data t p" and len: "h + d + 1 \<le> 65535"
  shows "\<exists>q. oob_fake4 fc fk p h (h + d) off = Some q \<and> q ! 8 = oob_ttl (FakeTTL fk)"
proof -
  have rp: "raw4 h d data t p" and hd: "20 \<le> h" "20 \<le> d" "length p = h + d + length data" "be32 p (h + 4) = Some (unat s)"
    using p by (auto simp: good4_def raw4_def)
  obtain n where n: "be16 p 4 = Some n" using hd be16_lt [of 4 p] by simp
  let ?sl = "[oob_byte fc]" and ?t = "oob_ttl (FakeTTL fk)"
  define p0 where "p0 = take (h + d) p @ ?sl"
  define p1 where "p1 = patch p0 (h + 4) (put32 (unat (s + off)))"
  define p2 where "p2 = patch p1 (h + 13) [p1 ! (h + 13) OR 0x20]"
  define p3 where "p3 = patch p2 (h + 18) (put16 1)"
  define p4 where "p4 = patch p3 8 [?t]"
  define p5 where "p5 = patch p4 4 (put16 (unat (word_of_nat n + 1 :: 16 word)))"
  define p6 where "p6 = patch p5 2 (put16 (h + d + 1))"
  have len': "h + d + length ?sl \<le> 65535" using len by simp
  have r0: "raw4 h d ?sl t p0" using raw4_replace [OF rp len'] by (simp add: p0_def)
  have r1: "raw4 h d ?sl t p1" unfolding p1_def using hd by (intro raw4_patch [OF r0]) auto
  have r2: "raw4 h d ?sl t p2" unfolding p2_def using hd by (intro raw4_patch [OF r1]) auto
  have r3: "raw4 h d ?sl t p3" unfolding p3_def using hd by (intro raw4_patch [OF r2]) auto
  have r4: "raw4 h d ?sl ?t p4" unfolding p4_def by (rule raw4_ttl [OF r3])
  have r5: "raw4 h d ?sl ?t p5" unfolding p5_def using hd by (intro raw4_patch [OF r4]) auto
  have r6: "raw4 h d ?sl ?t p6" unfolding p6_def using hd by (intro raw4_patch [OF r5]) auto
  have l: "length p0 = h + d + 1" "length p1 = length p0" "length p2 = length p0" "length p3 = length p0"
      "length p4 = length p0" "length p5 = length p0" "length p6 = length p0"
    using r0 r1 r2 r3 r4 r5 r6 by (simp_all add: raw4_def)
  have b: "be32 p6 (h + 4) = Some (unat (s + off))"
    using hd l by (simp add: p1_def p2_def p3_def p4_def p5_def p6_def be32_patch be32_patch_same)
  have "be16 p6 2 = Some (length p6)" using hd l len by (simp add: p6_def be16_patch_same)
  from finish4 [OF r6 b this] obtain q where q: "fix_ip_header p6 h \<bind> FixTCPChecksum = Some q" "good4 h d (s + off) ?sl ?t q"
    by blast
  then have lq: "h + 20 \<le> length q" "q ! 8 = ?t" using hd by (auto simp: good4_def raw4_def)
  define fin where "fin = (\<lambda>f. if FakeStrategy fk = str ''tcp_check'' then flip_at f (h + 16) \<bind> (\<lambda>f. flip_at f (h + 17))
     else if FakeStrategy fk = str ''md5sum'' then flip_at f (h + 16) \<bind> (\<lambda>f. flip_at f 10) else Some f)"
  have "oob_fake4 fc fk p h (h + d) off = (fix_ip_header p6 h \<bind> FixTCPChecksum) \<bind> fin"
    using raw4_replace [OF rp len'] hd l n
    by (simp add: oob_fake4_def p0_def [symmetric] p1_def p2_def p3_def p4_def p5_def p6_def fin_def)
  moreover have "\<exists>r. fin q = Some r \<and> r ! 8 = ?t"
  proof -
    obtain q1 where q1: "flip_at q (h + 16) = Some q1" "q1 ! 8 = ?t" "length q1 = length q"
      using flip_at_keeps [of "h + 16" q 8] lq hd by auto
    obtain q2 where "flip_at q1 (h + 17) = Some q2" "q2 ! 8 = ?t" using flip_at_keeps [of "h + 17" q1 8] q1 lq hd by auto
    moreover obtain q3 where "flip_at q1 10 = Some q3" "q3 ! 8 = ?t" using flip_at_keeps [of 10 q1 8] q1 lq hd by auto
    ultimately show ?thesis using q1 lq by (simp add: fin_def)
  qed
  ultimately show ?thesis using q(1) by auto
qed

lemma oob_rest6_good:
  assumes p: "good6 d s data t p" and len: "40 + d + length sl \<le> 65535"
  shows "\<exists>q. oob_rest6 p 40 (40 + d) sl off = Some q \<and> good6 d (s + off) sl t q"
proof -
  have rp: "raw6 d data t p" and hd: "20 \<le> d" "length p = 40 + d + length data" "be32 p 44 = Some (unat s)"
    using p by (auto simp: good6_def raw6_def)
  define p0 where "p0 = take (40 + d) p @ sl"
  define p1 where "p1 = patch p0 44 (put32 (unat (s + off)))"
  define p2 where "p2 = patch p1 4 (put16 (length p1 - 40))"
  define p3 where "p3 = patch p2 53 [p2 ! 53 AND NOT 0x20]"
  define p4 where "p4 = patch p3 58 (put16 0)"
  have r0: "raw6 d sl t p0" using raw6_replace [OF rp len] by (simp add: p0_def)
  have r1: "raw6 d sl t p1" unfolding p1_def using hd by (intro raw6_patch [OF r0]) auto
  have r2: "raw6 d sl t p2" unfolding p2_def using hd by (intro raw6_patch [OF r1]) auto
  have r3: "raw6 d sl t p3" unfolding p3_def using hd by (intro raw6_patch [OF r2]) auto
  have r4: "raw6 d sl t p4" unfolding p4_def using hd by (intro raw6_patch [OF r3]) auto
  have l: "length p0 = 40 + d + length sl" "length p1 = length p0" "length p2 = length p0" "length p3 = length p0" "length p4 = length p0"
    using r0 r1 r2 r3 r4 by (simp_all add: raw6_def)
  have b: "be32 p4 44 = Some (unat (s + off))" using hd l by (simp add: p1_def p2_def p3_def p4_def be32_patch be32_patch_same)
  have "be16 p2 4 = Some (length p2 - 40)" using hd l len by (simp add: p2_def be16_patch_same)
  then have "be16 p4 4 = Some (length p4 - 40)" using hd l by (simp add: p3_def p4_def be16_patch)
  from fix6 [OF r4 this b] obtain q where q: "FixTCPChecksumV6 p4 = Some q" "good6 d (s + off) sl t q" by blast
  have "oob_rest6 p 40 (40 + d) sl off = FixTCPChecksumV6 p4"
    using raw6_replace [OF rp len] hd l
    by (simp add: oob_rest6_def p0_def [symmetric] p1_def p2_def p3_def p4_def)
  then show ?thesis using q by auto
qed

lemma oob_fake6_ttl:
  assumes p: "good6 d s data t p" and len: "40 + d + 1 \<le> 65535"
  shows "\<exists>q. oob_fake6 fc fk p 40 (40 + d) off = Some q \<and> q ! 7 = oob_ttl (FakeTTL fk)"
proof -
  have rp: "raw6 d data t p" and hd: "20 \<le> d" "length p = 40 + d + length data" "be32 p 44 = Some (unat s)"
    using p by (auto simp: good6_def raw6_def)
  let ?sl = "[oob_byte fc]" and ?t = "oob_ttl (FakeTTL fk)"
  define p0 where "p0 = take (40 + d) p @ ?sl"
  define p1 where "p1 = patch p0 44 (put32 (unat (s + off)))"
  define p2 where "p2 = patch p1 53 [p1 ! 53 OR 0x20]"
  define p3 where "p3 = patch p2 58 (put16 1)"
  define p4 where "p4 = patch p3 7 [?t]"
  define p5 where "p5 = patch p4 4 (put16 (d + 1))"
  have len': "40 + d + length ?sl \<le> 65535" using len by simp
  have r0: "raw6 d ?sl t p0" using raw6_replace [OF rp len'] by (simp add: p0_def)
  have r1: "raw6 d ?sl t p1" unfolding p1_def using hd by (intro raw6_patch [OF r0]) auto
  have r2: "raw6 d ?sl t p2" unfolding p2_def using hd by (intro raw6_patch [OF r1]) auto
  have r3: "raw6 d ?sl t p3" unfolding p3_def using hd by (intro raw6_patch [OF r2]) auto
  have r4: "raw6 d ?sl ?t p4" unfolding p4_def by (rule raw6_ttl [OF r3])
  have r5: "raw6 d ?sl ?t p5" unfolding p5_def using hd by (intro raw6_patch [OF r4]) auto
  have l: "length p0 = 40 + d + 1" "length p1 = length p0" "length p2 = length p0" "length p3 = length p0"
      "length p4 = length p0" "length p5 = length p0"
    using r0 r1 r2 r3 r4 r5 by (simp_all add: raw6_def)
  have b: "be32 p5 44 = Some (unat (s + off))" using hd l by (simp add: p1_def p2_def p3_def p4_def p5_def be32_patch be32_patch_same)
  have "be16 p5 4 = Some (length p5 - 40)" using hd l len by (simp add: p5_def be16_patch_same)
  from fix6 [OF r5 this b] obtain q where q: "FixTCPChecksumV6 p5 = Some q" "good6 d (s + off) ?sl ?t q" by blast
  then have lq: "60 \<le> length q" "q ! 7 = ?t" using hd by (auto simp: good6_def raw6_def)
  define fin where "fin = (\<lambda>f. if FakeStrategy fk = str ''tcp_check'' \<or> FakeStrategy fk = str ''md5sum''
     then flip_at f (40 + 16) \<bind> (\<lambda>f. flip_at f (40 + 17)) else Some f)"
  have "oob_fake6 fc fk p 40 (40 + d) off = FixTCPChecksumV6 p5 \<bind> fin"
    using raw6_replace [OF rp len'] hd l
    by (simp add: oob_fake6_def p0_def [symmetric] p1_def p2_def p3_def p4_def p5_def fin_def)
  moreover have "\<exists>r. fin q = Some r \<and> r ! 7 = ?t"
  proof -
    obtain q1 where q1: "flip_at q 56 = Some q1" "q1 ! 7 = ?t" "length q1 = length q"
      using flip_at_keeps [of 56 q 7] lq by auto
    obtain q2 where "flip_at q1 57 = Some q2" "q2 ! 7 = ?t" using flip_at_keeps [of 57 q1 7] q1 lq by auto
    then show ?thesis using q1 lq by (simp add: fin_def)
  qed
  ultimately show ?thesis using q(1) by auto
qed

subsection \<open>The interface\<close>

locale oob_family = segment_family +
  fixes mk_fake :: "FragmentationConfig \<Rightarrow> FakingConfig \<Rightarrow> bytes \<Rightarrow> nat \<Rightarrow> nat \<Rightarrow> 32 word \<Rightarrow> bytes option"
    and mk_rest :: "bytes \<Rightarrow> nat \<Rightarrow> nat \<Rightarrow> bytes \<Rightarrow> 32 word \<Rightarrow> bytes option"
  assumes urgent: "good h d s data t p \<Longrightarrow> h + d + 1 \<le> 65535 \<Longrightarrow>
      \<exists>q. mk_fake fc fk p h (h + d) off = Some q \<and> ttl_of q = oob_ttl (FakeTTL fk)"
    and plain: "good h d s data t p \<Longrightarrow> h + d + length sl \<le> 65535 \<Longrightarrow>
      \<exists>q. mk_rest p h (h + d) sl off = Some q \<and> good h d (s + off) sl t q"
    and header_room: "good h d s data t p \<Longrightarrow> h + 20 \<le> length p"

interpretation v4oob: oob_family fam4 False raw4 good4 tcp4_view "\<lambda>p. p ! 8" oob_fake4 oob_rest4
  by unfold_locales (use oob_fake4_ttl oob_rest4_good in \<open>auto simp: good4_def raw4_def\<close>)

interpretation v6oob: oob_family fam6 True "\<lambda>h d data t p. h = 40 \<and> raw6 d data t p"
    "\<lambda>h d s data t p. h = 40 \<and> good6 d s data t p" tcp6_view "\<lambda>p. p ! 7" oob_fake6 oob_rest6
  by unfold_locales (use oob_fake6_ttl oob_rest6_good in \<open>auto simp: good6_def raw6_def\<close>)

lemma oob_position_ok:
  assumes "1 \<le> n"
  shows "\<exists>k. oob_position fc dr payload (int n) = Some k \<and> 0 < k \<and> k \<le> int n"
proof -
  obtain s e ok where l: "LocateServerName payload = Some (s, e, ok)" using LocateServerName_ex by blast
  have "int n div 2 \<le> int n" by linarith
  then show ?thesis using assms by (simp add: oob_position_def Let_def l)
qed

context oob_family
begin

lemma oob_reaches:
  assumes g: "good h d s data t p" and t: "unat (oob_ttl (FakeTTL fk)) \<le> hops" "hops < unat t"
  shows "\<exists>sent. send_oob F (mk_fake fc fk) mk_rest fc dr p = Some sent \<and> reaches view ttl_of hops s data sent"
proof -
  have hd: "fam_hdr F p = Some h" "tcp_hdr_len p h = Some d" "h + 20 \<le> length p" "h + d \<le> 120"
    using headers [OF g] header_room [OF g] raw_headers [OF good_raw [OF g]] by auto
  note len = good_layout [OF g]
  show ?thesis
  proof (cases "data = []")
    case True
    then show ?thesis using whole_reaches [OF g t(2)] hd len by (simp add: send_oob_def)
  next
    case False
    then have "1 \<le> length data" by (simp add: Suc_leI)
    then obtain k where k: "oob_position fc dr data (int (length data)) = Some k" "0 < k" "k \<le> int (length data)"
      using oob_position_ok by blast
    define i where "i = nat k"
    have i: "i \<le> length data" "word_of_int k = (word_of_nat i :: 32 word)" using k by (auto simp: i_def of_nat_nat)
    obtain q1 where q1: "fam_first F p h (h + d + i) = Some q1" "sees h d t q1 (s, take i data)"
      using cut_sees(1) [OF g order_refl i(1)] by blast
    have "h + d + length (drop i data) \<le> 65535"
      using raw_length [OF good_raw [OF g]] raw_bound [OF good_raw [OF g]] by simp
    then obtain q2 where q2: "mk_rest p h (h + d) (drop i data) (word_of_nat i) = Some q2" "sees h d t q2 (s + word_of_nat i, drop i data)"
      using plain [OF g] unfolding sees_def by fastforce
    obtain f where f: "mk_fake fc fk p h (h + d) (word_of_nat i) = Some f" "ttl_of f = oob_ttl (FakeTTL fk)"
      using urgent [OF g] hd(4) by fastforce
    let ?sent = "if ReverseOrder fc then [q2, f, q1] else [q1, f, q2]"
    have "send_oob F (mk_fake fc fk) mk_rest fc dr p = Some ?sent"
      using hd(1-3) len False k(1) q1(1) q2(1) f(1) i by (simp add: send_oob_def i_def [symmetric])
    moreover have "reaches view ttl_of hops s data ?sent"
    proof (rule reachesI [of h d t "[q1, q2]" "pieces s data [0, i, length data]"])
      show "list_all2 (sees h d t) [q1, q2] (pieces s data [0, i, length data])" using q1(2) q2(2) by (simp add: piece_def)
      show "delivers s data (pieces s data [0, i, length data])" using i(1) len(3) by (intro delivers_pieces) auto
    qed (use t f in auto)
    ultimately show ?thesis by blast
  qed
qed

end

end
