(* ===== verification/Ip_Fragments.thy ===== *)
theory Ip_Fragments
  imports Tcp_Strategies
begin

text \<open>
  Fragmentation at the IP layer: \<^verbatim>\<open>src/sock/fragment_ipv4.go\<close>, \<^verbatim>\<open>fragment_ipv6.go\<close>, \<^verbatim>\<open>udp_ipv4.go\<close>,
  \<^verbatim>\<open>udp_ipv6.go\<close>, and the two senders of \<^verbatim>\<open>src/nfq\<close> that use them for TCP. The specification is a
  receiver that collects fragments of one datagram, in any order, and puts them together when
  they tile it (\<open>reassemble\<close>). An inner \<^const>\<open>None\<close> is the code's \<^verbatim>\<open>false\<close>, an outer one a panic. Split
  positions are \<^typ>\<open>int\<close>: they are bounded by the length of a packet, far below the width of \<^verbatim>\<open>int\<close>. The
  identification of IPv6 fragments is drawn at random and an argument here.
\<close>

subsection \<open>The code\<close>

text \<open>\<^verbatim>\<open>n &^ 7\<close>\<close>

definition align8 :: "int \<Rightarrow> int" where
  "align8 n = n div 8 * 8"

definition frag_cut4 :: "int \<Rightarrow> int \<Rightarrow> int option" where
  "frag_cut4 ipPayloadLen splitPos =
     (let splitPos = align8 (splitPos + 7);
          splitPos = (if splitPos < 8 then 8 else splitPos)
      in if splitPos \<ge> ipPayloadLen
         then let splitPos = align8 (ipPayloadLen - 8) in if splitPos < 8 then None else Some splitPos
         else Some splitPos)"

definition IPv4FragmentPacket :: "bytes \<Rightarrow> int \<Rightarrow> bytes list option option" where
  "IPv4FragmentPacket packet splitPos =
     (if length packet < 20 \<or> drop_bit 4 (packet ! 0) \<noteq> 4 then Some None
      else do {
        h \<leftarrow> ip_hdr_len packet;
        if length packet < h + 8 then Some None
        else
          case frag_cut4 (int (length packet) - int h) splitPos of
            None \<Rightarrow> Some None
          | Some splitPos \<Rightarrow> do {
              let absPos = h + nat splitPos;
              frag1 \<leftarrow> sub_bytes packet 0 absPos;
              frag1 \<leftarrow> put_at frag1 6 [0x20];
              frag1 \<leftarrow> put_at frag1 7 [0];
              frag1 \<leftarrow> put_at frag1 2 (put16 absPos);
              frag1 \<leftarrow> fix_ip_header frag1 h;
              hdr \<leftarrow> sub_bytes packet 0 h;
              let frag2 = hdr @ drop absPos packet;
              frag2 \<leftarrow> put_at frag2 6 (put16 (nat splitPos mod 65536 div 8));
              frag2 \<leftarrow> put_at frag2 2 (put16 (length frag2));
              frag2 \<leftarrow> fix_ip_header frag2 h;
              Some (Some [frag1, frag2]) } })"

text \<open>One IPv6 fragment: the fixed header, the fragment header, the data.\<close>

definition fragment6 :: "bytes \<Rightarrow> byte \<Rightarrow> nat \<Rightarrow> 32 word \<Rightarrow> bytes \<Rightarrow> bytes option" where
  "fragment6 packet nextHeader field ident data = do {
     hdr \<leftarrow> sub_bytes packet 0 40;
     let f = hdr @ ([nextHeader, 0] @ put16 field @ put32 (unat ident)) @ data;
     f \<leftarrow> put_at f 6 [44];
     put_at f 4 (put16 (8 + length data)) }"

definition IPv6FragmentPacket :: "32 word \<Rightarrow> bytes \<Rightarrow> int \<Rightarrow> bytes list option option" where
  "IPv6FragmentPacket ident packet splitPos =
     (if length packet < 40 \<or> drop_bit 4 (packet ! 0) \<noteq> 6 then Some None
      else do {
        nextHeader \<leftarrow> at packet 6;
        if nextHeader \<noteq> 6 \<and> nextHeader \<noteq> 17 then Some None
        else do {
          payloadLen \<leftarrow> be16 packet 4;
          if payloadLen < 8 \<or> 40 + payloadLen > length packet then Some None
          else do {
            let splitPos = align8 (splitPos + 7);
            let big = (splitPos \<ge> int payloadLen);
            let splitPos = (if big then int payloadLen - 8 else splitPos);
            if big \<and> splitPos < 8 then Some None
            else if splitPos < 0 then None
            else do {
              d1 \<leftarrow> sub_bytes packet 40 (40 + nat splitPos);
              frag1 \<leftarrow> fragment6 packet nextHeader 1 ident d1;
              let d2 = take (payloadLen - nat splitPos) (drop (40 + nat splitPos) packet);
              frag2 \<leftarrow> fragment6 packet nextHeader (nat splitPos div 8 * 8) ident d2;
              Some (Some [frag1, frag2]) } } } })"

text \<open>How the UDP routines place the cut.\<close>

definition udp_cut :: "int \<Rightarrow> nat \<Rightarrow> nat" where
  "udp_cut split n =
     (let split = (if split < 1 \<or> split \<ge> int n - 8 then 8 else nat split);
          firstData = 8 + split;
          aligned = firstData - firstData mod 8
      in if aligned < 8 then 8 else aligned)"

definition udp_fragment4 :: "bytes \<Rightarrow> nat \<Rightarrow> byte \<Rightarrow> byte \<Rightarrow> bytes \<Rightarrow> bytes option" where
  "udp_fragment4 orig ident b6 b7 data = do {
     hdr \<leftarrow> sub_bytes orig 0 20;
     let f = hdr @ data;
     v \<leftarrow> at f 0;
     f \<leftarrow> put_at f 0 [(v AND 0xF0) OR 0x05];
     f \<leftarrow> put_at f 4 (put16 ident);
     f \<leftarrow> put_at f 6 [b6];
     f \<leftarrow> put_at f 7 [b7];
     f \<leftarrow> put_at f 2 (put16 (20 + length data));
     fix_ip_header f 20 }"

definition IPv4FragmentUDP :: "bytes \<Rightarrow> int \<Rightarrow> bytes list option option" where
  "IPv4FragmentUDP orig split =
     (if length orig < 28 \<or> drop_bit 4 (orig ! 0) \<noteq> 4 then Some None
      else do {
        ihl \<leftarrow> ip_hdr_len orig;
        if ihl < 20 \<or> length orig < ihl + 8 then Some None
        else do {
          tot \<leftarrow> be16 orig 2;
          let tot = (if tot > length orig then length orig else tot);
          udp \<leftarrow> sub_bytes orig ihl tot;
          if length udp < 8 then Some None
          else do {
            let firstDataAligned = udp_cut split (length udp);
            if firstDataAligned \<ge> length udp then Some None
            else do {
              ident \<leftarrow> be16 orig 4;
              ip1 \<leftarrow> udp_fragment4 orig ident 0x20 0 (take firstDataAligned udp);
              let offsetUnits = firstDataAligned div 8;
              ip2 \<leftarrow> udp_fragment4 orig ident (word_of_nat (offsetUnits div 256) AND 0x1F) (word_of_nat offsetUnits)
                (drop firstDataAligned udp);
              Some (Some [ip2, ip1]) } } } })"

definition IPv6FragmentUDP :: "32 word \<Rightarrow> bytes \<Rightarrow> int \<Rightarrow> bytes list option option" where
  "IPv6FragmentUDP ident orig split =
     (if length orig < 48 \<or> drop_bit 4 (orig ! 0) \<noteq> 6 \<or> orig ! 6 \<noteq> 17 then Some None
      else do {
        payloadLen \<leftarrow> be16 orig 4;
        if payloadLen < 8 \<or> 40 + payloadLen > length orig then Some None
        else do {
          udp \<leftarrow> sub_bytes orig 40 (40 + payloadLen);
          let firstDataAligned = udp_cut split (length udp);
          if firstDataAligned \<ge> length udp then Some None
          else do {
            frag1 \<leftarrow> fragment6 orig 17 1 ident (take firstDataAligned udp);
            frag2 \<leftarrow> fragment6 orig 17 (firstDataAligned div 8 * 8 mod 65536) ident (drop firstDataAligned udp);
            Some (Some [frag2, frag1]) } } })"

text \<open>Where the senders of TCP packets cut.\<close>

definition frag_position :: "FragmentationConfig \<Rightarrow> draws \<Rightarrow> bytes \<Rightarrow> int option" where
  "frag_position fc dr payload = do {
     let splitPos = ResolveRange (int_width dr) (draw_position dr) (SNIPosition fc) (SNIPositionMax fc);
     if MiddleSNI fc then do {
       (s, e, ok) \<leftarrow> LocateServerName payload;
       Some (if ok \<and> int e - int s \<ge> 4 then
               let sniLen = e - s in if sniLen > 30 then int e - 12 else int s + int (sniLen div 2)
             else splitPos) }
     else Some splitPos }"

definition sendIPFragments :: "FragmentationConfig \<Rightarrow> draws \<Rightarrow> bytes \<Rightarrow> bytes list option" where
  "sendIPFragments fc dr packet = do {
     h \<leftarrow> ip_hdr_len packet;
     d \<leftarrow> tcp_hdr_len packet h;
     let payloadLen = int (length packet) - int (h + d);
     if payloadLen \<le> 0 then Some [packet]
     else do {
       splitPos \<leftarrow> frag_position fc dr (drop (h + d) packet);
       if splitPos \<le> 0 \<or> splitPos \<ge> payloadLen then Some [packet]
       else do {
         r \<leftarrow> IPv4FragmentPacket packet (int d + splitPos);
         Some (case r of None \<Rightarrow> [packet] | Some fs \<Rightarrow> SendTwoSegments (fs ! 0) (fs ! 1) (ReverseOrder fc)) } } }"

definition sendIPFragmentsv6 :: "FragmentationConfig \<Rightarrow> draws \<Rightarrow> 32 word \<Rightarrow> bytes \<Rightarrow> bytes list option" where
  "sendIPFragmentsv6 fc dr ident packet =
     (if length packet < 60 then Some [packet]
      else do {
        d \<leftarrow> tcp_hdr_len packet 40;
        let payloadLen = int (length packet) - int (40 + d);
        if payloadLen \<le> 0 then Some [packet]
        else do {
          splitPos \<leftarrow> frag_position fc dr (drop (40 + d) packet);
          if splitPos \<le> 0 \<or> splitPos \<ge> payloadLen then Some [packet]
          else do {
            let adjustedSplit = align8 (int d + splitPos + 7);
            let adjustedSplit = (if adjustedSplit < int d then align8 (int d + 7) else adjustedSplit);
            let n = int (length packet) - 40;
            let big = (adjustedSplit \<ge> n);
            let adjustedSplit = (if big then align8 (n - 8) else adjustedSplit);
            if big \<and> adjustedSplit < 8 then Some [packet]
            else do {
              r \<leftarrow> IPv6FragmentPacket ident packet adjustedSplit;
              Some (case r of None \<Rightarrow> [packet] | Some fs \<Rightarrow> SendTwoSegments (fs ! 0) (fs ! 1) (ReverseOrder fc)) } } } })"

subsection \<open>The receiver\<close>

fun tile :: "nat \<Rightarrow> (nat \<times> bool \<times> bytes) list \<Rightarrow> bytes option" where
  "tile k [] = None"
| "tile k [(off, mf, data)] = (if off = k \<and> \<not> mf then Some data else None)"
| "tile k ((off, mf, data) # fs) =
     (if off = k \<and> mf \<and> length data mod 8 = 0 then map_option (\<lambda>rest. data @ rest) (tile (k + length data) fs) else None)"

definition reassemble :: "('k \<times> nat \<times> bool \<times> bytes) list \<Rightarrow> ('k \<times> bytes) option" where
  "reassemble fs =
     (case fs of
        [] \<Rightarrow> None
      | f # _ \<Rightarrow> if list_all (\<lambda>g. fst g = fst f) fs
               then map_option (Pair (fst f)) (tile 0 (sort_key fst (map snd fs))) else None)"

definition key4 :: "bytes \<Rightarrow> bytes" where
  "key4 p = take 2 (drop 4 p) @ take 1 (drop 9 p) @ take 8 (drop 12 p)"

definition frag4_view :: "bytes \<Rightarrow> (bytes \<times> nat \<times> bool \<times> bytes) option" where
  "frag4_view p = do {
     h \<leftarrow> ip_hdr_len p;
     tot \<leftarrow> be16 p 2;
     fl \<leftarrow> be16 p 6;
     if 20 \<le> h \<and> h \<le> tot \<and> tot \<le> length p \<and> inet_ok (take h p)
     then Some (key4 p, 8 * (fl mod 8192), odd (fl div 8192), drop h (take tot p)) else None }"

definition key6 :: "bytes \<Rightarrow> bytes" where
  "key6 p = take 1 (drop 40 p) @ take 4 (drop 44 p) @ take 32 (drop 8 p)"

definition frag6_view :: "bytes \<Rightarrow> (bytes \<times> nat \<times> bool \<times> bytes) option" where
  "frag6_view p = do {
     n \<leftarrow> be16 p 4;
     nh \<leftarrow> at p 6;
     fl \<leftarrow> be16 p 42;
     if nh = 44 \<and> 8 \<le> n \<and> 40 + n \<le> length p
     then Some (key6 p, 8 * (fl div 8), odd fl, drop 48 (take (40 + n) p)) else None }"

subsection \<open>Two fragments\<close>

lemma reassemble_two:
  assumes "0 < k" "k = length a" "k mod 8 = 0"
  shows "reassemble [(key, 0, True, a), (key, k, False, b)] = Some (key, a @ b)"
    and "reassemble [(key, k, False, b), (key, 0, True, a)] = Some (key, a @ b)"
  using assms by (simp_all add: reassemble_def)

lemma reassemble_one: "reassemble [(key, 0, False, a)] = Some (key, a)"
  by (simp add: reassemble_def)

lemma key4_patch:
  "i + length v \<le> length p \<Longrightarrow> i + length v \<le> 4 \<or> 6 \<le> i \<and> i + length v \<le> 9 \<or> 10 \<le> i \<and> i + length v \<le> 12 \<Longrightarrow>
   key4 (patch p i v) = key4 p"
  by (auto simp: key4_def slice_patch drop_patch)

lemma key4_take: "20 \<le> n \<Longrightarrow> n \<le> length p \<Longrightarrow> key4 (take n p @ q) = key4 p"
  by (simp add: key4_def drop_take)

lemma frag4_built:
  assumes f: "ip_hdr_len f = Some h" "20 \<le> h" "h \<le> length f" "be16 f 2 = Some (length f)" "be16 f 6 = Some fl"
  shows "\<exists>q. fix_ip_header f h = Some q \<and> frag4_view q = Some (key4 f, 8 * (fl mod 8192), odd (fl div 8192), drop h f)"
proof -
  obtain c where c: "fix_ip_header f h = Some (patch f 10 (put16 c))" "inet_ok (take h (patch f 10 (put16 c)))"
    using fix_ip_header_eq [OF f(1-3)] by blast
  let ?q = "patch f 10 (put16 c)"
  have "ip_hdr_len ?q = Some h" using f by (simp add: ip_hdr_len_eq nth_patch) (auto simp: patch_def)
  moreover have "be16 ?q 2 = Some (length f)" "be16 ?q 6 = Some fl" "length ?q = length f" "key4 ?q = key4 f" "drop h ?q = drop h f"
    using f by (simp_all add: be16_patch key4_patch drop_patch)
  ultimately show ?thesis using c f(2,3) by (simp add: frag4_view_def)
qed

text \<open>A fragment cut out of a packet: header fields that are not rewritten stay.\<close>

lemma frag4_cut:
  assumes p: "ip_hdr_len p = Some h" "20 \<le> h" "h \<le> length p" "h + length data \<le> 65535" and fl: "fl < 65536"
  shows "\<exists>q. fix_ip_header (patch (patch (take h p @ data) 6 (put16 fl)) 2 (put16 (h + length data))) h = Some q \<and>
    frag4_view q = Some (key4 p, 8 * (fl mod 8192), odd (fl div 8192), data)"
proof -
  define f0 where "f0 = take h p @ data"
  define f1 where "f1 = patch f0 6 (put16 fl)"
  define f2 where "f2 = patch f1 2 (put16 (h + length data))"
  have l: "length f0 = h + length data" "length f1 = length f0" "length f2 = length f0"
    using p by (simp_all add: f0_def f1_def f2_def)
  have "f2 ! 0 = p ! 0" using p l by (simp add: f2_def f1_def nth_patch) (simp add: f0_def nth_append)
  then have "ip_hdr_len f2 = Some h" using p l by (auto simp: ip_hdr_len_eq)
  moreover have "be16 f2 2 = Some (length f2)" using p l by (simp add: f2_def be16_patch_same)
  moreover have "be16 f2 6 = Some fl" using p l fl by (simp add: f2_def f1_def be16_patch be16_patch_same)
  moreover have "key4 f2 = key4 p" using p l by (simp add: f2_def f1_def key4_patch) (simp add: f0_def key4_take)
  moreover have "drop h f2 = data" using p l by (simp add: f2_def f1_def drop_patch) (simp add: f0_def)
  ultimately show ?thesis
    using frag4_built [of f2 h fl] p l by (simp add: f0_def [symmetric] f1_def [symmetric] f2_def [symmetric])
qed

lemma put16_more: "put16 8192 = [0x20, 0]"
  by code_simp

lemma align8_le: "align8 n \<le> n" "n < align8 n + 8"
  unfolding align8_def by linarith+

lemma align8_mod: "align8 n mod 8 = 0"
  by (simp add: align8_def)

lemma frag_cut4_ok: "frag_cut4 n sp = Some m \<Longrightarrow> 8 \<le> m" "frag_cut4 n sp = Some m \<Longrightarrow> m < n" "frag_cut4 n sp = Some m \<Longrightarrow> m mod 8 = 0"
  using align8_le [of "n - 8"] by (auto simp: frag_cut4_def Let_def align8_mod split: if_splits)

lemma IPv4FragmentPacket_frags:
  assumes p: "ip_hdr_len p = Some h" "20 \<le> h" "h \<le> length p" "length p \<le> 65535" and sp: "0 < sp" "sp < int (length p) - int h"
    and v: "drop_bit 4 (p ! 0) = (4 :: byte)"
  shows "IPv4FragmentPacket p sp = Some None \<or>
    (\<exists>f1 f2 k. IPv4FragmentPacket p sp = Some (Some [f1, f2]) \<and> 0 < k \<and> k mod 8 = 0 \<and> h + k < length p \<and>
      frag4_view f1 = Some (key4 p, 0, True, take k (drop h p)) \<and> frag4_view f2 = Some (key4 p, k, False, drop k (drop h p)))"
proof -
  show ?thesis
  proof (cases "length p < h + 8 \<or> frag_cut4 (int (length p) - int h) sp = None")
    case True
    then show ?thesis using p v unfolding IPv4FragmentPacket_def by auto
  next
    case False
    then obtain m where m: "frag_cut4 (int (length p) - int h) sp = Some m" by blast
    define k where "k = nat m"
    note m' = frag_cut4_ok [OF m]
    have k: "m = int k" "0 < k" "h + k < length p" using m' p by (auto simp: k_def)
    have k8: "k mod 8 = 0" using m'(3) k(1) by (metis of_nat_0_eq_iff of_nat_mod of_nat_numeral)
    have k3: "k mod 65536 = k" "k div 8 < 8192" "8 * (k div 8) = k" using k(3) k8 p(4) by auto
    have t: "take (h + k) p = take h p @ take k (drop h p)" by (simp add: take_add)
    obtain f1 where f1: "fix_ip_header (patch (patch (take (h + k) p) 6 (put16 8192)) 2 (put16 (h + k))) h = Some f1"
        "frag4_view f1 = Some (key4 p, 0, True, take k (drop h p))"
      using frag4_cut [OF p(1-3), of "take k (drop h p)" 8192] k p unfolding t by auto
    obtain f2 where f2: "fix_ip_header (patch (patch (take h p @ drop (h + k) p) 6 (put16 (k div 8))) 2 (put16 (length p - k))) h = Some f2"
        "frag4_view f2 = Some (key4 p, k, False, drop (h + k) p)"
      using frag4_cut [OF p(1-3), of "drop (h + k) p" "k div 8"] k k3 p le_trans [OF diff_le_self p(4)] by auto
    have "patch (patch (take (h + k) p) 6 [0x20]) 7 [0] = patch (take (h + k) p) 6 (put16 8192)"
      using patch_two [of 6 "take (h + k) p" "0x20" 0] k p by (simp add: put16_more)
    then have "IPv4FragmentPacket p sp = Some (Some [f1, f2])"
      using p v False k k3 f1(1) f2(1) m unfolding IPv4FragmentPacket_def Let_def by simp
    then show ?thesis using f1(2) f2(2) k k8 by (auto simp: add.commute)
  qed
qed

text \<open>What a receiver puts together from the packets of a list.\<close>

definition received :: "(bytes \<Rightarrow> (bytes \<times> nat \<times> bool \<times> bytes) option) \<Rightarrow> bytes list \<Rightarrow> (bytes \<times> bytes) option" where
  "received view sent = (if None \<in> set (map view sent) then None else reassemble (List.map_filter view sent))"

lemma received_two:
  assumes "view f1 = Some (key, 0, True, take k data)" "view f2 = Some (key, k, False, drop k data)"
    "0 < k" "k \<le> length data" "k mod 8 = 0"
  shows "received view (SendTwoSegments f1 f2 rv) = Some (key, data)" "received view [f2, f1] = Some (key, data)"
  using assms reassemble_two [of k "take k data" key "drop k data"]
  by (auto simp: received_def SendTwoSegments_def List.map_filter_def)

lemma frag_position_ex: "\<exists>k. frag_position fc dr payload = Some k"
proof -
  obtain s e ok where "LocateServerName payload = Some (s, e, ok)"
    using no_panic_LocateServerName [of payload] by (auto simp: no_panic_ex)
  then show ?thesis by (simp add: frag_position_def Let_def)
qed

lemma sendIPFragments_received:
  assumes p: "good4 h d s data t p" and v: "drop_bit 4 (p ! 0) = (4 :: byte)" and fl: "be16 p 6 = Some fl" "fl mod 8192 = 0" "even (fl div 8192)"
  shows "\<exists>sent. sendIPFragments fc dr p = Some sent \<and> received frag4_view sent = Some (key4 p, drop h p)"
proof -
  have r: "ip_hdr_len p = Some h" "tcp_hdr_len p h = Some d" "20 \<le> h" "20 \<le> d" "length p = h + d + length data" "length p \<le> 65535"
      "be16 p 2 = Some (length p)" "inet_ok (take h p)" using p by (auto simp: good4_def raw4_def)
  have whole: "received frag4_view [p] = Some (key4 p, drop h p)"
    using r fl by (simp add: received_def frag4_view_def map_filter_simps reassemble_one)
  obtain k where k: "frag_position fc dr (drop (h + d) p) = Some k" using frag_position_ex by blast
  show ?thesis
  proof (cases "length data = 0 \<or> k \<le> 0 \<or> k \<ge> int (length data)")
    case True
    then show ?thesis using r k whole by (auto simp: sendIPFragments_def)
  next
    case False
    then have a: "0 < int d + k" "int d + k < int (length p) - int h" using r by auto
    have "h \<le> length p" using r by simp
    from IPv4FragmentPacket_frags [OF r(1,3) this r(6) a v] show ?thesis
    proof (elim disjE exE conjE)
      assume "IPv4FragmentPacket p (int d + k) = Some None"
      then show ?thesis using r k whole False by (simp add: sendIPFragments_def)
    next
      fix f1 f2 n
      assume f: "IPv4FragmentPacket p (int d + k) = Some (Some [f1, f2])" "0 < n" "n mod 8 = 0" "h + n < length p"
        "frag4_view f1 = Some (key4 p, 0, True, take n (drop h p))" "frag4_view f2 = Some (key4 p, n, False, drop n (drop h p))"
      then have "received frag4_view (SendTwoSegments f1 f2 (ReverseOrder fc)) = Some (key4 p, drop h p)"
        by (intro received_two(1) [OF f(5,6)]) simp_all
      then show ?thesis using r k False f(1) by (simp add: sendIPFragments_def)
    qed
  qed
qed

subsection \<open>IPv6\<close>

lemma fragment6_view:
  assumes "40 \<le> length p" "8 + length data \<le> 65535" "field < 65536"
  shows "\<exists>q. fragment6 p nh field ident data = Some q \<and>
    frag6_view q = Some ([nh] @ put32 (unat ident) @ take 32 (drop 8 p), 8 * (field div 8), odd field, data)"
proof -
  define f0 where "f0 = take 40 p @ ([nh, 0] @ put16 field @ put32 (unat ident)) @ data"
  define f1 where "f1 = patch f0 6 [44]"
  define f2 where "f2 = patch f1 4 (put16 (8 + length data))"
  have l: "length f0 = 48 + length data" "length f1 = length f0" "length f2 = length f0"
    using assms by (simp_all add: f0_def f1_def f2_def put32_def)
  have "fragment6 p nh field ident data = Some f2"
    using assms unfolding fragment6_def Let_def f2_def f1_def f0_def by (simp add: put32_def)
  moreover have "be16 f2 4 = Some (8 + length data)" using l assms by (simp add: f2_def be16_patch_same)
  moreover have "f2 ! 6 = 44" using l by (simp add: f2_def f1_def nth_patch nth_patch_in)
  moreover have d40: "drop 40 f2 = ([nh, 0] @ put16 field @ put32 (unat ident)) @ data"
    using assms l by (simp add: f2_def f1_def drop_patch) (simp add: f0_def)
  have "be16 f2 42 = Some field"
    using l assms be16_put16_at [of field "take 40 p @ [nh, 0]" 42 "put32 (unat ident) @ data"]
    by (simp add: f2_def f1_def be16_patch) (simp add: f0_def)
  moreover have "drop 48 f2 = data"
  proof -
    have "drop 48 f2 = drop 8 (drop 40 f2)" by simp
    then show ?thesis unfolding d40 by (simp add: put32_def)
  qed
  moreover have "key6 f2 = [nh] @ put32 (unat ident) @ take 32 (drop 8 p)"
  proof -
    have "take 32 (drop 8 f2) = take 32 (drop 8 p)"
      using assms l by (simp add: f2_def f1_def drop_patch) (simp add: f0_def drop_take)
    moreover have "drop 44 f2 = drop 4 (drop 40 f2)" by simp
    ultimately show ?thesis unfolding key6_def d40 by (simp add: put32_def)
  qed
  ultimately show ?thesis using l by (auto simp: frag6_view_def)
qed

definition key6_of :: "bytes \<Rightarrow> byte \<Rightarrow> 32 word \<Rightarrow> bytes" where
  "key6_of p nh ident = [nh] @ put32 (unat ident) @ take 32 (drop 8 p)"

lemma two_fragments6:
  assumes p: "40 \<le> length p" "length pl \<le> 65527" and k: "0 < k" "k < length pl" "k mod 8 = 0"
  shows "\<exists>f1 f2. fragment6 p nh 1 ident (take k pl) = Some f1 \<and> fragment6 p nh (k div 8 * 8) ident (drop k pl) = Some f2 \<and>
    received frag6_view (SendTwoSegments f1 f2 rv) = Some (key6_of p nh ident, pl) \<and>
    frag6_view f1 = Some (key6_of p nh ident, 0, True, take k pl) \<and> frag6_view f2 = Some (key6_of p nh ident, k, False, drop k pl)"
proof -
  have room: "8 + length pl - k \<le> 65535" "k div 8 < 8192" using p k by linarith+
  obtain f1 where f1: "fragment6 p nh 1 ident (take k pl) = Some f1"
      "frag6_view f1 = Some (key6_of p nh ident, 0, True, take k pl)"
    using fragment6_view [of p "take k pl" 1 nh ident] p k by (auto simp: key6_of_def)
  obtain f2 where f2: "fragment6 p nh (k div 8 * 8) ident (drop k pl) = Some f2"
      "frag6_view f2 = Some (key6_of p nh ident, k, False, drop k pl)"
    using fragment6_view [of p "drop k pl" "k div 8 * 8" nh ident] p k room by (auto simp: key6_of_def)
  show ?thesis using f1 f2 received_two [OF f1(2) f2(2) k(1) _ k(3)] k(2) by auto
qed

text \<open>The position is a multiple of eight unless it lies past the payload.\<close>

lemma IPv6FragmentPacket_received:
  assumes p: "drop_bit 4 (p ! 0) = (6 :: byte)" "p ! 6 = 6 \<or> p ! 6 = 17" "be16 p 4 = Some n" "40 + n \<le> length p" "n \<le> 65527"
    and sp: "0 < sp" "align8 (sp + 7) < int n"
  shows "\<exists>f1 f2. IPv6FragmentPacket ident p sp = Some (Some [f1, f2]) \<and>
    received frag6_view (SendTwoSegments f1 f2 rv) = Some (key6_of p (p ! 6) ident, take n (drop 40 p))"
proof -
  define k where "k = nat (align8 (sp + 7))"
  have a: "align8 (sp + 7) = int k" "0 < k" "k < n" using sp align8_le [of "sp + 7"] by (auto simp: k_def)
  have k8: "k mod 8 = 0" using align8_mod [of "sp + 7"] a(1) by (metis of_nat_0_eq_iff of_nat_mod of_nat_numeral)
  have n: "8 \<le> n" using a k8 by (metis dvd_imp_le less_imp_le_nat mod_0_imp_dvd order.trans)
  obtain f1 f2 where f: "fragment6 p (p ! 6) 1 ident (take k (take n (drop 40 p))) = Some f1"
      "fragment6 p (p ! 6) (k div 8 * 8) ident (drop k (take n (drop 40 p))) = Some f2"
      "received frag6_view (SendTwoSegments f1 f2 rv) = Some (key6_of p (p ! 6) ident, take n (drop 40 p))"
    using two_fragments6 [of p "take n (drop 40 p)" k "p ! 6" ident rv] p a k8 by auto
  have d: "take k (take n (drop 40 p)) = take k (drop 40 p)" "drop k (take n (drop 40 p)) = take (n - k) (drop (40 + k) p)"
    using a by (simp_all add: drop_take add.commute)
  have "IPv6FragmentPacket ident p sp = Some (Some [f1, f2])"
    using p a n f(1,2) d unfolding IPv6FragmentPacket_def Let_def by simp
  then show ?thesis using f(3) by blast
qed

lemma align8_id: "m mod 8 = 0 \<Longrightarrow> align8 (m + 7) = m"
  unfolding align8_def by presburger

lemma sendIPFragmentsv6_received:
  assumes p: "good6 d s data t p"
  shows "\<exists>sent. sendIPFragmentsv6 fc dr ident p = Some sent \<and>
    (sent = [p] \<or> received frag6_view sent = Some (key6_of p 6 ident, drop 40 p))"
proof -
  have r: "tcp_hdr_len p 40 = Some d" "20 \<le> d" "length p = 40 + d + length data" "length p \<le> 65535" "drop_bit 4 (p ! 0) = (6 :: byte)"
      "p ! 6 = 6" "be16 p 4 = Some (length p - 40)" using p by (auto simp: good6_def raw6_def)
  obtain k where k: "frag_position fc dr (drop (40 + d) p) = Some k" using frag_position_ex by blast
  define n where "n = int (length p) - 40"
  define a where "a = align8 (int d + k + 7)"
  define a' where "a' = (if a \<ge> n then align8 (n - 8) else a)"
  show ?thesis
  proof (cases "length data = 0 \<or> k \<le> 0 \<or> k \<ge> int (length data) \<or> a \<ge> n \<and> a' < 8")
    case True
    have "\<not> a < int d" if "0 < k" using that align8_le [of "int d + k + 7"] by (auto simp: a_def)
    then have "sendIPFragmentsv6 fc dr ident p = Some [p]"
      using True r k unfolding sendIPFragmentsv6_def Let_def by (auto simp: a_def n_def a'_def)
    then show ?thesis by blast
  next
    case False
    have a: "int d < a" "a mod 8 = 0" using False align8_le [of "int d + k + 7"] by (auto simp: a_def align8_mod)
    have a': "0 < a'" "a' < n" "a' mod 8 = 0" using False a align8_le [of "n - 8"] by (auto simp: a'_def align8_mod split: if_splits)
    have fr: "\<exists>f1 f2. IPv6FragmentPacket ident p a' = Some (Some [f1, f2]) \<and>
        received frag6_view (SendTwoSegments f1 f2 (ReverseOrder fc)) = Some (key6_of p (p ! 6) ident, take (length p - 40) (drop 40 p))"
      using r a' by (intro IPv6FragmentPacket_received) (auto simp: align8_id n_def)
    then obtain f1 f2 where f: "IPv6FragmentPacket ident p a' = Some (Some [f1, f2])"
        "received frag6_view (SendTwoSegments f1 f2 (ReverseOrder fc)) = Some (key6_of p 6 ident, drop 40 p)"
      using r by auto
    have "sendIPFragmentsv6 fc dr ident p = Some (SendTwoSegments f1 f2 (ReverseOrder fc))"
      using False a(1) r k f(1) unfolding sendIPFragmentsv6_def Let_def a'_def
      by (cases "a \<ge> n") (simp_all add: a_def n_def)
    then show ?thesis using f(2) by blast
  qed
qed

subsection \<open>UDP\<close>

lemma udp_cut_ok: "8 \<le> n \<Longrightarrow> 0 < udp_cut sp n \<and> udp_cut sp n mod 8 = 0"
proof -
  have m: "(m - m mod 8) mod 8 = 0" for m :: nat by (simp add: minus_mod_eq_mult_div)
  define j where "j = 8 + (if sp < 1 \<or> sp \<ge> int n - 8 then 8 else nat sp)"
  have "udp_cut sp n = (if j - j mod 8 < 8 then 8 else j - j mod 8)" by (simp add: udp_cut_def j_def Let_def)
  then show ?thesis using m [of j] by (cases "j - j mod 8 < 8") auto
qed

lemma patch_be16_same:
  assumes "be16 b i = Some n"
  shows "patch b i (put16 n) = b"
proof -
  have i: "i + 1 < length b" "n = 256 * unat (b ! i) + unat (b ! (i + 1))" using assms be16_SomeD [OF assms] by (auto simp: be16_lt)
  have "n div 256 = unat (b ! i)" "n mod 256 = unat (b ! (i + 1))" using unat_byte_less [of "b ! (i + 1)"] i(2) by auto
  moreover have "word_of_nat n = (word_of_nat (n mod 256) :: byte)" by (simp add: word_of_nat_eq_iff take_bit_eq_mod)
  ultimately have "put16 n = [b ! i, b ! (i + 1)]" by (simp add: put16_def)
  then show ?thesis using i(1) patch_same [of i b] by simp
qed

lemma ihl_five: "((v AND 0xF0) OR 0x05) AND 0x0F = (5 :: byte)"
  by (simp add: bit.conj_disj_distrib2 and.assoc)

lemma udp_fragment4_view:
  assumes o: "20 \<le> length orig" "be16 orig 4 = Some ident" "20 + length data \<le> 65535" and fl: "fl < 65536"
    and b: "[b6, b7] = put16 fl"
  shows "\<exists>q. udp_fragment4 orig ident b6 b7 data = Some q \<and>
    frag4_view q = Some (key4 orig, 8 * (fl mod 8192), odd (fl div 8192), data)"
proof -
  define p where "p = patch (take 20 orig) 0 [((orig ! 0) AND 0xF0) OR 0x05]"
  have l: "length p = 20" using o by (simp add: p_def)
  have p0: "p ! 0 = ((orig ! 0) AND 0xF0) OR 0x05" using o by (simp add: p_def nth_patch_in)
  have "ip_hdr_len p = Some 20"
  proof -
    have "at p 0 = Some (p ! 0)" using l by simp
    then show ?thesis unfolding ip_hdr_len_def p0 by (simp add: ihl_five)
  qed
  then obtain q where q: "fix_ip_header (patch (patch (p @ data) 6 (put16 fl)) 2 (put16 (20 + length data))) 20 = Some q"
      "frag4_view q = Some (key4 p, 8 * (fl mod 8192), odd (fl div 8192), data)"
    using frag4_cut [of p 20 data fl] l o(3) fl by auto
  have "key4 p = key4 orig" using o key4_take [of 20 orig "[]"] by (simp add: p_def key4_patch)
  moreover have "udp_fragment4 orig ident b6 b7 data = fix_ip_header (patch (patch (p @ data) 6 (put16 fl)) 2 (put16 (20 + length data))) 20"
  proof -
    have 1: "patch (take 20 orig @ data) 0 [(orig ! 0 AND 0xF0) OR 0x05] = p @ data" using o by (simp add: p_def patch_def)
    have "be16 (p @ data) 4 = Some ident" using o l by (simp add: be16_lt p_def nth_patch nth_append)
    then have 2: "patch (p @ data) 4 (put16 ident) = p @ data" by (rule patch_be16_same)
    have 3: "patch (patch (p @ data) 6 [b6]) 7 [b7] = patch (p @ data) 6 (put16 fl)"
      using patch_two [of 6 "p @ data" b6 b7] l b by simp
    show ?thesis using o l 1 2 3 by (simp add: udp_fragment4_def nth_append)
  qed
  ultimately show ?thesis using q by simp
qed

text \<open>The fragments are sent in the order of the list or the other way round, with the hop limit of the datagram.\<close>

definition frag_pair :: "(bytes \<Rightarrow> (bytes \<times> nat \<times> bool \<times> bytes) option) \<Rightarrow> nat \<Rightarrow> bytes \<Rightarrow> bytes \<Rightarrow> bytes \<Rightarrow> bytes list \<Rightarrow> bool" where
  "frag_pair view ttl_at orig key data fs \<longleftrightarrow> (\<exists>f1 f2. fs = [f2, f1] \<and> f1 ! ttl_at = orig ! ttl_at \<and> f2 ! ttl_at = orig ! ttl_at \<and>
     (\<forall>rv. received view (SendTwoSegments f2 f1 rv) = Some (key, data)))"

lemma frag_pairI:
  assumes "view f1 = Some (key, 0, True, take k data)" "view f2 = Some (key, k, False, drop k data)"
    "0 < k" "k \<le> length data" "k mod 8 = 0" "f1 ! ttl_at = orig ! ttl_at" "f2 ! ttl_at = orig ! ttl_at"
  shows "frag_pair view ttl_at orig key data [f2, f1]"
proof -
  have "received view (SendTwoSegments f2 f1 rv) = Some (key, data)" for rv
    using assms reassemble_two [of k "take k data" key "drop k data"]
    by (auto simp: received_def SendTwoSegments_def List.map_filter_def)
  then show ?thesis using assms(6,7) unfolding frag_pair_def by blast
qed

lemma frag_pair_received: "frag_pair view ttl_at orig key data fs \<Longrightarrow> received view fs = Some (key, data)"
  unfolding frag_pair_def SendTwoSegments_def by (metis (full_types))

lemma fix_ip_header_low:
  assumes "fix_ip_header f n = Some q" "20 \<le> n" "i < 10"
  shows "q ! i = f ! i"
  using assms by (auto simp: fix_ip_header_def FixIPv4Checksum_def sub_bytes_def put_at_def patch_def nth_append bind_eq_Some_conv split: if_splits)

lemma udp_fragment4_ttl: "udp_fragment4 orig ident b6 b7 data = Some q \<Longrightarrow> 20 \<le> length orig \<Longrightarrow> q ! 8 = orig ! 8"
  by (auto simp: udp_fragment4_def nth_patch nth_append bind_eq_Some_conv dest!: fix_ip_header_low [where i = 8])

lemma IPv4FragmentUDP_frags:
  assumes o: "ip_hdr_len orig = Some h" "be16 orig 2 = Some tot" "h \<le> tot" "20 \<le> h" "tot \<le> length orig"
  shows "\<exists>r. IPv4FragmentUDP orig sp = Some r \<and>
    (case r of None \<Rightarrow> length orig < 28 \<or> drop_bit 4 (orig ! 0) \<noteq> 4 \<or> tot < h + 8 \<or> tot \<le> h + udp_cut sp (tot - h)
     | Some fs \<Rightarrow> frag_pair frag4_view 8 orig (key4 orig) (drop h (take tot orig)) fs)"
proof -
  define udp where "udp = drop h (take tot orig)"
  have tl: "tot < 65536" using be16_SomeD [OF o(2)] by simp
  have u: "sub_bytes orig h tot = Some udp" "length udp = tot - h" using o by (simp_all add: udp_def drop_take)
  define k where "k = udp_cut sp (length udp)"
  show ?thesis
  proof (cases "length orig < 28 \<or> drop_bit 4 (orig ! 0) \<noteq> 4 \<or> length orig < h + 8 \<or> length udp < 8 \<or> k \<ge> length udp")
    case True
    then have "IPv4FragmentUDP orig sp = Some None" using o u unfolding IPv4FragmentUDP_def Let_def k_def by auto
    then show ?thesis using True o(3,5) u(2) by (auto simp: k_def)
  next
    case False
    then have k: "0 < k" "k mod 8 = 0" "k < length udp" using udp_cut_ok [of "length udp" sp] by (auto simp: k_def)
    have lens: "20 + length (take k udp) \<le> 65535" "20 + length (drop k udp) \<le> 65535"
      unfolding length_take length_drop using k u o tl by linarith+
    have k2: "k div 8 < 8192" "8 * (k div 8) = k" using k u(2) tl by auto
    obtain ident where i: "be16 orig 4 = Some ident" using False be16_lt [of 4 orig] by simp
    have l20: "20 \<le> length orig" using o by simp
    obtain f1 where f1: "udp_fragment4 orig ident 0x20 0 (take k udp) = Some f1" "frag4_view f1 = Some (key4 orig, 0, True, take k udp)"
      using udp_fragment4_view [OF l20 i lens(1), of 8192 "0x20" 0] by (auto simp: put16_more)
    have "[word_of_nat (k div 8 div 256) AND 0x1F, word_of_nat (k div 8)] = put16 (k div 8)"
    proof -
      have "k div 8 div 256 < 2 ^ 5" using k2 by simp
      then have "word_of_nat (k div 8 div 256) AND mask 5 = (word_of_nat (k div 8 div 256) :: byte)"
        unfolding take_bit_eq_mask [symmetric] take_bit_of_nat by (simp add: take_bit_nat_eq_self)
      moreover have "(mask 5 :: byte) = 0x1F" by (simp add: mask_eq_exp_minus_1)
      ultimately show ?thesis by (simp add: put16_def)
    qed
    then obtain f2 where f2: "udp_fragment4 orig ident (word_of_nat (k div 8 div 256) AND 0x1F) (word_of_nat (k div 8)) (drop k udp) = Some f2"
        "frag4_view f2 = Some (key4 orig, k, False, drop k udp)"
      using udp_fragment4_view [OF l20 i lens(2), of "k div 8"] k2 by auto
    have "IPv4FragmentUDP orig sp = Some (Some [f2, f1])"
      using False o u i f1(1) f2(1) unfolding IPv4FragmentUDP_def Let_def k_def by simp
    moreover have "frag_pair frag4_view 8 orig (key4 orig) udp [f2, f1]"
      using frag_pairI [OF f1(2) f2(2) k(1) _ k(2)] k(3) udp_fragment4_ttl [OF f1(1) l20] udp_fragment4_ttl [OF f2(1) l20] by simp
    ultimately show ?thesis by (simp add: udp_def)
  qed
qed

lemma IPv4FragmentUDP_received:
  assumes o: "ip_hdr_len orig = Some h" "be16 orig 2 = Some tot" "h \<le> tot" "20 \<le> h" "tot \<le> length orig"
  shows "\<exists>r. IPv4FragmentUDP orig sp = Some r \<and>
    (case r of None \<Rightarrow> length orig < 28 \<or> drop_bit 4 (orig ! 0) \<noteq> 4 \<or> tot < h + 8 \<or> tot \<le> h + udp_cut sp (tot - h)
     | Some fs \<Rightarrow> received frag4_view fs = Some (key4 orig, drop h (take tot orig)))"
proof -
  note frags = IPv4FragmentUDP_frags [OF o, of sp]
  then show ?thesis by (elim exE conjE, intro exI conjI) (assumption, auto split: option.splits dest: frag_pair_received)
qed

lemma fragment6_ttl: "fragment6 p nh fl ident data = Some q \<Longrightarrow> 40 \<le> length p \<Longrightarrow> q ! 7 = p ! 7"
  by (auto simp: fragment6_def nth_patch nth_append bind_eq_Some_conv)

lemma IPv6FragmentUDP_frags:
  assumes o: "be16 orig 4 = Some n" "40 + n \<le> length orig" "n \<le> 65527"
  shows "\<exists>r. IPv6FragmentUDP ident orig sp = Some r \<and>
    (case r of None \<Rightarrow> length orig < 48 \<or> drop_bit 4 (orig ! 0) \<noteq> 6 \<or> orig ! 6 \<noteq> 17 \<or> n < 8 \<or> n \<le> udp_cut sp n | Some fs \<Rightarrow> frag_pair frag6_view 7 orig (key6_of orig 17 ident) (take n (drop 40 orig)) fs)"
proof -
  define udp where "udp = take n (drop 40 orig)"
  have u: "sub_bytes orig 40 (40 + n) = Some udp" "length udp = n" using o by (simp_all add: udp_def)
  define k where "k = udp_cut sp n"
  show ?thesis
  proof (cases "length orig < 48 \<or> drop_bit 4 (orig ! 0) \<noteq> 6 \<or> orig ! 6 \<noteq> 17 \<or> n < 8 \<or> k \<ge> n")
    case True
    then have "IPv6FragmentUDP ident orig sp = Some None" using o u unfolding IPv6FragmentUDP_def Let_def k_def by auto
    then show ?thesis using True by (simp add: k_def)
  next
    case False
    then have k: "0 < k" "k < length udp" "k mod 8 = 0" using udp_cut_ok [of n sp] u by (auto simp: k_def)
    then have m: "k div 8 * 8 mod 65536 = k div 8 * 8" using u(2) o(3) by simp
    have l40: "40 \<le> length orig" using False by simp
    obtain f1 f2 where f: "fragment6 orig 17 1 ident (take k udp) = Some f1" "fragment6 orig 17 (k div 8 * 8) ident (drop k udp) = Some f2"
        "frag6_view f1 = Some (key6_of orig 17 ident, 0, True, take k udp)" "frag6_view f2 = Some (key6_of orig 17 ident, k, False, drop k udp)"
      using two_fragments6 [of orig udp k 17 ident False] False o u k by auto
    have "frag_pair frag6_view 7 orig (key6_of orig 17 ident) udp [f2, f1]"
      using frag_pairI [OF f(3,4) k(1) _ k(3)] k(2) fragment6_ttl [OF f(1) l40] fragment6_ttl [OF f(2) l40] by simp
    have "IPv6FragmentUDP ident orig sp = Some (Some [f2, f1])"
      using False o u f(1,2) m unfolding IPv6FragmentUDP_def Let_def k_def by simp
    then show ?thesis using \<open>frag_pair _ _ _ _ _ _\<close> by (simp add: udp_def)
  qed
qed

lemma IPv6FragmentUDP_received:
  assumes o: "be16 orig 4 = Some n" "40 + n \<le> length orig" "n \<le> 65527"
  shows "\<exists>r. IPv6FragmentUDP ident orig sp = Some r \<and>
    (case r of None \<Rightarrow> length orig < 48 \<or> drop_bit 4 (orig ! 0) \<noteq> 6 \<or> orig ! 6 \<noteq> 17 \<or> n < 8 \<or> n \<le> udp_cut sp n
     | Some fs \<Rightarrow> received frag6_view fs = Some (key6_of orig 17 ident, take n (drop 40 orig)))"
proof -
  note frags = IPv6FragmentUDP_frags [OF o, of ident sp]
  then show ?thesis by (elim exE conjE, intro exI conjI) (assumption, auto split: option.splits dest: frag_pair_received)
qed

end
