(* ===== verification/Tcp_Send.thy ===== *)
theory Tcp_Send
  imports Tcp_Oob Ip_Fragments
begin

text \<open>
  Choosing a strategy (the \<^verbatim>\<open>switch\<close> of \<^verbatim>\<open>dropAndInjectTCP\<close> and \<^verbatim>\<open>dropAndInjectTCPv6\<close>) and what all of them
  together guarantee: the receiver gets the stream the client sent, whichever strategy, order,
  split points and fakes the settings and the random source produce.
\<close>

definition send_strategy4 ::
    "FragmentationConfig \<Rightarrow> FakingConfig \<Rightarrow> bytes \<Rightarrow> draws \<Rightarrow> gostr \<Rightarrow> bytes \<Rightarrow> bytes list option" where
  "send_strategy4 fc fk fakeBlob dr strategy raw =
     (if strategy = str ''tcp'' then sendTCPFragments fc dr raw
      else if strategy = str ''ip'' then sendIPFragments fc dr raw
      else if strategy = str ''oob'' then sendOOBFragments fc fk dr raw
      else if strategy = str ''tls'' then sendTLSFragments fc dr raw
      else if strategy = str ''disorder'' then sendDisorderFragments fc fk dr raw
      else if strategy = str ''extsplit'' then sendExtSplitFragments fc dr raw
      else if strategy = str ''firstbyte'' then sendFirstByteDesync raw
      else if strategy = str ''combo'' then sendComboFragments fc fk fakeBlob dr raw
      else if strategy = str ''hybrid'' then sendHybridFragments fc fk fakeBlob dr raw
      else if strategy = str ''none'' then Some [raw]
      else sendComboFragments fc fk fakeBlob dr raw)"

definition send_strategy6 ::
    "FragmentationConfig \<Rightarrow> FakingConfig \<Rightarrow> bytes \<Rightarrow> draws \<Rightarrow> 32 word \<Rightarrow> gostr \<Rightarrow> bytes \<Rightarrow> bytes list option" where
  "send_strategy6 fc fk fakeBlob dr ident strategy raw =
     (if strategy = str ''tcp'' then sendTCPSegmentsv6 fc dr raw
      else if strategy = str ''ip'' then sendIPFragmentsv6 fc dr ident raw
      else if strategy = str ''oob'' then sendOOBFragmentsV6 fc fk dr raw
      else if strategy = str ''tls'' then sendTLSFragmentsV6 fc dr raw
      else if strategy = str ''disorder'' then sendDisorderFragmentsV6 fc fk dr raw
      else if strategy = str ''extsplit'' then sendExtSplitFragmentsV6 fc dr raw
      else if strategy = str ''firstbyte'' then sendFirstByteDesyncV6 raw
      else if strategy = str ''combo'' then sendComboFragmentsV6 fc fk fakeBlob dr raw
      else if strategy = str ''hybrid'' then sendHybridFragmentsV6 fc fk fakeBlob dr raw
      else if strategy = str ''none'' then Some [raw]
      else sendComboFragmentsV6 fc fk fakeBlob dr raw)"

text \<open>
  Where the overlap bytes do no harm: there are none, or they go in front of the stream
  (strategy \<^verbatim>\<open>combo\<close>) and fit the packet. Strategy \<^verbatim>\<open>disorder\<close> (and \<^verbatim>\<open>hybrid\<close>, which may choose it) puts them
  over bytes of the stream itself.
\<close>

definition overlap_harmless :: "gostr \<Rightarrow> FragmentationConfig \<Rightarrow> nat \<Rightarrow> bool" where
  "overlap_harmless strategy fc n \<longleftrightarrow> SeqOverlapLength fc \<le> 0 \<or> SeqOverlapBytes fc = [] \<or>
     strategy \<noteq> str ''disorder'' \<and> strategy \<noteq> str ''hybrid'' \<and> n + nat (SeqOverlapLength fc) \<le> 65535"

lemma overlap_harmlessD:
  assumes "overlap_harmless strategy fc (h + d + n)"
  shows "strategy = str ''disorder'' \<or> strategy = str ''hybrid'' \<Longrightarrow> SeqOverlapLength fc \<le> 0 \<or> SeqOverlapBytes fc = []"
    and "0 < SeqOverlapLength fc \<longrightarrow> SeqOverlapBytes fc \<noteq> [] \<longrightarrow> h + d + nat (SeqOverlapLength fc) + n \<le> 65535"
  using assms by (auto simp: overlap_harmless_def)

text \<open>The packets of the examples below: a request of 20 bytes from a client to port 443.\<close>

definition request :: bytes where
  "request = [71, 69, 84, 32, 47, 32, 72, 84, 84, 80, 47, 49, 46, 49, 13, 10, 13, 10, 45, 45]"

definition request4 :: bytes where
  "request4 = [69, 0, 0, 60, 0, 1, 64, 0, 64, 6, 38, 185, 10, 0, 0, 1, 10, 0, 0, 2, 192, 0, 1, 187, 0, 0, 0, 100, 0, 0, 0, 1,
     80, 24, 1, 0, 204, 199, 0, 0] @ request"

definition request6 :: bytes where
  "request6 = [96, 0, 0, 0, 0, 40, 6, 64, 0, 0, 0, 0, 0, 0, 0, 0, 0, 0, 0, 0, 0, 0, 0, 1, 0, 0, 0, 0, 0, 0, 0, 0, 0, 0, 0, 0, 0, 0, 0, 2, 192, 0, 1, 187, 0, 0, 0, 100, 0, 0, 0, 1,
     80, 24, 1, 0, 224, 199, 0, 0] @ request"

definition plain_frag :: FragmentationConfig where
  "plain_frag = \<lparr>Strategy = str ''combo'', ReverseOrder = True, StrategyPool = [], TLSRecordPosition = 1, TLSRecordPositionMax = 0,
     MiddleSNI = True, SNIPosition = 1, SNIPositionMax = 0, OOBPosition = 1, OOBPositionMax = 0, OOBChar = 0,
     SeqOverlapBytes = [22, 3], SeqOverlapLength = 4,
     Combo = \<lparr>FirstByteSplit = True, ExtensionSplit = True, ComboShuffleMode = str ''full'', DecoyEnabled = True,
       ComboFakePerSegment = True, ComboFakePerSegCount = 1, ComboFakePerSegCountMax = 2\<rparr>,
     Disorder = \<lparr>DisorderShuffleMode = str ''full'', MinJitterUs = 0, MaxJitterUs = 0, DisorderFakePerSegment = False,
       DisorderFakePerSegCount = 0, DisorderFakePerSegCountMax = 0\<rparr>\<rparr>"

definition some_draws :: draws where
  "some_draws = \<lparr>int_width = 64, draw_shuffle = (\<lambda>i. 5), draw_count = 3, draw_position = 2, draw_strategy = 0\<rparr>"

lemma request4_good: "good4 20 20 100 request 64 request4"
  unfolding good4_def raw4_def
  by (simp add: request4_def request_def ip_hdr_len_eq tcp_hdr_len_eq tcp4_valid_def inet_ok_def pseudo4_def put16_def be32_def be16_def)

lemma request6_good: "good6 20 100 request 64 request6"
  unfolding good6_def raw6_def
  by (simp add: request6_def request_def tcp_hdr_len_eq tcp6_valid_def inet_ok_def pseudo6_def put16_def put32_def be32_def be16_def)

subsection \<open>The stream arrives\<close>

lemma strategy4_reaches:
  assumes p: "good4 h d s data t p" "length data \<noteq> 1" and st: "strategy \<noteq> str ''ip''"
    and t: "dynamicTTL p False (FakeTTL fk) = Some t'" "unat t' \<le> hops" "unat (oob_ttl (FakeTTL fk)) \<le> hops" "hops < unat t"
    and o: "overlap_harmless strategy fc (h + d + length data)"
  shows "\<exists>sent. send_strategy4 fc fk fakeBlob dr strategy p = Some sent \<and> reaches tcp4_view (\<lambda>q. q ! 8) hops s data sent"
  using v4.tcp_reaches [OF p(1) t(4) p(2), of fc dr] v4oob.oob_reaches [OF p(1) t(3,4), of fc dr] v4.tls_reaches [OF p(1) t(4), of fc dr]
    v4.disorder_reaches [OF p(1) t(1,2,4) overlap_harmlessD(1) [OF o], of dr] v4.extsplit_reaches [OF p(1) t(4), of fc dr]
    v4.firstbyte_reaches [OF p(1) t(4)] v4.combo_reaches [OF p(1) t(1,2,4) overlap_harmlessD(2) [OF o], of fakeBlob dr]
    v4.hybrid_reaches [OF p(1) t(1,2,4) overlap_harmlessD(1) [OF o], of fakeBlob dr] v4.whole_reaches [OF p(1) t(4)] st
  unfolding send_strategy4_def sendTCPFragments_def sendOOBFragments_def sendTLSFragments_def sendDisorderFragments_def
    sendExtSplitFragments_def sendFirstByteDesync_def sendComboFragments_def sendHybridFragments_def
  by simp



lemma strategy6_reaches:
  assumes p: "good6 d s data t p" "length data \<noteq> 1" and st: "strategy \<noteq> str ''ip''"
    and t: "dynamicTTL p True (FakeTTL fk) = Some t'" "unat t' \<le> hops" "unat (oob_ttl (FakeTTL fk)) \<le> hops" "hops < unat t"
    and o: "overlap_harmless strategy fc (40 + d + length data)"
  shows "\<exists>sent. send_strategy6 fc fk fakeBlob dr ident strategy p = Some sent \<and> reaches tcp6_view (\<lambda>q. q ! 7) hops s data sent"
proof -
  have g: "40 = (40 :: nat) \<and> good6 d s data t p" using p(1) by simp
  have "60 \<le> length p" using p(1) by (auto simp: good6_def raw6_def)
  then show ?thesis
    using v6.tcp_reaches [OF g t(4) p(2), of fc dr] v6oob.oob_reaches [OF g t(3,4), of fc dr] v6.tls_reaches [OF g t(4), of fc dr]
      v6.disorder_reaches [OF g t(1,2,4) overlap_harmlessD(1) [OF o], of dr] v6.extsplit_reaches [OF g t(4), of fc dr]
      v6.firstbyte_reaches [OF g t(4)] v6.combo_reaches [OF g t(1,2,4) overlap_harmlessD(2) [OF o], of fakeBlob dr]
      v6.hybrid_reaches [OF g t(1,2,4) overlap_harmlessD(1) [OF o], of fakeBlob dr] v6.whole_reaches [OF g t(4)] st
    unfolding send_strategy6_def sendTCPSegmentsv6_def sendOOBFragmentsV6_def sendTLSFragmentsV6_def sendDisorderFragmentsV6_def
      sendExtSplitFragmentsV6_def sendFirstByteDesyncV6_def sendComboFragmentsV6_def sendHybridFragmentsV6_def
    by simp
qed



lemma cut_first4_short:
  assumes p: "ip_hdr_len p = Some h" "20 \<le> h" "tcp_hdr_len p h = Some d" "n < h + d" "h + 20 \<le> n + 1" "n \<le> length p" "length p \<le> 65535"
  shows "\<exists>q. cut_first4 p h n = Some q \<and> tcp4_view q = None"
proof -
  define f0 where "f0 = patch (take n p) 2 (put16 n)"
  have l: "length f0 = n" using p by (simp add: f0_def)
  have f0: "f0 ! 0 = p ! 0" "f0 ! (h + 12) = p ! (h + 12)" "be16 f0 2 = Some n" using p l by (simp_all add: f0_def nth_patch be16_patch_same)
  have "ip_hdr_len f0 = Some h" using p l f0(1) by (auto simp: ip_hdr_len_eq)
  from fix_ip_header_eq [OF this p(2)] obtain c where c: "fix_ip_header f0 h = Some (patch f0 10 (put16 c))" using p l by auto
  define f1 where "f1 = patch f0 10 (put16 c)"
  have l1: "length f1 = n" using p l by (simp add: f1_def)
  have f1: "f1 ! 0 = p ! 0" "f1 ! (h + 12) = p ! (h + 12)" "be16 f1 2 = Some n" using p l f0 by (simp_all add: f1_def nth_patch be16_patch)
  have h1: "ip_hdr_len f1 = Some h" using p l1 f1(1) by (auto simp: ip_hdr_len_eq)
  from FixTCPChecksum_eq [OF this p(2) f1(3)] obtain e where e: "FixTCPChecksum f1 = Some (patch f1 (h + 16) (put16 e))" using p l1 by auto
  let ?q = "patch f1 (h + 16) (put16 e)"
  have "be16 ?q 2 = Some n" "?q ! 0 = p ! 0" "?q ! (h + 12) = p ! (h + 12)" "length ?q = n"
    using p l1 f1 by (simp_all add: nth_patch be16_patch)
  then have "be16 ?q 2 = Some n" "ip_hdr_len ?q = Some h" "tcp_hdr_len ?q h = Some d"
    using p by (auto simp: ip_hdr_len_eq tcp_hdr_len_eq)
  then have "tcp4_view ?q = None" using p(4) by (auto simp: tcp4_view_def bind_eq_None_conv)
  moreover have "cut_first4 p h n = Some ?q" using p c e by (simp add: cut_first4_def f0_def [symmetric] f1_def [symmetric])
  ultimately show ?thesis by blast
qed

lemma sni_split_one: "sni_split [b] = Some (- 1)"
proof -
  obtain s e ok where l: "LocateServerName [b] = Some (s, e, ok)" using LocateServerName_ex by blast
  have "ok \<Longrightarrow> e \<le> 1"
    using l LocateServerNameInRecord_found [of "[b]"] ScanServerName_found [of "[b]"]
    by (auto simp: LocateServerName_def bind_eq_Some_conv split: if_splits)
  then show ?thesis by (auto simp: sni_split_def l)
qed

text \<open>
  A payload of one byte has no place to cut; strategy \<^verbatim>\<open>tcp\<close> then cuts at -1, inside the TCP header: the
  first packet is one no receiver accepts, and the second starts one sequence number early with the last byte of the header.
\<close>

theorem one_byte_split:
  assumes p: "good4 h d s [b] t p"
  shows "\<exists>q1 q2. sendTCPFragments fc dr p = Some (SendTwoSegments q1 q2 (ReverseOrder fc)) \<and>
    tcp4_view q1 = None \<and> tcp4_view q2 = Some (s - 1, [p ! (h + d - 1), b])"
proof -
  have r: "ip_hdr_len p = Some h" "20 \<le> h" "tcp_hdr_len p h = Some d" "20 \<le> d" "length p = h + d + 1" "length p \<le> 65535"
      "drop (h + d) p = [b]" using p by (auto simp: good4_def raw4_def)
  define n where "n = h + d - 1"
  have n: "h + d = n + 1" using r by (simp add: n_def)
  obtain q1 where q1: "cut_first4 p h n = Some q1" "tcp4_view q1 = None" using cut_first4_short [OF r(1,2,3), of n] r n by auto
  have dr: "drop n p = [p ! n, b]" using r(5,7) n Cons_nth_drop_Suc [of n p] by simp
  obtain q2 where q2: "cut_next4 p h (h + d) (drop n p) (- 1) 1 = Some q2" "good4 h d (s + - 1) (drop n p) t q2"
    using cut_next4_good [OF p, of "drop n p" "- 1" 1] ip_hdr_len_le [OF r(1)] tcp_hdr_len_le [OF r(3)] dr by auto
  have sp: "tcp_split_points fc dr [b] 1 = Some (1, - 1, False, False)"
    by (simp add: tcp_split_points_def sni_split_one Let_def)
  have "sendTCPFragments fc dr p = Some (SendTwoSegments q1 q2 (ReverseOrder fc))"
    using r q1(1) q2(1) sp n by (simp add: sendTCPFragments_def send_tcp_def fam4_def nat_diff_distrib)
  then show ?thesis using q1(2) good4_view [OF q2(2)] dr by (auto simp: n_def)
qed

definition one_byte4 :: bytes where
  "one_byte4 = [69, 0, 0, 41, 0, 1, 64, 0, 64, 6, 38, 204, 10, 0, 0, 1, 10, 0, 0, 2, 192, 0, 1, 187, 0, 0, 0, 100, 0, 0, 0, 1,
     80, 24, 1, 0, 145, 168, 0, 0, 71]"

theorem one_byte_split_witness:
  "\<exists>q1 q2. sendTCPFragments plain_frag some_draws one_byte4 = Some [q2, q1] \<and> tcp4_view q1 = None \<and> tcp4_view q2 = Some (99, [0, 71])"
proof -
  have "good4 20 20 100 [71] 64 one_byte4"
    unfolding good4_def raw4_def
    by (simp add: one_byte4_def ip_hdr_len_eq tcp_hdr_len_eq tcp4_valid_def inet_ok_def pseudo4_def put16_def be32_def be16_def)
  moreover have "one_byte4 ! 39 = 0" by (simp add: one_byte4_def)
  ultimately show ?thesis using one_byte_split [of 20 20 100 71 64 one_byte4 plain_frag some_draws]
    by (simp add: SendTwoSegments_def plain_frag_def)
qed

subsection \<open>Fragments at the IP layer\<close>

text \<open>
  C9. Strategy \<^verbatim>\<open>ip\<close>: an intact, unfragmented TCP datagram over IPv4 is put together again by a receiver of the
  fragments, in either order, with the identification, protocol and addresses of the original; over IPv6 the same, or the packet is sent whole.
\<close>

theorem tcp_datagram_reassembled:
  assumes "good4 h d4 s4 data4 t4 p4" "drop_bit 4 (p4 ! 0) = (4 :: byte)" "be16 p4 6 = Some fl" "fl mod 8192 = 0" "even (fl div 8192)"
    and "good6 d6 s6 data6 t6 p6"
  shows "\<exists>sent4 sent6. send_strategy4 fc fk fakeBlob dr (str ''ip'') p4 = Some sent4 \<and>
    received frag4_view sent4 = Some (key4 p4, drop h p4) \<and>
    send_strategy6 fc fk fakeBlob dr ident (str ''ip'') p6 = Some sent6 \<and>
    (sent6 = [p6] \<or> received frag6_view sent6 = Some (key6_of p6 6 ident, drop 40 p6))"
  using sendIPFragments_received [OF assms(1-5), of fc dr] sendIPFragmentsv6_received [OF assms(6), of fc dr ident]
  by (auto simp: send_strategy4_def send_strategy6_def str_def)

theorem tcp_datagram_reassembled_witness:
  "\<exists>sent4 sent6. send_strategy4 plain_frag \<lparr>FakeTTL = 5, FakeStrategy = []\<rparr> [] some_draws (str ''ip'') request4 = Some sent4 \<and>
    received frag4_view sent4 = Some (key4 request4, drop 20 request4) \<and>
    send_strategy6 plain_frag \<lparr>FakeTTL = 5, FakeStrategy = []\<rparr> [] some_draws 7 (str ''ip'') request6 = Some sent6 \<and>
    (sent6 = [request6] \<or> received frag6_view sent6 = Some (key6_of request6 6 7, drop 40 request6))"
proof -
  have "drop_bit 4 (request4 ! 0) = (4 :: byte)" "be16 request4 6 = Some 16384"
    by (simp_all add: request4_def be16_def)
  then show ?thesis using tcp_datagram_reassembled [OF request4_good _ _ _ _ request6_good, of 16384] by simp
qed

text \<open>
  The UDP fragments (QUIC and DNS queries): a datagram of the right version whose payload
  reaches past the cut is split, and a receiver of the fragments puts the same datagram together again; there is no panic on
  a packet whose length field covers its header.
\<close>

theorem udp_datagram_reassembled:
  assumes "ip_hdr_len p4 = Some h" "be16 p4 2 = Some tot" "h \<le> tot" "20 \<le> h" "tot \<le> length p4"
    and "be16 p6 4 = Some n" "40 + n \<le> length p6" "n \<le> 65527"
  shows "\<exists>r4 r6. IPv4FragmentUDP p4 split4 = Some r4 \<and> IPv6FragmentUDP ident p6 split6 = Some r6 \<and>
    (case r4 of
       None \<Rightarrow> length p4 < 28 \<or> drop_bit 4 (p4 ! 0) \<noteq> 4 \<or> tot < h + 8 \<or> tot \<le> h + udp_cut split4 (tot - h)
     | Some fs \<Rightarrow> received frag4_view fs = Some (key4 p4, drop h (take tot p4))) \<and>
    (case r6 of
       None \<Rightarrow> length p6 < 48 \<or> drop_bit 4 (p6 ! 0) \<noteq> 6 \<or> p6 ! 6 \<noteq> 17 \<or> n < 8 \<or> n \<le> udp_cut split6 n
     | Some fs \<Rightarrow> received frag6_view fs = Some (key6_of p6 17 ident, take n (drop 40 p6)))"
  using IPv4FragmentUDP_received [OF assms(1-5), of split4] IPv6FragmentUDP_received [OF assms(6-8), of ident split6] by metis

definition quic4 :: bytes where
  "quic4 = [69, 0, 0, 60, 0, 1, 64, 0, 64, 17, 0, 0, 10, 0, 0, 1, 10, 0, 0, 2, 192, 0, 1, 187, 0, 40, 0, 0] @ map word_of_nat [1..<33]"

definition quic6 :: bytes where
  "quic6 = [96, 0, 0, 0, 0, 40, 17, 64] @ replicate 32 1 @ [192, 0, 1, 187, 0, 40, 0, 0] @ map word_of_nat [1..<33]"

theorem udp_datagram_reassembled_witness:
  "(\<exists>fs. IPv4FragmentUDP quic4 12 = Some (Some fs) \<and> received frag4_view fs = Some (key4 quic4, drop 20 quic4)) \<and>
   (\<exists>fs. IPv6FragmentUDP 7 quic6 12 = Some (Some fs) \<and> received frag6_view fs = Some (key6_of quic6 17 7, drop 40 quic6))"
proof -
  have "ip_hdr_len quic4 = Some 20" "be16 quic4 2 = Some 60" "length quic4 = 60" "be16 quic6 4 = Some 40" "length quic6 = 80"
    by (simp_all add: quic4_def quic6_def ip_hdr_len_eq be16_def)
  moreover have "udp_cut 12 40 = 16" "drop_bit 4 (quic4 ! 0) = 4" "drop_bit 4 (quic6 ! 0) = 6" "quic6 ! 6 = 17"
    by (simp_all add: udp_cut_def quic4_def quic6_def)
  ultimately show ?thesis using udp_datagram_reassembled [of quic4 20 60 quic6 40 12 7 12] by (auto split: option.splits)
qed

text \<open>
  \<^verbatim>\<open>IPv6FragmentPacket\<close> itself aligns a position only inside the payload: one past it is moved to eight
  bytes before the end, wherever that is, and the offset of the second fragment is then wrong. The callers align first.
\<close>

definition short6 :: bytes where
  "short6 = [96, 0, 0, 0, 0, 28, 17, 64] @ replicate 32 1 @ [192, 0, 1, 187, 0, 28, 0, 0] @ map word_of_nat [1..<21]"

theorem unaligned_fragment_lost:
  "\<exists>f1 f2. IPv6FragmentPacket 7 short6 27 = Some (Some [f1, f2]) \<and> received frag6_view [f1, f2] = None"
proof -
  define pl where "pl = drop 40 short6"
  have l: "length short6 = 68" "length pl = 28" by (simp_all add: short6_def pl_def)
  obtain f1 where f1: "fragment6 short6 17 1 7 (take 20 pl) = Some f1" "frag6_view f1 = Some (key6_of short6 17 7, 0, True, take 20 pl)"
    using fragment6_view [of short6 "take 20 pl" 1 17 7] l by (auto simp: key6_of_def)
  obtain f2 where f2: "fragment6 short6 17 16 7 (drop 20 pl) = Some f2" "frag6_view f2 = Some (key6_of short6 17 7, 16, False, drop 20 pl)"
    using fragment6_view [of short6 "drop 20 pl" 16 17 7] l by (auto simp: key6_of_def)
  have "drop_bit 4 (short6 ! 0) = (6 :: byte)" "short6 ! 6 = 17" "be16 short6 4 = Some 28" "align8 34 = 32"
    by (simp_all add: short6_def be16_def align8_def)
  then have "IPv6FragmentPacket 7 short6 27 = Some (Some [f1, f2])"
    using l f1(1) f2(1) by (simp add: IPv6FragmentPacket_def pl_def)
  moreover have "received frag6_view [f1, f2] = None"
    using f1(2) f2(2) l by (simp add: received_def map_filter_simps reassemble_def)
  ultimately show ?thesis by blast
qed

end
