(* ===== verification/Tcp_Options.thy ===== *)
theory Tcp_Options
  imports Tcp_View
begin

text \<open>
  Rewriting the options of a TCP header (\<^verbatim>\<open>src/sock/sack.go\<close>, \<^verbatim>\<open>tcp_md5.go\<close>, \<^verbatim>\<open>tcp_timestamp.go\<close> and the helpers of
  \<^verbatim>\<open>src/nfq/syn.go\<close>): dropping selective acknowledgements, appending an MD5 signature, turning the timestamp back, dropping all
  options. The specification reads the options of a header as a receiver does (\<open>options\<close>). What
  \<^verbatim>\<open>rand.Read\<close> stores is an argument. An outer \<^const>\<open>None\<close> is a panic.
\<close>

subsection \<open>The operations\<close>

text \<open>The loop of both functions that drop selective acknowledgements; \<open>e\<close> is where the options end.\<close>

function sack_loop :: "bytes \<Rightarrow> nat \<Rightarrow> nat \<Rightarrow> bytes \<Rightarrow> bytes option" where
  "sack_loop p i e newOpts =
     (if i < e then do {
        kind \<leftarrow> at p i;
        if kind = 0 then Some newOpts
        else if kind = 1 then sack_loop p (i + 1) e (newOpts @ [1])
        else if i + 1 \<ge> e then Some newOpts
        else do {
          len \<leftarrow> at_nat p (i + 1);
          if len < 2 \<or> i + len > e then Some newOpts
          else do {
            opt \<leftarrow> (if kind \<noteq> 4 \<and> kind \<noteq> 5 then sub_bytes p i (i + len) else Some []);
            sack_loop p (i + len) e (newOpts @ opt) } } }
      else Some newOpts)"
  by pat_completeness auto
termination by (relation "measure (\<lambda>(p, i, e, newOpts). e - i)") auto

declare sack_loop.simps [simp del]

definition align4 :: "nat \<Rightarrow> nat" where
  "align4 n = (n + 3) - (n + 3) mod 4"

text \<open>The header with new options, which are padded with zeros to a multiple of four, and the data.\<close>

definition rebuild_options :: "bytes \<Rightarrow> nat \<Rightarrow> nat \<Rightarrow> bytes \<Rightarrow> bytes option" where
  "rebuild_options p l3 tcpHdrLen newOpts = do {
     let newTCPHdrLen = align4 (20 + length newOpts);
     let newOpts = newOpts @ replicate (newTCPHdrLen - 20 - length newOpts) 0;
     hdr \<leftarrow> sub_bytes p 0 l3;
     fixed \<leftarrow> sub_bytes p l3 (l3 + 20);
     data \<leftarrow> sub_bytes p (l3 + tcpHdrLen) (length p);
     put_at (hdr @ fixed @ newOpts @ data) (l3 + 12) [word_of_nat (newTCPHdrLen div 4 * 16)] }"

definition StripSACKFromTCP :: "bytes \<Rightarrow> bytes option" where
  "StripSACKFromTCP packet = do {
     ipHdrLen \<leftarrow> ip_hdr_len packet;
     tcpHdrLen \<leftarrow> tcp_hdr_len packet ipHdrLen;
     if tcpHdrLen \<le> 20 then Some packet
     else do {
       newOpts \<leftarrow> sack_loop packet (ipHdrLen + 20) (ipHdrLen + tcpHdrLen) [];
       newPkt \<leftarrow> rebuild_options packet ipHdrLen tcpHdrLen newOpts;
       newPkt \<leftarrow> put_at newPkt 2 (put16 (length newPkt));
       newPkt \<leftarrow> fix_ip_header newPkt ipHdrLen;
       FixTCPChecksum newPkt } }"

definition StripSACKFromTCPv6 :: "bytes \<Rightarrow> bytes option" where
  "StripSACKFromTCPv6 packet =
     (if length packet < 60 \<or> drop_bit 4 (packet ! 0) \<noteq> 6 \<or> packet ! 6 \<noteq> 6 then Some packet
      else do {
        tcpHdrLen \<leftarrow> tcp_hdr_len packet 40;
        if tcpHdrLen \<le> 20 then Some packet
        else do {
          newOpts \<leftarrow> sack_loop packet 60 (40 + tcpHdrLen) [];
          newPkt \<leftarrow> rebuild_options packet 40 tcpHdrLen newOpts;
          newPkt \<leftarrow> put_at newPkt 4 (put16 (length newPkt - 40));
          FixTCPChecksumV6 newPkt } })"

text \<open>The options are changed in place; \<^const>\<open>None\<close> is \<^verbatim>\<open>false\<close>.\<close>

function prepareOptionsForAppend :: "bytes \<Rightarrow> nat \<Rightarrow> bytes option" where
  "prepareOptionsForAppend opts i =
     (if i < length opts then
        if opts ! i = 0 then Some (take i opts @ replicate (length opts - i) 1)
        else if opts ! i = 1 then prepareOptionsForAppend opts (i + 1)
        else if i + 1 \<ge> length opts \<or> opts ! (i + 1) < 2 \<or> i + unat (opts ! (i + 1)) > length opts then None
        else prepareOptionsForAppend opts (i + unat (opts ! (i + 1)))
      else Some opts)"
  by pat_completeness auto
termination
  by (relation "measure (\<lambda>(opts, i). length opts - i)") (auto simp: word_less_nat_alt not_less)

declare prepareOptionsForAppend.simps [simp del]

definition l3_len :: "bytes \<Rightarrow> bool \<Rightarrow> nat option" where
  "l3_len packet isIPv6 = (if isIPv6 then Some 40 else ip_hdr_len packet)"

definition seal :: "bytes \<Rightarrow> bool \<Rightarrow> nat \<Rightarrow> bytes option" where
  "seal p isIPv6 ipHdrLen =
     (if isIPv6 then do {
        p \<leftarrow> put_at p 4 (put16 (length p - 40));
        FixTCPChecksumV6 p }
      else do {
        p \<leftarrow> put_at p 2 (put16 (length p));
        p \<leftarrow> fix_ip_header p ipHdrLen;
        FixTCPChecksum p })"

definition md5Opt :: "bytes \<Rightarrow> bytes" where
  "md5Opt rnd = [1, 1, 19, 18] @ rnd"

text \<open>The options before the signature, made ready for it.\<close>

definition ready_options :: "nat \<Rightarrow> nat \<Rightarrow> bytes \<Rightarrow> bytes option" where
  "ready_options h d p =
     (if d > 20 then prepareOptionsForAppend (take (d - 20) (drop (h + 20) p)) 0 else Some [])"

definition with_md5 :: "bytes \<Rightarrow> bool \<Rightarrow> nat \<Rightarrow> nat \<Rightarrow> bytes \<Rightarrow> bytes \<Rightarrow> bytes option" where
  "with_md5 packet isIPv6 ipHdrLen tcpHdrLen opts rnd = do {
     let newPacket = take (ipHdrLen + 20) packet @ (opts @ md5Opt rnd) @ drop (ipHdrLen + tcpHdrLen) packet;
     newPacket \<leftarrow> put_at newPacket (ipHdrLen + 12)
       [word_of_nat ((tcpHdrLen + 20) div 4 * 16) OR (newPacket ! (ipHdrLen + 12) AND 0x0F)];
     seal newPacket isIPv6 ipHdrLen }"

definition AddTCPMD5Option :: "bytes \<Rightarrow> bool \<Rightarrow> bytes \<Rightarrow> (bytes \<times> bool) option" where
  "AddTCPMD5Option packet isIPv6 rnd = do {
     ipHdrLen \<leftarrow> l3_len packet isIPv6;
     if length packet < ipHdrLen + 20 then Some (packet, False)
     else do {
       tcpHdrLen \<leftarrow> tcp_hdr_len packet ipHdrLen;
       if tcpHdrLen < 20 \<or> length packet < ipHdrLen + tcpHdrLen then Some (packet, False)
       else if tcpHdrLen + 20 > 60 then Some (packet, False)
       else (case ready_options ipHdrLen tcpHdrLen packet of
          None \<Rightarrow> Some (packet, False)
        | Some opts \<Rightarrow> do {
            newPacket \<leftarrow> with_md5 packet isIPv6 ipHdrLen tcpHdrLen opts rnd;
            Some (newPacket, True) }) } }"

function timestamp_loop :: "bytes \<Rightarrow> 32 word \<Rightarrow> nat \<Rightarrow> nat \<Rightarrow> (bytes \<times> bool) option" where
  "timestamp_loop p decrease i optionsEnd =
     (if i < optionsEnd then do {
        kind \<leftarrow> at p i;
        if kind = 0 then Some (p, False)
        else if kind = 1 then timestamp_loop p decrease (i + 1) optionsEnd
        else if i + 1 \<ge> optionsEnd then Some (p, False)
        else do {
          len \<leftarrow> at_nat p (i + 1);
          if len < 2 \<or> i + len > optionsEnd then Some (p, False)
          else if kind = 8 \<and> len = 10 \<and> i + 10 \<le> optionsEnd then do {
            tsval \<leftarrow> be32 p (i + 2);
            p \<leftarrow> put_at p (i + 2) (put32 (unat (word_of_nat tsval - decrease)));
            Some (p, True) }
          else timestamp_loop p decrease (i + len) optionsEnd } }
      else Some (p, False))"
  by pat_completeness auto
termination by (relation "measure (\<lambda>(p, decrease, i, e). e - i)") auto

declare timestamp_loop.simps [simp del]

definition DecreaseTCPTimestamp :: "bytes \<Rightarrow> 32 word \<Rightarrow> bool \<Rightarrow> (bytes \<times> bool) option" where
  "DecreaseTCPTimestamp packet decrease isIPv6 = do {
     ipHdrLen \<leftarrow> l3_len packet isIPv6;
     if length packet < ipHdrLen + 20 then Some (packet, False)
     else do {
       tcpHdrLen \<leftarrow> tcp_hdr_len packet ipHdrLen;
       if tcpHdrLen < 20 \<or> length packet < ipHdrLen + tcpHdrLen then Some (packet, False)
       else timestamp_loop packet decrease (ipHdrLen + 20) (ipHdrLen + tcpHdrLen) } }"

definition withoutTCPOptions :: "bytes \<Rightarrow> nat \<Rightarrow> bytes option" where
  "withoutTCPOptions pkt l3Len =
     (if length pkt < l3Len + 20 then Some pkt
      else do {
        tcpHL \<leftarrow> tcp_hdr_len pkt l3Len;
        if tcpHL < 20 \<or> length pkt < l3Len + tcpHL then Some pkt
        else do {
          let out = take (l3Len + 20) pkt @ drop (l3Len + tcpHL) pkt;
          out \<leftarrow> put_at out (l3Len + 12) [0x50 OR (out ! (l3Len + 12) AND 0x0F)];
          seal out (drop_bit 4 (out ! 0) = 6) l3Len } })"

definition synWithoutPayload :: "bytes \<Rightarrow> byte \<Rightarrow> nat \<Rightarrow> nat \<Rightarrow> bytes option option" where
  "synWithoutPayload raw ver l3Len tcpHdrLen = do {
     let en = l3Len + tcpHdrLen;
     if tcpHdrLen < 20 \<or> length raw \<le> en then Some None
     else do {
       plain \<leftarrow> (if ver = 6 then hasPlainIPv6Header raw 6 else Some True);
       if \<not> plain then Some None
       else do {
         syn \<leftarrow> seal (take en raw) (ver \<noteq> 4) l3Len;
         Some (Some syn) } } }"

subsection \<open>Options as a receiver reads them\<close>

function options :: "bytes \<Rightarrow> (byte \<times> bytes) list" where
  "options [] = []"
| "options (k # r) =
     (if k = 0 then []
      else if k = 1 then (1, []) # options r
      else case r of [] \<Rightarrow> []
        | l # v \<Rightarrow> if unat l < 2 \<or> unat l - 2 > length v then []
            else (k, take (unat l - 2) v) # options (drop (unat l - 2) v))"
  by pat_completeness auto
termination by (relation "measure length") auto

declare options.simps(2) [simp del]

definition enc_opt :: "byte \<times> bytes \<Rightarrow> bytes" where
  "enc_opt o1 = (if fst o1 = 1 then [1] else fst o1 # word_of_nat (length (snd o1) + 2) # snd o1)"

definition enc_opts :: "(byte \<times> bytes) list \<Rightarrow> bytes" where
  "enc_opts os = concat (map enc_opt os)"

definition opt_ok :: "byte \<times> bytes \<Rightarrow> bool" where
  "opt_ok o1 \<longleftrightarrow> fst o1 \<noteq> 0 \<and> (fst o1 = 1 \<longrightarrow> snd o1 = []) \<and> length (snd o1) + 2 < 256"

lemma options_ok: "o1 \<in> set (options xs) \<Longrightarrow> opt_ok o1"
proof (induction xs rule: options.induct)
  case (2 k r)
  then show ?case
  proof (cases "k = 0 \<or> k = 1 \<or> r = []")
    case True
    then show ?thesis using 2 by (auto simp: options.simps(2) opt_ok_def split: if_splits)
  next
    case False
    then obtain l v where r: "r = l # v" by (cases r) auto
    have "unat l - 2 < 254" using unat_byte_less [of l] by linarith
    then show ?thesis using 2 False r by (auto simp: options.simps(2) opt_ok_def split: if_splits)
  qed
qed simp

lemma options_enc: "opt_ok o1 \<Longrightarrow> options (enc_opt o1 @ zs) = o1 # options zs"
proof -
  assume ok: "opt_ok o1"
  then have "unat (word_of_nat (length (snd o1) + 2) :: byte) = length (snd o1) + 2"
    by (intro byte_of_nat) (simp add: opt_ok_def)
  then show ?thesis using ok by (cases o1) (auto simp: enc_opt_def opt_ok_def options.simps(2) simp del: of_nat_add)
qed

lemma options_enc_opts: "\<forall>o1 \<in> set os. opt_ok o1 \<Longrightarrow> options (enc_opts os @ zs) = os @ options zs"
  by (induction os) (auto simp: enc_opts_def options_enc)

lemma options_zeros: "options (replicate n 0) = []"
  by (cases n) (auto simp: options.simps(2))

lemma enc_opts_append [simp]: "enc_opts (xs @ ys) = enc_opts xs @ enc_opts ys" "enc_opts [] = []"
    "enc_opts (x # ys) = enc_opt x @ enc_opts ys"
  by (auto simp: enc_opts_def)

lemma slice_Cons: "i < e \<Longrightarrow> e \<le> length p \<Longrightarrow> take (e - i) (drop i p) = p ! i # take (e - (i + 1)) (drop (i + 1) p)"
proof -
  assume "i < e" "e \<le> length p"
  then have "e - i = Suc (e - (i + 1))" "drop i p = p ! i # drop (i + 1) p" by (simp_all add: Cons_nth_drop_Suc)
  then show ?thesis by (metis take_Suc_Cons)
qed

lemma slice_take: "i + n \<le> e \<Longrightarrow> take n (take (e - i) (drop i p)) = take n (drop i p)"
  by (simp add: min_def)

lemma slice_drop: "drop n (take (e - i) (drop i p)) = take (e - (i + n)) (drop (i + n) p)"
  by (simp add: drop_take add.commute)

text \<open>An option that starts at \<open>i\<close>.\<close>

lemma options_step:
  assumes "i < e" "e \<le> length p" "p ! i \<noteq> 0" "p ! i \<noteq> 1" "i + 1 < e" "2 \<le> unat (p ! (i + 1))" "i + unat (p ! (i + 1)) \<le> e"
  shows "options (take (e - i) (drop i p)) =
    (p ! i, take (unat (p ! (i + 1)) - 2) (drop (i + 2) p)) #
    options (take (e - (i + unat (p ! (i + 1)))) (drop (i + unat (p ! (i + 1))) p))"
proof -
  let ?n = "unat (p ! (i + 1))"
  have "take (e - i) (drop i p) = p ! i # p ! (i + 1) # take (e - (i + 2)) (drop (i + 2) p)"
    using assms slice_Cons [of i e p] slice_Cons [of "i + 1" e p] by simp
  moreover have "length (take (e - (i + 2)) (drop (i + 2) p)) = e - (i + 2)" using assms by simp
  moreover have "take (?n - 2) (take (e - (i + 2)) (drop (i + 2) p)) = take (?n - 2) (drop (i + 2) p)"
    using assms by (simp add: min_def)
  moreover have "drop (?n - 2) (take (e - (i + 2)) (drop (i + 2) p)) = take (e - (i + ?n)) (drop (i + ?n) p)"
  proof -
    have "i + 2 + (?n - 2) = i + ?n" using assms by simp
    then show ?thesis by (simp only: slice_drop)
  qed
  ultimately show ?thesis using assms by (simp add: options.simps(2))
qed

lemma options_stop:
  assumes "i < e" "e \<le> length p" "p ! i \<noteq> 1"
    "p ! i = 0 \<or> e \<le> i + 1 \<or> unat (p ! (i + 1)) < 2 \<or> e < i + unat (p ! (i + 1))"
  shows "options (take (e - i) (drop i p)) = []"
proof (cases "p ! i = 0 \<or> e \<le> i + 1")
  case True
  then show ?thesis using assms slice_Cons [of i e p] by (auto simp: options.simps(2))
next
  case False
  then have "take (e - i) (drop i p) = p ! i # p ! (i + 1) # take (e - (i + 2)) (drop (i + 2) p)"
    using assms slice_Cons [of i e p] slice_Cons [of "i + 1" e p] by simp
  then show ?thesis using assms False by (auto simp: options.simps(2))
qed

lemma options_nop:
  "i < e \<Longrightarrow> e \<le> length p \<Longrightarrow> p ! i = 1 \<Longrightarrow>
   options (take (e - i) (drop i p)) = (1, []) # options (take (e - (i + 1)) (drop (i + 1) p))"
  using slice_Cons [of i e p] by (simp add: options.simps(2))

lemma enc_opt_at:
  assumes "e \<le> length p" "p ! i \<noteq> 1" "i + 1 < e" "2 \<le> unat (p ! (i + 1))" "i + unat (p ! (i + 1)) \<le> e"
  shows "take (unat (p ! (i + 1))) (drop i p) = enc_opt (p ! i, take (unat (p ! (i + 1)) - 2) (drop (i + 2) p))"
proof -
  define m where "m = unat (p ! (i + 1)) - 2"
  have m: "unat (p ! (i + 1)) = Suc (Suc m)" using assms(4) by (simp add: m_def)
  have "drop i p = p ! i # p ! (i + 1) # drop (i + 2) p"
    using assms Cons_nth_drop_Suc [of i p] Cons_nth_drop_Suc [of "i + 1" p] by simp
  moreover have l: "length (take m (drop (i + 2) p)) = m" using assms m by simp
  moreover have "word_of_nat (length (take m (drop (i + 2) p)) + 2) = p ! (i + 1)"
  proof -
    have "m + 2 = unat (p ! (i + 1))" using m by simp
    then show ?thesis unfolding l by simp
  qed
  ultimately show ?thesis using assms(2) m by (simp add: enc_opt_def del: length_take of_nat_add)
qed

lemma sack_loop_eq:
  assumes "e \<le> length p"
  shows "sack_loop p i e acc =
    Some (acc @ enc_opts (filter (\<lambda>x. fst x \<noteq> 4 \<and> fst x \<noteq> 5) (options (take (e - i) (drop i p)))))"
  using assms
proof (induction p i e acc rule: sack_loop.induct)
  case (1 p i e acc)
  let ?n = "unat (p ! (i + 1))"
  consider "e \<le> i" | "i < e" "p ! i = 1"
    | "i < e" "p ! i \<noteq> 1" "p ! i = 0 \<or> e \<le> i + 1 \<or> ?n < 2 \<or> e < i + ?n"
    | "i < e" "p ! i \<noteq> 1" "p ! i \<noteq> 0" "i + 1 < e" "2 \<le> ?n" "i + ?n \<le> e" by linarith
  then show ?case
  proof cases
    case 2
    then show ?thesis using 1 options_nop [of i e p] by (subst sack_loop.simps) (simp add: enc_opt_def)
  next
    case 3
    then show ?thesis using 1(3) options_stop [of i e p] by (subst sack_loop.simps) auto
  next
    case 4
    then have "i + ?n \<le> length p" using 1(3) by simp
    then show ?thesis using 1 4 options_step [of i e p] enc_opt_at [of e p i]
      by (cases "p ! i = 4 \<or> p ! i = 5") (auto simp: sack_loop.simps [of p i])
  qed (simp add: sack_loop.simps)
qed

lemma length_enc_filter: "length (enc_opts (filter P os)) \<le> length (enc_opts os)"
  by (induction os) auto

lemma length_enc_options: "length (enc_opts (options xs)) \<le> length xs"
proof (induction xs rule: options.induct)
  case (2 k r)
  show ?case
  proof (cases r)
    case Nil
    then show ?thesis by (simp add: options.simps(2) enc_opt_def)
  next
    case (Cons l v)
    then show ?thesis using 2 by (auto simp: options.simps(2) enc_opt_def)
  qed
qed simp

lemma align4_bounds: "n \<le> align4 n" "4 dvd align4 n" "n \<le> d \<Longrightarrow> 4 dvd d \<Longrightarrow> align4 n \<le> d"
proof -
  have d: "align4 n = (n + 3) div 4 * 4" unfolding align4_def by (metis minus_mod_eq_div_mult)
  show "n \<le> align4 n" "4 dvd align4 n" unfolding d by presburger+
  show "align4 n \<le> d" if "n \<le> d" "4 dvd d" unfolding d using that by presburger
qed

subsection \<open>New options in an intact segment\<close>

lemma data_offset: "n \<le> 60 \<Longrightarrow> 4 dvd n \<Longrightarrow> unat (drop_bit 4 (word_of_nat (n div 4 * 16) :: byte) * 4) = n"
proof -
  assume n: "n \<le> 60" "4 dvd n"
  have "unat (word_of_nat (n div 4 * 16) :: byte) = n div 4 * 16" using n by (intro byte_of_nat) simp
  then show ?thesis using n by (simp add: unat_high4 del: of_nat_mult)
qed

lemma data_offset_or:
  "n \<le> 60 \<Longrightarrow> 4 dvd n \<Longrightarrow> unat (drop_bit 4 ((word_of_nat (n div 4 * 16) :: byte) OR (b AND 0x0F)) * 4) = n"
proof -
  assume n: "n \<le> 60" "4 dvd n"
  have "drop_bit 4 (b AND 0x0F) = 0" for b :: byte
    by (rule bit_word_eqI) (auto simp: bit_drop_bit_eq bit_and_iff bit_numeral_word_iff)
  then show ?thesis using data_offset [OF n] by (simp add: drop_bit_or del: of_nat_mult)
qed

lemma splice4:
  assumes raw: "raw4 h d data t p" and d': "20 \<le> d'" "length opts = d' - 20" "h + d' + length data \<le> 65535"
    and b: "unat (drop_bit 4 b * 4) = d'"
  defines "q \<equiv> patch (take (h + 20) p @ opts @ data) (h + 12) [b]"
  shows "raw4 h d' data t q" "be32 q (h + 4) = be32 p (h + 4)" "drop (h + 20) q = opts @ data"
proof -
  have r: "ip_hdr_len p = Some h" "20 \<le> h" "h + 20 \<le> length p" "p ! 8 = t" using raw by (auto simp: raw4_def)
  define q0 where "q0 = take (h + 20) p @ opts @ data"
  have l: "length q0 = h + d' + length data" using r d' by (simp add: q0_def)
  have lq: "length q = h + d' + length data" using l d' by (simp add: q_def q0_def [symmetric])
  have n: "q ! i = p ! i" if "i < h + 20" "i \<noteq> h + 12" for i
  proof -
    have "q ! i = q0 ! i" unfolding q_def q0_def [symmetric] using that l d' by (intro nth_patch) auto
    then show ?thesis using that r by (simp add: q0_def nth_append)
  qed
  show dr: "drop (h + 20) q = opts @ data"
    using l d' r by (simp add: q_def q0_def [symmetric] drop_patch) (simp add: q0_def)
  have "q ! (h + 12) = b" using l d' nth_patch_in [of "h + 12" "[b]" q0 "h + 12"] by (simp add: q_def q0_def [symmetric])
  then have "tcp_hdr_len q h = Some d'" using lq d' b by (simp add: tcp_hdr_len_def)
  moreover have "ip_hdr_len q = Some h" using r lq n [of 0] by (simp add: ip_hdr_len_eq) (use d' in auto)
  moreover have "drop (h + d') q = data"
  proof -
    have "drop (h + d') q = drop (d' - 20) (drop (h + 20) q)" using d' by (simp add: add.commute)
    then show ?thesis using d' by (simp add: dr)
  qed
  moreover have "q ! 8 = t" using r n [of 8] by simp
  ultimately show "raw4 h d' data t q" using r d' lq by (simp add: raw4_def)
  show "be32 q (h + 4) = be32 p (h + 4)" using r d' lq by (simp add: be32_lt n)
qed

lemma splice6:
  assumes raw: "raw6 d data t p" and d': "20 \<le> d'" "length opts = d' - 20" "40 + d' + length data \<le> 65535"
    and b: "unat (drop_bit 4 b * 4) = d'"
  defines "q \<equiv> patch (take 60 p @ opts @ data) 52 [b]"
  shows "raw6 d' data t q" "be32 q 44 = be32 p 44" "drop 60 q = opts @ data"
proof -
  have r: "drop_bit 4 (p ! 0) = 6" "p ! 6 = 6" "60 \<le> length p" "p ! 7 = t" using raw by (auto simp: raw6_def)
  define q0 where "q0 = take 60 p @ opts @ data"
  have l: "length q0 = 40 + d' + length data" using r d' by (simp add: q0_def)
  have lq: "length q = 40 + d' + length data" using l d' by (simp add: q_def q0_def [symmetric])
  have n: "q ! i = p ! i" if "i < 60" "i \<noteq> 52" for i
  proof -
    have "q ! i = q0 ! i" unfolding q_def q0_def [symmetric] using that l d' by (intro nth_patch) auto
    then show ?thesis using that r by (simp add: q0_def nth_append)
  qed
  show dr: "drop 60 q = opts @ data"
    using l d' r by (simp add: q_def q0_def [symmetric] drop_patch) (simp add: q0_def)
  have "q ! 52 = b" using l d' nth_patch_in [of 52 "[b]" q0 52] by (simp add: q_def q0_def [symmetric])
  then have "tcp_hdr_len q 40 = Some d'" using lq d' b by (simp add: tcp_hdr_len_def)
  moreover have "drop (40 + d') q = data"
  proof -
    have "drop (40 + d') q = drop (d' - 20) (drop 60 q)" using d' by simp
    then show ?thesis using d' by (simp add: dr)
  qed
  ultimately show "raw6 d' data t q" using r d' lq n [of 0] n [of 6] n [of 7] by (simp add: raw6_def)
  show "be32 q 44 = be32 p 44" using r d' lq by (simp add: be32_lt n)
qed

lemma seal4:
  assumes raw: "raw4 h d data t p" and seq: "be32 p (h + 4) = Some (unat s)"
  shows "\<exists>q. seal p False h = Some q \<and> good4 h d s data t q \<and> drop (h + 20) q = drop (h + 20) p"
proof -
  have r: "ip_hdr_len p = Some h" "20 \<le> h" "h + 20 \<le> length p" "20 \<le> d" "length p \<le> 65535" using raw by (auto simp: raw4_def)
  define p1 where "p1 = patch p 2 (put16 (length p))"
  have raw1: "raw4 h d data t p1" unfolding p1_def using r by (intro raw4_patch [OF raw]) auto
  have l: "length p1 = length p" using r by (simp add: p1_def)
  have r1: "ip_hdr_len p1 = Some h" using raw1 by (simp add: raw4_def)
  obtain c where c: "fix_ip_header p1 h = Some (patch p1 10 (put16 c))"
    using fix_ip_header_eq [OF r1 r(2)] r l by auto
  define p2 where "p2 = patch p1 10 (put16 c)"
  have seq1: "be32 p1 (h + 4) = Some (unat s)" and len1: "be16 p1 2 = Some (length p1)"
    using r seq by (simp_all add: p1_def be32_patch be16_patch_same)
  from finish4 [OF raw1 seq1 len1] obtain q where q: "FixTCPChecksum p2 = Some q" "good4 h d s data t q"
    using c by (auto simp: p2_def)
  have "raw4 h d data t p2" unfolding p2_def using r by (intro raw4_patch [OF raw1]) auto
  then have r2: "ip_hdr_len p2 = Some h" "length p2 = length p" using r l by (auto simp: raw4_def p2_def)
  have "be16 p2 2 = Some (length p2)" using r l len1 by (simp add: p2_def be16_patch)
  then obtain c' where "q = patch p2 (h + 16) (put16 c')"
    using FixTCPChecksum_eq [OF r2(1) r(2), of "length p2"] q(1) r2 r by auto
  then have "drop (h + 20) q = drop (h + 20) p" using r r2 l by (simp add: p2_def p1_def drop_patch)
  then show ?thesis using q c r l by (simp add: seal_def p1_def [symmetric] p2_def [symmetric])
qed

lemma seal6:
  assumes raw: "raw6 d data t p" and seq: "be32 p 44 = Some (unat s)"
  shows "\<exists>q. seal p True l3 = Some q \<and> good6 d s data t q \<and> drop 60 q = drop 60 p"
proof -
  have r: "60 \<le> length p" "20 \<le> d" "length p \<le> 65535" using raw by (auto simp: raw6_def)
  define p1 where "p1 = patch p 4 (put16 (length p - 40))"
  have raw1: "raw6 d data t p1" unfolding p1_def using r by (intro raw6_patch [OF raw]) auto
  have l: "length p1 = length p" using r by (simp add: p1_def)
  have seq1: "be32 p1 44 = Some (unat s)" and len1: "be16 p1 4 = Some (length p1 - 40)"
    using r seq by (simp_all add: p1_def be32_patch be16_patch_same)
  from fix6 [OF raw1 len1 seq1] obtain q where q: "FixTCPChecksumV6 p1 = Some q" "good6 d s data t q" by blast
  obtain c where "q = patch p1 56 (put16 c)"
  proof -
    have "18 \<le> length p1 - 40" "40 + (length p1 - 40) \<le> length p1" using r l by linarith+
    from FixTCPChecksumV6_eq [OF len1 this] show thesis using q(1) that by auto
  qed
  then have "drop 60 q = drop 60 p" using r l by (simp add: p1_def drop_patch)
  then show ?thesis using q r by (simp add: seal_def p1_def [symmetric])
qed

text \<open>The options of the segment in a packet.\<close>

definition tcp_options :: "nat \<Rightarrow> nat \<Rightarrow> bytes \<Rightarrow> (byte \<times> bytes) list" where
  "tcp_options h d p = options (take (d - 20) (drop (h + 20) p))"

lemma rebuild_eq:
  fixes newOpts :: bytes
  assumes "h + 20 \<le> length p" "h + d \<le> length p" "20 \<le> d"
  defines "d' \<equiv> align4 (20 + length newOpts)"
  shows "rebuild_options p h d newOpts = Some (patch (take (h + 20) p @ (newOpts @ replicate (d' - 20 - length newOpts) 0) @ drop (h + d) p)
    (h + 12) [word_of_nat (d' div 4 * 16)])"
proof -
  have "take h p @ take 20 (drop h p) = take (h + 20) p" by (simp add: take_add)
  then have e: "take h p @ take 20 (drop h p) @ xs = take (h + 20) p @ xs" for xs by (metis append_assoc)
  show ?thesis using assms(1-3) by (simp add: rebuild_options_def Let_def d'_def e del: of_nat_mult)
qed

lemma tcp_hdr_len_bound: "tcp_hdr_len p h = Some d \<Longrightarrow> d \<le> 60 \<and> 4 dvd d"
proof -
  have "unat (p ! (h + 12)) div 16 \<le> 15" using unat_byte_less [of "p ! (h + 12)"] by linarith
  then show "tcp_hdr_len p h = Some d \<Longrightarrow> d \<le> 60 \<and> 4 dvd d" by (auto simp: tcp_hdr_len_eq)
qed

definition not_sack :: "byte \<times> bytes \<Rightarrow> bool" where
  "not_sack x \<longleftrightarrow> fst x \<noteq> 4 \<and> fst x \<noteq> 5"

text \<open>What the loop keeps, padded: it fits in the old header, and a receiver reads the kept options.\<close>

lemma kept_options:
  assumes "tcp_hdr_len p h = Some d" "20 \<le> d" "h + d \<le> length p"
  defines "os \<equiv> filter not_sack (tcp_options h d p)"
  defines "d' \<equiv> align4 (20 + length (enc_opts os))"
  defines "opts \<equiv> enc_opts os @ replicate (d' - 20 - length (enc_opts os)) 0"
  shows "sack_loop p (h + 20) (h + d) [] = Some (enc_opts os)" "20 \<le> d'" "d' \<le> d" "length opts = d' - 20"
    "unat (drop_bit 4 (word_of_nat (d' div 4 * 16) :: byte) * 4) = d'" "options opts = os"
proof -
  have d: "d \<le> 60" "4 dvd d" using tcp_hdr_len_bound [OF assms(1)] by auto
  show "sack_loop p (h + 20) (h + d) [] = Some (enc_opts os)"
    using assms(2,3) by (simp add: sack_loop_eq os_def tcp_options_def not_sack_def [abs_def])
  have "length (enc_opts os) \<le> d - 20"
    using length_enc_filter [of not_sack "tcp_options h d p"] length_enc_options [of "take (d - 20) (drop (h + 20) p)"] assms(3)
    by (simp add: os_def tcp_options_def)
  then have a: "20 + length (enc_opts os) \<le> d'" "4 dvd d'" "d' \<le> d"
    using align4_bounds [of "20 + length (enc_opts os)"] assms(2) d by (auto simp: d'_def)
  then show "20 \<le> d'" "d' \<le> d" "length opts = d' - 20" by (simp_all add: opts_def)
  show "unat (drop_bit 4 (word_of_nat (d' div 4 * 16) :: byte) * 4) = d'" using a d by (intro data_offset) auto
  have "\<forall>x \<in> set os. opt_ok x" using options_ok by (auto simp: os_def tcp_options_def)
  then show "options opts = os" by (simp add: opts_def options_enc_opts options_zeros)
qed

lemma strip4:
  assumes g: "good4 h d s data t p"
  shows "\<exists>q d'. StripSACKFromTCP p = Some q \<and> good4 h d' s data t q \<and> d' \<le> d \<and>
    tcp_options h d' q = filter not_sack (tcp_options h d p)"
proof (cases "d = 20")
  case True
  then have "StripSACKFromTCP p = Some p" "tcp_options h d p = []"
    using g by (auto simp: good4_def raw4_def StripSACKFromTCP_def tcp_options_def)
  then show ?thesis using g by auto
next
  case False
  have raw: "raw4 h d data t p" and r: "ip_hdr_len p = Some h" "tcp_hdr_len p h = Some d" "20 \<le> d" "h + d \<le> length p"
      "length p = h + d + length data" "length p \<le> 65535" "be32 p (h + 4) = Some (unat s)" "drop (h + d) p = data"
    using g by (auto simp: good4_def raw4_def)
  define os where "os = filter not_sack (tcp_options h d p)"
  define d' where "d' = align4 (20 + length (enc_opts os))"
  define opts where "opts = enc_opts os @ replicate (d' - 20 - length (enc_opts os)) 0"
  note k = kept_options [OF r(2,3,4), folded os_def, folded d'_def, folded opts_def]
  define q where "q = patch (take (h + 20) p @ opts @ data) (h + 12) [word_of_nat (d' div 4 * 16)]"
  have b: "h + d' + length data \<le> 65535" using k(3) r(5,6) by simp
  note sp = splice4 [OF raw k(2,4) b k(5), folded q_def]
  have "rebuild_options p h d (enc_opts os) = Some q"
    using rebuild_eq [of h p d "enc_opts os", folded d'_def, folded opts_def] r by (simp add: q_def)
  then have "StripSACKFromTCP p = seal q False h"
    using r False k(1) by (simp add: StripSACKFromTCP_def seal_def)
  moreover obtain q' where q': "seal q False h = Some q'" "good4 h d' s data t q'" "drop (h + 20) q' = drop (h + 20) q"
    using seal4 [OF sp(1)] sp(2) r(7) by auto
  moreover have "tcp_options h d' q' = os" using k(4,6) by (simp add: tcp_options_def q'(3) sp(3))
  ultimately show ?thesis using k(3) os_def by auto
qed

lemma strip6:
  assumes g: "good6 d s data t p"
  shows "\<exists>q d'. StripSACKFromTCPv6 p = Some q \<and> good6 d' s data t q \<and> d' \<le> d \<and>
    tcp_options 40 d' q = filter not_sack (tcp_options 40 d p)"
proof (cases "d = 20")
  case True
  then have "StripSACKFromTCPv6 p = Some p" "tcp_options 40 d p = []"
    using g by (auto simp: good6_def raw6_def StripSACKFromTCPv6_def tcp_options_def)
  then show ?thesis using g by auto
next
  case False
  have raw: "raw6 d data t p" and r: "drop_bit 4 (p ! 0) = 6" "p ! 6 = 6" "tcp_hdr_len p 40 = Some d" "20 \<le> d" "40 + d \<le> length p"
      "length p = 40 + d + length data" "length p \<le> 65535" "be32 p 44 = Some (unat s)" "drop (40 + d) p = data"
    using g by (auto simp: good6_def raw6_def)
  define os where "os = filter not_sack (tcp_options 40 d p)"
  define d' where "d' = align4 (20 + length (enc_opts os))"
  define opts where "opts = enc_opts os @ replicate (d' - 20 - length (enc_opts os)) 0"
  note k = kept_options [OF r(3,4,5), folded os_def, folded d'_def, folded opts_def]
  define q where "q = patch (take 60 p @ opts @ data) 52 [word_of_nat (d' div 4 * 16)]"
  have b: "40 + d' + length data \<le> 65535" using k(3) r(6,7) by simp
  note sp = splice6 [OF raw k(2,4) b k(5), folded q_def]
  have "rebuild_options p 40 d (enc_opts os) = Some q"
    using rebuild_eq [of 40 p d "enc_opts os", folded d'_def, folded opts_def] r by (simp add: q_def)
  then have "StripSACKFromTCPv6 p = seal q True 40"
    using r False k(1) by (simp add: StripSACKFromTCPv6_def seal_def)
  moreover obtain q' where q': "seal q True 40 = Some q'" "good6 d' s data t q'" "drop 60 q' = drop 60 q"
    using seal6 [OF sp(1)] sp(2) r(8) by metis
  moreover have "tcp_options 40 d' q' = os" using k(4,6) by (simp add: tcp_options_def q'(3) sp(3))
  ultimately show ?thesis using k(3) os_def by auto
qed

subsection \<open>Appending the signature\<close>

definition real_opts :: "(byte \<times> bytes) list \<Rightarrow> (byte \<times> bytes) list" where
  "real_opts os = filter (\<lambda>x. fst x \<noteq> 1) os"

lemma real_opts_simps [simp]: "real_opts [] = []" "real_opts ((1, []) # os) = real_opts os"
    "k \<noteq> 1 \<Longrightarrow> real_opts ((k, v) # os) = (k, v) # real_opts os"
  by (simp_all add: real_opts_def)

lemma options_nops: "real_opts (options (replicate n 1 @ zs)) = real_opts (options zs)"
  by (induction n) (auto simp: options.simps(2))

lemma drop_as_slice: "drop i p = take (length p - i) (drop i p)"
  by simp

lemma prepare_options:
  assumes "prepareOptionsForAppend opts i = Some r" "i \<le> length opts"
  shows "length r = length opts \<and> take i r = take i opts \<and>
    real_opts (options (drop i r @ zs)) = real_opts (options (drop i opts)) @ real_opts (options zs)"
  using assms
proof (induction opts i rule: prepareOptionsForAppend.induct)
  case (1 opts i)
  let ?n = "unat (opts ! (i + 1))"
  consider "i = length opts" | "i < length opts" "opts ! i = 1"
    | "i < length opts" "opts ! i = 0"
    | "i < length opts" "opts ! i \<noteq> 0" "opts ! i \<noteq> 1" "i + 1 < length opts" "2 \<le> ?n" "i + ?n \<le> length opts"
    using 1(3,4) by (subst (asm) prepareOptionsForAppend.simps) (fastforce simp: word_less_nat_alt split: if_splits)
  then show ?case
  proof cases
    case 1
    then show ?thesis using \<open>prepareOptionsForAppend opts i = Some r\<close> by (simp add: prepareOptionsForAppend.simps)
  next
    case 2
    then have "prepareOptionsForAppend opts (i + 1) = Some r"
      using 1(3) by (subst (asm) prepareOptionsForAppend.simps) simp
    then have ih: "length r = length opts" "take (i + 1) r = take (i + 1) opts"
        "real_opts (options (drop (i + 1) r @ zs)) = real_opts (options (drop (i + 1) opts)) @ real_opts (options zs)"
      using 1(1) 2 by auto
    have "r ! i = 1" "take i r = take i opts" using ih(1,2) 2
      by (metis nth_take less_add_one) (metis ih(2) take_take min.absorb1 le_add1)
    moreover have "drop i r = r ! i # drop (i + 1) r" "drop i opts = opts ! i # drop (i + 1) opts"
      using ih(1) 2(1) by (simp_all add: Cons_nth_drop_Suc)
    ultimately show ?thesis using ih 2 by (simp add: options.simps(2))
  next
    case 3
    then have r: "r = take i opts @ replicate (length opts - i) 1"
      using 1(3) by (subst (asm) prepareOptionsForAppend.simps) simp
    have "options (drop i opts) = []" using 3 Cons_nth_drop_Suc [of i opts] by (metis options.simps(2))
    then show ?thesis using r 3 options_nops [of "length opts - i" zs] by simp
  next
    case 4
    then have "prepareOptionsForAppend opts (i + ?n) = Some r"
      using 1(3) by (subst (asm) prepareOptionsForAppend.simps) (auto simp: word_less_nat_alt)
    then have ih: "length r = length opts" "take (i + ?n) r = take (i + ?n) opts"
        "real_opts (options (drop (i + ?n) r @ zs)) = real_opts (options (drop (i + ?n) opts)) @ real_opts (options zs)"
      using 1(2) 4 by (auto simp: word_less_nat_alt)
    have nth: "r ! j = opts ! j" if "j < i + ?n" for j using ih(2) that by (metis nth_take)
    have "take i r = take i opts" using ih(2) by (metis take_take min.absorb1 le_add1)
    moreover have "take (?n - 2) (drop (i + 2) (r @ zs)) = take (?n - 2) (drop (i + 2) opts)"
    proof -
      have "take (?n - 2) (drop (i + 2) xs) = drop (i + 2) (take (i + ?n) xs)" for xs :: bytes
        using 4(5) by (simp add: drop_take)
      then show ?thesis using ih(1,2) 4(6) by simp
    qed
    ultimately show ?thesis
      using ih 4 nth [of i] nth [of "i + 1"] options_step [of i "length opts" opts] options_step [of i "length (r @ zs)" "r @ zs"]
      by (simp add: nth_append)
  qed
qed

lemma md5_options: "length rnd = 16 \<Longrightarrow> real_opts (options (md5Opt rnd)) = [(19, rnd)]"
  by (simp add: md5Opt_def options.simps(2))

lemma ready_options:
  assumes "ready_options h d p = Some opts" "20 \<le> d" "h + d \<le> length p" "length rnd = 16"
  shows "length opts = d - 20 \<and> real_opts (options (opts @ md5Opt rnd)) = real_opts (tcp_options h d p) @ [(19, rnd)]"
proof (cases "d = 20")
  case True
  then show ?thesis using assms md5_options by (simp add: ready_options_def tcp_options_def)
next
  case False
  then have "prepareOptionsForAppend (take (d - 20) (drop (h + 20) p)) 0 = Some opts"
    using assms by (simp add: ready_options_def)
  from prepare_options [OF this, of "md5Opt rnd"] show ?thesis
    using assms md5_options by (simp add: tcp_options_def)
qed

lemma with_md5_eq:
  assumes "h + 20 \<le> length p"
  shows "with_md5 p v6 h d opts rnd = seal (patch (take (h + 20) p @ (opts @ md5Opt rnd) @ drop (h + d) p) (h + 12)
    [word_of_nat ((d + 20) div 4 * 16) OR (p ! (h + 12) AND 0x0F)]) v6 h"
proof -
  define q where "q = take (h + 20) p @ (opts @ md5Opt rnd) @ drop (h + d) p"
  have "q ! (h + 12) = p ! (h + 12)" "h + 13 \<le> length q" using assms by (simp_all add: q_def nth_append)
  then show ?thesis unfolding with_md5_def Let_def q_def [symmetric] by simp
qed

lemma md5_4:
  assumes raw: "raw4 h d data t p" and sq: "be32 p (h + 4) = Some (unat s)" and rnd: "length rnd = 16" and room: "length p + 20 \<le> 65535"
  shows "\<exists>q ok. AddTCPMD5Option p False rnd = Some (q, ok) \<and>
    (if ok then good4 h (d + 20) s data t q \<and>
       real_opts (tcp_options h (d + 20) q) = real_opts (tcp_options h d p) @ [(19, rnd)]
     else q = p \<and> 20 < d)"
proof -
  have r: "ip_hdr_len p = Some h" "tcp_hdr_len p h = Some d" "20 \<le> d" "h + d \<le> length p"
      "length p = h + d + length data" "be32 p (h + 4) = Some (unat s)" "drop (h + d) p = data" "20 \<le> h"
    using raw sq by (auto simp: raw4_def)
  show ?thesis
  proof (cases "40 < d \<or> ready_options h d p = None")
    case True
    moreover have "20 < d" using True r by (auto simp: ready_options_def split: if_splits)
    moreover have "AddTCPMD5Option p False rnd = Some (p, False)"
      using True r(1,2,3,4,5) by (cases "40 < d") (simp_all add: AddTCPMD5Option_def l3_len_def)
    ultimately show ?thesis by auto
  next
    case False
    then obtain opts where o: "ready_options h d p = Some opts" by auto
    note ro = ready_options [OF o r(3,4) rnd]
    define b where "b = (word_of_nat ((d + 20) div 4 * 16) :: byte) OR (p ! (h + 12) AND 0x0F)"
    have hb: "unat (drop_bit 4 b * 4) = d + 20"
      using tcp_hdr_len_bound [OF r(2)] False unfolding b_def by (intro data_offset_or) auto
    define q where "q = patch (take (h + 20) p @ (opts @ md5Opt rnd) @ data) (h + 12) [b]"
    have len: "length (opts @ md5Opt rnd) = d + 20 - 20" using ro rnd r(3) by (simp add: md5Opt_def)
    have b': "h + (d + 20) + length data \<le> 65535" using room r(5) by simp
    note sp = splice4 [OF raw _ len b' hb, folded q_def]
    obtain q' where q': "seal q False h = Some q'" "good4 h (d + 20) s data t q'" "drop (h + 20) q' = drop (h + 20) q"
      using seal4 [OF sp(1)] sp(2) r(6) by auto
    have "AddTCPMD5Option p False rnd = Some (q', True)"
    proof -
      have "with_md5 p False h d opts rnd = Some q'"
      proof -
        have "h + 20 \<le> length p" using r by simp
        from with_md5_eq [OF this] show ?thesis using q'(1) unfolding q_def b_def r(7) [symmetric] by (simp only:)
      qed
      then show ?thesis using r False o by (simp add: AddTCPMD5Option_def l3_len_def)
    qed
    moreover have "tcp_options h (d + 20) q' = options (opts @ md5Opt rnd)"
      using len by (simp add: tcp_options_def q'(3) sp(3))
    ultimately show ?thesis using q'(2) ro by auto
  qed
qed

lemma md5_6:
  assumes raw: "raw6 d data t p" and sq: "be32 p 44 = Some (unat s)" and rnd: "length rnd = 16" and room: "length p + 20 \<le> 65535"
  shows "\<exists>q ok. AddTCPMD5Option p True rnd = Some (q, ok) \<and>
    (if ok then good6 (d + 20) s data t q \<and>
       real_opts (tcp_options 40 (d + 20) q) = real_opts (tcp_options 40 d p) @ [(19, rnd)]
     else q = p \<and> 20 < d)"
proof -
  have r: "tcp_hdr_len p 40 = Some d" "20 \<le> d" "40 + d \<le> length p"
      "length p = 40 + d + length data" "be32 p 44 = Some (unat s)" "drop (40 + d) p = data"
    using raw sq by (auto simp: raw6_def)
  show ?thesis
  proof (cases "40 < d \<or> ready_options 40 d p = None")
    case True
    moreover have "20 < d" using True r by (auto simp: ready_options_def split: if_splits)
    moreover have "AddTCPMD5Option p True rnd = Some (p, False)"
      using True r(1,2,3,4) by (cases "40 < d") (simp_all add: AddTCPMD5Option_def l3_len_def)
    ultimately show ?thesis by auto
  next
    case False
    then obtain opts where o: "ready_options 40 d p = Some opts" by auto
    note ro = ready_options [OF o r(2,3) rnd]
    define b where "b = (word_of_nat ((d + 20) div 4 * 16) :: byte) OR (p ! 52 AND 0x0F)"
    have hb: "unat (drop_bit 4 b * 4) = d + 20"
      using tcp_hdr_len_bound [OF r(1)] False unfolding b_def by (intro data_offset_or) auto
    define q where "q = patch (take 60 p @ (opts @ md5Opt rnd) @ data) 52 [b]"
    have len: "length (opts @ md5Opt rnd) = d + 20 - 20" using ro rnd r(2) by (simp add: md5Opt_def)
    have b': "40 + (d + 20) + length data \<le> 65535" using room r(4) by simp
    note sp = splice6 [OF raw _ len b' hb, folded q_def]
    obtain q' where q': "seal q True 40 = Some q'" "good6 (d + 20) s data t q'" "drop 60 q' = drop 60 q"
      using seal6 [OF sp(1), of s 40] sp(2) r(5) by auto
    have "AddTCPMD5Option p True rnd = Some (q', True)"
    proof -
      have "with_md5 p True 40 d opts rnd = Some q'"
      proof -
        have "40 + 20 \<le> length p" using r by simp
        from with_md5_eq [OF this] show ?thesis using q'(1) unfolding q_def b_def r(6) [symmetric] by simp
      qed
      then show ?thesis using r False o by (simp add: AddTCPMD5Option_def l3_len_def)
    qed
    moreover have "tcp_options 40 (d + 20) q' = options (opts @ md5Opt rnd)"
      using len by (simp add: tcp_options_def q'(3) sp(3))
    ultimately show ?thesis using q'(2) ro by auto
  qed
qed

subsection \<open>Turning the timestamp back\<close>

fun turn_back :: "32 word \<Rightarrow> (byte \<times> bytes) list \<Rightarrow> (byte \<times> bytes) list" where
  "turn_back dec [] = []"
| "turn_back dec ((k, v) # os) =
     (if k = 8 \<and> length v = 8 then (k, put32 (unat (word_of_nat (the (be32 v 0)) - dec)) @ drop 4 v) # os
      else (k, v) # turn_back dec os)"

definition has_timestamp :: "(byte \<times> bytes) list \<Rightarrow> bool" where
  "has_timestamp os \<longleftrightarrow> (\<exists>v. (8, v) \<in> set os \<and> length v = 8)"

lemma timestamp_loop_eq:
  assumes "e \<le> length p" "i \<le> e"
  shows "\<exists>q. timestamp_loop p dec i e = Some (q, has_timestamp (options (take (e - i) (drop i p)))) \<and>
    length q = length p \<and> take i q = take i p \<and> drop e q = drop e p \<and>
    options (take (e - i) (drop i q)) = turn_back dec (options (take (e - i) (drop i p)))"
  using assms
proof (induction p dec i e rule: timestamp_loop.induct)
  case (1 p dec i e)
  let ?n = "unat (p ! (i + 1))"
  consider "e = i" | "i < e" "p ! i = 1"
    | "i < e" "p ! i \<noteq> 1" "p ! i = 0 \<or> e \<le> i + 1 \<or> ?n < 2 \<or> e < i + ?n"
    | "i < e" "p ! i = 8" "i + 1 < e" "?n = 10" "i + 10 \<le> e"
    | "i < e" "p ! i \<noteq> 1" "p ! i \<noteq> 0" "i + 1 < e" "2 \<le> ?n" "i + ?n \<le> e" "\<not> (p ! i = 8 \<and> ?n = 10)"
    using 1(4) by force
  then show ?case
  proof cases
    case 1
    then show ?thesis by (simp add: timestamp_loop.simps has_timestamp_def)
  next
    case 2
    have "e \<le> length p" "i + 1 \<le> e" using 1(3) 2 by simp_all
    then obtain q where q: "timestamp_loop p dec (i + 1) e = Some (q, has_timestamp (options (take (e - (i + 1)) (drop (i + 1) p))))"
        "length q = length p" "take (i + 1) q = take (i + 1) p" "drop e q = drop e p"
        "options (take (e - (i + 1)) (drop (i + 1) q)) = turn_back dec (options (take (e - (i + 1)) (drop (i + 1) p)))"
      using 1(1) [of "p ! i"] 2 by auto
    have "q ! i = p ! i" "take i q = take i p" using q(3) by (metis nth_take less_add_one, metis take_take min.absorb1 le_add1)
    then show ?thesis using 2 1(3) q options_nop [of i e p] options_nop [of i e q] timestamp_loop.simps [of p dec i e]
      by (simp add: has_timestamp_def)
  next
    case 3
    then show ?thesis using 1(3) options_stop [of i e p] by (subst timestamp_loop.simps) (auto simp: has_timestamp_def)
  next
    case 4
    have l: "i + 10 \<le> length p" using 1(3) 4 by simp
    define v where "v = take 8 (drop (i + 2) p)"
    have v: "length v = 8" using l by (simp add: v_def)
    have bv: "be32 p (i + 2) = be32 v 0" using l v by (simp add: be32_lt v_def add.commute)
    then obtain x where x: "be32 v 0 = Some x" using v by (simp add: be32_lt)
    define w where "w = put32 (unat (word_of_nat x - dec))"
    define q where "q = patch p (i + 2) w"
    have w: "length w = 4" by (simp add: w_def)
    have q: "length q = length p" "take i q = take i p" "drop e q = drop e p" "q ! i = p ! i" "q ! (i + 1) = p ! (i + 1)"
      using l w 4(5) by (simp_all add: q_def take_patch drop_patch nth_patch)
    have "drop (i + 2) q = w @ drop (i + 6) p" using l w by (simp add: q_def patch_def min_def add.commute)
    then have tq: "take 8 (drop (i + 2) q) = w @ drop 4 v" using w by (simp add: v_def drop_take add.commute)
    have "drop (i + 10) q = drop (i + 10) p" using l w by (simp add: q_def drop_patch)
    then have "options (take (e - i) (drop i q)) = (8, w @ drop 4 v) # options (take (e - (i + 10)) (drop (i + 10) p))"
      using 4 1(3) q tq options_step [of i e q] by simp
    moreover have "options (take (e - i) (drop i p)) = (8, v) # options (take (e - (i + 10)) (drop (i + 10) p))"
      using 4 1(3) options_step [of i e p] by (simp add: v_def)
    moreover have "timestamp_loop p dec i e = Some (q, True)"
      using 4 l x bv w by (subst timestamp_loop.simps) (simp add: q_def w_def)
    ultimately show ?thesis using q v x by (auto simp: has_timestamp_def w_def)
  next
    case 5
    have "e \<le> length p" "i + ?n \<le> e" using 1(3) 5 by simp_all
    then obtain q where q: "timestamp_loop p dec (i + ?n) e = Some (q, has_timestamp (options (take (e - (i + ?n)) (drop (i + ?n) p))))"
        "length q = length p" "take (i + ?n) q = take (i + ?n) p" "drop e q = drop e p"
        "options (take (e - (i + ?n)) (drop (i + ?n) q)) = turn_back dec (options (take (e - (i + ?n)) (drop (i + ?n) p)))"
      using 1(2) [of "p ! i" ?n] 5 by auto
    have nth: "q ! j = p ! j" if "j < i + ?n" for j using q(3) that by (metis nth_take)
    have tk: "take i q = take i p" using q(3) by (metis take_take min.absorb1 le_add1)
    have sl: "take (?n - 2) (drop (i + 2) q) = take (?n - 2) (drop (i + 2) p)"
    proof -
      have "take (?n - 2) (drop (i + 2) xs) = drop (i + 2) (take (i + ?n) xs)" for xs :: bytes
        using 5(5) by (simp add: drop_take)
      then show ?thesis using q(3) by simp
    qed
    have n8: "\<not> (p ! i = 8 \<and> length (take (?n - 2) (drop (i + 2) p)) = 8)" using 5 1(3) by auto
    have tl: "timestamp_loop p dec i e = timestamp_loop p dec (i + ?n) e" using 5 1(3) by (subst timestamp_loop.simps) auto
    have op: "options (take (e - i) (drop i p)) = (p ! i, take (?n - 2) (drop (i + 2) p)) # options (take (e - (i + ?n)) (drop (i + ?n) p))"
      using 5 1(3) options_step [of i e p] by simp
    have oq: "options (take (e - i) (drop i q)) = (p ! i, take (?n - 2) (drop (i + 2) p)) # options (take (e - (i + ?n)) (drop (i + ?n) q))"
      using 5 1(3) q(2) nth [of i] nth [of "i + 1"] sl options_step [of i e q] by simp
    show ?thesis unfolding tl op using q oq tk n8 by (auto simp: has_timestamp_def simp del: length_take)
  qed
qed

lemma timestamp_turned_back:
  assumes "l3_len p v6 = Some h" "tcp_hdr_len p h = Some d" "20 \<le> d" "h + d \<le> length p"
  shows "\<exists>q. DecreaseTCPTimestamp p dec v6 = Some (q, has_timestamp (tcp_options h d p)) \<and> length q = length p \<and>
    take (h + 20) q = take (h + 20) p \<and> drop (h + d) q = drop (h + d) p \<and>
    tcp_options h d q = turn_back dec (tcp_options h d p)"
  using timestamp_loop_eq [of "h + d" p "h + 20" dec] assms by (auto simp: DecreaseTCPTimestamp_def tcp_options_def)

subsection \<open>Dropping options or data\<close>

lemma without_options4:
  assumes raw: "raw4 h d data t p" and sq: "be32 p (h + 4) = Some (unat s)" and v: "drop_bit 4 (p ! 0) \<noteq> 6"
  shows "\<exists>q. withoutTCPOptions p h = Some q \<and> good4 h 20 s data t q"
proof -
  have r: "tcp_hdr_len p h = Some d" "20 \<le> d" "h + d \<le> length p" "20 \<le> h"
      "length p = h + d + length data" "length p \<le> 65535" "be32 p (h + 4) = Some (unat s)" "drop (h + d) p = data"
    using raw sq by (auto simp: raw4_def)
  define b where "b = (0x50 :: byte) OR (p ! (h + 12) AND 0x0F)"
  have hb: "unat (drop_bit 4 b * 4) = 20" using data_offset_or [of 20 "p ! (h + 12)"] by (simp add: b_def)
  define q where "q = patch (take (h + 20) p @ [] @ data) (h + 12) [b]"
  have le: "(20 :: nat) \<le> 20" "length ([] :: bytes) = 20 - 20" "h + 20 + length data \<le> 65535" using r by simp_all
  note sp = splice4 [OF raw le hb, folded q_def]
  obtain q' where q': "seal q False h = Some q'" "good4 h 20 s data t q'" using seal4 [OF sp(1)] sp(2) r(7) by auto
  have "q ! 0 = p ! 0"
  proof -
    have "q ! 0 = (take (h + 20) p @ [] @ data) ! 0" unfolding q_def using r by (intro nth_patch) auto
    then show ?thesis using r by (simp add: nth_append)
  qed
  then have "withoutTCPOptions p h = seal q False h"
    using r v by (simp add: withoutTCPOptions_def q_def b_def nth_append)
  then show ?thesis using q' by simp
qed

lemma without_options6:
  assumes raw: "raw6 d data t p" and sq: "be32 p 44 = Some (unat s)"
  shows "\<exists>q. withoutTCPOptions p 40 = Some q \<and> good6 20 s data t q"
proof -
  have r: "tcp_hdr_len p 40 = Some d" "20 \<le> d" "40 + d \<le> length p"
      "length p = 40 + d + length data" "length p \<le> 65535" "be32 p 44 = Some (unat s)" "drop (40 + d) p = data"
      "drop_bit 4 (p ! 0) = 6"
    using raw sq by (auto simp: raw6_def)
  define b where "b = (0x50 :: byte) OR (p ! 52 AND 0x0F)"
  have hb: "unat (drop_bit 4 b * 4) = 20" using data_offset_or [of 20 "p ! 52"] by (simp add: b_def)
  define q where "q = patch (take 60 p @ [] @ data) 52 [b]"
  have le: "(20 :: nat) \<le> 20" "length ([] :: bytes) = 20 - 20" "40 + 20 + length data \<le> 65535" using r by simp_all
  note sp = splice6 [OF raw le hb, folded q_def]
  obtain q' where q': "seal q True 40 = Some q'" "good6 20 s data t q'" using seal6 [OF sp(1), of s 40] sp(2) r(6) by auto
  have "q ! 0 = p ! 0"
  proof -
    have "q ! 0 = (take 60 p @ [] @ data) ! 0" unfolding q_def using r by (intro nth_patch) auto
    then show ?thesis using r by (simp add: nth_append)
  qed
  then have "withoutTCPOptions p 40 = seal q True 40"
    using r by (simp add: withoutTCPOptions_def q_def b_def nth_append)
  then show ?thesis using q' by simp
qed

text \<open>The packets of the example below: a SYN with a maximum segment size, selective acknowledgements, a timestamp and a window scale.\<close>

definition syn_segment :: "byte \<Rightarrow> byte \<Rightarrow> bytes" where
  "syn_segment c1 c2 = [192, 0, 1, 187, 0, 0, 0, 100, 0, 0, 0, 0, 160, 2, 250, 240, c1, c2, 0, 0,
     2, 4, 5, 180, 4, 2, 8, 10, 0, 0, 0, 9, 0, 0, 0, 0, 1, 3, 3, 7]"

definition syn4 :: bytes where
  "syn4 = [69, 0, 0, 60, 0, 1, 64, 0, 64, 6, 38, 185, 10, 0, 0, 1, 10, 0, 0, 2] @ syn_segment 118 228"

definition syn6 :: bytes where
  "syn6 = [96, 0, 0, 0, 0, 40, 6, 64, 0, 0, 0, 0, 0, 0, 0, 0, 0, 0, 0, 0, 0, 0, 0, 1, 0, 0, 0, 0, 0, 0, 0, 0, 0, 0, 0, 0, 0, 0, 0, 2]
     @ syn_segment 138 228"

lemma syn4_good: "good4 20 40 100 [] 64 syn4"
  unfolding good4_def raw4_def
  by (simp add: syn4_def syn_segment_def ip_hdr_len_eq tcp_hdr_len_eq tcp4_valid_def inet_ok_def pseudo4_def put16_def be32_def be16_def)

lemma syn6_good: "good6 40 100 [] 64 syn6"
  unfolding good6_def raw6_def
  by (simp add: syn6_def syn_segment_def tcp_hdr_len_eq tcp6_valid_def inet_ok_def pseudo6_def put16_def put32_def be32_def be16_def)

text \<open>
  C25. Dropping selective acknowledgements from an intact TCP segment, over IPv4 and IPv6, does not panic and gives an intact segment
  with the same sequence number, data and hop limit, whose options are those of the original without the kinds 4
  and 5, in the same order, under a header that is not longer.
\<close>

theorem sack_options_removed:
  "(good4 h d s data t p \<longrightarrow> (\<exists>q d'. StripSACKFromTCP p = Some q \<and> good4 h d' s data t q \<and> d' \<le> d \<and>
      tcp_options h d' q = filter (\<lambda>x. fst x \<noteq> 4 \<and> fst x \<noteq> 5) (tcp_options h d p))) \<and>
   (good6 d s data t p \<longrightarrow> (\<exists>q d'. StripSACKFromTCPv6 p = Some q \<and> good6 d' s data t q \<and> d' \<le> d \<and>
      tcp_options 40 d' q = filter (\<lambda>x. fst x \<noteq> 4 \<and> fst x \<noteq> 5) (tcp_options 40 d p)))"
  using strip4 strip6 unfolding not_sack_def by blast

theorem sack_options_removed_witness:
  "(\<exists>q d'. StripSACKFromTCP syn4 = Some q \<and> good4 20 d' 100 [] 64 q \<and>
     tcp_options 20 d' q = [(2, [5, 180]), (8, [0, 0, 0, 9, 0, 0, 0, 0]), (1, []), (3, [7])]) \<and>
   (\<exists>q d'. StripSACKFromTCPv6 syn6 = Some q \<and> good6 d' 100 [] 64 q \<and>
     tcp_options 40 d' q = [(2, [5, 180]), (8, [0, 0, 0, 9, 0, 0, 0, 0]), (1, []), (3, [7])])"
proof -
  have "filter (\<lambda>x. fst x \<noteq> 4 \<and> fst x \<noteq> 5) (tcp_options 20 40 syn4) = [(2, [5, 180]), (8, [0, 0, 0, 9, 0, 0, 0, 0]), (1, []), (3, [7])]"
      "filter (\<lambda>x. fst x \<noteq> 4 \<and> fst x \<noteq> 5) (tcp_options 40 40 syn6) = [(2, [5, 180]), (8, [0, 0, 0, 9, 0, 0, 0, 0]), (1, []), (3, [7])]"
    by (simp_all add: tcp_options_def syn4_def syn6_def syn_segment_def options.simps(2))
  then show ?thesis
    using sack_options_removed [of 20 40 100 "[]" 64 syn4] sack_options_removed [of 40 40 100 "[]" 64 syn6] syn4_good syn6_good
    by auto
qed

end
