(* ===== verification/Fake_Payload.thy ===== *)
theory Fake_Payload
  imports Go_Strings Tls_Gen Ip_Checksum
begin

text \<open>
  The payload of a fake packet (\<^verbatim>\<open>src/sock/payload.go\<close>, \<^verbatim>\<open>tls.go\<close>, \<^verbatim>\<open>mirror.go\<close>): a preset, random, inverted or configured payload,
  given the random value or the session id of the real ClientHello, or cut to its size, or a copy of
  it with another name. The presets of \<^verbatim>\<open>src/config/payloads.go\<close> are long constants and fields of \<open>payloads\<close>; what
  \<^verbatim>\<open>rand.Read\<close> stores is an argument.
\<close>

record payloads =
  FakeSNI1 :: bytes
  FakeSNI2 :: bytes
  FakeSTUN :: bytes

record FakeSettings =
  fk_SNI :: bool
  fk_TTL :: byte
  fk_Strategy :: gostr
  SeqOffset :: "32 word"
  SNISeqLength :: int
  SNIType :: nat
  CustomPayload :: gostr
  PayloadData :: bytes
  TLSMod :: "gostr list"
  TimestampDecrease :: "32 word"
  ApplyTTL :: bool
  MD5OnFake :: bool
  FakeLenMode :: gostr

text \<open>The draws a fake takes from the random source: a payload of 1200 bytes, the client random, the letters of a name, the
  identification of the packet and its sequence number.\<close>

record fake_draws =
  rnd_payload :: bytes
  rnd_random :: bytes
  rnd_name :: "nat \<Rightarrow> byte"
  rnd_ipid :: "16 word option"
  rnd_seq :: "32 word"
  rnd_md5 :: bytes

definition GetPayload :: "payloads \<Rightarrow> FakeSettings \<Rightarrow> bytes \<Rightarrow> bytes" where
  "GetPayload C faking rnd =
     (if SNIType faking = 0 then rnd
      else if SNIType faking = 5 then replicate 1200 0
      else if PayloadData faking \<noteq> [] then PayloadData faking
      else if SNIType faking = 3 then FakeSNI2 C
      else if SNIType faking = 8 then FakeSTUN C
      else if SNIType faking = 1 then CustomPayload faking
      else FakeSNI1 C)"

subsection \<open>TLS modifications\<close>

record TLSModFlags =
  Randomize :: bool
  DupSessID :: bool

definition ParseTLSMod :: "golib \<Rightarrow> gostr list \<Rightarrow> TLSModFlags" where
  "ParseTLSMod L mods =
     foldl (\<lambda>flags m.
       let m = to_lower L (trim_space m) in
       if m = str ''rnd'' then flags\<lparr>Randomize := True\<rparr>
       else if m = str ''dupsid'' then flags\<lparr>DupSessID := True\<rparr>
       else flags) \<lparr>Randomize = False, DupSessID = False\<rparr> mods"

definition ExtractSessionID :: "bytes \<Rightarrow> bytes option option" where
  "ExtractSessionID payload =
     (if length payload < 5 \<or> payload ! 0 \<noteq> 0x16 then Some None
      else do {
        recLen \<leftarrow> be16 payload 3;
        if length payload < 5 + recLen then Some None
        else do {
          let hs = drop 5 payload;
          if length hs < 4 \<or> hs ! 0 \<noteq> 1 then Some None
          else if 38 \<ge> length hs then Some None
          else do {
            sidLen \<leftarrow> at_nat hs 38;
            if sidLen = 0 \<or> 39 + sidLen > length hs then Some None
            else map_option Some (sub_bytes hs 39 (39 + sidLen)) } } })"

text \<open>Adding the signed difference of two lengths to a 16-bit and a 24-bit length field: the bytes of the sum, as the conversions cut it.\<close>

definition put_int16 :: "int \<Rightarrow> bytes" where
  "put_int16 n = [word_of_int (n div 256), word_of_int n]"

definition put_int24 :: "int \<Rightarrow> bytes" where
  "put_int24 n = [word_of_int (n div 65536), word_of_int (n div 256), word_of_int n]"

definition injectSessionID :: "bytes \<Rightarrow> bytes \<Rightarrow> bytes option" where
  "injectSessionID fakePayload newSID =
     (if length fakePayload < 5 \<or> fakePayload ! 0 \<noteq> 0x16 then Some fakePayload
      else do {
        let hs = drop 5 fakePayload;
        if length hs < 39 \<or> hs ! 0 \<noteq> 1 then Some fakePayload
        else do {
          oldSIDLen \<leftarrow> at_nat hs 38;
          let oldSIDEnd = 44 + oldSIDLen;
          if oldSIDEnd > length fakePayload then Some fakePayload
          else do {
            let sizeDiff = int (length newSID) - int oldSIDLen;
            hdr \<leftarrow> sub_bytes fakePayload 0 43;
            let newPayload = hdr @ [word_of_nat (length newSID)] @ newSID @ drop oldSIDEnd fakePayload;
            recLen \<leftarrow> be16 newPayload 3;
            newPayload \<leftarrow> put_at newPayload 3 (put_int16 (int recLen + sizeDiff));
            hsLen \<leftarrow> be24 newPayload 6;
            put_at newPayload 6 (put_int24 (int hsLen + sizeDiff)) } } })"

definition ApplyTLSMod :: "bytes \<Rightarrow> bytes option \<Rightarrow> TLSModFlags \<Rightarrow> bytes \<Rightarrow> bytes option" where
  "ApplyTLSMod fakePayload originalPayload flags rnd =
     (if length fakePayload < 5 \<or> fakePayload ! 0 \<noteq> 0x16 then Some fakePayload
      else do {
        recLen \<leftarrow> be16 fakePayload 3;
        if length fakePayload < 5 + recLen then Some fakePayload
        else do {
          let hs = drop 5 fakePayload;
          if length hs < 4 \<or> hs ! 0 \<noteq> 1 then Some fakePayload
          else do {
            fakePayload \<leftarrow> (if Randomize flags \<and> length hs \<ge> 38 then put_at fakePayload 11 rnd else Some fakePayload);
            case originalPayload of
              None \<Rightarrow> Some fakePayload
            | Some real \<Rightarrow>
                if DupSessID flags then do {
                  origSID \<leftarrow> ExtractSessionID real;
                  case origSID of
                    None \<Rightarrow> Some fakePayload
                  | Some sid \<Rightarrow> if sid = [] then Some fakePayload else injectSessionID fakePayload sid }
                else Some fakePayload } } })"

subsection \<open>Names of a given length\<close>

text \<open>The letters are drawn one by one; \<open>off\<close> is where the label starts in the name.\<close>

definition hostLetters :: bytes where
  "hostLetters = str ''abcdefghijklmnopqrstuvwxyz''"

definition hostAlnum :: bytes where
  "hostAlnum = str ''abcdefghijklmnopqrstuvwxyz0123456789''"

definition randomLabel :: "(nat \<Rightarrow> byte) \<Rightarrow> nat \<Rightarrow> nat \<Rightarrow> gostr" where
  "randomLabel rnd off n =
     (if n = 0 then []
      else hostLetters ! (unat (rnd off) mod 26) # map (\<lambda>i. hostAlnum ! (unat (rnd (off + i)) mod 36)) [1..<n])"

function randomLabels :: "(nat \<Rightarrow> byte) \<Rightarrow> nat \<Rightarrow> nat \<Rightarrow> gostr" where
  "randomLabels rnd off n =
     (if n \<le> 63 then randomLabel rnd off n
      else let n1 = (if n < 65 then n - 2 else 63) in
        randomLabel rnd off n1 @ [46] @ randomLabels rnd (off + n1 + 1) (n - n1 - 1))"
  by pat_completeness auto
termination by (relation "measure (\<lambda>(rnd, off, n). n)") auto

declare randomLabels.simps [simp del]

definition fit_short :: "(nat \<Rightarrow> byte) \<Rightarrow> gostr \<Rightarrow> nat \<Rightarrow> gostr" where
  "fit_short rnd template n =
     (let tail = drop (length template - n) template in
      if contains (drop 1 tail) 46 then
        if tail ! 0 = 46 \<or> tail ! 0 = 45 then randomLabel rnd 0 1 @ drop 1 tail else tail
      else
        let tld = (case last_index_byte template 46 of None \<Rightarrow> template | Some i \<Rightarrow> drop (i + 1) template);
            keep = (if length tld > n - 2 then n - 2 else length tld)
        in randomLabel rnd 0 (n - 1 - keep) @ [46] @ drop (length tld - keep) tld)"

definition FitHostName :: "(nat \<Rightarrow> byte) \<Rightarrow> gostr \<Rightarrow> nat \<Rightarrow> gostr" where
  "FitHostName rnd template n =
     (if n = 0 then []
      else if length template = n then template
      else if n < 4 then randomLabel rnd 0 n
      else if length template = n - 1 then randomLabel rnd 0 1 @ template
      else if length template < n then randomLabels rnd 0 (n - length template - 1) @ [46] @ template
      else fit_short rnd template n)"

definition MirrorClientHello :: "(nat \<Rightarrow> byte) \<Rightarrow> bytes \<Rightarrow> bytes \<Rightarrow> bytes option option" where
  "MirrorClientHello rnd real fakePayload = do {
     (s, e, ok) \<leftarrow> LocateServerName real;
     if \<not> ok \<or> e \<le> s then Some None
     else do {
       parsed \<leftarrow> ParseTLSClientHelloSNI fakePayload;
       case parsed of
         (template, ech, found) \<Rightarrow>
           if \<not> found then Some None
           else if e > length real then None
           else Some (Some (patch real s (take (e - s) (FitHostName rnd template (e - s))))) } }"

definition fixTLSRecordLength :: "bytes \<Rightarrow> bytes" where
  "fixTLSRecordLength payload =
     (if length payload < 5 \<or> payload ! 0 \<noteq> 0x16 then payload
      else patch payload 3 (put16 (length payload - 5)))"

definition MatchPayloadLength :: "(nat \<Rightarrow> byte) \<Rightarrow> bytes \<Rightarrow> bytes \<Rightarrow> gostr \<Rightarrow> bytes option" where
  "MatchPayloadLength rnd fakePayload originalTLS mode =
     (if mode \<noteq> str ''match'' \<or> originalTLS = [] \<or> fakePayload = [] then Some fakePayload
      else do {
        mirrored \<leftarrow> MirrorClientHello rnd originalTLS fakePayload;
        case mirrored of
          Some m \<Rightarrow> Some m
        | None \<Rightarrow>
            if length fakePayload = length originalTLS then Some fakePayload
            else Some (fixTLSRecordLength (map (\<lambda>i. fakePayload ! (i mod length fakePayload)) [0..<length originalTLS])) })"

subsection \<open>Fitted names\<close>

lemma length_randomLabel [simp]: "length (randomLabel rnd off n) = n"
  by (simp add: randomLabel_def)

lemma length_randomLabels [simp]: "length (randomLabels rnd off n) = n"
proof (induction rnd off n rule: randomLabels.induct)
  case (1 rnd off n)
  show ?case
  proof (cases "n \<le> 63")
    case True
    then show ?thesis by (simp add: randomLabels.simps)
  next
    case False
    then show ?thesis using 1 by (subst randomLabels.simps) (auto simp: Let_def)
  qed
qed

lemma last_index_byte_less: "last_index_byte s c = Some i \<Longrightarrow> i < length s"
proof -
  have "index_byte xs c = Some j \<Longrightarrow> j < length xs" for xs j
    by (induction xs arbitrary: j) (auto split: if_splits)
  then show "last_index_byte s c = Some i \<Longrightarrow> i < length s" by (fastforce simp: last_index_byte_def)
qed

lemma length_fit_short:
  assumes "4 \<le> n" "n < length template"
  shows "length (fit_short rnd template n) = n"
proof -
  define tld where "tld = (case last_index_byte template 46 of None \<Rightarrow> template | Some i \<Rightarrow> drop (i + 1) template)"
  define keep where "keep = (if length tld > n - 2 then n - 2 else length tld)"
  have "keep \<le> n - 2" "keep \<le> length tld" by (simp_all add: keep_def)
  then have "length (randomLabel rnd 0 (n - 1 - keep) @ [46] @ drop (length tld - keep) tld) = n" using assms by simp
  then show ?thesis using assms unfolding fit_short_def Let_def tld_def [symmetric] keep_def [symmetric] by auto
qed

lemma length_FitHostName: "length (FitHostName rnd template n) = n"
  by (auto simp: FitHostName_def length_fit_short)

lemma letters_valid: "list_all isValidSNIChar (randomLabel rnd off n)"
proof -
  have "list_all isValidSNIChar hostLetters" "list_all isValidSNIChar hostAlnum" "length hostLetters = 26" "length hostAlnum = 36"
    by code_simp+
  then have "isValidSNIChar (hostLetters ! (i mod 26))" "isValidSNIChar (hostAlnum ! (i mod 36))" for i
    by (auto simp: list_all_length)
  then show ?thesis by (simp add: randomLabel_def list_all_iff)
qed

lemma dot_valid [simp]: "isValidSNIChar 46"
  by (simp add: isValidSNIChar_def)

lemma labels_valid: "list_all isValidSNIChar (randomLabels rnd off n)"
proof (induction rnd off n rule: randomLabels.induct)
  case (1 rnd off n)
  show ?case
  proof (cases "n \<le> 63")
    case True
    then show ?thesis using letters_valid by (simp add: randomLabels.simps)
  next
    case False
    then show ?thesis using 1 letters_valid by (subst randomLabels.simps) (auto simp: Let_def)
  qed
qed

lemma list_all_drop: "list_all P xs \<Longrightarrow> list_all P (drop n xs)"
  by (auto simp: list_all_iff dest: in_set_dropD)

lemma contains_append [simp]: "contains (xs @ ys) c \<longleftrightarrow> contains xs c \<or> contains ys c"
  by (simp add: contains_def)

lemma contains_drop: "contains (drop n xs) c \<Longrightarrow> contains xs c"
  by (auto simp: contains_def list_ex_iff dest: in_set_dropD)

lemma fit_short_valid:
  assumes "list_all isValidSNIChar template"
  shows "list_all isValidSNIChar (fit_short rnd template n)" "contains (fit_short rnd template n) 46"
proof -
  have "list_all isValidSNIChar (case last_index_byte template 46 of None \<Rightarrow> template | Some i \<Rightarrow> drop (i + 1) template)"
    using assms by (auto split: option.split intro: list_all_drop)
  then show "list_all isValidSNIChar (fit_short rnd template n)"
    using assms letters_valid by (auto simp: fit_short_def Let_def intro!: list_all_drop)
  show "contains (fit_short rnd template n) 46"
    using contains_drop [of 1 "drop (length template - n) template" 46] contains_drop [of "length template - n" template 46]
    by (auto simp: fit_short_def Let_def contains_def dest: in_set_dropD)
qed

lemma FitHostName_valid:
  assumes t: "validateSNI template" and n: "4 \<le> n" "n \<le> MaxSNINameLen" and l: "template = str ''localhost'' \<longrightarrow> n \<noteq> 10"
  shows "validateSNI (FitHostName rnd template n)"
proof -
  have v: "list_all isValidSNIChar template" and c: "template = str ''localhost'' \<or> contains template 46"
    using t by (auto simp: validateSNI_def)
  have ten: "length (str ''localhost'') = 9" by (simp add: str_def)
  consider "length template = n" | "length template = n - 1" "length template \<noteq> n"
    | "length template < n - 1" | "n < length template" by linarith
  then have "list_all isValidSNIChar (FitHostName rnd template n) \<and>
      (FitHostName rnd template n = str ''localhost'' \<or> contains (FitHostName rnd template n) 46)"
  proof cases
    case 1
    then show ?thesis using v c n by (simp add: FitHostName_def)
  next
    case 2
    then have "contains template 46" using c l ten n by auto
    then show ?thesis using 2 v n letters_valid by (simp add: FitHostName_def)
  next
    case 3
    then have "length template < n" "length template \<noteq> n - 1" "length template \<noteq> n" by linarith+
    then show ?thesis using v n labels_valid by (simp add: FitHostName_def contains_def)
  next
    case 4
    then have "length template \<noteq> n - 1" "\<not> length template < n" "length template \<noteq> n" by linarith+
    then show ?thesis using v n fit_short_valid [OF v] by (simp add: FitHostName_def)
  qed
  then show ?thesis using n length_FitHostName [of rnd template n] by (auto simp: validateSNI_def)
qed

subsection \<open>The mirrored ClientHello\<close>

text \<open>The locator reads no byte behind the start of the name it finds.\<close>

lemma at_prefix: "take n q = take n p \<Longrightarrow> length q = length p \<Longrightarrow> i < n \<Longrightarrow> at q i = at p i"
proof -
  assume t: "take n q = take n p" and l: "length q = length p" and i: "i < n"
  have "q ! i = p ! i" using t i by (metis nth_take)
  then show ?thesis using l unfolding at_def by simp
qed

lemma at_nat_prefix: "take n q = take n p \<Longrightarrow> length q = length p \<Longrightarrow> i < n \<Longrightarrow> at_nat q i = at_nat p i"
  using at_prefix [of n q p i] by (simp add: at_nat_def)

lemma be16_prefix: "take n q = take n p \<Longrightarrow> length q = length p \<Longrightarrow> i + 1 < n \<Longrightarrow> be16 q i = be16 p i"
  using at_nat_prefix [of n q p i] at_nat_prefix [of n q p "i + 1"] unfolding be16_def by (simp only:)

lemma locate_in_ext_prefix:
  assumes "locate_in_ext p e l = Some (s, f, True)" and pre: "take s q = take s p" "length q = length p"
  shows "locate_in_ext q e l = Some (s, f, True)"
proof -
  have s: "s = e + 5" using assms(1) by (auto simp: locate_in_ext_def bind_eq_Some_conv split: if_splits)
  have eqs: "be16 q e = be16 p e" "be16 q (e + 3) = be16 p (e + 3)" "at q (e + 2) = at p (e + 2)"
    using s by (auto intro!: be16_prefix [OF pre] at_prefix [OF pre])
  show ?thesis using assms(1) unfolding locate_in_ext_def by (simp only: eqs)
qed

lemma locate_ext_prefix:
  assumes "locate_ext p e ee = Some (s, f, True)" and pre: "take s q = take s p" "length q = length p"
  shows "locate_ext q e ee = Some (s, f, True)"
  using assms(1)
proof (induction "ee - e" arbitrary: e rule: less_induct)
  case less
  have le: "e + 4 \<le> ee" using less.prems by (subst (asm) locate_ext.simps) (auto split: if_splits)
  obtain tt n where t: "be16 p e = Some tt" "be16 p (e + 2) = Some n" "e + 4 + n \<le> ee"
      and r: "(if tt = 0 \<and> n \<ge> 5 then locate_in_ext p (e + 4) n else locate_ext p (e + 4 + n) ee) = Some (s, f, True)"
    using less.prems le by (subst (asm) locate_ext.simps) (auto simp: bind_eq_Some_conv split: if_splits)
  have s: "e + 4 < s" using r locate_in_ext_found [of p "e + 4" n s f] locate_ext_found [of p "e + 4 + n" ee s f]
    by (auto split: if_splits)
  have q: "be16 q e = Some tt" "be16 q (e + 2) = Some n"
    using t s be16_prefix [OF pre, of e] be16_prefix [OF pre, of "e + 2"] by auto
  have "(if tt = 0 \<and> n \<ge> 5 then locate_in_ext q (e + 4) n else locate_ext q (e + 4 + n) ee) = Some (s, f, True)"
    using r locate_in_ext_prefix [OF _ pre] less.hyps [of "e + 4 + n"] t(3) le by (auto split: if_splits)
  then show ?case using q t(3) le by (subst locate_ext.simps) auto
qed

lemma locate_prefix:
  assumes "LocateServerNameInRecord p = Some (s, f, True)" and pre: "take s q = take s p" "length q = length p"
  shows "LocateServerNameInRecord q = Some (s, f, True)"
proof -
  note u = LocateServerNameInRecord_def Let_def
  from assms(1) obtain sid cs cm el where
    p: "at p 0 = Some 0x16" "at p 5 = Some 1" "at_nat p 43 = Some sid" "44 + sid + 2 \<le> length p"
      "be16 p (44 + sid) = Some cs" "44 + sid + 2 + cs < length p" "at_nat p (44 + sid + 2 + cs) = Some cm"
      "44 + sid + 2 + cs + 1 + cm + 2 \<le> length p" "be16 p (44 + sid + 2 + cs + 1 + cm) = Some el"
      "locate_ext p (44 + sid + 2 + cs + 1 + cm + 2) (44 + sid + 2 + cs + 1 + cm + 2 +
         (if 44 + sid + 2 + cs + 1 + cm + 2 + el > length p then length p - (44 + sid + 2 + cs + 1 + cm + 2) else el)) = Some (s, f, True)"
    unfolding u by (auto simp: bind_eq_Some_conv at_Some split: if_splits)
  have s: "44 + sid + 2 + cs + 1 + cm + 2 < s" using locate_ext_found [OF p(10)] by simp
  have q: "at q 0 = Some 0x16" "at q 5 = Some 1" "at_nat q 43 = Some sid" "be16 q (44 + sid) = Some cs"
      "at_nat q (44 + sid + 2 + cs) = Some cm" "be16 q (44 + sid + 2 + cs + 1 + cm) = Some el"
    using p s at_prefix [OF pre] at_nat_prefix [OF pre] be16_prefix [OF pre] by auto
  have l: "locate_ext q (44 + sid + 2 + cs + 1 + cm + 2) (44 + sid + 2 + cs + 1 + cm + 2 +
         (if 44 + sid + 2 + cs + 1 + cm + 2 + el > length p then length p - (44 + sid + 2 + cs + 1 + cm + 2) else el)) = Some (s, f, True)"
    by (rule locate_ext_prefix [OF p(10) pre])
  have "P + (length p - P) = length p" if "P = 44 + sid + 2 + cs + 1 + cm + 2" for P using that p(8) by simp
  then show ?thesis unfolding u using q p(4,6,8) l pre(2) by (auto split: if_splits simp del: at_lt at_nat_lt)
qed

lemma mirror_shape:
  assumes "MirrorClientHello rnd real fake = Some (Some out)" and loc: "LocateServerNameInRecord real = Some (s, e, True)"
  shows "\<exists>template v. ParseTLSClientHelloSNI fake = Some (template, v, True) \<and> validateSNI template \<and>
    out = patch real s (FitHostName rnd template (e - s)) \<and> s + (e - s) \<le> length real \<and> s < e"
proof -
  have b: "s < e" "e \<le> length real" using LocateServerNameInRecord_found [OF loc] by auto
  have "LocateServerName real = Some (s, e, True)" using loc by (simp add: LocateServerName_def)
  then obtain template v where t: "ParseTLSClientHelloSNI fake = Some (template, v, True)"
      "out = patch real s (take (e - s) (FitHostName rnd template (e - s)))"
    using assms(1) b by (auto simp: MirrorClientHello_def bind_eq_Some_conv split: if_splits prod.splits)
  have "validateSNI template" using scan_records_result [of fake 0 template v True] t(1) by (simp add: ParseTLSClientHelloSNI_def)
  then show ?thesis using t b by (simp add: length_FitHostName)
qed

text \<open>
  A fake that mirrors the client's ClientHello has its length and all of its bytes outside the server name, the locator finds a
  name at the same place, and that name is the configured one fitted to the length of the real one: a valid server name
  unless the room is shorter than four bytes or the configured name is \<^verbatim>\<open>localhost\<close> and the room one byte more.
\<close>

theorem mirrored_hello:
  assumes "MirrorClientHello rnd real fake = Some (Some out)" and "LocateServerNameInRecord real = Some (s, e, True)"
  shows "\<exists>template v. ParseTLSClientHelloSNI fake = Some (template, v, True) \<and>
    length out = length real \<and> take s out = take s real \<and> drop e out = drop e real \<and>
    LocateServerName out = Some (s, e, True) \<and> take (e - s) (drop s out) = FitHostName rnd template (e - s) \<and>
    (4 \<le> e - s \<and> e - s \<le> MaxSNINameLen \<and> \<not> (template = str ''localhost'' \<and> e - s = 10) \<longrightarrow>
       validateSNI (take (e - s) (drop s out)))"
proof -
  obtain template v where t: "ParseTLSClientHelloSNI fake = Some (template, v, True)" "validateSNI template"
      "out = patch real s (FitHostName rnd template (e - s))" "s + (e - s) \<le> length real" "s < e"
    using mirror_shape [OF assms] by blast
  define name where "name = FitHostName rnd template (e - s)"
  have n: "length name = e - s" by (simp add: name_def length_FitHostName)
  have o: "length out = length real" "take s out = take s real" "drop e out = drop e real" "take (e - s) (drop s out) = name"
    using t(3-5) n by (simp_all add: name_def [symmetric] take_patch drop_patch) (simp add: patch_def min_def)
  have "LocateServerName out = Some (s, e, True)"
    using locate_prefix [OF assms(2) o(2,1)] by (simp add: LocateServerName_def)
  moreover have "validateSNI name" if "4 \<le> e - s" "e - s \<le> MaxSNINameLen" "\<not> (template = str ''localhost'' \<and> e - s = 10)"
    using FitHostName_valid [OF t(2) that(1,2)] that(3) by (auto simp: name_def)
  ultimately show ?thesis using t(1) o by (auto simp: name_def)
qed

text \<open>A generated ClientHello, for the example.\<close>

definition sample_hello :: "gostr \<Rightarrow> bytes" where
  "sample_hello name = wrapRecord (wrapHandshake (clientHelloBody (replicate 32 1) (replicate 32 2)
     (buildExtensions name (replicate 32 3) (replicate 65 4) (replicate 269 5))))"

theorem mirrored_hello_witness:
  "\<exists>out. MirrorClientHello (\<lambda>_. 0) (sample_hello (str ''w.ya.ru'')) (sample_hello (str ''b4.app'')) = Some (Some out) \<and>
    LocateServerName out = Some (125, 132, True) \<and> take 7 (drop 125 out) = str ''ab4.app'' \<and> validateSNI (take 7 (drop 125 out))"
proof -
  let ?real = "sample_hello (str ''w.ya.ru'')" and ?fake = "sample_hello (str ''b4.app'')"
  have sz: "rand_sizes (replicate 32 1) (replicate 32 2) (replicate 32 3) (replicate 65 4) (replicate 269 5)"
    by (simp add: rand_sizes_def)
  have v: "validateSNI (str ''w.ya.ru'')" "validateSNI (str ''b4.app'')" by code_simp+
  have len: "length (str ''w.ya.ru'') = 7" by (simp add: str_def)
  have r: "LocateServerNameInRecord ?real = Some (125, 132, True)"
    using locate_generated [OF v(1) sz] len by (simp add: sample_hello_def)
  have f: "ParseTLSClientHelloSNI ?fake = Some (str ''b4.app'', 0x0304, True)"
    using generated_record [OF v(2) sz] by (simp add: sample_hello_def)
  have fit: "FitHostName (\<lambda>_. 0) (str ''b4.app'') 7 = str ''ab4.app''" by code_simp
  obtain out where o: "MirrorClientHello (\<lambda>_. 0) ?real ?fake = Some (Some out)"
    using r f LocateServerNameInRecord_found [OF r] by (simp add: MirrorClientHello_def LocateServerName_def)
  have "str ''b4.app'' \<noteq> str ''localhost''" by (simp add: str_def)
  then show ?thesis using mirrored_hello [OF o r] f fit o by (auto simp: MaxSNINameLen_def)
qed

lemma no_panic_Mirror [no_panic_intros]: "no_panic (MirrorClientHello rnd real fake)"
proof -
  obtain s e ok where l: "LocateServerName real = Some (s, e, ok)"
    using no_panic_LocateServerName [of real] by (auto simp: no_panic_def)
  obtain tm v fd where p: "ParseTLSClientHelloSNI fake = Some (tm, v, fd)"
    using no_panic_ParseTLSClientHelloSNI [of fake] by (auto simp: no_panic_def)
  have "ok \<Longrightarrow> e \<le> length real"
    using l ScanServerName_found [of real s e] LocateServerNameInRecord_found [of real s e]
    by (auto simp: LocateServerName_def bind_eq_Some_conv split: if_splits)
  then show ?thesis using l p by (auto simp: MirrorClientHello_def no_panic_def)
qed

lemma mirror_length: "MirrorClientHello rnd real fake = Some (Some out) \<Longrightarrow> length out = length real"
  by (auto simp: MirrorClientHello_def bind_eq_Some_conv length_FitHostName split: if_splits prod.splits)

lemma fixTLSRecordLength_length [simp]: "length (fixTLSRecordLength p) = length p"
  by (simp add: fixTLSRecordLength_def)

lemma matched_length:
  shows "no_panic (MatchPayloadLength rnd fake real mode)"
    and "MatchPayloadLength rnd fake real (str ''match'') = Some out \<Longrightarrow> fake \<noteq> [] \<Longrightarrow> real \<noteq> [] \<Longrightarrow> length out = length real"
proof -
  show "no_panic (MatchPayloadLength rnd fake real mode)"
    unfolding MatchPayloadLength_def by (intro no_panic_intros)
  show "MatchPayloadLength rnd fake real (str ''match'') = Some out \<Longrightarrow> fake \<noteq> [] \<Longrightarrow> real \<noteq> [] \<Longrightarrow> length out = length real"
    by (auto simp: MatchPayloadLength_def bind_eq_Some_conv split: option.splits if_splits dest: mirror_length)
qed

subsection \<open>The session id\<close>

lemma put_int16: "0 \<le> n \<Longrightarrow> put_int16 n = put16 (nat n)"
  by (simp add: put_int16_def put16_def nat_div_distrib' flip: of_nat_nat)

lemma ExtractSessionID_ok: "no_panic (ExtractSessionID payload)"
    "ExtractSessionID payload = Some (Some sid) \<Longrightarrow> 0 < length sid \<and> length sid < 256"
proof -
  show "no_panic (ExtractSessionID payload)"
    unfolding ExtractSessionID_def Let_def by (auto simp: no_panic_def be16_lt)
  show "ExtractSessionID payload = Some (Some sid) \<Longrightarrow> 0 < length sid \<and> length sid < 256"
    by (auto simp: ExtractSessionID_def Let_def bind_eq_Some_conv split: if_splits)
qed

lemma inject_shape:
  assumes f: "44 + unat (fake ! 43) \<le> length fake" "fake ! 0 = 0x16" "fake ! 5 = 1" and sid: "length sid < 256"
  shows "\<exists>out. injectSessionID fake sid = Some out \<and> length out + unat (fake ! 43) = length fake + length sid \<and> out ! 0 = 0x16 \<and>
    out ! 5 = 1 \<and> out ! 43 = word_of_nat (length sid) \<and> drop 44 out = sid @ drop (44 + unat (fake ! 43)) fake \<and>
    take 2 (drop 3 out) = put_int16 (int (256 * unat (fake ! 3) + unat (fake ! 4)) + int (length sid) - int (unat (fake ! 43)))"
proof -
  define old where "old = unat (fake ! 43)"
  define p0 where "p0 = take 43 fake @ word_of_nat (length sid) # sid @ drop (44 + old) fake"
  have l: "44 + old \<le> length fake" using f(1) by (simp add: old_def)
  then have l0: "length p0 + old = length fake + length sid" "44 + length sid \<le> length p0" by (simp_all add: p0_def)
  have n0: "p0 ! i = fake ! i" if "i < 43" for i using that l by (simp add: p0_def nth_append)
  have r0: "be16 p0 3 = Some (256 * unat (fake ! 3) + unat (fake ! 4))" using l0 n0 by (simp add: be16_lt)
  define w where "w = put_int16 (int (256 * unat (fake ! 3) + unat (fake ! 4)) + (int (length sid) - int old))"
  define p1 where "p1 = patch p0 3 w"
  have w: "length w = 2" by (simp add: w_def put_int16_def)
  have l1: "length p1 = length p0" using l0 w by (simp add: p1_def)
  obtain hl where hl: "be24 p1 6 = Some hl" using l0 l1 by (simp add: be24_def be16_lt)
  define x where "x = put_int24 (int hl + (int (length sid) - int old))"
  define out where "out = patch p1 6 x"
  have x: "length x = 3" by (simp add: x_def put_int24_def)
  have lo: "length out = length p0" using l0 l1 x by (simp add: out_def)
  have p43: "p0 ! 43 = word_of_nat (length sid)" using l by (simp add: p0_def nth_append)
  have inj: "injectSessionID fake sid = Some out"
  proof -
    have "39 \<le> length fake - 5" using l by simp
    then have "injectSessionID fake sid = be16 p0 3 \<bind> (\<lambda>r. put_at p0 3 (put_int16 (int r + (int (length sid) - int old))) \<bind>
        (\<lambda>q. be24 q 6 \<bind> (\<lambda>h. put_at q 6 (put_int24 (int h + (int (length sid) - int old))))))"
      using f l by (simp add: injectSessionID_def old_def [symmetric] p0_def [symmetric] Let_def)
    also have "\<dots> = put_at p0 3 w \<bind> (\<lambda>q. be24 q 6 \<bind> (\<lambda>h. put_at q 6 (put_int24 (int h + (int (length sid) - int old)))))"
      unfolding r0 w_def by (simp only: Option.bind.simps)
    also have "\<dots> = Some out" using l0 l1 w x hl by (simp add: p1_def [symmetric] x_def [symmetric] out_def)
    finally show ?thesis .
  qed
  have d44: "drop 44 p0 = sid @ drop (44 + old) fake" using l by (simp add: p0_def)
  have "out ! 0 = 0x16" "out ! 5 = 1" "out ! 43 = word_of_nat (length sid)" "drop 44 out = drop 44 p0"
    using f n0 [of 0] n0 [of 5] p43 l0 l1 w x by (simp_all add: out_def p1_def nth_patch drop_patch)
  moreover have "take 2 (drop 3 out) = w"
    using l0 l1 w x by (simp add: out_def slice_patch) (simp add: p1_def patch_def min_def)
  ultimately show ?thesis using inj lo l0 d44 by (simp add: w_def old_def algebra_simps)
qed

text \<open>The session id that was put into a fake is read back, and the length of the record follows it.\<close>

lemma session_id_injected:
  assumes f: "length fake = 5 + rec" "be16 fake 3 = Some rec" "39 + unat (fake ! 43) \<le> rec" "fake ! 0 = 0x16" "fake ! 5 = 1"
    and sid: "sid \<noteq> []" "length sid < 256" "rec + length sid < 65536"
  shows "\<exists>out. injectSessionID fake sid = Some out \<and> ExtractSessionID out = Some (Some sid) \<and>
    be16 out 3 = Some (length out - 5) \<and> drop (44 + length sid) out = drop (44 + unat (fake ! 43)) fake"
proof -
  have l: "44 + unat (fake ! 43) \<le> length fake" using f by simp
  have r: "256 * unat (fake ! 3) + unat (fake ! 4) = rec" using f by (simp add: be16_lt)
  obtain out where o: "injectSessionID fake sid = Some out" "length out + unat (fake ! 43) = length fake + length sid"
      "out ! 0 = 0x16" "out ! 5 = 1" "out ! 43 = word_of_nat (length sid)" "drop 44 out = sid @ drop (44 + unat (fake ! 43)) fake"
      "take 2 (drop 3 out) = put_int16 (int rec + int (length sid) - int (unat (fake ! 43)))"
    using inject_shape [OF l f(4,5) sid(2)] r by auto
  have lo: "44 + length sid \<le> length out" "length out - 5 = rec + length sid - unat (fake ! 43)" using o(2) f(1,3) by linarith+
  have "put_int16 (int rec + int (length sid) - int (unat (fake ! 43))) = put16 (length out - 5)"
  proof -
    have "int rec + int (length sid) - int (unat (fake ! 43)) = int (length out - 5)" using f(3) lo(2) by linarith
    then show ?thesis using put_int16 [of "int (length out - 5)"] by (simp only: nat_int of_nat_0_le_iff)
  qed
  then have t: "take 2 (drop 3 out) = put16 (length out - 5)" using o(7) by simp
  have "length out - 5 < 65536" using lo(2) sid(3) by simp
  then have rl: "be16 out 3 = Some (length out - 5)"
  proof -
    have "out = take 3 out @ put16 (length out - 5) @ drop 5 out"
    proof -
      have "drop 3 out = take 2 (drop 3 out) @ drop 2 (drop 3 out)" by (rule append_take_drop_id [symmetric])
      then have "drop 3 out = put16 (length out - 5) @ drop 5 out" using t by simp
      then show ?thesis using append_take_drop_id [of 3 out] by metis
    qed
    then show ?thesis using be16_put16_at [OF \<open>length out - 5 < 65536\<close>, of "take 3 out" 3 "drop 5 out"] lo(1) by simp
  qed
  have d: "drop 5 out ! 0 = 1" "drop 5 out ! 38 = word_of_nat (length sid)" using o(4,5) lo by simp_all
  have u: "unat (word_of_nat (length sid) :: byte) = length sid" using sid(2) by (rule byte_of_nat)
  have "take (length sid) (drop 39 (drop 5 out)) = sid" using o(6) by simp
  then have "ExtractSessionID out = Some (Some sid)"
    using o(3) lo(1) rl d u sid(1) by (simp add: ExtractSessionID_def Let_def)
  moreover have "drop (44 + length sid) out = drop (44 + unat (fake ! 43)) fake"
    using o(6) by (metis append_eq_conv_conj drop_drop add.commute)
  ultimately show ?thesis using o(1) rl by blast
qed

lemma no_panic_inject [no_panic_intros]: "length sid < 256 \<Longrightarrow> no_panic (injectSessionID fake sid)"
proof (cases "44 + unat (fake ! 43) \<le> length fake \<and> fake ! 0 = 0x16 \<and> fake ! 5 = 1")
  case True
  then show "length sid < 256 \<Longrightarrow> ?thesis" using inject_shape [of fake sid] by (auto simp: no_panic_def)
next
  case False
  show ?thesis
  proof (cases "length fake < 44 \<or> fake ! 0 \<noteq> 0x16 \<or> fake ! 5 \<noteq> 1")
    case True
    then show ?thesis by (auto simp: injectSessionID_def Let_def)
  next
    case False
    then show ?thesis using \<open>\<not> (44 + unat (fake ! 43) \<le> length fake \<and> fake ! 0 = 0x16 \<and> fake ! 5 = 1)\<close>
      by (auto simp: injectSessionID_def Let_def)
  qed
qed

lemma no_panic_ApplyTLSMod: "length rnd = 32 \<Longrightarrow> no_panic (ApplyTLSMod fake real flags rnd)"
  unfolding ApplyTLSMod_def Let_def
  by (intro no_panic_intros ExtractSessionID_ok(1)) (auto dest: ExtractSessionID_ok(2) intro: no_panic_intros)

end
