(* ===== verification/Fake_Packets.thy ===== *)
theory Fake_Packets
  imports Tcp_Options Fake_Payload
begin

text \<open>
  Fake packets: the fake ClientHellos that go out before the real one (\<^verbatim>\<open>src/sock/fake_ipv4.go\<close>, \<^verbatim>\<open>fake_ipv6.go\<close>, \<^verbatim>\<open>payload.go\<close>,
  \<^verbatim>\<open>sendFakeSNISequence\<close> of \<^verbatim>\<open>src/nfq/nfq.go\<close> and \<^verbatim>\<open>nfq_ipv6.go\<close>) and the fake SYNs of \<^verbatim>\<open>src/nfq/syn.go\<close>. A fake must not be taken for
  data by the server: by the strategy of the set its hop limit is too small, its checksum wrong, its sequence
  number old, or its timestamp old. The result of a sender is the list of packets it hands to the raw socket.
\<close>

subsection \<open>Building a fake\<close>

definition fakeTTLOrDefault :: "byte \<Rightarrow> byte" where
  "fakeTTLOrDefault configured = (if configured = 0 then 5 else configured)"

definition resolveFakeTTL :: "byte \<Rightarrow> byte \<Rightarrow> byte" where
  "resolveFakeTTL configured originalTTL =
     (let ttl = fakeTTLOrDefault configured;
          ttl = (if ttl \<ge> originalTTL \<and> originalTTL > 1 then originalTTL - 1 else ttl)
      in if ttl < 1 then 1 else ttl)"

text \<open>\<^const>\<open>None\<close> for the draw is a random source that fails.\<close>

definition setDistinctIPID :: "bytes \<Rightarrow> bytes \<Rightarrow> 16 word option \<Rightarrow> bytes option" where
  "setDistinctIPID fake original r =
     (if length fake < 6 \<or> length original < 6 then Some fake
      else case r of
        None \<Rightarrow> Some fake
      | Some ident \<Rightarrow> do {
          orig \<leftarrow> be16 original 4;
          let ident = (if ident = word_of_nat orig then ident + 1 else ident);
          put_at fake 4 (put16 (unat ident)) })"

definition fake_payload :: "golib \<Rightarrow> payloads \<Rightarrow> FakeSettings \<Rightarrow> fake_draws \<Rightarrow> bytes option \<Rightarrow> bytes option" where
  "fake_payload L C fk dr originalTLS = do {
     let real = (case originalTLS of None \<Rightarrow> [] | Some b \<Rightarrow> b);
     let p = (if SNIType fk = 6 \<and> real \<noteq> [] then map NOT real else GetPayload C fk (rnd_payload dr));
     p \<leftarrow> (if TLSMod fk \<noteq> [] then ApplyTLSMod p originalTLS (ParseTLSMod L (TLSMod fk)) (rnd_random dr) else Some p);
     MatchPayloadLength (rnd_name dr) p real (FakeLenMode fk) }"

text \<open>The \<^verbatim>\<open>switch\<close> over the strategy: the changed packet and whether its checksum is to be spoilt.\<close>

definition fake_strategy ::
    "FakeSettings \<Rightarrow> fake_draws \<Rightarrow> bytes \<Rightarrow> nat \<Rightarrow> nat \<Rightarrow> bool \<Rightarrow> (bytes \<times> bool) option" where
  "fake_strategy fk dr fake l3 dlen v6 =
     (if fk_Strategy fk = str ''pastseq'' then do {
        let off = (if SeqOffset fk = 0 then 8192 else SeqOffset fk);
        sq \<leftarrow> be32 fake (l3 + 4);
        fake \<leftarrow> put_at fake (l3 + 4) (put32 (unat (word_of_nat sq - off)));
        Some (fake, False) }
      else if fk_Strategy fk = str ''randseq'' then
        if SeqOffset fk = 0 then do {
          fake \<leftarrow> put_at fake (l3 + 4) (put32 (unat (rnd_seq dr)));
          Some (fake, False) }
        else do {
          sq \<leftarrow> be32 fake (l3 + 4);
          fake \<leftarrow> put_at fake (l3 + 4) (put32 (unat (word_of_nat sq - (SeqOffset fk + word_of_nat dlen))));
          Some (fake, False) }
      else if fk_Strategy fk = str ''timestamp'' then do {
        let dec = (if TimestampDecrease fk = 0 then 600000 else TimestampDecrease fk);
        (fake, ok) \<leftarrow> DecreaseTCPTimestamp fake dec v6;
        Some (fake, \<not> ok) }
      else Some (fake, fk_Strategy fk = str ''tcp_check''))"

definition spoil :: "bytes \<Rightarrow> nat \<Rightarrow> bytes option" where
  "spoil p l3 = do { b \<leftarrow> at p (l3 + 16); put_at p (l3 + 16) [b XOR 0xFF] }"

text \<open>The fake as it is when its strategy is applied: the old headers, the new payload, its length, identification and hop limit.\<close>

definition fake_header4 :: "FakeSettings \<Rightarrow> fake_draws \<Rightarrow> bytes \<Rightarrow> nat \<Rightarrow> bytes \<Rightarrow> bytes option" where
  "fake_header4 fk dr original payloadStart pl = do {
     hdr \<leftarrow> sub_bytes original 0 payloadStart;
     let fake = hdr @ pl;
     fake \<leftarrow> put_at fake 2 (put16 (length fake));
     fake \<leftarrow> setDistinctIPID fake original (rnd_ipid dr);
     if ApplyTTL fk \<or> fk_Strategy fk = str ''ttl'' then do {
       t \<leftarrow> at original 8;
       put_at fake 8 [resolveFakeTTL (fk_TTL fk) t] }
     else Some fake }"

definition BuildFakeSNIPacketV4 :: "golib \<Rightarrow> payloads \<Rightarrow> FakeSettings \<Rightarrow> fake_draws \<Rightarrow> bytes \<Rightarrow> bytes option option" where
  "BuildFakeSNIPacketV4 L C fk dr original =
     (if length original < 40 \<or> drop_bit 4 (original ! 0) \<noteq> 4 then Some None
      else do {
        ipHdrLen \<leftarrow> ip_hdr_len original;
        tcpHdrLen \<leftarrow> tcp_hdr_len original ipHdrLen;
        let payloadStart = ipHdrLen + tcpHdrLen;
        pl \<leftarrow> fake_payload L C fk dr (if length original > payloadStart then Some (drop payloadStart original) else None);
        fake \<leftarrow> fake_header4 fk dr original payloadStart pl;
        (fake, badsum) \<leftarrow> fake_strategy fk dr fake ipHdrLen (length original - payloadStart) False;
        fake \<leftarrow> fix_ip_header fake ipHdrLen;
        fake \<leftarrow> FixTCPChecksum fake;
        fake \<leftarrow> (if badsum then spoil fake ipHdrLen else Some fake);
        Some (Some fake) })"

definition fake_header6 :: "FakeSettings \<Rightarrow> bytes \<Rightarrow> nat \<Rightarrow> bytes \<Rightarrow> bytes option" where
  "fake_header6 fk original tcpHdrLen pl = do {
     hdr \<leftarrow> sub_bytes original 0 (40 + tcpHdrLen);
     let fake = hdr @ pl;
     fake \<leftarrow> put_at fake 4 (put16 (tcpHdrLen + length pl));
     if ApplyTTL fk \<or> fk_Strategy fk = str ''ttl'' then do {
       t \<leftarrow> at original 7;
       put_at fake 7 [resolveFakeTTL (fk_TTL fk) t] }
     else Some fake }"

definition BuildFakeSNIPacketV6 :: "golib \<Rightarrow> payloads \<Rightarrow> FakeSettings \<Rightarrow> fake_draws \<Rightarrow> bytes \<Rightarrow> bytes option option" where
  "BuildFakeSNIPacketV6 L C fk dr original =
     (if length original < 60 \<or> drop_bit 4 (original ! 0) \<noteq> 6 \<or> original ! 6 \<noteq> 6 then Some None
      else do {
        tcpHdrLen \<leftarrow> tcp_hdr_len original 40;
        pl \<leftarrow> fake_payload L C fk dr (if length original > 40 + tcpHdrLen then Some (drop (40 + tcpHdrLen) original) else None);
        fake \<leftarrow> fake_header6 fk original tcpHdrLen pl;
        (fake, badsum) \<leftarrow> fake_strategy fk dr fake 40 (length original - 40 - tcpHdrLen) True;
        fake \<leftarrow> FixTCPChecksumV6 fake;
        fake \<leftarrow> (if badsum then spoil fake 40 else Some fake);
        Some (Some fake) })"

subsection \<open>Sending a sequence of fakes\<close>

definition TCPChecksumValidV6 :: "bytes \<Rightarrow> bool option" where
  "TCPChecksumValidV6 packet = do {
     probe \<leftarrow> FixTCPChecksumV6 packet;
     a \<leftarrow> at probe 56; b \<leftarrow> at packet 56;
     if a \<noteq> b then Some False
     else do { a \<leftarrow> at probe 57; b \<leftarrow> at packet 57; Some (a = b) } }"

definition CorruptTCPChecksumV6 :: "bytes \<Rightarrow> bytes option" where
  "CorruptTCPChecksumV6 packet = spoil packet 40"

text \<open>The loop: \<open>n\<close> packets, with \<open>step\<close> between one and the next.\<close>

fun seq_loop :: "(bytes \<Rightarrow> bytes option) \<Rightarrow> nat \<Rightarrow> bytes \<Rightarrow> bytes list option" where
  "seq_loop step 0 fake = Some []"
| "seq_loop step (Suc 0) fake = Some [fake]"
| "seq_loop step (Suc (Suc n)) fake = do {
     fake' \<leftarrow> step fake;
     rest \<leftarrow> seq_loop step (Suc n) fake';
     Some (fake # rest) }"

definition keeps_sequence :: "FakeSettings \<Rightarrow> bool" where
  "keeps_sequence fk \<longleftrightarrow> fk_Strategy fk = str ''pastseq'' \<or> fk_Strategy fk = str ''randseq''"

definition advance_seq :: "bytes \<Rightarrow> nat \<Rightarrow> nat \<Rightarrow> bytes option" where
  "advance_seq fake l3 payloadLen = do {
     sq \<leftarrow> be32 fake (l3 + 4);
     put_at fake (l3 + 4) (put32 (unat (word_of_nat sq + word_of_nat payloadLen :: 32 word))) }"

definition next_fake4 :: "FakeSettings \<Rightarrow> bool \<Rightarrow> nat \<Rightarrow> nat \<Rightarrow> bytes \<Rightarrow> bytes option" where
  "next_fake4 fk badsum ipHdrLen tcpHdrLen fake = do {
     ident \<leftarrow> be16 fake 4;
     fake \<leftarrow> put_at fake 4 (put16 (unat (word_of_nat ident + 1 :: 16 word)));
     if keeps_sequence fk then Some fake
     else do {
       fake \<leftarrow> advance_seq fake ipHdrLen (length fake - (ipHdrLen + tcpHdrLen));
       fake \<leftarrow> fix_ip_header fake ipHdrLen;
       fake \<leftarrow> FixTCPChecksum fake;
       if badsum then CorruptTCPChecksum fake else Some fake } }"

definition sign_fake4 :: "FakeSettings \<Rightarrow> fake_draws \<Rightarrow> bool \<Rightarrow> bytes \<Rightarrow> bytes option" where
  "sign_fake4 fk dr badsum fake =
     (if MD5OnFake fk then do {
        (fake, ok) \<leftarrow> AddTCPMD5Option fake False (rnd_md5 dr);
        if badsum then do { fake \<leftarrow> FixTCPChecksum fake; CorruptTCPChecksum fake } else Some fake }
      else Some fake)"

definition sendFakeSNISequence ::
    "golib \<Rightarrow> payloads \<Rightarrow> FakeSettings \<Rightarrow> fake_draws \<Rightarrow> bytes \<Rightarrow> bytes list option" where
  "sendFakeSNISequence L C fk dr original =
     (if \<not> fk_SNI fk \<or> SNISeqLength fk \<le> 0 then Some []
      else do {
        built \<leftarrow> BuildFakeSNIPacketV4 L C fk dr original;
        case built of
          None \<Rightarrow> Some []
        | Some fake \<Rightarrow> do {
            valid \<leftarrow> TCPChecksumValid fake;
            fake \<leftarrow> sign_fake4 fk dr (\<not> valid) fake;
            ipHdrLen \<leftarrow> ip_hdr_len fake;
            tcpHdrLen \<leftarrow> tcp_hdr_len fake ipHdrLen;
            seq_loop (next_fake4 fk (\<not> valid) ipHdrLen tcpHdrLen) (nat (SNISeqLength fk)) fake } })"

definition next_fake6 :: "FakeSettings \<Rightarrow> bool \<Rightarrow> bytes \<Rightarrow> bytes option" where
  "next_fake6 fk badsum fake =
     (if keeps_sequence fk then Some fake
      else do {
        tcpHdrLen \<leftarrow> tcp_hdr_len fake 40;
        fake \<leftarrow> advance_seq fake 40 (length fake - (40 + tcpHdrLen));
        fake \<leftarrow> FixTCPChecksumV6 fake;
        if badsum then CorruptTCPChecksumV6 fake else Some fake })"

definition sign_fake6 :: "FakeSettings \<Rightarrow> fake_draws \<Rightarrow> bool \<Rightarrow> bytes \<Rightarrow> bytes option" where
  "sign_fake6 fk dr badsum fake =
     (if MD5OnFake fk then do {
        (fake, ok) \<leftarrow> AddTCPMD5Option fake True (rnd_md5 dr);
        if badsum then do { fake \<leftarrow> FixTCPChecksumV6 fake; CorruptTCPChecksumV6 fake } else Some fake }
      else Some fake)"

definition sendFakeSNISequencev6 ::
    "golib \<Rightarrow> payloads \<Rightarrow> FakeSettings \<Rightarrow> fake_draws \<Rightarrow> bytes \<Rightarrow> bytes list option" where
  "sendFakeSNISequencev6 L C fk dr original =
     (if \<not> fk_SNI fk \<or> SNISeqLength fk \<le> 0 then Some []
      else do {
        plain \<leftarrow> hasPlainIPv6Header original 6;
        if \<not> plain then Some []
        else do {
          built \<leftarrow> BuildFakeSNIPacketV6 L C fk dr original;
          case built of
            None \<Rightarrow> Some []
          | Some fake \<Rightarrow> do {
              valid \<leftarrow> TCPChecksumValidV6 fake;
              fake \<leftarrow> sign_fake6 fk dr (\<not> valid) fake;
              seq_loop (next_fake6 fk (\<not> valid)) (nat (SNISeqLength fk)) fake } } })"

subsection \<open>What all fakes have in common\<close>

text \<open>What a strategy promises: the sequence number of the fake, its options, and whether its checksum is wrong.\<close>

definition fake_seq :: "FakeSettings \<Rightarrow> fake_draws \<Rightarrow> 32 word \<Rightarrow> nat \<Rightarrow> 32 word" where
  "fake_seq fk dr s dlen =
     (if fk_Strategy fk = str ''pastseq'' then s - (if SeqOffset fk = 0 then 8192 else SeqOffset fk)
      else if fk_Strategy fk = str ''randseq'' then
        (if SeqOffset fk = 0 then rnd_seq dr else s - (SeqOffset fk + word_of_nat dlen))
      else s)"

definition old_timestamp :: "FakeSettings \<Rightarrow> 32 word" where
  "old_timestamp fk = (if TimestampDecrease fk = 0 then 600000 else TimestampDecrease fk)"

definition fake_options :: "FakeSettings \<Rightarrow> (byte \<times> bytes) list \<Rightarrow> (byte \<times> bytes) list" where
  "fake_options fk os = (if fk_Strategy fk = str ''timestamp'' then turn_back (old_timestamp fk) os else os)"

definition fake_bad :: "FakeSettings \<Rightarrow> (byte \<times> bytes) list \<Rightarrow> bool" where
  "fake_bad fk os \<longleftrightarrow> fk_Strategy fk = str ''tcp_check'' \<or> (fk_Strategy fk = str ''timestamp'' \<and> \<not> has_timestamp os)"

text \<open>The contract of the two families: \<open>shape d data t p\<close> is a packet with a TCP header of \<open>d\<close> bytes, consistent lengths, the data and the hop
  limit; \<open>sum_ok\<close> says that the checksum of its segment is right; \<open>refix\<close> repairs that checksum, \<open>reseal\<close> all checksums.\<close>

locale fake_family =
  fixes h :: nat and v6 :: bool and shape :: "nat \<Rightarrow> bytes \<Rightarrow> byte \<Rightarrow> bytes \<Rightarrow> bool" and sum_ok :: "bytes \<Rightarrow> bool"
    and refix :: "bytes \<Rightarrow> bytes option" and reseal :: "bytes \<Rightarrow> bytes option"
  assumes shape_bounds: "shape d data t p \<Longrightarrow> 20 \<le> d \<and> length p = h + d + length data \<and> length p \<le> 65535 \<and>
      tcp_hdr_len p h = Some d \<and> l3_len p v6 = Some h"
    and shape_seq: "shape d data t p \<Longrightarrow> length v = 4 \<Longrightarrow> shape d data t (patch p (h + 4) v)"
    and shape_sum: "shape d data t p \<Longrightarrow> length v \<le> 2 \<Longrightarrow> shape d data t (patch p (h + 16) v)"
    and shape_options: "shape d data t p \<Longrightarrow> length q = length p \<Longrightarrow> take (h + 20) q = take (h + 20) p \<Longrightarrow>
      drop (h + d) q = drop (h + d) p \<Longrightarrow> shape d data t q"
    and refix_eq: "shape d data t p \<Longrightarrow> \<exists>c. refix p = Some (patch p (h + 16) (put16 c)) \<and> sum_ok (patch p (h + 16) (put16 c))"
    and refix_ignores: "shape d data t p \<Longrightarrow> length v = 2 \<Longrightarrow> refix (patch p (h + 16) v) = refix p"
    and flip_breaks: "shape d data t p \<Longrightarrow> sum_ok p \<Longrightarrow> \<not> sum_ok (patch p (h + 16) [p ! (h + 16) XOR 0xFF])"
    and reseal_eq: "shape d data t p \<Longrightarrow> be32 p (h + 4) = Some (unat (s :: 32 word)) \<Longrightarrow> \<exists>q. reseal p = Some q \<and> shape d data t q \<and>
      be32 q (h + 4) = Some (unat s) \<and> sum_ok q \<and> refix q = Some q \<and> drop (h + 20) q = drop (h + 20) p"
    and signed: "shape d data t p \<Longrightarrow> be32 p (h + 4) = Some (unat (s :: 32 word)) \<Longrightarrow> length rnd = 16 \<Longrightarrow> length p + 20 \<le> 65535 \<Longrightarrow>
      \<exists>q ok. AddTCPMD5Option p v6 rnd = Some (q, ok) \<and>
        (if ok then shape (d + 20) data t q \<and> be32 q (h + 4) = Some (unat s) \<and> sum_ok q \<and>
           real_opts (tcp_options h (d + 20) q) = real_opts (tcp_options h d p) @ [(19, rnd)]
         else q = p)"
begin

definition fake :: "nat \<Rightarrow> 32 word \<Rightarrow> bytes \<Rightarrow> byte \<Rightarrow> bool \<Rightarrow> (byte \<times> bytes) list \<Rightarrow> bytes \<Rightarrow> bool" where
  "fake d s data t bad os q \<longleftrightarrow> shape d data t q \<and> be32 q (h + 4) = Some (unat s) \<and> (sum_ok q \<longleftrightarrow> \<not> bad) \<and> tcp_options h d q = os"

lemma same_tail: "drop (h + 20) q = drop (h + 20) p \<Longrightarrow> tcp_options h d q = tcp_options h d p"
  by (simp add: tcp_options_def)

lemma sum_field:
  assumes "shape d data t p" "length v \<le> 2"
  shows "length (patch p (h + 16) v) = length p" "be32 (patch p (h + 16) v) (h + 4) = be32 p (h + 4)"
    "tcp_options h d (patch p (h + 16) v) = tcp_options h d p"
  using assms shape_bounds [OF assms(1)] by (auto simp: be32_patch drop_patch intro!: same_tail)

lemma spoil_fake:
  assumes "fake d s data t False os q"
  shows "\<exists>q'. spoil q h = Some q' \<and> fake d s data t True os q' \<and> q' = patch q (h + 16) [q ! (h + 16) XOR 0xFF]"
proof -
  have sh: "shape d data t q" "sum_ok q" using assms by (auto simp: fake_def)
  have "h + 17 \<le> length q" using shape_bounds [OF sh(1)] by simp
  then show ?thesis using assms sum_field [OF sh(1)] shape_sum [OF sh(1)] flip_breaks [OF sh] by (simp add: spoil_def fake_def)
qed

lemma refix_fake:
  assumes "shape d data t p" "be32 p (h + 4) = Some (unat s)" "tcp_options h d p = os"
  shows "\<exists>q. refix p = Some q \<and> fake d s data t False os q \<and> refix q = Some q"
proof -
  obtain c where c: "refix p = Some (patch p (h + 16) (put16 c))" "sum_ok (patch p (h + 16) (put16 c))"
    using refix_eq [OF assms(1)] by blast
  then show ?thesis
    using assms sum_field [OF assms(1), of "put16 c"] shape_sum [OF assms(1)] refix_ignores [OF assms(1), of "put16 c"]
    by (simp add: fake_def)
qed

lemma advance_fake:
  assumes "fake d s data t bad os q"
  shows "\<exists>q'. (advance_seq q h (length q - (h + d)) \<bind> reseal) \<bind> (\<lambda>p. if bad then spoil p h else Some p) = Some q' \<and>
    fake d (s + word_of_nat (length data)) data t bad os q'"
proof -
  have f: "shape d data t q" "be32 q (h + 4) = Some (unat s)" "tcp_options h d q = os" using assms by (auto simp: fake_def)
  have b: "20 \<le> d" "length q = h + d + length data" using shape_bounds [OF f(1)] by auto
  define s' where "s' = s + word_of_nat (length data)"
  define p where "p = patch q (h + 4) (put32 (unat s'))"
  have adv: "advance_seq q h (length q - (h + d)) = Some p" using f b by (simp add: advance_seq_def p_def s'_def)
  have p: "shape d data t p" "be32 p (h + 4) = Some (unat s')" "tcp_options h d p = os"
    using f b shape_seq [OF f(1)] by (auto simp: p_def be32_patch_same drop_patch tcp_options_def)
  obtain r where r: "reseal p = Some r" "fake d s' data t False os r"
  proof -
    obtain r where r: "reseal p = Some r" "shape d data t r" "be32 r (h + 4) = Some (unat s')" "sum_ok r"
        "drop (h + 20) r = drop (h + 20) p" using reseal_eq [OF p(1,2)] by blast
    then show thesis using that p(3) same_tail [OF r(5), of d] by (simp add: fake_def)
  qed
  show ?thesis using adv r spoil_fake [OF r(2)] by (cases bad) (auto simp: s'_def)
qed

lemma sign_fake:
  assumes "fake d s data t bad os q" "length rnd = 16" "length q + 20 \<le> 65535"
  shows "\<exists>q' d' rest. (AddTCPMD5Option q v6 rnd \<bind> (\<lambda>(p, ok). if bad then refix p \<bind> (\<lambda>p. spoil p h) else Some p)) = Some q' \<and>
    real_opts (tcp_options h d' q') = real_opts os @ rest \<and> fake d' s data t bad (tcp_options h d' q') q'"
proof -
  have f: "shape d data t q" "be32 q (h + 4) = Some (unat s)" "tcp_options h d q = os" "sum_ok q \<longleftrightarrow> \<not> bad"
    using assms by (auto simp: fake_def)
  obtain p ok where p: "AddTCPMD5Option q v6 rnd = Some (p, ok)"
      and ok: "if ok then shape (d + 20) data t p \<and> be32 p (h + 4) = Some (unat s) \<and> sum_ok p \<and>
           real_opts (tcp_options h (d + 20) p) = real_opts (tcp_options h d q) @ [(19, rnd)] else p = q"
    using signed [OF f(1,2) assms(2,3)] by blast
  obtain d' rest where d: "shape d' data t p" "be32 p (h + 4) = Some (unat s)" "real_opts (tcp_options h d' p) = real_opts os @ rest"
      "\<not> bad \<longrightarrow> sum_ok p"
    using ok f by (cases ok) auto
  show ?thesis
  proof (cases bad)
    case True
    obtain r where r: "refix p = Some r" "fake d' s data t False (tcp_options h d' p) r" using refix_fake [OF d(1,2)] by blast
    obtain q' where q': "spoil r h = Some q'" "fake d' s data t True (tcp_options h d' p) q'" using spoil_fake [OF r(2)] by blast
    then have "tcp_options h d' q' = tcp_options h d' p" by (simp add: fake_def)
    then have "real_opts (tcp_options h d' q') = real_opts os @ rest" "fake d' s data t bad (tcp_options h d' q') q'"
      using d(3) q'(2) True by simp_all
    then show ?thesis using True p r(1) q'(1) by auto
  next
    case False
    then show ?thesis using p d by (auto simp: fake_def)
  qed
qed

lemma strategy_fake:
  assumes p: "shape d data t p" "be32 p (h + 4) = Some (unat s)" "tcp_options h d p = os"
  shows "\<exists>q. fake_strategy fk dr p h dlen v6 = Some (q, fake_bad fk os) \<and> shape d data t q \<and>
    be32 q (h + 4) = Some (unat (fake_seq fk dr s dlen)) \<and> tcp_options h d q = fake_options fk os"
proof -
  have b: "20 \<le> d" "length p = h + d + length data" "tcp_hdr_len p h = Some d" "l3_len p v6 = Some h"
    using shape_bounds [OF p(1)] by auto
  have w: "put_at p (h + 4) (put32 (unat x)) = Some (patch p (h + 4) (put32 (unat x)))" "shape d data t (patch p (h + 4) (put32 (unat x)))"
      "be32 (patch p (h + 4) (put32 (unat x))) (h + 4) = Some (unat x)" "tcp_options h d (patch p (h + 4) (put32 (unat x))) = os"
    for x :: "32 word"
    using b p(3) shape_seq [OF p(1)] by (auto simp: be32_patch_same drop_patch tcp_options_def)
  consider (seq) "fk_Strategy fk = str ''pastseq'' \<or> fk_Strategy fk = str ''randseq''" | (ts) "fk_Strategy fk = str ''timestamp''"
    | (other) "fk_Strategy fk \<noteq> str ''pastseq''" "fk_Strategy fk \<noteq> str ''randseq''" "fk_Strategy fk \<noteq> str ''timestamp''" by blast
  then show ?thesis
  proof cases
    case seq
    then have "fake_strategy fk dr p h dlen v6 = Some (patch p (h + 4) (put32 (unat (fake_seq fk dr s dlen))), fake_bad fk os)"
      using p w(1) by (auto simp: fake_strategy_def fake_seq_def fake_bad_def str_def)
    then show ?thesis using seq w by (auto simp: fake_options_def str_def)
  next
    case ts
    obtain q where q: "DecreaseTCPTimestamp p (old_timestamp fk) v6 = Some (q, has_timestamp os)" "length q = length p"
        "take (h + 20) q = take (h + 20) p" "drop (h + d) q = drop (h + d) p" "tcp_options h d q = turn_back (old_timestamp fk) os"
      using timestamp_turned_back [OF b(4,3,1)] b p(3) by auto
    have n: "q ! i = p ! i" if "i < h + 20" for i using q(3) that by (metis nth_take)
    have "be32 q (h + 4) = be32 p (h + 4)" using b q(2) by (simp add: be32_lt n)
    then show ?thesis using ts q p shape_options [OF p(1) q(2,3,4)]
      by (auto simp: fake_strategy_def fake_seq_def fake_bad_def fake_options_def old_timestamp_def str_def)
  next
    case other
    then show ?thesis using p by (auto simp: fake_strategy_def fake_seq_def fake_bad_def fake_options_def)
  qed
qed

definition sum_probe :: "bytes \<Rightarrow> bool option" where
  "sum_probe q = do {
     probe \<leftarrow> refix q;
     a \<leftarrow> at probe (h + 16); b \<leftarrow> at q (h + 16);
     if a \<noteq> b then Some False
     else do { a \<leftarrow> at probe (h + 17); b \<leftarrow> at q (h + 17); Some (a = b) } }"

lemma xor_ff: "(x :: byte) XOR 0xFF \<noteq> x"
proof -
  have "unat (x XOR 0xFF) \<noteq> unat x" unfolding unat_flip using unat_byte_less [of x] by presburger
  then show ?thesis by metis
qed

text \<open>A built fake: the strategy applied, all checksums repaired, then spoilt if the strategy says so.\<close>

lemma built_fake:
  assumes p: "shape d data t p" "be32 p (h + 4) = Some (unat s)" "tcp_options h d p = os"
  shows "\<exists>q. (fake_strategy fk dr p h dlen v6 \<bind> (\<lambda>(p, bad). reseal p \<bind> (\<lambda>p. if bad then spoil p h else Some p))) = Some q \<and>
    fake d (fake_seq fk dr s dlen) data t (fake_bad fk os) (fake_options fk os) q \<and> sum_probe q = Some (\<not> fake_bad fk os)"
proof -
  obtain p1 where p1: "fake_strategy fk dr p h dlen v6 = Some (p1, fake_bad fk os)" "shape d data t p1"
      "be32 p1 (h + 4) = Some (unat (fake_seq fk dr s dlen))" "tcp_options h d p1 = fake_options fk os"
    using strategy_fake [OF p] by blast
  obtain r where r: "reseal p1 = Some r" "shape d data t r" "be32 r (h + 4) = Some (unat (fake_seq fk dr s dlen))" "sum_ok r"
      "refix r = Some r" "drop (h + 20) r = drop (h + 20) p1" using reseal_eq [OF p1(2,3)] by blast
  have fr: "fake d (fake_seq fk dr s dlen) data t False (fake_options fk os) r"
    using r p1(4) same_tail [OF r(6), of d] by (simp add: fake_def)
  have l: "h + 18 \<le> length r" using shape_bounds [OF r(2)] by simp
  show ?thesis
  proof (cases "fake_bad fk os")
    case False
    then show ?thesis using p1(1) r(1,5) fr l by (simp add: sum_probe_def)
  next
    case True
    define x where "x = r ! (h + 16) XOR 0xFF"
    obtain q where q: "spoil r h = Some q" "fake d (fake_seq fk dr s dlen) data t True (fake_options fk os) q" "q = patch r (h + 16) [x]"
      using spoil_fake [OF fr] by (auto simp: x_def)
    have "patch r (h + 16) [x] = patch r (h + 16) [x, r ! (h + 17)]"
      using l Cons_nth_drop_Suc [of "h + 17" r] by (simp add: patch_def numeral_2_eq_2 add.commute)
    then have "refix q = Some r" using refix_ignores [OF r(2), of "[x, r ! (h + 17)]"] r(5) q(3) by simp
    moreover have "q ! (h + 16) = x" using nth_patch_in [of "h + 16" "[x]" r "h + 16"] l q(3) by simp
    moreover have "length q = length r" using l q(3) by simp
    ultimately have "sum_probe q = Some False" using l xor_ff [of "r ! (h + 16)"] by (simp add: sum_probe_def x_def)
    then show ?thesis using True p1(1) r(1) q(1,2) by simp
  qed
qed

end

subsection \<open>Both families\<close>

definition shape4 :: "nat \<Rightarrow> nat \<Rightarrow> bytes \<Rightarrow> byte \<Rightarrow> bytes \<Rightarrow> bool" where
  "shape4 h d data t p \<longleftrightarrow> raw4 h d data t p \<and> be16 p 2 = Some (length p)"

definition reseal4 :: "nat \<Rightarrow> bytes \<Rightarrow> bytes option" where
  "reseal4 h p = fix_ip_header p h \<bind> FixTCPChecksum"

lemma shape4_patch:
  assumes "shape4 h d data t p" "0 < i" "i + length v \<le> h + 20" "i + length v \<le> 8 \<or> 8 < i" "i + length v \<le> h + 12 \<or> h + 12 < i"
    "i + length v \<le> 2 \<or> 4 \<le> i"
  shows "shape4 h d data t (patch p i v)"
proof -
  have r: "raw4 h d data t p" and b: "20 \<le> d" "20 \<le> h" "h + d \<le> length p" using assms(1) by (auto simp: shape4_def raw4_def)
  have l: "i + length v \<le> length p" using assms(3) b by simp
  have "be16 (patch p i v) 2 = be16 p 2" using assms(6) b l by (intro be16_patch) auto
  then show ?thesis using assms raw4_patch [OF r, of i v] b l by (simp add: shape4_def)
qed

lemma FixTCPChecksum_ignores:
  assumes "shape4 h d data t p" "length v = 2"
  shows "FixTCPChecksum (patch p (h + 16) v) = FixTCPChecksum p"
proof -
  have r: "ip_hdr_len p = Some h" "20 \<le> h" "h + 18 \<le> length p" using assms(1) by (auto simp: shape4_def raw4_def)
  have "shape4 h d data t (patch p (h + 16) v)" using assms r by (intro shape4_patch) auto
  then have hp: "ip_hdr_len (patch p (h + 16) v) = Some h" by (simp add: shape4_def raw4_def)
  have z: "patch (patch p (h + 16) [0]) (h + 17) [0] = patch p (h + 16) [0, 0]"
    using r patch_two [of "h + 16" p 0 0] by (simp add: add.commute)
  have z': "patch (patch (patch p (h + 16) v) (h + 16) [0]) (h + 17) [0] = patch p (h + 16) [0, 0]"
    using r assms(2) patch_two [of "h + 16" "patch p (h + 16) v" 0 0] by (simp add: add.commute patch_patch)
  show ?thesis unfolding FixTCPChecksum_def using hp r assms(2) by (simp add: z z')
qed

interpretation f4: fake_family h False "shape4 h" "\<lambda>p. tcp4_valid p h (length p)" FixTCPChecksum "reseal4 h" for h
proof
  fix d data t p
  assume sh: "shape4 h d data t p"
  have raw: "raw4 h d data t p" and len: "be16 p 2 = Some (length p)" and r: "ip_hdr_len p = Some h" "20 \<le> h" "20 \<le> d" "h + 20 \<le> length p"
    using sh by (auto simp: shape4_def raw4_def)
  show "20 \<le> d \<and> length p = h + d + length data \<and> length p \<le> 65535 \<and> tcp_hdr_len p h = Some d \<and> l3_len p False = Some h"
    using raw by (auto simp: raw4_def l3_len_def)
  show "shape4 h d data t (patch p (h + 4) v)" if "length v = 4" for v using that r by (intro shape4_patch [OF sh]) auto
  show sum: "shape4 h d data t (patch p (h + 16) v)" if "length v \<le> 2" for v using that r by (intro shape4_patch [OF sh]) auto
  show "shape4 h d data t q" if q: "length q = length p" "take (h + 20) q = take (h + 20) p" "drop (h + d) q = drop (h + d) p" for q
  proof -
    have n: "q ! i = p ! i" if "i < h + 20" for i using q(2) that by (metis nth_take)
    have "tcp_hdr_len q h = tcp_hdr_len p h" "be16 q 2 = be16 p 2" "q ! 8 = p ! 8"
      using q(1) r n by (auto simp: tcp_hdr_len_def be16_lt)
    moreover have "ip_hdr_len q = Some h" using r q(1) n [of 0] by (auto simp: ip_hdr_len_eq)
    ultimately show ?thesis using sh q(1,3) r(1) by (simp add: shape4_def raw4_def)
  qed
  show "\<exists>c. FixTCPChecksum p = Some (patch p (h + 16) (put16 c)) \<and>
      tcp4_valid (patch p (h + 16) (put16 c)) h (length (patch p (h + 16) (put16 c)))"
    using FixTCPChecksum_eq [OF r(1,2) len] r by auto
  show ign: "FixTCPChecksum (patch p (h + 16) v) = FixTCPChecksum p" if "length v = 2" for v
    by (rule FixTCPChecksum_ignores [OF sh that])
  show "\<not> tcp4_valid (patch p (h + 16) [p ! (h + 16) XOR 0xFF]) h (length (patch p (h + 16) [p ! (h + 16) XOR 0xFF]))"
    if "tcp4_valid p h (length p)"
    using corrupt_checksum_facts [OF r(1,2) _ order_refl that] r by (auto simp: CorruptTCPChecksum_def)
  show "\<exists>q. reseal4 h p = Some q \<and> shape4 h d data t q \<and> be32 q (h + 4) = Some (unat s) \<and> tcp4_valid q h (length q) \<and>
      FixTCPChecksum q = Some q \<and> drop (h + 20) q = drop (h + 20) p" if sq: "be32 p (h + 4) = Some (unat s)" for s :: "32 word"
  proof -
    obtain c where c: "fix_ip_header p h = Some (patch p 10 (put16 c))" using fix_ip_header_eq [OF r(1,2)] r(4) by auto
    define p1 where "p1 = patch p 10 (put16 c)"
    have s1: "shape4 h d data t p1" unfolding p1_def using r by (intro shape4_patch [OF sh]) auto
    have h1: "ip_hdr_len p1 = Some h" "be16 p1 2 = Some (length p1)" "length p1 = length p"
      using s1 r by (auto simp: shape4_def raw4_def p1_def)
    obtain c' where c': "FixTCPChecksum p1 = Some (patch p1 (h + 16) (put16 c'))"
        "tcp4_valid (patch p1 (h + 16) (put16 c')) h (length p1)"
      using FixTCPChecksum_eq [OF h1(1) r(2) h1(2)] h1 r by auto
    define q where "q = patch p1 (h + 16) (put16 c')"
    have "shape4 h d data t q" unfolding q_def using r by (intro shape4_patch [OF s1]) auto
    moreover have "FixTCPChecksum q = Some q" using FixTCPChecksum_ignores [OF s1, of "put16 c'"] c' by (simp add: q_def)
    moreover have "be32 q (h + 4) = Some (unat s)" "drop (h + 20) q = drop (h + 20) p" "length q = length p1"
      using sq r h1(3) by (auto simp: q_def p1_def be32_patch drop_patch)
    ultimately show ?thesis using c c' by (simp add: reseal4_def p1_def [symmetric] q_def [symmetric])
  qed
  show "\<exists>q ok. AddTCPMD5Option p False rnd = Some (q, ok) \<and>
      (if ok then shape4 h (d + 20) data t q \<and> be32 q (h + 4) = Some (unat s) \<and> tcp4_valid q h (length q) \<and>
         real_opts (tcp_options h (d + 20) q) = real_opts (tcp_options h d p) @ [(19, rnd)] else q = p)"
    if sg: "be32 p (h + 4) = Some (unat s)" "length rnd = 16" "length p + 20 \<le> 65535" for s :: "32 word" and rnd
  proof -
    obtain q ok where "AddTCPMD5Option p False rnd = Some (q, ok)" "if ok then good4 h (d + 20) s data t q \<and>
       real_opts (tcp_options h (d + 20) q) = real_opts (tcp_options h d p) @ [(19, rnd)] else q = p \<and> 20 < d"
      using md5_4 [OF raw sg] by blast
    then show ?thesis by (cases ok) (auto simp: good4_def shape4_def)
  qed
qed

definition shape6 :: "nat \<Rightarrow> bytes \<Rightarrow> byte \<Rightarrow> bytes \<Rightarrow> bool" where
  "shape6 d data t p \<longleftrightarrow> raw6 d data t p \<and> be16 p 4 = Some (length p - 40)"

lemma shape6_patch:
  assumes "shape6 d data t p" "0 < i" "i + length v \<le> 60" "8 \<le> i" "i + length v \<le> 52 \<or> 52 < i"
  shows "shape6 d data t (patch p i v)"
proof -
  have r: "raw6 d data t p" and b: "20 \<le> d" "40 + d \<le> length p" using assms(1) by (auto simp: shape6_def raw6_def)
  have l: "i + length v \<le> length p" using assms(3) b by simp
  have "be16 (patch p i v) 4 = be16 p 4" using assms(4) b l by (intro be16_patch) auto
  then show ?thesis using assms raw6_patch [OF r, of i v] b l by (simp add: shape6_def)
qed

lemma FixTCPChecksumV6_ignores:
  assumes "60 \<le> length p" "length v = 2"
  shows "FixTCPChecksumV6 (patch p 56 v) = FixTCPChecksumV6 p"
proof -
  have z: "patch (patch p 56 [0]) 57 [0] = patch p 56 [0, 0]"
    using assms patch_two [of 56 p 0 0] by simp
  have z': "patch (patch (patch p 56 v) 56 [0]) 57 [0] = patch p 56 [0, 0]"
    using assms patch_two [of 56 "patch p 56 v" 0 0] by (simp add: patch_patch)
  show ?thesis unfolding FixTCPChecksumV6_def using assms by (simp add: z z')
qed

lemma flip_first_byte:
  assumes pre: "even (length pre)" and seg: "18 \<le> length seg" "inet_ok (pre @ seg)"
  shows "\<not> inet_ok (pre @ patch seg 16 [seg ! 16 XOR 0xFF])"
proof -
  define x y where "x = seg ! 16" and "y = seg ! 17"
  define S where "S = words_sum pre + words_sum (take 16 seg) + words_sum (drop 18 seg) + unat y"
  have e: "inet_ok (pre @ patch seg 16 [a, y]) \<longleftrightarrow> (S + 256 * unat a) mod 65535 = 0" for a
    unfolding inet_ok_def words_sum_append [OF pre] using words_sum_patch [of 16 seg a y] seg(1) by (simp add: S_def ac_simps)
  have "patch seg 16 [x, y] = seg" using patch_same [of 16 seg] seg(1) by (simp add: x_def y_def)
  then have w: "(S + 256 * unat x) mod 65535 = 0" using e [of x] seg(2) by simp
  have "patch seg 16 [x XOR 0xFF] = patch seg 16 [x XOR 0xFF, y]"
    using seg(1) Cons_nth_drop_Suc [of 17 seg] by (simp add: patch_def y_def)
  moreover have "\<not> inet_ok (pre @ patch seg 16 [x XOR 0xFF, y])"
    unfolding e using flip_byte_multiple [OF w] unat_byte_less [of x] by (simp add: unat_flip)
  ultimately show ?thesis by (simp add: x_def)
qed

lemma tcp6_flip:
  assumes "60 \<le> length p" "tcp6_valid p (length p - 40)"
  shows "\<not> tcp6_valid (patch p 56 [p ! 56 XOR 0xFF]) (length p - 40)"
proof -
  have dp: "drop 40 (patch p 56 [b]) = patch (drop 40 p) 16 [b]" for b using assms(1) by (simp add: drop_patch_in)
  have sl: "take 16 (drop a (patch p 56 [b])) = take 16 (drop a p)" if "a \<le> 24" for a b using that assms(1) by (simp add: slice_patch)
  have l: "18 \<le> length (drop 40 p)" "drop 40 p ! 16 = p ! 56" "length (patch (drop 40 p) 16 [b]) = length p - 40" for b
    using assms(1) by auto
  have "inet_ok (pseudo6 6 (take 16 (drop 8 p)) (take 16 (drop 24 p)) (length p - 40) @ drop 40 p)" using assms by (simp add: tcp6_valid_def)
  from flip_first_byte [OF _ l(1) this] have
    "\<not> inet_ok (pseudo6 6 (take 16 (drop 8 p)) (take 16 (drop 24 p)) (length p - 40) @ patch (drop 40 p) 16 [p ! 56 XOR 0xFF])"
    using assms(1) l(2) by simp
  then show ?thesis unfolding tcp6_valid_def dp using l(3) by (simp add: sl)
qed

interpretation f6: fake_family 40 True shape6 "\<lambda>p. tcp6_valid p (length p - 40)" FixTCPChecksumV6 FixTCPChecksumV6
proof
  fix d data t p
  assume sh: "shape6 d data t p"
  have raw: "raw6 d data t p" and len: "be16 p 4 = Some (length p - 40)" and r: "20 \<le> d" "60 \<le> length p"
    using sh by (auto simp: shape6_def raw6_def)
  show "20 \<le> d \<and> length p = 40 + d + length data \<and> length p \<le> 65535 \<and> tcp_hdr_len p 40 = Some d \<and> l3_len p True = Some 40"
    using raw by (auto simp: raw6_def l3_len_def)
  show "shape6 d data t (patch p (40 + 4) v)" if "length v = 4" for v using that by (simp, intro shape6_patch [OF sh]) auto
  show "shape6 d data t (patch p (40 + 16) v)" if "length v \<le> 2" for v using that by (simp, intro shape6_patch [OF sh]) auto
  show "shape6 d data t q" if q: "length q = length p" "take (40 + 20) q = take (40 + 20) p" "drop (40 + d) q = drop (40 + d) p" for q
  proof -
    have n: "q ! i = p ! i" if "i < 60" for i 
    proof -
      have "take 60 q = take 60 p" using q(2) by simp
      then show ?thesis using that by (metis nth_take)
    qed
    have "tcp_hdr_len q 40 = tcp_hdr_len p 40" "be16 q 4 = be16 p 4" "q ! 0 = p ! 0" "q ! 6 = p ! 6" "q ! 7 = p ! 7"
      using q(1) r n by (auto simp: tcp_hdr_len_def be16_lt)
    then show ?thesis using sh q(1,3) by (simp add: shape6_def raw6_def)
  qed
  have fx: "\<exists>c. FixTCPChecksumV6 p = Some (patch p 56 (put16 c)) \<and> tcp6_valid (patch p 56 (put16 c)) (length p - 40)"
  proof -
    have "18 \<le> length p - 40" "40 + (length p - 40) \<le> length p" using r by linarith+
    then show ?thesis by (rule FixTCPChecksumV6_eq [OF len])
  qed
  then show "\<exists>c. FixTCPChecksumV6 p = Some (patch p (40 + 16) (put16 c)) \<and>
      tcp6_valid (patch p (40 + 16) (put16 c)) (length (patch p (40 + 16) (put16 c)) - 40)" using r by simp
  show "FixTCPChecksumV6 (patch p (40 + 16) v) = FixTCPChecksumV6 p" if "length v = 2" for v
    using FixTCPChecksumV6_ignores [OF r(2) that] by simp
  show "\<not> tcp6_valid (patch p (40 + 16) [p ! (40 + 16) XOR 0xFF]) (length (patch p (40 + 16) [p ! (40 + 16) XOR 0xFF]) - 40)"
    if "tcp6_valid p (length p - 40)"
    using tcp6_flip [OF r(2) that] r by simp
  show "\<exists>q. FixTCPChecksumV6 p = Some q \<and> shape6 d data t q \<and> be32 q (40 + 4) = Some (unat s) \<and> tcp6_valid q (length q - 40) \<and>
      FixTCPChecksumV6 q = Some q \<and> drop (40 + 20) q = drop (40 + 20) p" if sq: "be32 p (40 + 4) = Some (unat s)" for s :: "32 word"
  proof -
    obtain c where c: "FixTCPChecksumV6 p = Some (patch p 56 (put16 c))" "tcp6_valid (patch p 56 (put16 c)) (length p - 40)" using fx by blast
    define q where "q = patch p 56 (put16 c)"
    have "shape6 d data t q" unfolding q_def by (intro shape6_patch [OF sh]) auto
    moreover have "FixTCPChecksumV6 q = Some q" using FixTCPChecksumV6_ignores [OF r(2), of "put16 c"] c by (simp add: q_def)
    moreover have "be32 q 44 = Some (unat s)" "drop 60 q = drop 60 p" "length q = length p"
      using sq r by (auto simp: q_def be32_patch drop_patch)
    ultimately show ?thesis using c by (simp add: q_def [symmetric])
  qed
  show "\<exists>q ok. AddTCPMD5Option p True rnd = Some (q, ok) \<and>
      (if ok then shape6 (d + 20) data t q \<and> be32 q (40 + 4) = Some (unat s) \<and> tcp6_valid q (length q - 40) \<and>
         real_opts (tcp_options 40 (d + 20) q) = real_opts (tcp_options 40 d p) @ [(19, rnd)] else q = p)"
    if sg: "be32 p (40 + 4) = Some (unat s)" "length rnd = 16" "length p + 20 \<le> 65535" for s :: "32 word" and rnd
  proof -
    have "be32 p 44 = Some (unat s)" using sg(1) by simp
    then obtain q ok where "AddTCPMD5Option p True rnd = Some (q, ok)" "if ok then good6 (d + 20) s data t q \<and>
       real_opts (tcp_options 40 (d + 20) q) = real_opts (tcp_options 40 d p) @ [(19, rnd)] else q = p \<and> 20 < d"
      using md5_6 [OF raw _ sg(2,3)] by blast
    then show ?thesis by (cases ok) (auto simp: good6_def shape6_def)
  qed
qed

subsection \<open>The fakes that are sent\<close>

definition fake_ttl :: "FakeSettings \<Rightarrow> byte \<Rightarrow> byte" where
  "fake_ttl fk t = (if ApplyTTL fk \<or> fk_Strategy fk = str ''ttl'' then resolveFakeTTL (fk_TTL fk) t else t)"

lemma fake_ttl_less: "1 < t \<Longrightarrow> resolveFakeTTL c t < t"
proof -
  assume t: "1 < t"
  then have "unat t \<ge> 2" by (simp add: word_less_nat_alt)
  moreover from this have "t \<noteq> 0" by auto
  ultimately have "unat (t - 1) = unat t - 1" "unat (t - 1) < unat t"
    using unat_minus_one [of t] by auto
  then show ?thesis using t by (auto simp: resolveFakeTTL_def fakeTTLOrDefault_def Let_def word_less_nat_alt word_le_nat_alt)
qed

lemma fake_ttl_configured: "0 < c \<Longrightarrow> c < t \<Longrightarrow> resolveFakeTTL c t = c"
  by (auto simp: resolveFakeTTL_def fakeTTLOrDefault_def Let_def word_less_nat_alt word_le_nat_alt)

lemma no_panic_fake_payload: "length (rnd_random dr) = 32 \<Longrightarrow> no_panic (fake_payload L C fk dr orig)"
  unfolding fake_payload_def Let_def by (intro no_panic_intros matched_length(1)) (auto intro: no_panic_ApplyTLSMod)

lemma fake_header4_shape:
  assumes g: "good4 h d s data t p" and len: "h + d + length pl \<le> 65535"
  shows "\<exists>q. fake_header4 fk dr p (h + d) pl = Some q \<and> shape4 h d pl (fake_ttl fk t) q \<and> be32 q (h + 4) = Some (unat s) \<and>
    tcp_options h d q = tcp_options h d p"
proof -
  have raw: "raw4 h d data t p" and r: "20 \<le> h" "20 \<le> d" "h + d \<le> length p" "be32 p (h + 4) = Some (unat s)" "p ! 8 = t"
    using g by (auto simp: good4_def raw4_def)
  define p0 where "p0 = take (h + d) p @ pl"
  have p0: "sub_bytes p 0 (h + d) = Some (take (h + d) p)" "raw4 h d pl t p0" using raw4_replace [OF raw len] by (auto simp: p0_def)
  have l0: "length p0 = h + d + length pl" using p0(2) by (simp add: raw4_def)
  define p1 where "p1 = patch p0 2 (put16 (length p0))"
  have s1: "shape4 h d pl t p1" "length p1 = length p0"
    using raw4_patch [OF p0(2), of 2 "put16 (length p0)"] r l0 len by (auto simp: shape4_def p1_def be16_patch_same)
  have o0: "be32 p0 (h + 4) = be32 p (h + 4)" "tcp_options h d p0 = tcp_options h d p"
    using r l0 by (auto simp: be32_lt p0_def nth_append tcp_options_def drop_take)
  have o1: "be32 p1 (h + 4) = Some (unat s)" "tcp_options h d p1 = tcp_options h d p"
    using r l0 o0 by (auto simp: p1_def be32_patch tcp_options_def drop_patch)
  obtain p2 where p2: "setDistinctIPID p1 p (rnd_ipid dr) = Some p2" "p2 = p1 \<or> (\<exists>v. p2 = patch p1 4 (put16 v))"
    using r l0 s1(2) by (cases "rnd_ipid dr") (auto simp: setDistinctIPID_def be16_lt Let_def)
  have s2: "shape4 h d pl t p2" "be32 p2 (h + 4) = Some (unat s)" "tcp_options h d p2 = tcp_options h d p" "length p2 = length p0"
    using p2(2) s1 o1 r l0 shape4_patch [OF s1(1), of 4] by (auto simp: be32_patch tcp_options_def drop_patch)
  define p3 where "p3 = patch p2 8 [resolveFakeTTL (fk_TTL fk) t]"
  have s3: "shape4 h d pl (resolveFakeTTL (fk_TTL fk) t) p3" "be32 p3 (h + 4) = Some (unat s)" "tcp_options h d p3 = tcp_options h d p"
    using s2 r l0 raw4_ttl [of h d pl t p2 "resolveFakeTTL (fk_TTL fk) t"]
    by (auto simp: shape4_def p3_def be32_patch be16_patch tcp_options_def drop_patch)
  have "fake_header4 fk dr p (h + d) pl = (if ApplyTTL fk \<or> fk_Strategy fk = str ''ttl'' then Some p3 else Some p2)"
  proof -
    have a: "put_at p0 2 (put16 (length p0)) = Some p1" "9 \<le> length p2" "8 < length p" using l0 r s2(4) by (simp_all add: p1_def)
    then show ?thesis using p0(1) p2(1) r(5) unfolding fake_header4_def Let_def
      by (simp add: p0_def [symmetric] p3_def del: length_append length_take)
  qed
  then show ?thesis using s2 s3 by (auto simp: fake_ttl_def)
qed

lemma fake_header6_shape:
  assumes g: "good6 d s data t p" and len: "40 + d + length pl \<le> 65535"
  shows "\<exists>q. fake_header6 fk p d pl = Some q \<and> shape6 d pl (fake_ttl fk t) q \<and> be32 q 44 = Some (unat s) \<and>
    tcp_options 40 d q = tcp_options 40 d p"
proof -
  have raw: "raw6 d data t p" and r: "20 \<le> d" "40 + d \<le> length p" "be32 p 44 = Some (unat s)" "p ! 7 = t"
    using g by (auto simp: good6_def raw6_def)
  define p0 where "p0 = take (40 + d) p @ pl"
  have p0: "sub_bytes p 0 (40 + d) = Some (take (40 + d) p)" "raw6 d pl t p0" using raw6_replace [OF raw len] by (auto simp: p0_def)
  have l0: "length p0 = 40 + d + length pl" using p0(2) by (simp add: raw6_def)
  define p2 where "p2 = patch p0 4 (put16 (d + length pl))"
  have o0: "be32 p0 44 = be32 p 44" "tcp_options 40 d p0 = tcp_options 40 d p"
    using r l0 by (auto simp: be32_lt p0_def nth_append tcp_options_def drop_take)
  have s2: "shape6 d pl t p2" "be32 p2 44 = Some (unat s)" "tcp_options 40 d p2 = tcp_options 40 d p" "length p2 = length p0"
    using raw6_patch [OF p0(2), of 4 "put16 (d + length pl)"] r l0 len o0
    by (auto simp: shape6_def p2_def be16_patch_same be32_patch tcp_options_def drop_patch)
  define p3 where "p3 = patch p2 7 [resolveFakeTTL (fk_TTL fk) t]"
  have s3: "shape6 d pl (resolveFakeTTL (fk_TTL fk) t) p3" "be32 p3 44 = Some (unat s)" "tcp_options 40 d p3 = tcp_options 40 d p"
    using s2 r l0 raw6_ttl [of d pl t p2 "resolveFakeTTL (fk_TTL fk) t"]
    by (auto simp: shape6_def p3_def be32_patch be16_patch tcp_options_def drop_patch)
  have "fake_header6 fk p d pl = (if ApplyTTL fk \<or> fk_Strategy fk = str ''ttl'' then Some p3 else Some p2)"
    using p0(1) r l0 s2(4) by (simp add: fake_header6_def Let_def p0_def [symmetric] p2_def [symmetric] p3_def)
  then show ?thesis using s2 s3 by (auto simp: fake_ttl_def)
qed

lemma seq_loop_inv:
  assumes "\<And>q. P q \<Longrightarrow> \<exists>q'. step q = Some q' \<and> P q'" and "P q"
  shows "\<exists>sent. seq_loop step n q = Some sent \<and> length sent = n \<and> list_all P sent"
  using assms(2)
proof (induction n arbitrary: q)
  case (Suc n)
  show ?case
  proof (cases n)
    case (Suc m)
    obtain q' where q': "step q = Some q'" "P q'" using assms(1) [OF Suc.prems] by blast
    show ?thesis using Suc.IH [OF q'(2)] q'(1) Suc.prems Suc by auto
  qed (use Suc.prems in simp)
qed simp

text \<open>Between two fakes over IPv4 the identification is counted up.\<close>

lemma bump_fake4:
  assumes "f4.fake h d s data t bad os q"
  shows "f4.fake h d s data t bad os (patch q 4 (put16 v))"
proof -
  have sh: "shape4 h d data t q" and r: "20 \<le> h" "20 \<le> d" "h + d \<le> length q"
    using assms by (auto simp: f4.fake_def shape4_def raw4_def)
  have "shape4 h d data t (patch q 4 (put16 v))" using r by (intro shape4_patch [OF sh]) auto
  moreover have "tcp4_valid (patch q 4 (put16 v)) h n = tcp4_valid q h n" for n
    using r by (simp add: tcp4_valid_def pseudo4_def drop_patch)
  ultimately show ?thesis using assms r by (simp add: f4.fake_def be32_patch tcp_options_def drop_patch)
qed

lemma next_fake4:
  assumes "f4.fake h d s data t bad os q"
  shows "\<exists>q' s'. next_fake4 fk bad h d q = Some q' \<and> f4.fake h d s' data t bad os q' \<and> (keeps_sequence fk \<longrightarrow> s' = s)"
proof -
  have r: "20 \<le> h" "20 \<le> d" "h + d \<le> length q" "ip_hdr_len q = Some h" using assms by (auto simp: f4.fake_def shape4_def raw4_def)
  obtain n where n: "be16 q 4 = Some n" using r by (simp add: be16_lt)
  define p where "p = patch q 4 (put16 (unat (word_of_nat n + 1 :: 16 word)))"
  have p: "f4.fake h d s data t bad os p" "length p = length q" using bump_fake4 [OF assms] r by (simp_all add: p_def)
  have pt: "put_at q 4 (put16 (unat (word_of_nat n + 1 :: 16 word))) = Some p" using r by (simp add: p_def)
  show ?thesis
  proof (cases "keeps_sequence fk")
    case True
    then show ?thesis using n pt p by (auto simp: next_fake4_def)
  next
    case False
    obtain q' where q': "(advance_seq p h (length p - (h + d)) \<bind> reseal4 h) \<bind> (\<lambda>p. if bad then spoil p h else Some p) = Some q'"
        "f4.fake h d (s + word_of_nat (length data)) data t bad os q'"
      using f4.advance_fake [OF p(1)] by blast
    have "next_fake4 fk bad h d q = Some q'"
    proof -
      obtain p1 p2 where p1: "advance_seq p h (length p - (h + d)) = Some p1" "reseal4 h p1 = Some p2"
          "(if bad then spoil p2 h else Some p2) = Some q'" using q'(1) by (auto simp: bind_eq_Some_conv)
      have hdr: "ip_hdr_len p2 = Some h"
      proof -
        have "shape4 h d data t p" "be32 p (h + 4) = Some (unat s)" using p(1) by (auto simp: f4.fake_def)
        then obtain p2' where "reseal4 h p1 = Some p2'" "shape4 h d data t p2'"
          using p1(1) f4.reseal_eq [of h d data t p1 "s + word_of_nat (length p - (h + d))"] f4.shape_seq [of h d data t p] r p(2)
          by (auto simp: advance_seq_def be32_patch_same)
        then show ?thesis using p1(2) by (simp add: shape4_def raw4_def)
      qed
      show ?thesis using n pt p1 False hdr by (simp add: next_fake4_def reseal4_def CorruptTCPChecksum_def spoil_def bind_eq_Some_conv split: if_splits)
    qed
    then show ?thesis using q'(2) False by blast
  qed
qed

lemma next_fake6:
  assumes "f6.fake d s data t bad os q"
  shows "\<exists>q' s'. next_fake6 fk bad q = Some q' \<and> f6.fake d s' data t bad os q' \<and> (keeps_sequence fk \<longrightarrow> s' = s)"
proof (cases "keeps_sequence fk")
  case True
  then show ?thesis using assms by (auto simp: next_fake6_def)
next
  case False
  obtain q' where q': "(advance_seq q 40 (length q - (40 + d)) \<bind> FixTCPChecksumV6) \<bind> (\<lambda>p. if bad then spoil p 40 else Some p) = Some q'"
      "f6.fake d (s + word_of_nat (length data)) data t bad os q'"
    using f6.advance_fake [OF assms] by blast
  have "tcp_hdr_len q 40 = Some d" using assms by (auto simp: f6.fake_def shape6_def raw6_def)
  then have "next_fake6 fk bad q = Some q'"
    using q'(1) False by (cases bad) (auto simp: next_fake6_def CorruptTCPChecksumV6_def bind_eq_Some_conv)
  then show ?thesis using q'(2) False by blast
qed

lemma sign_fake4:
  assumes f: "f4.fake h d s data t bad os q" and rnd: "length (rnd_md5 dr) = 16" "length q + 20 \<le> 65535"
  shows "\<exists>q' d' rest. sign_fake4 fk dr bad q = Some q' \<and> real_opts (tcp_options h d' q') = real_opts os @ rest \<and>
    f4.fake h d' s data t bad (tcp_options h d' q') q'"
proof (cases "MD5OnFake fk")
  case True
  obtain q' d' rest where q': "AddTCPMD5Option q False (rnd_md5 dr) \<bind> (\<lambda>(p, ok). if bad then FixTCPChecksum p \<bind> (\<lambda>p. spoil p h) else Some p) = Some q'"
      "real_opts (tcp_options h d' q') = real_opts os @ rest" "f4.fake h d' s data t bad (tcp_options h d' q') q'"
    using f4.sign_fake [OF f rnd] by blast
  obtain p ok where p: "AddTCPMD5Option q False (rnd_md5 dr) = Some (p, ok)" using q'(1) by (auto simp: bind_eq_Some_conv)
  have "sign_fake4 fk dr bad q = Some q'"
  proof (cases bad)
    case bad: True
    obtain r where r: "FixTCPChecksum p = Some r" "spoil r h = Some q'" using q'(1) p bad by (auto simp: bind_eq_Some_conv)
    have sh: "shape4 h d' data t q'" using q'(3) by (simp add: f4.fake_def)
    have "ip_hdr_len r = Some h"
    proof -
      have "q' = patch r (h + 16) [r ! (h + 16) XOR 0xFF]" "h + 16 < length r"
        using r(2) by (auto simp: spoil_def bind_eq_Some_conv at_Some put_at_eq)
      moreover have "20 \<le> h" "ip_hdr_len q' = Some h" using sh by (auto simp: shape4_def raw4_def)
      ultimately show ?thesis by (auto simp: ip_hdr_len_eq nth_patch)
    qed
    then show ?thesis using True p r bad by (simp add: sign_fake4_def CorruptTCPChecksum_def spoil_def)
  next
    case False
    then show ?thesis using True p q'(1) by (simp add: sign_fake4_def)
  qed
  then show ?thesis using q'(2,3) by blast
next
  case False
  have "tcp_options h d q = os" using f by (simp add: f4.fake_def)
  then have "sign_fake4 fk dr bad q = Some q \<and> real_opts (tcp_options h d q) = real_opts os @ [] \<and> f4.fake h d s data t bad (tcp_options h d q) q"
    using f False by (simp add: sign_fake4_def)
  then show ?thesis by blast
qed

lemma sign_fake6:
  assumes f: "f6.fake d s data t bad os q" and rnd: "length (rnd_md5 dr) = 16" "length q + 20 \<le> 65535"
  shows "\<exists>q' d' rest. sign_fake6 fk dr bad q = Some q' \<and> real_opts (tcp_options 40 d' q') = real_opts os @ rest \<and>
    f6.fake d' s data t bad (tcp_options 40 d' q') q'"
proof (cases "MD5OnFake fk")
  case True
  obtain q' d' rest where q': "AddTCPMD5Option q True (rnd_md5 dr) \<bind> (\<lambda>(p, ok). if bad then FixTCPChecksumV6 p \<bind> (\<lambda>p. spoil p 40) else Some p) = Some q'"
      "real_opts (tcp_options 40 d' q') = real_opts os @ rest" "f6.fake d' s data t bad (tcp_options 40 d' q') q'"
    using f6.sign_fake [OF f rnd] by blast
  then have "sign_fake6 fk dr bad q = Some q'" using True unfolding sign_fake6_def CorruptTCPChecksumV6_def by simp
  then show ?thesis using q'(2,3) by blast
next
  case False
  have "tcp_options 40 d q = os" using f by (simp add: f6.fake_def)
  then have "sign_fake6 fk dr bad q = Some q \<and> real_opts (tcp_options 40 d q) = real_opts os @ [] \<and> f6.fake d s data t bad (tcp_options 40 d q) q"
    using f False by (simp add: sign_fake6_def)
  then show ?thesis by blast
qed

lemma build4:
  assumes g: "good4 h d s data t p" and v: "drop_bit 4 (p ! 0) = 4" and pl: "fake_payload L C fk dr (if data = [] then None else Some data) = Some pl"
    and len: "h + d + length pl \<le> 65535"
  defines "os \<equiv> tcp_options h d p"
  shows "\<exists>q. BuildFakeSNIPacketV4 L C fk dr p = Some (Some q) \<and> TCPChecksumValid q = Some (\<not> fake_bad fk os) \<and>
    f4.fake h d (fake_seq fk dr s (length data)) pl (fake_ttl fk t) (fake_bad fk os) (fake_options fk os) q"
proof -
  have r: "ip_hdr_len p = Some h" "tcp_hdr_len p h = Some d" "20 \<le> h" "20 \<le> d" "length p = h + d + length data" "drop (h + d) p = data"
    using g by (auto simp: good4_def raw4_def)
  have n: "length p > h + d \<longleftrightarrow> data \<noteq> []" using r(5) by auto
  obtain p1 where p1: "fake_header4 fk dr p (h + d) pl = Some p1" "shape4 h d pl (fake_ttl fk t) p1" "be32 p1 (h + 4) = Some (unat s)"
      "tcp_options h d p1 = os" using fake_header4_shape [OF g len] by (auto simp: os_def)
  obtain q where q: "(fake_strategy fk dr p1 h (length data) False \<bind> (\<lambda>(p, bad). reseal4 h p \<bind> (\<lambda>p. if bad then spoil p h else Some p))) = Some q"
      "f4.fake h d (fake_seq fk dr s (length data)) pl (fake_ttl fk t) (fake_bad fk os) (fake_options fk os) q"
      "f4.sum_probe h q = Some (\<not> fake_bad fk os)"
    using f4.built_fake [OF p1(2-4)] by blast
  have "BuildFakeSNIPacketV4 L C fk dr p = Some (Some q)"
    using q(1) p1(1) pl r(1-6) v n
    by (auto simp: BuildFakeSNIPacketV4_def Let_def reseal4_def bind_eq_Some_conv split: prod.splits if_splits)
  moreover have "TCPChecksumValid q = f4.sum_probe h q"
    using q(2) by (auto simp: TCPChecksumValid_def f4.sum_probe_def f4.fake_def shape4_def raw4_def)
  ultimately show ?thesis using q by auto
qed

lemma build6:
  assumes g: "good6 d s data t p" and pl: "fake_payload L C fk dr (if data = [] then None else Some data) = Some pl"
    and len: "40 + d + length pl \<le> 65535"
  defines "os \<equiv> tcp_options 40 d p"
  shows "\<exists>q. BuildFakeSNIPacketV6 L C fk dr p = Some (Some q) \<and> TCPChecksumValidV6 q = Some (\<not> fake_bad fk os) \<and>
    f6.fake d (fake_seq fk dr s (length data)) pl (fake_ttl fk t) (fake_bad fk os) (fake_options fk os) q"
proof -
  have r: "tcp_hdr_len p 40 = Some d" "20 \<le> d" "length p = 40 + d + length data" "drop (40 + d) p = data" "drop_bit 4 (p ! 0) = 6" "p ! 6 = 6"
    using g by (auto simp: good6_def raw6_def)
  have n: "length p > 40 + d \<longleftrightarrow> data \<noteq> []" using r(3) by auto
  obtain p1 where p1: "fake_header6 fk p d pl = Some p1" "shape6 d pl (fake_ttl fk t) p1" "be32 p1 44 = Some (unat s)"
      "tcp_options 40 d p1 = os" using fake_header6_shape [OF g len] by (auto simp: os_def)
  obtain q where q: "(fake_strategy fk dr p1 40 (length data) True \<bind> (\<lambda>(p, bad). FixTCPChecksumV6 p \<bind> (\<lambda>p. if bad then spoil p 40 else Some p))) = Some q"
      "f6.fake d (fake_seq fk dr s (length data)) pl (fake_ttl fk t) (fake_bad fk os) (fake_options fk os) q"
      "f6.sum_probe q = Some (\<not> fake_bad fk os)"
    using f6.built_fake [OF p1(2) _ p1(4)] p1(3) by force
  have "BuildFakeSNIPacketV6 L C fk dr p = Some (Some q)"
    using q(1) p1(1) pl r n
    by (auto simp: BuildFakeSNIPacketV6_def Let_def bind_eq_Some_conv split: prod.splits if_splits)
  moreover have "TCPChecksumValidV6 q = f6.sum_probe q"
  proof -
    have e: "40 + 16 = (56 :: nat)" "40 + 17 = (57 :: nat)" by simp_all
    show ?thesis unfolding TCPChecksumValidV6_def f6.sum_probe_def e ..
  qed
  ultimately show ?thesis using q by auto
qed

lemma bad_not_seen4: "f4.fake h d s data t True os q \<Longrightarrow> tcp4_view q = None"
  by (auto simp: f4.fake_def shape4_def raw4_def tcp4_view_def bind_eq_None_conv)

lemma bad_not_seen6: "f6.fake d s data t True os q \<Longrightarrow> tcp6_view q = None"
proof -
  assume f: "f6.fake d s data t True os q"
  then have "be16 q 4 = Some (length q - 40)" "\<not> tcp6_valid q (length q - 40)" by (auto simp: f6.fake_def shape6_def)
  then show ?thesis by (auto simp: tcp6_view_def bind_eq_None_conv)
qed

lemma fake_sequence4:
  assumes "f4.fake h d s data t bad os q"
  shows "\<exists>sent. seq_loop (next_fake4 fk bad h d) n q = Some sent \<and> length sent = n \<and>
    list_all (\<lambda>x. \<exists>s'. f4.fake h d s' data t bad os x \<and> (keeps_sequence fk \<longrightarrow> s' = s)) sent"
proof (rule seq_loop_inv)
  show "\<exists>x'. next_fake4 fk bad h d x = Some x' \<and> (\<exists>s'. f4.fake h d s' data t bad os x' \<and> (keeps_sequence fk \<longrightarrow> s' = s))"
    if x: "\<exists>s'. f4.fake h d s' data t bad os x \<and> (keeps_sequence fk \<longrightarrow> s' = s)" for x
  proof -
    obtain s1 where s1: "f4.fake h d s1 data t bad os x" "keeps_sequence fk \<longrightarrow> s1 = s" using x by blast
    obtain x' s2 where "next_fake4 fk bad h d x = Some x'" "f4.fake h d s2 data t bad os x'" "keeps_sequence fk \<longrightarrow> s2 = s1"
      using next_fake4 [OF s1(1), of fk] by blast
    then show ?thesis using s1(2) by blast
  qed
qed (use assms in blast)

lemma fake_seen4:
  assumes "f4.fake h d s data t bad os q"
  shows "q ! 8 = t \<and> (bad \<longrightarrow> tcp4_view q = None) \<and> be32 q (h + 4) = Some (unat s) \<and> tcp_hdr_len q h = Some d \<and>
    drop (h + d) q = data \<and> tcp_options h d q = os"
proof -
  have "bad \<longrightarrow> tcp4_view q = None" using assms bad_not_seen4 [of h d s data t os q] by (cases bad) simp_all
  then show ?thesis using assms unfolding f4.fake_def shape4_def raw4_def by blast
qed

lemma fake_sequence6:
  assumes "f6.fake d s data t bad os q"
  shows "\<exists>sent. seq_loop (next_fake6 fk bad) n q = Some sent \<and> length sent = n \<and>
    list_all (\<lambda>x. \<exists>s'. f6.fake d s' data t bad os x \<and> (keeps_sequence fk \<longrightarrow> s' = s)) sent"
proof (rule seq_loop_inv)
  show "\<exists>x'. next_fake6 fk bad x = Some x' \<and> (\<exists>s'. f6.fake d s' data t bad os x' \<and> (keeps_sequence fk \<longrightarrow> s' = s))"
    if x: "\<exists>s'. f6.fake d s' data t bad os x \<and> (keeps_sequence fk \<longrightarrow> s' = s)" for x
  proof -
    obtain s1 where s1: "f6.fake d s1 data t bad os x" "keeps_sequence fk \<longrightarrow> s1 = s" using x by blast
    obtain x' s2 where "next_fake6 fk bad x = Some x'" "f6.fake d s2 data t bad os x'" "keeps_sequence fk \<longrightarrow> s2 = s1"
      using next_fake6 [OF s1(1), of fk] by blast
    then show ?thesis using s1(2) by blast
  qed
qed (use assms in blast)

lemma fake_seen6:
  assumes "f6.fake d s data t bad os q"
  shows "q ! 7 = t \<and> (bad \<longrightarrow> tcp6_view q = None) \<and> be32 q 44 = Some (unat s) \<and> tcp_hdr_len q 40 = Some d \<and>
    drop (40 + d) q = data \<and> tcp_options 40 d q = os"
proof -
  have "bad \<longrightarrow> tcp6_view q = None" using assms bad_not_seen6 [of d s data t os q] by (cases bad) simp_all
  moreover have "be32 q 44 = Some (unat s)" using assms by (simp add: f6.fake_def)
  ultimately show ?thesis using assms unfolding f6.fake_def shape6_def raw6_def by blast
qed

lemma fake_sequence4_sent:
  assumes g: "good4 h d s data t p" and v: "drop_bit 4 (p ! 0) = 4" and on: "fk_SNI fk" "0 < SNISeqLength fk"
    and dr: "length (rnd_random dr) = 32" "length (rnd_md5 dr) = 16"
    and pl: "fake_payload L C fk dr (if data = [] then None else Some data) = Some pl" "h + d + 20 + length pl \<le> 65535"
  shows "\<exists>sent. sendFakeSNISequence L C fk dr p = Some sent \<and> length sent = nat (SNISeqLength fk) \<and>
    list_all (\<lambda>q. q ! 8 = fake_ttl fk t \<and> (fake_bad fk (tcp_options h d p) \<longrightarrow> tcp4_view q = None) \<and>
      (keeps_sequence fk \<longrightarrow> be32 q (h + 4) = Some (unat (fake_seq fk dr s (length data)))) \<and>
      (\<exists>d' rest. tcp_hdr_len q h = Some d' \<and> drop (h + d') q = pl \<and>
        real_opts (tcp_options h d' q) = real_opts (fake_options fk (tcp_options h d p)) @ rest)) sent"
proof -
  define os where "os = tcp_options h d p"
  have len: "h + d + length pl \<le> 65535" using pl(2) by simp
  obtain q where q: "BuildFakeSNIPacketV4 L C fk dr p = Some (Some q)" "TCPChecksumValid q = Some (\<not> fake_bad fk os)"
      "f4.fake h d (fake_seq fk dr s (length data)) pl (fake_ttl fk t) (fake_bad fk os) (fake_options fk os) q"
    using build4 [OF g v pl(1) len] by (auto simp: os_def)
  have "length q + 20 \<le> 65535" using q(3) pl(2) by (auto simp: f4.fake_def shape4_def raw4_def)
  then obtain q' d' rest where q': "sign_fake4 fk dr (fake_bad fk os) q = Some q'"
      "real_opts (tcp_options h d' q') = real_opts (fake_options fk os) @ rest"
      "f4.fake h d' (fake_seq fk dr s (length data)) pl (fake_ttl fk t) (fake_bad fk os) (tcp_options h d' q') q'"
    using sign_fake4 [OF q(3) dr(2)] by blast
  obtain sent where sent: "seq_loop (next_fake4 fk (fake_bad fk os) h d') (nat (SNISeqLength fk)) q' = Some sent"
      "length sent = nat (SNISeqLength fk)" and all: "list_all (\<lambda>x. \<exists>s'. f4.fake h d' s' pl (fake_ttl fk t) (fake_bad fk os) (tcp_options h d' q') x \<and>
        (keeps_sequence fk \<longrightarrow> s' = fake_seq fk dr s (length data))) sent"
    using fake_sequence4 [OF q'(3)] by blast
  have "ip_hdr_len q' = Some h" "tcp_hdr_len q' h = Some d'" using q'(3) by (auto simp: f4.fake_def shape4_def raw4_def)
  then have "sendFakeSNISequence L C fk dr p = Some sent"
    using on q(1,2) q'(1) sent(1) by (simp add: sendFakeSNISequence_def)
  moreover have "list_all (\<lambda>x. x ! 8 = fake_ttl fk t \<and> (fake_bad fk os \<longrightarrow> tcp4_view x = None) \<and>
      (keeps_sequence fk \<longrightarrow> be32 x (h + 4) = Some (unat (fake_seq fk dr s (length data)))) \<and>
      (\<exists>d' rest. tcp_hdr_len x h = Some d' \<and> drop (h + d') x = pl \<and> real_opts (tcp_options h d' x) = real_opts (fake_options fk os) @ rest)) sent"
    using all by (rule list.pred_mono_strong) (use fake_seen4 q'(2) in fastforce)
  ultimately show ?thesis using sent(2) unfolding os_def by blast
qed


text \<open>The settings of the examples: three fakes with a payload of three bytes.\<close>

definition some_fakes :: "gostr \<Rightarrow> FakeSettings" where
  "some_fakes strategy = \<lparr>fk_SNI = True, fk_TTL = 5, fk_Strategy = strategy, SeqOffset = 0, SNISeqLength = 3, SNIType = 1,
     CustomPayload = [22, 3, 1], PayloadData = [], TLSMod = [], TimestampDecrease = 0, ApplyTTL = True, MD5OnFake = True, FakeLenMode = []\<rparr>"

definition some_fake_draws :: fake_draws where
  "some_fake_draws = \<lparr>rnd_payload = [], rnd_random = replicate 32 7, rnd_name = (\<lambda>_. 0), rnd_ipid = Some 9, rnd_seq = 5, rnd_md5 = replicate 16 1\<rparr>"

definition no_lib :: golib where
  "no_lib = \<lparr>int_bits = 64, uni_lower = (\<lambda>s. s), uni_equal_fold = (=), re_compile = (\<lambda>_. None)\<rparr>"

lemma some_fake_payload: "fake_payload L C (some_fakes st) some_fake_draws None = Some [22, 3, 1]"
  by (simp add: fake_payload_def some_fakes_def some_fake_draws_def GetPayload_def MatchPayloadLength_def str_def)


lemma fake_sequence6_sent:
  assumes g: "good6 d s data t p" and on: "fk_SNI fk" "0 < SNISeqLength fk"
    and dr: "length (rnd_random dr) = 32" "length (rnd_md5 dr) = 16"
    and pl: "fake_payload L C fk dr (if data = [] then None else Some data) = Some pl" "40 + d + 20 + length pl \<le> 65535"
  shows "\<exists>sent. sendFakeSNISequencev6 L C fk dr p = Some sent \<and> length sent = nat (SNISeqLength fk) \<and>
    list_all (\<lambda>q. q ! 7 = fake_ttl fk t \<and> (fake_bad fk (tcp_options 40 d p) \<longrightarrow> tcp6_view q = None) \<and>
      (keeps_sequence fk \<longrightarrow> be32 q 44 = Some (unat (fake_seq fk dr s (length data)))) \<and>
      (\<exists>d' rest. tcp_hdr_len q 40 = Some d' \<and> drop (40 + d') q = pl \<and>
        real_opts (tcp_options 40 d' q) = real_opts (fake_options fk (tcp_options 40 d p)) @ rest)) sent"
proof -
  define os where "os = tcp_options 40 d p"
  have len: "40 + d + length pl \<le> 65535" using pl(2) by simp
  obtain q where q: "BuildFakeSNIPacketV6 L C fk dr p = Some (Some q)" "TCPChecksumValidV6 q = Some (\<not> fake_bad fk os)"
      "f6.fake d (fake_seq fk dr s (length data)) pl (fake_ttl fk t) (fake_bad fk os) (fake_options fk os) q"
    using build6 [OF g pl(1) len] by (auto simp: os_def)
  have "length q + 20 \<le> 65535" using q(3) pl(2) by (auto simp: f6.fake_def shape6_def raw6_def)
  then obtain q' d' rest where q': "sign_fake6 fk dr (fake_bad fk os) q = Some q'"
      "real_opts (tcp_options 40 d' q') = real_opts (fake_options fk os) @ rest"
      "f6.fake d' (fake_seq fk dr s (length data)) pl (fake_ttl fk t) (fake_bad fk os) (tcp_options 40 d' q') q'"
    using sign_fake6 [OF q(3) dr(2)] by blast
  obtain sent where sent: "seq_loop (next_fake6 fk (fake_bad fk os)) (nat (SNISeqLength fk)) q' = Some sent"
      "length sent = nat (SNISeqLength fk)" and all: "list_all (\<lambda>x. \<exists>s'. f6.fake d' s' pl (fake_ttl fk t) (fake_bad fk os) (tcp_options 40 d' q') x \<and>
        (keeps_sequence fk \<longrightarrow> s' = fake_seq fk dr s (length data))) sent"
    using fake_sequence6 [OF q'(3)] by blast
  have "hasPlainIPv6Header p 6 = Some True"
    using g upper_layer_tcp [of p] by (auto simp: hasPlainIPv6Header_def upperLayerOffsetV6_def good6_def raw6_def)
  then have "sendFakeSNISequencev6 L C fk dr p = Some sent"
    using on q(1,2) q'(1) sent(1) by (simp add: sendFakeSNISequencev6_def)
  moreover have "list_all (\<lambda>x. x ! 7 = fake_ttl fk t \<and> (fake_bad fk os \<longrightarrow> tcp6_view x = None) \<and>
      (keeps_sequence fk \<longrightarrow> be32 x 44 = Some (unat (fake_seq fk dr s (length data)))) \<and>
      (\<exists>d' rest. tcp_hdr_len x 40 = Some d' \<and> drop (40 + d') x = pl \<and> real_opts (tcp_options 40 d' x) = real_opts (fake_options fk os) @ rest)) sent"
    using all by (rule list.pred_mono_strong) (use fake_seen6 q'(2) in fastforce)
  ultimately show ?thesis using sent(2) unfolding os_def by blast
qed



end
