(* ===== verification/Fake_Syn.thy ===== *)
theory Fake_Syn
  imports Fake_Packets
begin

text \<open>
  The fake SYNs of \<^verbatim>\<open>src/nfq/syn.go\<close>: a copy of the client's SYN with a payload and a spoilt checksum, and a copy with an MD5
  signature and an old sequence number. Both have a lowered hop limit. The result is the packet handed to the raw
  socket; an inner \<^const>\<open>None\<close> means that none is sent.
\<close>

definition syn_payload :: "payloads \<Rightarrow> FakeSettings \<Rightarrow> int \<Rightarrow> bytes \<Rightarrow> bytes" where
  "syn_payload C fk SynFakeLen rnd =
     (let p = GetPayload C fk rnd in if SynFakeLen > 0 then take (nat SynFakeLen) p else [])"

definition syn_strategy :: "FakeSettings \<Rightarrow> bytes \<Rightarrow> nat \<Rightarrow> bool \<Rightarrow> bytes option" where
  "syn_strategy fk pkt l3 v6 =
     (if fk_Strategy fk = str ''randseq'' then do {
        sq \<leftarrow> be32 pkt (l3 + 4);
        let sq' = (word_of_nat sq :: 32 word) + SeqOffset fk;
        let sq' = (if SeqOffset fk = 0 then sq' + 100000 else sq');
        put_at pkt (l3 + 4) (put32 (unat sq')) }
      else if fk_Strategy fk = str ''pastseq'' then do {
        sq \<leftarrow> be32 pkt (l3 + 4);
        let off = (if SeqOffset fk = 0 then 10000 else SeqOffset fk);
        let sq' = (word_of_nat sq :: 32 word);
        put_at pkt (l3 + 4) (put32 (unat (if sq' > off then sq' - off else sq'))) }
      else if fk_Strategy fk = str ''timestamp'' then do {
        (pkt, ok) \<leftarrow> DecreaseTCPTimestamp pkt (if TimestampDecrease fk = 0 then 600000 else TimestampDecrease fk) v6;
        Some pkt }
      else Some pkt)"

definition syn_ttl :: "FakeSettings \<Rightarrow> byte \<Rightarrow> byte" where
  "syn_ttl fk SynTTL = (if SynTTL = 0 then fk_TTL fk else SynTTL)"

definition sendFakeSyn :: "payloads \<Rightarrow> FakeSettings \<Rightarrow> int \<Rightarrow> byte \<Rightarrow> bytes \<Rightarrow> bytes \<Rightarrow> nat \<Rightarrow> nat \<Rightarrow> bytes option" where
  "sendFakeSyn C fk SynFakeLen SynTTL rnd raw ipHdrLen tcpHdrLen = do {
     hdr \<leftarrow> sub_bytes raw 0 (ipHdrLen + tcpHdrLen);
     let pkt = hdr @ syn_payload C fk SynFakeLen rnd;
     pkt \<leftarrow> put_at pkt 2 (put16 (length pkt));
     ttl \<leftarrow> dynamicTTL raw False (syn_ttl fk SynTTL);
     pkt \<leftarrow> put_at pkt 8 [ttl];
     pkt \<leftarrow> syn_strategy fk pkt ipHdrLen False;
     pkt \<leftarrow> fix_ip_header pkt ipHdrLen;
     pkt \<leftarrow> FixTCPChecksum pkt;
     corruptTCPChecksum pkt ipHdrLen }"

definition sendFakeSynV6 :: "payloads \<Rightarrow> FakeSettings \<Rightarrow> int \<Rightarrow> byte \<Rightarrow> bytes \<Rightarrow> bytes \<Rightarrow> nat \<Rightarrow> nat \<Rightarrow> bytes option option" where
  "sendFakeSynV6 C fk SynFakeLen SynTTL rnd raw ipHdrLen tcpHdrLen = do {
     plain \<leftarrow> hasPlainIPv6Header raw 6;
     if \<not> plain then Some None
     else do {
       hdr \<leftarrow> sub_bytes raw 0 (ipHdrLen + tcpHdrLen);
       let pl = syn_payload C fk SynFakeLen rnd;
       let pkt = hdr @ pl;
       pkt \<leftarrow> put_at pkt 4 (put16 (tcpHdrLen + length pl));
       ttl \<leftarrow> dynamicTTL raw True (syn_ttl fk SynTTL);
       pkt \<leftarrow> put_at pkt 7 [ttl];
       pkt \<leftarrow> syn_strategy fk pkt ipHdrLen True;
       pkt \<leftarrow> FixTCPChecksumV6 pkt;
       pkt \<leftarrow> corruptTCPChecksum pkt ipHdrLen;
       Some (Some pkt) } }"

text \<open>Signing the copy, without its options when there is no room for the signature.\<close>

definition sign_syn :: "bytes \<Rightarrow> bool \<Rightarrow> nat \<Rightarrow> bytes \<Rightarrow> bytes \<Rightarrow> bytes option option" where
  "sign_syn fakeSyn v6 l3 rnd1 rnd2 = do {
     (signed, ok) \<leftarrow> AddTCPMD5Option fakeSyn v6 rnd1;
     if ok then Some (Some signed)
     else do {
       bare \<leftarrow> withoutTCPOptions fakeSyn l3;
       (signed, ok) \<leftarrow> AddTCPMD5Option bare v6 rnd2;
       Some (if ok then Some signed else None) } }"

definition sendFakeSynWithMD5 :: "FakeSettings \<Rightarrow> bytes \<Rightarrow> nat \<Rightarrow> bytes \<Rightarrow> bytes \<Rightarrow> bytes option option" where
  "sendFakeSynWithMD5 fk raw ihl rnd1 rnd2 = do {
     ttl \<leftarrow> dynamicTTL raw False (fk_TTL fk);
     fakeSyn \<leftarrow> put_at raw 8 [ttl];
     sq \<leftarrow> be32 fakeSyn (ihl + 4);
     fakeSyn \<leftarrow> put_at fakeSyn (ihl + 4) (put32 (unat (word_of_nat sq - 10000 :: 32 word)));
     fakeSyn \<leftarrow> fix_ip_header fakeSyn ihl;
     fakeSyn \<leftarrow> FixTCPChecksum fakeSyn;
     sign_syn fakeSyn False ihl rnd1 rnd2 }"

definition sendFakeSynWithMD5V6 :: "FakeSettings \<Rightarrow> bytes \<Rightarrow> bytes \<Rightarrow> bytes \<Rightarrow> bytes option option" where
  "sendFakeSynWithMD5V6 fk raw rnd1 rnd2 = do {
     plain \<leftarrow> hasPlainIPv6Header raw 6;
     if \<not> plain then Some None
     else do {
       ttl \<leftarrow> dynamicTTL raw True (fk_TTL fk);
       fakeSyn \<leftarrow> put_at raw 7 [ttl];
       sq \<leftarrow> be32 fakeSyn 44;
       fakeSyn \<leftarrow> put_at fakeSyn 44 (put32 (unat (word_of_nat sq - 10000 :: 32 word)));
       sign_syn fakeSyn True 40 rnd1 rnd2 } }"

subsection \<open>The signed copy\<close>

lemma sign_syn4:
  assumes raw: "raw4 h d data t p" and sq: "be32 p (h + 4) = Some (unat s)" and v: "drop_bit 4 (p ! 0) \<noteq> 6"
    and rnd: "length r1 = 16" "length r2 = 16" and room: "length p + 20 \<le> 65535"
  shows "\<exists>q d' os rnd. sign_syn p False h r1 r2 = Some (Some q) \<and> good4 h d' s data t q \<and> rnd \<in> {r1, r2} \<and>
    real_opts (tcp_options h d' q) = os @ [(19, rnd)]"
proof -
  obtain q ok where q: "AddTCPMD5Option p False r1 = Some (q, ok)" "if ok then good4 h (d + 20) s data t q \<and>
       real_opts (tcp_options h (d + 20) q) = real_opts (tcp_options h d p) @ [(19, r1)] else q = p \<and> 20 < d"
    using md5_4 [OF raw sq rnd(1) room] by blast
  show ?thesis
  proof (cases ok)
    case True
    then show ?thesis using q by (auto simp: sign_syn_def)
  next
    case False
    obtain b where b: "withoutTCPOptions p h = Some b" "good4 h 20 s data t b" using without_options4 [OF raw sq v] by blast
    have "raw4 h 20 data t b" "be32 b (h + 4) = Some (unat s)" "length b + 20 \<le> 65535"
      using b(2) raw room by (auto simp: good4_def raw4_def)
    from md5_4 [OF this(1,2) rnd(2) this(3)] obtain q2 ok2 where
      "AddTCPMD5Option b False r2 = Some (q2, ok2)" "if ok2 then good4 h (20 + 20) s data t q2 \<and>
       real_opts (tcp_options h (20 + 20) q2) = real_opts (tcp_options h 20 b) @ [(19, r2)] else q2 = b \<and> 20 < (20 :: nat)" by blast
    then show ?thesis using q(1) False b(1) by (cases ok2) (auto simp: sign_syn_def)
  qed
qed

lemma sign_syn6:
  assumes raw: "raw6 d data t p" and sq: "be32 p 44 = Some (unat s)"
    and rnd: "length r1 = 16" "length r2 = 16" and room: "length p + 20 \<le> 65535"
  shows "\<exists>q d' os rnd. sign_syn p True 40 r1 r2 = Some (Some q) \<and> good6 d' s data t q \<and> rnd \<in> {r1, r2} \<and>
    real_opts (tcp_options 40 d' q) = os @ [(19, rnd)]"
proof -
  obtain q ok where q: "AddTCPMD5Option p True r1 = Some (q, ok)" "if ok then good6 (d + 20) s data t q \<and>
       real_opts (tcp_options 40 (d + 20) q) = real_opts (tcp_options 40 d p) @ [(19, r1)] else q = p \<and> 20 < d"
    using md5_6 [OF raw sq rnd(1) room] by blast
  show ?thesis
  proof (cases ok)
    case True
    then show ?thesis using q by (auto simp: sign_syn_def)
  next
    case False
    obtain b where b: "withoutTCPOptions p 40 = Some b" "good6 20 s data t b" using without_options6 [OF raw sq] by blast
    have "raw6 20 data t b" "be32 b 44 = Some (unat s)" "length b + 20 \<le> 65535"
      using b(2) raw room by (auto simp: good6_def raw6_def)
    from md5_6 [OF this(1,2) rnd(2) this(3)] obtain q2 ok2 where
      "AddTCPMD5Option b True r2 = Some (q2, ok2)" "if ok2 then good6 (20 + 20) s data t q2 \<and>
       real_opts (tcp_options 40 (20 + 20) q2) = real_opts (tcp_options 40 20 b) @ [(19, r2)] else q2 = b \<and> 20 < (20 :: nat)" by blast
    then show ?thesis using q(1) False b(1) by (cases ok2) (auto simp: sign_syn_def)
  qed
qed

lemma dynamicTTL_total: "8 < length p \<Longrightarrow> \<exists>t. dynamicTTL p v6 c = Some t"
  by (simp add: dynamicTTL_def Let_def)

lemma signed4:
  assumes g: "good4 h d s data t p" and v: "drop_bit 4 (p ! 0) = 4" and rnd: "length r1 = 16" "length r2 = 16" and room: "length p + 20 \<le> 65535"
    and ttl: "dynamicTTL p False (fk_TTL fk) = Some t'"
  shows "\<exists>q d' os rnd. sendFakeSynWithMD5 fk p h r1 r2 = Some (Some q) \<and> good4 h d' (s - 10000) data t' q \<and> rnd \<in> {r1, r2} \<and>
    real_opts (tcp_options h d' q) = os @ [(19, rnd)]"
proof -
  have raw: "raw4 h d data t p" and r: "20 \<le> h" "20 \<le> d" "h + d \<le> length p" "be32 p (h + 4) = Some (unat s)" "be16 p 2 = Some (length p)"
    using g by (auto simp: good4_def raw4_def)
  define p1 where "p1 = patch p 8 [t']"
  define p2 where "p2 = patch p1 (h + 4) (put32 (unat (s - 10000)))"
  have r1: "raw4 h d data t' p1" "length p1 = length p" using raw4_ttl [OF raw] r by (simp_all add: p1_def)
  have r2: "raw4 h d data t' p2" "length p2 = length p" unfolding p2_def using r r1 raw4_patch [OF r1(1), of "h + 4"] by simp_all
  have s1: "be32 p1 (h + 4) = Some (unat s)" "be16 p1 2 = Some (length p)" using r by (simp_all add: p1_def be32_patch be16_patch)
  have s2: "be32 p2 (h + 4) = Some (unat (s - 10000))" "be16 p2 2 = Some (length p2)"
    using r r1(2) r2(2) s1 by (simp_all add: p2_def be32_patch_same be16_patch)
  obtain p3 where p3: "fix_ip_header p2 h \<bind> FixTCPChecksum = Some p3" "good4 h d (s - 10000) data t' p3"
    using finish4 [OF r2(1) s2] by blast
  then have q3: "raw4 h d data t' p3" "be32 p3 (h + 4) = Some (unat (s - 10000))" "length p3 + 20 \<le> 65535"
    using room r2 by (auto simp: good4_def raw4_def)
  have "p3 ! 0 = p ! 0"
  proof -
    obtain c where c: "fix_ip_header p2 h = Some (patch p2 10 (put16 c))"
      using fix_ip_header_eq [of p2 h] r2 r by (auto simp: raw4_def)
    have "raw4 h d data t' (patch p2 10 (put16 c))" using r by (intro raw4_patch [OF r2(1)]) auto
    moreover have "be16 (patch p2 10 (put16 c)) 2 = Some (length p2)" using s2(2) r r2(2) by (simp add: be16_patch)
    ultimately obtain c' where "p3 = patch (patch p2 10 (put16 c)) (h + 16) (put16 c')"
      using FixTCPChecksum_eq [of "patch p2 10 (put16 c)" h "length p2"] p3(1) c r r2(2) by (auto simp: raw4_def)
    then show ?thesis using r r1(2) r2(2) by (simp add: p2_def p1_def nth_patch)
  qed
  then have "\<exists>q d' os rnd. sign_syn p3 False h r1 r2 = Some (Some q) \<and> good4 h d' (s - 10000) data t' q \<and> rnd \<in> {r1, r2} \<and>
    real_opts (tcp_options h d' q) = os @ [(19, rnd)]"
    using sign_syn4 [OF q3(1,2) _ rnd q3(3)] v by simp
  moreover have "sendFakeSynWithMD5 fk p h r1 r2 = sign_syn p3 False h r1 r2"
    using ttl p3(1) s1 r r1(2)
    by (auto simp: sendFakeSynWithMD5_def p1_def [symmetric] p2_def [symmetric] bind_eq_Some_conv)
  ultimately show ?thesis by simp
qed

lemma signed6:
  assumes g: "good6 d s data t p" and rnd: "length r1 = 16" "length r2 = 16" and room: "length p + 20 \<le> 65535"
    and ttl: "dynamicTTL p True (fk_TTL fk) = Some t'"
  shows "\<exists>q d' os rnd. sendFakeSynWithMD5V6 fk p r1 r2 = Some (Some q) \<and> good6 d' (s - 10000) data t' q \<and> rnd \<in> {r1, r2} \<and>
    real_opts (tcp_options 40 d' q) = os @ [(19, rnd)]"
proof -
  have raw: "raw6 d data t p" and r: "20 \<le> d" "40 + d \<le> length p" "be32 p 44 = Some (unat s)"
    using g by (auto simp: good6_def raw6_def)
  define p1 where "p1 = patch p 7 [t']"
  define p2 where "p2 = patch p1 44 (put32 (unat (s - 10000)))"
  have r1: "raw6 d data t' p1" "length p1 = length p" using raw6_ttl [OF raw] r by (simp_all add: p1_def)
  have r2: "raw6 d data t' p2" "length p2 + 20 \<le> 65535" unfolding p2_def using r r1 room raw6_patch [OF r1(1), of 44] by simp_all
  have s1: "be32 p1 44 = Some (unat s)" using r by (simp add: p1_def be32_patch)
  have s2: "be32 p2 44 = Some (unat (s - 10000))" using r r1(2) by (simp add: p2_def be32_patch_same)
  have "hasPlainIPv6Header p 6 = Some True"
    using g upper_layer_tcp [of p] by (auto simp: hasPlainIPv6Header_def upperLayerOffsetV6_def good6_def raw6_def)
  then have "sendFakeSynWithMD5V6 fk p r1 r2 = sign_syn p2 True 40 r1 r2"
    using ttl s1 r r1(2) by (simp add: sendFakeSynWithMD5V6_def p1_def [symmetric] p2_def [symmetric])
  then show ?thesis using sign_syn6 [OF r2(1) s2 rnd r2(2)] by simp
qed

subsection \<open>The copy with a payload\<close>

definition syn_seq :: "FakeSettings \<Rightarrow> 32 word \<Rightarrow> 32 word" where
  "syn_seq fk s =
     (if fk_Strategy fk = str ''randseq'' then if SeqOffset fk = 0 then s + SeqOffset fk + 100000 else s + SeqOffset fk
      else let off = (if SeqOffset fk = 0 then 10000 else SeqOffset fk) in if s > off then s - off else s)"

context fake_family begin

lemma syn_strategy_shape:
  assumes p: "shape d data t p" "be32 p (h + 4) = Some (unat (s :: 32 word))"
  shows "\<exists>q s'. syn_strategy fk p h v6 = Some q \<and> shape d data t q \<and> be32 q (h + 4) = Some (unat (s' :: 32 word))"
proof -
  have b: "20 \<le> d" "length p = h + d + length data" "tcp_hdr_len p h = Some d" "l3_len p v6 = Some h"
    using shape_bounds [OF p(1)] by auto
  have w: "put_at p (h + 4) (put32 (unat x)) = Some (patch p (h + 4) (put32 (unat x)))" "shape d data t (patch p (h + 4) (put32 (unat x)))"
      "be32 (patch p (h + 4) (put32 (unat x))) (h + 4) = Some (unat x)" for x :: "32 word"
    using b shape_seq [OF p(1)] by (auto simp: be32_patch_same)
  consider (sq) x :: "32 word" where "syn_strategy fk p h v6 = put_at p (h + 4) (put32 (unat x))"
    | (ts) dec where "syn_strategy fk p h v6 = DecreaseTCPTimestamp p dec v6 \<bind> (\<lambda>(pkt, ok). Some pkt)"
    | (none) "syn_strategy fk p h v6 = Some p"
  proof (cases "fk_Strategy fk = str ''randseq'' \<or> fk_Strategy fk = str ''pastseq''")
    case True
    then show thesis using p(2) sq [of "syn_seq fk s"] by (auto simp: syn_strategy_def syn_seq_def Let_def str_def)
  next
    case False
    then show thesis using ts none by (cases "fk_Strategy fk = str ''timestamp''") (auto simp: syn_strategy_def)
  qed
  then show ?thesis
  proof cases
    case ts
    obtain q ok where q: "DecreaseTCPTimestamp p dec v6 = Some (q, ok)" "length q = length p"
        "take (h + 20) q = take (h + 20) p" "drop (h + d) q = drop (h + d) p"
      using timestamp_turned_back [OF b(4,3,1), of dec] b(2) by auto
    have n: "q ! i = p ! i" if "i < h + 20" for i using q(3) that by (metis nth_take)
    have "be32 q (h + 4) = be32 p (h + 4)" using b q(2) by (simp add: be32_lt n)
    then show ?thesis using ts q p shape_options [OF p(1) q(2,3,4)] by auto
  qed (use p w in auto)
qed

end

lemma corrupt_shape4: "shape4 h d data t p \<Longrightarrow> \<exists>q. corruptTCPChecksum p h = Some q \<and> shape4 h d data t q"
proof -
  assume sh: "shape4 h d data t p"
  have l: "20 \<le> h" "h + 20 \<le> length p" using sh by (auto simp: shape4_def raw4_def)
  define p1 where "p1 = patch p (h + 16) [p ! (h + 16) XOR 0xFF]"
  have p1: "shape4 h d data t p1" "length p1 = length p" unfolding p1_def using l shape4_patch [OF sh, of "h + 16"] by simp_all
  then show ?thesis using l shape4_patch [OF p1(1), of "h + 17"] by (simp add: corruptTCPChecksum_def p1_def [symmetric])
qed

lemma corrupt_shape6: "shape6 d data t p \<Longrightarrow> \<exists>q. corruptTCPChecksum p 40 = Some q \<and> shape6 d data t q"
proof -
  assume sh: "shape6 d data t p"
  have l: "60 \<le> length p" using sh by (auto simp: shape6_def raw6_def)
  define p1 where "p1 = patch p 56 [p ! 56 XOR 0xFF]"
  have p1: "shape6 d data t p1" "length p1 = length p" unfolding p1_def using l shape6_patch [OF sh, of 56] by simp_all
  then show ?thesis using l shape6_patch [OF p1(1), of 57] by (simp add: corruptTCPChecksum_def p1_def [symmetric])
qed

lemma plain4:
  assumes g: "good4 h d s data t p" and len: "h + d + length (syn_payload C fk n rnd) \<le> 65535"
    and ttl: "dynamicTTL p False (syn_ttl fk SynTTL) = Some t'"
  shows "\<exists>q. sendFakeSyn C fk n SynTTL rnd p h d = Some q \<and> shape4 h d (syn_payload C fk n rnd) t' q"
proof -
  define pl where "pl = syn_payload C fk n rnd"
  have raw: "raw4 h d data t p" and r: "20 \<le> h" "20 \<le> d" "h + d \<le> length p" "be32 p (h + 4) = Some (unat s)"
    using g by (auto simp: good4_def raw4_def)
  define p0 where "p0 = take (h + d) p @ pl"
  have p0: "sub_bytes p 0 (h + d) = Some (take (h + d) p)" "raw4 h d pl t p0" using raw4_replace [OF raw, of pl] len by (auto simp: p0_def pl_def)
  have l0: "length p0 = h + d + length pl" using p0(2) by (simp add: raw4_def)
  define p1 where "p1 = patch p0 2 (put16 (length p0))"
  have s1: "shape4 h d pl t p1" "length p1 = length p0"
    using raw4_patch [OF p0(2), of 2 "put16 (length p0)"] r l0 len by (auto simp: shape4_def p1_def be16_patch_same pl_def)
  define p2 where "p2 = patch p1 8 [t']"
  have s2: "shape4 h d pl t' p2" using s1 raw4_ttl [of h d pl t p1 t'] r l0 by (auto simp: shape4_def p2_def be16_patch)
  have "be32 p0 (h + 4) = be32 p (h + 4)" using r l0 by (auto simp: be32_lt p0_def nth_append)
  then have "be32 p2 (h + 4) = Some (unat s)" using r l0 s1(2) by (simp add: p2_def p1_def be32_patch)
  from f4.syn_strategy_shape [OF s2 this] obtain p3 s' where
    p3: "syn_strategy fk p2 h False = Some p3" "shape4 h d pl t' p3" "be32 p3 (h + 4) = Some (unat (s' :: 32 word))" by blast
  obtain p4 where p4: "reseal4 h p3 = Some p4" "shape4 h d pl t' p4" using f4.reseal_eq [OF p3(2,3)] by blast
  obtain q where q: "corruptTCPChecksum p4 h = Some q" "shape4 h d pl t' q" using corrupt_shape4 [OF p4(2)] by blast
  have a: "put_at p0 2 (put16 (length p0)) = Some p1" "put_at p1 8 [t'] = Some p2" using l0 r s1(2) by (simp_all add: p1_def p2_def)
  have "sendFakeSyn C fk n SynTTL rnd p h d = Some q"
    using p0(1) a ttl p3(1) p4(1) q(1) unfolding sendFakeSyn_def Let_def pl_def [symmetric]
    by (auto simp: p0_def [symmetric] reseal4_def bind_eq_Some_conv simp del: length_append length_take)
  then show ?thesis using q(2) by (simp add: pl_def)
qed

lemma plain6:
  assumes g: "good6 d s data t p" and len: "40 + d + length (syn_payload C fk n rnd) \<le> 65535"
    and ttl: "dynamicTTL p True (syn_ttl fk SynTTL) = Some t'"
  shows "\<exists>q. sendFakeSynV6 C fk n SynTTL rnd p 40 d = Some (Some q) \<and> shape6 d (syn_payload C fk n rnd) t' q"
proof -
  define pl where "pl = syn_payload C fk n rnd"
  have raw: "raw6 d data t p" and r: "20 \<le> d" "40 + d \<le> length p" "be32 p 44 = Some (unat s)"
    using g by (auto simp: good6_def raw6_def)
  define p0 where "p0 = take (40 + d) p @ pl"
  have p0: "sub_bytes p 0 (40 + d) = Some (take (40 + d) p)" "raw6 d pl t p0" using raw6_replace [OF raw, of pl] len by (auto simp: p0_def pl_def)
  have l0: "length p0 = 40 + d + length pl" using p0(2) by (simp add: raw6_def)
  define p1 where "p1 = patch p0 4 (put16 (d + length pl))"
  have s1: "shape6 d pl t p1" "length p1 = length p0"
    using raw6_patch [OF p0(2), of 4 "put16 (d + length pl)"] r l0 len by (auto simp: shape6_def p1_def be16_patch_same pl_def)
  define p2 where "p2 = patch p1 7 [t']"
  have s2: "shape6 d pl t' p2" using s1 raw6_ttl [of d pl t p1 t'] r l0 by (auto simp: shape6_def p2_def be16_patch)
  have "be32 p0 44 = be32 p 44" using r l0 by (auto simp: be32_lt p0_def nth_append)
  then have "be32 p2 (40 + 4) = Some (unat s)" using r l0 s1(2) by (simp add: p2_def p1_def be32_patch)
  from f6.syn_strategy_shape [OF s2 this] obtain p3 s' where
    p3: "syn_strategy fk p2 40 True = Some p3" "shape6 d pl t' p3" "be32 p3 (40 + 4) = Some (unat (s' :: 32 word))" by blast
  obtain p4 where p4: "FixTCPChecksumV6 p3 = Some p4" "shape6 d pl t' p4" using f6.reseal_eq [OF p3(2,3)] by blast
  obtain q where q: "corruptTCPChecksum p4 40 = Some q" "shape6 d pl t' q" using corrupt_shape6 [OF p4(2)] by blast
  have a: "put_at p0 4 (put16 (d + length pl)) = Some p1" "put_at p1 7 [t'] = Some p2" using l0 r s1(2) by (simp_all add: p1_def p2_def)
  have "hasPlainIPv6Header p 6 = Some True"
    using g upper_layer_tcp [of p] by (auto simp: hasPlainIPv6Header_def upperLayerOffsetV6_def good6_def raw6_def)
  then have "sendFakeSynV6 C fk n SynTTL rnd p 40 d = Some (Some q)"
    using p0(1) a ttl p3(1) p4(1) q(1) unfolding sendFakeSynV6_def Let_def pl_def [symmetric]
    by (simp add: p0_def [symmetric])
  then show ?thesis using q(2) by (simp add: pl_def)
qed



end
