(* ===== verification/Tcp_Desync.thy ===== *)
theory Tcp_Desync
  imports Fake_Syn
begin

text \<open>
  The attacks on the state that a censor keeps of a connection (\<^verbatim>\<open>nfq/desync.go\<close>, \<^verbatim>\<open>nfq/post_desync.go\<close>, \<^verbatim>\<open>nfq/win.go\<close>): copies of the
  headers of a segment with other flags, sequence numbers or windows. Every function is a list of edits of the
  TCP header; the locale \<open>header_fakes\<close> is the contract of the routine that carries them out, and what the attacks
  send is proved once for both address families.
\<close>

unbundle bit_operations_syntax

subsection \<open>Copies of the headers\<close>

fun each :: "('a \<Rightarrow> 'b option) \<Rightarrow> 'a list \<Rightarrow> 'b list option" where
  "each f [] = Some []"
| "each f (x # xs) = do { y \<leftarrow> f x; ys \<leftarrow> each f xs; Some (y # ys) }"

text \<open>Edits are pairs of an offset in the TCP header and the bytes written there.\<close>

type_synonym edit = "nat \<times> bytes"

fun put_edits :: "bytes \<Rightarrow> nat \<Rightarrow> edit list \<Rightarrow> bytes option" where
  "put_edits p l3 [] = Some p"
| "put_edits p l3 ((i, v) # es) = do { p \<leftarrow> put_at p (l3 + i) v; put_edits p l3 es }"

text \<open>One fake of the desync attacks: headers, edits, hop limit, length, checksums, and the TCP checksum inverted.\<close>

definition desync_fake4 :: "bytes \<Rightarrow> nat \<Rightarrow> nat \<Rightarrow> edit list \<Rightarrow> byte \<Rightarrow> bytes option" where
  "desync_fake4 packet ipHdrLen tcpHdrLen es ttl = do {
     fake \<leftarrow> sub_bytes packet 0 (ipHdrLen + tcpHdrLen);
     fake \<leftarrow> put_edits fake ipHdrLen es;
     fake \<leftarrow> put_at fake 8 [ttl];
     fake \<leftarrow> put_at fake 2 (put16 (ipHdrLen + tcpHdrLen));
     fake \<leftarrow> fix_ip_header fake ipHdrLen;
     fake \<leftarrow> FixTCPChecksum fake;
     corruptTCPChecksum fake ipHdrLen }"

definition desync_fake6 :: "bytes \<Rightarrow> nat \<Rightarrow> nat \<Rightarrow> edit list \<Rightarrow> byte \<Rightarrow> bytes option" where
  "desync_fake6 packet ipv6HdrLen tcpHdrLen es ttl = do {
     fake \<leftarrow> sub_bytes packet 0 (ipv6HdrLen + tcpHdrLen);
     fake \<leftarrow> put_edits fake ipv6HdrLen es;
     fake \<leftarrow> put_at fake 7 [ttl];
     fake \<leftarrow> put_at fake 4 (put16 tcpHdrLen);
     fake \<leftarrow> FixTCPChecksumV6 fake;
     corruptTCPChecksum fake ipv6HdrLen }"

type_synonym fake_maker = "bytes \<Rightarrow> nat \<Rightarrow> nat \<Rightarrow> edit list \<Rightarrow> byte \<Rightarrow> bytes option"

text \<open>What an attack reads of the packet, or \<^verbatim>\<open>return\<close> for a packet that is too short.\<close>

definition desync_reading :: "bytes \<Rightarrow> nat \<Rightarrow> (32 word \<times> 32 word \<times> nat) option option" where
  "desync_reading packet l3 =
     (if length packet < l3 + 20 then Some None
      else do {
        origSeq \<leftarrow> be32 packet (l3 + 4);
        origAck \<leftarrow> be32 packet (l3 + 8);
        tcpHdrLen \<leftarrow> tcp_hdr_len packet l3;
        if tcpHdrLen < 20 \<or> l3 + tcpHdrLen > length packet then Some None
        else Some (Some (word_of_nat origSeq, word_of_nat origAck, tcpHdrLen)) })"

subsection \<open>The desync attacks\<close>

definition rst_flags :: "nat \<Rightarrow> byte" where
  "rst_flags i = (if i mod 2 = 0 then 0x04 else 0x14)"

definition rst_offset :: "nat \<Rightarrow> 32 word" where
  "rst_offset i = (if i = 0 then - 10000 else if i = 1 then 0 else if i = 2 then 10000 else word_of_nat (i * 5000))"

definition rst_edits :: "32 word \<Rightarrow> nat \<Rightarrow> edit list" where
  "rst_edits origSeq i =
     [(13, [rst_flags i]), (4, put32 (unat (origSeq + rst_offset i)))] @
     (if rst_flags i = 0x04 then [(8, put32 0)] else [])"

definition desync_rst :: "fake_maker \<Rightarrow> bool \<Rightarrow> bytes \<Rightarrow> nat \<Rightarrow> byte \<Rightarrow> int \<Rightarrow> bytes list option" where
  "desync_rst mk v6 packet l3 ttl cnt = do {
     r \<leftarrow> desync_reading packet l3;
     case r of
       None \<Rightarrow> Some []
     | Some (origSeq, _, tcpHdrLen) \<Rightarrow>
         each (\<lambda>i. do { t \<leftarrow> dynamicTTL packet v6 ttl; mk packet l3 tcpHdrLen (rst_edits origSeq i) t }) [0..<nat cnt] }"

definition fin_edits :: "32 word \<Rightarrow> 32 word \<Rightarrow> nat \<Rightarrow> edit list" where
  "fin_edits origSeq origAck i =
     (let off = word_of_nat (50000 + i * 10000) in
      [(13, [0x11]), (4, put32 (if origSeq > off then unat (origSeq - off) else 1)), (8, put32 (unat origAck))])"

definition desync_fin :: "fake_maker \<Rightarrow> bool \<Rightarrow> bytes \<Rightarrow> nat \<Rightarrow> byte \<Rightarrow> int \<Rightarrow> bytes list option" where
  "desync_fin mk v6 packet l3 ttl cnt = do {
     r \<leftarrow> desync_reading packet l3;
     case r of
       None \<Rightarrow> Some []
     | Some (origSeq, origAck, tcpHdrLen) \<Rightarrow>
         each (\<lambda>i. do { t \<leftarrow> dynamicTTL packet v6 ttl; mk packet l3 tcpHdrLen (fin_edits origSeq origAck i) t }) [0..<nat cnt] }"

text \<open>The acknowledgements take a sequence number from the random source and count the hop limit down.\<close>

definition ack_edits :: "32 word \<Rightarrow> 32 word \<Rightarrow> 32 word \<Rightarrow> nat \<Rightarrow> edit list" where
  "ack_edits origSeq origAck r i =
     [(13, [0x10]), (4, put32 (unat (origSeq + r))), (8, put32 (unat (origAck + word_of_nat (100000 * (i + 1)))))]"

definition ack_ttl :: "byte \<Rightarrow> nat \<Rightarrow> byte" where
  "ack_ttl base i =
     (let ttl = (if word_of_nat i \<ge> base then 1 else base - word_of_nat i) in if ttl < 1 then 1 else ttl)"

definition desync_ack :: "fake_maker \<Rightarrow> bool \<Rightarrow> bytes \<Rightarrow> nat \<Rightarrow> byte \<Rightarrow> int \<Rightarrow> (nat \<Rightarrow> 32 word) \<Rightarrow> bytes list option" where
  "desync_ack mk v6 packet l3 ttl cnt rnd = do {
     r \<leftarrow> desync_reading packet l3;
     case r of
       None \<Rightarrow> Some []
     | Some (origSeq, origAck, tcpHdrLen) \<Rightarrow> do {
         baseTTL \<leftarrow> dynamicTTL packet v6 ttl;
         each (\<lambda>i. mk packet l3 tcpHdrLen (ack_edits origSeq origAck (rnd i) i) (ack_ttl baseTTL i)) [0..<nat cnt] } }"

definition desync_combo :: "fake_maker \<Rightarrow> bool \<Rightarrow> bytes \<Rightarrow> nat \<Rightarrow> byte \<Rightarrow> (nat \<Rightarrow> 32 word) \<Rightarrow> bytes list option" where
  "desync_combo mk v6 packet l3 ttl rnd = do {
     a \<leftarrow> desync_rst mk v6 packet l3 ttl 1;
     b \<leftarrow> desync_fin mk v6 packet l3 ttl 1;
     c \<leftarrow> desync_ack mk v6 packet l3 ttl 2 rnd;
     Some (a @ b @ c) }"

text \<open>The full attack: a SYN, three resets and, over IPv4 only, a push and an urgent segment.\<close>

definition full_edits :: "32 word \<Rightarrow> bool \<Rightarrow> edit list list" where
  "full_edits origSeq v6 =
     [(13, [0x02]), (4, put32 (unat (origSeq - 100000)))] #
     map (\<lambda>i. [(13, [0x04]), (4, put32 (unat (origSeq + word_of_nat (i * 100))))]) [0..<3] @
     (if v6 then [] else [[(13, [0x18])], [(13, [0x39]), (18, put16 0xFFFF)]])"

definition desync_full :: "fake_maker \<Rightarrow> bool \<Rightarrow> bytes \<Rightarrow> nat \<Rightarrow> byte \<Rightarrow> bytes list option" where
  "desync_full mk v6 packet l3 ttl = do {
     r \<leftarrow> desync_reading packet l3;
     case r of
       None \<Rightarrow> Some []
     | Some (origSeq, _, tcpHdrLen) \<Rightarrow> do {
         t \<leftarrow> dynamicTTL packet v6 ttl;
         each (\<lambda>es. mk packet l3 tcpHdrLen es t) (full_edits origSeq v6) } }"

text \<open>\<^verbatim>\<open>DesyncConfig\<close> as the attacks read it.\<close>

record DesyncConfig =
  ds_Mode :: gostr
  ds_TTL :: byte
  ds_Count :: int
  ds_PostDesync :: bool

definition execute_desync :: "fake_maker \<Rightarrow> bool \<Rightarrow> DesyncConfig \<Rightarrow> (nat \<Rightarrow> 32 word) \<Rightarrow> bytes \<Rightarrow> nat \<Rightarrow> bytes list option" where
  "execute_desync mk v6 da rnd packet l3 =
     (if ds_Mode da = str ''rst'' then desync_rst mk v6 packet l3 (ds_TTL da) (ds_Count da)
      else if ds_Mode da = str ''fin'' then desync_fin mk v6 packet l3 (ds_TTL da) (ds_Count da)
      else if ds_Mode da = str ''ack'' then desync_ack mk v6 packet l3 (ds_TTL da) (ds_Count da) rnd
      else if ds_Mode da = str ''full'' then desync_full mk v6 packet l3 (ds_TTL da)
      else desync_combo mk v6 packet l3 (ds_TTL da) rnd)"

text \<open>The functions of the source, for each address family.\<close>

definition sendDesyncRST :: "byte \<Rightarrow> int \<Rightarrow> bytes \<Rightarrow> bytes list option" where
  "sendDesyncRST ttl cnt packet = do { ipHdrLen \<leftarrow> ip_hdr_len packet; desync_rst desync_fake4 False packet ipHdrLen ttl cnt }"

definition sendDesyncRSTv6 :: "byte \<Rightarrow> int \<Rightarrow> bytes \<Rightarrow> bytes list option" where
  "sendDesyncRSTv6 ttl cnt packet = desync_rst desync_fake6 True packet 40 ttl cnt"

definition sendDesyncFIN :: "byte \<Rightarrow> int \<Rightarrow> bytes \<Rightarrow> bytes list option" where
  "sendDesyncFIN ttl cnt packet = do { ipHdrLen \<leftarrow> ip_hdr_len packet; desync_fin desync_fake4 False packet ipHdrLen ttl cnt }"

definition sendDesyncFINv6 :: "byte \<Rightarrow> int \<Rightarrow> bytes \<Rightarrow> bytes list option" where
  "sendDesyncFINv6 ttl cnt packet = desync_fin desync_fake6 True packet 40 ttl cnt"

definition sendDesyncACK :: "byte \<Rightarrow> int \<Rightarrow> (nat \<Rightarrow> 32 word) \<Rightarrow> bytes \<Rightarrow> bytes list option" where
  "sendDesyncACK ttl cnt rnd packet = do { ipHdrLen \<leftarrow> ip_hdr_len packet; desync_ack desync_fake4 False packet ipHdrLen ttl cnt rnd }"

definition sendDesyncACKv6 :: "byte \<Rightarrow> int \<Rightarrow> (nat \<Rightarrow> 32 word) \<Rightarrow> bytes \<Rightarrow> bytes list option" where
  "sendDesyncACKv6 ttl cnt rnd packet = desync_ack desync_fake6 True packet 40 ttl cnt rnd"

definition sendDesyncFull :: "byte \<Rightarrow> bytes \<Rightarrow> bytes list option" where
  "sendDesyncFull ttl packet = do { ipHdrLen \<leftarrow> ip_hdr_len packet; desync_full desync_fake4 False packet ipHdrLen ttl }"

definition sendDesyncFullv6 :: "byte \<Rightarrow> bytes \<Rightarrow> bytes list option" where
  "sendDesyncFullv6 ttl packet = desync_full desync_fake6 True packet 40 ttl"

definition sendDesyncCombo :: "byte \<Rightarrow> (nat \<Rightarrow> 32 word) \<Rightarrow> bytes \<Rightarrow> bytes list option" where
  "sendDesyncCombo ttl rnd packet = do {
     a \<leftarrow> sendDesyncRST ttl 1 packet;
     b \<leftarrow> sendDesyncFIN ttl 1 packet;
     c \<leftarrow> sendDesyncACK ttl 2 rnd packet;
     Some (a @ b @ c) }"

definition sendDesyncCombov6 :: "byte \<Rightarrow> (nat \<Rightarrow> 32 word) \<Rightarrow> bytes \<Rightarrow> bytes list option" where
  "sendDesyncCombov6 ttl rnd packet = do {
     a \<leftarrow> sendDesyncRSTv6 ttl 1 packet;
     b \<leftarrow> sendDesyncFINv6 ttl 1 packet;
     c \<leftarrow> sendDesyncACKv6 ttl 2 rnd packet;
     Some (a @ b @ c) }"

definition ExecuteDesyncIPv4 :: "DesyncConfig \<Rightarrow> (nat \<Rightarrow> 32 word) \<Rightarrow> bytes \<Rightarrow> bytes list option" where
  "ExecuteDesyncIPv4 da rnd packet =
     (if ds_Mode da = str ''off'' then Some []
      else if ds_Mode da = str ''rst'' then sendDesyncRST (ds_TTL da) (ds_Count da) packet
      else if ds_Mode da = str ''fin'' then sendDesyncFIN (ds_TTL da) (ds_Count da) packet
      else if ds_Mode da = str ''ack'' then sendDesyncACK (ds_TTL da) (ds_Count da) rnd packet
      else if ds_Mode da = str ''full'' then sendDesyncFull (ds_TTL da) packet
      else sendDesyncCombo (ds_TTL da) rnd packet)"

definition ExecuteDesyncIPv6 :: "DesyncConfig \<Rightarrow> (nat \<Rightarrow> 32 word) \<Rightarrow> bytes \<Rightarrow> bytes list option" where
  "ExecuteDesyncIPv6 da rnd packet =
     (if ds_Mode da = str ''off'' then Some []
      else do {
        plain \<leftarrow> hasPlainIPv6Header packet 6;
        if \<not> plain then Some []
        else if ds_Mode da = str ''rst'' then sendDesyncRSTv6 (ds_TTL da) (ds_Count da) packet
        else if ds_Mode da = str ''fin'' then sendDesyncFINv6 (ds_TTL da) (ds_Count da) packet
        else if ds_Mode da = str ''ack'' then sendDesyncACKv6 (ds_TTL da) (ds_Count da) rnd packet
        else if ds_Mode da = str ''full'' then sendDesyncFullv6 (ds_TTL da) packet
        else sendDesyncCombov6 (ds_TTL da) rnd packet })"

lemma ExecuteDesyncIPv4_eq:
  "ExecuteDesyncIPv4 da rnd packet =
     (if ds_Mode da = str ''off'' then Some []
      else do { ipHdrLen \<leftarrow> ip_hdr_len packet; execute_desync desync_fake4 False da rnd packet ipHdrLen })"
  by (cases "ip_hdr_len packet")
    (simp_all add: ExecuteDesyncIPv4_def execute_desync_def sendDesyncRST_def sendDesyncFIN_def sendDesyncACK_def sendDesyncFull_def
      sendDesyncCombo_def desync_combo_def)

lemma ExecuteDesyncIPv6_eq:
  "ExecuteDesyncIPv6 da rnd packet =
     (if ds_Mode da = str ''off'' then Some []
      else do {
        plain \<leftarrow> hasPlainIPv6Header packet 6;
        if \<not> plain then Some [] else execute_desync desync_fake6 True da rnd packet 40 })"
  unfolding ExecuteDesyncIPv6_def execute_desync_def sendDesyncRSTv6_def sendDesyncFINv6_def sendDesyncACKv6_def sendDesyncFullv6_def
      sendDesyncCombov6_def desync_combo_def
  by (rule refl)

subsection \<open>After the data\<close>

definition post_types :: "nat \<Rightarrow> (byte \<times> int) list" where
  "post_types payloadLen =
     [(0x04, 0), (0x14, int payloadLen), (0x11, int payloadLen + 1), (0x04, - 10000), (0x14, 100000)]"

definition post_edits :: "32 word \<Rightarrow> byte \<times> int \<Rightarrow> edit list" where
  "post_edits sq ft =
     (let newSeq = uint sq + snd ft; newSeq = (if newSeq < 0 then 0 else newSeq) in
      [(13, [fst ft]), (4, put32 (unat (word_of_int newSeq :: 32 word)))])"

definition sendPostDesyncRST :: "byte \<Rightarrow> bytes \<Rightarrow> nat \<Rightarrow> bytes list option" where
  "sendPostDesyncRST cfgTTL raw ipHdrLen = do {
     r \<leftarrow> desync_reading raw ipHdrLen;
     case r of
       None \<Rightarrow> Some []
     | Some (sq, _, tcpHdrLen) \<Rightarrow> do {
         ttl \<leftarrow> dynamicTTL raw False cfgTTL;
         each (\<lambda>ft. desync_fake4 raw ipHdrLen tcpHdrLen (post_edits sq ft) ttl)
           (post_types (length raw - ipHdrLen - tcpHdrLen)) } }"

definition sendPostDesyncRSTv6 :: "byte \<Rightarrow> bytes \<Rightarrow> bytes list option" where
  "sendPostDesyncRSTv6 cfgTTL raw =
     (if length raw < 60 then Some []
      else do {
        plain \<leftarrow> hasPlainIPv6Header raw 6;
        if \<not> plain then Some []
        else do {
          r \<leftarrow> desync_reading raw 40;
          case r of
            None \<Rightarrow> Some []
          | Some (sq, _, tcpHdrLen) \<Rightarrow> do {
              ttl \<leftarrow> dynamicTTL raw True cfgTTL;
              rst \<leftarrow> desync_fake6 raw 40 tcpHdrLen
                 [(13, [0x14]), (4, put32 (unat (sq + word_of_nat (length raw - 40 - tcpHdrLen))))] ttl;
              Some [rst] } } })"

subsection \<open>The window attacks\<close>

record WinConfig =
  win_Mode :: gostr
  win_Values :: "int list"

definition window_values :: "WinConfig \<Rightarrow> int list" where
  "window_values w = (if win_Values w = [] then [0, 1460, 8192, 65535] else win_Values w)"

definition windowFake :: "bytes \<Rightarrow> nat \<Rightarrow> bytes option" where
  "windowFake packet l3 = do { d \<leftarrow> tcp_hdr_len packet l3; sub_bytes packet 0 (l3 + d) }"

definition win16 :: "int \<Rightarrow> bytes" where
  "win16 n = put16 (unat (word_of_int n :: 16 word))"

text \<open>\<^verbatim>\<open>uint8(base - i)\<close>, at least 1.\<close>

definition window_ttl :: "int \<Rightarrow> nat \<Rightarrow> byte" where
  "window_ttl base i = (let t = word_of_int (base - int i) in if t < 1 then 1 else t)"

definition window_fake4 :: "bytes \<Rightarrow> nat \<Rightarrow> edit list \<Rightarrow> byte \<Rightarrow> bytes option" where
  "window_fake4 packet ipHdrLen es ttl = do {
     fake \<leftarrow> windowFake packet ipHdrLen;
     fake \<leftarrow> put_edits fake ipHdrLen es;
     fake \<leftarrow> put_at fake 8 [ttl];
     fake \<leftarrow> put_at fake 2 (put16 (length fake));
     fake \<leftarrow> fix_ip_header fake ipHdrLen;
     FixTCPChecksum fake }"

definition window_fake6 :: "bytes \<Rightarrow> nat \<Rightarrow> edit list \<Rightarrow> byte \<Rightarrow> bytes option" where
  "window_fake6 packet ipv6HdrLen es ttl = do {
     fake \<leftarrow> windowFake packet ipv6HdrLen;
     fake \<leftarrow> put_edits fake ipv6HdrLen es;
     fake \<leftarrow> put_at fake 7 [ttl];
     fake \<leftarrow> put_at fake 4 (put16 (length fake - ipv6HdrLen));
     FixTCPChecksumV6 fake }"

text \<open>The zero window attack copies the whole packet, its data included.\<close>

definition zero_fake4 :: "bytes \<Rightarrow> nat \<Rightarrow> int \<Rightarrow> byte \<Rightarrow> bytes option" where
  "zero_fake4 packet ipHdrLen win ttl = do {
     fake \<leftarrow> put_at packet (ipHdrLen + 14) (win16 win);
     fake \<leftarrow> put_at fake 8 [ttl];
     fake \<leftarrow> fix_ip_header fake ipHdrLen;
     FixTCPChecksum fake }"

definition zero_fake6 :: "bytes \<Rightarrow> nat \<Rightarrow> int \<Rightarrow> byte \<Rightarrow> bytes option" where
  "zero_fake6 packet ipv6HdrLen win ttl = do {
     fake \<leftarrow> put_at packet (ipv6HdrLen + 14) (win16 win);
     fake \<leftarrow> put_at fake 7 [ttl];
     FixTCPChecksumV6 fake }"

type_synonym window_maker = "bytes \<Rightarrow> nat \<Rightarrow> edit list \<Rightarrow> byte \<Rightarrow> bytes option"
type_synonym zero_maker = "bytes \<Rightarrow> nat \<Rightarrow> int \<Rightarrow> byte \<Rightarrow> bytes option"

definition send_oscillating :: "window_maker \<Rightarrow> bytes \<Rightarrow> nat \<Rightarrow> int list \<Rightarrow> bytes list option" where
  "send_oscillating mk packet l3 vals =
     each (\<lambda>(i, winSize). mk packet l3 [(14, win16 winSize), (13, [0x10])] (window_ttl 10 i)) (List.enumerate 0 vals)"

definition send_zero :: "zero_maker \<Rightarrow> bytes \<Rightarrow> nat \<Rightarrow> bytes list option" where
  "send_zero mk packet l3 = each (\<lambda>(win, ttl). mk packet l3 win ttl) [(0, 3), (65535, 2)]"

definition random_window :: "int list \<Rightarrow> nat \<Rightarrow> int" where
  "random_window vals r = (if vals \<noteq> [] then vals ! (r mod length vals) else int (r mod 65536))"

definition send_random :: "window_maker \<Rightarrow> bytes \<Rightarrow> nat \<Rightarrow> int list \<Rightarrow> (nat \<Rightarrow> nat) \<Rightarrow> bytes list option" where
  "send_random mk packet l3 vals r =
     each (\<lambda>i. mk packet l3 [(14, win16 (random_window vals (r (Suc i))))] (window_ttl 8 i)) [0..<3 + r 0 mod 3]"

definition send_escalating :: "window_maker \<Rightarrow> bytes \<Rightarrow> nat \<Rightarrow> bytes list option" where
  "send_escalating mk packet l3 =
     each (\<lambda>(i, win). mk packet l3 [(14, win16 win)] (window_ttl 10 i))
       (List.enumerate 0 [0, 100, 500, 1460, 8192, 32768, 65535])"

definition manipulate_window ::
    "window_maker \<Rightarrow> zero_maker \<Rightarrow> WinConfig \<Rightarrow> (nat \<Rightarrow> nat) \<Rightarrow> bytes \<Rightarrow> nat \<Rightarrow> bytes list option" where
  "manipulate_window mk mkz w r packet l3 =
     (if win_Mode w = str ''zero'' then send_zero mkz packet l3
      else if win_Mode w = str ''random'' then send_random mk packet l3 (window_values w) r
      else if win_Mode w = str ''escalate'' then send_escalating mk packet l3
      else send_oscillating mk packet l3 (window_values w))"

text \<open>The functions of the source, for each address family.\<close>

definition sendOscillatingWindows :: "bytes \<Rightarrow> nat \<Rightarrow> WinConfig \<Rightarrow> bytes list option" where
  "sendOscillatingWindows packet ipHdrLen w = send_oscillating window_fake4 packet ipHdrLen (window_values w)"

definition sendOscillatingWindowsV6 :: "bytes \<Rightarrow> WinConfig \<Rightarrow> bytes list option" where
  "sendOscillatingWindowsV6 packet w = send_oscillating window_fake6 packet 40 (window_values w)"

definition sendZeroWindow :: "bytes \<Rightarrow> nat \<Rightarrow> bytes list option" where
  "sendZeroWindow packet ipHdrLen = send_zero zero_fake4 packet ipHdrLen"

definition sendZeroWindowV6 :: "bytes \<Rightarrow> bytes list option" where
  "sendZeroWindowV6 packet = send_zero zero_fake6 packet 40"

definition sendRandomWindows :: "bytes \<Rightarrow> nat \<Rightarrow> WinConfig \<Rightarrow> (nat \<Rightarrow> nat) \<Rightarrow> bytes list option" where
  "sendRandomWindows packet ipHdrLen w r = send_random window_fake4 packet ipHdrLen (window_values w) r"

definition sendRandomWindowsV6 :: "bytes \<Rightarrow> WinConfig \<Rightarrow> (nat \<Rightarrow> nat) \<Rightarrow> bytes list option" where
  "sendRandomWindowsV6 packet w r = send_random window_fake6 packet 40 (window_values w) r"

definition sendEscalatingWindows :: "bytes \<Rightarrow> nat \<Rightarrow> bytes list option" where
  "sendEscalatingWindows packet ipHdrLen = send_escalating window_fake4 packet ipHdrLen"

definition sendEscalatingWindowsV6 :: "bytes \<Rightarrow> bytes list option" where
  "sendEscalatingWindowsV6 packet = send_escalating window_fake6 packet 40"

definition ManipulateWindowIPv4 :: "WinConfig \<Rightarrow> (nat \<Rightarrow> nat) \<Rightarrow> bytes \<Rightarrow> bytes list option" where
  "ManipulateWindowIPv4 w r packet =
     (if win_Mode w = str ''off'' then Some []
      else do {
        ipHdrLen \<leftarrow> ip_hdr_len packet;
        if length packet < ipHdrLen + 20 then Some []
        else do {
          tcpHdrLen \<leftarrow> tcp_hdr_len packet ipHdrLen;
          if tcpHdrLen < 20 \<or> length packet < ipHdrLen + tcpHdrLen then Some []
          else if win_Mode w = str ''zero'' then sendZeroWindow packet ipHdrLen
          else if win_Mode w = str ''random'' then sendRandomWindows packet ipHdrLen w r
          else if win_Mode w = str ''escalate'' then sendEscalatingWindows packet ipHdrLen
          else sendOscillatingWindows packet ipHdrLen w } })"

definition ManipulateWindowIPv6 :: "WinConfig \<Rightarrow> (nat \<Rightarrow> nat) \<Rightarrow> bytes \<Rightarrow> bytes list option" where
  "ManipulateWindowIPv6 w r packet =
     (if win_Mode w = str ''off'' then Some []
      else if length packet < 60 then Some []
      else do {
        plain \<leftarrow> hasPlainIPv6Header packet 6;
        if \<not> plain then Some []
        else do {
          tcpHdrLen \<leftarrow> tcp_hdr_len packet 40;
          if tcpHdrLen < 20 \<or> length packet < 40 + tcpHdrLen then Some []
          else if win_Mode w = str ''zero'' then sendZeroWindowV6 packet
          else if win_Mode w = str ''random'' then sendRandomWindowsV6 packet w r
          else if win_Mode w = str ''escalate'' then sendEscalatingWindowsV6 packet
          else sendOscillatingWindowsV6 packet w } })"

lemma ManipulateWindowIPv4_eq:
  "ManipulateWindowIPv4 w r packet =
     (if win_Mode w = str ''off'' then Some []
      else do {
        ipHdrLen \<leftarrow> ip_hdr_len packet;
        if length packet < ipHdrLen + 20 then Some []
        else do {
          tcpHdrLen \<leftarrow> tcp_hdr_len packet ipHdrLen;
          if tcpHdrLen < 20 \<or> length packet < ipHdrLen + tcpHdrLen then Some []
          else manipulate_window window_fake4 zero_fake4 w r packet ipHdrLen } })"
  unfolding ManipulateWindowIPv4_def manipulate_window_def sendZeroWindow_def sendRandomWindows_def sendEscalatingWindows_def
      sendOscillatingWindows_def
  by (rule refl)

lemma ManipulateWindowIPv6_eq:
  "ManipulateWindowIPv6 w r packet =
     (if win_Mode w = str ''off'' then Some []
      else if length packet < 60 then Some []
      else do {
        plain \<leftarrow> hasPlainIPv6Header packet 6;
        if \<not> plain then Some []
        else do {
          tcpHdrLen \<leftarrow> tcp_hdr_len packet 40;
          if tcpHdrLen < 20 \<or> length packet < 40 + tcpHdrLen then Some []
          else manipulate_window window_fake6 zero_fake6 w r packet 40 } })"
  unfolding ManipulateWindowIPv6_def manipulate_window_def sendZeroWindowV6_def sendRandomWindowsV6_def sendEscalatingWindowsV6_def
      sendOscillatingWindowsV6_def
  by (rule refl)

subsection \<open>What a maker of fakes promises\<close>

lemma each_total:
  assumes "\<And>x. x \<in> set xs \<Longrightarrow> \<exists>y. f x = Some y \<and> P y"
  shows "\<exists>ys. each f xs = Some ys \<and> length ys = length xs \<and> (\<forall>y \<in> set ys. P y)"
  using assms
proof (induction xs)
  case (Cons x xs)
  then obtain y ys where "f x = Some y" "P y" "each f xs = Some ys" "length ys = length xs" "\<forall>y \<in> set ys. P y"
    by (metis list.set_intros(1,2))
  then show ?case by simp
qed simp

text \<open>An edit that leaves the header length of TCP alone.\<close>

definition harmless :: "edit \<Rightarrow> bool" where
  "harmless e \<longleftrightarrow> fst e + length (snd e) \<le> 12 \<or> 13 \<le> fst e \<and> fst e + length (snd e) \<le> 20"

definition keeps_seq :: "edit \<Rightarrow> bool" where
  "keeps_seq e \<longleftrightarrow> fst e + length (snd e) \<le> 4 \<or> 8 \<le> fst e"

text \<open>How many packets an attack has.\<close>

definition attack_size :: "bool \<Rightarrow> DesyncConfig \<Rightarrow> nat" where
  "attack_size v6 da =
     (if ds_Mode da \<in> {str ''rst'', str ''fin'', str ''ack''} then nat (ds_Count da)
      else if ds_Mode da = str ''full'' then if v6 then 4 else 6 else 4)"

locale header_fakes =
  fixes mk :: fake_maker and wmk :: window_maker and zmk :: zero_maker and v6 :: bool
    and good :: "nat \<Rightarrow> nat \<Rightarrow> 32 word \<Rightarrow> bytes \<Rightarrow> byte \<Rightarrow> bytes \<Rightarrow> bool"
    and bare :: "nat \<Rightarrow> nat \<Rightarrow> byte \<Rightarrow> bytes \<Rightarrow> bool"
  assumes read: "good h d s data t p \<Longrightarrow>
      20 \<le> h \<and> 20 \<le> d \<and> h + d \<le> length p \<and> tcp_hdr_len p h = Some d \<and> be32 p (h + 4) = Some (unat s) \<and>
      p ! (if v6 then 7 else 8) = t"
    and make: "good h d s data t p \<Longrightarrow> list_all harmless es \<Longrightarrow> \<exists>q. mk p h d es t' = Some q \<and> bare h d t' q"
    and window: "good h d s data t p \<Longrightarrow> list_all harmless es \<Longrightarrow> list_all keeps_seq es \<Longrightarrow>
      \<exists>q. wmk p h es t' = Some q \<and> good h d s [] t' q"
    and zero: "good h d s data t p \<Longrightarrow> \<exists>q. zmk p h win t' = Some q \<and> good h d s data t' q"
begin

lemma reading: "good h d s data t p \<Longrightarrow> \<exists>ak. desync_reading p h = Some (Some (s, ak, d))"
  using read [of h d s data t p] be32_lt [of "h + 8" p] by (auto simp: desync_reading_def)

lemma ttl: "good h d s data t p \<Longrightarrow> \<exists>t'. dynamicTTL p v6 c = Some t' \<and> 1 \<le> t'"
  using read [of h d s data t p] by (auto simp: dynamicTTL_def Let_def word_less_nat_alt word_le_nat_alt)

text \<open>Every attack sends bare headers with at most the lowered hop limit.\<close>

definition low :: "nat \<Rightarrow> nat \<Rightarrow> byte \<Rightarrow> bytes \<Rightarrow> bool" where
  "low h d t' q \<longleftrightarrow> (\<exists>t1 \<le> t'. bare h d t1 q)"

lemma make_all:
  assumes g: "good h d s data t p" and es: "\<forall>x \<in> set xs. list_all harmless (e x) \<and> tt x \<le> t'"
  shows "\<exists>sent. each (\<lambda>x. mk p h d (e x) (tt x)) xs = Some sent \<and> length sent = length xs \<and> (\<forall>q \<in> set sent. low h d t' q)"
  using make [OF g] es by (intro each_total) (fastforce simp: low_def)

lemma rst:
  assumes g: "good h d s data t p" and t: "dynamicTTL p v6 c = Some t'"
  shows "\<exists>sent. desync_rst mk v6 p h c n = Some sent \<and> length sent = nat n \<and> (\<forall>q \<in> set sent. low h d t' q)"
proof -
  have "\<forall>i \<in> set [0..<nat n]. list_all harmless (rst_edits s i) \<and> t' \<le> t'" by (simp add: rst_edits_def harmless_def)
  from make_all [OF g this] show ?thesis using reading [OF g] t by (auto simp: desync_rst_def)
qed

lemma fin:
  assumes g: "good h d s data t p" and t: "dynamicTTL p v6 c = Some t'"
  shows "\<exists>sent. desync_fin mk v6 p h c n = Some sent \<and> length sent = nat n \<and> (\<forall>q \<in> set sent. low h d t' q)"
proof -
  obtain ak where r: "desync_reading p h = Some (Some (s, ak, d))" using reading [OF g] by blast
  have "\<forall>i \<in> set [0..<nat n]. list_all harmless (fin_edits s ak i) \<and> t' \<le> t'" by (simp add: fin_edits_def harmless_def Let_def)
  from make_all [OF g this] show ?thesis using r t by (auto simp: desync_fin_def)
qed

lemma ack_ttl_le: "1 \<le> b \<Longrightarrow> ack_ttl b i \<le> b"
  by (auto simp: ack_ttl_def Let_def word_le_nat_alt word_less_nat_alt unat_sub)

lemma ack:
  assumes g: "good h d s data t p" and t: "dynamicTTL p v6 c = Some t'"
  shows "\<exists>sent. desync_ack mk v6 p h c n rnd = Some sent \<and> length sent = nat n \<and> (\<forall>q \<in> set sent. low h d t' q)"
proof -
  obtain ak where r: "desync_reading p h = Some (Some (s, ak, d))" using reading [OF g] by blast
  have "1 \<le> t'" using ttl [OF g, of c] t by auto
  then have "\<forall>i \<in> set [0..<nat n]. list_all harmless (ack_edits s ak (rnd i) i) \<and> ack_ttl t' i \<le> t'"
    using ack_ttl_le by (simp add: ack_edits_def harmless_def)
  from make_all [OF g this] show ?thesis using r t by (auto simp: desync_ack_def)
qed

lemma combo:
  assumes g: "good h d s data t p" and t: "dynamicTTL p v6 c = Some t'"
  shows "\<exists>sent. desync_combo mk v6 p h c rnd = Some sent \<and> length sent = 4 \<and> (\<forall>q \<in> set sent. low h d t' q)"
  using rst [OF g t, of 1] fin [OF g t, of 1] ack [OF g t, of 2 rnd] by (fastforce simp: desync_combo_def)

lemma full:
  assumes g: "good h d s data t p" and t: "dynamicTTL p v6 c = Some t'"
  shows "\<exists>sent. desync_full mk v6 p h c = Some sent \<and> length sent = (if v6 then 4 else 6) \<and> (\<forall>q \<in> set sent. low h d t' q)"
proof -
  have "\<forall>es \<in> set (full_edits s v6). list_all harmless es \<and> t' \<le> t'" by (auto simp: full_edits_def harmless_def)
  from make_all [OF g this] show ?thesis
    using reading [OF g] t by (auto simp: desync_full_def full_edits_def)
qed

lemma executed:
  assumes "good h d s data t p" "dynamicTTL p v6 (ds_TTL da) = Some t'"
  shows "\<exists>sent. execute_desync mk v6 da rnd p h = Some sent \<and> length sent = attack_size v6 da \<and> (\<forall>q \<in> set sent. low h d t' q)"
  using rst [OF assms, of "ds_Count da"] fin [OF assms, of "ds_Count da"] ack [OF assms, of "ds_Count da" rnd] full [OF assms] combo [OF assms, of rnd]
  by (simp add: execute_desync_def attack_size_def)

text \<open>The window attacks send intact segments without data, or with the data of the client.\<close>

definition echo :: "nat \<Rightarrow> nat \<Rightarrow> 32 word \<Rightarrow> bytes \<Rightarrow> bytes \<Rightarrow> bool" where
  "echo h d s data q \<longleftrightarrow> (\<exists>t'. good h d s [] t' q \<or> good h d s data t' q)"

lemma windows:
  assumes g: "good h d s data t p"
  shows "\<exists>sent. manipulate_window wmk zmk w r p h = Some sent \<and> (\<forall>q \<in> set sent. echo h d s data q)"
proof -
  have w: "\<exists>q. wmk p h es t' = Some q \<and> echo h d s data q" if "list_all harmless es" "list_all keeps_seq es" for es t'
    using window [OF g that, of t'] by (auto simp: echo_def)
  have z: "\<exists>q. zmk p h win t' = Some q \<and> echo h d s data q" for win t' using zero [OF g, of win t'] by (auto simp: echo_def)
  have a: "\<exists>sent. send_oscillating wmk p h vals = Some sent \<and> length sent = length (List.enumerate 0 vals) \<and> (\<forall>q \<in> set sent. echo h d s data q)" for vals
    unfolding send_oscillating_def by (rule each_total) (auto simp: harmless_def keeps_seq_def win16_def intro!: w)
  have b: "\<exists>sent. send_zero zmk p h = Some sent \<and> (\<forall>q \<in> set sent. echo h d s data q)"
    using z [of 0 3] z [of 65535 2] by (auto simp: send_zero_def)
  have c: "\<exists>sent. send_random wmk p h vals r = Some sent \<and> length sent = length [0..<3 + r 0 mod 3] \<and> (\<forall>q \<in> set sent. echo h d s data q)" for vals
    unfolding send_random_def by (rule each_total) (auto simp: harmless_def keeps_seq_def win16_def intro!: w)
  have e: "\<exists>sent. send_escalating wmk p h = Some sent \<and> length sent = length (List.enumerate 0 [0 :: int, 100, 500, 1460, 8192, 32768, 65535]) \<and>
      (\<forall>q \<in> set sent. echo h d s data q)"
    unfolding send_escalating_def by (rule each_total) (auto simp: harmless_def keeps_seq_def win16_def intro!: w)
  show ?thesis using a [of "window_values w"] b c [of "window_values w"] e unfolding manipulate_window_def
    by (cases "win_Mode w = str ''zero''"; cases "win_Mode w = str ''random''"; cases "win_Mode w = str ''escalate''") auto
qed

end

subsection \<open>Both families\<close>

lemma put_edits_inv:
  assumes "P p" "\<And>p e. P p \<Longrightarrow> E e \<Longrightarrow> l3 + fst e + length (snd e) \<le> length p \<and> P (patch p (l3 + fst e) (snd e))" "list_all E es"
  shows "\<exists>q. put_edits p l3 es = Some q \<and> P q"
  using assms(1,3)
proof (induction es arbitrary: p)
  case (Cons e es)
  then show ?case using assms(2) [of p e] by (cases e) (simp add: add.assoc)
qed simp

lemma edited4:
  assumes "raw4 h d data t p" "list_all harmless es"
  shows "\<exists>q. put_edits p h es = Some q \<and> raw4 h d data t q"
proof (rule put_edits_inv [where P = "raw4 h d data t" and E = harmless, OF assms(1) _ assms(2)])
  fix p :: bytes and e :: edit
  assume r: "raw4 h d data t p" and e: "harmless e"
  have b: "20 \<le> h" "20 \<le> d" "h + d \<le> length p" using r by (auto simp: raw4_def)
  have "raw4 h d data t (patch p (h + fst e) (snd e))" using b e by (intro raw4_patch [OF r]) (auto simp: harmless_def)
  then show "h + fst e + length (snd e) \<le> length p \<and> raw4 h d data t (patch p (h + fst e) (snd e))"
    using b e by (auto simp: harmless_def)
qed

lemma edited6:
  assumes "raw6 d data t p" "list_all harmless es"
  shows "\<exists>q. put_edits p 40 es = Some q \<and> raw6 d data t q"
proof (rule put_edits_inv [where P = "raw6 d data t" and E = harmless, OF assms(1) _ assms(2)])
  fix p :: bytes and e :: edit
  assume r: "raw6 d data t p" and e: "harmless e"
  have b: "20 \<le> d" "40 + d \<le> length p" using r by (auto simp: raw6_def)
  have "raw6 d data t (patch p (40 + fst e) (snd e))" using b e by (intro raw6_patch [OF r]) (auto simp: harmless_def)
  then show "40 + fst e + length (snd e) \<le> length p \<and> raw6 d data t (patch p (40 + fst e) (snd e))"
    using b e by (auto simp: harmless_def)
qed

lemma edited_seq:
  assumes "put_edits p l3 es = Some q" "list_all harmless es" "list_all keeps_seq es" "l3 + 20 \<le> length p"
  shows "be32 q (l3 + 4) = be32 p (l3 + 4)"
proof -
  have "\<exists>q. put_edits p l3 es = Some q \<and> (l3 + 20 \<le> length q \<and> be32 q (l3 + 4) = be32 p (l3 + 4))"
  proof (rule put_edits_inv [where E = "\<lambda>e. harmless e \<and> keeps_seq e"])
    fix x :: bytes and e :: edit
    assume x: "l3 + 20 \<le> length x \<and> be32 x (l3 + 4) = be32 p (l3 + 4)" and e: "harmless e \<and> keeps_seq e"
    have l: "l3 + fst e + length (snd e) \<le> length x" using x e by (auto simp: harmless_def)
    then have "be32 (patch x (l3 + fst e) (snd e)) (l3 + 4) = be32 x (l3 + 4)"
      using x e by (intro be32_patch) (auto simp: keeps_seq_def)
    then show "l3 + fst e + length (snd e) \<le> length x \<and>
        (l3 + 20 \<le> length (patch x (l3 + fst e) (snd e)) \<and> be32 (patch x (l3 + fst e) (snd e)) (l3 + 4) = be32 p (l3 + 4))"
      using x l by simp
  qed (use assms in \<open>auto simp: list_all_iff\<close>)
  then show ?thesis using assms(1) by simp
qed

text \<open>The common part of the makers: bare headers, edited, with hop limit and length.\<close>

lemma bare4:
  assumes raw: "raw4 h d data t p" and es: "list_all harmless es"
  shows "\<exists>e q. sub_bytes p 0 (h + d) = Some (take (h + d) p) \<and> put_edits (take (h + d) p) h es = Some e \<and> length e = h + d \<and>
    put_at e 8 [t'] = Some (patch e 8 [t']) \<and> put_at (patch e 8 [t']) 2 (put16 (h + d)) = Some q \<and> shape4 h d [] t' q \<and>
    (list_all keeps_seq es \<longrightarrow> be32 q (h + 4) = be32 p (h + 4))"
proof -
  have b: "20 \<le> h" "20 \<le> d" "h + d \<le> length p" "length p \<le> 65535" using raw by (auto simp: raw4_def)
  have r0: "raw4 h d [] t (take (h + d) p)" using raw4_replace [OF raw, of "[]"] b by simp
  obtain e where e: "put_edits (take (h + d) p) h es = Some e" "raw4 h d [] t e" using edited4 [OF r0 es] by blast
  have l: "length e = h + d" using e(2) by (simp add: raw4_def)
  define q where "q = patch (patch e 8 [t']) 2 (put16 (h + d))"
  have r1: "raw4 h d [] t' (patch e 8 [t'])" by (rule raw4_ttl [OF e(2)])
  have "raw4 h d [] t' q" unfolding q_def using b by (intro raw4_patch [OF r1]) auto
  moreover have "be16 q 2 = Some (length q)" using b l by (simp add: q_def be16_patch_same)
  moreover have "be32 q (h + 4) = be32 p (h + 4)" if "list_all keeps_seq es"
  proof -
    have "be32 e (h + 4) = be32 (take (h + d) p) (h + 4)" using edited_seq [OF e(1) es that] b by simp
    also have "\<dots> = be32 p (h + 4)" using b by (simp add: be32_lt)
    finally show ?thesis using b l by (simp add: q_def be32_patch)
  qed
  ultimately show ?thesis using e(1) l b by (intro exI [of _ e] exI [of _ q]) (simp add: q_def shape4_def)
qed

lemma bare6:
  assumes raw: "raw6 d data t p" and es: "list_all harmless es"
  shows "\<exists>e q. sub_bytes p 0 (40 + d) = Some (take (40 + d) p) \<and> put_edits (take (40 + d) p) 40 es = Some e \<and> length e = 40 + d \<and>
    put_at e 7 [t'] = Some (patch e 7 [t']) \<and> put_at (patch e 7 [t']) 4 (put16 d) = Some q \<and> shape6 d [] t' q \<and>
    (list_all keeps_seq es \<longrightarrow> be32 q 44 = be32 p 44)"
proof -
  have b: "20 \<le> d" "40 + d \<le> length p" "length p \<le> 65535" using raw by (auto simp: raw6_def)
  have r0: "raw6 d [] t (take (40 + d) p)" using raw6_replace [OF raw, of "[]"] b by simp
  obtain e where e: "put_edits (take (40 + d) p) 40 es = Some e" "raw6 d [] t e" using edited6 [OF r0 es] by blast
  have l: "length e = 40 + d" using e(2) by (simp add: raw6_def)
  define q where "q = patch (patch e 7 [t']) 4 (put16 d)"
  have r1: "raw6 d [] t' (patch e 7 [t'])" by (rule raw6_ttl [OF e(2)])
  have "raw6 d [] t' q" unfolding q_def using b by (intro raw6_patch [OF r1]) auto
  moreover have "be16 q 4 = Some (length q - 40)" using b l by (simp add: q_def be16_patch_same)
  moreover have "be32 q 44 = be32 p 44" if "list_all keeps_seq es"
  proof -
    have "be32 e 44 = be32 (take (40 + d) p) 44" using edited_seq [OF e(1) es that] b by simp
    also have "\<dots> = be32 p 44" using b by (simp add: be32_lt)
    finally show ?thesis using b l by (simp add: q_def be32_patch)
  qed
  ultimately show ?thesis using e(1) l b by (intro exI [of _ e] exI [of _ q]) (simp add: q_def shape6_def)
qed

lemma be32_word: "i + 3 < length b \<Longrightarrow> \<exists>s :: 32 word. be32 b i = Some (unat s)"
proof -
  assume "i + 3 < length b"
  then obtain n where n: "be32 b i = Some n" using be32_lt by blast
  then have "n < 2 ^ 32" using be32_SomeD by fastforce
  then have "unat (word_of_nat n :: 32 word) = n" by (simp add: unat_of_nat)
  then show ?thesis using n by metis
qed

lemma desync_fake4_eq:
  assumes g: "good4 h d s data t p" and es: "list_all harmless es"
  shows "\<exists>q. desync_fake4 p h d es t' = Some q \<and> shape4 h d [] t' q"
proof -
  obtain e q where q: "sub_bytes p 0 (h + d) = Some (take (h + d) p)" "put_edits (take (h + d) p) h es = Some e"
      "put_at e 8 [t'] = Some (patch e 8 [t'])" "put_at (patch e 8 [t']) 2 (put16 (h + d)) = Some q" "shape4 h d [] t' q"
    using bare4 [OF good4_raw [OF g] es, of t'] by blast
  have "h + 4 + 3 < length q" using q(5) by (auto simp: shape4_def raw4_def)
  then obtain s' :: "32 word" where "be32 q (h + 4) = Some (unat s')" using be32_word by blast
  then obtain q1 where q1: "reseal4 h q = Some q1" "shape4 h d [] t' q1" using f4.reseal_eq [OF q(5)] by blast
  obtain q2 where "corruptTCPChecksum q1 h = Some q2" "shape4 h d [] t' q2" using corrupt_shape4 [OF q1(2)] by blast
  then show ?thesis using q(1-4) q1(1) by (auto simp: desync_fake4_def reseal4_def bind_eq_Some_conv)
qed

lemma desync_fake6_eq:
  assumes g: "good6 d s data t p" and es: "list_all harmless es"
  shows "\<exists>q. desync_fake6 p 40 d es t' = Some q \<and> shape6 d [] t' q"
proof -
  obtain e q where q: "sub_bytes p 0 (40 + d) = Some (take (40 + d) p)" "put_edits (take (40 + d) p) 40 es = Some e"
      "put_at e 7 [t'] = Some (patch e 7 [t'])" "put_at (patch e 7 [t']) 4 (put16 d) = Some q" "shape6 d [] t' q"
    using bare6 [OF _ es, of d data t p t'] g by (auto simp: good6_def)
  have "40 + 4 + 3 < length q" using q(5) by (auto simp: shape6_def raw6_def)
  then obtain s' :: "32 word" where "be32 q (40 + 4) = Some (unat s')" using be32_word by blast
  then obtain q1 where q1: "FixTCPChecksumV6 q = Some q1" "shape6 d [] t' q1" using f6.reseal_eq [OF q(5)] by blast
  obtain q2 where "corruptTCPChecksum q1 40 = Some q2" "shape6 d [] t' q2" using corrupt_shape6 [OF q1(2)] by blast
  then show ?thesis using q(1-4) q1(1) by (auto simp: desync_fake6_def bind_eq_Some_conv)
qed

lemma window_fake4_eq:
  assumes g: "good4 h d s data t p" and es: "list_all harmless es" "list_all keeps_seq es"
  shows "\<exists>q. window_fake4 p h es t' = Some q \<and> good4 h d s [] t' q"
proof -
  obtain e q where q: "sub_bytes p 0 (h + d) = Some (take (h + d) p)" "put_edits (take (h + d) p) h es = Some e" "length e = h + d"
      "put_at e 8 [t'] = Some (patch e 8 [t'])" "put_at (patch e 8 [t']) 2 (put16 (h + d)) = Some q" "shape4 h d [] t' q"
      "be32 q (h + 4) = be32 p (h + 4)"
    using bare4 [OF good4_raw [OF g] es(1), of t'] es(2) by blast
  have len: "length (patch e 8 [t']) = h + d" using q(3,4) by (auto simp: put_at_eq)
  have "be32 q (h + 4) = Some (unat s)" using q(7) g by (simp add: good4_def)
  from finish4 [OF _ this] q(6) obtain r where "fix_ip_header q h \<bind> FixTCPChecksum = Some r" "good4 h d s [] t' r"
    unfolding shape4_def by blast
  moreover have "tcp_hdr_len p h = Some d" using g by (auto simp: good4_def raw4_def)
  ultimately show ?thesis using q(1,2,4,5) len by (auto simp: window_fake4_def windowFake_def bind_eq_Some_conv)
qed

lemma window_fake6_eq:
  assumes g: "good6 d s data t p" and es: "list_all harmless es" "list_all keeps_seq es"
  shows "\<exists>q. window_fake6 p 40 es t' = Some q \<and> good6 d s [] t' q"
proof -
  obtain e q where q: "sub_bytes p 0 (40 + d) = Some (take (40 + d) p)" "put_edits (take (40 + d) p) 40 es = Some e" "length e = 40 + d"
      "put_at e 7 [t'] = Some (patch e 7 [t'])" "put_at (patch e 7 [t']) 4 (put16 d) = Some q" "shape6 d [] t' q"
      "be32 q 44 = be32 p 44"
    using bare6 [OF _ es(1), of d data t p t'] es(2) g by (auto simp: good6_def)
  have len: "length (patch e 7 [t']) - 40 = d" using q(3,4) by (auto simp: put_at_eq)
  have "be32 q 44 = Some (unat s)" using q(7) g by (simp add: good6_def)
  from fix6 [OF _ _ this] q(6) obtain r where "FixTCPChecksumV6 q = Some r" "good6 d s [] t' r"
    unfolding shape6_def by blast
  moreover have "tcp_hdr_len p 40 = Some d" using g by (auto simp: good6_def raw6_def)
  ultimately show ?thesis using q(1,2,4,5) len by (simp add: window_fake6_def windowFake_def)
qed

lemma zero_fake4_eq:
  assumes g: "good4 h d s data t p"
  shows "\<exists>q. zero_fake4 p h win t' = Some q \<and> good4 h d s data t' q"
proof -
  have raw: "raw4 h d data t p" and r: "20 \<le> h" "20 \<le> d" "h + d \<le> length p" "be32 p (h + 4) = Some (unat s)" "be16 p 2 = Some (length p)"
    using g by (auto simp: good4_def raw4_def)
  define p1 where "p1 = patch p (h + 14) (win16 win)"
  define p2 where "p2 = patch p1 8 [t']"
  have w: "length (win16 win) = 2" by (simp add: win16_def)
  have r1: "raw4 h d data t p1" unfolding p1_def using r w by (intro raw4_patch [OF raw]) auto
  have r2: "raw4 h d data t' p2" unfolding p2_def by (rule raw4_ttl [OF r1])
  have l: "length p1 = length p" "length p2 = length p" using r w by (simp_all add: p1_def p2_def)
  have "be32 p2 (h + 4) = Some (unat s)" "be16 p2 2 = Some (length p2)" using r w l by (simp_all add: p1_def p2_def be32_patch be16_patch)
  from finish4 [OF r2 this] show ?thesis
    using r w l by (simp add: zero_fake4_def p1_def [symmetric] p2_def [symmetric])
qed

lemma zero_fake6_eq:
  assumes g: "good6 d s data t p"
  shows "\<exists>q. zero_fake6 p 40 win t' = Some q \<and> good6 d s data t' q"
proof -
  have raw: "raw6 d data t p" and r: "20 \<le> d" "40 + d \<le> length p" "be32 p 44 = Some (unat s)" "be16 p 4 = Some (length p - 40)"
    using g by (auto simp: good6_def raw6_def)
  define p1 where "p1 = patch p 54 (win16 win)"
  define p2 where "p2 = patch p1 7 [t']"
  have w: "length (win16 win) = 2" by (simp add: win16_def)
  have r1: "raw6 d data t p1" unfolding p1_def using r w by (intro raw6_patch [OF raw]) auto
  have r2: "raw6 d data t' p2" unfolding p2_def by (rule raw6_ttl [OF r1])
  have l: "length p1 = length p" "length p2 = length p" using r w by (simp_all add: p1_def p2_def)
  have "be16 p2 4 = Some (length p2 - 40)" "be32 p2 44 = Some (unat s)" using r w l by (simp_all add: p1_def p2_def be32_patch be16_patch)
  from fix6 [OF r2 this] show ?thesis
    using r w l by (simp add: zero_fake6_def p1_def [symmetric] p2_def [symmetric])
qed

interpretation hf4: header_fakes desync_fake4 window_fake4 zero_fake4 False good4 "\<lambda>h d t q. shape4 h d [] t q"
proof
  fix h d s data t p
  assume g: "good4 h d s data t p"
  then show "20 \<le> h \<and> 20 \<le> d \<and> h + d \<le> length p \<and> tcp_hdr_len p h = Some d \<and> be32 p (h + 4) = Some (unat s) \<and>
      p ! (if False then 7 else 8) = t"
    by (auto simp: good4_def raw4_def)
qed (fact desync_fake4_eq window_fake4_eq zero_fake4_eq)+

interpretation hf6: header_fakes desync_fake6 window_fake6 zero_fake6 True "\<lambda>h d s data t p. h = 40 \<and> good6 d s data t p"
  "\<lambda>h d t q. h = 40 \<and> shape6 d [] t q"
proof
  fix h d :: nat and s data t p
  assume g: "h = 40 \<and> good6 d s data t p"
  then show "20 \<le> h \<and> 20 \<le> d \<and> h + d \<le> length p \<and> tcp_hdr_len p h = Some d \<and> be32 p (h + 4) = Some (unat s) \<and>
      p ! (if True then 7 else 8) = t"
    by (auto simp: good6_def raw6_def)
qed (use desync_fake6_eq window_fake6_eq zero_fake6_eq in fast)+

end
