(* ===== verification/Hello_Mutation.thy ===== *)
theory Hello_Mutation
  imports Tcp_Desync
begin

text \<open>
  Changes of the data before it is sent: an empty line in front of an HTTP request (\<^verbatim>\<open>nfq/httpmethod.go\<close>) and
  the mutation of a ClientHello (\<^verbatim>\<open>nfq/mutation.go\<close>, \<^verbatim>\<open>nfq/mutation_ipv6.go\<close>). The functions of both address families are the same but for the place of the TCP
  header, the argument \<open>v6\<close>. The locale \<open>hello_packets\<close> relates a packet to its data: what the functions do to the
  packet is what insertion and replacement of extensions do to the ClientHello, and lengths and checksums are made right.
\<close>

unbundle bit_operations_syntax

subsection \<open>Lengths of a changed packet\<close>

definition hello_start :: "bool \<Rightarrow> bytes \<Rightarrow> nat option" where
  "hello_start v6 packet = do {
     l3 \<leftarrow> (if v6 then Some 40 else ip_hdr_len packet);
     d \<leftarrow> tcp_hdr_len packet l3;
     Some (l3 + d) }"

text \<open>The lengths of the TLS record and of the ClientHello in it.\<close>

definition update_tls_lengths :: "bytes \<Rightarrow> nat \<Rightarrow> bytes option" where
  "update_tls_lengths packet payloadStart = do {
     let payloadLen = int (length packet) - int payloadStart;
     packet \<leftarrow> (if payloadLen \<ge> 5 \<and> packet ! payloadStart = 0x16
        then put_at packet (payloadStart + 3) (put16 (nat (payloadLen - 5))) else Some packet);
     if payloadLen \<ge> 9 \<and> packet ! payloadStart = 0x16 \<and> packet ! (payloadStart + 5) = 0x01
     then put_at packet (payloadStart + 6) (put24 (nat (payloadLen - 9))) else Some packet }"

definition updatePacketLengths :: "bytes \<Rightarrow> bytes option" where
  "updatePacketLengths packet =
     (if packet = [] then Some packet
      else if drop_bit 4 (packet ! 0) = 6 then
        if length packet < 60 then Some packet
        else do {
          start \<leftarrow> hello_start True packet;
          packet \<leftarrow> put_at packet 4 (put16 (length packet - 40));
          packet \<leftarrow> update_tls_lengths packet start;
          FixTCPChecksumV6 packet }
      else do {
        ipHdrLen \<leftarrow> ip_hdr_len packet;
        if length packet < ipHdrLen + 20 then Some packet
        else do {
          start \<leftarrow> hello_start False packet;
          packet \<leftarrow> put_at packet 2 (put16 (length packet));
          packet \<leftarrow> update_tls_lengths packet start;
          packet \<leftarrow> fix_ip_header packet ipHdrLen;
          FixTCPChecksum packet } })"

subsection \<open>An empty line before an HTTP request\<close>

definition payloadStartOf :: "bytes \<Rightarrow> nat option option" where
  "payloadStartOf packet =
     (if packet = [] then Some None
      else if drop_bit 4 (packet ! 0) = 4 then do {
        ipHdrLen \<leftarrow> ip_hdr_len packet;
        if length packet < ipHdrLen + 20 then Some None
        else do {
          start \<leftarrow> hello_start False packet;
          Some (if start > length packet then None else Some start) } }
      else if drop_bit 4 (packet ! 0) = 6 then
        if length packet < 60 then Some None
        else do {
          start \<leftarrow> hello_start True packet;
          Some (if start > length packet then None else Some start) }
      else Some None)"

definition methodEOL :: bytes where
  "methodEOL = [13, 10]"

definition userAgentLabel :: gostr where
  "userAgentLabel = str ''user-agent:''"

fun eol_index :: "bytes \<Rightarrow> nat option" where
  "eol_index (a # b # xs) = (if [a, b] = methodEOL then Some 0 else map_option Suc (eol_index (b # xs)))"
| "eol_index _ = None"

fun skip_blanks :: "bytes \<Rightarrow> nat" where
  "skip_blanks (x # xs) = (if x = 32 \<or> x = 9 then Suc (skip_blanks xs) else 0)"
| "skip_blanks [] = 0"

function user_agent_from :: "golib \<Rightarrow> bytes \<Rightarrow> nat \<Rightarrow> (nat \<times> nat) option" where
  "user_agent_from L payload pos =
     (if pos < length payload then
        case eol_index (drop pos payload) of
          None \<Rightarrow> None
        | Some 0 \<Rightarrow> None
        | Some rel \<Rightarrow>
            let line = take rel (drop pos payload); lineEnd = pos + rel; n = length userAgentLabel in
            if length line > n \<and> equal_fold L (take n line) userAgentLabel
            then Some (pos + n + skip_blanks (drop n line), lineEnd)
            else user_agent_from L payload (lineEnd + 2)
      else None)"
  by pat_completeness auto
termination
  by (relation "measure (\<lambda>(L, payload, pos). length payload - pos)") auto

declare user_agent_from.simps [simp del]

definition locateUserAgentValue :: "golib \<Rightarrow> bytes \<Rightarrow> (nat \<times> nat) option" where
  "locateUserAgentValue L payload = user_agent_from L payload 0"

definition applyHTTPMethodEOL :: "golib \<Rightarrow> bool \<Rightarrow> bytes \<Rightarrow> bytes option" where
  "applyHTTPMethodEOL L on packet =
     (if \<not> on then Some packet
      else do {
        st \<leftarrow> payloadStartOf packet;
        case st of
          None \<Rightarrow> Some packet
        | Some start \<Rightarrow>
            if start \<ge> length packet then Some packet
            else let payload = drop start packet in
              if \<not> looksLikeHTTPRequest payload then Some packet
              else case locateUserAgentValue L payload of
                None \<Rightarrow> Some packet
              | Some (valueStart, valueEnd) \<Rightarrow>
                  if valueEnd - valueStart < length methodEOL then Some packet
                  else updatePacketLengths
                    (take start packet @ methodEOL @ take (valueEnd - length methodEOL) payload @ drop valueEnd payload) })"

subsection \<open>Finding and changing extensions\<close>

definition MaxTCPPacketSize :: nat where
  "MaxTCPPacketSize = 1460"

definition MaxSNILength :: nat where
  "MaxSNILength = MaxSNINameLen"

definition findExtensionsOffset :: "bytes \<Rightarrow> nat option option" where
  "findExtensionsOffset payload =
     (if length payload < 43 then Some None
      else if 43 \<ge> length payload then Some None
      else do {
        sidLen \<leftarrow> at_nat payload 43;
        if 43 + 1 + sidLen > length payload then Some None
        else let pos = 43 + (1 + sidLen) in
          if pos + 2 > length payload then Some None
          else do {
            csLen \<leftarrow> be16 payload pos;
            if pos + 2 + csLen > length payload then Some None
            else let pos = pos + (2 + csLen) in
              if pos \<ge> length payload then Some None
              else do {
                compLen \<leftarrow> at_nat payload pos;
                if pos + 1 + compLen > length payload then Some None
                else let pos = pos + (1 + compLen) in
                  Some (if pos + 2 > length payload then None else Some pos) } } })"

function extensions_from :: "bytes \<Rightarrow> nat \<Rightarrow> nat \<Rightarrow> bytes list option" where
  "extensions_from data extLen pos =
     (if pos < 2 + extLen \<and> pos + 4 \<le> length data then
        if pos + 4 > 2 + extLen then Some []
        else do {
          el \<leftarrow> be16 data (pos + 2);
          if pos + 4 + el > 2 + extLen \<or> pos + 4 + el > length data then Some []
          else do {
            ext \<leftarrow> sub_bytes data pos (pos + 4 + el);
            rest \<leftarrow> extensions_from data extLen (pos + (4 + el));
            Some (ext # rest) } }
      else Some [])"
  by pat_completeness auto
termination
  by (relation "measure (\<lambda>(data, extLen, pos). length data - pos)") auto

declare extensions_from.simps [simp del]

definition parseExtensions :: "bytes \<Rightarrow> bytes list option" where
  "parseExtensions data =
     (if length data < 2 then Some []
      else do {
        extLen \<leftarrow> be16 data 0;
        if length data < 2 + extLen then Some [] else extensions_from data extLen 2 })"

text \<open>The place of the extensions: the position of their length field and that length, or nothing to do.\<close>

definition extensions_at :: "bool \<Rightarrow> bytes \<Rightarrow> (nat \<times> nat) option option" where
  "extensions_at v6 packet =
     (if v6 \<and> length packet < 60 then Some None
      else do {
        start \<leftarrow> hello_start v6 packet;
        payload \<leftarrow> sub_bytes packet start (length packet);
        off \<leftarrow> findExtensionsOffset payload;
        case off of
          None \<Rightarrow> Some None
        | Some extOffset \<Rightarrow>
            let extPos = start + extOffset in
            if length packet < extPos + 2 then Some None
            else do {
              currentExtLen \<leftarrow> be16 packet extPos;
              Some (if extPos + 2 + currentExtLen > length packet then None else Some (extPos, currentExtLen)) } })"

definition insertExtensions :: "bool \<Rightarrow> bytes \<Rightarrow> bytes \<Rightarrow> bytes option" where
  "insertExtensions v6 packet newExts = do {
     pos \<leftarrow> extensions_at v6 packet;
     case pos of
       None \<Rightarrow> Some packet
     | Some (extPos, currentExtLen) \<Rightarrow>
         if length packet + length newExts > MaxTCPPacketSize \<and> MaxTCPPacketSize \<le> length packet then Some packet
         else let newExts = (if length packet + length newExts > MaxTCPPacketSize
                             then take (MaxTCPPacketSize - length packet) newExts else newExts) in
           updatePacketLengths (take extPos packet @ put16 (currentExtLen + length newExts) @
             take currentExtLen (drop (extPos + 2) packet) @ newExts @ drop (extPos + 2 + currentExtLen) packet) }"

definition replaceExtensions :: "bool \<Rightarrow> bytes \<Rightarrow> bytes \<Rightarrow> bytes option" where
  "replaceExtensions v6 packet newExts = do {
     pos \<leftarrow> extensions_at v6 packet;
     case pos of
       None \<Rightarrow> Some packet
     | Some (extPos, currentExtLen) \<Rightarrow>
         if length packet + length newExts > MaxTCPPacketSize + currentExtLen then Some packet
         else updatePacketLengths (take extPos packet @ put16 (length newExts) @ newExts @
           drop (extPos + 2 + currentExtLen) packet) }"

subsection \<open>The mutations\<close>

record SNIMutationConfig =
  mut_Mode :: gostr
  GreaseCount :: int
  PaddingSize :: int
  FakeExtCount :: int
  FakeSNIs :: "gostr list"

text \<open>The random numbers of a mutation: the kind and the contents of each GREASE extension, a key, the contents of
  each unknown extension and the order of the extensions.\<close>

record mut_draws =
  rnd_kind :: "nat \<Rightarrow> byte"
  rnd_grease :: "nat \<Rightarrow> 32 word"
  rnd_key :: "nat \<Rightarrow> byte"
  rnd_ext :: "nat \<Rightarrow> 32 word"
  rnd_order :: "nat \<Rightarrow> nat"

definition greaseValues :: "nat list" where
  "greaseValues = [0x0a0a, 0x1a1a, 0x2a2a, 0x3a3a, 0x4a4a, 0x5a5a, 0x6a6a, 0x7a7a,
     0x8a8a, 0x9a9a, 0xaaaa, 0xbaba, 0xcaca, 0xdada, 0xeaea, 0xfafa]"

definition commonExtensions :: "nat list" where
  "commonExtensions = [0x0001, 0x0005, 0x000a, 0x000d, 0x000f, 0x0017, 0x0023, 0x002b, 0x0033]"

definition reservedTypes :: "nat list" where
  "reservedTypes = [0x00ff, 0x1234, 0x5678, 0x9abc, 0xfe00, 0xffff]"

text \<open>An extension of type \<open>ty\<close> with the contents \<open>body\<close>.\<close>

definition extension :: "nat \<Rightarrow> bytes \<Rightarrow> bytes" where
  "extension ty body = put16 ty @ put16 (length body) @ body"

definition sniExt :: "gostr \<Rightarrow> bytes" where
  "sniExt name = extension 0 (put16 (3 + length name) @ [0] @ put16 (length name) @ name)"

definition fakeSNIs :: "SNIMutationConfig \<Rightarrow> bytes list" where
  "fakeSNIs cfg = map sniExt (filter (\<lambda>name. name \<noteq> [] \<and> length name \<le> MaxSNILength) (FakeSNIs cfg))"

definition duplicateSNI :: "bool \<Rightarrow> SNIMutationConfig \<Rightarrow> bytes \<Rightarrow> bytes option" where
  "duplicateSNI v6 cfg packet = do {
     start \<leftarrow> hello_start v6 packet;
     payload \<leftarrow> sub_bytes packet start (length packet);
     off \<leftarrow> findExtensionsOffset payload;
     if off = None then Some packet else insertExtensions v6 packet (concat (fakeSNIs cfg)) }"

definition grease_exts :: "mut_draws \<Rightarrow> nat \<Rightarrow> bytes list" where
  "grease_exts dr n = map (\<lambda>i. extension (greaseValues ! (unat (rnd_kind dr i) mod 16)) (put32 (unat (rnd_grease dr i)))) [0..<n]"

text \<open>\<^verbatim>\<open>make\<close> panics for a negative capacity.\<close>

definition addGREASE :: "bool \<Rightarrow> SNIMutationConfig \<Rightarrow> mut_draws \<Rightarrow> bytes \<Rightarrow> bytes option" where
  "addGREASE v6 cfg dr packet =
     (if GreaseCount cfg < 0 then None else insertExtensions v6 packet (concat (grease_exts dr (nat (GreaseCount cfg)))))"

definition padding_size :: "int \<Rightarrow> nat \<Rightarrow> int" where
  "padding_size configured len =
     (let n = (if configured < 16 then 16 else configured); n = (if n > 4096 then 4096 else n) in
      if int len + n + 4 > int MaxTCPPacketSize then int MaxTCPPacketSize - int len - 4 else n)"

definition addPadding :: "bool \<Rightarrow> SNIMutationConfig \<Rightarrow> bytes \<Rightarrow> bytes option" where
  "addPadding v6 cfg packet =
     (let n = padding_size (PaddingSize cfg) (length packet) in
      if n \<le> 0 then Some packet else insertExtensions v6 packet (extension 0x0015 (replicate (nat n) 0)))"

definition is_sni :: "bytes \<Rightarrow> bool" where
  "is_sni ext \<longleftrightarrow> length ext \<ge> 2 \<and> be16 ext 0 = Some 0"

definition reordered :: "mut_draws \<Rightarrow> bytes list \<Rightarrow> bytes list" where
  "reordered dr exts =
     (let others = filter (\<lambda>e. \<not> is_sni e) exts; names = filter is_sni exts in
      (if names = [] then [] else [last names]) @ shuffle_from (rnd_order dr) (length others - 1) others)"

definition reorderExtensions :: "bool \<Rightarrow> mut_draws \<Rightarrow> bytes \<Rightarrow> bytes option" where
  "reorderExtensions v6 dr packet = do {
     start \<leftarrow> hello_start v6 packet;
     payload \<leftarrow> sub_bytes packet start (length packet);
     off \<leftarrow> findExtensionsOffset payload;
     case off of
       None \<Rightarrow> Some packet
     | Some extOffset \<Rightarrow> do {
         rest \<leftarrow> sub_bytes packet (start + extOffset) (length packet);
         exts \<leftarrow> parseExtensions rest;
         if length exts < 2 then Some packet
         else replaceExtensions v6 packet (concat (reordered dr exts)) } }"

definition alpn_protocols :: "gostr list" where
  "alpn_protocols = map str [''http/1.0'', ''http/1.1'', ''h2'', ''h3'', ''spdy/3'', ''spdy/3.1'', ''quic'', ''hq'', ''doq'',
     ''xmpp'', ''mqtt'', ''amqp'', ''grpc'', ''websocket'']"

fun alpn_data :: "bytes \<Rightarrow> gostr list \<Rightarrow> bytes" where
  "alpn_data acc [] = acc"
| "alpn_data acc (p # ps) =
     (if length acc + 1 + length p > 255 then acc else alpn_data (acc @ [word_of_nat (length p)] @ p) ps)"

definition fake_alpn :: bytes where
  "fake_alpn = (let d = alpn_data [] alpn_protocols in extension 0x0010 (put16 (length d) @ d))"

definition addFakeALPN :: "bool \<Rightarrow> bytes \<Rightarrow> bytes option" where
  "addFakeALPN v6 packet = insertExtensions v6 packet fake_alpn"

definition unknown_exts :: "mut_draws \<Rightarrow> nat \<Rightarrow> bytes list" where
  "unknown_exts dr n = map (\<lambda>i.
     extension (if i < length commonExtensions then commonExtensions ! i else reservedTypes ! (i mod length reservedTypes))
       (put32 (unat (rnd_ext dr i)))) [0..<n]"

definition addUnknownExtensions :: "bool \<Rightarrow> int \<Rightarrow> mut_draws \<Rightarrow> bytes \<Rightarrow> bytes option" where
  "addUnknownExtensions v6 cnt dr packet =
     (if cnt < 0 then None else insertExtensions v6 packet (concat (unknown_exts dr (nat cnt))))"

definition common_exts :: "bytes list" where
  "common_exts =
     [[0x00, 0x0a, 0x00, 0x08, 0x00, 0x06, 0x00, 0x1d, 0x00, 0x17, 0x00, 0x18],
      [0x00, 0x0d, 0x00, 0x0e, 0x00, 0x0c, 0x04, 0x03, 0x05, 0x03, 0x06, 0x03, 0x04, 0x01, 0x05, 0x01, 0x06, 0x01],
      [0x00, 0x2b, 0x00, 0x05, 0x04, 0x03, 0x04, 0x03, 0x03],
      [0x00, 0x23, 0x00, 0x00]]"

definition addCommonExtensions :: "bool \<Rightarrow> bytes \<Rightarrow> bytes option" where
  "addCommonExtensions v6 packet = insertExtensions v6 packet (concat common_exts)"

definition pskModes :: bytes where
  "pskModes = [0x00, 0x2d, 0x00, 0x02, 0x01, 0x01]"

definition keyShare :: "mut_draws \<Rightarrow> bytes" where
  "keyShare dr = [0x00, 0x33, 0x00, 0x26, 0x00, 0x24, 0x00, 0x1d, 0x00, 0x20] @ map (rnd_key dr) [0..<32]"

definition statusReq :: bytes where
  "statusReq = [0x00, 0x05, 0x00, 0x05, 0x01, 0x00, 0x00, 0x00, 0x00]"

definition insert_if_room :: "bool \<Rightarrow> bytes \<Rightarrow> bytes \<Rightarrow> bytes option" where
  "insert_if_room v6 packet ext =
     (if length packet + length ext \<le> MaxTCPPacketSize then insertExtensions v6 packet ext else Some packet)"

definition addAdvancedMutations :: "bool \<Rightarrow> mut_draws \<Rightarrow> bytes \<Rightarrow> bytes option" where
  "addAdvancedMutations v6 dr packet = do {
     mutated \<leftarrow> insert_if_room v6 packet pskModes;
     mutated \<leftarrow> insert_if_room v6 mutated (keyShare dr);
     insert_if_room v6 mutated statusReq }"

definition fullMutation :: "bool \<Rightarrow> SNIMutationConfig \<Rightarrow> mut_draws \<Rightarrow> bytes \<Rightarrow> bytes option" where
  "fullMutation v6 cfg dr packet = do {
     mutated \<leftarrow> duplicateSNI v6 cfg packet;
     if length mutated > MaxTCPPacketSize then Some packet
     else do {
       mutated \<leftarrow> addCommonExtensions v6 mutated;
       if length mutated > MaxTCPPacketSize then duplicateSNI v6 cfg packet
       else do {
         mutated \<leftarrow> addAdvancedMutations v6 dr mutated;
         mutated \<leftarrow> (if length mutated > MaxTCPPacketSize
                     then do { m \<leftarrow> duplicateSNI v6 cfg packet; addCommonExtensions v6 m } else Some mutated);
         mutated \<leftarrow> addGREASE v6 cfg dr mutated;
         mutated \<leftarrow> addFakeALPN v6 mutated;
         mutated \<leftarrow> addUnknownExtensions v6 (FakeExtCount cfg) dr mutated;
         mutated \<leftarrow> reorderExtensions v6 dr mutated;
         addPadding v6 cfg mutated } } }"

text \<open>Whether the packet starts with a whole record that begins with a ClientHello.\<close>

definition starts_hello :: "bytes \<Rightarrow> nat \<Rightarrow> bool option" where
  "starts_hello packet payloadStart =
     (if length packet \<le> payloadStart + 5 then Some False
      else do {
        payload \<leftarrow> sub_bytes packet payloadStart (length packet);
        if payload ! 0 \<noteq> 0x16 \<or> payload ! 1 \<noteq> 0x03 then Some False
        else do {
          recordLen \<leftarrow> be16 payload 3;
          Some (\<not> (length payload < 5 + recordLen) \<and> \<not> (length payload < 6 \<or> payload ! 5 \<noteq> 0x01)) } })"

definition mutate :: "bool \<Rightarrow> SNIMutationConfig \<Rightarrow> mut_draws \<Rightarrow> bytes \<Rightarrow> bytes option" where
  "mutate v6 cfg dr packet =
     (if mut_Mode cfg = str ''duplicate'' then duplicateSNI v6 cfg packet
      else if mut_Mode cfg = str ''grease'' then addGREASE v6 cfg dr packet
      else if mut_Mode cfg = str ''padding'' then addPadding v6 cfg packet
      else if mut_Mode cfg = str ''reorder'' then reorderExtensions v6 dr packet
      else if mut_Mode cfg = str ''full'' then fullMutation v6 cfg dr packet
      else if mut_Mode cfg = str ''advanced'' then addAdvancedMutations v6 dr packet
      else Some packet)"

definition MutateClientHello :: "SNIMutationConfig \<Rightarrow> mut_draws \<Rightarrow> bytes \<Rightarrow> bytes option" where
  "MutateClientHello cfg dr packet =
     (if mut_Mode cfg = str ''off'' then Some packet
      else do {
        start \<leftarrow> hello_start False packet;
        ok \<leftarrow> starts_hello packet start;
        if ok then mutate False cfg dr packet else Some packet })"

text \<open>The functions for IPv6.\<close>

definition insertExtensionsv6 :: "bytes \<Rightarrow> bytes \<Rightarrow> bytes option" where
  "insertExtensionsv6 = insertExtensions True"

definition replaceExtensionsv6 :: "bytes \<Rightarrow> bytes \<Rightarrow> bytes option" where
  "replaceExtensionsv6 = replaceExtensions True"

definition duplicateSNIv6 :: "SNIMutationConfig \<Rightarrow> bytes \<Rightarrow> bytes option" where
  "duplicateSNIv6 = duplicateSNI True"

definition addGREASEv6 :: "SNIMutationConfig \<Rightarrow> mut_draws \<Rightarrow> bytes \<Rightarrow> bytes option" where
  "addGREASEv6 = addGREASE True"

definition addPaddingv6 :: "SNIMutationConfig \<Rightarrow> bytes \<Rightarrow> bytes option" where
  "addPaddingv6 = addPadding True"

definition reorderExtensionsv6 :: "mut_draws \<Rightarrow> bytes \<Rightarrow> bytes option" where
  "reorderExtensionsv6 = reorderExtensions True"

definition addFakeALPNv6 :: "bytes \<Rightarrow> bytes option" where
  "addFakeALPNv6 = addFakeALPN True"

definition addUnknownExtensionsv6 :: "int \<Rightarrow> mut_draws \<Rightarrow> bytes \<Rightarrow> bytes option" where
  "addUnknownExtensionsv6 = addUnknownExtensions True"

definition addCommonExtensionsv6 :: "bytes \<Rightarrow> bytes option" where
  "addCommonExtensionsv6 = addCommonExtensions True"

definition addAdvancedMutationsv6 :: "mut_draws \<Rightarrow> bytes \<Rightarrow> bytes option" where
  "addAdvancedMutationsv6 = addAdvancedMutations True"

definition fullMutationv6 :: "SNIMutationConfig \<Rightarrow> mut_draws \<Rightarrow> bytes \<Rightarrow> bytes option" where
  "fullMutationv6 = fullMutation True"

definition MutateClientHelloV6 :: "SNIMutationConfig \<Rightarrow> mut_draws \<Rightarrow> bytes \<Rightarrow> bytes option" where
  "MutateClientHelloV6 cfg dr packet =
     (if mut_Mode cfg = str ''off'' \<or> length packet < 60 then Some packet
      else do {
        plain \<leftarrow> hasPlainIPv6Header packet 6;
        if \<not> plain then Some packet
        else do {
          start \<leftarrow> hello_start True packet;
          ok \<leftarrow> starts_hello packet start;
          if \<not> ok then Some packet
          else if mut_Mode cfg = str ''duplicate'' then duplicateSNIv6 cfg packet
          else if mut_Mode cfg = str ''grease'' then addGREASEv6 cfg dr packet
          else if mut_Mode cfg = str ''padding'' then addPaddingv6 cfg packet
          else if mut_Mode cfg = str ''reorder'' then reorderExtensionsv6 dr packet
          else if mut_Mode cfg = str ''full'' then fullMutationv6 cfg dr packet
          else if mut_Mode cfg = str ''advanced'' then addAdvancedMutationsv6 dr packet
          else Some packet } })"

lemma MutateClientHelloV6_eq:
  "MutateClientHelloV6 cfg dr packet =
     (if mut_Mode cfg = str ''off'' \<or> length packet < 60 then Some packet
      else do {
        plain \<leftarrow> hasPlainIPv6Header packet 6;
        if \<not> plain then Some packet
        else do {
          start \<leftarrow> hello_start True packet;
          ok \<leftarrow> starts_hello packet start;
          if ok then mutate True cfg dr packet else Some packet } })"
  unfolding MutateClientHelloV6_def mutate_def duplicateSNIv6_def addGREASEv6_def addPaddingv6_def reorderExtensionsv6_def
    fullMutationv6_def addAdvancedMutationsv6_def
  by (rule if_cong [OF refl refl]) (auto intro!: Option.bind_cong)

subsection \<open>Lists of extensions\<close>

function split_exts :: "bytes \<Rightarrow> bytes list" where
  "split_exts b =
     (if length b < 4 then []
      else let el = 256 * unat (b ! 2) + unat (b ! 3) in
        if 4 + el > length b then [] else take (4 + el) b # split_exts (drop (4 + el) b))"
  by pat_completeness auto
termination
  by (relation "measure length") auto

declare split_exts.simps [simp del]

lemma split_exts_none:
  "length b < 4 \<or> length b < 4 + (256 * unat (b ! 2) + unat (b ! 3)) \<Longrightarrow> split_exts b = []"
  by (auto simp: split_exts.simps [of b] Let_def)

lemma split_exts_some:
  "4 + (256 * unat (b ! 2) + unat (b ! 3)) \<le> length b \<Longrightarrow> n = 4 + (256 * unat (b ! 2) + unat (b ! 3)) \<Longrightarrow>
   split_exts b = take n b # split_exts (drop n b)"
  by (simp add: split_exts.simps [of b] Let_def)

definition ext_ok :: "bytes \<Rightarrow> bool" where
  "ext_ok e \<longleftrightarrow> 4 \<le> length e \<and> length e = 4 + (256 * unat (e ! 2) + unat (e ! 3))"

lemma split_exts_ok: "e \<in> set (split_exts b) \<Longrightarrow> ext_ok e"
proof (induction b rule: split_exts.induct)
  case (1 b)
  show ?case
  proof (cases "length b < 4 \<or> 4 + (256 * unat (b ! 2) + unat (b ! 3)) > length b")
    case True
    then show ?thesis using 1(2) split_exts_none [of b] by simp
  next
    case False
    then have "ext_ok (take (4 + (256 * unat (b ! 2) + unat (b ! 3))) b)" by (simp add: ext_ok_def)
    then show ?thesis using 1(1) [OF _ refl] 1(2) False split_exts_some [OF _ refl, of b] by auto
  qed
qed

lemma split_exts_append: "ext_ok e \<Longrightarrow> split_exts (e @ g) = e # split_exts g"
  by (simp add: split_exts.simps [of "e @ g"] ext_ok_def Let_def nth_append)

lemma split_exts_concat: "list_all ext_ok es \<Longrightarrow> split_exts (concat es @ g) = es @ split_exts g"
  by (induction es) (simp_all add: split_exts_append)

lemma split_exts_short: "ext_ok e \<Longrightarrow> k < length e \<Longrightarrow> split_exts (take k e) = []"
  by (auto simp: split_exts.simps [of "take k e"] ext_ok_def Let_def)

lemma split_exts_prefix: "list_all ext_ok es \<Longrightarrow> \<exists>j. split_exts (take k (concat es)) = take j es"
proof (induction es arbitrary: k)
  case Nil
  then show ?case by (simp add: split_exts.simps)
next
  case (Cons e es)
  show ?case
  proof (cases "k < length e")
    case True
    then have "split_exts (take k (concat (e # es))) = take 0 (e # es)" using Cons.prems split_exts_short by simp
    then show ?thesis by (rule exI)
  next
    case False
    obtain j where "split_exts (take (k - length e) (concat es)) = take j es" using Cons by auto
    then have "split_exts (take k (concat (e # es))) = take (Suc j) (e # es)" using False Cons.prems by (simp add: split_exts_append)
    then show ?thesis by (rule exI)
  qed
qed

lemma concat_split_exts: "\<exists>g. b = concat (split_exts b) @ g \<and> split_exts g = []"
proof (induction b rule: split_exts.induct)
  case (1 b)
  show ?case
  proof (cases "length b < 4 \<or> 4 + (256 * unat (b ! 2) + unat (b ! 3)) > length b")
    case True
    then have "split_exts b = []" using split_exts_none [of b] by simp
    then show ?thesis by simp
  next
    case False
    define n where "n = 4 + (256 * unat (b ! 2) + unat (b ! 3))"
    obtain g where "drop n b = concat (split_exts (drop n b)) @ g" "split_exts g = []"
      using 1 [OF _ refl] False by (auto simp: n_def)
    moreover have "split_exts b = take n b # split_exts (drop n b)" using False split_exts_some [OF _ n_def] by simp
    ultimately show ?thesis by (metis append.assoc append_take_drop_id concat.simps(2))
  qed
qed

lemma extensions_from_eq:
  "2 + n \<le> length b \<Longrightarrow> pos \<le> 2 + n \<Longrightarrow> extensions_from b n pos = Some (split_exts (take (2 + n - pos) (drop pos b)))"
proof (induction b n pos rule: extensions_from.induct)
  case (1 b n pos)
  define w where "w = take (2 + n - pos) (drop pos b)"
  have lw: "length w = 2 + n - pos" using 1(2) by (simp add: w_def)
  show ?case
  proof (cases "pos + 4 \<le> 2 + n")
    case False
    then have "length w < 4" using lw by linarith
    then have "split_exts w = []" using split_exts_none [of w] by simp
    then show ?thesis unfolding w_def [symmetric] using False 1(2) by (auto simp: extensions_from.simps [of b n pos])
  next
    case True
    define el where "el = 256 * unat (b ! (pos + 2)) + unat (b ! (pos + 3))"
    have el: "be16 b (pos + 2) = Some el" "256 * unat (w ! 2) + unat (w ! 3) = el"
      using True 1(2) by (simp_all add: be16_lt el_def w_def numeral_3_eq_3)
    show ?thesis
    proof (cases "pos + 4 + el > 2 + n")
      case t: True
      then have "length w < 4 + (256 * unat (w ! 2) + unat (w ! 3))" using lw el(2) by linarith
      then have "split_exts w = []" using split_exts_none [of w] by simp
      then show ?thesis unfolding w_def [symmetric] using True t 1(2) el by (auto simp: extensions_from.simps [of b n pos])
    next
      case False
      have r: "extensions_from b n (pos + (4 + el)) = Some (split_exts (take (2 + n - (pos + (4 + el))) (drop (pos + (4 + el)) b)))"
        using 1(1) [OF _ _ el(1)] True False 1(2) by simp
      have "split_exts w = take (4 + el) w # split_exts (drop (4 + el) w)"
        by (rule split_exts_some) (use False True lw el(2) in linarith)+
      moreover have "drop (4 + el) w = take (2 + n - (pos + (4 + el))) (drop (pos + (4 + el)) b)" "take (4 + el) w = take (4 + el) (drop pos b)"
        using False 1(2) by (simp_all add: w_def drop_take add.commute)
      moreover have "extensions_from b n pos = Some (take (4 + el) (drop pos b) # split_exts (take (2 + n - (pos + (4 + el))) (drop (pos + (4 + el)) b)))"
        using True False 1(2) el(1) r by (simp add: extensions_from.simps [of b n pos])
      ultimately show ?thesis unfolding w_def [symmetric] by (simp only:)
    qed
  qed
qed

subsection \<open>The data of a ClientHello\<close>

definition ext_pos :: "bytes \<Rightarrow> nat" where
  "ext_pos b =
     (let p1 = 44 + unat (b ! 43); p2 = p1 + 2 + (256 * unat (b ! p1) + unat (b ! (p1 + 1))) in p2 + 1 + unat (b ! p2))"

lemma find_eq: "findExtensionsOffset b = Some (if ext_pos b + 2 \<le> length b then Some (ext_pos b) else None)"
  by (auto simp: findExtensionsOffset_def ext_pos_def Let_def be16_lt)

lemma ext_pos_ge: "47 \<le> ext_pos b"
  by (simp add: ext_pos_def Let_def)

lemma ext_pos_stable:
  assumes "\<And>i. 43 \<le> i \<Longrightarrow> i < ext_pos b \<Longrightarrow> b' ! i = b ! i"
  shows "ext_pos b' = ext_pos b"
proof -
  define p1 where "p1 = 44 + unat (b ! 43)"
  define p2 where "p2 = p1 + 2 + (256 * unat (b ! p1) + unat (b ! (p1 + 1)))"
  have e: "ext_pos b = p2 + 1 + unat (b ! p2)" unfolding ext_pos_def Let_def p1_def p2_def ..
  have "b' ! 43 = b ! 43" "b' ! p1 = b ! p1" "b' ! (p1 + 1) = b ! (p1 + 1)" "b' ! p2 = b ! p2"
    using e by (auto intro!: assms simp: p1_def p2_def)
  then have "44 + unat (b' ! 43) = p1" "p1 + 2 + (256 * unat (b' ! p1) + unat (b' ! (p1 + 1))) = p2" "b' ! p2 = b ! p2"
    by (simp_all add: p1_def p2_def)
  then have "ext_pos b' = p2 + 1 + unat (b ! p2)" unfolding ext_pos_def Let_def by (simp only:)
  then show ?thesis by (simp only: e)
qed

text \<open>A ClientHello: what comes before the extensions, the extensions, what comes after them.\<close>

definition is_hello :: "bytes \<Rightarrow> bytes \<Rightarrow> bytes \<Rightarrow> bytes \<Rightarrow> bool" where
  "is_hello pre blk post data \<longleftrightarrow>
     data = pre @ put16 (length blk) @ blk @ post \<and> length blk < 65536 \<and> ext_pos data = length pre"

definition ext_place :: "bytes \<Rightarrow> (nat \<times> nat) option" where
  "ext_place data =
     (if ext_pos data + 2 \<le> length data then
        let n = 256 * unat (data ! ext_pos data) + unat (data ! (ext_pos data + 1)) in
        if ext_pos data + 2 + n \<le> length data then Some (ext_pos data, n) else None
      else None)"

lemma ext_place_hello: "is_hello pre blk post data \<Longrightarrow> ext_place data = Some (length pre, length blk)"
proof -
  assume h: "is_hello pre blk post data"
  have e: "ext_pos data = length pre" "data = pre @ put16 (length blk) @ blk @ post" "length blk < 65536" using h by (auto simp: is_hello_def)
  have "data ! length pre = word_of_nat (length blk div 256)" "data ! (length pre + 1) = word_of_nat (length blk)"
    unfolding e(2) by (simp_all add: nth_append)
  then have "256 * unat (data ! length pre) + unat (data ! (length pre + 1)) = length blk"
    using e(3) split16 [of "length blk"] by (simp add: unat_byte_of_nat)
  then show ?thesis using e by (simp add: ext_place_def Let_def)
qed

lemma hello_ext_place:
  assumes "ext_place data = Some (pos, n)"
  shows "is_hello (take pos data) (take n (drop (pos + 2) data)) (drop (pos + 2 + n) data) data"
proof -
  have e: "pos = ext_pos data" "n = 256 * unat (data ! pos) + unat (data ! (pos + 1))" "pos + 2 + n \<le> length data"
    using assms by (auto simp: ext_place_def Let_def split: if_splits)
  have n: "n < 65536" unfolding e(2) using unat_byte_less [of "data ! pos"] unat_byte_less [of "data ! (pos + 1)"] by linarith
  have "put16 n = [data ! pos, data ! (pos + 1)]"
  proof -
    have "n div 256 = unat (data ! pos)" "n mod 256 = unat (data ! (pos + 1))" unfolding e(2) by simp_all
    moreover have "(word_of_nat n :: byte) = word_of_nat (n mod 256)" by (simp add: word_of_nat_eq_iff take_bit_eq_mod)
    ultimately show ?thesis by (simp add: put16_def)
  qed
  moreover have "drop pos data = data ! pos # data ! (pos + 1) # drop (pos + 2) data"
    using e(3) by (simp add: Cons_nth_drop_Suc)
  moreover have "drop (pos + 2) data = take n (drop (pos + 2) data) @ drop (pos + 2 + n) data"
    by (metis add.commute append_take_drop_id drop_drop)
  ultimately have "data = take pos data @ put16 n @ take n (drop (pos + 2) data) @ drop (pos + 2 + n) data"
    by (metis append_Cons append_Nil append_take_drop_id)
  moreover have "length (take n (drop (pos + 2) data)) = n" "length (take pos data) = pos" using e(3) by simp_all
  ultimately show ?thesis using n e(1) unfolding is_hello_def by metis
qed

text \<open>The lengths of record and handshake message written again.\<close>

definition relen :: "bytes \<Rightarrow> bytes" where
  "relen data =
     (let a = (if 5 \<le> length data \<and> data ! 0 = 0x16 then patch data 3 (put16 (length data - 5)) else data) in
      if 9 \<le> length data \<and> a ! 0 = 0x16 \<and> a ! 5 = 0x01 then patch a 6 (put24 (length data - 9)) else a)"

definition but_lengths :: "bytes \<Rightarrow> bytes \<Rightarrow> bool" where
  "but_lengths a b \<longleftrightarrow> length a = length b \<and> (\<forall>i < length a. i < 3 \<or> i = 5 \<or> 9 \<le> i \<longrightarrow> a ! i = b ! i)"

lemma but_lengths_refl [simp]: "but_lengths a a"
  by (simp add: but_lengths_def)

lemma but_lengths_trans: "but_lengths a b \<Longrightarrow> but_lengths b c \<Longrightarrow> but_lengths a c"
  by (auto simp: but_lengths_def)

lemma length_relen [simp]: "length (relen data) = length data"
  by (auto simp: relen_def Let_def)

lemma but_lengths_relen: "but_lengths data (relen data)"
  by (auto simp: but_lengths_def relen_def Let_def nth_patch)

lemma but_lengths_split:
  assumes "but_lengths (a @ b) c" "9 \<le> length a"
  shows "c = take (length a) c @ b \<and> but_lengths a (take (length a) c)"
proof -
  have l: "length c = length a + length b" using assms(1) by (simp add: but_lengths_def)
  have n: "(a @ b) ! i = c ! i" if "i < length a + length b" "i < 3 \<or> i = 5 \<or> 9 \<le> i" for i
    using assms(1) that unfolding but_lengths_def length_append by blast
  have "drop (length a) c = b"
  proof (rule nth_equalityI)
    fix i
    assume "i < length (drop (length a) c)"
    then show "drop (length a) c ! i = b ! i" using n [of "length a + i"] assms(2) l by simp
  qed (simp add: l)
  then have "c = take (length a) c @ b" by (metis append_take_drop_id)
  moreover have "but_lengths a (take (length a) c)"
  proof (unfold but_lengths_def, intro conjI allI impI)
    fix i
    assume "i < length a" "i < 3 \<or> i = 5 \<or> 9 \<le> i"
    then show "a ! i = take (length a) c ! i" using n [of i] by (simp add: nth_append)
  qed (simp add: l)
  ultimately show ?thesis by blast
qed

lemma hello_relen:
  assumes "length (pre :: bytes) = ext_pos (pre @ put16 (length blk) @ blk @ post)" "length blk < 65536"
  shows "\<exists>pre'. is_hello pre' blk post (relen (pre @ put16 (length blk) @ blk @ post)) \<and> but_lengths pre pre'"
proof -
  define x where "x = pre @ put16 (length blk) @ blk @ post"
  have o: "47 \<le> length pre" using ext_pos_ge assms(1) by metis
  define pre' where "pre' = take (length pre) (relen x)"
  have s: "relen x = pre' @ put16 (length blk) @ blk @ post" "but_lengths pre pre'"
    using but_lengths_split [of pre "put16 (length blk) @ blk @ post" "relen x"] but_lengths_relen [of x] o by (auto simp: x_def pre'_def)
  have "ext_pos (relen x) = ext_pos x"
    using but_lengths_relen [of x] assms(1) by (intro ext_pos_stable) (auto simp: but_lengths_def x_def)
  moreover have "length pre' = length pre" using s(2) by (simp add: but_lengths_def)
  ultimately have "is_hello pre' blk post (relen x)" using s assms by (simp add: is_hello_def x_def)
  then show ?thesis using s(2) by (auto simp: x_def)
qed

definition fit :: "nat \<Rightarrow> bytes \<Rightarrow> bytes \<Rightarrow> bytes" where
  "fit room data new = (if length data + length new > room then take (room - length data) new else new)"

definition hello_insert :: "nat \<Rightarrow> bytes \<Rightarrow> bytes \<Rightarrow> bytes" where
  "hello_insert room data new =
     (case ext_place data of
        None \<Rightarrow> data
      | Some (pos, n) \<Rightarrow>
          if length data + length new > room \<and> room \<le> length data then data
          else relen (take pos data @ put16 (n + length (fit room data new)) @ take n (drop (pos + 2) data) @
            fit room data new @ drop (pos + 2 + n) data))"

definition hello_replace :: "nat \<Rightarrow> bytes \<Rightarrow> bytes \<Rightarrow> bytes" where
  "hello_replace room data new =
     (case ext_place data of
        None \<Rightarrow> data
      | Some (pos, n) \<Rightarrow>
          if length data + length new > room + n then data
          else relen (take pos data @ put16 (length new) @ new @ drop (pos + 2 + n) data))"

lemma update_tls_lengths_eq: "update_tls_lengths (hdr @ data) (length hdr) = Some (hdr @ relen data)"
proof -
  have p: "put_at (hdr @ x) (length hdr + i) v = Some (hdr @ patch x i v)" if "i + length v \<le> length x" for x i v
    using that by (simp add: patch_def)
  have n: "(hdr @ x) ! length hdr = x ! 0" "(hdr @ x) ! (length hdr + 5) = x ! 5" if "5 \<le> length x" for x
    using that nth_append_length_plus [of hdr x 0] nth_append_length_plus [of hdr x 5] by (simp_all add: add.commute)
  define a where "a = (if 5 \<le> length data \<and> data ! 0 = 0x16 then patch data 3 (put16 (length data - 5)) else data)"
  have la: "length a = length data" by (auto simp: a_def)
  have s1: "(if 5 \<le> length data \<and> (hdr @ data) ! length hdr = 0x16
      then put_at (hdr @ data) (length hdr + 3) (put16 (length data - 5)) else Some (hdr @ data)) = Some (hdr @ a)"
    using p [of 3 "put16 (length data - 5)" data] n(1) [of data] by (auto simp: a_def)
  have s2: "(if 9 \<le> length data \<and> (hdr @ a) ! length hdr = 0x16 \<and> (hdr @ a) ! (length hdr + 5) = 0x01
      then put_at (hdr @ a) (length hdr + 6) (put24 (length data - 9)) else Some (hdr @ a)) = Some (hdr @ relen data)"
    using p [of 6 "put24 (length data - 9)" a] n [of a] la unfolding relen_def a_def [symmetric] Let_def by auto
  have i: "int (length (hdr @ data)) - int (length hdr) = int (length data)" "nat (int (length data) - 5) = length data - 5"
      "nat (int (length data) - 9) = length data - 9" by auto
  show ?thesis unfolding update_tls_lengths_def Let_def i of_nat_le_iff using s1 s2 by auto
qed

locale hello_packets =
  fixes v6 :: bool and good :: "nat \<Rightarrow> nat \<Rightarrow> 32 word \<Rightarrow> bytes \<Rightarrow> byte \<Rightarrow> bytes \<Rightarrow> bool"
  assumes parts: "good h d s data t p \<Longrightarrow> \<exists>hdr. p = hdr @ data \<and> length hdr = h + d \<and> h + d \<le> 120 \<and> hello_start v6 p = Some (h + d) \<and>
      (v6 \<longrightarrow> 60 \<le> length p) \<and> length p \<le> 65535"
    and update: "good h d s data t (hdr @ data) \<Longrightarrow> length hdr = h + d \<Longrightarrow> h + d + length data' \<le> 65535 \<Longrightarrow>
      \<exists>q. updatePacketLengths (hdr @ data') = Some q \<and> good h d s (relen data') t q"
begin

lemma extensions_at_eq:
  assumes "good h d s data t p"
  shows "extensions_at v6 p = Some (map_option (\<lambda>(pos, n). (h + d + pos, n)) (ext_place data))"
proof -
  obtain hdr where p: "p = hdr @ data" "length hdr = h + d" "hello_start v6 p = Some (h + d)" "v6 \<longrightarrow> 60 \<le> length p" using parts [OF assms] by blast
  have b: "be16 (hdr @ data) (length hdr + i) = Some (256 * unat (data ! i) + unat (data ! (i + 1)))" if "i + 2 \<le> length data" for i
    using that by (simp add: be16_lt nth_append)
  show ?thesis
    using p(3,4) b [of "ext_pos data"] unfolding extensions_at_def by (auto simp: p(1) p(2) [symmetric] find_eq ext_place_def Let_def)
qed

lemma insert_eq:
  assumes g: "good h d s data t p"
  shows "\<exists>q. insertExtensions v6 p new = Some q \<and> good h d s (hello_insert (1460 - (h + d)) data new) t q"
proof -
  obtain hdr where p: "p = hdr @ data" "length hdr = h + d" "h + d \<le> 120" "length p \<le> 65535" using parts [OF g] by blast
  note e = extensions_at_eq [OF g]
  show ?thesis
  proof (cases "ext_place data")
    case None
    then show ?thesis using e g by (simp add: insertExtensions_def hello_insert_def)
  next
    case (Some x)
    then obtain pos n where x: "ext_place data = Some (pos, n)" by (cases x) auto
    have l: "pos + 2 + n \<le> length data" using x by (auto simp: ext_place_def Let_def split: if_splits)
    have full: "MaxTCPPacketSize < length p + length new \<and> MaxTCPPacketSize \<le> length p \<longleftrightarrow>
        1460 - (h + d) < length data + length new \<and> 1460 - (h + d) \<le> length data" and
      f: "(if MaxTCPPacketSize < length p + length new then take (MaxTCPPacketSize - length p) new else new) = fit (1460 - (h + d)) data new"
      using p by (auto simp: MaxTCPPacketSize_def fit_def)
    show ?thesis
    proof (cases "1460 - (h + d) < length data + length new \<and> 1460 - (h + d) \<le> length data")
      case True
      then show ?thesis using e x g full by (simp add: insertExtensions_def hello_insert_def)
    next
      case False
      define data' where "data' = take pos data @ put16 (n + length (fit (1460 - (h + d)) data new)) @ take n (drop (pos + 2) data) @
          fit (1460 - (h + d)) data new @ drop (pos + 2 + n) data"
      have "length data' = length data + length (fit (1460 - (h + d)) data new)" using l by (simp add: data'_def)
      then have "h + d + length data' \<le> 65535" using p False by (auto simp: fit_def)
      from update [OF g [unfolded p(1)] p(2) this] obtain q where q: "updatePacketLengths (hdr @ data') = Some q" "good h d s (relen data') t q" by blast
      have "take (h + d + pos) p @ put16 (n + length (fit (1460 - (h + d)) data new)) @ take n (drop (h + d + pos + 2) p) @
          fit (1460 - (h + d)) data new @ drop (h + d + pos + 2 + n) p = hdr @ data'"
        using p(2) by (simp add: p(1) data'_def)
      then have "insertExtensions v6 p new = updatePacketLengths (hdr @ data')"
        unfolding insertExtensions_def e x option.map option.case Option.bind.bind_lunit prod.case full f Let_def
        using False by (auto simp only: if_False)
      moreover have "hello_insert (1460 - (h + d)) data new = relen data'" using x False by (auto simp: hello_insert_def data'_def)
      ultimately show ?thesis using q by simp
    qed
  qed
qed

lemma replace_eq:
  assumes g: "good h d s data t p"
  shows "\<exists>q. replaceExtensions v6 p new = Some q \<and> good h d s (hello_replace (1460 - (h + d)) data new) t q"
proof -
  obtain hdr where p: "p = hdr @ data" "length hdr = h + d" "h + d \<le> 120" "length p \<le> 65535" using parts [OF g] by blast
  note e = extensions_at_eq [OF g]
  show ?thesis
  proof (cases "ext_place data")
    case None
    then show ?thesis using e g by (simp add: replaceExtensions_def hello_replace_def)
  next
    case (Some x)
    then obtain pos n where x: "ext_place data = Some (pos, n)" by (cases x) auto
    have l: "pos + 2 + n \<le> length data" using x by (auto simp: ext_place_def Let_def split: if_splits)
    have full: "length p + length new > MaxTCPPacketSize + n \<longleftrightarrow> length data + length new > 1460 - (h + d) + n"
      using p by (auto simp: MaxTCPPacketSize_def)
    show ?thesis
    proof (cases "length data + length new > 1460 - (h + d) + n")
      case True
      then show ?thesis using e x g full by (simp add: replaceExtensions_def hello_replace_def)
    next
      case False
      define data' where "data' = take pos data @ put16 (length new) @ new @ drop (pos + 2 + n) data"
      have "length data' + n = length data + length new" using l by (simp add: data'_def)
      then have "h + d + length data' \<le> 65535" using p False by auto
      from update [OF g [unfolded p(1)] p(2) this] obtain q where q: "updatePacketLengths (hdr @ data') = Some q" "good h d s (relen data') t q" by blast
      have "take (h + d + pos) p @ put16 (length new) @ new @ drop (h + d + pos + 2 + n) p = hdr @ data'"
        using p(2) by (simp add: p(1) data'_def)
      then have "replaceExtensions v6 p new = updatePacketLengths (hdr @ data')"
        using e x False full unfolding replaceExtensions_def by simp
      moreover have "hello_replace (1460 - (h + d)) data new = relen data'" using x False by (simp add: hello_replace_def data'_def)
      ultimately show ?thesis using q by simp
    qed
  qed
qed

end

end
