(* ===== verification/Hello_Names.thy ===== *)
theory Hello_Names
  imports Hello_Mutation Tcp_Send
begin

text \<open>
  What the mutations do to the list of extensions of a ClientHello, over IPv4 and IPv6: the packet stays an intact segment,
  most modes append extensions and \<^verbatim>\<open>reorder\<close> permutes them, and \<^verbatim>\<open>full\<close> loses the name of the server.
\<close>

unbundle bit_operations_syntax

subsection \<open>Inserting and replacing\<close>

lemma hello_insert_hello:
  assumes h: "is_hello pre blk post data" and l: "length data \<le> 65535" "room \<le> 65535"
  shows "\<exists>pre'. is_hello pre' (blk @ fit room data new) post (hello_insert room data new) \<and> but_lengths pre pre'"
proof (cases "length data + length new > room \<and> room \<le> length data")
  case True
  then show ?thesis using h ext_place_hello [OF h] by (auto simp: hello_insert_def fit_def)
next
  case False
  define f where "f = fit room data new"
  have d: "data = pre @ put16 (length blk) @ blk @ post" "ext_pos data = length pre" using h by (auto simp: is_hello_def)
  have "length data + length f \<le> 65535" using False l by (auto simp: f_def fit_def)
  then have b: "length (blk @ f) < 65536" using d(1) by simp
  have "ext_pos (pre @ put16 (length (blk @ f)) @ (blk @ f) @ post) = ext_pos data"
    by (rule ext_pos_stable) (simp add: d(2), simp add: d(1) nth_append)
  then have "\<exists>pre'. is_hello pre' (blk @ f) post (relen (pre @ put16 (length (blk @ f)) @ (blk @ f) @ post)) \<and> but_lengths pre pre'"
    using d(2) b by (intro hello_relen) simp_all
  moreover have "hello_insert room data new = relen (pre @ put16 (length (blk @ f)) @ (blk @ f) @ post)"
    using False ext_place_hello [OF h] unfolding hello_insert_def f_def [symmetric] by (auto simp: d(1))
  ultimately show ?thesis by (simp add: f_def)
qed

lemma hello_replace_hello:
  assumes h: "is_hello pre blk post data" and l: "length data \<le> 65535" and n: "length new \<le> length blk" "length data + length new \<le> room + length blk"
  shows "\<exists>pre'. is_hello pre' new post (hello_replace room data new) \<and> but_lengths pre pre'"
proof -
  have d: "data = pre @ put16 (length blk) @ blk @ post" "ext_pos data = length pre" "length blk < 65536" using h by (auto simp: is_hello_def)
  have "ext_pos (pre @ put16 (length new) @ new @ post) = ext_pos data"
    by (rule ext_pos_stable) (simp add: d(2), simp add: d(1) nth_append)
  then have "\<exists>pre'. is_hello pre' new post (relen (pre @ put16 (length new) @ new @ post)) \<and> but_lengths pre pre'"
    using d(2,3) n by (intro hello_relen) simp_all
  moreover have "hello_replace room data new = relen (pre @ put16 (length new) @ new @ post)"
    using n ext_place_hello [OF h] unfolding hello_replace_def by (simp add: d(1))
  ultimately show ?thesis by simp
qed

definition room_for :: "bytes \<Rightarrow> bytes \<Rightarrow> bytes" where
  "room_for p new = (if length p + length new > MaxTCPPacketSize then take (MaxTCPPacketSize - length p) new else new)"

lemma room_for_bound: "length p + length (room_for p new) \<le> max (length p) MaxTCPPacketSize"
  by (auto simp: room_for_def)

subsection \<open>The extensions that are added\<close>

lemma fixed_exts_ok:
  "list_all ext_ok common_exts" "ext_ok pskModes" "ext_ok (keyShare dr)" "ext_ok statusReq"
  by (simp_all add: ext_ok_def common_exts_def pskModes_def keyShare_def statusReq_def)

lemma extension_ok: "length body < 65536 \<Longrightarrow> ext_ok (extension ty body)"
proof -
  assume b: "length body < 65536"
  have "256 * unat (word_of_nat (length body div 256) :: byte) + unat (word_of_nat (length body) :: byte) = length body"
    using b split16 [of "length body"] by (simp add: unat_byte_of_nat)
  then show ?thesis by (simp add: ext_ok_def extension_def put16_def)
qed

lemma is_sni_extension: "ty < 65536 \<Longrightarrow> is_sni (extension ty body) \<longleftrightarrow> ty = 0"
  by (auto simp: is_sni_def extension_def be16_put16)

lemma fixed_exts_names:
  "list_all (\<lambda>e. \<not> is_sni e) common_exts" "\<not> is_sni pskModes" "\<not> is_sni (keyShare dr)" "\<not> is_sni statusReq"
  by (simp_all add: is_sni_def common_exts_def pskModes_def keyShare_def statusReq_def be16_lt)

lemma fakeSNIs_ok: "list_all ext_ok (fakeSNIs cfg)" "list_all is_sni (fakeSNIs cfg)"
  by (auto simp: fakeSNIs_def list_all_iff sniExt_def MaxSNILength_def MaxSNINameLen_def is_sni_extension intro!: extension_ok)

lemma grease_ok: "list_all ext_ok (grease_exts dr n)" "list_all (\<lambda>e. \<not> is_sni e) (grease_exts dr n)"
proof -
  have "\<forall>g \<in> set greaseValues. 0 < g \<and> g < 65536" by (simp add: greaseValues_def)
  moreover have "k mod 16 < length greaseValues" for k :: nat by (simp add: greaseValues_def)
  ultimately have "0 < greaseValues ! (k mod 16) \<and> greaseValues ! (k mod 16) < 65536" for k :: nat using nth_mem by blast
  then show "list_all ext_ok (grease_exts dr n)" "list_all (\<lambda>e. \<not> is_sni e) (grease_exts dr n)"
    by (auto simp: grease_exts_def list_all_iff is_sni_extension intro!: extension_ok)
qed

lemma unknown_ok: "list_all ext_ok (unknown_exts dr n)" "list_all (\<lambda>e. \<not> is_sni e) (unknown_exts dr n)"
proof -
  have "\<forall>g \<in> set (commonExtensions @ reservedTypes). 0 < g \<and> g < 65536" by (simp add: commonExtensions_def reservedTypes_def)
  moreover have "k mod length reservedTypes < length reservedTypes" for k by (simp add: reservedTypes_def)
  ultimately have t: "0 < (if i < length commonExtensions then commonExtensions ! i else reservedTypes ! (i mod length reservedTypes)) \<and>
      (if i < length commonExtensions then commonExtensions ! i else reservedTypes ! (i mod length reservedTypes)) < 65536" for i
    using nth_mem [of i commonExtensions] nth_mem [of "i mod length reservedTypes" reservedTypes] by auto
  show "list_all ext_ok (unknown_exts dr n)" by (auto simp: unknown_exts_def list_all_iff intro!: extension_ok)
  show "list_all (\<lambda>e. \<not> is_sni e) (unknown_exts dr n)"
    unfolding unknown_exts_def list_all_iff using t is_sni_extension by fastforce
qed

lemma fake_alpn_ok: "ext_ok fake_alpn" "\<not> is_sni fake_alpn"
proof -
  have "length (alpn_data acc ps) \<le> max (length acc) 255" for acc ps by (induction acc ps rule: alpn_data.induct) auto
  from this [of "[]" alpn_protocols] show "ext_ok fake_alpn" "\<not> is_sni fake_alpn"
    by (auto simp: fake_alpn_def Let_def is_sni_extension intro!: extension_ok)
qed

lemma padding_ok: "ext_ok (extension 0x0015 (replicate (nat (padding_size c n)) 0))" "\<not> is_sni (extension 0x0015 body)"
  by (auto simp: is_sni_extension padding_size_def MaxTCPPacketSize_def Let_def intro!: extension_ok)

lemma mset_reordered:
  "mset (reordered dr es) =
     mset (filter (\<lambda>e. \<not> is_sni e) es) + (if filter is_sni es = [] then {#} else {#last (filter is_sni es)#})"
  using mset_shuffle_from [of "length (filter (\<lambda>e. \<not> is_sni e) es) - 1" "filter (\<lambda>e. \<not> is_sni e) es" "rnd_order dr"]
  by (cases "filter (\<lambda>e. \<not> is_sni e) es = []") (auto simp: reordered_def Let_def)

lemma reordered_ok:
  assumes "list_all ext_ok es"
  shows "list_all ext_ok (reordered dr es)"
proof -
  have "set (reordered dr es) \<subseteq> set es"
    using arg_cong [OF mset_reordered [of dr es], of set_mset] last_in_set [of "filter is_sni es"] by (auto split: if_splits)
  then show ?thesis using assms by (auto simp: list_all_iff)
qed

lemma reordered_names: "filter is_sni (reordered dr es) = (if filter is_sni es = [] then [] else [last (filter is_sni es)])"
proof -
  let ?o = "filter (\<lambda>e. \<not> is_sni e) es"
  have "mset (shuffle_from (rnd_order dr) (length ?o - 1) ?o) = mset ?o"
    by (cases "?o = []") (simp_all add: mset_shuffle_from)
  then have "set (shuffle_from (rnd_order dr) (length ?o - 1) ?o) = set ?o" by (metis set_mset_mset)
  then have "filter is_sni (shuffle_from (rnd_order dr) (length ?o - 1) ?o) = []" by (auto simp: filter_empty_conv)
  moreover have "is_sni (last (filter is_sni es))" if "filter is_sni es \<noteq> []" using last_in_set [OF that] by simp
  ultimately show ?thesis by (auto simp: reordered_def Let_def)
qed

lemma reordered_length: "length (concat (reordered dr es)) \<le> length (concat es)"
proof -
  have l: "length (concat xs) = sum_mset (image_mset length (mset xs))" for xs :: "bytes list"
    by (simp add: length_concat sum_mset_sum_list [symmetric])
  have "mset es = mset (filter (\<lambda>e. \<not> is_sni e) es) + mset (filter is_sni es)" by (induction es) auto
  then have e: "length (concat es) = length (concat (filter (\<lambda>e. \<not> is_sni e) es)) + length (concat (filter is_sni es))"
    unfolding l by (metis image_mset_union sum_mset.union)
  have "length (last (filter is_sni es)) \<le> length (concat (filter is_sni es))" if "filter is_sni es \<noteq> []"
    using arg_cong [OF append_butlast_last_id [OF that], of "\<lambda>x. length (concat x)"] by simp
  moreover have "length (concat (reordered dr es)) =
      length (concat (filter (\<lambda>e. \<not> is_sni e) es)) + (if filter is_sni es = [] then 0 else length (last (filter is_sni es)))"
    unfolding l mset_reordered by simp
  ultimately show ?thesis using e by auto
qed

subsection \<open>What a mutation may change\<close>

text \<open>The data is the same, or it is a ClientHello of which only the extensions and the lengths have changed.\<close>

definition same_hello :: "bytes \<Rightarrow> bytes \<Rightarrow> bool" where
  "same_hello data data' \<longleftrightarrow> data' = data \<or>
     (\<exists>pre pre' blk blk' post. is_hello pre blk post data \<and> is_hello pre' blk' post data' \<and> but_lengths pre pre')"

text \<open>A ClientHello with the extensions \<open>es\<close>, and one whose list of extensions has no rest.\<close>

definition hello_exts :: "bytes \<Rightarrow> bytes \<Rightarrow> bytes \<Rightarrow> bytes list \<Rightarrow> bool" where
  "hello_exts data pre post es \<longleftrightarrow> (\<exists>pre' blk. is_hello pre' blk post data \<and> but_lengths pre pre' \<and> split_exts blk = es)"

definition whole :: "bytes \<Rightarrow> bool" where
  "whole data \<longleftrightarrow> (case ext_place data of None \<Rightarrow> False | Some (pos, n) \<Rightarrow>
     concat (split_exts (take n (drop (pos + 2) data))) = take n (drop (pos + 2) data))"

definition outcome :: "SNIMutationConfig \<Rightarrow> mut_draws \<Rightarrow> nat \<Rightarrow> bytes list \<Rightarrow> bytes list \<Rightarrow> bool" where
  "outcome cfg dr len es es' \<longleftrightarrow>
     (if mut_Mode cfg = str ''reorder'' then
        mset es' = (if length es < 2 then mset es
          else mset (filter (\<lambda>e. \<not> is_sni e) es) + (if filter is_sni es = [] then {#} else {#last (filter is_sni es)#}))
      else let new = (if mut_Mode cfg = str ''duplicate'' then fakeSNIs cfg else grease_exts dr (nat (GreaseCount cfg))) in
        \<exists>j. es' = es @ take j new \<and> (len + length (concat new) \<le> MaxTCPPacketSize \<longrightarrow> es' = es @ new))"

context hello_packets
begin

definition holds :: "nat \<Rightarrow> nat \<Rightarrow> 32 word \<Rightarrow> byte \<Rightarrow> bytes \<Rightarrow> bytes \<Rightarrow> bytes \<Rightarrow> bytes \<Rightarrow> bool" where
  "holds h d s t pre blk post p \<longleftrightarrow> (\<exists>data pre'. good h d s data t p \<and> is_hello pre' blk post data \<and> but_lengths pre pre')"

lemma holds_length: "holds h d s t pre blk post p \<Longrightarrow> length p = h + d + length pre + 2 + length blk + length post"
  using parts by (fastforce simp: holds_def is_hello_def but_lengths_def)

lemma insert_holds:
  assumes "holds h d s t pre blk post p"
  shows "\<exists>q. insertExtensions v6 p new = Some q \<and> holds h d s t pre (blk @ room_for p new) post q \<and> length q = length p + length (room_for p new)"
proof -
  obtain data pre1 where g: "good h d s data t p" and h: "is_hello pre1 blk post data" "but_lengths pre pre1"
    using assms by (auto simp: holds_def)
  obtain hdr where p: "p = hdr @ data" "length hdr = h + d" "h + d \<le> 120" "length p \<le> 65535" using parts [OF g] by blast
  have f: "fit (1460 - (h + d)) data new = room_for p new" using p by (auto simp: fit_def room_for_def MaxTCPPacketSize_def)
  obtain q where q: "insertExtensions v6 p new = Some q" "good h d s (hello_insert (1460 - (h + d)) data new) t q" using insert_eq [OF g] by blast
  obtain pre2 where "is_hello pre2 (blk @ room_for p new) post (hello_insert (1460 - (h + d)) data new)" "but_lengths pre1 pre2"
  proof -
    have "length data \<le> 65535" "1460 - (h + d) \<le> 65535" using p by simp_all
    from hello_insert_hello [OF h(1) this, of new] show thesis using that by (auto simp: f)
  qed
  then have hq: "holds h d s t pre (blk @ room_for p new) post q" using q(2) h(2) but_lengths_trans unfolding holds_def by blast
  then show ?thesis using q(1) holds_length [OF hq] holds_length [OF assms] by simp
qed

lemma replace_holds:
  assumes "holds h d s t pre blk post p" "length new \<le> length blk" "length p \<le> MaxTCPPacketSize"
  shows "\<exists>q. replaceExtensions v6 p new = Some q \<and> holds h d s t pre new post q"
proof -
  obtain data pre1 where g: "good h d s data t p" and h: "is_hello pre1 blk post data" "but_lengths pre pre1"
    using assms(1) by (auto simp: holds_def)
  obtain hdr where p: "p = hdr @ data" "length hdr = h + d" "h + d \<le> 120" "length p \<le> 65535" using parts [OF g] by blast
  obtain q where q: "replaceExtensions v6 p new = Some q" "good h d s (hello_replace (1460 - (h + d)) data new) t q" using replace_eq [OF g] by blast
  obtain pre2 where "is_hello pre2 new post (hello_replace (1460 - (h + d)) data new)" "but_lengths pre1 pre2"
  proof -
    have "length data \<le> 65535" "length data + length new \<le> 1460 - (h + d) + length blk" using p assms(2,3) by (simp_all add: MaxTCPPacketSize_def)
    from hello_replace_hello [OF h(1) this(1) assms(2) this(2)] show thesis using that by blast
  qed
  then have "holds h d s t pre new post q" using q(2) h(2) but_lengths_trans unfolding holds_def by blast
  then show ?thesis using q(1) by blast
qed

text \<open>Nothing happens to a packet without extensions.\<close>

lemma no_extensions:
  assumes g: "good h d s data t p" and n: "ext_place data = None"
  shows "insertExtensions v6 p new = Some p" "replaceExtensions v6 p new = Some p"
  using extensions_at_eq [OF g] n by (simp_all add: insertExtensions_def replaceExtensions_def)

lemma payload_eq:
  assumes "good h d s data t p"
  shows "hello_start v6 p = Some (h + d)" "sub_bytes p (h + d) (length p) = Some data" "length p = h + d + length data"
proof -
  obtain hdr where "p = hdr @ data" "length hdr = h + d" "hello_start v6 p = Some (h + d)" using parts [OF assms] by blast
  then show "hello_start v6 p = Some (h + d)" "sub_bytes p (h + d) (length p) = Some data" "length p = h + d + length data" by simp_all
qed

text \<open>The list of extensions is whole, or the packet is full.\<close>

definition closed :: "bytes \<Rightarrow> bytes \<Rightarrow> bool" where
  "closed blk p \<longleftrightarrow> concat (split_exts blk) = blk \<or> MaxTCPPacketSize \<le> length p"

lemma insert_exts:
  assumes "holds h d s t pre blk post p" "closed blk p" "list_all ext_ok es"
  shows "\<exists>q blk' j. insertExtensions v6 p (concat es) = Some q \<and> holds h d s t pre blk' post q \<and> closed blk' q \<and>
    split_exts blk' = split_exts blk @ take j es \<and> length q \<le> max (length p) MaxTCPPacketSize \<and>
    (length p + length (concat es) \<le> MaxTCPPacketSize \<longrightarrow> take j es = es)"
proof -
  define x where "x = room_for p (concat es)"
  obtain q where q: "insertExtensions v6 p (concat es) = Some q" "holds h d s t pre (blk @ x) post q" "length q = length p + length x"
    using insert_holds [OF assms(1)] by (auto simp: x_def)
  have l: "length q \<le> max (length p) MaxTCPPacketSize" using q(3) room_for_bound [of p "concat es"] by (simp add: x_def)
  show ?thesis
  proof (cases "MaxTCPPacketSize < length p + length (concat es)")
    case True
    have x: "x = take (MaxTCPPacketSize - length p) (concat es)" using True by (simp add: x_def room_for_def)
    obtain j where j: "split_exts x = take j es" using split_exts_prefix [OF assms(3)] x by blast
    show ?thesis
    proof (cases "MaxTCPPacketSize \<le> length p")
      case full: True
      then have "x = []" using x by simp
      then have "split_exts (blk @ x) = split_exts blk @ take 0 es" "closed (blk @ x) q" using full q(3) by (simp_all add: closed_def)
      then show ?thesis using q l True by (intro exI [of _ q] exI [of _ "blk @ x"] exI [of _ 0]) auto
    next
      case False
      then have c: "blk = concat (split_exts blk)" using assms(2) by (simp add: closed_def)
      have "split_exts (blk @ x) = split_exts blk @ take j es"
        using split_exts_concat [of "split_exts blk" x] split_exts_ok [of _ blk] c j by (auto simp: list_all_iff)
      moreover have "MaxTCPPacketSize \<le> length q" using q(3) x True False by simp
      ultimately show ?thesis using q l True by (intro exI [of _ q] exI [of _ "blk @ x"] exI [of _ j]) (auto simp: closed_def)
    qed
  next
    case False
    have x: "x = concat es" using False by (simp add: x_def room_for_def)
    show ?thesis
    proof (cases "concat (split_exts blk) = blk")
      case True
      have "split_exts (concat (split_exts blk @ es) @ []) = split_exts blk @ es"
        using split_exts_concat [of "split_exts blk @ es" "[]"] split_exts_ok [of _ blk] assms(3) by (auto simp: list_all_iff split_exts_none)
      then have "split_exts (blk @ x) = split_exts blk @ es" using True x by simp
      moreover from this have "closed (blk @ x) q" using True x by (simp add: closed_def)
      ultimately show ?thesis using q l by (intro exI [of _ q] exI [of _ "blk @ x"] exI [of _ "length es"]) auto
    next
      case f: False
      then have "MaxTCPPacketSize \<le> length p" using assms(2) by (simp add: closed_def)
      then have "length (concat es) = 0" using False by linarith
      then have "es = []" using assms(3) by (cases es) (auto simp: ext_ok_def)
      then have "split_exts (blk @ x) = split_exts blk @ take 0 es" "closed (blk @ x) q" "take 0 es = es"
        using x assms(2) q(3) by (auto simp: closed_def)
      then show ?thesis using q l by (intro exI [of _ q] exI [of _ "blk @ x"] exI [of _ 0]) auto
    qed
  qed
qed

subsection \<open>The modes\<close>

text \<open>A step of a mutation: extensions are appended, as many as there is room for.\<close>

definition appends :: "(bytes \<Rightarrow> bytes option) \<Rightarrow> bytes list \<Rightarrow> bool" where
  "appends f es \<longleftrightarrow> (\<forall>h d s t pre blk post p. holds h d s t pre blk post p \<and> closed blk p \<longrightarrow>
     (\<exists>q blk' j. f p = Some q \<and> holds h d s t pre blk' post q \<and> closed blk' q \<and>
        split_exts blk' = split_exts blk @ take j es \<and> length q \<le> max (length p) MaxTCPPacketSize \<and>
        (length p + length (concat es) \<le> MaxTCPPacketSize \<longrightarrow> take j es = es)))"

lemma appends_insert: "list_all ext_ok es \<Longrightarrow> appends (\<lambda>p. insertExtensions v6 p (concat es)) es"
  unfolding appends_def using insert_exts by blast

lemma appendsE:
  assumes "appends f es" "holds h d s t pre blk post p" "closed blk p"
  obtains q blk' j where "f p = Some q" "holds h d s t pre blk' post q" "closed blk' q" "split_exts blk' = split_exts blk @ take j es"
    "length q \<le> max (length p) MaxTCPPacketSize" "length p + length (concat es) \<le> MaxTCPPacketSize \<longrightarrow> take j es = es"
  using assms unfolding appends_def by blast

lemma appends_if_room:
  assumes "ext_ok e"
  shows "appends (\<lambda>p. insert_if_room v6 p e) [e]"
proof (unfold appends_def, intro allI impI)
  fix h d s t pre blk post p
  assume a: "holds h d s t pre blk post p \<and> closed blk p"
  show "\<exists>q blk' j. insert_if_room v6 p e = Some q \<and> holds h d s t pre blk' post q \<and> closed blk' q \<and>
        split_exts blk' = split_exts blk @ take j [e] \<and> length q \<le> max (length p) MaxTCPPacketSize \<and>
        (length p + length (concat [e]) \<le> MaxTCPPacketSize \<longrightarrow> take j [e] = [e])"
  proof (cases "length p + length e \<le> MaxTCPPacketSize")
    case True
    then show ?thesis using insert_exts [of h d s t pre blk post p "[e]"] a assms by (simp add: insert_if_room_def)
  next
    case False
    then have "insert_if_room v6 p e = Some p" "split_exts blk = split_exts blk @ take 0 [e]" by (simp_all add: insert_if_room_def)
    then show ?thesis using a False by (intro exI [of _ p] exI [of _ blk] exI [of _ 0]) simp
  qed
qed

lemma appends_duplicate: "appends (duplicateSNI v6 cfg) (fakeSNIs cfg)"
proof (unfold appends_def, intro allI impI)
  fix h d s t pre blk post p
  assume a: "holds h d s t pre blk post p \<and> closed blk p"
  then obtain data pre' where g: "good h d s data t p" "is_hello pre' blk post data" by (auto simp: holds_def)
  have "duplicateSNI v6 cfg p = insertExtensions v6 p (concat (fakeSNIs cfg))"
    using payload_eq [OF g(1)] g(2) by (auto simp: duplicateSNI_def find_eq is_hello_def)
  then show "\<exists>q blk' j. duplicateSNI v6 cfg p = Some q \<and> holds h d s t pre blk' post q \<and> closed blk' q \<and>
        split_exts blk' = split_exts blk @ take j (fakeSNIs cfg) \<and> length q \<le> max (length p) MaxTCPPacketSize \<and>
        (length p + length (concat (fakeSNIs cfg)) \<le> MaxTCPPacketSize \<longrightarrow> take j (fakeSNIs cfg) = fakeSNIs cfg)"
    using insert_exts [of h d s t pre blk post p "fakeSNIs cfg"] a fakeSNIs_ok(1) by metis
qed

lemma appends_others:
  "0 \<le> GreaseCount cfg \<Longrightarrow> appends (addGREASE v6 cfg dr) (grease_exts dr (nat (GreaseCount cfg)))"
  "appends (addCommonExtensions v6) common_exts"
  "appends (addFakeALPN v6) [fake_alpn]"
  "0 \<le> n \<Longrightarrow> appends (addUnknownExtensions v6 n dr) (unknown_exts dr (nat n))"
  using appends_insert [OF grease_ok(1), of dr "nat (GreaseCount cfg)"] appends_insert [OF fixed_exts_ok(1)]
    appends_insert [of "[fake_alpn]"] appends_insert [OF unknown_ok(1), of dr "nat n"] fake_alpn_ok(1)
  by (simp_all add: appends_def addGREASE_def addCommonExtensions_def addFakeALPN_def addUnknownExtensions_def)

text \<open>Steps that add no name.\<close>

definition grows :: "(bytes \<Rightarrow> bytes option) \<Rightarrow> bool" where
  "grows f \<longleftrightarrow> (\<forall>h d s t pre blk post p. holds h d s t pre blk post p \<and> closed blk p \<longrightarrow>
     (\<exists>q blk' es. f p = Some q \<and> holds h d s t pre blk' post q \<and> closed blk' q \<and>
        split_exts blk' = split_exts blk @ es \<and> list_all (\<lambda>e. \<not> is_sni e) es \<and> length q \<le> max (length p) MaxTCPPacketSize))"

lemma growsE:
  assumes "grows f" "holds h d s t pre blk post p" "closed blk p"
  obtains q blk' es where "f p = Some q" "holds h d s t pre blk' post q" "closed blk' q" "split_exts blk' = split_exts blk @ es"
    "list_all (\<lambda>e. \<not> is_sni e) es" "length q \<le> max (length p) MaxTCPPacketSize"
  using assms unfolding grows_def by blast

lemma grows_appends:
  assumes "appends f es" "list_all (\<lambda>e. \<not> is_sni e) es"
  shows "grows f"
proof (unfold grows_def, intro allI impI)
  fix h d s t pre blk post p
  assume "holds h d s t pre blk post p \<and> closed blk p"
  then obtain q blk' j where "f p = Some q" "holds h d s t pre blk' post q" "closed blk' q" "split_exts blk' = split_exts blk @ take j es"
      "length q \<le> max (length p) MaxTCPPacketSize" using assms(1) by (elim conjE appendsE)
  moreover have "list_all (\<lambda>e. \<not> is_sni e) (take j es)" using assms(2) by (auto simp: list_all_iff dest: in_set_takeD)
  ultimately show "\<exists>q blk' es. f p = Some q \<and> holds h d s t pre blk' post q \<and> closed blk' q \<and>
      split_exts blk' = split_exts blk @ es \<and> list_all (\<lambda>e. \<not> is_sni e) es \<and> length q \<le> max (length p) MaxTCPPacketSize" by blast
qed

lemma grows_bind:
  assumes "grows f" "grows g"
  shows "grows (\<lambda>p. f p \<bind> g)"
proof (unfold grows_def, intro allI impI)
  fix h d s t pre blk post p
  assume a: "holds h d s t pre blk post p \<and> closed blk p"
  obtain q blk' es where q: "f p = Some q" "holds h d s t pre blk' post q" "closed blk' q" "split_exts blk' = split_exts blk @ es"
    "list_all (\<lambda>e. \<not> is_sni e) es" "length q \<le> max (length p) MaxTCPPacketSize" using growsE [OF assms(1)] a by metis
  obtain r blk2 es2 where r: "g q = Some r" "holds h d s t pre blk2 post r" "closed blk2 r" "split_exts blk2 = split_exts blk' @ es2"
    "list_all (\<lambda>e. \<not> is_sni e) es2" "length r \<le> max (length q) MaxTCPPacketSize" using growsE [OF assms(2) q(2,3)] by metis
  have "f p \<bind> g = Some r" "split_exts blk2 = split_exts blk @ es @ es2" "list_all (\<lambda>e. \<not> is_sni e) (es @ es2)"
      "length r \<le> max (length p) MaxTCPPacketSize" using q r by simp_all
  then show "\<exists>q blk' es. f p \<bind> g = Some q \<and> holds h d s t pre blk' post q \<and> closed blk' q \<and>
      split_exts blk' = split_exts blk @ es \<and> list_all (\<lambda>e. \<not> is_sni e) es \<and> length q \<le> max (length p) MaxTCPPacketSize" using r(2,3) by blast
qed

lemma grows_advanced: "grows (addAdvancedMutations v6 dr)"
proof -
  have "grows (\<lambda>p. insert_if_room v6 p e)" if "ext_ok e" "\<not> is_sni e" for e
    using grows_appends [OF appends_if_room [OF that(1)]] that(2) by simp
  then have "grows (\<lambda>p. insert_if_room v6 p pskModes \<bind> (\<lambda>m. insert_if_room v6 m (keyShare dr) \<bind> (\<lambda>m. insert_if_room v6 m statusReq)))"
    using fixed_exts_ok fixed_exts_names by (intro grows_bind) blast+
  then show ?thesis by (simp add: grows_def addAdvancedMutations_def)
qed

lemma grows_padding: "grows (addPadding v6 cfg)"
proof (unfold grows_def, intro allI impI)
  fix h d s t pre blk post p
  assume a: "holds h d s t pre blk post p \<and> closed blk p"
  define e where "e = extension 0x0015 (replicate (nat (padding_size (PaddingSize cfg) (length p))) 0)"
  have "grows (\<lambda>p. insertExtensions v6 p (concat [e]))"
    using padding_ok by (intro grows_appends [OF appends_insert]) (simp_all add: e_def)
  then show "\<exists>q blk' es. addPadding v6 cfg p = Some q \<and> holds h d s t pre blk' post q \<and> closed blk' q \<and>
      split_exts blk' = split_exts blk @ es \<and> list_all (\<lambda>e. \<not> is_sni e) es \<and> length q \<le> max (length p) MaxTCPPacketSize"
  proof (cases "padding_size (PaddingSize cfg) (length p) \<le> 0")
    case True
    then have "addPadding v6 cfg p = Some p" "split_exts blk = split_exts blk @ []" by (simp_all add: addPadding_def Let_def)
    then show ?thesis using a by (intro exI [of _ p] exI [of _ blk] exI [of _ "[]"]) simp
  next
    case False
    assume "grows (\<lambda>p. insertExtensions v6 p (concat [e]))"
    moreover have "addPadding v6 cfg p = insertExtensions v6 p (concat [e])" using False by (simp add: addPadding_def Let_def e_def)
    ultimately show ?thesis using a unfolding grows_def by metis
  qed
qed

lemma grows_others:
  "0 \<le> GreaseCount cfg \<Longrightarrow> grows (addGREASE v6 cfg dr)" "grows (addCommonExtensions v6)" "grows (addFakeALPN v6)"
  "0 \<le> n \<Longrightarrow> grows (addUnknownExtensions v6 n dr)"
  using grows_appends [OF appends_others(1) grease_ok(2)] grows_appends [OF appends_others(2) fixed_exts_names(1)]
    grows_appends [OF appends_others(3)] fake_alpn_ok(2) grows_appends [OF appends_others(4) unknown_ok(2)] by auto

text \<open>Reordering: parse, permute, write.\<close>

lemma parsed:
  assumes "is_hello pre blk post data"
  shows "parseExtensions (drop (length pre) data) = Some (split_exts blk)"
proof -
  have d: "drop (length pre) data = put16 (length blk) @ blk @ post" "length blk < 65536" using assms by (auto simp: is_hello_def)
  have "extensions_from (put16 (length blk) @ blk @ post) (length blk) 2 = Some (split_exts blk)"
    using extensions_from_eq [of "length blk" "put16 (length blk) @ blk @ post" 2] by simp
  then show ?thesis using d by (simp add: parseExtensions_def be16_put16)
qed

lemma reorder_eq:
  assumes g: "good h d s data t p" "is_hello pre blk post data"
  shows "reorderExtensions v6 dr p =
    (if length (split_exts blk) < 2 then Some p else replaceExtensions v6 p (concat (reordered dr (split_exts blk))))"
proof -
  have l: "length pre + 2 \<le> length data" "ext_pos data = length pre" using g(2) by (auto simp: is_hello_def)
  obtain hdr where hdr: "p = hdr @ data" "length hdr = h + d" using parts [OF g(1)] by blast
  have "sub_bytes p (h + d + length pre) (length p) = Some (drop (length pre) data)" using hdr l by simp
  then show ?thesis using payload_eq [OF g(1)] parsed [OF g(2)] l by (simp add: reorderExtensions_def find_eq)
qed

lemma reorder_shrinks: "length (concat (reordered dr (split_exts blk))) \<le> length blk"
  using reordered_length [of dr "split_exts blk"] concat_split_exts [of blk] by (metis le_add1 le_trans length_append)

lemma reorder:
  assumes a: "holds h d s t pre blk post p" "length p \<le> MaxTCPPacketSize"
  shows "\<exists>q blk'. reorderExtensions v6 dr p = Some q \<and> holds h d s t pre blk' post q \<and> length q \<le> length p \<and>
    (if length (split_exts blk) < 2 then q = p \<and> blk' = blk else blk' = concat (reordered dr (split_exts blk)))"
proof -
  obtain data pre' where g: "good h d s data t p" "is_hello pre' blk post data" "but_lengths pre pre'" using a by (auto simp: holds_def)
  note e = reorder_eq [OF g(1,2), of dr]
  from replace_holds [OF a(1) reorder_shrinks a(2)] obtain q where q: "replaceExtensions v6 p (concat (reordered dr (split_exts blk))) = Some q"
    "holds h d s t pre (concat (reordered dr (split_exts blk))) post q" by blast
  then have "length q \<le> length p" using holds_length [OF q(2)] holds_length [OF a(1)] reorder_shrinks [of dr blk] by simp
  then show ?thesis using e q a(1) by (cases "length (split_exts blk) < 2") auto
qed

text \<open>Every step keeps the segment, whatever its extensions are.\<close>

definition keeps :: "(bytes \<Rightarrow> bytes option) \<Rightarrow> bool" where
  "keeps f \<longleftrightarrow> (\<forall>h d s t pre blk post p. holds h d s t pre blk post p \<longrightarrow>
     (\<exists>q blk'. f p = Some q \<and> holds h d s t pre blk' post q \<and> length q \<le> max (length p) MaxTCPPacketSize))"

lemma keeps_insert: "keeps (\<lambda>p. insertExtensions v6 p (new p))"
proof (unfold keeps_def, intro allI impI)
  fix h d s t pre blk post p
  assume a: "holds h d s t pre blk post p"
  show "\<exists>q blk'. insertExtensions v6 p (new p) = Some q \<and> holds h d s t pre blk' post q \<and> length q \<le> max (length p) MaxTCPPacketSize"
    using insert_holds [OF a, of "new p"] room_for_bound [of p "new p"] by fastforce
qed

lemma keeps_duplicate: "keeps (duplicateSNI v6 cfg)"
proof (unfold keeps_def, intro allI impI)
  fix h d s t pre blk post p
  assume a: "holds h d s t pre blk post p"
  then obtain data pre' where g: "good h d s data t p" "is_hello pre' blk post data" by (auto simp: holds_def)
  have "duplicateSNI v6 cfg p = insertExtensions v6 p (concat (fakeSNIs cfg))"
    using payload_eq [OF g(1)] g(2) by (auto simp: duplicateSNI_def find_eq is_hello_def)
  then show "\<exists>q blk'. duplicateSNI v6 cfg p = Some q \<and> holds h d s t pre blk' post q \<and> length q \<le> max (length p) MaxTCPPacketSize"
    using keeps_insert [of "\<lambda>_. concat (fakeSNIs cfg)"] a unfolding keeps_def by metis
qed

lemma keeps_reorder: "keeps (reorderExtensions v6 dr)"
proof (unfold keeps_def, intro allI impI)
  fix h d s t pre blk post p
  assume a: "holds h d s t pre blk post p"
  show "\<exists>q blk'. reorderExtensions v6 dr p = Some q \<and> holds h d s t pre blk' post q \<and> length q \<le> max (length p) MaxTCPPacketSize"
  proof (cases "length p \<le> MaxTCPPacketSize")
    case True
    then show ?thesis using reorder [OF a True, of dr] by (meson le_trans max.cobounded1)
  next
    case False
    obtain data pre' where g: "good h d s data t p" "is_hello pre' blk post data" "but_lengths pre pre'" using a by (auto simp: holds_def)
    note e = reorder_eq [OF g(1,2), of dr]
    obtain hdr where hdr: "p = hdr @ data" "length hdr = h + d" using parts [OF g(1)] by blast
    define new where "new = concat (reordered dr (split_exts blk))"
    have n: "length new \<le> length blk" unfolding new_def by (rule reorder_shrinks)
    show ?thesis
    proof (cases "length p + length new > MaxTCPPacketSize + length blk")
      case True
      then have "replaceExtensions v6 p new = Some p"
        using extensions_at_eq [OF g(1)] ext_place_hello [OF g(2)] by (simp add: replaceExtensions_def)
      then show ?thesis using e a by (auto simp: new_def)
    next
      case fits: False
      obtain q where q: "replaceExtensions v6 p new = Some q" "good h d s (hello_replace (1460 - (h + d)) data new) t q" using replace_eq [OF g(1)] by blast
      have "h + d \<le> 120" "length p \<le> 65535" using parts [OF g(1)] by auto
      then have "length data + length new \<le> 1460 - (h + d) + length blk" "length data \<le> 65535"
        using fits hdr by (auto simp: MaxTCPPacketSize_def)
      then obtain pre2 where "is_hello pre2 new post (hello_replace (1460 - (h + d)) data new)" "but_lengths pre' pre2"
        using hello_replace_hello [OF g(2)] n by blast
      then have hq: "holds h d s t pre new post q" using q(2) g(3) but_lengths_trans unfolding holds_def by blast
      then have "length q \<le> length p" using n holds_length [OF hq] holds_length [OF a] by simp
      then show ?thesis using e q(1) hq a by (auto simp: new_def)
    qed
  qed
qed

definition kept :: "nat \<Rightarrow> nat \<Rightarrow> 32 word \<Rightarrow> byte \<Rightarrow> bytes \<Rightarrow> bytes \<Rightarrow> nat \<Rightarrow> bytes option \<Rightarrow> bool" where
  "kept h d s t pre post n m \<longleftrightarrow> (\<exists>q blk. m = Some q \<and> holds h d s t pre blk post q \<and> length q \<le> n)"

lemma kept_bind:
  "kept h d s t pre post n m \<Longrightarrow> (\<And>q blk. holds h d s t pre blk post q \<Longrightarrow> length q \<le> n \<Longrightarrow> kept h d s t pre post n (f q)) \<Longrightarrow>
   kept h d s t pre post n (m \<bind> f)"
  by (auto simp: kept_def)

lemma kept_if:
  "kept h d s t pre post n a \<Longrightarrow> kept h d s t pre post n b \<Longrightarrow> kept h d s t pre post n (if c then a else b)"
  by simp

lemma kept_Some: "holds h d s t pre blk post p \<Longrightarrow> length p \<le> n \<Longrightarrow> kept h d s t pre post n (Some p)"
  by (auto simp: kept_def)

lemma kept_step:
  "keeps f \<Longrightarrow> holds h d s t pre blk post p \<Longrightarrow> length p \<le> n \<Longrightarrow> MaxTCPPacketSize \<le> n \<Longrightarrow> kept h d s t pre post n (f p)"
proof -
  assume k: "keeps f" and p: "holds h d s t pre blk post p" "length p \<le> n" "MaxTCPPacketSize \<le> n"
  obtain q blk' where q: "f p = Some q" "holds h d s t pre blk' post q" "length q \<le> max (length p) MaxTCPPacketSize"
    using k p(1) unfolding keeps_def by blast
  then have "length q \<le> n" using p(2,3) by simp
  then show ?thesis using q(1,2) unfolding kept_def by blast
qed

lemma keeps_inserts: "keeps (addCommonExtensions v6)" "keeps (addFakeALPN v6)"
    "0 \<le> GreaseCount cfg \<Longrightarrow> keeps (addGREASE v6 cfg dr)" "0 \<le> n \<Longrightarrow> keeps (addUnknownExtensions v6 n dr)"
  using keeps_insert [of "\<lambda>_. concat common_exts"] keeps_insert [of "\<lambda>_. fake_alpn"]
    keeps_insert [of "\<lambda>_. concat (grease_exts dr (nat (GreaseCount cfg)))"] keeps_insert [of "\<lambda>_. concat (unknown_exts dr (nat n))"]
  by (simp_all add: keeps_def addCommonExtensions_def addFakeALPN_def addGREASE_def addUnknownExtensions_def)

lemma kept_inserts:
  assumes "holds h d s t pre blk post p" "length p \<le> n" "MaxTCPPacketSize \<le> n"
  shows "kept h d s t pre post n (addPadding v6 cfg p)" "kept h d s t pre post n (insert_if_room v6 p e)"
  using kept_step [OF keeps_insert assms, of "\<lambda>p. extension 0x0015 (replicate (nat (padding_size (PaddingSize cfg) (length p))) 0)"]
    kept_step [OF keeps_insert assms, of "\<lambda>_. e"] kept_Some [OF assms(1,2)]
  by (simp_all add: addPadding_def insert_if_room_def Let_def)

lemma kept_mutate:
  assumes a: "holds h d s t pre blk post p" "length p \<le> n" "MaxTCPPacketSize \<le> n" and c: "0 \<le> GreaseCount cfg" "0 \<le> FakeExtCount cfg"
  shows "kept h d s t pre post n (mutate v6 cfg dr p)"
proof -
  note st = kept_step [OF keeps_duplicate _ _ a(3)] kept_step [OF keeps_reorder _ _ a(3)] kept_step [OF keeps_inserts(1) _ _ a(3)]
    kept_step [OF keeps_inserts(2) _ _ a(3)] kept_step [OF keeps_inserts(3) [OF c(1)] _ _ a(3)]
    kept_step [OF keeps_inserts(4) [OF c(2)] _ _ a(3)] kept_inserts [OF _ _ a(3)] kept_Some
  have adv: "kept h d s t pre post n (addAdvancedMutations v6 dr q)" if "holds h d s t pre blk' post q" "length q \<le> n" for q blk'
    unfolding addAdvancedMutations_def by (intro kept_bind) (blast intro: st(8) that)+
  have full: "kept h d s t pre post n (fullMutation v6 cfg dr p)"
    unfolding fullMutation_def by (intro kept_bind kept_if) (blast intro: st adv a(1,2))+
  show ?thesis unfolding mutate_def by (intro kept_if) (blast intro: st adv full a(1,2))+
qed

lemma mutate_none:
  assumes g: "good h d s data t p" and n: "ext_place data = None" and c: "0 \<le> GreaseCount cfg" "0 \<le> FakeExtCount cfg"
  shows "mutate v6 cfg dr p = Some p"
proof -
  note i = no_extensions [OF g n]
  have r: "reorderExtensions v6 dr p = Some p"
  proof (cases "ext_pos data + 2 \<le> length data")
    case True
    then have "length data < ext_pos data + 2 + (256 * unat (data ! ext_pos data) + unat (data ! (ext_pos data + 1)))"
      using n by (simp add: ext_place_def Let_def split: if_splits)
    then have "parseExtensions (drop (ext_pos data) data) = Some []"
      using True by (simp add: parseExtensions_def be16_lt)
    moreover have "sub_bytes p (h + d + ext_pos data) (length p) = Some (drop (ext_pos data) data)"
      using True parts [OF g] by auto
    ultimately show ?thesis using payload_eq [OF g] True by (simp add: reorderExtensions_def find_eq)
  next
    case False
    then show ?thesis using payload_eq [OF g] by (simp add: reorderExtensions_def find_eq)
  qed
  have d: "duplicateSNI v6 cfg p = Some p" using payload_eq [OF g] by (simp add: duplicateSNI_def find_eq i)
  show ?thesis using c
    by (simp add: mutate_def fullMutation_def d r addGREASE_def addPadding_def addAdvancedMutations_def insert_if_room_def i
        addCommonExtensions_def addFakeALPN_def addUnknownExtensions_def Let_def)
qed

text \<open>Within the size of a packet the mutation \<^verbatim>\<open>full\<close> is the chain of its steps.\<close>

definition fillers :: "SNIMutationConfig \<Rightarrow> mut_draws \<Rightarrow> bytes \<Rightarrow> bytes option" where
  "fillers cfg dr p = addGREASE v6 cfg dr p \<bind> (\<lambda>p. addFakeALPN v6 p \<bind> addUnknownExtensions v6 (FakeExtCount cfg) dr)"

lemma grows_fillers: "0 \<le> GreaseCount cfg \<Longrightarrow> 0 \<le> FakeExtCount cfg \<Longrightarrow> grows (fillers cfg dr)"
  unfolding fillers_def by (intro grows_bind grows_others)

lemma grows_names:
  assumes "grows f" "holds h d s t pre blk post p" "closed blk p" "length p \<le> MaxTCPPacketSize"
  obtains q blk' where "f p = Some q" "holds h d s t pre blk' post q" "closed blk' q"
    "filter is_sni (split_exts blk') = filter is_sni (split_exts blk)" "length q \<le> MaxTCPPacketSize"
proof -
  obtain q blk' es where q: "f p = Some q" "holds h d s t pre blk' post q" "closed blk' q" "split_exts blk' = split_exts blk @ es"
    "list_all (\<lambda>e. \<not> is_sni e) es" "length q \<le> max (length p) MaxTCPPacketSize" by (rule growsE [OF assms(1-3)])
  have "filter is_sni es = []" using q(5) by (simp add: list_all_iff filter_empty_conv)
  then have "filter is_sni (split_exts blk') = filter is_sni (split_exts blk)" "length q \<le> MaxTCPPacketSize" using q(4,6) assms(4) by simp_all
  then show thesis using that q(1-3) by blast
qed

lemma duplicated:
  assumes "holds h d s t pre blk post p" "closed blk p" "length p + length (concat (fakeSNIs cfg)) \<le> MaxTCPPacketSize"
  obtains q blk' where "duplicateSNI v6 cfg p = Some q" "holds h d s t pre blk' post q" "closed blk' q"
    "filter is_sni (split_exts blk') = filter is_sni (split_exts blk) @ fakeSNIs cfg" "length q \<le> MaxTCPPacketSize"
proof -
  obtain q blk' j where q: "duplicateSNI v6 cfg p = Some q" "holds h d s t pre blk' post q" "closed blk' q"
      "split_exts blk' = split_exts blk @ take j (fakeSNIs cfg)" "length q \<le> max (length p) MaxTCPPacketSize"
      "length p + length (concat (fakeSNIs cfg)) \<le> MaxTCPPacketSize \<longrightarrow> take j (fakeSNIs cfg) = fakeSNIs cfg"
    by (rule appendsE [OF appends_duplicate assms(1,2), of cfg])
  then have "split_exts blk' = split_exts blk @ fakeSNIs cfg" "length q \<le> MaxTCPPacketSize" using assms(3) by simp_all
  then show thesis using that q(1-3) fakeSNIs_ok(2) [of cfg] by (simp add: list_all_iff)
qed

lemma reordered_hello:
  assumes p: "holds h d s t pre blk post p" "length p \<le> MaxTCPPacketSize" and n: "2 \<le> length (filter is_sni (split_exts blk))"
  obtains q blk' where "reorderExtensions v6 dr p = Some q" "holds h d s t pre blk' post q" "closed blk' q"
    "filter is_sni (split_exts blk') = [last (filter is_sni (split_exts blk))]" "length q \<le> MaxTCPPacketSize"
proof -
  have "\<not> length (split_exts blk) < 2" using n length_filter_le [of is_sni "split_exts blk"] by linarith
  then obtain q blk' where q: "reorderExtensions v6 dr p = Some q" "holds h d s t pre blk' post q" "length q \<le> length p"
      "blk' = concat (reordered dr (split_exts blk))" using reorder [OF p, of dr] by auto
  have ok: "list_all ext_ok (reordered dr (split_exts blk))" using split_exts_ok [of _ blk] by (intro reordered_ok) (simp add: list_all_iff)
  then have "split_exts blk' = reordered dr (split_exts blk)" using split_exts_concat [OF ok, of "[]"] q(4) by (simp add: split_exts_none)
  moreover have "filter is_sni (split_exts blk) \<noteq> []" using n by auto
  ultimately show thesis using that [OF q(1,2)] q(3,4) p(2) by (simp add: closed_def reordered_names)
qed

lemma full_names:
  assumes p: "holds h d s t pre blk post p" "closed blk p" "length p + length (concat (fakeSNIs cfg)) \<le> MaxTCPPacketSize"
    and f: "fakeSNIs cfg \<noteq> []" "filter is_sni (split_exts blk) \<noteq> []" and c: "0 \<le> GreaseCount cfg" "0 \<le> FakeExtCount cfg"
  shows "\<exists>q blk'. fullMutation v6 cfg dr p = Some q \<and> holds h d s t pre blk' post q \<and> filter is_sni (split_exts blk') = [last (fakeSNIs cfg)]"
proof -
  obtain q1 b1 where q1: "duplicateSNI v6 cfg p = Some q1" "holds h d s t pre b1 post q1" "closed b1 q1"
    "filter is_sni (split_exts b1) = filter is_sni (split_exts blk) @ fakeSNIs cfg" "length q1 \<le> MaxTCPPacketSize" by (rule duplicated [OF p])
  obtain q2 b2 where q2: "addCommonExtensions v6 q1 = Some q2" "holds h d s t pre b2 post q2" "closed b2 q2"
    "filter is_sni (split_exts b2) = filter is_sni (split_exts b1)" "length q2 \<le> MaxTCPPacketSize" by (rule grows_names [OF grows_others(2) q1(2,3,5)])
  obtain q3 b3 where q3: "addAdvancedMutations v6 dr q2 = Some q3" "holds h d s t pre b3 post q3" "closed b3 q3"
    "filter is_sni (split_exts b3) = filter is_sni (split_exts b2)" "length q3 \<le> MaxTCPPacketSize" by (rule grows_names [OF grows_advanced q2(2,3,5)])
  obtain q4 b4 where q4: "fillers cfg dr q3 = Some q4" "holds h d s t pre b4 post q4" "closed b4 q4"
    "filter is_sni (split_exts b4) = filter is_sni (split_exts b3)" "length q4 \<le> MaxTCPPacketSize" by (rule grows_names [OF grows_fillers [OF c] q3(2,3,5)])
  have n: "filter is_sni (split_exts b4) = filter is_sni (split_exts blk) @ fakeSNIs cfg" using q1(4) q2(4) q3(4) q4(4) by simp
  then have "2 \<le> length (filter is_sni (split_exts b4))" using f by (cases "filter is_sni (split_exts blk)"; cases "fakeSNIs cfg") auto
  then obtain q5 b5 where q5: "reorderExtensions v6 dr q4 = Some q5" "holds h d s t pre b5 post q5" "closed b5 q5"
    "filter is_sni (split_exts b5) = [last (filter is_sni (split_exts b4))]" "length q5 \<le> MaxTCPPacketSize" by (rule reordered_hello [OF q4(2,5)])
  obtain q6 b6 where q6: "addPadding v6 cfg q5 = Some q6" "holds h d s t pre b6 post q6"
    "filter is_sni (split_exts b6) = filter is_sni (split_exts b5)" by (rule grows_names [OF grows_padding q5(2,3,5)])
  have "fullMutation v6 cfg dr p = Some q6"
    using q1(1,5) q2(1,5) q3(1,5) q4(1) q5(1) q6(1) by (auto simp: fullMutation_def fillers_def bind_eq_Some_conv)
  then show ?thesis using q6(2,3) q5(4) n f(1) by auto
qed

lemma mutated:
  assumes g: "good h d s data t p" and c: "0 \<le> GreaseCount cfg" "0 \<le> FakeExtCount cfg"
  shows "\<exists>q data'. mutate v6 cfg dr p = Some q \<and> good h d s data' t q \<and> length q \<le> max (length p) MaxTCPPacketSize \<and> same_hello data data'"
proof (cases "ext_place data")
  case None
  then show ?thesis using mutate_none [OF g None c, of dr] g by (auto simp: same_hello_def)
next
  case (Some x)
  then obtain pre blk post where h: "is_hello pre blk post data" using hello_ext_place by (cases x) blast
  then have "holds h d s t pre blk post p" using g but_lengths_refl unfolding holds_def by blast
  from kept_mutate [OF this max.cobounded1 max.cobounded2 c, of dr] obtain q blk' where
    q: "mutate v6 cfg dr p = Some q" "holds h d s t pre blk' post q" "length q \<le> max (length p) MaxTCPPacketSize" unfolding kept_def by blast
  then obtain data' pre' where "good h d s data' t q" "is_hello pre' blk' post data'" "but_lengths pre pre'" by (auto simp: holds_def)
  then show ?thesis using q h unfolding same_hello_def by blast
qed

lemma holds_exts: "holds h d s t pre blk post q \<Longrightarrow> \<exists>data'. good h d s data' t q \<and> hello_exts data' pre post (split_exts blk)"
  unfolding holds_def hello_exts_def by blast

lemma exts_holds:
  assumes g: "good h d s data t p" "hello_exts data pre post es" and w: "whole data"
  obtains blk where "holds h d s t pre blk post p" "closed blk p" "split_exts blk = es"
proof -
  obtain pre1 blk where h: "is_hello pre1 blk post data" "but_lengths pre pre1" "split_exts blk = es" using g(2) by (auto simp: hello_exts_def)
  have p: "holds h d s t pre blk post p" using g(1) h unfolding holds_def by blast
  have "concat (split_exts blk) = blk" using w ext_place_hello [OF h(1)] h(1) by (auto simp: whole_def is_hello_def)
  then show thesis using that [OF p] h(3) by (simp add: closed_def)
qed

lemma full_outcome:
  assumes g: "good h d s data t p" "hello_exts data pre post es" "whole data" "length p + length (concat (fakeSNIs cfg)) \<le> MaxTCPPacketSize"
    and f: "fakeSNIs cfg \<noteq> []" "filter is_sni es \<noteq> []" and c: "0 \<le> GreaseCount cfg" "0 \<le> FakeExtCount cfg"
  shows "\<exists>q data' es'. fullMutation v6 cfg dr p = Some q \<and> good h d s data' t q \<and> hello_exts data' pre post es' \<and>
    filter is_sni es' = [last (fakeSNIs cfg)]"
proof -
  obtain blk where b: "holds h d s t pre blk post p" "closed blk p" "split_exts blk = es" by (rule exts_holds [OF g(1-3)])
  show ?thesis using full_names [OF b(1,2) g(4) f(1) _ c, of dr] f(2) b(3) holds_exts by blast
qed

lemma mode_outcome:
  assumes g: "good h d s data t p" "hello_exts data pre post es" and l: "length p \<le> MaxTCPPacketSize"
    and w: "whole data" and m: "mut_Mode cfg \<in> {str ''duplicate'', str ''grease'', str ''reorder''}" and c: "0 \<le> GreaseCount cfg"
  shows "\<exists>q data' es'. mutate v6 cfg dr p = Some q \<and> good h d s data' t q \<and> hello_exts data' pre post es' \<and> outcome cfg dr (length p) es es'"
proof -
  obtain blk where p: "holds h d s t pre blk post p" and cl: "closed blk p" and h: "split_exts blk = es" by (rule exts_holds [OF g w])
  have str: "str ''duplicate'' \<noteq> str ''grease''" "str ''duplicate'' \<noteq> str ''reorder''" "str ''grease'' \<noteq> str ''reorder''"
      "str ''padding'' \<noteq> str ''reorder''" by (simp_all add: str_def)
  consider "mut_Mode cfg = str ''duplicate''" | "mut_Mode cfg = str ''grease''" | "mut_Mode cfg = str ''reorder''" using m by blast
  then show ?thesis
  proof cases
    case 1
    obtain q blk' j where q: "duplicateSNI v6 cfg p = Some q" "holds h d s t pre blk' post q" "split_exts blk' = es @ take j (fakeSNIs cfg)"
        "length p + length (concat (fakeSNIs cfg)) \<le> MaxTCPPacketSize \<longrightarrow> take j (fakeSNIs cfg) = fakeSNIs cfg"
      using h by (rule_tac appendsE [OF appends_duplicate p cl, of cfg]) blast
    have "outcome cfg dr (length p) es (split_exts blk')" using q(3,4) 1 str by (auto simp: outcome_def Let_def)
    moreover have "mutate v6 cfg dr p = Some q" using q(1) 1 by (simp add: mutate_def)
    ultimately show ?thesis using holds_exts [OF q(2)] by blast
  next
    case 2
    obtain q blk' j where q: "addGREASE v6 cfg dr p = Some q" "holds h d s t pre blk' post q"
        "split_exts blk' = es @ take j (grease_exts dr (nat (GreaseCount cfg)))"
        "length p + length (concat (grease_exts dr (nat (GreaseCount cfg)))) \<le> MaxTCPPacketSize \<longrightarrow>
          take j (grease_exts dr (nat (GreaseCount cfg))) = grease_exts dr (nat (GreaseCount cfg))"
      using h by (rule_tac appendsE [OF appends_others(1) [OF c] p cl, of dr]) blast
    have "outcome cfg dr (length p) es (split_exts blk')" using q(3,4) 2 str by (auto simp: outcome_def Let_def)
    moreover have "mutate v6 cfg dr p = Some q" using q(1) 2 str by (simp add: mutate_def)
    ultimately show ?thesis using holds_exts [OF q(2)] by blast
  next
    case 3
    obtain q blk' where q: "reorderExtensions v6 dr p = Some q" "holds h d s t pre blk' post q"
        "if length es < 2 then blk' = blk else blk' = concat (reordered dr es)" using reorder [OF p l, of dr] h by (auto split: if_splits)
    have ok: "list_all ext_ok (reordered dr es)" using split_exts_ok [of _ blk] h by (intro reordered_ok) (auto simp: list_all_iff)
    then have "split_exts blk' = (if length es < 2 then es else reordered dr es)"
      using split_exts_concat [OF ok, of "[]"] q(3) h by (auto simp: split_exts_none)
    then have "outcome cfg dr (length p) es (split_exts blk')" using 3 mset_reordered [of dr es] by (simp add: outcome_def)
    moreover have "mutate v6 cfg dr p = Some q" using q(1) 3 by (simp add: mutate_def str_def)
    ultimately show ?thesis using holds_exts [OF q(2)] by blast
  qed
qed

end

subsection \<open>Both families\<close>

lemma patch_append: "i + length v \<le> length a \<Longrightarrow> patch (a @ b) i v = patch a i v @ b"
  by (simp add: patch_def)

lemma finish4_first:
  assumes raw: "raw4 h d data t p" and len: "be16 p 2 = Some (length p)" and q: "fix_ip_header p h \<bind> FixTCPChecksum = Some q"
  shows "q ! 0 = p ! 0"
proof -
  have r: "ip_hdr_len p = Some h" "20 \<le> h" "h + 20 \<le> length p" "20 \<le> d" using raw by (auto simp: raw4_def)
  obtain c where c: "fix_ip_header p h = Some (patch p 10 (put16 c))" using fix_ip_header_eq [OF r(1,2)] r(3) by auto
  have "raw4 h d data t (patch p 10 (put16 c))" using r by (intro raw4_patch [OF raw]) auto
  moreover have "be16 (patch p 10 (put16 c)) 2 = Some (length (patch p 10 (put16 c)))" using r len by (simp add: be16_patch)
  ultimately obtain c' where "FixTCPChecksum (patch p 10 (put16 c)) = Some (patch (patch p 10 (put16 c)) (h + 16) (put16 c'))"
    using FixTCPChecksum_eq [of "patch p 10 (put16 c)" h] r by (auto simp: raw4_def)
  then show ?thesis using q c r by (auto simp: nth_patch)
qed

lemma update4:
  assumes g: "good4 h d s data t (hdr @ data)" "drop_bit 4 ((hdr @ data) ! 0) = 4" and l: "length hdr = h + d" "h + d + length data' \<le> 65535"
  shows "\<exists>q. updatePacketLengths (hdr @ data') = Some q \<and> good4 h d s (relen data') t q \<and> drop_bit 4 (q ! 0) = 4"
proof -
  have raw: "raw4 h d data t (hdr @ data)" and r: "20 \<le> h" "20 \<le> d" "be32 (hdr @ data) (h + 4) = Some (unat s)"
    using g(1) by (auto simp: good4_def raw4_def)
  have rp: "raw4 h d x t (hdr @ x)" if "h + d + length x \<le> 65535" for x using raw4_replace [OF raw that] l(1) by simp
  define hdr' where "hdr' = patch hdr 2 (put16 (h + d + length data'))"
  have lh: "length hdr' = h + d" "2 + 2 \<le> length hdr" using l(1) r by (simp_all add: hdr'_def)
  have e: "patch (hdr @ x) 2 (put16 (h + d + length data')) = hdr' @ x" for x using lh(2) patch_append [of 2 "put16 (h + d + length data')" hdr x] by (simp add: hdr'_def)
  have r2: "raw4 h d (relen data') t (hdr' @ relen data')"
    using raw4_patch [OF rp [of "relen data'"], of 2 "put16 (h + d + length data')"] e [of "relen data'"] r l by simp
  have b: "be16 (hdr' @ relen data') 2 = Some (length (hdr' @ relen data'))"
    using be16_patch_same [of 2 "hdr @ relen data'" "h + d + length data'"] e [of "relen data'"] l lh r by simp
  have "be32 (hdr @ relen data') (h + 4) = be32 (hdr @ data) (h + 4)" using l(1) r by (simp add: be32_lt nth_append)
  then have sq: "be32 (hdr' @ relen data') (h + 4) = Some (unat s)"
    using be32_patch [of 2 "put16 (h + d + length data')" "hdr @ relen data'" "h + 4"] e [of "relen data'"] l r by simp
  obtain q where q: "fix_ip_header (hdr' @ relen data') h \<bind> FixTCPChecksum = Some q" "good4 h d s (relen data') t q"
    using finish4 [OF r2 sq b] by blast
  have p0: "(hdr @ data') ! 0 = (hdr @ data) ! 0" "hdr \<noteq> []" using l(1) r by (auto simp: nth_append)
  have "ip_hdr_len (hdr @ data') = Some h" "tcp_hdr_len (hdr @ data') h = Some d" "ip_hdr_len q = Some h"
    using rp [OF l(2)] q(2) by (auto simp: raw4_def good4_def)
  then have "updatePacketLengths (hdr @ data') = Some q"
    using p0 g(2) l r q(1) e [of data'] lh update_tls_lengths_eq [of hdr' data']
    by (simp add: updatePacketLengths_def hello_start_def bind_assoc)
  moreover have "(hdr' @ relen data') ! 0 = (hdr @ data) ! 0"
    using nth_patch [of 2 "put16 (h + d + length data')" "hdr @ relen data'" 0] e [of "relen data'"] l r by (simp add: nth_append)
  then have "drop_bit 4 (q ! 0) = 4" using finish4_first [OF r2 b q(1)] g(2) by simp
  ultimately show ?thesis using q(2) by blast
qed

lemma update6:
  assumes g: "good6 d s data t (hdr @ data)" and l: "length hdr = 40 + d" "40 + d + length data' \<le> 65535"
  shows "\<exists>q. updatePacketLengths (hdr @ data') = Some q \<and> good6 d s (relen data') t q"
proof -
  have raw: "raw6 d data t (hdr @ data)" and r: "20 \<le> d" "be32 (hdr @ data) 44 = Some (unat s)"
    using g by (auto simp: good6_def raw6_def)
  have rp: "raw6 d x t (hdr @ x)" if "40 + d + length x \<le> 65535" for x using raw6_replace [OF raw that] l(1) by simp
  define hdr' where "hdr' = patch hdr 4 (put16 (d + length data'))"
  have lh: "length hdr' = 40 + d" "4 + 2 \<le> length hdr" using l(1) r by (simp_all add: hdr'_def)
  have e: "patch (hdr @ x) 4 (put16 (d + length data')) = hdr' @ x" for x using lh(2) patch_append [of 4 "put16 (d + length data')" hdr x] by (simp add: hdr'_def)
  have r2: "raw6 d (relen data') t (hdr' @ relen data')"
    using raw6_patch [OF rp [of "relen data'"], of 4 "put16 (d + length data')"] e [of "relen data'"] r l by simp
  have b: "be16 (hdr' @ relen data') 4 = Some (length (hdr' @ relen data') - 40)"
    using be16_patch_same [of 4 "hdr @ relen data'" "d + length data'"] e [of "relen data'"] l lh r by simp
  have "be32 (hdr @ relen data') 44 = be32 (hdr @ data) 44" using l(1) r by (simp add: be32_lt nth_append)
  then have sq: "be32 (hdr' @ relen data') 44 = Some (unat s)"
    using be32_patch [of 4 "put16 (d + length data')" "hdr @ relen data'" 44] e [of "relen data'"] l r by simp
  obtain q where q: "FixTCPChecksumV6 (hdr' @ relen data') = Some q" "good6 d s (relen data') t q" using fix6 [OF r2 b sq] by blast
  have "drop_bit 4 ((hdr @ data') ! 0) = 6" "tcp_hdr_len (hdr @ data') 40 = Some d" "hdr \<noteq> []" "length (hdr @ data') - 40 = d + length data'"
    using rp [OF l(2)] l(1) r by (auto simp: raw6_def)
  then have "updatePacketLengths (hdr @ data') = Some q"
    using l r q(1) e [of data'] lh update_tls_lengths_eq [of hdr' data']
    by (simp add: updatePacketLengths_def hello_start_def)
  then show ?thesis using q(2) by blast
qed

interpretation hm4: hello_packets False "\<lambda>h d s data t p. good4 h d s data t p \<and> drop_bit 4 (p ! 0) = 4"
proof
  fix h d s data t p
  assume g: "good4 h d s data t p \<and> drop_bit 4 (p ! 0) = 4"
  then have r: "ip_hdr_len p = Some h" "tcp_hdr_len p h = Some d" "h + d \<le> length p" "drop (h + d) p = data" "length p \<le> 65535"
    by (auto simp: good4_def raw4_def)
  have "p = take (h + d) p @ data" "length (take (h + d) p) = h + d" "h + d \<le> 120" "hello_start False p = Some (h + d)"
    using r ip_hdr_len_le [OF r(1)] tcp_hdr_len_le [OF r(2)] append_take_drop_id [of "h + d" p] by (auto simp: hello_start_def)
  then show "\<exists>hdr. p = hdr @ data \<and> length hdr = h + d \<and> h + d \<le> 120 \<and> hello_start False p = Some (h + d) \<and>
      (False \<longrightarrow> 60 \<le> length p) \<and> length p \<le> 65535" using r(5) by blast
qed (use update4 in blast)

interpretation hm6: hello_packets True "\<lambda>h d s data t p. h = 40 \<and> good6 d s data t p"
proof
  fix h d :: nat and s data t p
  assume g: "h = 40 \<and> good6 d s data t p"
  then have r: "h = 40" "20 \<le> d" "tcp_hdr_len p 40 = Some d" "h + d \<le> length p" "drop (h + d) p = data" "length p \<le> 65535"
    by (auto simp: good6_def raw6_def)
  have "p = take (h + d) p @ data" "length (take (h + d) p) = h + d" "h + d \<le> 120" "hello_start True p = Some (h + d)" "60 \<le> length p"
    using r tcp_hdr_len_le [OF r(3)] append_take_drop_id [of "h + d" p] by (auto simp: hello_start_def)
  then show "\<exists>hdr. p = hdr @ data \<and> length hdr = h + d \<and> h + d \<le> 120 \<and> hello_start True p = Some (h + d) \<and>
      (True \<longrightarrow> 60 \<le> length p) \<and> length p \<le> 65535" using r(6) by blast
qed (use update6 in blast)

subsection \<open>Mutated segments\<close>

lemma starts_hello_total: "sub_bytes p n (length p) = Some data \<Longrightarrow> length p = n + length data \<Longrightarrow> \<exists>b. starts_hello p n = Some b"
  using be16_lt [of 3 data] by (auto simp: starts_hello_def)

lemma mutate4_eq:
  assumes "good4 h d s data t p \<and> drop_bit 4 (p ! 0) = 4"
  shows "\<exists>b. starts_hello p (h + d) = Some b \<and>
    MutateClientHello cfg dr p = (if mut_Mode cfg \<noteq> str ''off'' \<and> b then mutate False cfg dr p else Some p)"
proof -
  obtain b where "starts_hello p (h + d) = Some b" using starts_hello_total [OF hm4.payload_eq(2,3) [OF assms]] by blast
  then show ?thesis using hm4.payload_eq(1) [OF assms] by (intro exI [of _ b]) (simp add: MutateClientHello_def)
qed

lemma mutate6_eq:
  assumes "good6 d s data t p"
  shows "\<exists>b. starts_hello p (40 + d) = Some b \<and>
    MutateClientHelloV6 cfg dr p = (if mut_Mode cfg \<noteq> str ''off'' \<and> b then mutate True cfg dr p else Some p)"
proof -
  have "60 \<le> length p" using assms by (auto simp: good6_def raw6_def)
  moreover have "hasPlainIPv6Header p 6 = Some True"
    using assms upper_layer_tcp [of p] by (auto simp: hasPlainIPv6Header_def upperLayerOffsetV6_def good6_def raw6_def)
  moreover have g: "40 = (40 :: nat) \<and> good6 d s data t p" using assms by simp
  moreover obtain b where "starts_hello p (40 + d) = Some b" using starts_hello_total [OF hm6.payload_eq(2,3) [OF g]] by blast
  ultimately show ?thesis using hm6.payload_eq(1) [OF g] by (intro exI [of _ b]) (simp add: MutateClientHelloV6_eq)
qed

text \<open>
  C22. Every mode of mutation turns an intact segment of a client into an intact segment, over IPv4 and IPv6: nothing panics,
  both checksums and lengths are right, the sequence number, hop limit and header lengths are those of the original, the packet grows to at
  most 1460 bytes, and what it carries is the data of the client or a ClientHello that differs from it in
  its extensions and lengths only. The counts in the configuration must not be negative.
\<close>

theorem mutation_keeps_segment:
  assumes "0 \<le> GreaseCount cfg" "0 \<le> FakeExtCount cfg"
  shows "(good4 h d s data t p \<and> drop_bit 4 (p ! 0) = 4 \<longrightarrow>
      (\<exists>q data'. MutateClientHello cfg dr p = Some q \<and> good4 h d s data' t q \<and> length q \<le> max (length p) MaxTCPPacketSize \<and> same_hello data data')) \<and>
    (good6 d s data t p \<longrightarrow>
      (\<exists>q data'. MutateClientHelloV6 cfg dr p = Some q \<and> good6 d s data' t q \<and> length q \<le> max (length p) MaxTCPPacketSize \<and> same_hello data data'))"
proof (intro conjI impI)
  assume g: "good4 h d s data t p \<and> drop_bit 4 (p ! 0) = 4"
  show "\<exists>q data'. MutateClientHello cfg dr p = Some q \<and> good4 h d s data' t q \<and> length q \<le> max (length p) MaxTCPPacketSize \<and> same_hello data data'"
    using mutate4_eq [OF g, of cfg dr] hm4.mutated [OF g assms, of dr] g by (fastforce simp: same_hello_def)
next
  assume g: "good6 d s data t p"
  show "\<exists>q data'. MutateClientHelloV6 cfg dr p = Some q \<and> good6 d s data' t q \<and> length q \<le> max (length p) MaxTCPPacketSize \<and> same_hello data data'"
    using mutate6_eq [OF g, of cfg dr] hm6.mutated [of 40 d s data t p cfg dr] assms g by (fastforce simp: same_hello_def)
qed

text \<open>A packet for the examples: a ClientHello for the name \<^verbatim>\<open>a.b\<close>.\<close>

definition hello_head :: bytes where
  "hello_head = [0x16, 3, 1, 0, 0, 1, 0, 0, 0, 3, 3] @ replicate 32 0 @ [0, 0, 2, 0x13, 1, 1, 0]"

definition some_hello :: bytes where
  "some_hello = relen (hello_head @ put16 (length (sniExt (str ''a.b''))) @ sniExt (str ''a.b'') @ [])"

definition fake_names :: "gostr \<Rightarrow> SNIMutationConfig" where
  "fake_names mode = \<lparr>mut_Mode = mode, GreaseCount = 1, PaddingSize = 16, FakeExtCount = 1, FakeSNIs = [str ''x.y'', str ''c.d'']\<rparr>"

definition zero_draws :: mut_draws where
  "zero_draws = \<lparr>rnd_kind = (\<lambda>_. 0), rnd_grease = (\<lambda>_. 0), rnd_key = (\<lambda>_. 0), rnd_ext = (\<lambda>_. 0), rnd_order = (\<lambda>_. 0)\<rparr>"

lemma some_hello_packet:
  "\<exists>p. good4 20 20 100 some_hello 64 p \<and> drop_bit 4 (p ! 0) = 4 \<and> length p = 40 + length some_hello"
proof -
  have p: "request4 = take 40 request4 @ request" "length (take 40 request4) = 20 + 20" "drop_bit 4 ((take 40 request4 @ request) ! 0) = 4"
    by (simp_all add: request4_def request_def)
  have g: "good4 20 20 100 request 64 (take 40 request4 @ request)" using request4_good p(1) by simp
  have "20 + 20 + length (hello_head @ put16 (length (sniExt (str ''a.b''))) @ sniExt (str ''a.b'') @ []) \<le> 65535"
    by (simp add: hello_head_def sniExt_def extension_def str_def)
  from update4 [OF g p(3,2) this] obtain q where q: "good4 20 20 100 some_hello 64 q" "drop_bit 4 (q ! 0) = 4"
    unfolding some_hello_def by blast
  then show ?thesis by (auto simp: good4_def raw4_def)
qed

theorem mutation_keeps_segment_witness:
  "\<exists>p q data'. good4 20 20 100 some_hello 64 p \<and> MutateClientHello (fake_names (str ''full'')) zero_draws p = Some q \<and>
    good4 20 20 100 data' 64 q \<and> same_hello some_hello data'"
proof -
  obtain p where p: "good4 20 20 100 some_hello 64 p \<and> drop_bit 4 (p ! 0) = 4" using some_hello_packet by blast
  have "0 \<le> GreaseCount (fake_names (str ''full''))" "0 \<le> FakeExtCount (fake_names (str ''full''))" by (simp_all add: fake_names_def)
  from mutation_keeps_segment [OF this, of 20 20 100 some_hello 64 p zero_draws] p show ?thesis by blast
qed


lemma some_hello_facts:
  "hello_exts some_hello hello_head [] [sniExt (str ''a.b'')]" "whole some_hello" "length some_hello = 64"
  "drop n p = some_hello \<Longrightarrow> length p = n + length some_hello \<Longrightarrow> starts_hello p n = Some True"
proof -
  define blk where "blk = sniExt (str ''a.b'')"
  have b: "length blk = 12" "ext_ok blk" by (simp_all add: blk_def sniExt_def extension_def str_def ext_ok_def put16_def)
  have e: "ext_pos (hello_head @ put16 (length blk) @ blk @ []) = length hello_head"
    by (simp add: ext_pos_def hello_head_def nth_append)
  obtain pre' where h: "is_hello pre' blk [] some_hello" "but_lengths hello_head pre'"
    using hello_relen [OF e [symmetric]] b unfolding some_hello_def blk_def [symmetric] by auto
  have sp: "split_exts blk = [blk]" using split_exts_append [OF b(2), of "[]"] by (simp add: split_exts_none)
  show "hello_exts some_hello hello_head [] [sniExt (str ''a.b'')]" using h sp unfolding hello_exts_def blk_def by blast
  have eq: "some_hello = pre' @ put16 (length blk) @ blk" using h(1) by (simp add: is_hello_def)
  have "take (length blk) (drop (length pre' + 2) (pre' @ put16 (length blk) @ blk)) = blk" by simp
  then have "take (length blk) (drop (length pre' + 2) some_hello) = blk" by (simp only: eq)
  then show "whole some_hello" using ext_place_hello [OF h(1)] sp by (simp add: whole_def)
  show l: "length some_hello = 64" using b by (simp add: some_hello_def hello_head_def blk_def [symmetric])
  have "some_hello ! 0 = 0x16" "some_hello ! 1 = 3" "some_hello ! 5 = 1" "be16 some_hello 3 = Some 59"
    by (simp_all add: some_hello_def hello_head_def relen_def patch_def sniExt_def extension_def put16_def put24_def str_def be16_lt Let_def)
  then show "drop n p = some_hello \<Longrightarrow> length p = n + length some_hello \<Longrightarrow> starts_hello p n = Some True"
    using l by (auto simp: starts_hello_def)
qed


text \<open>
  C39. The mode \<^verbatim>\<open>full\<close> loses the name the client asked for. It first appends the configured fake names and later
  reorders the extensions, which keeps only the last server name: whenever the fake names fit into the packet, the
  ClientHello that is sent names the last of them and nothing else, over IPv4 and IPv6.
\<close>

theorem full_mutation_loses_name:
  assumes c: "0 \<le> GreaseCount cfg" "0 \<le> FakeExtCount cfg" "mut_Mode cfg = str ''full''" "fakeSNIs cfg \<noteq> []"
    and x: "hello_exts data pre post es" "whole data" "length p + length (concat (fakeSNIs cfg)) \<le> MaxTCPPacketSize" "filter is_sni es \<noteq> []"
  shows "(good4 h d s data t p \<and> drop_bit 4 (p ! 0) = 4 \<and> starts_hello p (h + d) = Some True \<longrightarrow>
      (\<exists>q data' es'. MutateClientHello cfg dr p = Some q \<and> good4 h d s data' t q \<and> hello_exts data' pre post es' \<and>
         filter is_sni es' = [last (fakeSNIs cfg)])) \<and>
    (good6 d s data t p \<and> starts_hello p (40 + d) = Some True \<longrightarrow>
      (\<exists>q data' es'. MutateClientHelloV6 cfg dr p = Some q \<and> good6 d s data' t q \<and> hello_exts data' pre post es' \<and>
         filter is_sni es' = [last (fakeSNIs cfg)]))"
proof (intro conjI impI)
  have str: "mutate v cfg dr p = fullMutation v cfg dr p" "mut_Mode cfg \<noteq> str ''off''" for v using c(3) by (simp_all add: mutate_def str_def)
  {
    assume g: "good4 h d s data t p \<and> drop_bit 4 (p ! 0) = 4 \<and> starts_hello p (h + d) = Some True"
    then have m: "MutateClientHello cfg dr p = fullMutation False cfg dr p" using mutate4_eq [of h d s data t p cfg dr] str by auto
    show "\<exists>q data' es'. MutateClientHello cfg dr p = Some q \<and> good4 h d s data' t q \<and> hello_exts data' pre post es' \<and>
         filter is_sni es' = [last (fakeSNIs cfg)]"
      using hm4.full_outcome [OF _ x(1,2,3) c(4) x(4) c(1,2), of h d s t dr] g unfolding m by blast
  next
    assume g: "good6 d s data t p \<and> starts_hello p (40 + d) = Some True"
    then have m: "MutateClientHelloV6 cfg dr p = fullMutation True cfg dr p" using mutate6_eq [of d s data t p cfg dr] str by auto
    show "\<exists>q data' es'. MutateClientHelloV6 cfg dr p = Some q \<and> good6 d s data' t q \<and> hello_exts data' pre post es' \<and>
         filter is_sni es' = [last (fakeSNIs cfg)]"
      using hm6.full_outcome [OF _ x(1,2,3) c(4) x(4) c(1,2), of 40 d s t dr] g unfolding m by blast
  }
qed

theorem full_mutation_loses_name_witness:
  "\<exists>p q data' es'. good4 20 20 100 some_hello 64 p \<and> MutateClientHello (fake_names (str ''full'')) zero_draws p = Some q \<and>
    good4 20 20 100 data' 64 q \<and> hello_exts data' hello_head [] es' \<and> filter is_sni es' = [sniExt (str ''c.d'')]"
proof -
  obtain p where p: "good4 20 20 100 some_hello 64 p" "drop_bit 4 (p ! 0) = 4" "length p = 40 + length some_hello" using some_hello_packet by blast
  have st: "starts_hello p (20 + 20) = Some True" using some_hello_facts(4) [of 40 p] p by (simp add: good4_def raw4_def)
  let ?c = "fake_names (str ''full'')"
  have n: "fakeSNIs ?c = [sniExt (str ''x.y''), sniExt (str ''c.d'')]"
    by (simp add: fakeSNIs_def fake_names_def MaxSNILength_def MaxSNINameLen_def str_def)
  have m: "0 \<le> GreaseCount ?c" "0 \<le> FakeExtCount ?c" "mut_Mode ?c = str ''full''" "fakeSNIs ?c \<noteq> []"
    using n by (simp_all add: fake_names_def)
  have l: "length p + length (concat (fakeSNIs ?c)) \<le> MaxTCPPacketSize"
    using p(3) some_hello_facts(3) unfolding n by (simp add: MaxTCPPacketSize_def sniExt_def extension_def str_def)
  have "filter is_sni [sniExt (str ''a.b'')] \<noteq> []" by (simp add: sniExt_def is_sni_extension)
  from full_mutation_loses_name [OF m some_hello_facts(1,2) l this, of 20 20 100 64 zero_draws] p(1,2) st
  show ?thesis unfolding n by auto
qed

end
