(* ===== verification/Tcp_Inject.thy ===== *)
theory Tcp_Inject
  imports Hello_Names
begin

text \<open>
  How a TCP segment of a matched connection is sent (\<^verbatim>\<open>dropAndInjectTCP\<close> of \<^verbatim>\<open>nfq/nfq.go\<close>, \<^verbatim>\<open>dropAndInjectTCPv6\<close> of \<^verbatim>\<open>nfq/nfq_ipv6.go\<close>): its data is
  changed, then come the packets of the desync and window attacks, the fake ClientHellos, the segment itself cut by the
  strategy of the set, and fake resets. The theorems compose what the theories of these parts show.
\<close>

subsection \<open>The whole of it\<close>

record InjectConfig =
  ic_Fragmentation :: FragmentationConfig
  ic_Faking :: FakeSettings
  ic_SNIMutation :: SNIMutationConfig
  ic_HTTPMethodEOL :: bool
  ic_Desync :: DesyncConfig
  ic_Win :: WinConfig

record inject_draws =
  dr_send :: draws
  dr_fake :: fake_draws
  dr_decoy :: bytes
  dr_mutation :: mut_draws
  dr_desync :: "nat \<Rightarrow> 32 word"
  dr_window :: "nat \<Rightarrow> nat"
  dr_ident :: "32 word"

text \<open>The settings of fakes that the strategies read.\<close>

definition strategy_faking :: "FakeSettings \<Rightarrow> FakingConfig" where
  "strategy_faking fk = \<lparr>FakeTTL = fk_TTL fk, FakeStrategy = fk_Strategy fk\<rparr>"

definition chosen_strategy :: "InjectConfig \<Rightarrow> inject_draws \<Rightarrow> gostr" where
  "chosen_strategy cfg dr =
     ResolveStrategyPool (draw_strategy (dr_send dr)) (StrategyPool (ic_Fragmentation cfg)) (Strategy (ic_Fragmentation cfg))"

definition dropAndInjectTCP :: "golib \<Rightarrow> payloads \<Rightarrow> InjectConfig \<Rightarrow> inject_draws \<Rightarrow> bytes \<Rightarrow> bytes list option" where
  "dropAndInjectTCP L C cfg dr raw =
     (if length raw < 40 then Some [raw]
      else do {
        ipHdrLen \<leftarrow> ip_hdr_len raw;
        tcpHdrLen \<leftarrow> tcp_hdr_len raw ipHdrLen;
        if length raw \<le> ipHdrLen + tcpHdrLen then Some [raw]
        else do {
          raw \<leftarrow> applyHTTPMethodEOL L (ic_HTTPMethodEOL cfg) raw;
          raw \<leftarrow> (if mut_Mode (ic_SNIMutation cfg) \<noteq> str ''off''
                  then MutateClientHello (ic_SNIMutation cfg) (dr_mutation dr) raw else Some raw);
          desync \<leftarrow> (if ds_Mode (ic_Desync cfg) \<noteq> str ''off'' then ExecuteDesyncIPv4 (ic_Desync cfg) (dr_desync dr) raw else Some []);
          windows \<leftarrow> (if win_Mode (ic_Win cfg) \<noteq> str ''off'' then ManipulateWindowIPv4 (ic_Win cfg) (dr_window dr) raw else Some []);
          fakes \<leftarrow> (if fk_SNI (ic_Faking cfg) \<and> SNISeqLength (ic_Faking cfg) > 0
                   then sendFakeSNISequence L C (ic_Faking cfg) (dr_fake dr) raw else Some []);
          sent \<leftarrow> send_strategy4 (ic_Fragmentation cfg) (strategy_faking (ic_Faking cfg))
                   (GetPayload C (ic_Faking cfg) (dr_decoy dr)) (dr_send dr) (chosen_strategy cfg dr) raw;
          post \<leftarrow> (if ds_PostDesync (ic_Desync cfg) then sendPostDesyncRST (fk_TTL (ic_Faking cfg)) raw ipHdrLen else Some []);
          Some (desync @ windows @ fakes @ sent @ post) } })"

definition dropAndInjectTCPv6 :: "golib \<Rightarrow> payloads \<Rightarrow> InjectConfig \<Rightarrow> inject_draws \<Rightarrow> bytes \<Rightarrow> bytes list option" where
  "dropAndInjectTCPv6 L C cfg dr raw = do {
     plain \<leftarrow> hasPlainIPv6Header raw 6;
     if \<not> plain then Some [raw]
     else if length raw < 60 then Some [raw]
     else do {
       tcpHdrLen \<leftarrow> tcp_hdr_len raw 40;
       if length raw \<le> 40 + tcpHdrLen then Some [raw]
       else do {
         raw \<leftarrow> applyHTTPMethodEOL L (ic_HTTPMethodEOL cfg) raw;
         raw \<leftarrow> (if mut_Mode (ic_SNIMutation cfg) \<noteq> str ''off''
                 then MutateClientHelloV6 (ic_SNIMutation cfg) (dr_mutation dr) raw else Some raw);
         desync \<leftarrow> (if ds_Mode (ic_Desync cfg) \<noteq> str ''off'' then ExecuteDesyncIPv6 (ic_Desync cfg) (dr_desync dr) raw else Some []);
         windows \<leftarrow> (if win_Mode (ic_Win cfg) \<noteq> str ''off'' then ManipulateWindowIPv6 (ic_Win cfg) (dr_window dr) raw else Some []);
         fakes \<leftarrow> (if fk_SNI (ic_Faking cfg) \<and> SNISeqLength (ic_Faking cfg) > 0
                  then sendFakeSNISequencev6 L C (ic_Faking cfg) (dr_fake dr) raw else Some []);
         sent \<leftarrow> send_strategy6 (ic_Fragmentation cfg) (strategy_faking (ic_Faking cfg))
                  (GetPayload C (ic_Faking cfg) (dr_decoy dr)) (dr_send dr) (dr_ident dr) (chosen_strategy cfg dr) raw;
         post \<leftarrow> (if ds_PostDesync (ic_Desync cfg) then sendPostDesyncRSTv6 (fk_TTL (ic_Faking cfg)) raw else Some []);
         Some (desync @ windows @ fakes @ sent @ post) } } }"

subsection \<open>HTTP requests\<close>

text \<open>The empty line is paid for with two bytes of the user agent.\<close>

definition eol_change :: "bytes \<Rightarrow> bytes \<Rightarrow> bool" where
  "eol_change data data' \<longleftrightarrow> data' = data \<or>
     looksLikeHTTPRequest data \<and> (\<exists>b. 2 \<le> b \<and> b \<le> length data \<and> data' = methodEOL @ take (b - 2) data @ drop b data)"

lemma eol_index_less: "eol_index xs = Some i \<Longrightarrow> i + 2 \<le> length xs"
  by (induction xs arbitrary: i rule: eol_index.induct) (auto split: if_splits)

lemma user_agent_bounds: "user_agent_from L payload pos = Some (a, b) \<Longrightarrow> b + 2 \<le> length payload"
proof (induction L payload pos rule: user_agent_from.induct)
  case (1 L payload pos)
  then show ?case
    using eol_index_less [of "drop pos payload"]
    by (subst (asm) (2) user_agent_from.simps) (force simp: Let_def split: if_splits option.splits nat.splits)
qed

context hello_packets
begin

lemma eol:
  assumes g: "good h d s data t p" and st: "payloadStartOf p = Some (Some (h + d))"
  shows "\<exists>q data'. applyHTTPMethodEOL L on p = Some q \<and> good h d s data' t q \<and> eol_change data data' \<and> length data' = length data"
proof -
  obtain hdr where p: "p = hdr @ data" "length hdr = h + d" "length p \<le> 65535" using parts [OF g] by blast
  then have dr: "drop (h + d) p = data" "take (h + d) p = hdr" by simp_all
  have same: ?thesis if "applyHTTPMethodEOL L on p = Some p" using that g by (auto simp: eol_change_def)
  show ?thesis
  proof (cases "on \<and> h + d < length p \<and> looksLikeHTTPRequest data")
    case False
    then have "applyHTTPMethodEOL L on p = Some p" using st dr by (auto simp: applyHTTPMethodEOL_def Let_def)
    then show ?thesis by (rule same)
  next
    case http: True
    show ?thesis
    proof (cases "locateUserAgentValue L data")
      case None
      then have "applyHTTPMethodEOL L on p = Some p" using st dr http by (simp add: applyHTTPMethodEOL_def Let_def)
      then show ?thesis by (rule same)
    next
      case (Some x)
      then obtain a b where x: "locateUserAgentValue L data = Some (a, b)" by (cases x) auto
      show ?thesis
      proof (cases "b - a < 2")
        case True
        then have "applyHTTPMethodEOL L on p = Some p" using st dr http x by (simp add: applyHTTPMethodEOL_def Let_def methodEOL_def)
        then show ?thesis by (rule same)
      next
        case False
        define data' where "data' = methodEOL @ take (b - 2) data @ drop b data"
        have b: "2 \<le> b" "b \<le> length data" using user_agent_bounds [of L data 0 a b] x False by (auto simp: locateUserAgentValue_def)
        then have l: "length data' = length data" by (simp add: data'_def methodEOL_def)
        have "relen data' = data'" by (simp add: data'_def relen_def methodEOL_def Let_def)
        then obtain q where q: "updatePacketLengths (hdr @ data') = Some q" "good h d s data' t q"
          using update [of h d s data t hdr data'] g p l by auto
        have "applyHTTPMethodEOL L on p = Some q"
          using st dr http x False q(1) by (simp add: applyHTTPMethodEOL_def Let_def methodEOL_def data'_def numeral_2_eq_2)
        moreover have "eol_change data data'" using http b unfolding eol_change_def data'_def by blast
        ultimately show ?thesis using q(2) l by blast
      qed
    qed
  qed
qed

end

subsection \<open>Packets that do not disturb the stream\<close>

lemma dynamicTTL_eq: "8 < length p \<Longrightarrow> dynamicTTL p v6 c = Some (resolveFakeTTL c (p ! (if v6 then 7 else 8)))"
  by (auto simp: dynamicTTL_def resolveFakeTTL_def fakeTTLOrDefault_def Let_def)

text \<open>A packet expires on the way, is dropped by the receiver or agrees with the stream.\<close>

definition silent ::
    "(bytes \<Rightarrow> (32 word \<times> bytes) option) \<Rightarrow> (bytes \<Rightarrow> byte) \<Rightarrow> nat \<Rightarrow> 32 word \<Rightarrow> bytes \<Rightarrow> bytes \<Rightarrow> bool" where
  "silent view ttl_of hops s data q \<longleftrightarrow>
     (hops < unat (ttl_of q) \<longrightarrow> (case view q of None \<Rightarrow> True | Some x \<Rightarrow> agrees s data x))"

lemma arriving_append [simp]: "arriving view ttl_of hops (xs @ ys) = arriving view ttl_of hops xs @ arriving view ttl_of hops ys"
  by (simp add: arriving_def map_filter_def)

lemma silent_agrees: "\<forall>q \<in> set qs. silent view ttl_of hops s data q \<Longrightarrow> x \<in> set (arriving view ttl_of hops qs) \<Longrightarrow> agrees s data x"
  by (auto simp: arriving_def map_filter_def silent_def split: option.splits)

lemma delivers_among:
  assumes "reaches view ttl_of hops s data sent" "\<forall>q \<in> set (before @ after). silent view ttl_of hops s data q"
  shows "delivers s data (arriving view ttl_of hops (before @ sent @ after))"
proof -
  have d: "delivers s data (arriving view ttl_of hops sent)" using assms(1) by (simp add: reaches_def)
  have a: "agrees s data x" if "x \<in> set (arriving view ttl_of hops before) \<union> set (arriving view ttl_of hops after)" for x
    using that silent_agrees [of before view ttl_of hops s data x] silent_agrees [of after view ttl_of hops s data x] assms(2) by auto
  show ?thesis using d a unfolding delivers_def by auto
qed

lemma agrees_whole: "length data \<le> 65535 \<Longrightarrow> agrees s data (s, data)"
  using agrees_piece [of "length data" data s 0] by (simp add: piece_def)

lemma agrees_none: "agrees s data (s', [])"
  by (simp add: agrees_def)

lemma low4: "hf4.low h d t' q \<Longrightarrow> \<exists>t1 \<le> t'. raw4 h d [] t1 q"
  unfolding hf4.low_def by (auto simp: shape4_def)

lemma low6: "hf6.low 40 d t' q \<Longrightarrow> \<exists>t1 \<le> t'. raw6 d [] t1 q"
  unfolding hf6.low_def by (auto simp: shape6_def)

lemma desync4:
  assumes g: "good4 h d s data t p" and m: "ds_Mode da \<noteq> str ''off''"
  shows "\<exists>sent. ExecuteDesyncIPv4 da rnd p = Some sent \<and> length sent = attack_size False da \<and>
    (\<forall>q \<in> set sent. \<exists>t' \<le> resolveFakeTTL (ds_TTL da) t. raw4 h d [] t' q)"
proof -
  have l: "8 < length p" "p ! 8 = t" "ip_hdr_len p = Some h" using g by (auto simp: good4_def raw4_def)
  then have "dynamicTTL p False (ds_TTL da) = Some (resolveFakeTTL (ds_TTL da) t)" by (simp add: dynamicTTL_eq)
  from hf4.executed [OF g this, of rnd] show ?thesis
    using l(3) m low4 unfolding ExecuteDesyncIPv4_eq by fastforce
qed

lemma desync6:
  assumes g: "good6 d s data t p" and m: "ds_Mode da \<noteq> str ''off''"
  shows "\<exists>sent. ExecuteDesyncIPv6 da rnd p = Some sent \<and> length sent = attack_size True da \<and>
    (\<forall>q \<in> set sent. \<exists>t' \<le> resolveFakeTTL (ds_TTL da) t. raw6 d [] t' q)"
proof -
  have l: "8 < length p" "p ! 7 = t" using g by (auto simp: good6_def raw6_def)
  then have t: "dynamicTTL p True (ds_TTL da) = Some (resolveFakeTTL (ds_TTL da) t)" by (simp add: dynamicTTL_eq)
  have "hasPlainIPv6Header p 6 = Some True"
    using g upper_layer_tcp [of p] by (auto simp: hasPlainIPv6Header_def upperLayerOffsetV6_def good6_def raw6_def)
  then show ?thesis
    using hf6.executed [of 40 d s data t p da _ rnd, OF _ t] g m low6 unfolding ExecuteDesyncIPv6_eq by fastforce
qed

lemma post4:
  assumes g: "good4 h d s data t p"
  shows "\<exists>sent. sendPostDesyncRST c p h = Some sent \<and> length sent = 5 \<and> (\<forall>q \<in> set sent. \<exists>t' \<le> resolveFakeTTL c t. raw4 h d [] t' q)"
proof -
  have l: "8 < length p" "p ! 8 = t" using g by (auto simp: good4_def raw4_def)
  then have t: "dynamicTTL p False c = Some (resolveFakeTTL c t)" by (simp add: dynamicTTL_eq)
  obtain ak where r: "desync_reading p h = Some (Some (s, ak, d))" using hf4.reading [OF g] by blast
  have "\<forall>ft \<in> set (post_types n). list_all harmless (post_edits s ft) \<and> resolveFakeTTL c t \<le> resolveFakeTTL c t" for n
    by (simp add: post_edits_def harmless_def Let_def)
  from hf4.make_all [OF g this, of "length p - h - d"] show ?thesis
    using r t low4 by (fastforce simp: sendPostDesyncRST_def post_types_def)
qed

lemma post6:
  assumes g: "good6 d s data t p"
  shows "\<exists>sent. sendPostDesyncRSTv6 c p = Some sent \<and> length sent = 1 \<and> (\<forall>q \<in> set sent. \<exists>t' \<le> resolveFakeTTL c t. raw6 d [] t' q)"
proof -
  have l: "8 < length p" "p ! 7 = t" "\<not> length p < 60" using g by (auto simp: good6_def raw6_def)
  then have t: "dynamicTTL p True c = Some (resolveFakeTTL c t)" by (simp add: dynamicTTL_eq)
  have g': "40 = (40 :: nat) \<and> good6 d s data t p" using g by simp
  obtain ak where r: "desync_reading p 40 = Some (Some (s, ak, d))" using hf6.reading [OF g'] by blast
  define es :: "edit list" where "es = [(13, [0x14]), (4, put32 (unat (s + word_of_nat (length p - 40 - d))))]"
  have "list_all harmless es" by (simp add: es_def harmless_def)
  from hf6.make [OF g' this] obtain q where q: "desync_fake6 p 40 d es (resolveFakeTTL c t) = Some q" "shape6 d [] (resolveFakeTTL c t) q" by blast
  have "hasPlainIPv6Header p 6 = Some True"
    using g upper_layer_tcp [of p] by (auto simp: hasPlainIPv6Header_def upperLayerOffsetV6_def good6_def raw6_def)
  then have "sendPostDesyncRSTv6 c p = Some [q]" using l(3) r t q(1) by (simp add: sendPostDesyncRSTv6_def es_def)
  then show ?thesis using q(2) by (auto simp: shape6_def)
qed

lemma windows4:
  assumes g: "good4 h d s data t p"
  shows "\<exists>sent. ManipulateWindowIPv4 w r p = Some sent \<and> (\<forall>q \<in> set sent. tcp4_view q = Some (s, []) \<or> tcp4_view q = Some (s, data))"
proof -
  have l: "ip_hdr_len p = Some h" "tcp_hdr_len p h = Some d" "20 \<le> d" "h + d \<le> length p" using g by (auto simp: good4_def raw4_def)
  have v: "hf4.echo h d s data q \<Longrightarrow> tcp4_view q = Some (s, []) \<or> tcp4_view q = Some (s, data)" for q
    using good4_view unfolding hf4.echo_def by blast
  show ?thesis using hf4.windows [OF g, of w r] l v by (fastforce simp: ManipulateWindowIPv4_eq)
qed

lemma windows6:
  assumes g: "good6 d s data t p"
  shows "\<exists>sent. ManipulateWindowIPv6 w r p = Some sent \<and> (\<forall>q \<in> set sent. tcp6_view q = Some (s, []) \<or> tcp6_view q = Some (s, data))"
proof -
  have l: "tcp_hdr_len p 40 = Some d" "20 \<le> d" "40 + d \<le> length p" using g by (auto simp: good6_def raw6_def)
  have g': "40 = (40 :: nat) \<and> good6 d s data t p" using g by simp
  have v: "hf6.echo 40 d s data q \<Longrightarrow> tcp6_view q = Some (s, []) \<or> tcp6_view q = Some (s, data)" for q
    using good6_view unfolding hf6.echo_def by blast
  have "hasPlainIPv6Header p 6 = Some True"
    using g upper_layer_tcp [of p] by (auto simp: hasPlainIPv6Header_def upperLayerOffsetV6_def good6_def raw6_def)
  then show ?thesis using hf6.windows [OF g', of w r] l v by (fastforce simp: ManipulateWindowIPv6_eq)
qed

subsection \<open>Attacks that expire\<close>

text \<open>
  C23. The desync attacks before an intact segment of a client and the resets after it, over IPv4 and IPv6: as many packets as the
  attack has, each of them bare headers without data whose hop limit is at most the lowered one. So they reach the
  censor but not the server, whatever flags and sequence numbers they carry.
\<close>

theorem desync_packets_expire:
  "(good4 h d s data t p \<and> ds_Mode da \<noteq> str ''off'' \<longrightarrow>
      (\<exists>sent post. ExecuteDesyncIPv4 da rnd p = Some sent \<and> length sent = attack_size False da \<and>
         sendPostDesyncRST c p h = Some post \<and> length post = 5 \<and>
         (\<forall>q \<in> set sent. \<exists>t' \<le> resolveFakeTTL (ds_TTL da) t. raw4 h d [] t' q) \<and>
         (\<forall>q \<in> set post. \<exists>t' \<le> resolveFakeTTL c t. raw4 h d [] t' q))) \<and>
   (good6 d s data t p \<and> ds_Mode da \<noteq> str ''off'' \<longrightarrow>
      (\<exists>sent post. ExecuteDesyncIPv6 da rnd p = Some sent \<and> length sent = attack_size True da \<and>
         sendPostDesyncRSTv6 c p = Some post \<and> length post = 1 \<and>
         (\<forall>q \<in> set sent. \<exists>t' \<le> resolveFakeTTL (ds_TTL da) t. raw6 d [] t' q) \<and>
         (\<forall>q \<in> set post. \<exists>t' \<le> resolveFakeTTL c t. raw6 d [] t' q)))"
  using desync4 [of h d s data t p da rnd] post4 [of h d s data t p c] desync6 [of d s data t p da rnd] post6 [of d s data t p c] by blast

theorem desync_packets_expire_witness:
  "\<exists>sent post. ExecuteDesyncIPv4 \<lparr>ds_Mode = str ''rst'', ds_TTL = 3, ds_Count = 4, ds_PostDesync = True\<rparr> (\<lambda>_. 0) request4 = Some sent \<and>
    length sent = 4 \<and> sendPostDesyncRST 5 request4 20 = Some post \<and> (\<exists>t' \<le> 3. raw4 20 20 [] t' (hd sent)) \<and> (\<exists>t' \<le> 5. raw4 20 20 [] t' (hd post))"
proof -
  let ?d = "\<lparr>ds_Mode = str ''rst'', ds_TTL = 3, ds_Count = 4, ds_PostDesync = True\<rparr>"
  have t: "resolveFakeTTL (ds_TTL ?d) 64 = 3" "resolveFakeTTL 5 64 = 5" by (simp_all add: resolveFakeTTL_def fakeTTLOrDefault_def)
  have a: "attack_size False ?d = 4" "ds_Mode ?d \<noteq> str ''off''" by (simp_all add: attack_size_def str_def)
  from desync_packets_expire [of 20 20 100 request 64 request4 ?d "\<lambda>_. 0" 5] request4_good a obtain sent post where
    s: "ExecuteDesyncIPv4 ?d (\<lambda>_. 0) request4 = Some sent" "length sent = 4" "sendPostDesyncRST 5 request4 20 = Some post" "length post = 5"
      "\<forall>q \<in> set sent. \<exists>t' \<le> 3. raw4 20 20 [] t' q" "\<forall>q \<in> set post. \<exists>t' \<le> 5. raw4 20 20 [] t' q" unfolding t by auto
  then have "hd sent \<in> set sent" "hd post \<in> set post" by (cases sent; cases post; simp)+
  then show ?thesis using s by blast
qed

subsection \<open>The stream survives\<close>

text \<open>What the program does to the data itself.\<close>

definition changed :: "bytes \<Rightarrow> bytes \<Rightarrow> bool" where
  "changed data data' \<longleftrightarrow> (\<exists>x. eol_change data x \<and> same_hello x data')"

lemma same_hello_length: "same_hello data data' \<Longrightarrow> length data' = length data \<or> 2 \<le> length data'"
  unfolding same_hello_def is_hello_def by auto

lemma prepared4:
  assumes g: "good4 h d s data t p \<and> drop_bit 4 (p ! 0) = 4" and c: "0 \<le> GreaseCount cfg" "0 \<le> FakeExtCount cfg" and n: "2 \<le> length data"
  shows "\<exists>q0 q data'. applyHTTPMethodEOL L on p = Some q0 \<and>
    (if mut_Mode cfg \<noteq> str ''off'' then MutateClientHello cfg dr q0 else Some q0) = Some q \<and>
    (good4 h d s data' t q \<and> drop_bit 4 (q ! 0) = 4) \<and> length q \<le> max (length p) MaxTCPPacketSize \<and> changed data data' \<and> 2 \<le> length data'"
proof -
  have r: "ip_hdr_len p = Some h" "hello_start False p = Some (h + d)" "20 \<le> d" "length p = h + d + length data"
    using g hm4.payload_eq [OF g] by (auto simp: good4_def raw4_def)
  then have "payloadStartOf p = Some (Some (h + d))" using g n by (auto simp: payloadStartOf_def)
  from hm4.eol [OF g this, of L on] obtain q0 data0 where q0: "applyHTTPMethodEOL L on p = Some q0"
      "good4 h d s data0 t q0 \<and> drop_bit 4 (q0 ! 0) = 4" "eol_change data data0" "length data0 = length data" by blast
  have l0: "length q0 = length p" using hm4.payload_eq(3) [OF q0(2)] r(4) q0(4) by simp
  obtain b where b: "MutateClientHello cfg dr q0 = (if mut_Mode cfg \<noteq> str ''off'' \<and> b then mutate False cfg dr q0 else Some q0)"
    using mutate4_eq [OF q0(2), of cfg dr] by blast
  obtain q data' where q: "mutate False cfg dr q0 = Some q" "good4 h d s data' t q \<and> drop_bit 4 (q ! 0) = 4"
      "length q \<le> max (length q0) MaxTCPPacketSize" "same_hello data0 data'" using hm4.mutated [OF q0(2) c, of dr] by blast
  have s0: "same_hello data0 data0" by (simp add: same_hello_def)
  have "2 \<le> length data'" "2 \<le> length data0" using same_hello_length [OF q(4)] q0(4) n by auto
  moreover have "changed data data'" "changed data data0" using q0(3) q(4) s0 unfolding changed_def by blast+
  ultimately show ?thesis using q0(1,2) b q l0 by (cases "mut_Mode cfg \<noteq> str ''off'' \<and> b") auto
qed

lemma prepared6:
  assumes g: "good6 d s data t p" and c: "0 \<le> GreaseCount cfg" "0 \<le> FakeExtCount cfg" and n: "2 \<le> length data"
  shows "\<exists>q0 q data'. applyHTTPMethodEOL L on p = Some q0 \<and>
    (if mut_Mode cfg \<noteq> str ''off'' then MutateClientHelloV6 cfg dr q0 else Some q0) = Some q \<and>
    good6 d s data' t q \<and> length q \<le> max (length p) MaxTCPPacketSize \<and> changed data data' \<and> 2 \<le> length data'"
proof -
  have g6: "40 = (40 :: nat) \<and> good6 d s data t p" using g by simp
  have r: "hello_start True p = Some (40 + d)" "20 \<le> d" "length p = 40 + d + length data" "drop_bit 4 (p ! 0) = 6"
    using g hm6.payload_eq [OF g6] by (auto simp: good6_def raw6_def)
  then have "p \<noteq> []" "\<not> length p < 60" by auto
  with r have "payloadStartOf p = Some (Some (40 + d))" by (auto simp: payloadStartOf_def)
  from hm6.eol [OF g6 this, of L on] obtain q0 data0 where q0: "applyHTTPMethodEOL L on p = Some q0"
      "good6 d s data0 t q0" "eol_change data data0" "length data0 = length data" by blast
  have g0: "40 = (40 :: nat) \<and> good6 d s data0 t q0" using q0(2) by simp
  have l0: "length q0 = length p" using hm6.payload_eq(3) [OF g0] r(3) q0(4) by simp
  obtain b where b: "MutateClientHelloV6 cfg dr q0 = (if mut_Mode cfg \<noteq> str ''off'' \<and> b then mutate True cfg dr q0 else Some q0)"
    using mutate6_eq [OF q0(2), of cfg dr] by blast
  obtain q data' where q: "mutate True cfg dr q0 = Some q" "good6 d s data' t q"
      "length q \<le> max (length q0) MaxTCPPacketSize" "same_hello data0 data'" using hm6.mutated [OF g0 c, of dr] by blast
  have s0: "same_hello data0 data0" by (simp add: same_hello_def)
  have "2 \<le> length data'" "2 \<le> length data0" using same_hello_length [OF q(4)] q0(4) n by auto
  moreover have "changed data data'" "changed data data0" using q0(3) q(4) s0 unfolding changed_def by blast+
  ultimately show ?thesis using q0(1,2) b q l0 by (cases "mut_Mode cfg \<noteq> str ''off'' \<and> b") auto
qed

text \<open>
  What a set has to promise. The server is \<open>hops\<close> routers away from a client whose packets carry the hop limit \<open>t\<close>: the packets
  with a lowered hop limit expire before it, the fakes among them or spoilt by their checksum; no packet outgrows the lengths of
  IP; the strategy is one of those that split the TCP stream.
\<close>

definition fakes_on :: "InjectConfig \<Rightarrow> bool" where
  "fakes_on cfg \<longleftrightarrow> fk_SNI (ic_Faking cfg) \<and> SNISeqLength (ic_Faking cfg) > 0"

definition fakes_ok :: "golib \<Rightarrow> payloads \<Rightarrow> FakeSettings \<Rightarrow> fake_draws \<Rightarrow> nat \<Rightarrow> bool" where
  "fakes_ok L C fk dr n \<longleftrightarrow> (ApplyTTL fk \<or> fk_Strategy fk = str ''ttl'' \<or> fk_Strategy fk = str ''tcp_check'') \<and>
     length (rnd_random dr) = 32 \<and> length (rnd_md5 dr) = 16 \<and>
     (\<forall>x pl. length x \<le> n \<longrightarrow> fake_payload L C fk dr (Some x) = Some pl \<longrightarrow> length pl \<le> 65395)"

definition inject_ok :: "golib \<Rightarrow> payloads \<Rightarrow> InjectConfig \<Rightarrow> inject_draws \<Rightarrow> byte \<Rightarrow> nat \<Rightarrow> nat \<Rightarrow> bool" where
  "inject_ok L C cfg dr t hops n \<longleftrightarrow>
     hops < unat t \<and> unat (resolveFakeTTL (fk_TTL (ic_Faking cfg)) t) \<le> hops \<and> unat (oob_ttl (fk_TTL (ic_Faking cfg))) \<le> hops \<and>
     (ds_Mode (ic_Desync cfg) \<noteq> str ''off'' \<longrightarrow> unat (resolveFakeTTL (ds_TTL (ic_Desync cfg)) t) \<le> hops) \<and>
     (fakes_on cfg \<longrightarrow> fakes_ok L C (ic_Faking cfg) (dr_fake dr) n) \<and>
     0 \<le> GreaseCount (ic_SNIMutation cfg) \<and> 0 \<le> FakeExtCount (ic_SNIMutation cfg) \<and>
     chosen_strategy cfg dr \<noteq> str ''ip'' \<and> overlap_harmless (chosen_strategy cfg dr) (ic_Fragmentation cfg) n"

lemma overlap_harmless_mono: "overlap_harmless st fc n \<Longrightarrow> m \<le> n \<Longrightarrow> overlap_harmless st fc m"
  by (auto simp: overlap_harmless_def)

lemma silent_expired: "t' \<le> resolveFakeTTL c t \<Longrightarrow> ttl_of q = t' \<Longrightarrow> unat (resolveFakeTTL c t) \<le> hops \<Longrightarrow> silent view ttl_of hops s data q"
  by (auto simp: silent_def word_le_nat_alt)

lemma silent_echo: "view q = Some (s, []) \<or> view q = Some (s, data) \<Longrightarrow> length data \<le> 65535 \<Longrightarrow> silent view ttl_of hops s data q"
  using agrees_none [of s data s] agrees_whole [of data s] by (auto simp: silent_def)

lemma silent_fake:
  assumes "ttl_of q = fake_ttl fk t" "fake_bad fk os \<longrightarrow> view q = None" "fakes_ok L C fk dr n" "unat (resolveFakeTTL (fk_TTL fk) t) \<le> hops"
  shows "silent view ttl_of hops s data q"
  using assms by (auto simp: silent_def fakes_ok_def fake_ttl_def fake_bad_def)

lemma fakes_payload:
  assumes "fakes_ok L C fk dr n" "length data \<le> n"
  shows "\<exists>pl. fake_payload L C fk dr (Some data) = Some pl \<and> length pl \<le> 65395"
  using assms no_panic_fake_payload [of dr L C fk "Some data"] unfolding fakes_ok_def no_panic_def by blast

text \<open>
  What the pipeline needs of the parts of one IP version: changing the data keeps an intact segment; the desync attacks and
  the resets after the stream carry a lowered hop limit; the window attacks repeat the segment or its bare header; the fakes have
  the hop limit and the checksum of their strategy; the splitting delivers the data.
\<close>

locale inject_family =
  fixes good :: "nat \<Rightarrow> nat \<Rightarrow> 32 word \<Rightarrow> bytes \<Rightarrow> byte \<Rightarrow> bytes \<Rightarrow> bool"
    and view :: "bytes \<Rightarrow> (32 word \<times> bytes) option" and ttl_of :: "bytes \<Rightarrow> byte"
    and mutation :: "SNIMutationConfig \<Rightarrow> mut_draws \<Rightarrow> bytes \<Rightarrow> bytes option"
    and attack :: "DesyncConfig \<Rightarrow> (nat \<Rightarrow> 32 word) \<Rightarrow> bytes \<Rightarrow> bytes list option"
    and windows :: "WinConfig \<Rightarrow> (nat \<Rightarrow> nat) \<Rightarrow> bytes \<Rightarrow> bytes list option"
    and fakes :: "golib \<Rightarrow> payloads \<Rightarrow> FakeSettings \<Rightarrow> fake_draws \<Rightarrow> bytes \<Rightarrow> bytes list option"
    and strategy :: "FragmentationConfig \<Rightarrow> FakingConfig \<Rightarrow> bytes \<Rightarrow> draws \<Rightarrow> 32 word \<Rightarrow> gostr \<Rightarrow> bytes \<Rightarrow> bytes list option"
    and post :: "byte \<Rightarrow> bytes \<Rightarrow> nat \<Rightarrow> bytes list option"
  assumes sizes: "good h d s data t p \<Longrightarrow> length p = h + d + length data \<and> length p \<le> 65535 \<and> h + d \<le> 120"
    and prepared: "good h d s data t p \<Longrightarrow> 0 \<le> GreaseCount mc \<Longrightarrow> 0 \<le> FakeExtCount mc \<Longrightarrow> 2 \<le> length data \<Longrightarrow>
      \<exists>q0 q data'. applyHTTPMethodEOL L on p = Some q0 \<and> (if mut_Mode mc \<noteq> str ''off'' then mutation mc md q0 else Some q0) = Some q \<and>
        good h d s data' t q \<and> length q \<le> max (length p) MaxTCPPacketSize \<and> changed data data' \<and> 2 \<le> length data'"
    and attack_low: "good h d s data t p \<Longrightarrow> ds_Mode da \<noteq> str ''off'' \<Longrightarrow>
      \<exists>qs. attack da rnd p = Some qs \<and> (\<forall>q \<in> set qs. ttl_of q \<le> resolveFakeTTL (ds_TTL da) t)"
    and windows_echo: "good h d s data t p \<Longrightarrow>
      \<exists>qs. windows w r p = Some qs \<and> (\<forall>q \<in> set qs. view q = Some (s, []) \<or> view q = Some (s, data))"
    and fakes_sent: "good h d s data t p \<Longrightarrow> fk_SNI fk \<Longrightarrow> 0 < SNISeqLength fk \<Longrightarrow> length (rnd_random fd) = 32 \<Longrightarrow> length (rnd_md5 fd) = 16 \<Longrightarrow>
      data \<noteq> [] \<Longrightarrow> fake_payload L C fk fd (Some data) = Some pl \<Longrightarrow> h + d + 20 + length pl \<le> 65535 \<Longrightarrow>
      \<exists>qs. fakes L C fk fd p = Some qs \<and> (\<forall>q \<in> set qs. ttl_of q = fake_ttl fk t \<and> (fake_bad fk (tcp_options h d p) \<longrightarrow> view q = None))"
    and split_reaches: "good h d s data t p \<Longrightarrow> length data \<noteq> 1 \<Longrightarrow> st \<noteq> str ''ip'' \<Longrightarrow> unat (resolveFakeTTL (FakeTTL fc) t) \<le> hops \<Longrightarrow>
      unat (oob_ttl (FakeTTL fc)) \<le> hops \<Longrightarrow> hops < unat t \<Longrightarrow> overlap_harmless st frag (h + d + length data) \<Longrightarrow>
      \<exists>sent. strategy frag fc blob sd ident st p = Some sent \<and> reaches view ttl_of hops s data sent"
    and post_low: "good h d s data t p \<Longrightarrow> \<exists>qs. post c p h = Some qs \<and> (\<forall>q \<in> set qs. ttl_of q \<le> resolveFakeTTL c t)"
begin

lemma quiet_packets:
  assumes g: "good h d s data t p" and n: "length p \<le> n" "2 \<le> length data" and ok: "inject_ok L C cfg dr t hops n"
  shows "\<exists>qs. (if ds_Mode (ic_Desync cfg) \<noteq> str ''off'' then attack (ic_Desync cfg) rnd p else Some []) = Some qs \<and>
      (\<forall>q \<in> set qs. silent view ttl_of hops s data q)"
    and "\<exists>qs. (if win_Mode w \<noteq> str ''off'' then windows w r p else Some []) = Some qs \<and> (\<forall>q \<in> set qs. silent view ttl_of hops s data q)"
    and "\<exists>qs. (if fakes_on cfg then fakes L C (ic_Faking cfg) (dr_fake dr) p else Some []) = Some qs \<and>
      (\<forall>q \<in> set qs. silent view ttl_of hops s data q)"
    and "\<exists>qs. (if on then post (fk_TTL (ic_Faking cfg)) p h else Some []) = Some qs \<and> (\<forall>q \<in> set qs. silent view ttl_of hops s data q)"
proof -
  have z: "length p = h + d + length data" "length p \<le> 65535" "h + d \<le> 120" using sizes [OF g] by auto
  have o: "unat (resolveFakeTTL (fk_TTL (ic_Faking cfg)) t) \<le> hops"
      "ds_Mode (ic_Desync cfg) \<noteq> str ''off'' \<Longrightarrow> unat (resolveFakeTTL (ds_TTL (ic_Desync cfg)) t) \<le> hops"
      "fakes_on cfg \<Longrightarrow> fakes_ok L C (ic_Faking cfg) (dr_fake dr) n" using ok by (auto simp: inject_ok_def)
  show "\<exists>qs. (if ds_Mode (ic_Desync cfg) \<noteq> str ''off'' then attack (ic_Desync cfg) rnd p else Some []) = Some qs \<and>
      (\<forall>q \<in> set qs. silent view ttl_of hops s data q)"
    using attack_low [OF g, of "ic_Desync cfg" rnd] o(2) by (auto intro: silent_expired)
  show "\<exists>qs. (if win_Mode w \<noteq> str ''off'' then windows w r p else Some []) = Some qs \<and> (\<forall>q \<in> set qs. silent view ttl_of hops s data q)"
    using windows_echo [OF g, of w r] z(1,2) by (auto intro!: silent_echo)
  show "\<exists>qs. (if on then post (fk_TTL (ic_Faking cfg)) p h else Some []) = Some qs \<and> (\<forall>q \<in> set qs. silent view ttl_of hops s data q)"
    using post_low [OF g, of "fk_TTL (ic_Faking cfg)"] o(1) by (auto intro: silent_expired)
  show "\<exists>qs. (if fakes_on cfg then fakes L C (ic_Faking cfg) (dr_fake dr) p else Some []) = Some qs \<and>
      (\<forall>q \<in> set qs. silent view ttl_of hops s data q)"
  proof (cases "fakes_on cfg")
    case True
    note f = o(3) [OF True]
    have ne: "data \<noteq> []" using n(2) by auto
    obtain pl where pl: "fake_payload L C (ic_Faking cfg) (dr_fake dr) (Some data) = Some pl" "length pl \<le> 65395"
      using fakes_payload [OF f, of data] z(1) n(1) by auto
    then obtain qs where qs: "fakes L C (ic_Faking cfg) (dr_fake dr) p = Some qs"
        "\<forall>q \<in> set qs. ttl_of q = fake_ttl (ic_Faking cfg) t \<and> (fake_bad (ic_Faking cfg) (tcp_options h d p) \<longrightarrow> view q = None)"
      using fakes_sent [OF g, of "ic_Faking cfg" "dr_fake dr" L C pl] f True ne z(3) by (auto simp: fakes_on_def fakes_ok_def)
    then have "\<forall>q \<in> set qs. silent view ttl_of hops s data q"
      using silent_fake [OF _ _ f o(1), of ttl_of _ "tcp_options h d p" view] by blast
    then show ?thesis using True qs(1) by auto
  qed auto
qed

lemma survives:
  assumes g: "good h d s data t p" and n: "2 \<le> length data" and ok: "inject_ok L C cfg dr t hops (max (length p) MaxTCPPacketSize)"
  shows "\<exists>sent data'. do {
      raw \<leftarrow> applyHTTPMethodEOL L (ic_HTTPMethodEOL cfg) p;
      raw \<leftarrow> (if mut_Mode (ic_SNIMutation cfg) \<noteq> str ''off'' then mutation (ic_SNIMutation cfg) (dr_mutation dr) raw else Some raw);
      desync \<leftarrow> (if ds_Mode (ic_Desync cfg) \<noteq> str ''off'' then attack (ic_Desync cfg) (dr_desync dr) raw else Some []);
      ws \<leftarrow> (if win_Mode (ic_Win cfg) \<noteq> str ''off'' then windows (ic_Win cfg) (dr_window dr) raw else Some []);
      fs \<leftarrow> (if fakes_on cfg then fakes L C (ic_Faking cfg) (dr_fake dr) raw else Some []);
      sent \<leftarrow> strategy (ic_Fragmentation cfg) (strategy_faking (ic_Faking cfg)) blob (dr_send dr) (dr_ident dr) (chosen_strategy cfg dr) raw;
      ps \<leftarrow> (if ds_PostDesync (ic_Desync cfg) then post (fk_TTL (ic_Faking cfg)) raw h else Some []);
      Some (desync @ ws @ fs @ sent @ ps) } = Some sent \<and>
    changed data data' \<and> delivers s data' (arriving view ttl_of hops sent)"
proof -
  define n where "n = max (length p) MaxTCPPacketSize"
  have c: "0 \<le> GreaseCount (ic_SNIMutation cfg)" "0 \<le> FakeExtCount (ic_SNIMutation cfg)" using ok by (auto simp: inject_ok_def)
  from prepared [OF g c n, of L "ic_HTTPMethodEOL cfg" "dr_mutation dr"] obtain q0 q data' where
    q: "applyHTTPMethodEOL L (ic_HTTPMethodEOL cfg) p = Some q0"
      "(if mut_Mode (ic_SNIMutation cfg) \<noteq> str ''off'' then mutation (ic_SNIMutation cfg) (dr_mutation dr) q0 else Some q0) = Some q"
      "good h d s data' t q" "length q \<le> n" "changed data data'" "2 \<le> length data'" unfolding n_def by blast
  note ok' = ok [folded n_def] and around = quiet_packets [OF q(3,4,6) ok [folded n_def]]
  obtain ds where ds: "(if ds_Mode (ic_Desync cfg) \<noteq> str ''off'' then attack (ic_Desync cfg) (dr_desync dr) q else Some []) = Some ds"
      "\<forall>x \<in> set ds. silent view ttl_of hops s data' x" using around(1) by blast
  obtain ws where ws: "(if win_Mode (ic_Win cfg) \<noteq> str ''off'' then windows (ic_Win cfg) (dr_window dr) q else Some []) = Some ws"
      "\<forall>x \<in> set ws. silent view ttl_of hops s data' x" using around(2) by blast
  obtain fs where fs: "(if fakes_on cfg then fakes L C (ic_Faking cfg) (dr_fake dr) q else Some []) = Some fs"
      "\<forall>x \<in> set fs. silent view ttl_of hops s data' x" using around(3) by blast
  obtain ps where ps: "(if ds_PostDesync (ic_Desync cfg) then post (fk_TTL (ic_Faking cfg)) q h else Some []) = Some ps"
      "\<forall>x \<in> set ps. silent view ttl_of hops s data' x" using around(4) by blast
  have o: "overlap_harmless (chosen_strategy cfg dr) (ic_Fragmentation cfg) (h + d + length data')"
    using ok' q(4) sizes [OF q(3)] overlap_harmless_mono [of _ _ n] by (auto simp: inject_ok_def)
  obtain ss where ss: "reaches view ttl_of hops s data' ss"
      "strategy (ic_Fragmentation cfg) (strategy_faking (ic_Faking cfg)) blob (dr_send dr) (dr_ident dr) (chosen_strategy cfg dr) q = Some ss"
    using split_reaches [OF q(3) _ _ _ _ _ o, of "strategy_faking (ic_Faking cfg)" hops blob "dr_send dr" "dr_ident dr"] q(6) ok'
    by (auto simp: inject_ok_def strategy_faking_def)
  have "delivers s data' (arriving view ttl_of hops ((ds @ ws @ fs) @ ss @ ps))"
    by (rule delivers_among [OF ss(1)]) (use ds(2) ws(2) fs(2) ps(2) in auto)
  then show ?thesis using q(5) by (intro exI [of _ "ds @ ws @ fs @ ss @ ps"] exI [of _ data']) (simp add: q(1,2) ds(1) ws(1) fs(1) ps(1) ss(2))
qed

end

interpretation in4: inject_family "\<lambda>h d s data t p. good4 h d s data t p \<and> drop_bit 4 (p ! 0) = 4" tcp4_view "\<lambda>q. q ! 8"
  MutateClientHello ExecuteDesyncIPv4 ManipulateWindowIPv4 sendFakeSNISequence
  "\<lambda>frag fc blob sd ident. send_strategy4 frag fc blob sd" sendPostDesyncRST
proof (unfold_locales, goal_cases)
  case (1 h d s data t p)
  then show ?case using hm4.payload_eq(3) [OF 1] hm4.parts [OF 1] by auto
next
  case (2 h d s data t p mc L on md)
  then show ?case using prepared4 [of h d s data t p mc L on md] by blast
next
  case (3 h d s data t p da rnd)
  then show ?case using desync4 [of h d s data t p da rnd] by (fastforce simp: raw4_def)
next
  case (4 h d s data t p w r)
  then show ?case using windows4 [of h d s data t p w r] by blast
next
  case (5 h d s data t p fk fd L C pl)
  then show ?case using fake_sequence4_sent [of h d s data t p fk fd L C pl] by (auto simp: list_all_iff)
next
  case (6 h d s data t p st fc hops frag blob sd ident)
  then have "dynamicTTL p False (FakeTTL fc) = Some (resolveFakeTTL (FakeTTL fc) t)"
    using dynamicTTL_eq [of p False] by (auto simp: good4_def raw4_def)
  then show ?case using 6 strategy4_reaches [of h d s data t p st fc _ hops frag blob sd] by blast
next
  case (7 h d s data t p c)
  then show ?case using post4 [of h d s data t p c] by (fastforce simp: raw4_def)
qed

interpretation in6: inject_family "\<lambda>h d s data t p. h = 40 \<and> good6 d s data t p" tcp6_view "\<lambda>q. q ! 7"
  MutateClientHelloV6 ExecuteDesyncIPv6 ManipulateWindowIPv6 sendFakeSNISequencev6 send_strategy6 "\<lambda>c p h. sendPostDesyncRSTv6 c p"
proof (unfold_locales, goal_cases)
  case (1 h d s data t p)
  then show ?case using hm6.payload_eq(3) [OF 1] hm6.parts [OF 1] by auto
next
  case (2 h d s data t p mc L on md)
  then show ?case using prepared6 [of d s data t p mc L on md] by blast
next
  case (3 h d s data t p da rnd)
  then show ?case using desync6 [of d s data t p da rnd] by (fastforce simp: raw6_def)
next
  case (4 h d s data t p w r)
  then show ?case using windows6 [of d s data t p w r] by blast
next
  case (5 h d s data t p fk fd L C pl)
  then show ?case using fake_sequence6_sent [of d s data t p fk fd L C pl] by (auto simp: list_all_iff)
next
  case (6 h d s data t p st fc hops frag blob sd ident)
  then have "dynamicTTL p True (FakeTTL fc) = Some (resolveFakeTTL (FakeTTL fc) t)"
    using dynamicTTL_eq [of p True] by (auto simp: good6_def raw6_def)
  then show ?case using 6 strategy6_reaches [of d s data t p st fc _ hops frag blob sd ident] by blast
next
  case (7 h d s data t p c)
  then show ?case using post6 [of d s data t p c] by (fastforce simp: raw6_def)
qed



text \<open>A set with everything switched on, for the examples.\<close>

definition all_on :: InjectConfig where
  "all_on = \<lparr>ic_Fragmentation = plain_frag, ic_Faking = some_fakes (str ''pastseq''),
     ic_SNIMutation = \<lparr>mut_Mode = str ''grease'', GreaseCount = 2, PaddingSize = 0, FakeExtCount = 0, FakeSNIs = []\<rparr>, ic_HTTPMethodEOL = True,
     ic_Desync = \<lparr>ds_Mode = str ''combo'', ds_TTL = 3, ds_Count = 2, ds_PostDesync = True\<rparr>, ic_Win = \<lparr>win_Mode = str ''oscillate'', win_Values = []\<rparr>\<rparr>"

definition all_draws :: inject_draws where
  "all_draws = \<lparr>dr_send = some_draws, dr_fake = some_fake_draws, dr_decoy = [], dr_mutation = zero_draws, dr_desync = (\<lambda>_. 7),
     dr_window = (\<lambda>_. 3), dr_ident = 1\<rparr>"

lemma all_on_ok: "inject_ok L C all_on all_draws 64 8 1460"
proof -
  have f: "fake_payload L C (some_fakes st) some_fake_draws (Some x) = Some [22, 3, 1]" for st x
    by (simp add: fake_payload_def some_fakes_def some_fake_draws_def GetPayload_def MatchPayloadLength_def str_def)
  have st: "chosen_strategy all_on all_draws = str ''combo''"
    by (simp add: chosen_strategy_def all_on_def all_draws_def plain_frag_def some_draws_def ResolveStrategyPool_def)
  have t: "resolveFakeTTL 5 64 = 5" "resolveFakeTTL 3 64 = 3" "oob_ttl 5 = 5" by (simp_all add: resolveFakeTTL_def fakeTTLOrDefault_def oob_ttl_def)
  have k: "fakes_ok L C (ic_Faking all_on) (dr_fake all_draws) 1460"
    unfolding fakes_ok_def all_on_def all_draws_def InjectConfig.simps inject_draws.simps f
    by (simp add: some_fakes_def some_fake_draws_def)
  have fd: "fk_TTL (ic_Faking all_on) = 5" "ds_TTL (ic_Desync all_on) = 3" "GreaseCount (ic_SNIMutation all_on) = 2"
      "FakeExtCount (ic_SNIMutation all_on) = 0" "ic_Fragmentation all_on = plain_frag" by (simp_all add: all_on_def some_fakes_def)
  show ?thesis unfolding inject_ok_def fd t st using k by (simp add: overlap_harmless_def plain_frag_def str_def)
qed



end
