(* ===== verification/Dns_Message.thy ===== *)
theory Dns_Message
  imports Go_Strings Ip_Checksum
begin

text \<open>
  DNS messages (\<^verbatim>\<open>src/dns/dns.go\<close>, \<^verbatim>\<open>answer.go\<close>, \<^verbatim>\<open>query.go\<close>): reading queries and answers, building
  queries and replies, and dropping addresses from an answer. An outer \<^const>\<open>None\<close> is a panic, an inner one
  the code's \<^verbatim>\<open>false\<close> or \<^verbatim>\<open>nil\<close>. An address is its bytes, as in \<^verbatim>\<open>net.IP\<close>.
\<close>

subsection \<open>Names\<close>

function query_labels :: "bytes \<Rightarrow> nat \<Rightarrow> nat \<Rightarrow> gostr \<Rightarrow> gostr option option" where
  "query_labels payload pos encoded domain =
     (if pos < length payload then do {
        l \<leftarrow> at_nat payload pos;
        if l = 0 then Some (if domain = [] \<or> pos + 5 > length payload then None else Some domain)
        else if l > 63 \<or> pos + 1 + l > length payload then Some None
        else if encoded + (1 + l) > 255 then Some None
        else do {
          label \<leftarrow> sub_bytes payload (pos + 1) (pos + 1 + l);
          query_labels payload (pos + (1 + l)) (encoded + (1 + l))
            ((if domain \<noteq> [] then domain @ [46] else domain) @ label) } }
      else Some None)"
  by pat_completeness auto
termination
  by (relation "measure (\<lambda>(payload, pos, encoded, domain). length payload - pos)") auto

declare query_labels.simps [simp del]

definition ParseQueryDomain :: "bytes \<Rightarrow> gostr option option" where
  "ParseQueryDomain payload =
     (if length payload < 12 then Some None
      else do {
        qd \<leftarrow> be16 payload 4;
        if qd = 0 then Some None else query_labels payload 12 1 [] })"

definition nameByteUnsafe :: "byte \<Rightarrow> bool" where
  "nameByteUnsafe c \<longleftrightarrow> c < 0x20 \<or> c = 0x7f"

definition hexDigits :: gostr where
  "hexDigits = str ''0123456789abcdef''"

definition SafeName :: "gostr \<Rightarrow> gostr" where
  "SafeName name =
     (if list_all (\<lambda>c. \<not> nameByteUnsafe c) name then name
      else takeWhile (\<lambda>c. \<not> nameByteUnsafe c) name @
        concat (map (\<lambda>c. if nameByteUnsafe c
                         then [92, 120, hexDigits ! unat (drop_bit 4 c), hexDigits ! unat (c AND 0x0f)] else [c])
          (dropWhile (\<lambda>c. \<not> nameByteUnsafe c) name)))"

definition ParseTransactionID :: "bytes \<Rightarrow> nat option option" where
  "ParseTransactionID payload = (if length payload < 2 then Some None else map_option Some (be16 payload 0))"

definition ResponseRcode :: "bytes \<Rightarrow> byte option option" where
  "ResponseRcode payload =
     (if length payload < 12 then Some None else do { b \<leftarrow> at payload 3; Some (Some (b AND 0x0F)) })"

text \<open>The offset after a name: the end of its labels or of the first compression pointer.\<close>

function skip_loop :: "bytes \<Rightarrow> nat \<Rightarrow> nat \<Rightarrow> bool \<Rightarrow> nat \<Rightarrow> nat option option" where
  "skip_loop payload pos jumps jumped next =
     (if pos \<ge> length payload then Some None
      else do {
        l \<leftarrow> at payload pos;
        if l = 0 then Some (Some (if \<not> jumped then pos + 1 else next))
        else if l AND 0xC0 = 0xC0 then
          if pos + 1 \<ge> length payload then Some None
          else do {
            w \<leftarrow> be16 payload pos;
            let ptr = w mod 16384;
            if ptr \<ge> length payload then Some None
            else if jumps + 1 > 16 then Some None
            else skip_loop payload ptr (jumps + 1) True (if \<not> jumped then pos + 2 else next) }
        else if pos + 1 + unat l > length payload then Some None
        else skip_loop payload (pos + 1 + unat l) jumps jumped (if \<not> jumped then pos + 1 + unat l else next) })"
  by pat_completeness auto
termination
  by (relation "measures [\<lambda>(payload, pos, jumps, jumped, nxt). 16 - jumps, \<lambda>(payload, pos, jumps, jumped, nxt). length payload - pos]") auto

declare skip_loop.simps [simp del]

definition skipDNSName :: "bytes \<Rightarrow> nat \<Rightarrow> nat option option" where
  "skipDNSName payload start =
     (if start \<ge> length payload then Some None else skip_loop payload start 0 False start)"

function read_labels :: "bytes \<Rightarrow> nat \<Rightarrow> nat \<Rightarrow> gostr list \<Rightarrow> gostr list option option" where
  "read_labels payload pos jumps labels =
     (if pos \<ge> length payload then Some None
      else do {
        l \<leftarrow> at payload pos;
        if l = 0 then Some (Some labels)
        else if l AND 0xC0 = 0xC0 then
          if pos + 1 \<ge> length payload then Some None
          else do {
            w \<leftarrow> be16 payload pos;
            let ptr = w mod 16384;
            if ptr \<ge> length payload then Some None
            else if jumps + 1 > 16 then Some None
            else read_labels payload ptr (jumps + 1) labels }
        else if pos + 1 + unat l > length payload then Some None
        else do {
          label \<leftarrow> sub_bytes payload (pos + 1) (pos + 1 + unat l);
          read_labels payload (pos + 1 + unat l) jumps (labels @ [label]) } })"
  by pat_completeness auto
termination
  by (relation "measures [\<lambda>(payload, pos, jumps, ls). 16 - jumps, \<lambda>(payload, pos, jumps, ls). length payload - pos]") auto

declare read_labels.simps [simp del]

definition readName :: "bytes \<Rightarrow> nat \<Rightarrow> (gostr \<times> nat) option option" where
  "readName payload offset = do {
     r \<leftarrow> skipDNSName payload offset;
     case r of
       None \<Rightarrow> Some None
     | Some next \<Rightarrow> do {
         ls \<leftarrow> read_labels payload offset 0 [];
         Some (map_option (\<lambda>ls. (join_byte ls 46, next)) ls) } }"

definition encode_label :: "gostr \<Rightarrow> bytes" where
  "encode_label label = word_of_nat (length label) # label"

definition encodeName :: "gostr \<Rightarrow> bytes" where
  "encodeName name =
     (let name = trim_suffix name [46] in
      if name = [] then [0]
      else concat (map encode_label (filter (\<lambda>l. l \<noteq> [] \<and> length l \<le> 63) (split_byte name 46))) @ [0])"

subsection \<open>Replies without addresses\<close>

text \<open>The end of the only question a reply repeats.\<close>

definition question_end :: "bytes \<Rightarrow> nat option option" where
  "question_end msg = do {
     r \<leftarrow> skipDNSName msg 12;
     Some (case r of None \<Rightarrow> None | Some qend \<Rightarrow> if qend + 4 > length msg then None else Some (qend + 4)) }"

definition BuildBlockResponse :: "bytes \<Rightarrow> bytes option option" where
  "BuildBlockResponse query =
     (if length query < 12 then Some None
      else do {
        q \<leftarrow> question_end query;
        case q of
          None \<Rightarrow> Some None
        | Some questionEnd \<Rightarrow> do {
            resp \<leftarrow> sub_bytes query 0 questionEnd;
            b \<leftarrow> at query 2;
            resp \<leftarrow> put_at resp 2 [0x80 OR (b AND 0x79)];
            resp \<leftarrow> put_at resp 3 [0x83];
            resp \<leftarrow> put_at resp 4 (put16 1);
            resp \<leftarrow> put_at resp 6 (put16 0);
            resp \<leftarrow> put_at resp 8 (put16 0);
            resp \<leftarrow> put_at resp 10 (put16 0);
            Some (Some resp) } })"

definition BuildServfailResponse :: "bytes \<Rightarrow> bytes option option" where
  "BuildServfailResponse query = do {
     r \<leftarrow> BuildBlockResponse query;
     case r of
       None \<Rightarrow> Some None
     | Some resp \<Rightarrow> do {
         b \<leftarrow> at resp 3;
         resp \<leftarrow> put_at resp 3 [(b AND 0xF0) OR 0x02];
         Some (Some resp) } }"

definition BuildEmptyAnswer :: "bytes \<Rightarrow> bytes option option" where
  "BuildEmptyAnswer msg =
     (if length msg < 12 then Some None
      else do {
        qd \<leftarrow> be16 msg 4;
        if qd \<noteq> 1 then Some None
        else do {
          q \<leftarrow> question_end msg;
          case q of
            None \<Rightarrow> Some None
          | Some questionEnd \<Rightarrow> do {
              out \<leftarrow> sub_bytes msg 0 questionEnd;
              b \<leftarrow> at msg 2;
              out \<leftarrow> put_at out 2 [0x80 OR (b AND 0x79)];
              out \<leftarrow> put_at out 3 [0x80];
              out \<leftarrow> put_at out 4 (put16 1);
              out \<leftarrow> put_at out 6 (put16 0);
              out \<leftarrow> put_at out 8 (put16 0);
              out \<leftarrow> put_at out 10 (put16 0);
              Some (Some out) } } })"

definition QuestionType :: "bytes \<Rightarrow> nat option option" where
  "QuestionType payload =
     (if length payload < 12 then Some None
      else do {
        qd \<leftarrow> be16 payload 4;
        if qd \<noteq> 1 then Some None
        else do {
          q \<leftarrow> question_end payload;
          case q of None \<Rightarrow> Some None | Some e \<Rightarrow> map_option Some (be16 payload (e - 4)) } })"

subsection \<open>Reading answers\<close>

fun skip_questions :: "bytes \<Rightarrow> nat \<Rightarrow> nat \<Rightarrow> nat option option" where
  "skip_questions payload 0 offset = Some (Some offset)"
| "skip_questions payload (Suc n) offset = do {
     r \<leftarrow> skipDNSName payload offset;
     case r of
       None \<Rightarrow> Some None
     | Some next \<Rightarrow> if next + 4 > length payload then Some None else skip_questions payload n (next + 4) }"

text \<open>The fixed part of a record and its data; \<^const>\<open>None\<close> ends the loops of the readers.\<close>

definition rr_at :: "bytes \<Rightarrow> nat \<Rightarrow> (nat \<times> nat \<times> nat) option option" where
  "rr_at payload offset = do {
     r \<leftarrow> skipDNSName payload offset;
     case r of
       None \<Rightarrow> Some None
     | Some next \<Rightarrow>
         if next + 10 > length payload then Some None
         else do {
           typ \<leftarrow> be16 payload next;
           rdLen \<leftarrow> be16 payload (next + 8);
           Some (if next + 10 + rdLen > length payload then None else Some (typ, next + 10, rdLen)) } }"

fun answer_ips :: "bytes \<Rightarrow> nat \<Rightarrow> nat \<Rightarrow> bytes list option" where
  "answer_ips payload 0 offset = Some []"
| "answer_ips payload (Suc n) offset = do {
     r \<leftarrow> rr_at payload offset;
     case r of
       None \<Rightarrow> Some []
     | Some (typ, start, rdLen) \<Rightarrow> do {
         ip \<leftarrow> sub_bytes payload start (start + rdLen);
         ips \<leftarrow> answer_ips payload n (start + rdLen);
         Some ((if typ = 1 \<and> rdLen = 4 \<or> typ = 28 \<and> rdLen = 16 then [ip] else []) @ ips) } }"

definition ParseResponseIPs :: "bytes \<Rightarrow> bytes list option" where
  "ParseResponseIPs payload =
     (if length payload < 12 then Some []
      else do {
        qd \<leftarrow> be16 payload 4;
        an \<leftarrow> be16 payload 6;
        if an = 0 then Some []
        else do {
          q \<leftarrow> skip_questions payload qd 12;
          case q of None \<Rightarrow> Some [] | Some offset \<Rightarrow> answer_ips payload an offset } })"

function txt_chunks :: "bytes \<Rightarrow> nat \<Rightarrow> nat \<Rightarrow> gostr \<Rightarrow> gostr option" where
  "txt_chunks payload p e txt =
     (if p < e then do {
        l \<leftarrow> at_nat payload p;
        if p + 1 + l > e then Some txt
        else do {
          chunk \<leftarrow> sub_bytes payload (p + 1) (p + 1 + l);
          txt_chunks payload (p + 1 + l) e (txt @ chunk) } }
      else Some txt)"
  by pat_completeness auto
termination
  by (relation "measure (\<lambda>(payload, p, e, txt). e - p)") auto

declare txt_chunks.simps [simp del]

fun answer_txts :: "bytes \<Rightarrow> nat \<Rightarrow> nat \<Rightarrow> gostr list option" where
  "answer_txts payload 0 offset = Some []"
| "answer_txts payload (Suc n) offset = do {
     r \<leftarrow> rr_at payload offset;
     case r of
       None \<Rightarrow> Some []
     | Some (typ, start, rdLen) \<Rightarrow> do {
         t \<leftarrow> (if typ = 16 then map_option (\<lambda>t. [t]) (txt_chunks payload start (start + rdLen) []) else Some []);
         ts \<leftarrow> answer_txts payload n (start + rdLen);
         Some (t @ ts) } }"

definition ParseResponseTXT :: "bytes \<Rightarrow> gostr list option" where
  "ParseResponseTXT payload =
     (if length payload < 12 then Some []
      else do {
        qd \<leftarrow> be16 payload 4;
        an \<leftarrow> be16 payload 6;
        if an = 0 then Some []
        else do {
          q \<leftarrow> skip_questions payload qd 12;
          case q of None \<Rightarrow> Some [] | Some offset \<Rightarrow> answer_txts payload an offset } })"

end
