(* ===== verification/Dns_Answer.thy ===== *)
theory Dns_Answer
  imports Dns_Message
begin

text \<open>
  Building queries and answers and dropping addresses from an answer (\<^verbatim>\<open>src/dns/answer.go\<close>, \<^verbatim>\<open>query.go\<close>).
  The dropped answer is written anew, with its own name compression.
\<close>

subsection \<open>Queries\<close>

definition BuildQuery :: "gostr \<Rightarrow> nat \<Rightarrow> nat \<Rightarrow> bytes" where
  "BuildQuery domain txid qtype =
     (let domain = trim_suffix (trim_space domain) [46];
          labels = (if domain \<noteq> [] then filter (\<lambda>l. l \<noteq> []) (split_byte domain 46) else [])
      in (put16 txid @ put16 0x0100 @ put16 1 @ put16 0 @ put16 0 @ put16 0) @
         concat (map (\<lambda>l. encode_label (take 63 l)) labels) @ [0] @ put16 qtype @ put16 1)"

definition BuildAQuery :: "gostr \<Rightarrow> nat \<Rightarrow> bytes" where
  "BuildAQuery domain txid = BuildQuery domain txid 1"

text \<open>\<^verbatim>\<open>net.IP.To4\<close>, \<^verbatim>\<open>net.IP.To16\<close> and \<^verbatim>\<open>net.IPMask.Size\<close>.\<close>

definition to4 :: "bytes \<Rightarrow> bytes option" where
  "to4 ip =
     (if length ip = 4 then Some ip
      else if length ip = 16 \<and> take 12 ip = replicate 10 0 @ [0xFF, 0xFF] then Some (drop 12 ip)
      else None)"

definition to16 :: "bytes \<Rightarrow> bytes option" where
  "to16 ip =
     (if length ip = 4 then Some (replicate 10 0 @ [0xFF, 0xFF] @ ip)
      else if length ip = 16 then Some ip else None)"

definition byte_ones :: "byte \<Rightarrow> nat option" where
  "byte_ones b = List.find (\<lambda>n. b = NOT (word_of_nat (2 ^ (8 - n) - 1))) [0..<9]"

definition mask_size :: "bytes \<Rightarrow> nat \<times> nat" where
  "mask_size m =
     (let full = takeWhile (\<lambda>b. b = 0xFF) m; rest = drop (length full) m in
      case rest of
        [] \<Rightarrow> (8 * length m, 8 * length m)
      | b # bs \<Rightarrow>
          (case byte_ones b of
             Some n \<Rightarrow> if list_all (\<lambda>b. b = 0) bs then (8 * length full + n, 8 * length m) else (0, 0)
           | None \<Rightarrow> (0, 0)))"

definition BuildQueryWithECS :: "gostr \<Rightarrow> nat \<Rightarrow> nat \<Rightarrow> bytes \<Rightarrow> bytes \<Rightarrow> bytes option" where
  "BuildQueryWithECS domain txid qtype subnet_ip subnet_mask =
     (let query = BuildQuery domain txid qtype in
      case (case to4 subnet_ip of Some a \<Rightarrow> Some (1, a) | None \<Rightarrow> map_option (\<lambda>a. (2, a)) (to16 subnet_ip)) of
        None \<Rightarrow> Some query
      | Some (family, addr) \<Rightarrow> do {
          let (prefix, bits) = mask_size subnet_mask;
          let prefix = (if bits = 0 \<or> prefix > length addr * 8 then length addr * 8 else prefix);
          let addrLen = (prefix + 7) div 8;
          a \<leftarrow> sub_bytes addr 0 addrLen;
          let rdata = put16 8 @ put16 (4 + addrLen) @ put16 family @ [word_of_nat prefix, 0] @ a;
          let opt = [0] @ put16 41 @ put16 1232 @ [0, 0, 0, 0] @ put16 (length rdata) @ rdata;
          put_at (query @ opt) 10 (put16 1) })"

subsection \<open>An answer with given addresses\<close>

definition answer_record :: "nat \<Rightarrow> nat \<Rightarrow> bytes \<Rightarrow> bytes" where
  "answer_record qtype ttl rdata =
     [0xC0, 0x0C] @ (put16 qtype @ put16 1 @ put32 ttl @ put16 (length rdata)) @ rdata"

definition address_rdata :: "nat \<Rightarrow> bytes \<Rightarrow> bytes option" where
  "address_rdata qtype ip =
     (case to4 ip of
        Some a \<Rightarrow> if qtype = 1 then Some a else None
      | None \<Rightarrow> (case to16 ip of Some a \<Rightarrow> if qtype = 28 then Some a else None | None \<Rightarrow> None))"

definition BuildAnswerFromIPs :: "bytes \<Rightarrow> nat \<Rightarrow> bytes list \<Rightarrow> bytes option option" where
  "BuildAnswerFromIPs payload ttl ips =
     (if length payload < 12 \<or> ips = [] then Some None
      else do {
        qd \<leftarrow> be16 payload 4;
        if qd \<noteq> 1 then Some None
        else do {
          q \<leftarrow> question_end payload;
          case q of
            None \<Rightarrow> Some None
          | Some questionEnd \<Rightarrow> do {
              qtype \<leftarrow> be16 payload (questionEnd - 4);
              if qtype \<noteq> 1 \<and> qtype \<noteq> 28 then Some None
              else do {
                out \<leftarrow> sub_bytes payload 0 questionEnd;
                b \<leftarrow> at out 2;
                out \<leftarrow> put_at out 2 [b OR 0x80];
                b \<leftarrow> at out 3;
                out \<leftarrow> put_at out 3 [b AND 0xF0];
                out \<leftarrow> put_at out 6 (put16 0);
                out \<leftarrow> put_at out 8 (put16 0);
                out \<leftarrow> put_at out 10 (put16 0);
                let rds = List.map_filter (address_rdata qtype) ips;
                if rds = [] then Some None
                else do {
                  out \<leftarrow> put_at (out @ concat (map (answer_record qtype ttl) rds)) 6 (put16 (length rds));
                  Some (Some out) } } } } })"

subsection \<open>Dropping addresses\<close>

record answerRR =
  rr_name :: gostr
  rr_typ :: nat
  rr_class :: nat
  rr_ttl :: nat
  rr_rdata :: bytes
  rr_ip :: "bytes option"
  rr_target :: gostr

text \<open>\<^verbatim>\<open>FilterUnchanged\<close> and the rest, with the bytes the code returns beside them.\<close>

datatype filter_result = FilterUnchanged | FilterRewritten bytes | FilterAllDropped | FilterTooLarge

definition maxCompressionOffset :: nat where
  "maxCompressionOffset = 0x4000"

definition responseSizeLimit :: "int \<Rightarrow> nat \<Rightarrow> int" where
  "responseSizeLimit maxSize ednsUDPSize =
     (if maxSize > 0 then maxSize else if ednsUDPSize > 512 then int ednsUDPSize else 512)"

text \<open>The address of an A or AAAA record, the target of a CNAME written out; any other record stops the filter.\<close>

definition answer_data :: "bytes \<Rightarrow> answerRR \<Rightarrow> nat \<Rightarrow> nat \<Rightarrow> answerRR option option" where
  "answer_data payload rr offset rdLen =
     (if rr_typ rr = 1 then Some (if rdLen \<noteq> 4 then None else Some (rr\<lparr>rr_ip := Some (rr_rdata rr)\<rparr>))
      else if rr_typ rr = 28 then Some (if rdLen \<noteq> 16 then None else Some (rr\<lparr>rr_ip := Some (rr_rdata rr)\<rparr>))
      else if rr_typ rr = 5 then do {
        t \<leftarrow> readName payload offset;
        Some (map_option (\<lambda>(target, _). rr\<lparr>rr_target := target, rr_rdata := encodeName target\<rparr>) t) }
      else Some None)"

definition read_answer :: "bytes \<Rightarrow> nat \<Rightarrow> (answerRR \<times> nat) option option" where
  "read_answer payload offset = do {
     r \<leftarrow> readName payload offset;
     case r of
       None \<Rightarrow> Some None
     | Some (name, next) \<Rightarrow>
         if next + 10 > length payload then Some None
         else do {
           typ \<leftarrow> be16 payload next;
           cls \<leftarrow> be16 payload (next + 2);
           ttl \<leftarrow> be32 payload (next + 4);
           rdLen \<leftarrow> be16 payload (next + 8);
           if next + 10 + rdLen > length payload then Some None
           else do {
             rdata \<leftarrow> sub_bytes payload (next + 10) (next + 10 + rdLen);
             rr \<leftarrow> answer_data payload
               \<lparr>rr_name = name, rr_typ = typ, rr_class = cls, rr_ttl = ttl, rr_rdata = rdata, rr_ip = None, rr_target = []\<rparr>
               (next + 10) rdLen;
             Some (map_option (\<lambda>rr. (rr, next + 10 + rdLen)) rr) } } }"

fun read_answers :: "bytes \<Rightarrow> nat \<Rightarrow> nat \<Rightarrow> (answerRR list \<times> nat) option option" where
  "read_answers payload 0 offset = Some (Some ([], offset))"
| "read_answers payload (Suc n) offset = do {
     r \<leftarrow> read_answer payload offset;
     case r of
       None \<Rightarrow> Some None
     | Some (rr, offset) \<Rightarrow> do {
         rest \<leftarrow> read_answers payload n offset;
         Some (map_option (\<lambda>(rrs, offset). (rr # rrs, offset)) rest) } }"

fun read_additional :: "bytes \<Rightarrow> nat \<Rightarrow> nat \<Rightarrow> nat \<Rightarrow> (nat \<times> nat) option option" where
  "read_additional payload 0 offset edns = Some (Some (offset, edns))"
| "read_additional payload (Suc n) offset edns =
     (if offset \<ge> length payload then Some None
      else do {
        b \<leftarrow> at payload offset;
        if b \<noteq> 0 \<or> offset + 11 > length payload then Some None
        else do {
          typ \<leftarrow> be16 payload (offset + 1);
          if typ \<noteq> 41 then Some None
          else do {
            flags \<leftarrow> be16 payload (offset + 7);
            if flags \<ge> 0x8000 then Some None
            else do {
              advertised \<leftarrow> be16 payload (offset + 3);
              rdLen \<leftarrow> be16 payload (offset + 9);
              if offset + (11 + rdLen) > length payload then Some None
              else read_additional payload n (offset + (11 + rdLen)) (if advertised > edns then advertised else edns) } } } })"

text \<open>Writing the kept records; the map remembers where a name, in lower case, is written.\<close>

definition write_name ::
    "golib \<Rightarrow> gostr \<Rightarrow> bytes \<Rightarrow> (gostr \<rightharpoonup> nat) \<Rightarrow> gostr \<Rightarrow> bytes \<times> (gostr \<rightharpoonup> nat)" where
  "write_name L qName out offs name =
     (let key = to_lower L name in
      if equal_fold L name qName then (out @ [0xC0, 0x0C], offs)
      else case offs key of
        Some off \<Rightarrow>
          if off < maxCompressionOffset then (out @ [0xC0 OR word_of_nat (off div 256), word_of_nat off], offs)
          else (out @ encodeName name, if length out < maxCompressionOffset then offs(key \<mapsto> length out) else offs)
      | None \<Rightarrow> (out @ encodeName name, if length out < maxCompressionOffset then offs(key \<mapsto> length out) else offs))"

definition write_record ::
    "golib \<Rightarrow> gostr \<Rightarrow> nat \<Rightarrow> bytes \<times> (gostr \<rightharpoonup> nat) \<Rightarrow> answerRR \<Rightarrow> bytes \<times> (gostr \<rightharpoonup> nat)" where
  "write_record L qName ttlCap st rr =
     (let (out, offs) = write_name L qName (fst st) (snd st) (rr_name rr);
          ttl = (if ttlCap > 0 \<and> rr_ttl rr > ttlCap then ttlCap else rr_ttl rr);
          out = out @ put16 (rr_typ rr) @ put16 (rr_class rr) @ put32 ttl @ put16 (length (rr_rdata rr));
          target = to_lower L (rr_target rr);
          offs = (if rr_target rr \<noteq> [] \<and> length out < maxCompressionOffset \<and> offs target = None
                  then offs(target \<mapsto> length out) else offs)
      in (out @ rr_rdata rr, offs))"

text \<open>Reading the whole answer: the question, the records and the additional section with the size it advertises.\<close>

definition parse_sections ::
    "bytes \<Rightarrow> nat \<Rightarrow> nat \<Rightarrow> gostr \<Rightarrow> nat \<Rightarrow> (gostr \<times> bytes \<times> answerRR list \<times> bytes \<times> nat) option option" where
  "parse_sections payload an ar qName offset =
     (if offset + 4 > length payload then Some None
      else do {
        question \<leftarrow> sub_bytes payload 12 (offset + 4);
        r \<leftarrow> read_answers payload an (offset + 4);
        case r of
          None \<Rightarrow> Some None
        | Some (answers, additionalStart) \<Rightarrow> do {
            a \<leftarrow> read_additional payload ar additionalStart 0;
            case a of
              None \<Rightarrow> Some None
            | Some (e, edns) \<Rightarrow> do {
                additional \<leftarrow> sub_bytes payload additionalStart e;
                Some (Some (qName, question, answers, additional, edns)) } } })"

definition parse_answer :: "bytes \<Rightarrow> (gostr \<times> bytes \<times> answerRR list \<times> bytes \<times> nat) option option" where
  "parse_answer payload =
     (if length payload < 12 then Some None
      else do {
        b2 \<leftarrow> at payload 2;
        b3 \<leftarrow> at payload 3;
        if b2 AND 0x80 = 0 \<or> b2 AND 0x02 \<noteq> 0 \<or> b3 AND 0x0F \<noteq> 0 then Some None
        else do {
          qd \<leftarrow> be16 payload 4;
          an \<leftarrow> be16 payload 6;
          ns \<leftarrow> be16 payload 8;
          ar \<leftarrow> be16 payload 10;
          if qd \<noteq> 1 \<or> an = 0 \<or> ns \<noteq> 0 then Some None
          else do {
            q \<leftarrow> readName payload 12;
            case q of
              None \<Rightarrow> Some None
            | Some (qName, offset) \<Rightarrow> parse_sections payload an ar qName offset } } })"

definition rr_gone :: "(bytes \<Rightarrow> bool) \<Rightarrow> answerRR \<Rightarrow> bool" where
  "rr_gone is_dropped rr = (case rr_ip rr of None \<Rightarrow> False | Some ip \<Rightarrow> is_dropped ip)"

definition rewrite_answer ::
    "golib \<Rightarrow> bytes \<Rightarrow> nat \<Rightarrow> int \<Rightarrow> (bytes \<Rightarrow> bool) \<Rightarrow> gostr \<Rightarrow> bytes \<Rightarrow> answerRR list \<Rightarrow> bytes \<Rightarrow> nat \<Rightarrow> filter_result option" where
  "rewrite_answer L payload ttlCap maxSize is_dropped qName question answers additional edns =
     (let kept = filter (\<lambda>rr. \<not> rr_gone is_dropped rr) answers;
          dropped = length (filter (rr_gone is_dropped) answers);
          addresses = length (filter (\<lambda>rr. rr_ip rr \<noteq> None) answers)
      in if dropped = 0 then Some FilterUnchanged
         else if dropped = addresses then Some FilterAllDropped
         else do {
           header \<leftarrow> sub_bytes payload 0 12;
           header \<leftarrow> put_at header 6 (put16 (length kept));
           let (out, offs) = foldl (write_record L qName ttlCap) (header @ question, Map.empty) kept;
           let out = out @ additional;
           Some (if length out > length payload \<and> int (length out) > responseSizeLimit maxSize edns
                 then FilterTooLarge else FilterRewritten out) })"

definition FilterAnswerIPs ::
    "golib \<Rightarrow> bytes \<Rightarrow> nat \<Rightarrow> int \<Rightarrow> (bytes \<Rightarrow> bool) option \<Rightarrow> filter_result option" where
  "FilterAnswerIPs L payload ttlCap maxSize dropper =
     (case dropper of
        None \<Rightarrow> Some FilterUnchanged
      | Some is_dropped \<Rightarrow> do {
          r \<leftarrow> parse_answer payload;
          case r of
            None \<Rightarrow> Some FilterUnchanged
          | Some (qName, question, answers, additional, edns) \<Rightarrow>
              rewrite_answer L payload ttlCap maxSize is_dropped qName question answers additional edns })"

end
