(* ===== verification/Udp_Send.thy ===== *)
theory Udp_Send
  imports Quic_Crypto Tcp_Inject Dns_Answer
begin

text \<open>
  The UDP side: datagrams and fakes (\<^verbatim>\<open>sock/udp_ipv4.go\<close>, \<^verbatim>\<open>udp_ipv6.go\<close>, \<^verbatim>\<open>quic_fake.go\<close>, \<^verbatim>\<open>stun_fake.go\<close>), the messages the
  filters recognise (\<^verbatim>\<open>stun/stun.go\<close>, \<^verbatim>\<open>discord\<close>, \<^verbatim>\<open>nfq/l7.go\<close>), and how a QUIC datagram of a matched connection is sent
  (\<^verbatim>\<open>dropAndInjectQUIC\<close> of \<^verbatim>\<open>nfq/nfq.go\<close>, \<^verbatim>\<open>dropAndInjectQUICV6\<close> of \<^verbatim>\<open>nfq/nfq_ipv6.go\<close>). The specification is a receiver of UDP (\<open>udp4_view\<close>,
  \<open>udp6_view\<close>) and the receiver of fragments of \<^verbatim>\<open>Ip_Fragments\<close>. An inner \<^const>\<open>None\<close> is the code's \<^verbatim>\<open>nil\<close> or
  \<^verbatim>\<open>false\<close>, an outer one a panic.
\<close>

unbundle bit_operations_syntax

subsection \<open>Datagrams\<close>

definition BuildUDPPacketV4 :: "16 word \<Rightarrow> bytes \<Rightarrow> bytes \<Rightarrow> nat \<Rightarrow> nat \<Rightarrow> bytes \<Rightarrow> bytes option option" where
  "BuildUDPPacketV4 ident srcIP dstIP srcPort dstPort payload =
     (case (to4 srcIP, to4 dstIP) of
        (Some src, Some dst) \<Rightarrow>
          if length payload > 0xffff - 28 then Some None
          else do {
            let pkt = [0x45, 0] @ put16 (20 + 8 + length payload) @ put16 (unat ident) @ [0, 0, 64, 17, 0, 0] @ src @ dst @
              put16 srcPort @ put16 dstPort @ put16 (8 + length payload) @ [0, 0] @ payload;
            pkt \<leftarrow> fix_ip_header pkt 20;
            pkt \<leftarrow> FixUDPChecksum pkt 20;
            Some (Some pkt) }
      | _ \<Rightarrow> Some None)"

definition BuildUDPPacketV6 :: "bytes \<Rightarrow> bytes \<Rightarrow> nat \<Rightarrow> nat \<Rightarrow> bytes \<Rightarrow> bytes option option" where
  "BuildUDPPacketV6 srcIP dstIP srcPort dstPort payload =
     (case (to16 srcIP, to16 dstIP) of
        (Some src, Some dst) \<Rightarrow>
          if to4 srcIP \<noteq> None \<or> to4 dstIP \<noteq> None then Some None
          else if length payload > 0xffff - 8 then Some None
          else do {
            let pkt = [0x60, 0, 0, 0] @ put16 (8 + length payload) @ [17, 64] @ src @ dst @
              put16 srcPort @ put16 dstPort @ put16 (8 + length payload) @ [0, 0] @ payload;
            pkt \<leftarrow> FixUDPChecksumV6 pkt;
            Some (Some pkt) }
      | _ \<Rightarrow> Some None)"

subsection \<open>Fake datagrams\<close>

text \<open>\<^verbatim>\<open>copy(b[i:], src)\<close>\<close>

definition copy_at :: "bytes \<Rightarrow> nat \<Rightarrow> bytes \<Rightarrow> bytes option" where
  "copy_at b i src = (if i \<le> length b then Some (take i b @ go_copy (drop i b) src) else None)"

text \<open>The length is a number of the configuration; \<^verbatim>\<open>make\<close> panics for a negative one, and so does a slice whose end lies before its start.\<close>

definition BuildFakeUDPFromOriginalV4 :: "bytes \<Rightarrow> int \<Rightarrow> byte \<Rightarrow> bytes \<Rightarrow> bytes option option" where
  "BuildFakeUDPFromOriginalV4 orig fakeLen ttl payload =
     (if length orig < 20 \<or> drop_bit 4 (orig ! 0) \<noteq> 4 then Some None
      else do {
        ihl \<leftarrow> ip_hdr_len orig;
        if ihl < 20 \<or> length orig < ihl + 8 then Some None
        else if 20 + 8 + fakeLen < 0 then None
        else do {
          out \<leftarrow> copy_at (replicate (nat (20 + 8 + fakeLen)) 0) 0 (take 20 orig);
          v \<leftarrow> at out 0;
          out \<leftarrow> put_at out 0 [(v AND 0xF0) OR 0x05];
          out \<leftarrow> put_at out 8 [fakeTTLOrDefault ttl];
          ident \<leftarrow> be16 out 4;
          out \<leftarrow> put_at out 4 (put16 (ident + 1));
          out \<leftarrow> put_at out 6 [0, 0];
          out \<leftarrow> put_at out 2 (put16 (nat (20 + 8 + fakeLen)));
          out \<leftarrow> copy_at out 20 (take 8 (drop ihl orig));
          out \<leftarrow> put_at out (20 + 4) (put16 (nat (8 + fakeLen)));
          out \<leftarrow> (if payload \<noteq> [] then if fakeLen < 0 then None else copy_at out 28 payload else Some out);
          out \<leftarrow> fix_ip_header out 20;
          out \<leftarrow> udpChecksumIPv4 out;
          Some (Some out) } })"

definition BuildFakeUDPFromOriginalV6 :: "bytes \<Rightarrow> int \<Rightarrow> byte \<Rightarrow> bytes \<Rightarrow> bytes option option" where
  "BuildFakeUDPFromOriginalV6 orig fakeLen hopLimit payload =
     (if length orig < 48 \<or> drop_bit 4 (orig ! 0) \<noteq> 6 then Some None
      else if orig ! 6 \<noteq> 17 then Some None
      else if 40 + 8 + fakeLen < 0 then None
      else do {
        out \<leftarrow> copy_at (replicate (nat (40 + 8 + fakeLen)) 0) 0 (take 40 orig);
        out \<leftarrow> put_at out 7 [fakeTTLOrDefault hopLimit];
        out \<leftarrow> put_at out 4 (put16 (nat (8 + fakeLen)));
        out \<leftarrow> copy_at out 40 (take 8 (drop 40 orig));
        out \<leftarrow> put_at out (40 + 4) (put16 (nat (8 + fakeLen)));
        out \<leftarrow> (if payload \<noteq> [] then if fakeLen < 0 then None else copy_at out 48 payload else Some out);
        out \<leftarrow> udpChecksumIPv6 out;
        Some (Some out) })"

subsection \<open>What fakes carry\<close>

text \<open>A read of the random source: the bytes it gives, or an error.\<close>

type_synonym rand_read = "(nat \<Rightarrow> byte) option"

definition fill :: "nat \<Rightarrow> rand_read \<Rightarrow> bytes option" where
  "fill n r = map_option (\<lambda>f. map f [0..<n]) r"

definition quicFakeHeaderLen :: int where "quicFakeHeaderLen = 30"
definition quicFakeMaxSize :: int where "quicFakeMaxSize = quicFakeHeaderLen + 0x3FFF - 4"

definition BuildQUICInitial :: "int \<Rightarrow> rand_read \<Rightarrow> rand_read \<Rightarrow> rand_read \<Rightarrow> bytes option" where
  "BuildQUICInitial sz r1 r2 r3 =
     (if sz < quicFakeHeaderLen \<or> sz > quicFakeMaxSize then None
      else do {
        dcid \<leftarrow> fill 8 r1;
        scid \<leftarrow> fill 8 r2;
        body \<leftarrow> (if sz > quicFakeHeaderLen then fill (nat (sz - quicFakeHeaderLen)) r3 else Some []);
        let coveredLen = nat (4 + (sz - quicFakeHeaderLen));
        Some ([0xC3, 0, 0, 0, 1, 8] @ dcid @ [8] @ scid @ [0] @ put16 (0x4000 OR coveredLen) @ [0, 0, 0, 0] @ body) })"

definition stunHeaderLen :: int where "stunHeaderLen = 20"
definition stunAttrHeaderLen :: int where "stunAttrHeaderLen = 4"
definition stunMagicCookie :: nat where "stunMagicCookie = 0x2112A442"

definition stunFakeLenValid :: "int \<Rightarrow> bool" where
  "stunFakeLenValid sz \<longleftrightarrow>
     (if sz - stunHeaderLen > 0xffff then False
      else sz = stunHeaderLen \<or> sz \<ge> stunHeaderLen + stunAttrHeaderLen \<and> sz mod 4 = 0)"

definition BuildSTUNRequest :: "int \<Rightarrow> rand_read \<Rightarrow> rand_read \<Rightarrow> bytes option" where
  "BuildSTUNRequest sz r1 r2 =
     (if \<not> stunFakeLenValid sz then None
      else do {
        tid \<leftarrow> fill 12 r1;
        attr \<leftarrow> (if sz > stunHeaderLen then do {
            pad \<leftarrow> fill (nat (sz - stunHeaderLen - stunAttrHeaderLen)) r2;
            Some (put16 0x0026 @ put16 (nat (sz - stunHeaderLen - stunAttrHeaderLen)) @ pad) }
          else Some []);
        Some (put16 0x0001 @ put16 (nat (sz - stunHeaderLen)) @ put32 stunMagicCookie @ tid @ attr) })"

definition IsSTUNMessage :: "bytes \<Rightarrow> bool option" where
  "IsSTUNMessage msg =
     (if length msg < 20 then Some False
      else do {
        messageType \<leftarrow> be16 msg 0;
        messageLength \<leftarrow> be16 msg 2;
        if length msg \<noteq> messageLength + 20 then Some False
        else if messageType AND 0xC000 \<noteq> 0 then Some False
        else if messageType AND 0x0110 \<noteq> 0 then Some False
        else do {
          magicCookie \<leftarrow> be32 msg 4;
          Some (magicCookie = 0x2112A442) } })"

definition IsIPDiscovery :: "bytes \<Rightarrow> bool option" where
  "IsIPDiscovery msg =
     (if length msg \<noteq> 74 then Some False
      else do {
        msgType \<leftarrow> be16 msg 0;
        if msgType \<noteq> 0x0001 \<and> msgType \<noteq> 0x0002 then Some False
        else do { l \<leftarrow> be16 msg 2; Some (l = 70) } })"

definition udpL7Class :: "bytes \<Rightarrow> gostr option" where
  "udpL7Class payload = do {
     d \<leftarrow> IsIPDiscovery payload;
     if d then Some (str ''discord'')
     else do { s \<leftarrow> IsSTUNMessage payload; Some (if s then str ''stun'' else []) } }"

record UDPConfig =
  udp_Mode :: gostr
  FakeSeqLength :: int
  FakeLen :: int
  FakingStrategy :: gostr
  FakePayloadFile :: gostr
  FakePayloadData :: bytes

record udp_draws =
  rd_dcid :: rand_read
  rd_scid :: rand_read
  rd_body :: rand_read

definition udpFakePayload :: "UDPConfig \<Rightarrow> udp_draws \<Rightarrow> bytes" where
  "udpFakePayload udpCfg dr =
     (if FakePayloadFile udpCfg = str ''@quic_initial''
      then (case BuildQUICInitial (FakeLen udpCfg) (rd_dcid dr) (rd_scid dr) (rd_body dr) of None \<Rightarrow> [] | Some b \<Rightarrow> b)
      else if FakePayloadFile udpCfg = str ''@stun''
      then (case BuildSTUNRequest (FakeLen udpCfg) (rd_dcid dr) (rd_body dr) of None \<Rightarrow> [] | Some b \<Rightarrow> b)
      else FakePayloadData udpCfg)"

subsection \<open>Sending a datagram\<close>

type_synonym udp_maker = "bytes \<Rightarrow> int \<Rightarrow> byte \<Rightarrow> bytes \<Rightarrow> bytes option option"

text \<open>The checksum of a fake is inverted by the strategy \<^verbatim>\<open>checksum\<close>.\<close>

definition udp_spoil :: "UDPConfig \<Rightarrow> bytes \<Rightarrow> nat \<Rightarrow> bytes option" where
  "udp_spoil udpCfg fake l3 =
     (if FakingStrategy udpCfg = str ''checksum'' \<and> length fake \<ge> l3 + 8 then do {
        a \<leftarrow> at fake (l3 + 6);
        fake \<leftarrow> put_at fake (l3 + 6) [a XOR 0xFF];
        b \<leftarrow> at fake (l3 + 7);
        put_at fake (l3 + 7) [b XOR 0xFF] }
      else Some fake)"

definition udp_fake4 :: "UDPConfig \<Rightarrow> byte \<Rightarrow> bytes \<Rightarrow> udp_draws \<Rightarrow> bytes list option" where
  "udp_fake4 udpCfg ttl raw dr = do {
     f \<leftarrow> BuildFakeUDPFromOriginalV4 raw (FakeLen udpCfg) ttl (udpFakePayload udpCfg dr);
     case f of
       None \<Rightarrow> Some []
     | Some fake \<Rightarrow> do { ipHdrLen \<leftarrow> ip_hdr_len fake; fake \<leftarrow> udp_spoil udpCfg fake ipHdrLen; Some [fake] } }"

definition udp_fake6 :: "UDPConfig \<Rightarrow> byte \<Rightarrow> bytes \<Rightarrow> udp_draws \<Rightarrow> bytes list option" where
  "udp_fake6 udpCfg ttl raw dr = do {
     f \<leftarrow> BuildFakeUDPFromOriginalV6 raw (FakeLen udpCfg) ttl (udpFakePayload udpCfg dr);
     case f of
       None \<Rightarrow> Some []
     | Some fake \<Rightarrow> do { fake \<leftarrow> udp_spoil udpCfg fake 40; Some [fake] } }"

text \<open>The rest of both functions: what is not QUIC goes out whole, a QUIC datagram is cut in the middle of the name it carries.\<close>

definition quic_split :: "crypto_lib \<Rightarrow> nat \<Rightarrow> bytes \<Rightarrow> int option" where
  "quic_split C w realPayload = do {
     loc \<leftarrow> LocateSNIOffset C w realPayload;
     Some (case loc of
        None \<Rightarrow> 24
      | Some (sniOff, sniLen) \<Rightarrow> if sniOff > 0 \<and> sniLen > 0 then int (sniOff + sniLen div 2) else 24) }"

definition quic_segments ::
    "(bytes \<Rightarrow> int \<Rightarrow> bytes list option option) \<Rightarrow> crypto_lib \<Rightarrow> nat \<Rightarrow> bool \<Rightarrow> bytes \<Rightarrow> nat \<Rightarrow> bytes list option" where
  "quic_segments frag C w rv raw l3 = do {
     let realPayload = (if length raw \<ge> l3 + 8 then drop (l3 + 8) raw else []);
     q \<leftarrow> LooksLikeQUIC realPayload;
     if \<not> q then Some [raw]
     else do {
       splitPos \<leftarrow> quic_split C w realPayload;
       frags \<leftarrow> frag raw splitPos;
       Some (case frags of None \<Rightarrow> [raw] | Some fs \<Rightarrow> SendTwoSegments (fs ! 0) (fs ! 1) rv) } }"

definition dropAndInjectQUIC ::
    "crypto_lib \<Rightarrow> nat \<Rightarrow> UDPConfig \<Rightarrow> byte \<Rightarrow> bool \<Rightarrow> (nat \<Rightarrow> udp_draws) \<Rightarrow> bytes \<Rightarrow> bytes list option" where
  "dropAndInjectQUIC C w udpCfg ttl rv dr raw =
     (if udp_Mode udpCfg \<noteq> str ''fake'' then Some []
      else do {
        fakes \<leftarrow> each (\<lambda>i. udp_fake4 udpCfg ttl raw (dr i)) [0..<nat (FakeSeqLength udpCfg)];
        ipHdrLen \<leftarrow> ip_hdr_len raw;
        rest \<leftarrow> quic_segments IPv4FragmentUDP C w rv raw ipHdrLen;
        Some (concat fakes @ rest) })"

definition dropAndInjectQUICV6 ::
    "crypto_lib \<Rightarrow> nat \<Rightarrow> UDPConfig \<Rightarrow> byte \<Rightarrow> bool \<Rightarrow> (nat \<Rightarrow> udp_draws) \<Rightarrow> 32 word \<Rightarrow> bytes \<Rightarrow> bytes list option" where
  "dropAndInjectQUICV6 C w udpCfg ttl rv dr ident raw = do {
     plain \<leftarrow> hasPlainIPv6Header raw 17;
     if \<not> plain then Some [raw]
     else if udp_Mode udpCfg \<noteq> str ''fake'' then Some []
     else do {
       fakes \<leftarrow> each (\<lambda>i. udp_fake6 udpCfg ttl raw (dr i)) [0..<nat (FakeSeqLength udpCfg)];
       rest \<leftarrow> quic_segments (IPv6FragmentUDP ident) C w rv raw 40;
       Some (concat fakes @ rest) } }"

subsection \<open>A receiver of UDP\<close>

text \<open>Source, destination, ports and data of an intact datagram. Over IPv4 a checksum of 0 means that there is none.\<close>

definition udp4_view :: "bytes \<Rightarrow> (bytes \<times> bytes \<times> nat \<times> nat \<times> bytes) option" where
  "udp4_view p = do {
     h \<leftarrow> ip_hdr_len p;
     tot \<leftarrow> be16 p 2;
     sp \<leftarrow> be16 p h; dp \<leftarrow> be16 p (h + 2); n \<leftarrow> be16 p (h + 4); c \<leftarrow> be16 p (h + 6);
     if 20 \<le> h \<and> tot \<le> length p \<and> inet_ok (take h p) \<and> p ! 9 = 17 \<and> 8 \<le> n \<and> h + n \<le> tot \<and>
        (c = 0 \<or> inet_ok (pseudo4 17 p n @ take n (drop h p)))
     then Some (take 4 (drop 12 p), take 4 (drop 16 p), sp, dp, take (n - 8) (drop (h + 8) p)) else None }"

definition udp6_view :: "bytes \<Rightarrow> (bytes \<times> bytes \<times> nat \<times> nat \<times> bytes) option" where
  "udp6_view p = do {
     len \<leftarrow> be16 p 4;
     sp \<leftarrow> be16 p 40; dp \<leftarrow> be16 p 42; n \<leftarrow> be16 p 44; c \<leftarrow> be16 p 46;
     if p ! 6 = 17 \<and> 40 + len \<le> length p \<and> 8 \<le> n \<and> n \<le> len \<and> c \<noteq> 0 \<and> udp6_valid p n
     then Some (take 16 (drop 8 p), take 16 (drop 24 p), sp, dp, take (n - 8) (drop 48 p)) else None }"

text \<open>The two routines for a checksum over IPv4.\<close>

lemma udp_pseudo_sum:
  assumes "length src = 4" "length dst = 4" "n \<le> 65535"
  shows "add_words 0 (src @ dst @ [0, 17] @ put16 n) = ((add_words (add_words 0 src) dst + 17) mod 2 ^ 32 + n) mod 2 ^ 32"
proof -
  have b: "words_sum src \<le> 65535 * 2" "words_sum dst \<le> 65535 * 2" using words_sum_bound [of src] words_sum_bound [of dst] assms by simp_all
  have "words_sum (src @ dst @ [0, 17] @ put16 n) = words_sum src + (words_sum dst + (17 + n))"
    using assms by (simp add: words_sum_append words_sum_put16)
  then show ?thesis using b assms(3) by (simp add: add_words_eq)
qed

lemma FixUDPChecksum_as_udpChecksum:
  assumes "ip_hdr_len p = Some h" "20 \<le> h" "be16 p (h + 4) = Some (length p - h)" "h + 8 \<le> length p"
  shows "FixUDPChecksum p h = udpChecksumIPv4 p"
proof -
  let ?z = "patch p (h + 6) [0, 0]"
  have n: "length p - h \<le> 65535" using be16_SomeD [OF assms(3)] by linarith
  have sl: "take 4 (drop a ?z) = take 4 (drop a p)" if "a \<le> 16" for a using that assms by (intro slice_patch) auto
  have "add_words 0 (take 4 (drop 12 p) @ take 4 (drop 16 p) @ [0, 17] @ put16 (length p - h)) =
      ((add_words (add_words 0 (take 4 (drop 12 p))) (take 4 (drop 16 p)) + 17) mod 2 ^ 32 + (length p - h)) mod 2 ^ 32"
    using assms n by (intro udp_pseudo_sum) auto
  then show ?thesis using assms sl
    by (simp add: FixUDPChecksum_def udpChecksumIPv4_def Let_def)
qed

lemma udpChecksumIPv4_eq:
  assumes hdr: "ip_hdr_len p = Some h" "20 \<le> h" and n: "be16 p (h + 4) = Some n" "8 \<le> n" "h + n \<le> length p"
  shows "\<exists>c. udpChecksumIPv4 p = Some (patch p (h + 6) (put16 c)) \<and> 0 < c \<and> c \<le> 65535 \<and>
    inet_ok (pseudo4 17 p n @ take n (drop h (patch p (h + 6) (put16 c))))"
proof -
  let ?z = "patch p (h + 6) [0, 0]"
  let ?pre = "pseudo4 17 p n"
  define c where "c = udp_checksum_value (add_words (add_words 0 ?pre) (take n (drop h ?z)))"
  have "udpChecksumIPv4 p = Some (patch p (h + 6) (put16 c))"
    using hdr n by (simp add: udpChecksumIPv4_def c_def pseudo4_def patch_patch)
  moreover have "0 < c" "c \<le> 65535" by (simp_all add: c_def udp_checksum_value_def Let_def)
  moreover have "inet_ok (?pre @ take n (drop h (patch p (h + 6) (put16 c))))"
  proof (rule segment_checksum)
    show "even (length ?pre)" "length ?pre \<le> 40" using hdr n by (simp_all add: pseudo4_def)
    show "(add_words (add_words 0 ?pre) (take n (drop h ?z)) + c) mod 65535 = 0" unfolding c_def by (rule udp_complement_ok)
    show "n \<le> 65535" using be16_SomeD [OF n(1)] by linarith
  qed (use hdr n \<open>c \<le> 65535\<close> in auto)
  ultimately show ?thesis by blast
qed

text \<open>Headers and data as they are put together, and the datagram after its checksums.\<close>

lemma udp4_sealed_at:
  assumes p: "length hdr = h" "20 \<le> h" "ip_hdr_len hdr = Some h" "hdr ! 9 = 17" "be16 hdr 2 = Some (h + 8 + length pl)"
    and l: "length ports = 4" "length ck = 2"
  shows "\<exists>q c. (do { p \<leftarrow> fix_ip_header (hdr @ ports @ put16 (8 + length pl) @ ck @ pl) h; udpChecksumIPv4 p }) = Some q \<and>
    (do { p \<leftarrow> fix_ip_header (hdr @ ports @ put16 (8 + length pl) @ ck @ pl) h; FixUDPChecksum p h }) = Some q \<and>
    q ! 6 = hdr ! 6 \<and> q ! 8 = hdr ! 8 \<and> ip_hdr_len q = Some h \<and> length q = h + 8 + length pl \<and> be16 q (h + 4) = Some (8 + length pl) \<and> be16 q (h + 6) = Some c \<and> 0 < c \<and>
    udp4_view q = Some (take 4 (drop 12 hdr), take 4 (drop 16 hdr), 256 * unat (ports ! 0) + unat (ports ! 1), 256 * unat (ports ! 2) + unat (ports ! 3), pl) \<and>
    inet_ok (take h q) \<and> inet_ok (pseudo4 17 q (8 + length pl) @ drop h q)"
proof -
  define f where "f = hdr @ ports @ put16 (8 + length pl) @ ck @ pl"
  have lf: "length f = h + 8 + length pl" using assms by (simp add: f_def)
  have tot: "h + 8 + length pl < 65536" using be16_SomeD [OF p(5)] by simp
  have nf: "f ! i = hdr ! i" if "i < h" for i using that p(1) by (simp add: f_def nth_append)
  have hf: "ip_hdr_len f = Some h" using lf p nf [of 0] by (auto simp: ip_hdr_len_eq)
  obtain d where d: "fix_ip_header f h = Some (patch f 10 (put16 d))" "inet_ok (take h (patch f 10 (put16 d)))"
    using fix_ip_header_eq [OF hf p(2)] lf by auto
  define g where "g = patch f 10 (put16 d)"
  have lg: "length g = length f" using lf p(2) by (simp add: g_def)
  have dg: "drop k g = drop k f" if "12 \<le> k" for k using that lf p(2) by (simp add: g_def drop_patch)
  have ng: "g ! i = f ! i" if "i < 10 \<or> 12 \<le> i" "i < length f" for i using that lf p(2) by (auto simp: g_def nth_patch)
  have hg: "ip_hdr_len g = Some h" using hf lf lg ng [of 0] by (auto simp: ip_hdr_len_eq)
  have bg: "be16 g (h + 4) = Some (8 + length pl)"
  proof -
    have "be16 f (h + 4) = Some (8 + length pl)"
      using p(1) l tot be16_put16_at [of "8 + length pl" "hdr @ ports" "h + 4" "ck @ pl"] by (simp add: f_def)
    then show ?thesis using lf lg ng p(2) by (simp add: be16_lt)
  qed
  obtain c where c: "udpChecksumIPv4 g = Some (patch g (h + 6) (put16 c))" "0 < c" "c \<le> 65535"
      "inet_ok (pseudo4 17 g (8 + length pl) @ take (8 + length pl) (drop h (patch g (h + 6) (put16 c))))"
    using udpChecksumIPv4_eq [OF hg p(2), of "8 + length pl"] bg lf lg by auto
  have fx: "FixUDPChecksum g h = udpChecksumIPv4 g" using hg p(2) bg lf lg by (intro FixUDPChecksum_as_udpChecksum) auto
  define q where "q = patch g (h + 6) (put16 c)"
  have lq: "length q = h + 8 + length pl" using lf lg by (simp add: q_def)
  have nq: "q ! i = f ! i" if "i < 10 \<or> 12 \<le> i" "i < h + 6" for i using that lf lg ng by (auto simp: q_def nth_patch)
  have hq: "ip_hdr_len q = Some h" using hf lf lq nq [of 0] by (auto simp: ip_hdr_len_eq)
  have t: "take h q = take h g" using lf lg by (simp add: q_def take_patch)
  have sl: "take 4 (drop a q) = take 4 (drop a g)" if "a \<le> 16" for a using that lf lg p(2) by (simp add: q_def slice_patch)
  have ps: "pseudo4 17 q n = pseudo4 17 g n" for n by (simp add: pseudo4_def sl)
  have ad: "take 4 (drop 12 q) = take 4 (drop 12 hdr)" "take 4 (drop 16 q) = take 4 (drop 16 hdr)"
    using sl dg p(1,2) by (simp_all add: f_def)
  have cq: "be16 q (h + 6) = Some c" using c(3) lf lg by (simp add: q_def be16_patch_same)
  have fs: "be16 q 2 = Some (h + 8 + length pl)" "q ! 9 = 17" "q ! 8 = hdr ! 8" "q ! 6 = hdr ! 6"
    using p lq nq nf by (auto simp: be16_lt)
  have po: "be16 q h = Some (256 * unat (ports ! 0) + unat (ports ! 1))" "be16 q (h + 2) = Some (256 * unat (ports ! 2) + unat (ports ! 3))"
    using p l lq nq by (auto simp: be16_lt f_def nth_append)
  have b4: "be16 q (h + 4) = Some (8 + length pl)" using bg lf lg by (simp add: q_def be16_patch)
  have pq: "drop (h + 8) q = pl" using lf lg dg [of "h + 8"] p(1,2) l by (simp add: q_def drop_patch f_def)
  have e: "inet_ok (pseudo4 17 q (8 + length pl) @ drop h q)" using c(4) lq by (simp add: ps q_def [symmetric])
  have "udp4_view q = Some (take 4 (drop 12 q), take 4 (drop 16 q), 256 * unat (ports ! 0) + unat (ports ! 1), 256 * unat (ports ! 2) + unat (ports ! 3), pl)"
    using hq fs po b4 cq lq d(2) e pq p(2) by (simp add: udp4_view_def t g_def [symmetric])
  then show ?thesis
    using d c(1,2) fx hq lq b4 cq e ad fs(3,4) by (simp add: f_def [symmetric] g_def [symmetric] q_def [symmetric] t)
qed

lemma udp4_sealed:
  assumes p: "length hdr = 20" "hdr ! 0 AND 0x0F = 5" "hdr ! 9 = 17" "be16 hdr 2 = Some (28 + length pl)"
    and l: "length ports = 4" "length ck = 2"
  shows "\<exists>q c. (do { p \<leftarrow> fix_ip_header (hdr @ ports @ put16 (8 + length pl) @ ck @ pl) 20; udpChecksumIPv4 p }) = Some q \<and>
    (do { p \<leftarrow> fix_ip_header (hdr @ ports @ put16 (8 + length pl) @ ck @ pl) 20; FixUDPChecksum p 20 }) = Some q \<and>
    q ! 8 = hdr ! 8 \<and> ip_hdr_len q = Some 20 \<and> length q = 28 + length pl \<and> be16 q 24 = Some (8 + length pl) \<and> be16 q 26 = Some c \<and> 0 < c \<and>
    udp4_view q = Some (take 4 (drop 12 hdr), drop 16 hdr, 256 * unat (ports ! 0) + unat (ports ! 1), 256 * unat (ports ! 2) + unat (ports ! 3), pl) \<and>
    inet_ok (take 20 q) \<and> inet_ok (pseudo4 17 q (8 + length pl) @ drop 20 q)"
proof -
  have "hdr \<noteq> []" using p(1) by auto
  then have "ip_hdr_len hdr = Some 20" using p(2) by (simp add: ip_hdr_len_def at_def)
  then show ?thesis using udp4_sealed_at [of hdr 20 pl ports ck] p l by auto
qed

lemma udp6_sealed:
  assumes p: "length hdr = 40" "hdr ! 6 = 17" "be16 hdr 4 = Some (8 + length pl)" and l: "length ports = 4" "length ck = 2"
  shows "\<exists>q c. udpChecksumIPv6 (hdr @ ports @ put16 (8 + length pl) @ ck @ pl) = Some q \<and> length q = 48 + length pl \<and>
    q ! 7 = hdr ! 7 \<and> be16 q 44 = Some (8 + length pl) \<and> be16 q 46 = Some c \<and> 0 < c \<and>
    udp6_view q = Some (take 16 (drop 8 hdr), drop 24 hdr, 256 * unat (ports ! 0) + unat (ports ! 1), 256 * unat (ports ! 2) + unat (ports ! 3), pl) \<and>
    FixUDPChecksumV6 (hdr @ ports @ put16 (8 + length pl) @ ck @ pl) = Some q"
proof -
  define f where "f = hdr @ ports @ put16 (8 + length pl) @ ck @ pl"
  have lf: "length f = 48 + length pl" using assms by (simp add: f_def)
  have b4: "be16 f 4 = Some (8 + length pl)" using p by (simp add: f_def be16_append_left)
  have "8 + length pl < 65536" using be16_SomeD [OF p(3)] by simp
  then have b44: "be16 f 44 = Some (8 + length pl)"
    using p(1) l be16_put16_at [of "8 + length pl" "hdr @ ports" 44 "ck @ pl"] by (simp add: f_def)
  obtain c where c: "FixUDPChecksumV6 f = Some (patch f 46 (put16 c))" "udp6_valid (patch f 46 (put16 c)) (8 + length pl)" "0 < c" "c \<le> 65535"
    using FixUDPChecksumV6_eq [OF b4] lf by auto
  define q where "q = patch f 46 (put16 c)"
  have z: "patch (patch f 46 [0]) 47 [0] = patch f 46 [0, 0]" using lf patch_two [of 46 f 0 0] by simp
  have sl: "take 16 (drop a (patch f 46 [0, 0])) = take 16 (drop a f)" if "a \<le> 24" for a using that lf by (simp add: slice_patch)
  have t: "be16 (patch f 46 [0, 0]) 4 = be16 f 4" using lf by (simp add: be16_patch)
  have "udpChecksumIPv6 f = FixUDPChecksumV6 f"
    using lf b4 b44 by (simp add: udpChecksumIPv6_def FixUDPChecksumV6_def z sl t)
  moreover have lq: "length q = 48 + length pl" using lf by (simp add: q_def)
  have nq: "q ! i = f ! i" if "i < 46" for i using that lf by (simp add: q_def nth_patch)
  have "be16 q 40 = Some (256 * unat (ports ! 0) + unat (ports ! 1))" "be16 q 42 = Some (256 * unat (ports ! 2) + unat (ports ! 3))"
      "q ! 6 = 17" "q ! 7 = hdr ! 7"
    using p l lq nq by (auto simp: be16_lt f_def nth_append)
  moreover have "be16 q 4 = Some (8 + length pl)" "be16 q 44 = Some (8 + length pl)" "be16 q 46 = Some c"
    using b4 b44 c(4) lf by (simp_all add: q_def be16_patch be16_patch_same)
  moreover have "take 16 (drop 8 q) = take 16 (drop 8 hdr)" "take 16 (drop 24 q) = drop 24 hdr" "drop 48 q = pl"
    using p(1) l lf by (simp_all add: q_def slice_patch drop_patch) (simp_all add: f_def)
  ultimately show ?thesis
    using c lq by (auto simp: udp6_view_def f_def [symmetric] q_def [symmetric])
qed

subsection \<open>Datagrams that are built\<close>

lemma to4_length: "to4 ip = Some a \<Longrightarrow> length a = 4"
  by (auto simp: to4_def split: if_splits)

lemma to16_length: "to16 ip = Some a \<Longrightarrow> length a = 16"
  by (auto simp: to16_def split: if_splits)

lemma put16_port: "n < 65536 \<Longrightarrow> 256 * unat (put16 n ! 0) + unat (put16 n ! 1) = n"
  using be16_put16_Nil [of n] by (simp add: be16_lt)

lemma BuildUDPPacketV4_view:
  assumes "to4 srcIP = Some src" "to4 dstIP = Some dst" "length payload \<le> 65507" "sport < 65536" "dport < 65536"
  shows "\<exists>q. BuildUDPPacketV4 ident srcIP dstIP sport dport payload = Some (Some q) \<and> udp4_view q = Some (src, dst, sport, dport, payload)"
proof -
  define hdr where "hdr = [0x45, 0] @ put16 (28 + length payload) @ put16 (unat ident) @ [0, 0, 64, 17, 0, 0] @ src @ dst"
  define f where "f = hdr @ (put16 sport @ put16 dport) @ put16 (8 + length payload) @ [0, 0] @ payload"
  have l: "length src = 4" "length dst = 4" using assms(1,2) by (auto dest: to4_length)
  have lh: "length hdr = 20" "hdr ! 0 = 0x45" "hdr ! 9 = 17" using l by (simp_all add: hdr_def nth_append)
  have b2: "be16 hdr 2 = Some (28 + length payload)"
    using assms(3) be16_put16_at [of "28 + length payload" "[0x45, 0]" 2] by (simp add: hdr_def)
  obtain q where q: "do { p \<leftarrow> fix_ip_header f 20; FixUDPChecksum p 20 } = Some q"
      "udp4_view q = Some (take 4 (drop 12 hdr), drop 16 hdr, 256 * unat ((put16 sport @ put16 dport) ! 0) + unat ((put16 sport @ put16 dport) ! 1),
         256 * unat ((put16 sport @ put16 dport) ! 2) + unat ((put16 sport @ put16 dport) ! 3), payload)"
    using udp4_sealed [of hdr payload "put16 sport @ put16 dport" "[0, 0]"] lh b2 by (auto simp: f_def)
  moreover have "take 4 (drop 12 hdr) = src" "drop 16 hdr = dst" using l by (simp_all add: hdr_def)
  moreover have "BuildUDPPacketV4 ident srcIP dstIP sport dport payload = map_option Some (do { p \<leftarrow> fix_ip_header f 20; FixUDPChecksum p 20 })"
    using assms(1-3) by (simp add: BuildUDPPacketV4_def f_def hdr_def split: Option.bind_splits)
  ultimately show ?thesis using put16_port [OF assms(4)] put16_port [OF assms(5)] by (simp add: nth_append)
qed

lemma BuildUDPPacketV6_view:
  assumes "to16 srcIP = Some src" "to16 dstIP = Some dst" "to4 srcIP = None" "to4 dstIP = None" "length payload \<le> 65527" "sport < 65536" "dport < 65536"
  shows "\<exists>q. BuildUDPPacketV6 srcIP dstIP sport dport payload = Some (Some q) \<and> udp6_view q = Some (src, dst, sport, dport, payload)"
proof -
  define hdr where "hdr = [0x60, 0, 0, 0] @ put16 (8 + length payload) @ [17, 64] @ src @ dst"
  have l: "length src = 16" "length dst = 16" using assms(1,2) by (auto dest: to16_length)
  have lh: "length hdr = 40" "hdr ! 6 = 17" using l by (simp_all add: hdr_def nth_append)
  have b4: "be16 hdr 4 = Some (8 + length payload)"
    using assms(5) be16_put16_at [of "8 + length payload" "[0x60, 0, 0, 0]" 4] by (simp add: hdr_def)
  obtain q c where q: "FixUDPChecksumV6 (hdr @ (put16 sport @ put16 dport) @ put16 (8 + length payload) @ [0, 0] @ payload) = Some q"
      "udp6_view q = Some (take 16 (drop 8 hdr), drop 24 hdr, 256 * unat ((put16 sport @ put16 dport) ! 0) + unat ((put16 sport @ put16 dport) ! 1),
         256 * unat ((put16 sport @ put16 dport) ! 2) + unat ((put16 sport @ put16 dport) ! 3), payload)"
    using udp6_sealed [of hdr payload "put16 sport @ put16 dport" "[0, 0]"] lh b4 by auto
  moreover have "take 16 (drop 8 hdr) = src" "drop 24 hdr = dst" using l by (simp_all add: hdr_def)
  moreover have "BuildUDPPacketV6 srcIP dstIP sport dport payload =
      do { p \<leftarrow> FixUDPChecksumV6 (hdr @ (put16 sport @ put16 dport) @ put16 (8 + length payload) @ [0, 0] @ payload); Some (Some p) }"
    using assms(1-5) by (simp add: BuildUDPPacketV6_def hdr_def)
  ultimately show ?thesis using put16_port [OF assms(6)] put16_port [OF assms(7)] by (simp add: nth_append)
qed

subsection \<open>Fakes\<close>

text \<open>What a fake carries: its payload cut or filled up with zeros to the configured length.\<close>

definition fitted :: "nat \<Rightarrow> bytes \<Rightarrow> bytes" where
  "fitted n payload = take n payload @ replicate (n - length payload) 0"

lemma length_fitted [simp]: "length (fitted n payload) = n"
  by (simp add: fitted_def)

lemma copy_at_start: "length src \<le> n \<Longrightarrow> copy_at (replicate n 0) 0 src = Some (src @ replicate (n - length src) 0)"
  by (simp add: copy_at_def go_copy_def)

lemma copy_at_over: "length a = i \<Longrightarrow> length u \<le> k \<Longrightarrow> copy_at (a @ replicate k 0) i u = Some (a @ u @ replicate (k - length u) 0)"
  by (simp add: copy_at_def go_copy_def)

lemma copy_at_payload: "length a = i \<Longrightarrow> copy_at (a @ replicate n 0) i payload = Some (a @ fitted n payload)"
  by (simp add: copy_at_def go_copy_def fitted_def)

lemma patch_right: "length a = k \<Longrightarrow> patch (a @ b) (k + i) v = a @ patch b i v"
  by (simp add: patch_def ac_simps)

definition udp_ports :: "bytes \<Rightarrow> nat \<Rightarrow> nat \<times> nat" where
  "udp_ports p h = (256 * unat (p ! h) + unat (p ! (h + 1)), 256 * unat (p ! (h + 2)) + unat (p ! (h + 3)))"

lemma fake_udp4:
  assumes o: "drop_bit 4 (orig ! 0) = 4" "ip_hdr_len orig = Some h" "20 \<le> h" "h + 8 \<le> length orig" "orig ! 9 = 17"
    and n: "n \<le> 65507"
  shows "\<exists>q c. BuildFakeUDPFromOriginalV4 orig (int n) ttl payload = Some (Some q) \<and> q ! 8 = fakeTTLOrDefault ttl \<and> ip_hdr_len q = Some 20 \<and>
    length q = 28 + n \<and> be16 q 24 = Some (8 + n) \<and> be16 q 26 = Some c \<and> 0 < c \<and> inet_ok (take 20 q) \<and> inet_ok (pseudo4 17 q (8 + n) @ drop 20 q) \<and>
    udp4_view q = Some (take 4 (drop 12 orig), take 4 (drop 16 orig), fst (udp_ports orig h), snd (udp_ports orig h), fitted n payload)"
proof -
  define a where "a = take 20 orig"
  have la: "length a = 20" "a ! 0 = orig ! 0" "a ! 9 = 17" "length orig \<ge> 28" using o by (auto simp: a_def)
  define a1 where "a1 = patch a 0 [(orig ! 0 AND 0xF0) OR 0x05]"
  define a2 where "a2 = patch a1 8 [fakeTTLOrDefault ttl]"
  obtain ident where i: "be16 a2 4 = Some ident" using la by (simp add: be16_lt a1_def a2_def)
  define a3 where "a3 = patch (patch a2 4 (put16 (ident + 1))) 6 [0, 0]"
  define hdr where "hdr = patch a3 2 (put16 (28 + n))"
  have ls: "length a1 = 20" "length a2 = 20" "length a3 = 20" "length hdr = 20" using la by (simp_all add: a1_def a2_def a3_def hdr_def)
  define u where "u = take 8 (drop h orig)"
  have lu: "length u = 8" using o(4) by (simp add: u_def)
  define z where "z = replicate (8 + n) (0 :: byte)"
  have s1: "copy_at (replicate (28 + n) 0) 0 a = Some (a @ z)" using la(1) copy_at_start [of a "28 + n"] by (simp add: z_def)
  have s2: "copy_at (hdr @ z) 20 u = Some (hdr @ u @ replicate n 0)" using ls(4) lu copy_at_over [of hdr 20 u "8 + n"] by (simp add: z_def)
  define u' where "u' = patch u 4 (put16 (8 + n))"
  have u': "u' = take 4 u @ put16 (8 + n) @ drop 6 u" "length u' = 8" using lu by (simp_all add: u'_def patch_def)
  have s3: "patch (hdr @ u @ replicate n 0) 24 (put16 (8 + n)) = (hdr @ u') @ replicate n 0"
    using ls(4) lu patch_right [of hdr 20 "u @ replicate n 0" 4 "put16 (8 + n)"] by (simp add: u'_def patch_append)
  have s4: "copy_at (hdr @ u' @ replicate n 0) 28 payload = Some (hdr @ u' @ fitted n payload)" "fitted n [] = replicate n 0"
    using ls(4) u'(2) copy_at_payload [of "hdr @ u'" 28 n payload] by (simp_all add: fitted_def)
  have i': "be16 (a2 @ z) 4 = Some ident" using i ls(2) by (simp add: be16_append_left)
  have h2: "patch (patch (patch (a2 @ z) 4 (put16 (ident + 1))) 6 [0, 0]) 2 (put16 (28 + n)) = hdr @ z"
    using ls by (simp add: a3_def hdr_def patch_append)
  have h1: "patch (patch (a @ z) 0 [(orig ! 0 AND 0xF0) OR 0x05]) 8 [fakeTTLOrDefault ttl] = a2 @ z"
    using la(1) by (simp add: a1_def a2_def patch_append)
  have eq: "BuildFakeUDPFromOriginalV4 orig (int n) ttl payload =
      do { p \<leftarrow> do { f \<leftarrow> fix_ip_header ((hdr @ u') @ fitted n payload) 20; udpChecksumIPv4 f }; Some (Some p) }"
  proof -
    have nn: "nat (20 + 8 + int n) = 28 + n" "nat (8 + int n) = 8 + n" by simp_all
    have lz: "length z = 8 + n" by (simp add: z_def)
    show ?thesis
      unfolding BuildFakeUDPFromOriginalV4_def nn
      using o la lz ls s1 s2 s3 s4 i' h1 h2 lu by (simp add: a_def [symmetric] u_def [symmetric] nth_append)
  qed
  have "hdr ! 0 AND 0x0F = 5" using la ls by (simp add: hdr_def a3_def a2_def a1_def nth_patch nth_patch_in ihl_five)
  moreover have "hdr ! 9 = 17" "hdr ! 8 = fakeTTLOrDefault ttl" using la ls by (simp_all add: hdr_def a3_def a2_def a1_def nth_patch nth_patch_in)
  moreover have "be16 hdr 2 = Some (28 + n)" using ls n by (simp add: hdr_def be16_patch_same)
  moreover have "drop 12 hdr = drop 12 a" using la ls by (simp add: hdr_def a3_def a2_def a1_def drop_patch)
  then have "take 4 (drop 12 hdr) = take 4 (drop 12 orig)" "drop 16 hdr = take 4 (drop 16 orig)"
    using la(4) drop_drop [of 4 12 hdr] by (simp_all add: a_def drop_take)
  moreover have "take 4 u ! 0 = orig ! h" "take 4 u ! 1 = orig ! (h + 1)" "take 4 u ! 2 = orig ! (h + 2)" "take 4 u ! 3 = orig ! (h + 3)"
    using o(4) by (simp_all add: u_def)
  ultimately obtain q c where q: "do { f \<leftarrow> fix_ip_header ((hdr @ u') @ fitted n payload) 20; udpChecksumIPv4 f } = Some q"
      "q ! 8 = fakeTTLOrDefault ttl" "ip_hdr_len q = Some 20" "length q = 28 + n" "be16 q 24 = Some (8 + n)" "be16 q 26 = Some c" "0 < c"
      "udp4_view q = Some (take 4 (drop 12 orig), take 4 (drop 16 orig), fst (udp_ports orig h), snd (udp_ports orig h), fitted n payload)"
      "inet_ok (take 20 q)" "inet_ok (pseudo4 17 q (8 + n) @ drop 20 q)"
    using udp4_sealed [of hdr "fitted n payload" "take 4 u" "drop 6 u"] ls lu n u' by (auto simp: udp_ports_def)
  have "BuildFakeUDPFromOriginalV4 orig (int n) ttl payload = Some (Some q)" unfolding eq q(1) by simp
  then show ?thesis using q by blast
qed

lemma fake_udp6:
  assumes o: "drop_bit 4 (orig ! 0) = 6" "48 \<le> length orig" "orig ! 6 = 17" and n: "n \<le> 65527"
  shows "\<exists>q c. BuildFakeUDPFromOriginalV6 orig (int n) ttl payload = Some (Some q) \<and> q ! 7 = fakeTTLOrDefault ttl \<and>
    length q = 48 + n \<and> be16 q 44 = Some (8 + n) \<and> be16 q 46 = Some c \<and> 0 < c \<and>
    udp6_view q = Some (take 16 (drop 8 orig), take 16 (drop 24 orig), fst (udp_ports orig 40), snd (udp_ports orig 40), fitted n payload)"
proof -
  define a where "a = take 40 orig"
  have la: "length a = 40" "a ! 6 = 17" using o by (auto simp: a_def)
  define hdr where "hdr = patch (patch a 7 [fakeTTLOrDefault ttl]) 4 (put16 (8 + n))"
  have lh: "length hdr = 40" using la by (simp add: hdr_def)
  define u where "u = take 8 (drop 40 orig)"
  have lu: "length u = 8" using o(2) by (simp add: u_def)
  define z where "z = replicate (8 + n) (0 :: byte)"
  have s1: "copy_at (replicate (48 + n) 0) 0 a = Some (a @ z)" using la(1) copy_at_start [of a "48 + n"] by (simp add: z_def)
  have s2: "copy_at (hdr @ z) 40 u = Some (hdr @ u @ replicate n 0)" using lh lu copy_at_over [of hdr 40 u "8 + n"] by (simp add: z_def)
  define u' where "u' = patch u 4 (put16 (8 + n))"
  have u': "u' = take 4 u @ put16 (8 + n) @ drop 6 u" "length u' = 8" using lu by (simp_all add: u'_def patch_def)
  have s3: "patch (hdr @ u @ replicate n 0) 44 (put16 (8 + n)) = hdr @ u' @ replicate n 0"
    using lh lu patch_right [of hdr 40 "u @ replicate n 0" 4 "put16 (8 + n)"] by (simp add: u'_def patch_append)
  have s4: "copy_at (hdr @ u' @ replicate n 0) 48 payload = Some (hdr @ u' @ fitted n payload)" "fitted n [] = replicate n 0"
    using lh u'(2) copy_at_payload [of "hdr @ u'" 48 n payload] by (simp_all add: fitted_def)
  have h1: "patch (patch (a @ z) 7 [fakeTTLOrDefault ttl]) 4 (put16 (8 + n)) = hdr @ z" using la(1) by (simp add: hdr_def patch_append)
  have eq: "BuildFakeUDPFromOriginalV6 orig (int n) ttl payload = do { p \<leftarrow> udpChecksumIPv6 (hdr @ u' @ fitted n payload); Some (Some p) }"
  proof -
    have nn: "nat (40 + 8 + int n) = 48 + n" "nat (8 + int n) = 8 + n" by simp_all
    have lz: "length z = 8 + n" by (simp add: z_def)
    show ?thesis
      unfolding BuildFakeUDPFromOriginalV6_def nn
      using o la lz lh s1 s2 s3 s4 h1 lu by (simp add: a_def [symmetric] u_def [symmetric])
  qed
  have "hdr ! 6 = 17" "hdr ! 7 = fakeTTLOrDefault ttl" using la by (simp_all add: hdr_def nth_patch nth_patch_in)
  moreover have "be16 hdr 4 = Some (8 + n)" using la n by (simp add: hdr_def be16_patch_same)
  moreover have d8: "drop 8 hdr = drop 8 a" using la by (simp add: hdr_def drop_patch)
  then have "take 16 (drop 8 hdr) = take 16 (drop 8 orig)" "drop 24 hdr = take 16 (drop 24 orig)"
    using o(2) drop_drop [of 16 8 hdr] by (simp_all add: a_def drop_take)
  moreover have "take 4 u ! 0 = orig ! 40" "take 4 u ! 1 = orig ! (40 + 1)" "take 4 u ! 2 = orig ! (40 + 2)" "take 4 u ! 3 = orig ! (40 + 3)"
    using o(2) by (simp_all add: u_def)
  ultimately obtain q c where q: "udpChecksumIPv6 (hdr @ u' @ fitted n payload) = Some q"
      "q ! 7 = fakeTTLOrDefault ttl" "length q = 48 + n" "be16 q 44 = Some (8 + n)" "be16 q 46 = Some c" "0 < c"
      "udp6_view q = Some (take 16 (drop 8 orig), take 16 (drop 24 orig), fst (udp_ports orig 40), snd (udp_ports orig 40), fitted n payload)"
    using udp6_sealed [of hdr "fitted n payload" "take 4 u" "drop 6 u"] lh lu u' by (auto simp: udp_ports_def)
  have "BuildFakeUDPFromOriginalV6 orig (int n) ttl payload = Some (Some q)" unfolding eq q(1) by simp
  then show ?thesis using q by blast
qed

subsection \<open>Spoilt checksums\<close>

lemma inverted_sum:
  assumes pre: "even (length pre)" and l: "8 \<le> length seg" and ok: "inet_ok (pre @ seg)"
  shows "inet_ok (pre @ patch seg 6 [seg ! 6 XOR 0xFF, seg ! 7 XOR 0xFF]) \<longleftrightarrow>
    256 * unat (seg ! 6) + unat (seg ! 7) = 0 \<or> 256 * unat (seg ! 6) + unat (seg ! 7) = 65535"
proof -
  define S where "S = words_sum pre + words_sum (take 6 seg) + words_sum (drop 8 seg)"
  have sum: "inet_ok (pre @ patch seg 6 [a, b]) \<longleftrightarrow> (S + (256 * unat a + unat b)) mod 65535 = 0" for a b
    unfolding inet_ok_def words_sum_append [OF pre] using words_sum_patch [of 6 seg a b] l by (simp add: S_def ac_simps)
  have "patch seg 6 [seg ! 6, seg ! 7] = seg" using patch_same [of 6 seg] l by simp
  then have w: "(S + (256 * unat (seg ! 6) + unat (seg ! 7))) mod 65535 = 0" using sum [of "seg ! 6" "seg ! 7"] ok by simp
  have "256 * (255 - unat (seg ! 6)) + (255 - unat (seg ! 7)) = 65535 - (256 * unat (seg ! 6) + unat (seg ! 7))"
      "256 * unat (seg ! 6) + unat (seg ! 7) \<le> 65535"
    using unat_byte_less [of "seg ! 6"] unat_byte_less [of "seg ! 7"] by linarith+
  then show ?thesis unfolding sum unat_flip using flip_word_multiple [OF w] by simp
qed

text \<open>The inverted packet, as \<^const>\<open>udp_spoil\<close> leaves it.\<close>

definition inverted :: "bytes \<Rightarrow> nat \<Rightarrow> bytes" where
  "inverted q l3 = patch q (l3 + 6) [q ! (l3 + 6) XOR 0xFF, q ! (l3 + 7) XOR 0xFF]"

lemma udp_spoil_eq:
  assumes "l3 + 8 \<le> length q"
  shows "udp_spoil cfg q l3 = Some (if FakingStrategy cfg = str ''checksum'' then inverted q l3 else q)"
proof -
  have "patch (patch q (l3 + 6) [q ! (l3 + 6) XOR 0xFF]) (l3 + 7) [q ! (l3 + 7) XOR 0xFF] = inverted q l3"
    using patch_two [of "l3 + 6" q "q ! (l3 + 6) XOR 0xFF" "q ! (l3 + 7) XOR 0xFF"] assms by (simp add: inverted_def add.commute)
  then show ?thesis using assms by (simp add: udp_spoil_def nth_patch)
qed

lemma inverted_field:
  assumes "l3 + 8 \<le> length q" "be16 q (l3 + 6) = Some c"
  shows "be16 (inverted q l3) (l3 + 6) = Some (65535 - c)"
proof -
  have c: "c = 256 * unat (q ! (l3 + 6)) + unat (q ! (l3 + 7))" using assms by (simp add: be16_lt add.commute)
  have n: "inverted q l3 ! (l3 + 6) = q ! (l3 + 6) XOR 0xFF" "inverted q l3 ! (l3 + 7) = q ! (l3 + 7) XOR 0xFF"
    using assms(1) by (simp_all add: inverted_def nth_patch_in)
  have "256 * (255 - unat (q ! (l3 + 6))) + (255 - unat (q ! (l3 + 7))) = 65535 - c"
    unfolding c using unat_byte_less [of "q ! (l3 + 6)"] unat_byte_less [of "q ! (l3 + 7)"] by linarith
  moreover have "l3 + 6 + 1 < length (inverted q l3)" using assms(1) by (simp add: inverted_def)
  ultimately show ?thesis unfolding be16_lt [OF \<open>l3 + 6 + 1 < length (inverted q l3)\<close>] using n by (simp add: unat_flip add.commute)
qed

lemma inverted_view4:
  assumes q: "ip_hdr_len q = Some 20" "length q = 28 + n" "be16 q 26 = Some c" "0 < c"
    and ok: "inet_ok (pseudo4 17 q (8 + n) @ drop 20 q)" and v: "udp4_view q = Some v" and n: "be16 q 24 = Some (8 + n)"
  shows "udp4_view (inverted q 20) = (if c = 65535 then Some v else None)"
proof -
  let ?i = "inverted q 20"
  have i: "?i = patch q 26 [q ! 26 XOR 0xFF, q ! 27 XOR 0xFF]" by (simp add: inverted_def)
  have c: "c = 256 * unat (q ! 26) + unat (q ! 27)" using q by (simp add: be16_lt)
  have c': "be16 ?i 26 = Some (65535 - c)" using inverted_field [of 20 q c] q by simp
  have hi: "ip_hdr_len ?i = Some 20" using q(1,2) by (auto simp: i ip_hdr_len_eq nth_patch) (simp add: patch_def)
  have fs: "be16 ?i 2 = be16 q 2" "be16 ?i 20 = be16 q 20" "be16 ?i 22 = be16 q 22" "be16 ?i 24 = be16 q 24" "length ?i = length q"
    "take 20 ?i = take 20 q" "?i ! 9 = q ! 9" "drop 28 ?i = drop 28 q" "take 4 (drop 12 ?i) = take 4 (drop 12 q)"
    "take 4 (drop 16 ?i) = take 4 (drop 16 q)" using q(2) by (simp_all add: i be16_patch take_patch nth_patch drop_patch slice_patch)
  have ps: "pseudo4 17 ?i (8 + n) = pseudo4 17 q (8 + n)" by (simp add: pseudo4_def fs)
  have d: "drop 20 ?i = patch (drop 20 q) 6 [drop 20 q ! 6 XOR 0xFF, drop 20 q ! 7 XOR 0xFF]"
    using q(2) by (simp add: i drop_patch_in)
  have e: "even (length (pseudo4 17 q (8 + n)))" using q(2) by (simp add: pseudo4_def)
  have iff: "inet_ok (pseudo4 17 ?i (8 + n) @ take (8 + n) (drop 20 ?i)) \<longleftrightarrow> c = 65535"
    using inverted_sum [OF e _ ok] q(2,4) c fs(5) by (auto simp: ps d)
  obtain tot sp dp where r: "be16 q 2 = Some tot" "be16 q 20 = Some sp" "be16 q 22 = Some dp" using q(2) by (simp add: be16_lt)
  have "c \<le> 65535" using be16_SomeD [OF q(3)] by simp
  then have "65535 - c = 0 \<longleftrightarrow> c = 65535" by auto
  then show ?thesis using v q(1,3) n r c' hi fs iff by (auto simp: udp4_view_def split: if_splits)
qed

lemma inverted_view6:
  assumes q: "length q = 48 + n" "be16 q 46 = Some c" "0 < c" and v: "udp6_view q = Some v" and n: "be16 q 44 = Some (8 + n)"
  shows "udp6_view (inverted q 40) = None"
proof -
  let ?i = "inverted q 40"
  have i: "?i = patch q 46 [q ! 46 XOR 0xFF, q ! 47 XOR 0xFF]" by (simp add: inverted_def)
  have c: "c = 256 * unat (q ! 46) + unat (q ! 47)" using q by (simp add: be16_lt)
  have c': "be16 ?i 46 = Some (65535 - c)" using inverted_field [of 40 q c] q by simp
  have fs: "be16 ?i 44 = be16 q 44" "take 16 (drop 8 ?i) = take 16 (drop 8 q)" "take 16 (drop 24 ?i) = take 16 (drop 24 q)"
    using q(1) by (simp_all add: i be16_patch slice_patch)
  have ok: "udp6_valid q (8 + n)" using v n by (auto simp: udp6_view_def bind_eq_Some_conv split: if_splits)
  have d: "drop 40 ?i = patch (drop 40 q) 6 [drop 40 q ! 6 XOR 0xFF, drop 40 q ! 7 XOR 0xFF]"
    using q(1) by (simp add: i drop_patch_in)
  let ?pre = "pseudo6 17 (take 16 (drop 8 q)) (take 16 (drop 24 q)) (8 + n)"
  have e: "even (length ?pre)" "inet_ok (?pre @ drop 40 q)" using q(1) ok by (simp_all add: udp6_valid_def)
  have "udp6_valid ?i (8 + n) \<longleftrightarrow> c = 65535"
    using inverted_sum [OF e(1) _ e(2)] q(1,3) c by (auto simp: udp6_valid_def fs d)
  then have "\<not> (65535 - c \<noteq> 0 \<and> udp6_valid ?i (8 + n))" by auto
  then show ?thesis using n c' fs(1) by (auto simp: udp6_view_def bind_eq_None_conv bind_eq_Some_conv split: Option.bind_splits if_splits)
qed

subsection \<open>Datagrams of a client\<close>

text \<open>An intact datagram: \<open>h\<close> bytes of IP header, the UDP header and its data \<open>u\<close>, the hop limit \<open>t\<close>.\<close>

definition intact4 :: "nat \<Rightarrow> bytes \<Rightarrow> byte \<Rightarrow> bytes \<Rightarrow> bool" where
  "intact4 h u t p \<longleftrightarrow> drop_bit 4 (p ! 0) = 4 \<and> ip_hdr_len p = Some h \<and> 20 \<le> h \<and> be16 p 2 = Some (length p) \<and> h + 8 \<le> length p \<and>
     p ! 9 = 17 \<and> p ! 8 = t \<and> u = drop h p"

definition intact6 :: "nat \<Rightarrow> bytes \<Rightarrow> byte \<Rightarrow> bytes \<Rightarrow> bool" where
  "intact6 h u t p \<longleftrightarrow> h = 40 \<and> drop_bit 4 (p ! 0) = 6 \<and> p ! 6 = 17 \<and> be16 p 4 = Some (length p - 40) \<and> 48 \<le> length p \<and>
     length p \<le> 65567 \<and> p ! 7 = t \<and> u = drop 40 p"

text \<open>What the fakes of a configuration are.\<close>

lemma udp_fake4_sent:
  assumes p: "intact4 h u t p" and n: "FakeLen cfg = int n" "n \<le> 65507"
  shows "\<exists>q. udp_fake4 cfg c p dr = Some [q] \<and> q ! 8 = fakeTTLOrDefault c \<and>
    udp4_view q = (if FakingStrategy cfg = str ''checksum'' \<and> be16 q 26 \<noteq> Some 0 then None
      else Some (take 4 (drop 12 p), take 4 (drop 16 p), fst (udp_ports p h), snd (udp_ports p h), fitted n (udpFakePayload cfg dr)))"
proof -
  let ?v = "(take 4 (drop 12 p), take 4 (drop 16 p), fst (udp_ports p h), snd (udp_ports p h), fitted n (udpFakePayload cfg dr))"
  obtain q ck where q: "BuildFakeUDPFromOriginalV4 p (int n) c (udpFakePayload cfg dr) = Some (Some q)" "q ! 8 = fakeTTLOrDefault c"
      "ip_hdr_len q = Some 20" "length q = 28 + n" "be16 q 26 = Some ck" "0 < ck" "inet_ok (pseudo4 17 q (8 + n) @ drop 20 q)"
      "udp4_view q = Some ?v" "be16 q 24 = Some (8 + n)"
    using fake_udp4 [of p h n c "udpFakePayload cfg dr"] p n(2) by (auto simp: intact4_def)
  have l: "20 + 8 \<le> length q" using q(4) by simp
  show ?thesis
  proof (cases "FakingStrategy cfg = str ''checksum''")
    case False
    then show ?thesis using q n(1) l by (auto simp: udp_fake4_def udp_spoil_eq)
  next
    case True
    have v: "udp4_view (inverted q 20) = (if ck = 65535 then Some ?v else None)" by (rule inverted_view4 [OF q(3-9)])
    have "be16 (inverted q 20) 26 = Some (65535 - ck)" using inverted_field [of 20 q ck] q(5) l by simp
    moreover have "ck \<le> 65535" using be16_SomeD [OF q(5)] by simp
    moreover have "inverted q 20 ! 8 = q ! 8" using l by (simp add: inverted_def nth_patch)
    ultimately show ?thesis using True q n(1) l v by (auto simp: udp_fake4_def udp_spoil_eq)
  qed
qed

lemma udp_fake6_sent:
  assumes p: "intact6 h u t p" and n: "FakeLen cfg = int n" "n \<le> 65507"
  shows "\<exists>q. udp_fake6 cfg c p dr = Some [q] \<and> q ! 7 = fakeTTLOrDefault c \<and>
    udp6_view q = (if FakingStrategy cfg = str ''checksum'' then None
      else Some (take 16 (drop 8 p), take 16 (drop 24 p), fst (udp_ports p 40), snd (udp_ports p 40), fitted n (udpFakePayload cfg dr)))"
proof -
  let ?v = "(take 16 (drop 8 p), take 16 (drop 24 p), fst (udp_ports p 40), snd (udp_ports p 40), fitted n (udpFakePayload cfg dr))"
  obtain q ck where q: "BuildFakeUDPFromOriginalV6 p (int n) c (udpFakePayload cfg dr) = Some (Some q)" "q ! 7 = fakeTTLOrDefault c"
      "length q = 48 + n" "be16 q 46 = Some ck" "0 < ck" "udp6_view q = Some ?v" "be16 q 44 = Some (8 + n)"
    using fake_udp6 [of p n c "udpFakePayload cfg dr"] p n(2) by (auto simp: intact6_def)
  have l: "40 + 8 \<le> length q" using q(3) by simp
  have "inverted q 40 ! 7 = q ! 7" using l by (simp add: inverted_def nth_patch)
  moreover have "udp6_view (inverted q 40) = None" by (rule inverted_view6 [OF q(3-7)])
  ultimately show ?thesis using q n(1) l by (auto simp: udp_fake6_def udp_spoil_eq)
qed

text \<open>What the sending of a datagram needs of one IP version: fakes are single packets with the configured hop limit, and the
  fragments keep the hop limit of the datagram and carry it.\<close>

locale udp_family =
  fixes intact :: "nat \<Rightarrow> bytes \<Rightarrow> byte \<Rightarrow> bytes \<Rightarrow> bool" and mk :: "UDPConfig \<Rightarrow> byte \<Rightarrow> bytes \<Rightarrow> udp_draws \<Rightarrow> bytes list option"
    and frag :: "bytes \<Rightarrow> int \<Rightarrow> bytes list option option" and ttl_at :: nat
    and view :: "bytes \<Rightarrow> (bytes \<times> nat \<times> bool \<times> bytes) option" and key :: "bytes \<Rightarrow> bytes"
  assumes packet: "intact h u t p \<Longrightarrow> p ! ttl_at = t \<and> length p < 2 ^ 62"
    and fake: "intact h u t p \<Longrightarrow> FakeLen cfg = int n \<Longrightarrow> n \<le> 65507 \<Longrightarrow> \<exists>q. mk cfg c p dr = Some [q] \<and> q ! ttl_at = fakeTTLOrDefault c"
    and frags: "intact h u t p \<Longrightarrow> \<exists>r. frag p sp = Some r \<and> (\<forall>fs. r = Some fs \<longrightarrow> frag_pair view ttl_at p (key p) u fs)"
begin

lemma segments:
  assumes p: "intact h u t p" and C: "crypto_ok C"
  shows "\<exists>qs. quic_segments frag C 64 rv p l3 = Some qs \<and> (\<forall>q \<in> set qs. q ! ttl_at = t) \<and> (qs = [p] \<or> received view qs = Some (key p, u))"
proof -
  define pl where "pl = (if length p \<ge> l3 + 8 then drop (l3 + 8) p else [])"
  have t: "p ! ttl_at = t" "length pl < 2 ^ 62" using packet [OF p] by (auto simp: pl_def)
  obtain b where b: "LooksLikeQUIC pl = Some b" using no_panic_LooksLikeQUIC [of pl] by (auto simp: no_panic_ex)
  obtain loc where loc: "LocateSNIOffset C 64 pl = Some loc" using no_panic_LocateSNIOffset [OF C t(2)] by (auto simp: no_panic_ex)
  then obtain sp where sp: "quic_split C 64 pl = Some sp" by (simp add: quic_split_def)
  obtain r where r: "frag p sp = Some r" "\<forall>fs. r = Some fs \<longrightarrow> frag_pair view ttl_at p (key p) u fs" using frags [OF p, of sp] by blast
  have e: "quic_segments frag C 64 rv p l3 = Some (if \<not> b then [p] else case r of None \<Rightarrow> [p] | Some fs \<Rightarrow> SendTwoSegments (fs ! 0) (fs ! 1) rv)"
    unfolding quic_segments_def pl_def [symmetric] Let_def using b sp r(1) by simp
  show ?thesis
  proof (cases "b \<and> r \<noteq> None")
    case False
    then have "quic_segments frag C 64 rv p l3 = Some [p]" unfolding e by auto
    then show ?thesis using t(1) by auto
  next
    case True
    then obtain fs f1 f2 where f: "r = Some fs" "fs = [f2, f1]" "f1 ! ttl_at = t" "f2 ! ttl_at = t"
        "received view (SendTwoSegments f2 f1 rv) = Some (key p, u)" using r(2) t(1) unfolding frag_pair_def by blast
    then have "quic_segments frag C 64 rv p l3 = Some (SendTwoSegments f2 f1 rv)" unfolding e using True by simp
    moreover have "\<forall>q \<in> set (SendTwoSegments f2 f1 rv). q ! ttl_at = t" using f by (auto simp: SendTwoSegments_def)
    ultimately show ?thesis using f(5) by blast
  qed
qed

text \<open>Of all packets only those of the datagram itself arrive.\<close>

lemma arrives:
  assumes p: "intact h u t p" and C: "crypto_ok C" and n: "FakeLen cfg = int n" "n \<le> 65507"
    and hops: "unat (fakeTTLOrDefault c) \<le> hops" "hops < unat t"
  shows "\<exists>fs qs. each (\<lambda>i. mk cfg c p (dr i)) xs = Some fs \<and> quic_segments frag C 64 rv p l3 = Some qs \<and> length (concat fs) = length xs \<and>
    (\<forall>q \<in> set (concat fs). q ! ttl_at = fakeTTLOrDefault c) \<and> filter (\<lambda>q. hops < unat (q ! ttl_at)) (concat fs @ qs) = qs \<and>
    (qs = [p] \<or> received view qs = Some (key p, u))"
proof -
  obtain qs where qs: "quic_segments frag C 64 rv p l3 = Some qs" "\<forall>q \<in> set qs. q ! ttl_at = t" "qs = [p] \<or> received view qs = Some (key p, u)"
    using segments [OF p C] by blast
  have "\<exists>y. mk cfg c p (dr x) = Some y \<and> length y = 1 \<and> (\<forall>q \<in> set y. q ! ttl_at = fakeTTLOrDefault c)" for x
    using fake [OF p n, of c "dr x"] by auto
  then obtain fs where fs: "each (\<lambda>i. mk cfg c p (dr i)) xs = Some fs" "length fs = length xs"
      "\<forall>y \<in> set fs. length y = 1 \<and> (\<forall>q \<in> set y. q ! ttl_at = fakeTTLOrDefault c)"
    using each_total [of xs "\<lambda>i. mk cfg c p (dr i)" "\<lambda>y. length y = 1 \<and> (\<forall>q \<in> set y. q ! ttl_at = fakeTTLOrDefault c)"] by blast
  have "length (concat fs) = length fs" using fs(3) by (induction fs) auto
  moreover have all: "\<forall>q \<in> set (concat fs). q ! ttl_at = fakeTTLOrDefault c" using fs(3) by auto
  moreover have "filter (\<lambda>q. hops < unat (q ! ttl_at)) (concat fs) = []" using all hops(1) by (auto simp: filter_empty_conv)
  moreover have "filter (\<lambda>q. hops < unat (q ! ttl_at)) qs = qs" using qs(2) hops(2) by (simp add: filter_id_conv)
  ultimately show ?thesis using fs(1,2) qs(1,3) by auto
qed

end

interpretation u4: udp_family intact4 udp_fake4 IPv4FragmentUDP 8 frag4_view key4
proof
  fix h u t p assume p: "intact4 h u t p"
  have "length p < 65536" using p be16_SomeD [of p 2 "length p"] by (simp add: intact4_def)
  then show "p ! 8 = t \<and> length p < 2 ^ 62" using p by (simp add: intact4_def)
  show "\<exists>r. IPv4FragmentUDP p sp = Some r \<and> (\<forall>fs. r = Some fs \<longrightarrow> frag_pair frag4_view 8 p (key4 p) u fs)" for sp
    using IPv4FragmentUDP_frags [of p h "length p" sp] p by (auto simp: intact4_def split: option.splits)
  show "\<exists>q. udp_fake4 cfg c p dr = Some [q] \<and> q ! 8 = fakeTTLOrDefault c" if "FakeLen cfg = int n" "n \<le> 65507" for cfg n c dr
    using udp_fake4_sent [OF p that] by blast
qed

interpretation u6: udp_family intact6 udp_fake6 "IPv6FragmentUDP ident" 7 frag6_view "\<lambda>p. key6_of p 17 ident" for ident
proof
  fix h u t p assume p: "intact6 h u t p"
  then show "p ! 7 = t \<and> length p < 2 ^ 62" by (simp add: intact6_def)
  show "\<exists>r. IPv6FragmentUDP ident p sp = Some r \<and> (\<forall>fs. r = Some fs \<longrightarrow> frag_pair frag6_view 7 p (key6_of p 17 ident) u fs)" for sp
  proof -
    have l: "be16 p 4 = Some (length p - 40)" "40 + (length p - 40) \<le> length p" "length p - 40 \<le> 65527" "take (length p - 40) (drop 40 p) = u"
      using p by (auto simp: intact6_def)
    show ?thesis using IPv6FragmentUDP_frags [OF l(1-3), of ident sp] unfolding l(4) by (auto split: option.splits)
  qed
  show "\<exists>q. udp_fake6 cfg c p dr = Some [q] \<and> q ! 7 = fakeTTLOrDefault c" if "FakeLen cfg = int n" "n \<le> 65507" for cfg n c dr
    using udp_fake6_sent [OF p that] by blast
qed

lemma plain_udp_header:
  assumes "intact6 h u t p"
  shows "hasPlainIPv6Header p 17 = Some True"
proof -
  have p: "40 \<le> length p" "drop_bit 4 (p ! 0) = 6" "p ! 6 = 17" "at p 0 = Some (p ! 0)" "at p 6 = Some (p ! 6)"
    using assms by (auto simp: intact6_def at_def)
  have "upper_layer p 17 40 = Some (Some (40, 17))" using p(1) by (simp add: upper_layer.simps [of p 17 40])
  then show ?thesis using p by (simp add: hasPlainIPv6Header_def upperLayerOffsetV6_def)
qed

subsection \<open>The datagram survives\<close>


text \<open>
  C27. What the fakes look like to a receiver they would reach: complete datagrams from the client to the server with the same ports and
  the fake payload cut or filled to the configured length. With the strategy \<^verbatim>\<open>checksum\<close> the receiver drops
  them, except over IPv4 when the inverted checksum is 0, which stands for no checksum at all.
\<close>

theorem udp_fakes_seen:
  assumes "FakeLen cfg = int n" "n \<le> 65507"
  shows "(intact4 h u t p \<longrightarrow> (\<exists>q. udp_fake4 cfg c p dr = Some [q] \<and> q ! 8 = fakeTTLOrDefault c \<and>
      udp4_view q = (if FakingStrategy cfg = str ''checksum'' \<and> be16 q 26 \<noteq> Some 0 then None
        else Some (take 4 (drop 12 p), take 4 (drop 16 p), fst (udp_ports p h), snd (udp_ports p h), fitted n (udpFakePayload cfg dr))))) \<and>
    (intact6 h u t p \<longrightarrow> (\<exists>q. udp_fake6 cfg c p dr = Some [q] \<and> q ! 7 = fakeTTLOrDefault c \<and>
      udp6_view q = (if FakingStrategy cfg = str ''checksum'' then None
        else Some (take 16 (drop 8 p), take 16 (drop 24 p), fst (udp_ports p 40), snd (udp_ports p 40), fitted n (udpFakePayload cfg dr)))))"
  using udp_fake4_sent [OF _ assms] udp_fake6_sent [OF _ assms] by blast

definition quic_fakes :: UDPConfig where
  "quic_fakes = \<lparr>udp_Mode = str ''fake'', FakeSeqLength = 3, FakeLen = 64, FakingStrategy = str ''checksum'', FakePayloadFile = str ''@stun'', FakePayloadData = []\<rparr>"

definition some_reads :: udp_draws where
  "some_reads = \<lparr>rd_dcid = Some (\<lambda>i. 1), rd_scid = Some (\<lambda>i. 2), rd_body = Some (\<lambda>i. word_of_nat i)\<rparr>"

lemma quic_packets: "intact4 20 (drop 20 quic4) 64 quic4" "intact6 40 (drop 40 quic6) 64 quic6"
  by (simp_all add: intact4_def intact6_def quic4_def quic6_def ip_hdr_len_eq be16_def)


theorem udp_fakes_seen_witness:
  "(\<exists>q. udp_fake4 quic_fakes 5 quic4 some_reads = Some [q] \<and> q ! 8 = 5) \<and> (\<exists>q. udp_fake6 quic_fakes 5 quic6 some_reads = Some [q] \<and> udp6_view q = None)"
proof -
  have c: "FakeLen quic_fakes = int 64" "FakingStrategy quic_fakes = str ''checksum''" "fakeTTLOrDefault 5 = 5" by (simp_all add: quic_fakes_def fakeTTLOrDefault_def)
  have n: "(64 :: nat) \<le> 65507" by simp
  note seen = udp_fakes_seen [OF c(1) n, unfolded c(2)]
  have "\<exists>q. udp_fake4 quic_fakes 5 quic4 some_reads = Some [q] \<and> q ! 8 = 5" using seen [of 20 _ 64 quic4 5 some_reads] quic_packets(1) c(3) by metis
  moreover have "\<exists>q. udp_fake6 quic_fakes 5 quic6 some_reads = Some [q] \<and> udp6_view q = None"
    using seen [of 40 _ 64 quic6 5 some_reads] quic_packets(2) by auto
  ultimately show ?thesis by blast
qed

subsection \<open>Generated payloads and datagrams\<close>

lemma put16_varint: "put16 (0x4000 OR L) = [byte_of (word_of_nat L) 1 OR 0x40, byte_of (word_of_nat L) 0]"
proof -
  have "word_of_nat ((0x4000 OR L) div 256) = (byte_of (word_of_nat L) 1 OR 0x40 :: byte)"
  proof (rule bit_word_eqI)
    fix n assume n: "n < LENGTH(8)"
    have "(0x4000 OR L) div 256 = drop_bit 8 (0x4000 OR L)" by (simp add: drop_bit_eq_div)
    moreover have "bit (64 :: nat) n \<longleftrightarrow> bit (64 :: byte) n"
      using bit_exp_iff [of 6 n, where 'a = nat] bit_exp_iff [of 6 n, where 'a = byte] n by simp
    ultimately show "bit (word_of_nat ((0x4000 OR L) div 256) :: byte) n = bit (byte_of (word_of_nat L) 1 OR 0x40) n"
      using n by (auto simp: byte_of_def bit_simps)
  qed
  moreover have "word_of_nat (0x4000 OR L) = (byte_of (word_of_nat L) 0 :: byte)"
  proof (rule bit_word_eqI)
    fix n assume n: "n < LENGTH(8)"
    moreover from this have "\<not> bit (0x4000 :: nat) n" using bit_exp_iff [of 14 n, where 'a = nat] by simp
    ultimately show "bit (word_of_nat (0x4000 OR L) :: byte) n = bit (byte_of (word_of_nat L) 0) n"
      by (simp add: byte_of_def bit_simps)
  qed
  ultimately show ?thesis by (simp add: put16_def)
qed

lemma readVar_two:
  assumes "L < 0x4000"
  shows "readVar (put16 (0x4000 OR L) @ rest) = (word_of_nat L, 2)"
proof -
  have "(word_of_nat L :: 64 word) < 2 ^ 14" using assms by (simp add: word_less_nat_alt unat_of_nat take_bit_nat_eq_self)
  then have v: "take_bit (8 * 1 + 6) (word_of_nat L) = (word_of_nat L :: 64 word)" by (simp add: take_bit_less)
  show ?thesis using readVar_prefixed [of "0x40" 1 "word_of_nat L" rest, OF _ _ _ v] unfolding put16_varint by (simp add: be_bytes_def)
qed

lemma fill_Some [simp]: "fill n (Some f) = Some (map f [0..<n])"
  by (simp add: fill_def)

lemma quic_initial_built:
  assumes "30 \<le> n" "n \<le> 16409"
  shows "\<exists>b. BuildQUICInitial (int n) (Some r1) (Some r2) (Some r3) = Some b \<and> length b = n \<and> IsInitial b \<and> LooksLikeQUIC b = Some True \<and>
    ParseInitialCIDs b = Some (Some (map r1 [0..<8], map r2 [0..<8], versionV1)) \<and> readVar (drop 24 b) = (word_of_nat (n - 26), 2)"
proof -
  define body where "body = map r3 [0..<n - 30]"
  have c: "nat (4 + (int n - quicFakeHeaderLen)) = n - 26" "nat (int n - quicFakeHeaderLen) = n - 30"
    using assms(1) by (simp_all add: quicFakeHeaderLen_def)
  define d s where "d = map r1 [0..<8]" and "s = map r2 [0..<8]"
  have l: "length d = 8" "length s = 8" by (simp_all add: d_def s_def)
  define b where "b = [0xC3, 0, 0, 0, 1, 8] @ d @ [8] @ s @ [0] @ put16 (0x4000 OR (n - 26)) @ [0, 0, 0, 0] @ body"
  have built: "BuildQUICInitial (int n) (Some r1) (Some r2) (Some r3) = Some b"
  proof -
    have "(if int n > quicFakeHeaderLen then fill (nat (int n - quicFakeHeaderLen)) (Some r3) else Some []) = Some body"
      using assms(1) by (auto simp: body_def c) (simp add: quicFakeHeaderLen_def)
    moreover have "\<not> (int n < quicFakeHeaderLen \<or> int n > quicFakeMaxSize)" using assms by (simp add: quicFakeHeaderLen_def quicFakeMaxSize_def)
    ultimately show ?thesis unfolding BuildQUICInitial_def by (simp add: b_def c d_def s_def)
  qed
  have lb: "length b = n" using assms(1) l by (simp add: b_def body_def)
  have h: "b ! 0 = 0xC3" "b ! 1 = 0" "b ! 2 = 0" "b ! 3 = 0" "b ! 4 = 1" "b ! 5 = 8" by (simp_all add: b_def nth_append)
  have s14: "b ! 14 = 8" using l by (simp add: b_def nth_append)
  have e: "1 + 1 = (2 :: nat)" "1 + 2 = (3 :: nat)" "1 + 3 = (4 :: nat)" by simp_all
  have u: "u32_at b 1 = versionV1" unfolding u32_at_def e h versionV1_def by simp
  then have init: "IsInitial b" "u32_at b 1 = versionV1" using lb assms(1) h(1) by (simp_all add: IsInitial_def)
  have ats: "at_nat b 5 = Some 8" "at_nat b 14 = Some 8" using lb assms(1) h s14 by (simp_all add: at_nat_def)
  have "LooksLikeQUIC b = Some True" using lb assms(1) h ats by (simp add: LooksLikeQUIC_def)
  moreover have "sub_bytes b 6 14 = Some d" "sub_bytes b 15 23 = Some s"
    using sub_bytes_at [of "[0xC3, 0, 0, 0, 1, 8]" 6 14 d] sub_bytes_at [of "[0xC3, 0, 0, 0, 1, 8] @ d @ [8]" 15 23 s] l by (simp_all add: b_def)
  then have "ParseInitialCIDs b = Some (Some (d, s, versionV1))" using init lb assms(1) ats by (simp add: ParseInitialCIDs_def maxCIDLen_def)
  moreover have "drop 24 b = put16 (0x4000 OR (n - 26)) @ [0, 0, 0, 0] @ body" using l by (simp add: b_def)
  then have "readVar (drop 24 b) = (word_of_nat (n - 26), 2)" using readVar_two [of "n - 26"] assms by simp
  ultimately show ?thesis using built lb init(1) by (auto simp: d_def s_def)
qed

lemma stun_request_built:
  assumes "n = 20 \<or> 24 \<le> n \<and> n mod 4 = 0" "n \<le> 65555"
  shows "\<exists>b. BuildSTUNRequest (int n) (Some r1) (Some r2) = Some b \<and> length b = n \<and> IsSTUNMessage b = Some True \<and> udpL7Class b = Some (str ''stun'')"
proof -
  have v: "stunFakeLenValid (int n)"
  proof -
    have "int n mod 4 = 0" if "n mod 4 = 0" using that by presburger
    then show ?thesis using assms by (auto simp: stunFakeLenValid_def stunHeaderLen_def stunAttrHeaderLen_def)
  qed
  define attr where "attr = (if n > 20 then put16 0x0026 @ put16 (n - 24) @ map r2 [0..<n - 24] else [])"
  define b where "b = put16 0x0001 @ put16 (n - 20) @ put32 stunMagicCookie @ map r1 [0..<12] @ attr"
  have c: "nat (int n - stunHeaderLen) = n - 20" "nat (int n - stunHeaderLen - stunAttrHeaderLen) = n - 24" "int n > stunHeaderLen \<longleftrightarrow> n > 20"
    using assms(1) by (auto simp: stunHeaderLen_def stunAttrHeaderLen_def)
  have built: "BuildSTUNRequest (int n) (Some r1) (Some r2) = Some b" using v by (simp add: BuildSTUNRequest_def c b_def attr_def)
  have lb: "length b = n" using assms(1) by (auto simp: b_def attr_def)
  have f: "be16 b 0 = Some 1" "be16 b 2 = Some (n - 20)" "be32 b 4 = Some 0x2112A442"
  proof -
    show "be16 b 0 = Some 1" by (simp add: b_def be16_put16)
    show "be16 b 2 = Some (n - 20)" using be16_put16_at [of "n - 20" "put16 0x0001" 2] assms by (simp add: b_def)
    have "b ! 4 = 0x21" "b ! 5 = 0x12" "b ! 6 = 0xA4" "b ! 7 = 0x42" by (simp_all add: b_def put16_def put32_def stunMagicCookie_def nth_append)
    moreover have "4 + 3 < length b" using lb assms(1) by auto
    ultimately show "be32 b 4 = Some 0x2112A442" by (simp add: be32_lt)
  qed
  have n20: "\<not> n < 20" "n = n - 20 + 20" using assms(1) by auto
  then have stun: "IsSTUNMessage b = Some True" using f lb by (simp add: IsSTUNMessage_def)
  have "n \<noteq> 74" using assms(1) by auto
  then have "IsIPDiscovery b = Some False" using lb by (simp add: IsIPDiscovery_def)
  then have "udpL7Class b = Some (str ''stun'')" using stun by (simp add: udpL7Class_def)
  then show ?thesis using built lb stun by blast
qed

text \<open>
  C35. What the service makes up for UDP is what it and a receiver take it for. A generated QUIC Initial of any allowed size has that size, is an
  Initial to the readers with the connection ids that were drawn, and its length field covers exactly the rest; a generated STUN request is
  recognised as STUN and not as Discord; a datagram that is built is read back as its addresses, ports and payload, over IPv4 and IPv6.
\<close>

theorem generated_udp_packets:
  assumes "30 \<le> n" "n \<le> 16409" "m = 20 \<or> 24 \<le> m \<and> m mod 4 = 0" "m \<le> 65555"
    and "to4 s4 = Some src4" "to4 d4 = Some dst4" "to16 s6 = Some src6" "to16 d6 = Some dst6" "to4 s6 = None" "to4 d6 = None"
    and "length payload \<le> 65507" "sport < 65536" "dport < 65536"
  shows "(\<exists>b. BuildQUICInitial (int n) (Some r1) (Some r2) (Some r3) = Some b \<and> length b = n \<and> IsInitial b \<and> LooksLikeQUIC b = Some True \<and>
      ParseInitialCIDs b = Some (Some (map r1 [0..<8], map r2 [0..<8], versionV1)) \<and> readVar (drop 24 b) = (word_of_nat (n - 26), 2)) \<and>
    (\<exists>b. BuildSTUNRequest (int m) (Some r1) (Some r2) = Some b \<and> length b = m \<and> IsSTUNMessage b = Some True \<and> udpL7Class b = Some (str ''stun'')) \<and>
    (\<exists>q. BuildUDPPacketV4 ident s4 d4 sport dport payload = Some (Some q) \<and> udp4_view q = Some (src4, dst4, sport, dport, payload)) \<and>
    (\<exists>q. BuildUDPPacketV6 s6 d6 sport dport payload = Some (Some q) \<and> udp6_view q = Some (src6, dst6, sport, dport, payload))"
  using quic_initial_built [OF assms(1,2)] stun_request_built [OF assms(3,4)] BuildUDPPacketV4_view [OF assms(5,6,11-13)]
    BuildUDPPacketV6_view [OF assms(7-10) _ assms(12,13)] assms(11) by auto

theorem generated_udp_packets_witness:
  "(\<exists>b. BuildQUICInitial 1200 (Some (\<lambda>i. 1)) (Some (\<lambda>i. 2)) (Some (\<lambda>i. 3)) = Some b \<and> IsInitial b) \<and>
   (\<exists>b. BuildSTUNRequest 64 (Some (\<lambda>i. 1)) (Some (\<lambda>i. 2)) = Some b \<and> IsSTUNMessage b = Some True) \<and>
   (\<exists>q. BuildUDPPacketV4 7 [10, 0, 0, 1] [10, 0, 0, 2] 5000 443 [1, 2] = Some (Some q) \<and> udp4_view q = Some ([10, 0, 0, 1], [10, 0, 0, 2], 5000, 443, [1, 2])) \<and>
   (\<exists>q. BuildUDPPacketV6 (replicate 16 1) (replicate 16 2) 5000 443 [1, 2] = Some (Some q) \<and>
      udp6_view q = Some (replicate 16 1, replicate 16 2, 5000, 443, [1, 2]))"
proof -
  have a: "to4 [10, 0, 0, 1] = Some [10, 0, 0, 1]" "to4 [10, 0, 0, 2] = Some [10, 0, 0, 2]" "to16 (replicate 16 1) = Some (replicate 16 1)"
      "to16 (replicate 16 2) = Some (replicate 16 2)" "to4 (replicate 16 1) = None" "to4 (replicate 16 2) = None"
    by (simp_all add: to4_def to16_def numeral_eq_Suc)
  show ?thesis using generated_udp_packets [of 1200 64, OF _ _ _ _ a, of "[1, 2]" 5000 443 "\<lambda>i. 1" "\<lambda>i. 2" "\<lambda>i. 3" 7] by auto
qed

end
