(* ===== verification/Udp_Replace.thy ===== *)
theory Udp_Replace
  imports Udp_Send
begin

text \<open>
  \<^verbatim>\<open>sock/udp_replace.go\<close>: another payload in a datagram that waits for its verdict. The handlers of DNS put a rewritten answer
  into the reply of the server with it. The receiver is the one of \<^verbatim>\<open>Udp_Send\<close>.
\<close>

unbundle bit_operations_syntax

definition replaced4 :: "bytes \<Rightarrow> nat \<Rightarrow> bytes \<Rightarrow> bytes option" where
  "replaced4 raw l4off payload = do {
     let total = l4off + 8 + length payload;
     let out = take (l4off + 8) raw @ payload;
     old \<leftarrow> be16 raw 2;
     out \<leftarrow> (if total > old then do { flags \<leftarrow> at out 6; put_at out 6 [flags AND NOT 0x40] } else Some out);
     out \<leftarrow> put_at out 2 (put16 total);
     out \<leftarrow> put_at out (l4off + 4) (put16 (8 + length payload));
     out \<leftarrow> fix_ip_header out l4off;
     FixUDPChecksum out l4off }"

definition replaced6 :: "bytes \<Rightarrow> bytes \<Rightarrow> bytes option" where
  "replaced6 raw payload = do {
     let out = take 48 raw @ payload;
     out \<leftarrow> put_at out 4 (put16 (8 + length payload));
     out \<leftarrow> put_at out 44 (put16 (8 + length payload));
     FixUDPChecksumV6 out }"

definition ReplaceUDPPayload :: "bytes \<Rightarrow> int \<Rightarrow> bytes \<Rightarrow> bytes option option" where
  "ReplaceUDPPayload raw l4off payload =
     (if raw = [] \<or> l4off < 0 \<or> int (length raw) < l4off + 8 then Some None
      else if l4off + 8 + int (length payload) > 0xffff then Some None
      else if drop_bit 4 (raw ! 0) = 4 then do {
        ihl \<leftarrow> ip_hdr_len raw;
        if l4off < 20 \<or> l4off \<noteq> int ihl then Some None
        else do {
          proto \<leftarrow> at raw 9;
          if proto \<noteq> 17 then Some None
          else do {
            frag \<leftarrow> be16 raw 6;
            if frag AND 0x3fff \<noteq> 0 then Some None
            else do { out \<leftarrow> replaced4 raw (nat l4off) payload; Some (Some out) } } } }
      else if drop_bit 4 (raw ! 0) = 6 then
        (if l4off \<noteq> 40 then Some None
         else do {
           proto \<leftarrow> at raw 6;
           if proto \<noteq> 17 then Some None
           else do { out \<leftarrow> replaced6 raw payload; Some (Some out) } })
      else Some None)"

subsection \<open>What the receiver sees\<close>

lemma take_eight: "take (h + 8) p = take h p @ take 4 (drop h p) @ take 2 (drop (h + 4) p) @ take 2 (drop (h + 6) p)"
  using take_add [of h 8 p] take_add [of 4 4 "drop h p"] take_add [of 2 2 "drop (h + 4) p"] by (simp add: ac_simps)

lemma patch_length_field:
  assumes "length a = h" "length b = 4" "length old = 2"
  shows "patch (a @ b @ old @ r) (h + 4) (put16 n) = a @ b @ put16 n @ r"
  using patch_right [of "a @ b" "h + 4" "old @ r" 0 "put16 n"] assms by (simp add: patch_def)

lemma replaced4_view:
  assumes p: "ip_hdr_len p = Some h" "20 \<le> h" "h + 8 \<le> length p" "p ! 9 = 17" "be16 p 2 = Some n" and l: "h + 8 + length payload \<le> 65535"
  shows "\<exists>q. replaced4 p h payload = Some q \<and> length q = h + 8 + length payload \<and> q ! 8 = p ! 8 \<and>
    q ! 6 = (if n < length q then p ! 6 AND NOT 0x40 else p ! 6) \<and>
    udp4_view q = Some (take 4 (drop 12 p), take 4 (drop 16 p), fst (udp_ports p h), snd (udp_ports p h), payload)"
proof -
  let ?t = "h + 8 + length payload"
  define a where "a = take h p"
  define ports where "ports = take 4 (drop h p)"
  define old where "old = take 2 (drop (h + 4) p)"
  define ck where "ck = take 2 (drop (h + 6) p)"
  have ls: "length a = h" "length ports = 4" "length old = 2" "length ck = 2" using p by (simp_all add: a_def ports_def old_def ck_def)
  have na: "a ! i = p ! i" if "i < h" for i using that by (simp add: a_def)
  define b where "b = (if n < ?t then patch a 6 [p ! 6 AND NOT 0x40] else a)"
  define hdr where "hdr = patch b 2 (put16 ?t)"
  have lh: "length b = h" "length hdr = h" using ls p(2) by (simp_all add: b_def hdr_def)
  have nh: "hdr ! 0 = p ! 0" "hdr ! 8 = p ! 8" "hdr ! 9 = 17" "hdr ! 6 = (if n < ?t then p ! 6 AND NOT 0x40 else p ! 6)"
    using ls p(2,4) na by (simp_all add: hdr_def b_def nth_patch nth_patch_in)
  have hh: "ip_hdr_len hdr = Some h" using p(1,2) lh nh(1) by (auto simp: ip_hdr_len_eq)
  have b2: "be16 hdr 2 = Some ?t" using lh p(2) l by (simp add: hdr_def be16_patch_same)
  have ad: "take 4 (drop i hdr) = take 4 (drop i p)" if "12 \<le> i" "i \<le> 16" for i
    using that ls p(2) by (simp add: hdr_def b_def drop_patch) (simp add: a_def drop_take)
  have po: "256 * unat (ports ! 0) + unat (ports ! 1) = fst (udp_ports p h)" "256 * unat (ports ! 2) + unat (ports ! 3) = snd (udp_ports p h)"
    using p(3) by (simp_all add: ports_def udp_ports_def)
  have pt: "patch (patch (b @ ports @ old @ ck @ payload) 2 (put16 ?t)) (h + 4) (put16 (8 + length payload)) =
      hdr @ ports @ put16 (8 + length payload) @ ck @ payload"
    using ls lh p(2) patch_length_field [of hdr h ports old "ck @ payload"] by (simp add: hdr_def patch_append)
  have s1: "(if ?t > n then do { flags \<leftarrow> at (a @ ports @ old @ ck @ payload) 6; put_at (a @ ports @ old @ ck @ payload) 6 [flags AND NOT 0x40] }
      else Some (a @ ports @ old @ ck @ payload)) = Some (b @ ports @ old @ ck @ payload)"
    using ls p(2) na [of 6] by (auto simp: b_def at_def nth_append patch_append)
  have eq: "replaced4 p h payload = do { f \<leftarrow> fix_ip_header (hdr @ ports @ put16 (8 + length payload) @ ck @ payload) h; FixUDPChecksum f h }"
    using p(5) s1 pt lh ls p(2)
    by (simp add: replaced4_def take_eight a_def [symmetric] ports_def [symmetric] old_def [symmetric] ck_def [symmetric])
  show ?thesis
    using udp4_sealed_at [OF lh(2) p(2) hh nh(3) b2 ls(2,4)] nh(2,4) ad [of 12] ad [of 16] unfolding eq po by auto
qed

lemma replaced6_view:
  assumes p: "48 \<le> length p" "p ! 6 = 17" and l: "length payload \<le> 65487"
  shows "\<exists>q. replaced6 p payload = Some q \<and> length q = 48 + length payload \<and> q ! 7 = p ! 7 \<and>
    udp6_view q = Some (take 16 (drop 8 p), take 16 (drop 24 p), fst (udp_ports p 40), snd (udp_ports p 40), payload)"
proof -
  define a where "a = take 40 p"
  define ports where "ports = take 4 (drop 40 p)"
  define old where "old = take 2 (drop 44 p)"
  define ck where "ck = take 2 (drop 46 p)"
  have ls: "length a = 40" "length ports = 4" "length old = 2" "length ck = 2" using p by (simp_all add: a_def ports_def old_def ck_def)
  have e: "take 48 p = a @ ports @ old @ ck" using take_eight [of 40 p] by (simp add: a_def ports_def old_def ck_def)
  define hdr where "hdr = patch a 4 (put16 (8 + length payload))"
  have lh: "length hdr = 40" "hdr ! 6 = 17" "hdr ! 7 = p ! 7" using ls p by (simp_all add: hdr_def nth_patch a_def)
  have b4: "be16 hdr 4 = Some (8 + length payload)" using ls l by (simp add: hdr_def be16_patch_same)
  have ad: "take 16 (drop 8 hdr) = take 16 (drop 8 p)" "drop 24 hdr = take 16 (drop 24 p)"
    using ls p(1) by (simp_all add: hdr_def drop_patch) (simp_all add: a_def drop_take)
  have po: "256 * unat (ports ! 0) + unat (ports ! 1) = fst (udp_ports p 40)" "256 * unat (ports ! 2) + unat (ports ! 3) = snd (udp_ports p 40)"
    using p(1) by (simp_all add: ports_def udp_ports_def)
  have "patch (patch (a @ ports @ old @ ck @ payload) 4 (put16 (8 + length payload))) 44 (put16 (8 + length payload)) =
      hdr @ ports @ put16 (8 + length payload) @ ck @ payload"
    using ls lh patch_length_field [of hdr 40 ports old "ck @ payload"] by (simp add: hdr_def patch_append)
  then have eq: "replaced6 p payload = FixUDPChecksumV6 (hdr @ ports @ put16 (8 + length payload) @ ck @ payload)"
    using ls by (simp add: replaced6_def e)
  show ?thesis using udp6_sealed [OF lh(1,2) b4 ls(2,4)] lh(3) unfolding eq ad po by auto
qed

lemma ReplaceUDPPayload_no_panic: "no_panic (ReplaceUDPPayload raw l4off payload)"
proof (cases "raw = [] \<or> l4off < 0 \<or> int (length raw) < l4off + 8 \<or> l4off + 8 + int (length payload) > 0xffff")
  case True
  then show ?thesis by (auto simp: ReplaceUDPPayload_def no_panic_def)
next
  case False
  define h where "h = nat l4off"
  have h: "l4off = int h" "raw \<noteq> []" "h + 8 \<le> length raw" "h + 8 + length payload \<le> 65535" using False by (auto simp: h_def)
  obtain ihl where ihl: "ip_hdr_len raw = Some ihl" using h(2) by (simp add: ip_hdr_len_eq)
  have four: "replaced4 raw h payload \<noteq> None" if "20 \<le> h" "ihl = h" "raw ! 9 = 17"
  proof -
    obtain n where "be16 raw 2 = Some n" using h(3) by (simp add: be16_lt)
    then show ?thesis using replaced4_view [of raw h n payload] ihl that h(3,4) by auto
  qed
  have six: "replaced6 raw payload \<noteq> None" if "h = 40" "raw ! 6 = 17"
    using replaced6_view [of raw payload] that h(3,4) by auto
  show ?thesis using h ihl four six
    by (auto simp: ReplaceUDPPayload_def no_panic_def at_def be16_lt split: Option.bind_splits)
qed

text \<open>
  C26. Replacing the payload of a waiting datagram. No packet, offset or payload makes it panic. An intact datagram that is not a fragment
  and has room for the new payload becomes one that the receiver reads as coming from the same address and port, to the same
  address and port, with exactly the new payload; the hop limit stays, IP options stay, and over IPv4 a datagram that grows may be fragmented.
\<close>

theorem udp_payload_replaced:
  "no_panic (ReplaceUDPPayload raw l4off payload) \<and>
   (intact4 h u t p \<and> be16 p 6 = Some fl \<and> fl AND 0x3fff = 0 \<and> h + 8 + length payload \<le> 65535 \<longrightarrow>
     (\<exists>q. ReplaceUDPPayload p (int h) payload = Some (Some q) \<and> length q = h + 8 + length payload \<and> q ! 8 = t \<and>
        q ! 6 = (if length p < length q then p ! 6 AND NOT 0x40 else p ! 6) \<and>
        udp4_view q = Some (take 4 (drop 12 p), take 4 (drop 16 p), fst (udp_ports p h), snd (udp_ports p h), payload))) \<and>
   (intact6 h u t p \<and> 48 + length payload \<le> 65535 \<longrightarrow>
     (\<exists>q. ReplaceUDPPayload p 40 payload = Some (Some q) \<and> length q = 48 + length payload \<and> q ! 7 = t \<and>
        udp6_view q = Some (take 16 (drop 8 p), take 16 (drop 24 p), fst (udp_ports p 40), snd (udp_ports p 40), payload)))"
proof (intro conjI impI; (elim conjE)?)
  show "no_panic (ReplaceUDPPayload raw l4off payload)" by (rule ReplaceUDPPayload_no_panic)
next
  assume a: "intact4 h u t p" "be16 p 6 = Some fl" "fl AND 0x3fff = 0" "h + 8 + length payload \<le> 65535"
  obtain q where q: "replaced4 p h payload = Some q" "length q = h + 8 + length payload" "q ! 8 = p ! 8"
      "q ! 6 = (if length p < length q then p ! 6 AND NOT 0x40 else p ! 6)"
      "udp4_view q = Some (take 4 (drop 12 p), take 4 (drop 16 p), fst (udp_ports p h), snd (udp_ports p h), payload)"
    using replaced4_view [of p h "length p" payload] a by (auto simp: intact4_def)
  moreover have "ReplaceUDPPayload p (int h) payload = Some (Some q)"
    using a q(1) by (auto simp: ReplaceUDPPayload_def intact4_def at_def)
  ultimately show "\<exists>q. ReplaceUDPPayload p (int h) payload = Some (Some q) \<and> length q = h + 8 + length payload \<and> q ! 8 = t \<and>
      q ! 6 = (if length p < length q then p ! 6 AND NOT 0x40 else p ! 6) \<and>
      udp4_view q = Some (take 4 (drop 12 p), take 4 (drop 16 p), fst (udp_ports p h), snd (udp_ports p h), payload)"
    using a(1) by (auto simp: intact4_def)
next
  assume a: "intact6 h u t p" "48 + length payload \<le> 65535"
  obtain q where q: "replaced6 p payload = Some q" "length q = 48 + length payload" "q ! 7 = p ! 7"
      "udp6_view q = Some (take 16 (drop 8 p), take 16 (drop 24 p), fst (udp_ports p 40), snd (udp_ports p 40), payload)"
    using replaced6_view [of p payload] a by (auto simp: intact6_def)
  moreover have "ReplaceUDPPayload p 40 payload = Some (Some q)"
    using a q(1) by (auto simp: ReplaceUDPPayload_def intact6_def at_def)
  ultimately show "\<exists>q. ReplaceUDPPayload p 40 payload = Some (Some q) \<and> length q = 48 + length payload \<and> q ! 7 = t \<and>
      udp6_view q = Some (take 16 (drop 8 p), take 16 (drop 24 p), fst (udp_ports p 40), snd (udp_ports p 40), payload)"
    using a(1) by (auto simp: intact6_def)
qed

theorem udp_payload_replaced_witness:
  "(\<exists>q. ReplaceUDPPayload quic4 20 [1, 2, 3] = Some (Some q) \<and> q ! 8 = 64 \<and>
      udp4_view q = Some (take 4 (drop 12 quic4), take 4 (drop 16 quic4), fst (udp_ports quic4 20), snd (udp_ports quic4 20), [1, 2, 3])) \<and>
   (\<exists>q. ReplaceUDPPayload quic6 40 [1, 2, 3] = Some (Some q) \<and> q ! 7 = 64 \<and>
      udp6_view q = Some (take 16 (drop 8 quic6), take 16 (drop 24 quic6), fst (udp_ports quic6 40), snd (udp_ports quic6 40), [1, 2, 3]))"
proof -
  have f: "be16 quic4 6 = Some 0x4000" "(0x4000 :: nat) AND 0x3fff = 0" by (simp_all add: quic4_def be16_def)
  note all = udp_payload_replaced [where payload = "[1, 2, 3]"]
  have "\<exists>q. ReplaceUDPPayload quic4 (int 20) [1, 2, 3] = Some (Some q) \<and> q ! 8 = 64 \<and>
      udp4_view q = Some (take 4 (drop 12 quic4), take 4 (drop 16 quic4), fst (udp_ports quic4 20), snd (udp_ports quic4 20), [1, 2, 3])"
    using all [THEN conjunct2, THEN conjunct1, THEN mp, OF conjI [OF quic_packets(1) conjI [OF f(1) conjI [OF f(2)]]]] by auto
  moreover have "\<exists>q. ReplaceUDPPayload quic6 40 [1, 2, 3] = Some (Some q) \<and> q ! 7 = 64 \<and>
      udp6_view q = Some (take 16 (drop 8 quic6), take 16 (drop 24 quic6), fst (udp_ports quic6 40), snd (udp_ports quic6 40), [1, 2, 3])"
    using all [THEN conjunct2, THEN conjunct2, THEN mp, OF conjI [OF quic_packets(2)]] by auto
  ultimately show ?thesis by simp
qed

end
