(* ===== verification/Dns_Names.thy ===== *)
theory Dns_Names
  imports Dns_Answer
begin

text \<open>
  What the readers of DNS messages make of names: they never panic, an encoded name is
  skipped and read back, and a query that was built is read back.
\<close>

subsection \<open>No panics\<close>

lemma no_panic_map_option [no_panic_intros]: "no_panic m \<Longrightarrow> no_panic (map_option f m)"
  by (auto simp: no_panic_def)

lemma no_panic_query_labels [no_panic_intros]: "no_panic (query_labels payload pos encoded domain)"
proof (induction payload pos encoded domain rule: query_labels.induct)
  case (1 payload pos encoded domain)
  show ?case
  proof (cases "pos < length payload")
    case True
    then show ?thesis using 1
      by (auto simp: query_labels.simps [of payload pos encoded domain] no_panic_def)
  qed (simp add: query_labels.simps)
qed

lemma no_panic_skip_loop [no_panic_intros]: "no_panic (skip_loop payload pos jumps jumped nxt)"
proof (induction payload pos jumps jumped nxt rule: skip_loop.induct)
  case (1 payload pos jumps jumped nxt)
  show ?case
  proof (cases "pos < length payload")
    case True
    moreover have "pos + 1 < length payload \<Longrightarrow> be16 payload pos \<noteq> None" by (simp add: be16_lt)
    ultimately show ?thesis using 1
      by (auto simp: skip_loop.simps [of payload pos jumps jumped nxt] no_panic_def Let_def split: if_splits)
  qed (simp add: skip_loop.simps)
qed

lemma no_panic_read_labels [no_panic_intros]: "no_panic (read_labels payload pos jumps ls)"
proof (induction payload pos jumps ls rule: read_labels.induct)
  case (1 payload pos jumps ls)
  show ?case
  proof (cases "pos < length payload")
    case True
    moreover have "pos + 1 < length payload \<Longrightarrow> be16 payload pos \<noteq> None" by (simp add: be16_lt)
    ultimately show ?thesis using 1
      by (auto simp: read_labels.simps [of payload pos jumps ls] no_panic_def Let_def split: if_splits)
  qed (simp add: read_labels.simps)
qed

lemma no_panic_skipDNSName [no_panic_intros]: "no_panic (skipDNSName payload start)"
  unfolding skipDNSName_def by (intro no_panic_intros)

lemma no_panic_readName [no_panic_intros]: "no_panic (readName payload offset)"
  unfolding readName_def by (intro no_panic_intros)

lemma skip_loop_jumped: "skip_loop payload pos jumps True nxt = Some (Some n) \<Longrightarrow> n = nxt"
proof (induction payload pos jumps True nxt rule: skip_loop.induct)
  case (1 payload pos jumps nxt)
  show ?case
  proof (cases "pos < length payload")
    case True
    then show ?thesis using 1
      by (auto simp: skip_loop.simps [of payload pos jumps True nxt] bind_eq_Some_conv Let_def split: if_splits)
  next
    case False
    then show ?thesis using 1(3) by (simp add: skip_loop.simps)
  qed
qed

lemma skip_loop_next:
  "skip_loop payload pos jumps False nxt = Some (Some n) \<Longrightarrow> pos < n \<and> n \<le> length payload"
proof (induction payload pos jumps False nxt rule: skip_loop.induct)
  case (1 payload pos jumps nxt)
  show ?case
  proof (cases "pos < length payload")
    case True
    then show ?thesis using 1(2,3)
      by (auto simp: skip_loop.simps [of payload pos jumps False nxt] bind_eq_Some_conv Let_def split: if_splits
          dest!: skip_loop_jumped)
  next
    case False
    then show ?thesis using 1(3) by (simp add: skip_loop.simps)
  qed
qed

lemma skipDNSName_next: "skipDNSName payload start = Some (Some n) \<Longrightarrow> start < n \<and> n \<le> length payload"
  using skip_loop_next [of payload start 0 start n] by (auto simp: skipDNSName_def split: if_splits)

lemma question_end_bounds: "question_end msg = Some (Some e) \<Longrightarrow> 16 < e \<and> e \<le> length msg"
proof -
  assume "question_end msg = Some (Some e)"
  then obtain n where "skipDNSName msg 12 = Some (Some n)" "e = n + 4" "n + 4 \<le> length msg"
    by (auto simp: question_end_def bind_eq_Some_conv split: option.splits if_splits)
  then show ?thesis using skipDNSName_next [of msg 12 n] by simp
qed

lemma no_panic_question_end [no_panic_intros]: "no_panic (question_end msg)"
  unfolding question_end_def by (intro no_panic_intros)

lemma no_panic_rr_at [no_panic_intros]: "no_panic (rr_at payload offset)"
  unfolding rr_at_def by (auto intro!: no_panic_intros)

lemma rr_at_bounds: "rr_at payload offset = Some (Some (typ, start, n)) \<Longrightarrow> start + n \<le> length payload"
  by (auto simp: rr_at_def bind_eq_Some_conv split: option.splits if_splits)

lemma no_panic_answer_ips [no_panic_intros]: "no_panic (answer_ips payload n offset)"
  by (induction payload n offset rule: answer_ips.induct)
    (auto intro!: no_panic_intros dest: rr_at_bounds)

lemma no_panic_skip_questions [no_panic_intros]: "no_panic (skip_questions payload n offset)"
  by (induction payload n offset rule: skip_questions.induct) (auto intro!: no_panic_intros)

lemma no_panic_txt_chunks [no_panic_intros]: "e \<le> length payload \<Longrightarrow> no_panic (txt_chunks payload p e acc)"
proof (induction payload p e acc rule: txt_chunks.induct)
  case (1 payload p e acc)
  then show ?case
    by (cases "p < e") (auto simp: txt_chunks.simps [of payload p e acc] no_panic_def split: if_splits)
qed

lemma no_panic_answer_txts [no_panic_intros]: "no_panic (answer_txts payload n offset)"
proof (induction payload n offset rule: answer_txts.induct)
  case (2 payload n offset)
  show ?case
    unfolding answer_txts.simps
    by (auto intro!: no_panic_intros 2 dest: rr_at_bounds)
qed simp

lemma no_panic_ParseQueryDomain: "no_panic (ParseQueryDomain payload)"
  unfolding ParseQueryDomain_def by (auto intro!: no_panic_intros)

lemma no_panic_ParseResponseIPs: "no_panic (ParseResponseIPs payload)"
  unfolding ParseResponseIPs_def by (auto intro!: no_panic_intros)

lemma no_panic_ParseResponseTXT: "no_panic (ParseResponseTXT payload)"
  unfolding ParseResponseTXT_def by (auto intro!: no_panic_intros)

lemma no_panic_QuestionType: "no_panic (QuestionType payload)"
  unfolding QuestionType_def by (auto intro!: no_panic_intros dest: question_end_bounds)

lemma no_panic_BuildBlockResponse [no_panic_intros]: "no_panic (BuildBlockResponse query)"
  unfolding BuildBlockResponse_def
  by (auto simp: put_at_eq dest!: question_end_bounds sub_bytes_SomeD intro!: no_panic_intros)

lemma BuildBlockResponse_length: "BuildBlockResponse query = Some (Some resp) \<Longrightarrow> 16 < length resp"
  by (auto simp: BuildBlockResponse_def bind_eq_Some_conv put_at_eq split: option.splits if_splits dest!: question_end_bounds sub_bytes_SomeD)

lemma no_panic_BuildServfailResponse: "no_panic (BuildServfailResponse query)"
  unfolding BuildServfailResponse_def by (auto intro!: no_panic_intros dest!: BuildBlockResponse_length)

lemma no_panic_BuildEmptyAnswer: "no_panic (BuildEmptyAnswer msg)"
  unfolding BuildEmptyAnswer_def
  by (auto simp: put_at_eq dest!: question_end_bounds sub_bytes_SomeD intro!: no_panic_intros)

lemma no_panic_answer_data [no_panic_intros]: "no_panic (answer_data payload rr offset rdLen)"
  unfolding answer_data_def by (auto intro!: no_panic_intros)

lemma no_panic_read_answer [no_panic_intros]: "no_panic (read_answer payload offset)"
  unfolding read_answer_def by (auto intro!: no_panic_intros)

lemma no_panic_read_answers [no_panic_intros]: "no_panic (read_answers payload n offset)"
  by (induction payload n offset rule: read_answers.induct) (auto intro!: no_panic_intros)

lemma no_panic_read_additional [no_panic_intros]: "no_panic (read_additional payload n offset edns)"
  by (induction payload n offset edns rule: read_additional.induct) (auto intro!: no_panic_intros)

lemma readName_next: "readName payload offset = Some (Some (nm, n)) \<Longrightarrow> skipDNSName payload offset = Some (Some n)"
  by (auto simp: readName_def bind_eq_Some_conv split: option.splits)

lemma read_answer_parts:
  assumes "read_answer payload offset = Some (Some (rr, e))"
  obtains name nxt ty cls ttl rdLen rdata where
    "readName payload offset = Some (Some (name, nxt))" "be16 payload nxt = Some ty" "be16 payload (nxt + 8) = Some rdLen"
    "be16 payload (nxt + 2) = Some cls" "be32 payload (nxt + 4) = Some ttl"
    "nxt + 10 + rdLen \<le> length payload" "e = nxt + 10 + rdLen" "sub_bytes payload (nxt + 10) (nxt + 10 + rdLen) = Some rdata"
    "answer_data payload
       \<lparr>rr_name = name, rr_typ = ty, rr_class = cls, rr_ttl = ttl, rr_rdata = rdata, rr_ip = None, rr_target = []\<rparr> (nxt + 10) rdLen
     = Some (Some rr)"
proof -
  from assms obtain name nxt where n: "readName payload offset = Some (Some (name, nxt))"
    unfolding read_answer_def by (auto simp: bind_eq_Some_conv split: option.splits)
  note r = assms [unfolded read_answer_def n, simplified]
  from r have l: "nxt + 10 \<le> length payload" by (simp split: if_splits)
  obtain ty cls ttl rdLen where b: "be16 payload nxt = Some ty" "be16 payload (nxt + 2) = Some cls"
      "be32 payload (nxt + 4) = Some ttl" "be16 payload (nxt + 8) = Some rdLen"
    using l by (simp add: be32_def be16_lt)
  have m: "nxt + 10 + rdLen \<le> length payload" using r l b by (simp split: if_splits)
  then have "sub_bytes payload (nxt + 10) (nxt + 10 + rdLen) = Some (take rdLen (drop (nxt + 10) payload))" by simp
  from this n b m r show thesis by (intro that) (auto simp: bind_eq_Some_conv)
qed

lemma read_answer_bounds: "read_answer payload offset = Some (Some (rr, e)) \<Longrightarrow> offset < e \<and> e \<le> length payload"
  by (erule read_answer_parts) (auto dest!: readName_next skipDNSName_next)

lemma read_answers_bounds:
  "read_answers payload n offset = Some (Some (rrs, e)) \<Longrightarrow> offset \<le> length payload \<Longrightarrow> offset \<le> e \<and> e \<le> length payload \<and> length rrs = n"
proof (induction payload n offset arbitrary: rrs rule: read_answers.induct)
  case (2 payload n offset)
  then obtain rr o1 rrs' where r: "read_answer payload offset = Some (Some (rr, o1))"
      "read_answers payload n o1 = Some (Some (rrs', e))" "rrs = rr # rrs'"
    by (auto simp: bind_eq_Some_conv split: option.splits prod.splits)
  then show ?case using "2.IH" [OF r(1) refl refl r(2)] read_answer_bounds [OF r(1)] by auto
qed auto

lemma read_additional_bounds:
  "read_additional payload n offset edns = Some (Some (e, d)) \<Longrightarrow> offset \<le> length payload \<Longrightarrow> offset \<le> e \<and> e \<le> length payload"
  by (induction payload n offset edns rule: read_additional.induct)
    (fastforce simp: bind_eq_Some_conv split: if_splits)+

lemma parse_answer_parts:
  assumes "12 \<le> length payload"
  shows "readName payload 12 = Some (Some (q, o1)) \<Longrightarrow> 12 < o1 \<and> o1 \<le> length payload"
    and "read_answers payload n o1 = Some (Some (rrs, o2)) \<Longrightarrow> o1 \<le> length payload \<Longrightarrow> o1 \<le> o2 \<and> o2 \<le> length payload"
    and "read_additional payload n o1 d = Some (Some (e, d')) \<Longrightarrow> o1 \<le> length payload \<Longrightarrow> o1 \<le> e \<and> e \<le> length payload"
  using readName_next [of payload 12 q o1] skipDNSName_next [of payload 12 o1] read_answers_bounds [of payload n o1 rrs o2]
    read_additional_bounds [of payload n o1 d e d'] by auto

lemma no_panic_parse_sections:
  assumes "12 \<le> length payload" "12 < offset"
  shows "no_panic (parse_sections payload an ar q offset)"
proof -
  note p = parse_answer_parts [OF assms(1)]
  show ?thesis
    unfolding parse_sections_def
    by (intro no_panic_intros) (use assms(2) p(2,3) in \<open>fastforce+\<close>)
qed

lemma no_panic_parse_answer [no_panic_intros]: "no_panic (parse_answer payload)"
proof (cases "length payload < 12")
  case False
  then have l: "12 \<le> length payload" by simp
  show ?thesis
    unfolding parse_answer_def
    by (intro no_panic_intros) (use False no_panic_parse_sections [OF l] parse_answer_parts(1) [OF l] in auto)
qed (simp add: parse_answer_def)

lemma parse_answer_length: "parse_answer payload = Some (Some x) \<Longrightarrow> 12 \<le> length payload"
  by (auto simp: parse_answer_def split: if_splits)

lemma no_panic_FilterAnswerIPs: "no_panic (FilterAnswerIPs L payload ttlCap maxSize dropper)"
proof -
  have "no_panic (rewrite_answer L payload ttlCap maxSize dr q qu an ad ed)" if "12 \<le> length payload" for dr q qu an ad ed
    using that unfolding rewrite_answer_def Let_def by (auto intro!: no_panic_intros)
  then show ?thesis unfolding FilterAnswerIPs_def by (auto intro!: no_panic_intros dest: parse_answer_length)
qed

lemma no_panic_BuildAnswerFromIPs: "no_panic (BuildAnswerFromIPs payload ttl ips)"
  unfolding BuildAnswerFromIPs_def Let_def
  by (auto simp: put_at_eq dest!: question_end_bounds sub_bytes_SomeD intro!: no_panic_intros)

lemma length_to4: "to4 ip = Some a \<Longrightarrow> length a = 4"
  by (auto simp: to4_def split: if_splits)

lemma length_to16: "to16 ip = Some a \<Longrightarrow> length a = 16"
  by (auto simp: to16_def split: if_splits)

lemma BuildQuery_length: "17 \<le> length (BuildQuery domain txid qtype)"
  by (simp add: BuildQuery_def Let_def)

lemma no_panic_BuildQueryWithECS: "no_panic (BuildQueryWithECS domain txid qtype ip netmask)"
  unfolding BuildQueryWithECS_def Let_def
  by (auto intro!: no_panic_intros split: prod.splits) 

text \<open>
  Whatever bytes arrive, no reader, filter or builder of DNS messages indexes out of range; compression pointers
  cannot make the readers run forever (they are total functions).
\<close>

theorem dns_readers_never_panic:
  "no_panic (ParseQueryDomain m) \<and> no_panic (ParseResponseIPs m) \<and> no_panic (ParseResponseTXT m) \<and> no_panic (QuestionType m) \<and>
   no_panic (BuildBlockResponse m) \<and> no_panic (BuildServfailResponse m) \<and> no_panic (BuildEmptyAnswer m) \<and>
   no_panic (readName m offset) \<and> no_panic (FilterAnswerIPs L m ttl maxSize dropper) \<and> no_panic (BuildAnswerFromIPs m ttl ips) \<and>
   no_panic (BuildQueryWithECS domain txid qtype ip netmask)"
  by (simp add: no_panic_ParseQueryDomain no_panic_ParseResponseIPs no_panic_ParseResponseTXT no_panic_QuestionType
      no_panic_BuildBlockResponse no_panic_BuildServfailResponse no_panic_BuildEmptyAnswer no_panic_readName
      no_panic_FilterAnswerIPs no_panic_BuildAnswerFromIPs no_panic_BuildQueryWithECS)

subsection \<open>Encoded names\<close>

definition plain_labels :: "gostr list \<Rightarrow> bool" where
  "plain_labels ls \<longleftrightarrow> (\<forall>l \<in> set ls. l \<noteq> [] \<and> length l \<le> 63)"

definition enc_labels :: "gostr list \<Rightarrow> bytes" where
  "enc_labels ls = concat (map encode_label ls) @ [0]"

definition name_at :: "bytes \<Rightarrow> nat \<Rightarrow> gostr list \<Rightarrow> bool" where
  "name_at b i ls \<longleftrightarrow> plain_labels ls \<and> has_prefix (drop i b) (enc_labels ls)"

lemma label_length:
  assumes "0 < n" "n \<le> 63"
  shows "(word_of_nat n :: byte) \<noteq> 0" "unat (word_of_nat n :: byte) = n" "\<not> (word_of_nat n AND 0xC0 = (0xC0 :: byte))"
proof -
  show u: "unat (word_of_nat n :: byte) = n" using assms by (simp add: unat_of_nat)
  then show "(word_of_nat n :: byte) \<noteq> 0" using assms by auto
  show "\<not> (word_of_nat n AND 0xC0 = (0xC0 :: byte))"
  proof
    assume "word_of_nat n AND 0xC0 = (0xC0 :: byte)"
    then have "(0xC0 :: byte) \<le> word_of_nat n" using word_and_le2 [of "word_of_nat n" "0xC0 :: byte"] by metis
    then show False using assms u by (simp add: word_le_nat_alt)
  qed
qed

lemma name_at_append: "name_at b i ls \<Longrightarrow> name_at (b @ c) i ls"
proof -
  assume n: "name_at b i ls"
  then have "i \<le> length b" by (cases "i \<le> length b") (auto simp: name_at_def has_prefix_def enc_labels_def)
  then show ?thesis using n by (auto simp: name_at_def has_prefix_append)
qed

lemma name_at_here: "plain_labels ls \<Longrightarrow> name_at (b @ enc_labels ls @ c) (length b) ls"
  by (auto simp: name_at_def has_prefix_append)

lemma name_at_Nil: "name_at b i [] \<Longrightarrow> i < length b \<and> b ! i = 0"
  by (cases "i < length b") (auto simp: name_at_def enc_labels_def has_prefix_def Cons_nth_drop_Suc [symmetric])

lemma name_at_Cons:
  assumes "name_at b i (l # ls)"
  shows "i < length b" "b ! i = word_of_nat (length l)" "i + 1 + length l \<le> length b"
    "take (length l) (drop (i + 1) b) = l" "name_at b (i + 1 + length l) ls" "0 < length l" "length l \<le> 63"
proof -
  obtain c where c: "drop i b = (word_of_nat (length l) # l) @ enc_labels ls @ c"
    using assms by (auto simp: name_at_def has_prefix_append enc_labels_def encode_label_def)
  then show i: "i < length b" "b ! i = word_of_nat (length l)" by (auto simp: nth_via_drop intro: ccontr)
  have d: "drop (i + 1) b = l @ enc_labels ls @ c" using c by (metis drop_drop add.commute append_Cons drop0 drop_Suc_Cons One_nat_def)
  then show "take (length l) (drop (i + 1) b) = l" by simp
  have "length (drop (i + 1) b) \<ge> length l" using d by simp
  then show "i + 1 + length l \<le> length b" using i(1) by simp
  have "drop (i + 1 + length l) b = drop (length l) (drop (i + 1) b)" by (simp add: add.commute)
  then have "drop (i + 1 + length l) b = enc_labels ls @ c" unfolding d by simp
  then show "name_at b (i + 1 + length l) ls" using assms by (auto simp: name_at_def has_prefix_append plain_labels_def)
  show "0 < length l" "length l \<le> 63" using assms by (auto simp: name_at_def plain_labels_def)
qed

lemma skip_plain:
  "name_at b i ls \<Longrightarrow> skip_loop b i j jumped nxt = Some (Some (if jumped then nxt else i + length (enc_labels ls)))"
proof (induction ls arbitrary: i nxt)
  case Nil
  then show ?case using name_at_Nil [OF Nil] by (simp add: skip_loop.simps enc_labels_def)
next
  case (Cons l ls)
  note n = name_at_Cons [OF Cons.prems]
  note w = label_length [OF n(6,7)]
  have "skip_loop b i j jumped nxt = skip_loop b (i + 1 + length l) j jumped (if \<not> jumped then i + 1 + length l else nxt)"
    using n(1-3) w by (simp add: skip_loop.simps [of b i])
  then show ?case using Cons.IH [OF n(5)] by (simp add: enc_labels_def encode_label_def)
qed

lemma skipDNSName_plain: "name_at b i ls \<Longrightarrow> skipDNSName b i = Some (Some (i + length (enc_labels ls)))"
  using skip_plain [of b i ls 0 False i] name_at_Nil [of b i] name_at_Cons(1) [of b i]
  by (cases ls) (auto simp: skipDNSName_def)

text \<open>A compression pointer to a plain name.\<close>

definition pointer :: "nat \<Rightarrow> bytes" where
  "pointer off = [0xC0 OR word_of_nat (off div 256), word_of_nat off]"

lemma pointer_high:
  assumes "k < 64"
  shows "unat (0xC0 OR word_of_nat k :: byte) = 192 + k" "(0xC0 OR word_of_nat k) AND 0xC0 = (0xC0 :: byte)"
proof -
  have "list_all (\<lambda>k. unat (0xC0 OR word_of_nat k :: byte) = 192 + k \<and> (0xC0 OR word_of_nat k) AND 0xC0 = (0xC0 :: byte)) [0..<64]"
    by code_simp
  then show "unat (0xC0 OR word_of_nat k :: byte) = 192 + k" "(0xC0 OR word_of_nat k) AND 0xC0 = (0xC0 :: byte)"
    using assms by (auto simp: list_all_iff)
qed

lemma pointer_read:
  assumes "off < 16384" "has_prefix (drop i b) (pointer off)"
  shows "i + 1 < length b" "be16 b i = Some (49152 + off)" "b ! i \<noteq> 0" "b ! i AND 0xC0 = 0xC0"
proof -
  obtain c where c: "drop i b = pointer off @ c" using assms(2) by (auto simp: has_prefix_append)
  then have "length (drop i b) \<ge> 2" by (simp add: pointer_def)
  then show i: "i + 1 < length b" by simp
  have b: "b ! i = 0xC0 OR word_of_nat (off div 256)" "b ! Suc i = word_of_nat off"
    using c i nth_drop [of i b 0] nth_drop [of i b 1] by (auto simp: pointer_def)
  note h = pointer_high [of "off div 256"]
  show "b ! i AND 0xC0 = 0xC0" using h assms b by simp
  then show "b ! i \<noteq> 0" by auto
  show "be16 b i = Some (49152 + off)" using i b h assms by (simp add: be16_lt unat_of_nat)
qed

lemma name_at_less: "name_at b i ls \<Longrightarrow> i < length b"
  using name_at_Nil [of b i] name_at_Cons(1) [of b i] by (cases ls) auto

lemma pointer_target: "off < 16384 \<Longrightarrow> (49152 + off) mod 16384 = (off :: nat)"
  using mod_mult_self1 [of off 3 16384] by (simp add: add.commute)

lemma skipDNSName_pointer:
  assumes "name_at b off ls" "off < 16384" "has_prefix (drop i b) (pointer off)"
  shows "skipDNSName b i = Some (Some (i + 2))"
  using pointer_read [OF assms(2,3)] name_at_less [OF assms(1)] skip_plain [OF assms(1), of 1 True "i + 2"] assms(2)
  by (simp add: skipDNSName_def skip_loop.simps [of b i] Let_def pointer_target)

lemma read_labels_plain: "name_at b i ls \<Longrightarrow> read_labels b i j acc = Some (Some (acc @ ls))"
proof (induction ls arbitrary: i acc)
  case Nil
  then show ?case using name_at_Nil [OF Nil] by (simp add: read_labels.simps)
next
  case (Cons l ls)
  note n = name_at_Cons [OF Cons.prems]
  note w = label_length [OF n(6,7)]
  have "read_labels b i j acc = read_labels b (i + 1 + length l) j (acc @ [l])"
    using n(1-4) w by (simp add: read_labels.simps [of b i])
  then show ?case using Cons.IH [OF n(5)] by simp
qed

lemma readName_plain: "name_at b i ls \<Longrightarrow> readName b i = Some (Some (join_byte ls 46, i + length (enc_labels ls)))"
  by (simp add: readName_def skipDNSName_plain read_labels_plain)

lemma readName_pointer:
  assumes "name_at b off ls" "off < 16384" "has_prefix (drop i b) (pointer off)"
  shows "readName b i = Some (Some (join_byte ls 46, i + 2))"
proof -
  have "read_labels b i 0 [] = Some (Some ls)"
    using pointer_read [OF assms(2,3)] name_at_less [OF assms(1)] read_labels_plain [OF assms(1)] assms(2)
    by (simp add: read_labels.simps [of b i] Let_def pointer_target)
  then show ?thesis using skipDNSName_pointer [OF assms] by (simp add: readName_def)
qed

end
