(* ===== verification/Dns_Query.thy ===== *)
theory Dns_Query
  imports Dns_Names
begin

text \<open>
  A query that was built is read back, and so are the replies made from it: the block, failure and empty answers
  and the answer with given addresses.
\<close>

subsection \<open>The name of a question\<close>

definition dotted :: "gostr \<Rightarrow> gostr list \<Rightarrow> gostr" where
  "dotted domain ls = foldl (\<lambda>d l. (if d \<noteq> [] then d @ [46] else d) @ l) domain ls"

lemma dotted_Cons: "dotted d (l # ls) = dotted ((if d \<noteq> [] then d @ [46] else d) @ l) ls"
  by (simp add: dotted_def)

lemma dotted_nonempty: "d \<noteq> [] \<Longrightarrow> dotted d (l # ls) = d @ 46 # join_byte (l # ls) 46"
proof (induction ls arbitrary: d l)
  case (Cons m ls)
  have "dotted d (l # m # ls) = dotted (d @ 46 # l) (m # ls)" using Cons.prems by (simp add: dotted_Cons)
  then show ?case using Cons.IH [of "d @ 46 # l" m] by simp
qed (simp add: dotted_def)

lemma dotted_join: "(\<forall>l \<in> set ls. l \<noteq> []) \<Longrightarrow> dotted [] ls = join_byte ls 46"
proof (induction ls "46 :: byte" rule: join_byte.induct)
  case (3 x y ys)
  then have "x \<noteq> []" by simp
  then show ?case using dotted_nonempty [of x y ys] by (simp add: dotted_Cons [of "[]" x])
qed (auto simp: dotted_def)

lemma query_labels_plain:
  "name_at b i ls \<Longrightarrow> i + length (enc_labels ls) + 4 \<le> length b \<Longrightarrow> encoded + length (enc_labels ls) \<le> 256 \<Longrightarrow>
   query_labels b i encoded domain = Some (if dotted domain ls = [] then None else Some (dotted domain ls))"
proof (induction ls arbitrary: i encoded domain)
  case Nil
  then show ?case using name_at_Nil [OF Nil(1)] by (auto simp: query_labels.simps enc_labels_def dotted_def at_nat_def)
next
  case (Cons l ls)
  note n = name_at_Cons [OF Cons.prems(1)]
  note w = label_length [OF n(6,7)]
  have e: "length (enc_labels (l # ls)) = 1 + length l + length (enc_labels ls)" "1 \<le> length (enc_labels ls)"
    by (simp_all add: enc_labels_def encode_label_def)
  have "query_labels b i encoded domain =
      query_labels b (i + (1 + length l)) (encoded + (1 + length l)) ((if domain \<noteq> [] then domain @ [46] else domain) @ l)"
    using n(1-4) w n(6,7) Cons.prems(3) e by (simp add: query_labels.simps [of b i] at_nat_def)
  also have "\<dots> = Some (if dotted domain (l # ls) = [] then None else Some (dotted domain (l # ls)))"
    using Cons.IH [of "i + (1 + length l)" "encoded + (1 + length l)"] n(5) Cons.prems(2,3) e
    by (simp add: dotted_def add.assoc)
  finally show ?case .
qed

definition hostname_labels :: "gostr list \<Rightarrow> bool" where
  "hostname_labels ls \<longleftrightarrow> ls \<noteq> [] \<and> (\<forall>l \<in> set ls. l \<noteq> [] \<and> length l \<le> 63 \<and> 46 \<notin> set l \<and> (\<forall>c \<in> set l. \<not> is_space_byte c)) \<and>
     length (enc_labels ls) \<le> 255"

lemma set_join_byte: "set (join_byte ls c) \<subseteq> insert c (\<Union> (set ` set ls))"
  by (induction ls c rule: join_byte.induct) auto

lemma last_join_byte: "ls \<noteq> [] \<Longrightarrow> last ls \<noteq> [] \<Longrightarrow> join_byte ls c \<noteq> [] \<and> last (join_byte ls c) = last (last ls)"
  by (induction ls c rule: join_byte.induct) auto

lemma has_suffix_byte: "has_suffix s [c] \<longleftrightarrow> s \<noteq> [] \<and> last s = c"
  by (cases s rule: rev_cases) (auto simp: has_suffix_append)

lemma hostname_trim:
  assumes "hostname_labels ls"
  shows "trim_suffix (trim_space (join_byte ls 46)) [46] = join_byte ls 46" "join_byte ls 46 \<noteq> []"
proof -
  have l: "last ls \<in> set ls" "last ls \<noteq> []" "46 \<notin> set (last ls)" using assms by (auto simp: hostname_labels_def)
  have j: "join_byte ls 46 \<noteq> []" "last (join_byte ls 46) = last (last ls)"
    using last_join_byte [of ls] l assms by (auto simp: hostname_labels_def)
  then show "join_byte ls 46 \<noteq> []" by simp
  have "\<not> is_space_byte 46" by code_simp
  then have "trim_space (join_byte ls 46) = join_byte ls 46"
    using assms set_join_byte [of ls 46] by (intro trim_space_id) (auto simp: hostname_labels_def)
  moreover have "last (join_byte ls 46) \<noteq> 46" using j l last_in_set [OF l(2)] by metis
  ultimately show "trim_suffix (trim_space (join_byte ls 46)) [46] = join_byte ls 46"
    by (simp add: trim_suffix_def has_suffix_byte)
qed

lemma hostname_plain: "hostname_labels ls \<Longrightarrow> plain_labels ls"
  by (auto simp: hostname_labels_def plain_labels_def)

definition query_header :: "nat \<Rightarrow> bytes" where
  "query_header txid = put16 txid @ put16 0x0100 @ put16 1 @ put16 0 @ put16 0 @ put16 0"

lemma length_query_header [simp]: "length (query_header txid) = 12"
  by (simp add: query_header_def)

lemma BuildQuery_hostname:
  assumes "hostname_labels ls"
  shows "BuildQuery (join_byte ls 46) txid qtype = query_header txid @ enc_labels ls @ put16 qtype @ put16 1"
proof -
  have s: "split_byte (join_byte ls 46) 46 = ls" using assms by (intro split_join_byte) (auto simp: hostname_labels_def)
  have f: "filter (\<lambda>l. l \<noteq> []) ls = ls" using assms by (intro filter_True) (auto simp: hostname_labels_def)
  have t: "map (\<lambda>l. encode_label (take 63 l)) ls = map encode_label ls"
    using assms by (intro map_cong) (auto simp: hostname_labels_def)
  show ?thesis
    unfolding BuildQuery_def Let_def hostname_trim(1) [OF assms] s f t using hostname_trim(2) [OF assms]
    by (simp add: t query_header_def enc_labels_def)
qed

subsection \<open>A message with one plain question\<close>

definition asks :: "bytes \<Rightarrow> gostr list \<Rightarrow> nat \<Rightarrow> bool" where
  "asks m ls qtype \<longleftrightarrow> be16 m 4 = Some 1 \<and> name_at m 12 ls \<and> 12 + length (enc_labels ls) + 4 \<le> length m \<and>
     be16 m (12 + length (enc_labels ls)) = Some qtype"

lemma asks_length: "asks m ls qtype \<Longrightarrow> 16 < length m"
  by (simp add: asks_def enc_labels_def)

lemma question_end_asks: "asks m ls qtype \<Longrightarrow> question_end m = Some (Some (12 + length (enc_labels ls) + 4))"
  by (auto simp: asks_def question_end_def dest!: skipDNSName_plain)

lemma QuestionType_asks: "asks m ls qtype \<Longrightarrow> QuestionType m = Some (Some qtype)"
  using question_end_asks [of m ls qtype] asks_length [of m ls qtype] by (simp add: QuestionType_def) (simp add: asks_def)

lemma ParseQueryDomain_asks:
  assumes "asks m ls qtype" "hostname_labels ls"
  shows "ParseQueryDomain m = Some (Some (join_byte ls 46))"
proof -
  have "query_labels m 12 1 [] = Some (Some (join_byte ls 46))"
    using query_labels_plain [of m 12 ls 1 "[]"] dotted_join [of ls] hostname_trim(2) [OF assms(2)] assms
    by (simp add: asks_def hostname_labels_def)
  then show ?thesis using assms(1) asks_length [OF assms(1)] by (simp add: ParseQueryDomain_def asks_def)
qed

lemma be16_drop: "n \<le> i \<Longrightarrow> i \<le> length b \<Longrightarrow> be16 b i = be16 (drop n b) (i - n)"
  by (auto simp: be16_def at_nat_def at_def)

text \<open>A message that starts with the same question, whatever its header and what follows.\<close>

lemma asks_again:
  assumes "asks m ls qtype" "be16 m' 4 = Some 1" "12 \<le> length m'"
    "drop 12 m' = take (length (enc_labels ls) + 4) (drop 12 m) @ rest"
  shows "asks m' ls qtype"
proof -
  let ?n = "length (enc_labels ls)"
  obtain c where c: "drop 12 m = enc_labels ls @ c" and pl: "plain_labels ls"
    using assms(1) by (auto simp: asks_def name_at_def has_prefix_append)
  have lc: "4 \<le> length c" using assms(1) arg_cong [OF c, of length] by (auto simp: asks_def)
  have d: "drop 12 m' = enc_labels ls @ take 4 c @ rest" using assms(4) c by simp
  have "name_at m' 12 ls" using d pl by (auto simp: name_at_def has_prefix_append)
  moreover have l: "12 + ?n + 4 \<le> length m'" using arg_cong [OF d, of length] lc assms(3) by simp
  moreover have "be16 m' (12 + ?n) = be16 m (12 + ?n)"
    using be16_drop [of 12 "12 + ?n" m'] be16_drop [of 12 "12 + ?n" m] d c lc l assms(1)
    by (auto simp: asks_def be16_lt nth_append)
  ultimately show ?thesis using assms(1,2) by (simp add: asks_def)
qed

lemma asks_BuildQuery:
  assumes "hostname_labels ls" "qtype < 65536"
  shows "asks (BuildQuery (join_byte ls 46) txid qtype) ls qtype"
proof -
  have "be16 (query_header txid @ r) 4 = Some 1" for r
    by (simp add: query_header_def wire_simps)
  moreover have "be16 (query_header txid @ enc_labels ls @ put16 qtype @ put16 1) (12 + length (enc_labels ls)) = Some qtype"
    using be16_put16_at [OF assms(2), of "query_header txid @ enc_labels ls" _ "put16 1"] by simp
  ultimately show ?thesis
    using name_at_here [OF hostname_plain [OF assms(1)], of "query_header txid" "put16 qtype @ put16 1"]
    by (simp add: asks_def BuildQuery_hostname [OF assms(1)])
qed

lemma ParseTransactionID_BuildQuery:
  "hostname_labels ls \<Longrightarrow> txid < 65536 \<Longrightarrow> ParseTransactionID (BuildQuery (join_byte ls 46) txid qtype) = Some (Some txid)"
  by (simp add: BuildQuery_hostname ParseTransactionID_def query_header_def wire_simps)

text \<open>
  A query built for a host name is read back: its name, its transaction id and its type. A name of labels of 1 to 63
  bytes without dots and white space, of at most 255 bytes on the wire.
\<close>

theorem dns_query_roundtrip:
  assumes "hostname_labels ls" "txid < 65536" "qtype < 65536"
  shows "ParseQueryDomain (BuildQuery (join_byte ls 46) txid qtype) = Some (Some (join_byte ls 46)) \<and>
    ParseTransactionID (BuildQuery (join_byte ls 46) txid qtype) = Some (Some txid) \<and>
    QuestionType (BuildQuery (join_byte ls 46) txid qtype) = Some (Some qtype)"
  using ParseQueryDomain_asks [OF asks_BuildQuery assms(1)] QuestionType_asks [OF asks_BuildQuery] ParseTransactionID_BuildQuery assms
  by simp

theorem dns_query_roundtrip_witness:
  "hostname_labels [str ''ab'', str ''com''] \<and>
   ParseQueryDomain (BuildQuery (str ''ab.com'') 7 28) = Some (Some (str ''ab.com''))"
proof -
  have h: "hostname_labels [str ''ab'', str ''com'']" by code_simp
  have j: "join_byte [str ''ab'', str ''com''] 46 = str ''ab.com''" by code_simp
  show ?thesis using h dns_query_roundtrip [OF h, of 7 28] unfolding j by simp
qed

subsection \<open>Replies\<close>

text \<open>The fixed part of a record after its name.\<close>

definition rr_fixed :: "nat \<Rightarrow> nat \<Rightarrow> nat \<Rightarrow> nat \<Rightarrow> bytes" where
  "rr_fixed ty cls ttl n = put16 ty @ put16 cls @ put32 ttl @ put16 n"

lemma length_rr_fixed [simp]: "length (rr_fixed ty cls ttl n) = 10"
  by (simp add: rr_fixed_def)

lemma rr_at_written:
  assumes "skipDNSName b i = Some (Some nxt)" "drop nxt b = rr_fixed ty cls ttl n @ rest" "nxt \<le> length b" "n \<le> length rest"
    "ty < 65536" "n < 65536"
  shows "rr_at b i = Some (Some (ty, nxt + 10, n))"
proof -
  have l: "nxt + 10 + length rest = length b" using arg_cong [OF assms(2), of length] assms(3) by simp
  have b: "be16 b nxt = Some ty" "be16 b (nxt + 8) = Some n"
    using be16_drop [of nxt nxt b] be16_drop [of nxt "nxt + 8" b] assms(2,5,6) l
    by (simp_all add: rr_fixed_def be16_put16) (use be16_put16_at [OF assms(6), of "put16 ty @ put16 cls @ put32 ttl" 8 rest] in simp)
  then show ?thesis using assms(1,4) l by (simp add: rr_at_def)
qed

lemma answer_ips_written:
  assumes "rr_at b i = Some (Some (ty, j, length rd))" "drop j b = rd @ rest" "j + length rd \<le> length b"
  shows "answer_ips b (Suc n) i = map_option (\<lambda>ips.
    (if ty = 1 \<and> length rd = 4 \<or> ty = 28 \<and> length rd = 16 then [rd] else []) @ ips) (answer_ips b n (j + length rd))"
  using assms by (cases "answer_ips b n (j + length rd)") auto

lemma address_rdata_length:
  "address_rdata qtype ip = Some rd \<Longrightarrow> qtype = 1 \<and> length rd = 4 \<or> qtype = 28 \<and> length rd = 16"
  by (auto simp: address_rdata_def split: option.splits if_splits dest: length_to4 length_to16)

lemma answer_record_eq: "answer_record qtype ttl rd = pointer 12 @ rr_fixed qtype 1 ttl (length rd) @ rd"
  by (simp add: answer_record_def pointer_def rr_fixed_def)

text \<open>Records that point to the question's name are read as they were written.\<close>

lemma answer_ips_records:
  "name_at b 12 ls \<Longrightarrow> (\<forall>rd \<in> set rds. qtype = 1 \<and> length rd = 4 \<or> qtype = 28 \<and> length rd = 16) \<Longrightarrow> i \<le> length b \<Longrightarrow>
   drop i b = concat (map (answer_record qtype ttl) rds) \<Longrightarrow> answer_ips b (length rds) i = Some rds"
proof (induction rds arbitrary: i)
  case (Cons rd rds)
  let ?rest = "concat (map (answer_record qtype ttl) rds)"
  have d: "drop i b = pointer 12 @ rr_fixed qtype 1 ttl (length rd) @ rd @ ?rest"
    using Cons.prems(4) by (simp add: answer_record_eq [of qtype ttl rd])
  have rd: "qtype = 1 \<and> length rd = 4 \<or> qtype = 28 \<and> length rd = 16" using Cons.prems(2) by simp
  have l: "i + 12 + length rd + length ?rest = length b"
    using arg_cong [OF d, of length] Cons.prems(3) by (simp add: pointer_def)
  have "has_prefix (drop i b) (pointer 12)" using d by (auto simp: has_prefix_append)
  then have s: "skipDNSName b i = Some (Some (i + 2))" using skipDNSName_pointer [OF Cons.prems(1)] by simp
  have d2: "drop (i + 2) b = rr_fixed qtype 1 ttl (length rd) @ rd @ ?rest"
    using d drop_drop [of 2 i b] by (simp add: pointer_def add.commute)
  have d3: "drop (i + 12) b = rd @ ?rest" using d2 drop_drop [of 10 "i + 2" b] by (simp add: add.commute)
  have "rr_at b i = Some (Some (qtype, i + 12, length rd))"
    using rr_at_written [OF s d2] l rd by auto
  from answer_ips_written [OF this d3, of "length rds"] have
    "answer_ips b (Suc (length rds)) i = map_option ((@) [rd]) (answer_ips b (length rds) (i + 12 + length rd))"
    using l rd by auto
  moreover have "drop (i + 12 + length rd) b = ?rest"
    using d3 drop_drop [of "length rd" "i + 12" b] by (simp add: add.commute)
  ultimately show ?case using Cons.IH [of "i + 12 + length rd"] Cons.prems(1,2) l by simp
qed simp

lemma BuildAnswerFromIPs_asks:
  assumes "asks m ls qtype" "qtype = 1 \<or> qtype = 28" "rds = List.map_filter (address_rdata qtype) ips" "rds \<noteq> []" "length rds < 65536"
  obtains out where "BuildAnswerFromIPs m ttl ips = Some (Some out)" "12 \<le> length out" "be16 out 0 = be16 m 0"
    "be16 out 4 = Some 1" "be16 out 6 = Some (length rds)" "out ! 3 = m ! 3 AND 0xF0" "out ! 2 = m ! 2 OR 0x80"
    "drop 12 out = take (length (enc_labels ls) + 4) (drop 12 m) @ concat (map (answer_record qtype ttl) rds)"
proof -
  define qe where "qe = 12 + length (enc_labels ls) + 4"
  define recs where "recs = concat (map (answer_record qtype ttl) rds)"
  define o1 where "o1 = patch (take qe m) 2 [m ! 2 OR 0x80]"
  define o2 where "o2 = patch o1 3 [m ! 3 AND 0xF0]"
  define o3 where "o3 = patch (patch (patch o2 6 (put16 0)) 8 (put16 0)) 10 (put16 0)"
  define out where "out = patch (o3 @ recs) 6 (put16 (length rds))"
  have qe: "16 < qe" "qe \<le> length m" using assms(1) by (simp_all add: qe_def asks_def enc_labels_def)
  then have len: "length (take qe m) = qe" "length o1 = qe" "length o2 = qe" "length o3 = qe"
    by (simp_all add: o1_def o2_def o3_def)
  have ips: "ips \<noteq> []" using assms(3,4) by (auto simp: map_filter_simps)
  have qt: "be16 m (qe - 4) = Some qtype" "be16 m 4 = Some 1" using assms(1) by (simp_all add: asks_def qe_def)
  have steps: "sub_bytes m 0 qe = Some (take qe m)" "at (take qe m) 2 = Some (m ! 2)" "put_at (take qe m) 2 [m ! 2 OR 0x80] = Some o1"
    "at o1 3 = Some (m ! 3)" "put_at o1 3 [m ! 3 AND 0xF0] = Some o2" "put_at o2 6 (put16 0) = Some (patch o2 6 (put16 0))"
    "put_at (patch o2 6 (put16 0)) 8 (put16 0) = Some (patch (patch o2 6 (put16 0)) 8 (put16 0))"
    "put_at (patch (patch o2 6 (put16 0)) 8 (put16 0)) 10 (put16 0) = Some o3"
    "put_at (o3 @ concat (map (answer_record qtype ttl) rds)) 6 (put16 (length rds)) = Some out"
    using qe len by (simp_all add: out_def o3_def o2_def o1_def nth_patch at_def recs_def)
  have q: "question_end m = Some (Some qe)" using question_end_asks [OF assms(1)] by (simp add: qe_def)
  have l12: "\<not> length m < 12" using qe by simp
  have "BuildAnswerFromIPs m ttl ips = Some (Some out)"
    unfolding BuildAnswerFromIPs_def using ips assms(2,4) l12
    by (simp add: qt q steps Let_def flip: assms(3)) 
  moreover have "drop 12 out = take (length (enc_labels ls) + 4) (drop 12 m) @ concat (map (answer_record qtype ttl) rds)"
    using qe len by (simp add: out_def o3_def o2_def o1_def edit_simps) (simp add: drop_take qe_def recs_def add.commute)
  moreover have "12 \<le> length out" using qe len by (simp add: out_def)
  moreover have "be16 out 0 = be16 m 0" "be16 out 4 = Some 1"
    using qe len qt(2) by (simp_all add: out_def o3_def o2_def o1_def edit_simps be16_lt nth_append)
  moreover have "be16 out 6 = Some (length rds)" using qe len assms(5) by (simp add: out_def be16_patch_same)
  moreover have "out ! 3 = m ! 3 AND 0xF0" "out ! 2 = m ! 2 OR 0x80"
    using qe len by (simp_all add: out_def o3_def o2_def o1_def edit_simps nth_patch_in nth_append)
  ultimately show thesis by (intro that)
qed

lemma BuildAnswerFromIPs_none:
  "asks m ls qtype \<Longrightarrow> List.map_filter (address_rdata qtype) ips = [] \<Longrightarrow> BuildAnswerFromIPs m ttl ips = Some None"
  using question_end_asks [of m ls qtype] asks_length [of m ls qtype]
  by (auto simp: BuildAnswerFromIPs_def asks_def Let_def at_def)

lemma ParseResponseIPs_asks:
  assumes "asks m ls qtype" "be16 m 6 = Some n"
  shows "ParseResponseIPs m = answer_ips m n (12 + length (enc_labels ls) + 4)"
  using assms asks_length [OF assms(1)] skipDNSName_plain [of m 12 ls]
  by (cases n) (simp_all add: ParseResponseIPs_def asks_def)

lemma low_nibble_cleared: "(b AND 0xF0) AND 0x0F = (0 :: byte)"
  by (simp add: and.assoc)

lemma in_map_filter: "y \<in> set (List.map_filter f xs) \<Longrightarrow> \<exists>x. f x = Some y"
  by (induction xs) (auto simp: map_filter_simps split: option.splits)

lemma built_answer_read:
  assumes "asks m ls qtype" "qtype = 1 \<or> qtype = 28" "rds = List.map_filter (address_rdata qtype) ips" "rds \<noteq> []" "length rds < 65536"
  shows "\<exists>out. BuildAnswerFromIPs m ttl ips = Some (Some out) \<and> asks out ls qtype \<and> ParseResponseIPs out = Some rds \<and>
    be16 out 0 = be16 m 0 \<and> ResponseRcode out = Some (Some 0)"
proof -
  obtain out where o: "BuildAnswerFromIPs m ttl ips = Some (Some out)" "12 \<le> length out" "be16 out 0 = be16 m 0"
      "be16 out 4 = Some 1" "be16 out 6 = Some (length rds)" "out ! 3 = m ! 3 AND 0xF0"
      "drop 12 out = take (length (enc_labels ls) + 4) (drop 12 m) @ concat (map (answer_record qtype ttl) rds)"
    by (rule BuildAnswerFromIPs_asks [OF assms, of ttl])
  let ?q = "length (enc_labels ls) + 4"
  have a: "asks out ls qtype" using asks_again [OF assms(1) o(4,2,7)] .
  have "length (take ?q (drop 12 m)) = ?q" using assms(1) by (auto simp: asks_def)
  then have d: "drop (12 + ?q) out = concat (map (answer_record qtype ttl) rds)"
    using o(7) drop_drop [of ?q 12 out] by (simp add: add.commute)
  have "answer_ips out (length rds) (12 + ?q) = Some rds"
  proof (rule answer_ips_records [OF _ _ _ d])
    show "name_at out 12 ls" using a by (simp add: asks_def)
    show "\<forall>rd \<in> set rds. qtype = 1 \<and> length rd = 4 \<or> qtype = 28 \<and> length rd = 16"
      using assms(3) address_rdata_length in_map_filter by metis
  qed (use a in \<open>simp_all add: asks_def\<close>)
  then have "ParseResponseIPs out = Some rds" using ParseResponseIPs_asks [OF a o(5)] by (simp add: add.assoc)
  moreover have "ResponseRcode out = Some (Some 0)"
    using o(6) asks_length [OF a] by (simp add: ResponseRcode_def low_nibble_cleared at_def)
  ultimately show ?thesis using o(1,3) a by blast
qed

text \<open>
  C30. The answer that b4 makes up for a query is read back as it was meant: for a query of type A or AAAA, the addresses
  of that family among those given, in their order, under the query's name, id and type and with no error; when none of
  them is of that family there is no answer.
\<close>

theorem dns_answer_readback:
  assumes "hostname_labels ls" "txid < 65536" "qtype = 1 \<or> qtype = 28" "length (List.map_filter (address_rdata qtype) ips) < 65536"
  shows "if List.map_filter (address_rdata qtype) ips = []
    then BuildAnswerFromIPs (BuildQuery (join_byte ls 46) txid qtype) ttl ips = Some None
    else \<exists>out. BuildAnswerFromIPs (BuildQuery (join_byte ls 46) txid qtype) ttl ips = Some (Some out) \<and>
      ParseResponseIPs out = Some (List.map_filter (address_rdata qtype) ips) \<and> ResponseRcode out = Some (Some 0) \<and>
      ParseTransactionID out = Some (Some txid) \<and> ParseQueryDomain out = Some (Some (join_byte ls 46)) \<and>
      QuestionType out = Some (Some qtype)"
proof -
  let ?m = "BuildQuery (join_byte ls 46) txid qtype" and ?rds = "List.map_filter (address_rdata qtype) ips"
  have q: "asks ?m ls qtype" using asks_BuildQuery [OF assms(1)] assms(3) by auto
  have t: "be16 ?m 0 = Some txid"
    using ParseTransactionID_BuildQuery [OF assms(1,2), of qtype] asks_length [OF q] by (auto simp: ParseTransactionID_def)
  show ?thesis
  proof (cases "?rds = []")
    case False
    then obtain out where o: "BuildAnswerFromIPs ?m ttl ips = Some (Some out)" "asks out ls qtype" "ParseResponseIPs out = Some ?rds"
        "be16 out 0 = be16 ?m 0" "ResponseRcode out = Some (Some 0)"
      using built_answer_read [OF q assms(3) refl _ assms(4)] by blast
    have "ParseTransactionID out = Some (Some txid)" using o(4) t asks_length [OF o(2)] by (simp add: ParseTransactionID_def)
    then show ?thesis using o False QuestionType_asks [OF o(2)] ParseQueryDomain_asks [OF o(2) assms(1)] by auto
  qed (simp add: BuildAnswerFromIPs_none [OF q])
qed

theorem dns_answer_readback_witness:
  "\<exists>out. BuildAnswerFromIPs (BuildQuery (str ''a.io'') 9 1) 60 [[10, 0, 0, 1], replicate 16 1, [10, 0, 0, 2]] = Some (Some out) \<and>
     ParseResponseIPs out = Some [[10, 0, 0, 1], [10, 0, 0, 2]]"
proof -
  have h: "hostname_labels [str ''a'', str ''io'']" by code_simp
  have j: "join_byte [str ''a'', str ''io''] 46 = str ''a.io''" by code_simp
  have r: "List.map_filter (address_rdata 1) [[10, 0, 0, 1], replicate 16 1, [10, 0, 0, 2]] = [[10, 0, 0, 1], [10, 0, 0, 2]]"
    by code_simp
  show ?thesis
    using dns_answer_readback [OF h, of 9 1 "[[10, 0, 0, 1], replicate 16 1, [10, 0, 0, 2]]" 60] unfolding r j by auto
qed

end
