(* ===== verification/Dns_Filter.thy ===== *)
theory Dns_Filter
  imports Dns_Query
begin

text \<open>
  The answer that \<^verbatim>\<open>FilterAnswerIPs\<close> writes anew: read again, it holds the addresses that were kept and no other.
  The invariant of the writer is that every offset it remembers holds a name written in full, so that each
  compression pointer it emits can be followed.
\<close>

subsection \<open>The records that were read\<close>

definition rr_ok :: "answerRR \<Rightarrow> bool" where
  "rr_ok rr \<longleftrightarrow> rr_typ rr < 65536 \<and> (rr_target rr \<noteq> [] \<longrightarrow> rr_rdata rr = encodeName (rr_target rr)) \<and>
     rr_ip rr = (if rr_typ rr = 1 \<and> length (rr_rdata rr) = 4 \<or> rr_typ rr = 28 \<and> length (rr_rdata rr) = 16
                 then Some (rr_rdata rr) else None)"

lemma answer_data_cases:
  assumes "answer_data payload rr offset n = Some (Some rr')"
  obtains "rr_typ rr = 1 \<and> n = 4 \<or> rr_typ rr = 28 \<and> n = 16" "rr' = rr\<lparr>rr_ip := Some (rr_rdata rr)\<rparr>"
  | target where "rr_typ rr = 5" "rr' = rr\<lparr>rr_target := target, rr_rdata := encodeName target\<rparr>"
  using assms by (auto simp: answer_data_def bind_eq_Some_conv split: if_splits)

lemma read_answer_rr:
  assumes "read_answer payload offset = Some (Some (rr, e))"
  shows "rr_ok rr"
    and "\<exists>start n. rr_at payload offset = Some (Some (rr_typ rr, start, n)) \<and> e = start + n \<and> e \<le> length payload \<and>
      (if rr_typ rr = 1 \<and> n = 4 \<or> rr_typ rr = 28 \<and> n = 16 then rr_ip rr = Some (take n (drop start payload)) else rr_ip rr = None)"
proof -
  obtain name nxt ty cls ttl n rdata where p: "readName payload offset = Some (Some (name, nxt))"
      "be16 payload nxt = Some ty" "be16 payload (nxt + 8) = Some n" "nxt + 10 + n \<le> length payload" "e = nxt + 10 + n"
      "sub_bytes payload (nxt + 10) (nxt + 10 + n) = Some rdata"
      "answer_data payload
         \<lparr>rr_name = name, rr_typ = ty, rr_class = cls, rr_ttl = ttl, rr_rdata = rdata, rr_ip = None, rr_target = []\<rparr> (nxt + 10) n
       = Some (Some rr)"
    using assms by (rule read_answer_parts)
  have rd: "rdata = take n (drop (nxt + 10) payload)" "length rdata = n" using sub_bytes_SomeD [OF p(6)] p(4) by auto
  have "rr_at payload offset = Some (Some (ty, nxt + 10, n))" using p readName_next [OF p(1)] by (simp add: rr_at_def)
  moreover have "ty < 65536" using be16_SomeD [OF p(2)] by simp
  moreover note p(4,5)
  ultimately show "rr_ok rr"
      "\<exists>start n. rr_at payload offset = Some (Some (rr_typ rr, start, n)) \<and> e = start + n \<and> e \<le> length payload \<and>
        (if rr_typ rr = 1 \<and> n = 4 \<or> rr_typ rr = 28 \<and> n = 16 then rr_ip rr = Some (take n (drop start payload)) else rr_ip rr = None)"
    using rd by (rule_tac answer_data_cases [OF p(7)]; auto simp: rr_ok_def)+
qed

lemma read_answers_ips:
  "read_answers payload n offset = Some (Some (rrs, e)) \<Longrightarrow>
   answer_ips payload n offset = Some (List.map_filter rr_ip rrs) \<and> (\<forall>rr \<in> set rrs. rr_ok rr)"
proof (induction payload n offset arbitrary: rrs rule: read_answers.induct)
  case (2 payload n offset)
  then obtain rr o1 rrs' where r: "read_answer payload offset = Some (Some (rr, o1))"
      "read_answers payload n o1 = Some (Some (rrs', e))" "rrs = rr # rrs'"
    by (auto simp: bind_eq_Some_conv split: option.splits prod.splits)
  obtain start m where s: "rr_at payload offset = Some (Some (rr_typ rr, start, m))" "o1 = start + m" "o1 \<le> length payload"
      "if rr_typ rr = 1 \<and> m = 4 \<or> rr_typ rr = 28 \<and> m = 16 then rr_ip rr = Some (take m (drop start payload)) else rr_ip rr = None"
    using read_answer_rr(2) [OF r(1)] by blast
  have i: "answer_ips payload n (start + m) = Some (List.map_filter rr_ip rrs')" "\<forall>rr \<in> set rrs'. rr_ok rr"
    using "2.IH" [OF r(1) refl refl r(2)] s(2) by auto
  have "answer_ips payload (Suc n) offset = Some (List.map_filter rr_ip rrs)"
    using s i(1) r(3) by (auto simp: map_filter_simps split: if_splits)
  then show ?case using read_answer_rr(1) [OF r(1)] i(2) r(3) by simp
qed (auto simp: map_filter_simps)

lemma read_additional_edns:
  "read_additional payload n offset d = Some (Some (e, d')) \<Longrightarrow> d < 65536 \<Longrightarrow> d' < 65536"
  by (induction payload n offset d rule: read_additional.induct)
    (fastforce simp: bind_eq_Some_conv split: if_splits dest: be16_SomeD)+

lemma parse_sections_parts:
  assumes "parse_sections payload n ar qName qend = Some (Some (q, question, answers, additional, edns))"
  obtains a where "q = qName" "qend + 4 \<le> length payload" "question = take (qend + 4 - 12) (drop 12 payload)"
    "read_answers payload n (qend + 4) = Some (Some (answers, a))" "edns < 65536"
  using assms by (auto simp: parse_sections_def bind_eq_Some_conv split: if_splits option.splits dest!: sub_bytes_SomeD read_additional_edns)

lemma parse_answer_parts_eq:
  assumes "parse_answer payload = Some (Some (qName, question, answers, additional, edns))"
  obtains qend a n where "be16 payload 4 = Some 1" "be16 payload 6 = Some n" "n \<noteq> 0" "readName payload 12 = Some (Some (qName, qend))"
    "qend + 4 \<le> length payload" "question = take (qend + 4 - 12) (drop 12 payload)"
    "read_answers payload n (qend + 4) = Some (Some (answers, a))" "edns < 65536" 
proof -
  obtain n ar q qend where p: "be16 payload 4 = Some 1" "be16 payload 6 = Some n" "n \<noteq> 0" "readName payload 12 = Some (Some (q, qend))"
      "parse_sections payload n ar q qend = Some (Some (qName, question, answers, additional, edns))"
    using assms by (auto simp: parse_answer_def bind_eq_Some_conv split: if_splits option.splits)
  obtain a where "qName = q" "qend + 4 \<le> length payload" "question = take (qend + 4 - 12) (drop 12 payload)"
    "read_answers payload n (qend + 4) = Some (Some (answers, a))" "edns < 65536"
    using p(5) by (rule parse_sections_parts)
  then show thesis using p by (intro that) auto
qed

subsection \<open>The records that are written\<close>

definition name_labels :: "gostr \<Rightarrow> gostr list" where
  "name_labels name = (let name = trim_suffix name [46] in
     if name = [] then [] else filter (\<lambda>l. l \<noteq> [] \<and> length l \<le> 63) (split_byte name 46))"

lemma encodeName_labels: "encodeName name = enc_labels (name_labels name)"
  by (simp add: encodeName_def name_labels_def enc_labels_def Let_def)

lemma name_labels_plain: "plain_labels (name_labels name)"
  by (auto simp: name_labels_def plain_labels_def Let_def)

definition followable :: "gostr list \<Rightarrow> bytes \<times> (gostr \<rightharpoonup> nat) \<Rightarrow> bool" where
  "followable qls st \<longleftrightarrow> name_at (fst st) 12 qls \<and> (\<forall>k off. snd st k = Some off \<longrightarrow> (\<exists>ls. name_at (fst st) off ls))"

lemma followable_append: "followable qls (out, offs) \<Longrightarrow> followable qls (out @ b, offs)"
  unfolding followable_def by (metis fst_conv snd_conv name_at_append)

lemma name_at_encodeName: "\<exists>ls. name_at (out @ encodeName name) (length out) ls"
  using name_at_here [OF name_labels_plain, of out name "[]"] by (auto simp: encodeName_labels)

lemma followable_write:
  "followable qls (out, offs) \<Longrightarrow> followable qls (out @ encodeName name, offs(key \<mapsto> length out))"
  using name_at_encodeName [of out name] followable_append [of qls out offs "encodeName name"] by (auto simp: followable_def)

lemma write_name_cases:
  "write_name L qName out offs name = (out @ pointer 12, offs) \<or>
   (\<exists>off. write_name L qName out offs name = (out @ pointer off, offs) \<and> offs (to_lower L name) = Some off \<and> off < 16384) \<or>
   write_name L qName out offs name =
     (out @ encodeName name, if length out < maxCompressionOffset then offs(to_lower L name \<mapsto> length out) else offs)"
  by (cases "offs (to_lower L name)") (auto simp: write_name_def Let_def pointer_def maxCompressionOffset_def)

lemma write_name_read:
  assumes "followable qls (out, offs)"
  shows "\<exists>nm offs'. write_name L qName out offs name = (out @ nm, offs') \<and> followable qls (out @ nm, offs') \<and>
    (\<forall>rest. skipDNSName (out @ nm @ rest) (length out) = Some (Some (length out + length nm)))"
proof -
  have full: "skipDNSName (out @ encodeName name @ rest) (length out) = Some (Some (length out + length (encodeName name)))" for rest
    using skipDNSName_plain [OF name_at_here [OF name_labels_plain, of out name rest]] by (simp add: encodeName_labels)
  have ptr: "skipDNSName (out @ pointer off @ rest) (length out) = Some (Some (length out + length (pointer off)))"
    if "name_at out off ls" "off < 16384" for off ls rest
    using skipDNSName_pointer [of "out @ pointer off @ rest" off ls "length out"] that name_at_append [of out off ls]
    by (auto simp: has_prefix_append) (simp add: pointer_def)
  have q: "name_at out 12 qls" using assms by (simp add: followable_def)
  consider (question) "write_name L qName out offs name = (out @ pointer 12, offs)"
    | (known) off where "write_name L qName out offs name = (out @ pointer off, offs)" "offs (to_lower L name) = Some off" "off < 16384"
    | (new) "write_name L qName out offs name =
        (out @ encodeName name, if length out < maxCompressionOffset then offs(to_lower L name \<mapsto> length out) else offs)"
    using write_name_cases [of L qName out offs name] by blast
  then show ?thesis
  proof cases
    case question
    then show ?thesis using assms ptr [OF q] followable_append by auto
  next
    case known
    then obtain ls where "name_at out off ls" using assms by (auto simp: followable_def)
    then show ?thesis using known assms ptr followable_append by auto
  next
    case new
    then show ?thesis using full followable_append [OF assms] followable_write [OF assms] by auto
  qed
qed

definition capped_ttl :: "nat \<Rightarrow> answerRR \<Rightarrow> nat" where
  "capped_ttl ttlCap rr = (if ttlCap > 0 \<and> rr_ttl rr > ttlCap then ttlCap else rr_ttl rr)"

lemma write_record_read:
  assumes "followable qls (out, offs)" "rr_ok rr"
  shows "\<exists>nm offs'. write_record L qName ttlCap (out, offs) rr =
      (out @ nm @ rr_fixed (rr_typ rr) (rr_class rr) (capped_ttl ttlCap rr) (length (rr_rdata rr)) @ rr_rdata rr, offs') \<and>
    followable qls (fst (write_record L qName ttlCap (out, offs) rr), offs') \<and>
    (\<forall>rest. skipDNSName (out @ nm @ rest) (length out) = Some (Some (length out + length nm)))"
proof -
  obtain nm offs1 where w: "write_name L qName out offs (rr_name rr) = (out @ nm, offs1)" "followable qls (out @ nm, offs1)"
      "\<forall>rest. skipDNSName (out @ nm @ rest) (length out) = Some (Some (length out + length nm))"
    using write_name_read [OF assms(1)] by blast
  define out1 where "out1 = out @ nm @ rr_fixed (rr_typ rr) (rr_class rr) (capped_ttl ttlCap rr) (length (rr_rdata rr))"
  define c where "c \<longleftrightarrow> rr_target rr \<noteq> [] \<and> length out1 < maxCompressionOffset \<and> offs1 (to_lower L (rr_target rr)) = None"
  have f1: "followable qls (out1, offs1)" using followable_append [OF w(2)] by (simp add: out1_def)
  have e: "write_record L qName ttlCap (out, offs) rr =
      (out1 @ rr_rdata rr, if c then offs1(to_lower L (rr_target rr) \<mapsto> length out1) else offs1)"
    using w(1) by (simp add: write_record_def Let_def c_def out1_def rr_fixed_def capped_ttl_def)
  have "followable qls (out1 @ rr_rdata rr, if c then offs1(to_lower L (rr_target rr) \<mapsto> length out1) else offs1)"
    using followable_append [OF f1] followable_write [OF f1] assms(2) by (auto simp: c_def rr_ok_def)
  then show ?thesis using w(3) e by (auto simp: out1_def)
qed

lemma write_records_read:
  "followable qls (out, offs) \<Longrightarrow> \<forall>rr \<in> set rrs. rr_ok rr \<Longrightarrow>
   foldl (write_record L qName ttlCap) (out, offs) rrs = (out', offs') \<Longrightarrow> length out' \<le> 65535 \<Longrightarrow>
   \<exists>recs. out' = out @ recs \<and>
     (\<forall>rest. answer_ips (out @ recs @ rest) (length rrs) (length out) = Some (List.map_filter rr_ip rrs))"
proof (induction rrs arbitrary: out offs)
  case (Cons rr rrs)
  let ?fixed = "rr_fixed (rr_typ rr) (rr_class rr) (capped_ttl ttlCap rr) (length (rr_rdata rr))"
  obtain nm offs1 where w: "write_record L qName ttlCap (out, offs) rr = (out @ nm @ ?fixed @ rr_rdata rr, offs1)"
      "followable qls (out @ nm @ ?fixed @ rr_rdata rr, offs1)"
      "\<forall>rest. skipDNSName (out @ nm @ rest) (length out) = Some (Some (length out + length nm))"
    using write_record_read [OF Cons.prems(1), of rr] Cons.prems(2) by fastforce
  obtain recs where r: "out' = (out @ nm @ ?fixed @ rr_rdata rr) @ recs"
      "\<forall>rest. answer_ips ((out @ nm @ ?fixed @ rr_rdata rr) @ recs @ rest) (length rrs) (length (out @ nm @ ?fixed @ rr_rdata rr))
        = Some (List.map_filter rr_ip rrs)"
    using Cons.IH [OF w(2)] Cons.prems(2-4) w(1) by auto
  have "answer_ips (out @ (nm @ ?fixed @ rr_rdata rr @ recs) @ rest) (length (rr # rrs)) (length out) = Some (List.map_filter rr_ip (rr # rrs))"
    for rest
  proof -
    let ?b = "out @ nm @ ?fixed @ rr_rdata rr @ recs @ rest"
    have n: "length (rr_rdata rr) < 65536" "rr_typ rr < 65536" using Cons.prems(2,4) r(1) by (auto simp: rr_ok_def)
    have "rr_at ?b (length out) = Some (Some (rr_typ rr, length out + length nm + 10, length (rr_rdata rr)))"
      using w(3) n by (intro rr_at_written [where rest = "rr_rdata rr @ recs @ rest"]) auto
    from answer_ips_written [OF this, of "recs @ rest" "length rrs"]
    have "answer_ips ?b (Suc (length rrs)) (length out) =
        map_option ((@) (if rr_typ rr = 1 \<and> length (rr_rdata rr) = 4 \<or> rr_typ rr = 28 \<and> length (rr_rdata rr) = 16 then [rr_rdata rr] else []))
          (answer_ips ?b (length rrs) (length out + length nm + 10 + length (rr_rdata rr)))" by simp
    then show ?thesis using r(2) Cons.prems(2) by (auto simp: rr_ok_def map_filter_simps add.assoc)
  qed
  then show ?case using r(1) by (intro exI [of _ "nm @ ?fixed @ rr_rdata rr @ recs"]) auto
qed (auto simp: map_filter_simps)

subsection \<open>The filter\<close>

lemma kept_ips:
  "List.map_filter rr_ip (filter (\<lambda>rr. \<not> rr_gone dr rr) rrs) = filter (\<lambda>ip. \<not> dr ip) (List.map_filter rr_ip rrs)"
  "length (filter (rr_gone dr) rrs) = length (filter dr (List.map_filter rr_ip rrs))"
  "length (filter (\<lambda>rr. rr_ip rr \<noteq> None) rrs) = length (List.map_filter rr_ip rrs)"
  by (induction rrs) (auto simp: map_filter_simps rr_gone_def split: option.splits)

lemma parse_answer_asks:
  assumes "parse_answer payload = Some (Some (qName, question, answers, additional, edns))" "name_at payload 12 qls"
  obtains qtype n a where "asks payload qls qtype" "be16 payload 6 = Some n" "length answers = n" "edns < 65536"
    "question = take (length (enc_labels qls) + 4) (drop 12 payload)" "\<forall>rr \<in> set answers. rr_ok rr"
    "ParseResponseIPs payload = Some (List.map_filter rr_ip answers)"
proof -
  obtain qend a n where p: "be16 payload 4 = Some 1" "be16 payload 6 = Some n" "readName payload 12 = Some (Some (qName, qend))"
      "qend + 4 \<le> length payload" "question = take (qend + 4 - 12) (drop 12 payload)"
      "read_answers payload n (qend + 4) = Some (Some (answers, a))" "edns < 65536"
    using assms(1) by (rule parse_answer_parts_eq)
  have qe: "qend = 12 + length (enc_labels qls)" using p(3) readName_plain [OF assms(2)] by simp
  then obtain qtype where "be16 payload (12 + length (enc_labels qls)) = Some qtype" using p(4) by (simp add: be16_lt)
  then have q: "asks payload qls qtype" using p(1,4) qe assms(2) by (simp add: asks_def)
  have "length answers = n" using read_answers_bounds [OF p(6)] p(4) by simp
  moreover have "ParseResponseIPs payload = Some (List.map_filter rr_ip answers)"
    using ParseResponseIPs_asks [OF q p(2)] read_answers_ips [OF p(6)] qe by simp
  ultimately show thesis using q p(2,5,7) qe read_answers_ips [OF p(6)] by (intro that) (simp_all add: add.commute)
qed

lemma rewritten_read:
  assumes q: "asks payload qls qtype" and ok: "\<forall>rr \<in> set kept. rr_ok rr" and n: "length kept < 65536"
    and w: "foldl (write_record L qName ttlCap)
      (patch (take 12 payload) 6 (put16 (length kept)) @ take (length (enc_labels qls) + 4) (drop 12 payload), Map.empty) kept = (out, offs)"
    and len: "length out \<le> 65535"
  shows "asks (out @ additional) qls qtype" "be16 (out @ additional) 0 = be16 payload 0"
    "ParseResponseIPs (out @ additional) = Some (List.map_filter rr_ip kept)"
proof -
  define header where "header = patch (take 12 payload) 6 (put16 (length kept))"
  define question where "question = take (length (enc_labels qls) + 4) (drop 12 payload)"
  have l: "16 < length payload" using asks_length [OF q] .
  have h: "length header = 12" "be16 header 0 = be16 payload 0" "be16 header 4 = Some 1" "be16 header 6 = Some (length kept)"
    using l n q by (simp_all add: header_def be16_patch_same) (simp_all add: edit_simps be16_lt asks_def)
  have lq: "length question = length (enc_labels qls) + 4" using q by (auto simp: question_def asks_def)
  have again: "asks (header @ question @ rest) qls qtype" for rest
    using h by (intro asks_again [OF q]) (auto simp: be16_append_left question_def)
  have "followable qls (header @ question, Map.empty)" using again [of "[]"] by (simp add: followable_def asks_def)
  from write_records_read [OF this ok w [folded header_def question_def] len] obtain recs where r: "out = (header @ question) @ recs"
      "\<forall>rest. answer_ips ((header @ question) @ recs @ rest) (length kept) (length (header @ question)) = Some (List.map_filter rr_ip kept)"
    by blast
  show a: "asks (out @ additional) qls qtype" using again [of "recs @ additional"] r(1) by simp
  show "be16 (out @ additional) 0 = be16 payload 0" using h r(1) by (simp add: be16_append_left)
  have "be16 (out @ additional) 6 = Some (length kept)" using h r(1) by (simp add: be16_append_left)
  from ParseResponseIPs_asks [OF a this] show "ParseResponseIPs (out @ additional) = Some (List.map_filter rr_ip kept)"
    using r h(1) lq by (simp add: add.assoc)
qed

lemma rewrite_answer_cases:
  assumes "rewrite_answer L payload ttlCap maxSize dr qName question answers additional edns = Some res" "12 \<le> length payload"
  defines "kept \<equiv> filter (\<lambda>rr. \<not> rr_gone dr rr) answers" and "ips \<equiv> List.map_filter rr_ip answers"
  obtains (unchanged) "res = FilterUnchanged"
  | (all) "res = FilterAllDropped" "ips \<noteq> []" "\<forall>ip \<in> set ips. dr ip"
  | (some) out offs where "filter (\<lambda>ip. \<not> dr ip) ips \<noteq> []" "filter dr ips \<noteq> []"
      "foldl (write_record L qName ttlCap) (patch (take 12 payload) 6 (put16 (length kept)) @ question, Map.empty) kept = (out, offs)"
      "res = (if length (out @ additional) > length payload \<and> int (length (out @ additional)) > responseSizeLimit maxSize edns
              then FilterTooLarge else FilterRewritten (out @ additional))"
proof -
  obtain out offs where w: "foldl (write_record L qName ttlCap) (patch (take 12 payload) 6 (put16 (length kept)) @ question, Map.empty) kept = (out, offs)"
    by fastforce
  have k: "length (filter (rr_gone dr) answers) = length (filter dr ips)" "length (filter (\<lambda>rr. rr_ip rr \<noteq> None) answers) = length ips"
    by (simp_all only: kept_ips(2,3) ips_def)
  have e: "Some res = (if filter dr ips = [] then Some FilterUnchanged else if length (filter dr ips) = length ips then Some FilterAllDropped
      else Some (if length (out @ additional) > length payload \<and> int (length (out @ additional)) > responseSizeLimit maxSize edns
                 then FilterTooLarge else FilterRewritten (out @ additional)))"
    unfolding assms(1) [symmetric] rewrite_answer_def Let_def kept_def [symmetric] k using assms(2)
    by (simp add: w)
  consider "filter dr ips = []" | "filter dr ips \<noteq> []" "length (filter dr ips) = length ips" | "filter dr ips \<noteq> []" "length (filter dr ips) \<noteq> length ips"
    by blast
  then show thesis
  proof cases
    case 2
    then have "filter dr ips = ips" by (metis filter_id_conv length_filter_less nat_neq_iff)
    then show thesis using e 2 by (intro all) (auto simp: filter_id_conv)
  next
    case 3
    then have "filter (\<lambda>ip. \<not> dr ip) ips \<noteq> []" by (metis filter_empty_conv filter_True)
    then show thesis using e 3 w by (intro some) auto
  qed (use e in \<open>auto intro: unchanged\<close>)
qed

lemma rewrite_answer_exact:
  assumes "parse_answer payload = Some (Some (qName, question, answers, additional, edns))"
    "rewrite_answer L payload ttlCap maxSize dr qName question answers additional edns = Some res"
    "name_at payload 12 qls" "length payload \<le> 65535" "maxSize \<le> 65535"
  shows "\<exists>ips. ParseResponseIPs payload = Some ips \<and>
    (case res of
       FilterRewritten out \<Rightarrow> ParseResponseIPs out = Some (filter (\<lambda>ip. \<not> dr ip) ips) \<and>
         filter (\<lambda>ip. \<not> dr ip) ips \<noteq> [] \<and> filter dr ips \<noteq> [] \<and>
         ParseTransactionID out = ParseTransactionID payload \<and> QuestionType out = QuestionType payload
     | FilterAllDropped \<Rightarrow> ips \<noteq> [] \<and> (\<forall>ip \<in> set ips. dr ip)
     | FilterTooLarge \<Rightarrow> filter (\<lambda>ip. \<not> dr ip) ips \<noteq> [] \<and> filter dr ips \<noteq> []
     | FilterUnchanged \<Rightarrow> True)"
proof -
  obtain qtype n where p: "asks payload qls qtype" "be16 payload 6 = Some n" "length answers = n" "edns < 65536"
      "question = take (length (enc_labels qls) + 4) (drop 12 payload)" "\<forall>rr \<in> set answers. rr_ok rr"
      "ParseResponseIPs payload = Some (List.map_filter rr_ip answers)"
    using assms(1,3) by (rule parse_answer_asks)
  have l: "12 \<le> length payload" using asks_length [OF p(1)] by simp
  let ?kept = "filter (\<lambda>rr. \<not> rr_gone dr rr) answers" and ?ips = "List.map_filter rr_ip answers"
  show ?thesis
  proof (rule rewrite_answer_cases [OF assms(2) l])
    fix out offs
    assume s: "filter (\<lambda>ip. \<not> dr ip) ?ips \<noteq> []" "filter dr ?ips \<noteq> []"
      "foldl (write_record L qName ttlCap) (patch (take 12 payload) 6 (put16 (length ?kept)) @ question, Map.empty) ?kept = (out, offs)"
      "res = (if length (out @ additional) > length payload \<and> int (length (out @ additional)) > responseSizeLimit maxSize edns
              then FilterTooLarge else FilterRewritten (out @ additional))"
    show ?thesis
    proof (cases "length (out @ additional) > length payload \<and> int (length (out @ additional)) > responseSizeLimit maxSize edns")
      case False
      have n: "length ?kept < 65536" using p(2,3) be16_SomeD [OF p(2)] length_filter_le [of "\<lambda>rr. \<not> rr_gone dr rr" answers] by linarith
      have "int (length (out @ additional)) \<le> max (int (length payload)) (responseSizeLimit maxSize edns)" using False by auto
      then have lo: "length out \<le> 65535" using assms(4,5) p(4) by (simp add: responseSizeLimit_def split: if_splits)
      have ok: "\<forall>rr \<in> set ?kept. rr_ok rr" using p(6) by simp
      note r = rewritten_read [OF p(1) ok n s(3) [unfolded p(5)] lo, of additional]
      have "ParseTransactionID (out @ additional) = ParseTransactionID payload"
        using r(2) asks_length [OF r(1)] l by (simp add: ParseTransactionID_def)
      then show ?thesis
        using False s(1,2,4) p(7) r(3) QuestionType_asks [OF r(1)] QuestionType_asks [OF p(1)] by (simp add: kept_ips(1))
    qed (use s p(7) in simp)
  qed (use p(7) in auto)
qed


text \<open>An answer with two addresses for the witness: it asks for a one-letter name.\<close>

definition two_answers :: bytes where
  "two_answers = [0, 5, 0x81, 0x80, 0, 1, 0, 2, 0, 0, 0, 0, 1, 97, 0, 0, 1, 0, 1,
     0xC0, 12, 0, 1, 0, 1, 0, 0, 0, 60, 0, 4, 10, 0, 0, 1, 0xC0, 12, 0, 1, 0, 1, 0, 0, 0, 60, 0, 4, 10, 0, 0, 2]"

definition a_rr :: "bytes \<Rightarrow> answerRR" where
  "a_rr ip = \<lparr>rr_name = [97], rr_typ = 1, rr_class = 1, rr_ttl = 60, rr_rdata = ip, rr_ip = Some ip, rr_target = []\<rparr>"

lemmas dns_eval = two_answers_def readName_def skipDNSName_def skip_loop.simps read_labels.simps be16_def be32_def at_nat_def at_def

lemma two_answers_names:
  "readName two_answers 12 = Some (Some ([97], 15))" "readName two_answers 19 = Some (Some ([97], 21))"
  "readName two_answers 35 = Some (Some ([97], 37))"
  by (simp_all add: dns_eval)

lemma two_answers_records:
  "read_answer two_answers 19 = Some (Some (a_rr [10, 0, 0, 1], 35))"
  "read_answer two_answers 35 = Some (Some (a_rr [10, 0, 0, 2], 51))"
  by (simp add: read_answer_def two_answers_names, simp add: dns_eval answer_data_def a_rr_def)+

lemma two_answers_sections:
  "parse_sections two_answers 2 0 [97] 15 =
     Some (Some ([97], [1, 97, 0, 0, 1, 0, 1], [a_rr [10, 0, 0, 1], a_rr [10, 0, 0, 2]], [], 0))"
  by (simp add: parse_sections_def numeral_2_eq_2 two_answers_records) (simp add: two_answers_def)

lemma two_answers_parsed:
  "parse_answer two_answers = Some (Some ([97], [1, 97, 0, 0, 1, 0, 1], [a_rr [10, 0, 0, 1], a_rr [10, 0, 0, 2]], [], 0))"
proof -
  have "length two_answers = 51" "at two_answers 2 = Some 0x81" "at two_answers 3 = Some 0x80" "be16 two_answers 4 = Some 1"
    "be16 two_answers 6 = Some 2" "be16 two_answers 8 = Some 0" "be16 two_answers 10 = Some 0" by (simp_all add: dns_eval)
  then show ?thesis by (simp add: parse_answer_def two_answers_names two_answers_sections)
qed

lemma two_answers_filtered:
  "\<exists>out. FilterAnswerIPs L two_answers 0 0 (Some (\<lambda>ip. ip = [10, 0, 0, 1])) = Some (FilterRewritten out)"
proof -
  have "length two_answers = 51" by (simp add: two_answers_def)
  then show ?thesis
    by (simp add: FilterAnswerIPs_def two_answers_parsed rewrite_answer_def Let_def rr_gone_def a_rr_def write_record_def write_name_def
        equal_fold_def is_ascii_def responseSizeLimit_def)
qed


end
