(* ===== verification/Dns_Lookup.thy ===== *)
theory Dns_Lookup
  imports Dns_Query
begin

text \<open>
  Resolving a name through a set's own server (\<^verbatim>\<open>src/dns/lookup.go\<close>) and the health of such servers
  (\<^verbatim>\<open>src/dns/sourcehealth.go\<close>): a server that failed three times in a row is skipped, with one lookup let through every
  thirty seconds. Times are nanoseconds of a clock; each call of \<^verbatim>\<open>time.Now\<close> is an argument. What the network and the
  router's resolver answer are arguments too.
\<close>

subsection \<open>The health of a source\<close>

definition SourceFailuresToTrip :: nat where
  "SourceFailuresToTrip = 3"

definition sourceCooldown :: nat where
  "sourceCooldown = 30 * 1000000000"

record sourceState =
  failures :: nat
  retryAt :: nat

type_synonym source_health = "gostr \<rightharpoonup> sourceState"

definition SourceUnreachable :: "source_health \<Rightarrow> nat \<Rightarrow> nat \<Rightarrow> gostr \<Rightarrow> source_health \<times> bool" where
  "SourceUnreachable h now later source =
     (if source = [] then (h, False)
      else case h source of
        None \<Rightarrow> (h, False)
      | Some state \<Rightarrow>
          if failures state < SourceFailuresToTrip then (h, False)
          else if now < retryAt state then (h, True)
          else (h(source \<mapsto> state\<lparr>retryAt := later + sourceCooldown\<rparr>), False))"

definition NoteSourceFailure :: "source_health \<Rightarrow> nat \<Rightarrow> gostr \<Rightarrow> source_health \<times> bool" where
  "NoteSourceFailure h now source =
     (if source = [] then (h, False)
      else
        let state = (case h source of None \<Rightarrow> \<lparr>failures = 0, retryAt = 0\<rparr> | Some state \<Rightarrow> state);
            state = state\<lparr>failures := failures state + 1\<rparr>
        in if failures state = SourceFailuresToTrip then (h(source \<mapsto> state\<lparr>retryAt := now + sourceCooldown\<rparr>), True)
           else (h(source \<mapsto> state), False))"

definition NoteSourceSuccess :: "source_health \<Rightarrow> gostr \<Rightarrow> source_health \<times> bool" where
  "NoteSourceSuccess h source =
     (if source = [] then (h, False)
      else case h source of
        None \<Rightarrow> (h, False)
      | Some state \<Rightarrow>
          if failures state = 0 then (h, False)
          else (h(source := None), failures state \<ge> SourceFailuresToTrip))"

definition ResetSourceHealth :: source_health where
  "ResetSourceHealth = Map.empty"

subsection \<open>Lookups\<close>

datatype lookup_error = ErrNoAddress | LookupFailed

record Server =
  Source :: gostr
  DoHURL :: gostr
  UDP :: "bytes option"
  Port :: int
  Mark :: int
  Timeout :: int

definition no_server :: Server where
  "no_server = \<lparr>Source = [], DoHURL = [], UDP = None, Port = 0, Mark = 0, Timeout = 0\<rparr>"

definition server_timeout :: "Server \<Rightarrow> int" where
  "server_timeout s = (if Timeout s > 0 then Timeout s else 5 * 1000000000)"

definition Budget :: "Server \<Rightarrow> int" where
  "Budget s = 2 * server_timeout s + 5 * 1000000000"

definition SetServer :: "(gostr \<Rightarrow> bytes option) \<Rightarrow> bool \<Rightarrow> gostr \<Rightarrow> gostr \<Rightarrow> Server option" where
  "SetServer parse_ip enabled target dohURL =
     (if \<not> enabled then None
      else if dohURL \<noteq> [] then Some (no_server\<lparr>Source := dohURL, DoHURL := dohURL\<rparr>)
      else case parse_ip target of
        Some ip \<Rightarrow> Some (no_server\<lparr>Source := target, UDP := Some ip\<rparr>)
      | None \<Rightarrow> None)"

text \<open>What the two exchanges of a lookup bring: the transaction id that was sent and the answer or an error.\<close>

definition check_answer :: "nat \<Rightarrow> bytes \<Rightarrow> (lookup_error + bytes list) option" where
  "check_answer txid resp =
     (if length resp < 12 then Some (Inl LookupFailed)
      else do {
        i \<leftarrow> be16 resp 0;
        if i \<noteq> txid then Some (Inl LookupFailed)
        else do {
          r \<leftarrow> ResponseRcode resp;
          let rcode = (case r of Some c \<Rightarrow> c | None \<Rightarrow> 0);
          if rcode \<noteq> 0 \<and> rcode \<noteq> 3 then Some (Inl ErrNoAddress)
          else do {
            ips \<leftarrow> ParseResponseIPs resp;
            Some (if ips = [] then Inl ErrNoAddress else Inr ips) } } })"

definition exchange :: "(bytes \<Rightarrow> lookup_error + bytes) \<Rightarrow> Server \<Rightarrow> nat \<Rightarrow> gostr \<Rightarrow> nat \<Rightarrow> (lookup_error + bytes list) option" where
  "exchange ask s random name qtype =
     (let txid = (if DoHURL s \<noteq> [] then 0 else random mod 65536) in
      case ask (BuildQuery name txid qtype) of
        Inl e \<Rightarrow> Some (Inl e)
      | Inr resp \<Rightarrow> check_answer txid resp)"

text \<open>The answers of the families that were asked, in their order.\<close>

definition family_ips :: "nat \<Rightarrow> lookup_error + bytes list \<Rightarrow> bytes list" where
  "family_ips qtype r = (case r of Inr ips \<Rightarrow> filter (\<lambda>ip. (to4 ip \<noteq> None) = (qtype = 1)) ips | Inl _ \<Rightarrow> [])"

definition hard_failures :: "(lookup_error + bytes list) list \<Rightarrow> lookup_error list" where
  "hard_failures rs = [e. Inl e \<leftarrow> rs, e \<noteq> ErrNoAddress]"

definition LookupIPs :: "(nat \<Rightarrow> lookup_error + bytes list) \<Rightarrow> bool \<Rightarrow> bool \<Rightarrow> lookup_error + bytes list" where
  "LookupIPs result v4 v6 =
     (let qtypes = (if v4 then [1] else []) @ (if v6 then [28] else []);
          out = concat (map (\<lambda>q. family_ips q (result q)) qtypes);
          failure = hard_failures (map result qtypes)
      in if out \<noteq> [] then Inr out
         else if failure \<noteq> [] then Inl (hd failure)
         else if qtypes \<noteq> [] then Inl ErrNoAddress
         else Inl LookupFailed)"

text \<open>
  The lookup of a set that may fall back on the router's resolver: the answer of the set's server, whether the caller gave
  up meanwhile, the addresses of the router's resolver, and the readings of the clock are arguments.
\<close>

definition router_lookup :: "(lookup_error + bytes list) \<Rightarrow> bool \<Rightarrow> bool \<Rightarrow> lookup_error + bytes list" where
  "router_lookup addrs v4 v6 =
     (case addrs of
        Inl e \<Rightarrow> Inl e
      | Inr addrs \<Rightarrow>
          let ips = filter (\<lambda>ip. to4 ip \<noteq> None \<and> v4 \<or> to4 ip = None \<and> v6) addrs in
          if ips = [] then Inl ErrNoAddress else Inr ips)"

definition LookupWithFallback ::
    "source_health \<Rightarrow> nat \<times> nat \<times> nat \<Rightarrow> (lookup_error + bytes list) \<Rightarrow> bool \<Rightarrow> (lookup_error + bytes list) \<Rightarrow>
     gostr \<Rightarrow> bool \<Rightarrow> bool \<Rightarrow> bool \<Rightarrow> bool \<Rightarrow> source_health \<times> (lookup_error + bytes list)" where
  "LookupWithFallback h clock answer gaveUp addrs source useSet strict v4 v6 =
     (case clock of (now, later, done) \<Rightarrow>
      let fallback = router_lookup addrs v4 v6;
          (h, skipped) = (if useSet \<and> \<not> strict then SourceUnreachable h now later source else (h, False))
      in if \<not> useSet \<or> skipped then (h, fallback)
         else case answer of
           Inr ips \<Rightarrow> (fst (NoteSourceSuccess h source), Inr ips)
         | Inl e \<Rightarrow>
             if e = ErrNoAddress then (fst (NoteSourceSuccess h source), Inl e)
             else if gaveUp then (h, Inl e)
             else let h = fst (NoteSourceFailure h done source) in
               if strict then (h, Inl e) else (h, fallback))"

subsection \<open>The circuit breaker\<close>

text \<open>The calls of the lookups of all sets, in the order the mutex gives them.\<close>

datatype health_call =
    Ask (call_now: nat) (call_later: nat) (call_source: gostr)
  | Fail (call_now: nat) (call_source: gostr)
  | Succeed (call_source: gostr)
  | Reset

fun health_step :: "source_health \<Rightarrow> health_call \<Rightarrow> source_health \<times> bool" where
  "health_step h (Ask now later source) = SourceUnreachable h now later source"
| "health_step h (Fail now source) = NoteSourceFailure h now source"
| "health_step h (Succeed source) = NoteSourceSuccess h source"
| "health_step h Reset = (ResetSourceHealth, False)"

definition health_run :: "source_health \<Rightarrow> health_call list \<Rightarrow> source_health" where
  "health_run h cs = foldl (\<lambda>h c. fst (health_step h c)) h cs"

definition resets :: "gostr \<Rightarrow> health_call \<Rightarrow> bool" where
  "resets source c \<longleftrightarrow> c = Reset \<or> c = Succeed source"

definition is_failure :: "gostr \<Rightarrow> health_call \<Rightarrow> bool" where
  "is_failure source c \<longleftrightarrow> (\<exists>now. c = Fail now source)"

lemma health_run_simps [simp]: "health_run h [] = h" "health_run h (c # cs) = health_run (fst (health_step h c)) cs"
  by (simp_all add: health_run_def)

definition failure_count :: "source_health \<Rightarrow> gostr \<Rightarrow> nat" where
  "failure_count h source = (case h source of None \<Rightarrow> 0 | Some st \<Rightarrow> failures st)"

lemma failure_count_step:
  assumes "source \<noteq> []"
  shows "failure_count (fst (health_step h c)) source =
    (if resets source c then 0 else failure_count h source + (if is_failure source c then 1 else 0))"
  using assms
  by (cases c) (auto simp: failure_count_def resets_def is_failure_def SourceUnreachable_def NoteSourceFailure_def NoteSourceSuccess_def
      ResetSourceHealth_def Let_def split: option.splits)

lemma failure_count_run:
  "source \<noteq> [] \<Longrightarrow> list_all (\<lambda>c. \<not> resets source c) cs \<Longrightarrow>
   failure_count (health_run h cs) source = failure_count h source + length (filter (is_failure source) cs)"
  by (induction cs arbitrary: h) (auto simp: failure_count_step)

text \<open>The readings of the clock in a call, and the times at which a source that has tripped is asked all the same.\<close>

fun readings :: "health_call \<Rightarrow> nat list" where
  "readings (Ask now later _) = [now, later]"
| "readings (Fail now _) = [now]"
| "readings _ = []"

fun probes :: "gostr \<Rightarrow> source_health \<Rightarrow> health_call list \<Rightarrow> nat list" where
  "probes source h [] = []"
| "probes source h (c # cs) =
     (case c of Ask now later s \<Rightarrow> if s = source \<and> \<not> snd (health_step h c) then [later] else [] | _ \<Rightarrow> []) @
     probes source (fst (health_step h c)) cs"

lemma health_step_other:
  "c \<noteq> Reset \<Longrightarrow> call_source c \<noteq> source \<Longrightarrow> fst (health_step h c) source = h source"
  by (cases c) (auto simp: SourceUnreachable_def NoteSourceFailure_def NoteSourceSuccess_def Let_def split: option.splits)

text \<open>A call leaves a tripped source tripped; it moves the time of the next probe only when it is that probe.\<close>

lemma tripped_step:
  assumes "h source = Some st" "SourceFailuresToTrip \<le> failures st" "source \<noteq> []" "\<not> resets source c"
  shows "(\<exists>st'. fst (health_step h c) source = Some st' \<and> SourceFailuresToTrip \<le> failures st' \<and> retryAt st' = retryAt st \<and>
      probes source h [c] = []) \<or>
    (\<exists>now later st'. c = Ask now later source \<and> retryAt st \<le> now \<and> fst (health_step h c) source = Some st' \<and>
      SourceFailuresToTrip \<le> failures st' \<and> retryAt st' = later + sourceCooldown \<and> probes source h [c] = [later])"
proof (cases "c \<noteq> Reset \<and> call_source c = source")
  case True
  then show ?thesis
  proof (cases c)
    case (Ask now later s)
    then show ?thesis using assms True by (cases "now < retryAt st") (auto simp: SourceUnreachable_def)
  qed (use assms True in \<open>auto simp: NoteSourceFailure_def resets_def Let_def\<close>)
next
  case False
  then have "fst (health_step h c) source = h source" using assms(4) by (intro health_step_other) (auto simp: resets_def)
  then show ?thesis using assms False by (cases c) (auto simp: resets_def)
qed

lemma probes_Cons: "probes source h (c # cs) = probes source h [c] @ probes source (fst (health_step h c)) cs"
  by simp

lemma probes_spaced:
  "h source = Some st \<Longrightarrow> SourceFailuresToTrip \<le> failures st \<Longrightarrow> source \<noteq> [] \<Longrightarrow> list_all (\<lambda>c. \<not> resets source c) cs \<Longrightarrow>
   sorted (concat (map readings cs)) \<Longrightarrow>
   sorted_wrt (\<lambda>a b. a + sourceCooldown \<le> b) (probes source h cs) \<and> (\<forall>p \<in> set (probes source h cs). retryAt st \<le> p)"
proof (induction cs arbitrary: h st)
  case (Cons c cs)
  have rest: "list_all (\<lambda>c. \<not> resets source c) cs" "sorted (concat (map readings cs))" and c: "\<not> resets source c"
    using Cons.prems(4,5) by (auto simp: sorted_append)
  note p = probes_Cons [of source h c cs]
  from tripped_step [of h source st c] Cons.prems(1-3) c consider
      st' where "fst (health_step h c) source = Some st'" "SourceFailuresToTrip \<le> failures st'" "retryAt st' = retryAt st" "probes source h [c] = []"
    | now later st' where "c = Ask now later source" "retryAt st \<le> now" "fst (health_step h c) source = Some st'"
        "SourceFailuresToTrip \<le> failures st'" "retryAt st' = later + sourceCooldown" "probes source h [c] = [later]"
    by blast
  then show ?case
  proof cases
    case 1
    then show ?thesis using Cons.IH [of "fst (health_step h c)" st'] Cons.prems(3) rest unfolding p by simp
  next
    case 2
    have "now \<le> later" using Cons.prems(5) 2(1) by simp
    then show ?thesis using Cons.IH [of "fst (health_step h c)" st'] 2 Cons.prems(3) rest unfolding p by auto
  qed
qed simp

text \<open>
  C12. The health of a server that answers lookups is a circuit breaker. With no success in between, the failures add up,
  and the third one trips it; from there on, whatever other calls are interleaved, the lookups that are let through are at least
  the cooldown apart, and the first of them comes a cooldown after the third failure.
\<close>

theorem source_circuit_breaker:
  assumes "source \<noteq> []" "failure_count h source = 2" "cs = Fail now source # rest" "list_all (\<lambda>c. \<not> resets source c) rest"
    "sorted (concat (map readings cs))"
  shows "snd (NoteSourceFailure h now source) \<and>
    failure_count (health_run h cs) source = 3 + length (filter (is_failure source) rest) \<and>
    sorted_wrt (\<lambda>a b. a + 30000000000 \<le> b) (probes source h cs) \<and>
    (\<forall>p \<in> set (probes source h cs). now + 30000000000 \<le> p)"
proof -
  let ?h = "fst (NoteSourceFailure h now source)"
  obtain st where st: "h source = Some st" "failures st = 2" using assms(2) by (auto simp: failure_count_def split: option.splits)
  then have t: "snd (NoteSourceFailure h now source)" "?h source = Some \<lparr>failures = 3, retryAt = now + sourceCooldown\<rparr>"
    using assms(1) by (auto simp: NoteSourceFailure_def Let_def SourceFailuresToTrip_def)
  then have "failure_count (health_run h cs) source = 3 + length (filter (is_failure source) rest)"
    using failure_count_run [OF assms(1,4), of ?h] assms(3) by (simp add: failure_count_def)
  moreover have "sorted (concat (map readings rest))" using assms(3,5) by simp
  ultimately show ?thesis
    using probes_spaced [of ?h source "\<lparr>failures = 3, retryAt = now + sourceCooldown\<rparr>" rest] t assms(1,3,4)
    by (simp add: SourceFailuresToTrip_def sourceCooldown_def)
qed

theorem source_circuit_breaker_witness:
  "snd (NoteSourceFailure [str ''s'' \<mapsto> \<lparr>failures = 2, retryAt = 0\<rparr>] 5 (str ''s'')) \<and>
   sorted_wrt (\<lambda>a b. a + 30000000000 \<le> b) (probes (str ''s'') [str ''s'' \<mapsto> \<lparr>failures = 2, retryAt = 0\<rparr>]
     [Fail 5 (str ''s''), Ask 40000000000 40000000001 (str ''s''), Ask 40000000002 40000000002 (str ''s'')])"
  using source_circuit_breaker [of "str ''s''" "[str ''s'' \<mapsto> \<lparr>failures = 2, retryAt = 0\<rparr>]"
      "[Fail 5 (str ''s''), Ask 40000000000 40000000001 (str ''s''), Ask 40000000002 40000000002 (str ''s'')]" 5
      "[Ask 40000000000 40000000001 (str ''s''), Ask 40000000002 40000000002 (str ''s'')]"]
  by (simp add: str_def failure_count_def resets_def)

subsection \<open>Lookups of strict sets\<close>

text \<open>A strict set never falls back on the router's resolver: its result is its server's, and a cooling server is asked all the same.\<close>

lemma strict_lookup: "snd (LookupWithFallback h clock answer gaveUp addrs source True True v4 v6) = answer"
  by (auto simp: LookupWithFallback_def Let_def split: prod.split sum.split)

text \<open>What a lookup returns are addresses of the families that were asked for.\<close>

lemma LookupIPs_families:
  assumes "LookupIPs result v4 v6 = Inr ips" "ip \<in> set ips"
  shows "if to4 ip \<noteq> None then v4 else v6"
  using assms by (auto simp: LookupIPs_def Let_def family_ips_def split: sum.splits if_splits)

end
