(* ===== verification/Name_Cache.thy ===== *)
theory Name_Cache
  imports Go_Strings Caches
begin

text \<open>
  The names that clients resolved, by address (\<^verbatim>\<open>src/dns/names.go\<close>): an LRU cache of at most 8192 addresses, each with at
  most eight names and each name with at most four clients. \<open>client.String()\<close> and \<open>net.ParseIP\<close> are arguments;
  times are nanoseconds. Lookups of the mutex and of the atomic flag are separate steps of \<open>cache_reach\<close>.
\<close>

definition nameCacheLimit :: nat where
  "nameCacheLimit = 8192"

definition nameCacheTTL :: int where
  "nameCacheTTL = 30 * 60 * 1000000000"

definition namesPerAddress :: nat where
  "namesPerAddress = 8"

definition clientsPerName :: nat where
  "clientsPerName = 4"

definition maxObservedName :: nat where
  "maxObservedName = 253"

record nameRecord =
  rec_name :: gostr
  rec_clients :: "gostr list"
  rec_local :: bool
  rec_seen :: int

record NameMatches =
  Own :: "gostr list"
  Local :: "gostr list"
  Others :: "gostr list"

record NameCache =
  names :: "nameRecord list lru"
  cache_ttl :: int
  wanted :: bool

definition NewNameCache :: NameCache where
  "NewNameCache = \<lparr>names = lru_empty nameCacheLimit, cache_ttl = nameCacheTTL, wanted = False\<rparr>"

definition clear_names :: "NameCache \<Rightarrow> NameCache" where
  "clear_names c = c\<lparr>names := lru_empty (limit (names c))\<rparr>"

definition SetWanted :: "NameCache \<Rightarrow> bool \<Rightarrow> NameCache" where
  "SetWanted c w = (let was = wanted c; c = c\<lparr>wanted := w\<rparr> in if \<not> was \<or> w then c else clear_names c)"

definition host_byte :: "byte \<Rightarrow> bool" where
  "host_byte ch \<longleftrightarrow> 97 \<le> ch \<and> ch \<le> 122 \<or> 48 \<le> ch \<and> ch \<le> 57 \<or> ch = 45 \<or> ch = 46 \<or> ch = 95"

definition CleanHostName :: "golib \<Rightarrow> (gostr \<Rightarrow> bytes option) \<Rightarrow> gostr \<Rightarrow> gostr" where
  "CleanHostName L parse_ip name =
     (let n = trim_right_byte 46 (to_lower L (trim_space name)) in
      if n = [] \<or> length n > maxObservedName \<or> 46 \<notin> set n \<or> parse_ip n \<noteq> None then []
      else if list_all host_byte n then n else [])"

definition new_clients :: "gostr \<Rightarrow> gostr list \<Rightarrow> gostr list" where
  "new_clients who prev = who # take (clientsPerName - 1) (filter (\<lambda>cl. cl \<noteq> who) prev)"

definition inherit_record :: "gostr \<Rightarrow> int \<Rightarrow> nameRecord list \<Rightarrow> nameRecord" where
  "inherit_record name now records =
     foldl (\<lambda>rec prev. if rec_name prev = name then rec\<lparr>rec_local := rec_local prev, rec_clients := rec_clients prev\<rparr> else rec)
       \<lparr>rec_name = name, rec_clients = [], rec_local = False, rec_seen = now\<rparr> records"

definition observe_records :: "int \<Rightarrow> nameRecord list \<Rightarrow> gostr \<Rightarrow> gostr \<Rightarrow> int \<Rightarrow> nameRecord list" where
  "observe_records ttl records name who now =
     (let rec = inherit_record name now records;
          kept = take (namesPerAddress - 1) (filter (\<lambda>prev. rec_name prev \<noteq> name \<and> now - rec_seen prev \<le> ttl) records);
          rec = (if who = [] then rec\<lparr>rec_local := True\<rparr> else rec\<lparr>rec_clients := new_clients who (rec_clients rec)\<rparr>)
      in rec # kept)"

definition observeLocked :: "NameCache \<Rightarrow> gostr \<Rightarrow> gostr \<Rightarrow> gostr \<Rightarrow> int \<Rightarrow> NameCache" where
  "observeLocked c key name who now =
     (let (l, records) = (case entries (names c) key of
            None \<Rightarrow> (lru_add (names c) key [], [])
          | Some records \<Rightarrow> (lru_touch (names c) key, records))
      in c\<lparr>names := lru_set l key (observe_records (cache_ttl c) records name who now)\<rparr>)"

definition observe_all :: "(bytes \<Rightarrow> gostr) \<Rightarrow> NameCache \<Rightarrow> gostr \<Rightarrow> gostr \<Rightarrow> int \<Rightarrow> bytes option list \<Rightarrow> NameCache" where
  "observe_all ip_string c name who now ips =
     foldl (\<lambda>c ip. case ip of None \<Rightarrow> c | Some ip \<Rightarrow> observeLocked c (ip_string ip) name who now) c ips"

definition who_of :: "(bytes \<Rightarrow> gostr) \<Rightarrow> bytes option \<Rightarrow> gostr" where
  "who_of ip_string client = (case client of None \<Rightarrow> [] | Some ip \<Rightarrow> ip_string ip)"

definition Observe ::
    "golib \<Rightarrow> (gostr \<Rightarrow> bytes option) \<Rightarrow> (bytes \<Rightarrow> gostr) \<Rightarrow> NameCache \<Rightarrow> bytes option \<Rightarrow> gostr \<Rightarrow> bytes option list \<Rightarrow> int \<Rightarrow> NameCache" where
  "Observe L parse_ip ip_string c client name ips now =
     (if \<not> wanted c \<or> ips = [] then c
      else let n = CleanHostName L parse_ip name in
        if n = [] then c else observe_all ip_string c n (who_of ip_string client) now ips)"

definition match_record :: "gostr \<Rightarrow> NameMatches \<Rightarrow> nameRecord \<Rightarrow> NameMatches" where
  "match_record who m rec =
     (if who \<noteq> [] \<and> who \<in> set (rec_clients rec) then m\<lparr>Own := Own m @ [rec_name rec]\<rparr>
      else if rec_local rec then m\<lparr>Local := Local m @ [rec_name rec]\<rparr>
      else m\<lparr>Others := Others m @ [rec_name rec]\<rparr>)"

definition Lookup :: "(bytes \<Rightarrow> gostr) \<Rightarrow> NameCache \<Rightarrow> bytes option \<Rightarrow> bytes option \<Rightarrow> int \<Rightarrow> NameMatches" where
  "Lookup ip_string c client ip now =
     (let m = \<lparr>Own = [], Local = [], Others = []\<rparr> in
      case ip of
        None \<Rightarrow> m
      | Some ip \<Rightarrow>
          if \<not> wanted c then m
          else case entries (names c) (ip_string ip) of
            None \<Rightarrow> m
          | Some records \<Rightarrow>
              foldl (match_record (who_of ip_string client)) m (filter (\<lambda>rec. \<not> now - rec_seen rec > cache_ttl c) records))"

definition NameMatches_Empty :: "NameMatches \<Rightarrow> bool" where
  "NameMatches_Empty m \<longleftrightarrow> Own m = [] \<and> Local m = [] \<and> Others m = []"

definition NameMatches_Has :: "NameMatches \<Rightarrow> gostr \<Rightarrow> bool" where
  "NameMatches_Has m name \<longleftrightarrow> name \<in> set (Own m) \<or> name \<in> set (Local m) \<or> name \<in> set (Others m)"

subsection \<open>The invariant\<close>

definition clean_name :: "gostr \<Rightarrow> bool" where
  "clean_name n \<longleftrightarrow> n \<noteq> [] \<and> length n \<le> 253 \<and> 46 \<in> set n \<and> list_all host_byte n \<and> last n \<noteq> 46"

definition record_ok :: "nameRecord \<Rightarrow> bool" where
  "record_ok r \<longleftrightarrow> clean_name (rec_name r) \<and> distinct (rec_clients r) \<and> length (rec_clients r) \<le> 4 \<and> [] \<notin> set (rec_clients r)"

definition records_ok :: "nameRecord list \<Rightarrow> bool" where
  "records_ok rs \<longleftrightarrow> length rs \<le> 8 \<and> distinct (map rec_name rs) \<and> (\<forall>r \<in> set rs. record_ok r)"

definition cache_ok :: "NameCache \<Rightarrow> bool" where
  "cache_ok c \<longleftrightarrow> lru_ok (names c) \<and> limit (names c) = 8192 \<and> cache_ttl c = nameCacheTTL \<and> (\<forall>k rs. entries (names c) k = Some rs \<longrightarrow> records_ok rs)"

lemma CleanHostName_clean: "CleanHostName L parse_ip name \<noteq> [] \<Longrightarrow> clean_name (CleanHostName L parse_ip name)"
  using trim_right_byte_last [of 46 "to_lower L (trim_space name)"]
  by (auto simp: CleanHostName_def Let_def clean_name_def maxObservedName_def split: if_splits)

lemma inherit_record_fixed [simp]: "rec_name (inherit_record name now rs) = name" "rec_seen (inherit_record name now rs) = now"
  unfolding inherit_record_def by (induction rs rule: rev_induct) auto

lemma inherit_record_from:
  "rec_clients (inherit_record name now rs) = [] \<and> \<not> rec_local (inherit_record name now rs) \<or>
   (\<exists>p \<in> set rs. rec_name p = name \<and> rec_clients (inherit_record name now rs) = rec_clients p \<and>
      rec_local (inherit_record name now rs) = rec_local p)"
  unfolding inherit_record_def by (induction rs rule: rev_induct) auto

lemma new_clients_ok:
  "distinct prev \<Longrightarrow> [] \<notin> set prev \<Longrightarrow> who \<noteq> [] \<Longrightarrow>
   distinct (new_clients who prev) \<and> length (new_clients who prev) \<le> 4 \<and> [] \<notin> set (new_clients who prev)"
  by (auto simp: new_clients_def clientsPerName_def dest!: in_set_takeD)

lemma distinct_map_take_filter: "distinct (map f xs) \<Longrightarrow> distinct (map f (take n (filter P xs)))"
  by (simp add: distinct_map_filter flip: take_map)

lemma records_ok_Cons:
  "record_ok r \<Longrightarrow> distinct (map rec_name rs) \<Longrightarrow> length rs \<le> 7 \<Longrightarrow> (\<And>p. p \<in> set rs \<Longrightarrow> record_ok p \<and> rec_name p \<noteq> rec_name r) \<Longrightarrow>
   records_ok (r # rs)"
  unfolding records_ok_def list.map list.set distinct.simps by (simp add: image_iff) metis

lemma observe_records_ok:
  assumes "records_ok rs" "clean_name name"
  shows "records_ok (observe_records ttl rs name who now)"
proof -
  let ?kept = "take 7 (filter (\<lambda>p. rec_name p \<noteq> name \<and> now - rec_seen p \<le> ttl) rs)"
  let ?r = "inherit_record name now rs"
  have r: "distinct (rec_clients ?r)" "length (rec_clients ?r) \<le> 4" "[] \<notin> set (rec_clients ?r)"
    using inherit_record_from [of name now rs] assms(1) by (auto simp: records_ok_def record_ok_def)
  define r' where "r' = (if who = [] then ?r\<lparr>rec_local := True\<rparr> else ?r\<lparr>rec_clients := new_clients who (rec_clients ?r)\<rparr>)"
  have o: "observe_records ttl rs name who now = r' # ?kept"
    by (simp add: observe_records_def Let_def namesPerAddress_def r'_def)
  have r': "record_ok r'" "rec_name r' = name"
    using r new_clients_ok [OF r(1,3), of who] assms(2) by (simp_all add: record_ok_def r'_def)
  have d: "distinct (map rec_name ?kept)"
    using assms(1) unfolding records_ok_def by (intro distinct_map_take_filter) simp
  have l: "length ?kept \<le> 7" by simp
  have k: "record_ok p \<and> rec_name p \<noteq> name" if "p \<in> set ?kept" for p
    using in_set_takeD [OF that] assms(1) by (simp add: records_ok_def)
  show ?thesis unfolding o by (rule records_ok_Cons [OF r'(1) d l]) (use k r'(2) in blast)
qed

lemma records_ok_Nil [simp]: "records_ok []"
  by (simp add: records_ok_def)

lemma lru_set_entries [simp]: "entries (lru_set l k v) = (entries l)(k \<mapsto> v)"
  by (simp add: lru_set_def)

lemma lru_touch_entries [simp]: "entries (lru_touch l k) = entries l"
  by (simp add: lru_touch_def)

text \<open>What an observation does to the map of addresses: a set entry, and perhaps the loss of another address.\<close>

lemma observeLocked_entries:
  assumes "entries (names (observeLocked c key name who now)) k = Some rs"
  shows "k = key \<and> rs = observe_records (cache_ttl c) (case entries (names c) key of None \<Rightarrow> [] | Some rs \<Rightarrow> rs) name who now \<or>
    k \<noteq> key \<and> entries (names c) k = Some rs"
  using assms by (auto simp: observeLocked_def Let_def split: option.splits if_splits dest!: lru_add_entries)

lemma observeLocked_ok:
  assumes "cache_ok c" "clean_name name"
  shows "cache_ok (observeLocked c key name who now)"
proof -
  have "records_ok (case entries (names c) key of None \<Rightarrow> [] | Some rs \<Rightarrow> rs)"
    using assms(1) by (auto simp: cache_ok_def split: option.splits)
  then have "\<forall>k rs. entries (names (observeLocked c key name who now)) k = Some rs \<longrightarrow> records_ok rs"
    using observeLocked_entries [of c key name who now] observe_records_ok [OF _ assms(2)] assms(1) by (fastforce simp: cache_ok_def)
  moreover have "lru_ok (names (observeLocked c key name who now))"
  proof (cases "entries (names c) key")
    case None
    then have "lru_ok (lru_add (names c) key [])" using assms(1) by (simp add: cache_ok_def lru_add_ok)
    moreover have "entries (lru_add (names c) key []) key = Some []" by (simp add: lru_add_def Let_def)
    ultimately show ?thesis using None by (auto simp: observeLocked_def intro: lru_set_ok)
  next
    case (Some rs)
    then have "lru_ok (lru_touch (names c) key)" using assms(1) by (auto simp: cache_ok_def intro: lru_touch_ok)
    then show ?thesis using Some by (auto simp: observeLocked_def intro: lru_set_ok)
  qed
  moreover have "limit (names (observeLocked c key name who now)) = limit (names c)"
    by (auto simp: observeLocked_def split: option.splits)
  moreover have "cache_ttl (observeLocked c key name who now) = cache_ttl c"
    by (simp add: observeLocked_def split: prod.split)
  ultimately show ?thesis using assms(1) by (simp add: cache_ok_def)
qed

subsection \<open>Every interleaving\<close>

text \<open>
  The states that calls from any threads reach, with what was observed: under which address, which name, by whom and when.
  An observation reads the flag before it takes the mutex, and the flag is cleared before the cache is: the steps below allow the
  locked part of an observation in any state, and the two halves of \<open>SetWanted\<close> apart from each other.
\<close>

type_synonym observation = "gostr \<times> gostr \<times> gostr \<times> int"

definition observed :: "(bytes \<Rightarrow> gostr) \<Rightarrow> gostr \<Rightarrow> gostr \<Rightarrow> int \<Rightarrow> bytes option list \<Rightarrow> observation list" where
  "observed ip_string name who now ips = List.map_filter (map_option (\<lambda>ip. (ip_string ip, name, who, now))) ips"

inductive cache_reach ::
    "golib \<Rightarrow> (gostr \<Rightarrow> bytes option) \<Rightarrow> (bytes \<Rightarrow> gostr) \<Rightarrow> NameCache \<Rightarrow> observation list \<Rightarrow> bool"
  for L parse_ip ip_string where
  new: "cache_reach L parse_ip ip_string NewNameCache []"
| observe: "cache_reach L parse_ip ip_string c obs \<Longrightarrow> n = CleanHostName L parse_ip name \<Longrightarrow> n \<noteq> [] \<Longrightarrow> who = who_of ip_string client \<Longrightarrow>
    cache_reach L parse_ip ip_string (observe_all ip_string c n who now ips) (obs @ observed ip_string n who now ips)"
| flag: "cache_reach L parse_ip ip_string c obs \<Longrightarrow> cache_reach L parse_ip ip_string (c\<lparr>wanted := w\<rparr>) obs"
| clear: "cache_reach L parse_ip ip_string c obs \<Longrightarrow> cache_reach L parse_ip ip_string (clear_names c) obs"

lemma Observe_reach:
  assumes "cache_reach L parse_ip ip_string c obs"
  shows "\<exists>obs'. cache_reach L parse_ip ip_string (Observe L parse_ip ip_string c client name ips now) (obs @ obs')"
proof (cases "wanted c \<and> ips \<noteq> [] \<and> CleanHostName L parse_ip name \<noteq> []")
  case True
  then have "Observe L parse_ip ip_string c client name ips now =
      observe_all ip_string c (CleanHostName L parse_ip name) (who_of ip_string client) now ips" by (simp add: Observe_def Let_def)
  then show ?thesis using cache_reach.observe [OF assms refl _ refl, of name client now ips] True by auto
next
  case False
  then have "Observe L parse_ip ip_string c client name ips now = c" by (auto simp: Observe_def Let_def)
  then show ?thesis using assms by (metis append_Nil2)
qed

lemma SetWanted_reach: "cache_reach L parse_ip ip_string c obs \<Longrightarrow> cache_reach L parse_ip ip_string (SetWanted c w) obs"
  by (auto simp: SetWanted_def Let_def intro: cache_reach.intros)

text \<open>A record rests on what was observed.\<close>

definition rests_on :: "observation list \<Rightarrow> gostr \<Rightarrow> nameRecord \<Rightarrow> bool" where
  "rests_on obs key r \<longleftrightarrow>
     (\<exists>who. (key, rec_name r, who, rec_seen r) \<in> set obs) \<and>
     (\<forall>cl \<in> set (rec_clients r). \<exists>t. (key, rec_name r, cl, t) \<in> set obs) \<and>
     (rec_local r \<longrightarrow> (\<exists>t. (key, rec_name r, [], t) \<in> set obs))"

definition grounded :: "observation list \<Rightarrow> NameCache \<Rightarrow> bool" where
  "grounded obs c \<longleftrightarrow> (\<forall>k rs. entries (names c) k = Some rs \<longrightarrow> (\<forall>r \<in> set rs. rests_on obs k r))"

lemma rests_on_append: "rests_on obs key r \<Longrightarrow> rests_on (obs @ obs') key r"
  unfolding rests_on_def by (simp, blast)

lemma observe_records_rest:
  assumes "\<forall>r \<in> set rs. rests_on obs key r" "r \<in> set (observe_records ttl rs name who now)"
  shows "rests_on (obs @ [(key, name, who, now)]) key r"
proof -
  let ?i = "inherit_record name now rs"
  consider "r = (if who = [] then ?i\<lparr>rec_local := True\<rparr> else ?i\<lparr>rec_clients := new_clients who (rec_clients ?i)\<rparr>)" | "r \<in> set rs"
    using assms(2) by (auto simp: observe_records_def Let_def dest: in_set_takeD)
  then show ?thesis
  proof cases
    case 1
    have n: "set (new_clients who prev) \<subseteq> insert who (set prev)" for prev by (auto simp: new_clients_def dest!: in_set_takeD)
    have i: "\<forall>cl \<in> set (rec_clients ?i). \<exists>t. (key, name, cl, t) \<in> set obs" "rec_local ?i \<longrightarrow> (\<exists>t. (key, name, [], t) \<in> set obs)"
      using inherit_record_from [of name now rs] assms(1) unfolding rests_on_def by auto
    show ?thesis
    proof (cases "who = []")
      case True
      then show ?thesis using 1 i by (auto simp: rests_on_def)
    next
      case False
      have "\<forall>cl \<in> set (new_clients who (rec_clients ?i)). \<exists>t. (key, name, cl, t) \<in> set (obs @ [(key, name, who, now)])"
        using n [of "rec_clients ?i"] i(1) by (auto dest!: subsetD)
      then show ?thesis using 1 False i(2) by (auto simp: rests_on_def)
    qed
  next
    case 2
    then show ?thesis using assms(1) rests_on_append by blast
  qed
qed

lemma observeLocked_grounded:
  assumes "grounded obs c"
  shows "grounded (obs @ [(key, name, who, now)]) (observeLocked c key name who now)"
  unfolding grounded_def
proof (intro allI impI ballI)
  fix k rs r assume e: "entries (names (observeLocked c key name who now)) k = Some rs" and r: "r \<in> set rs"
  have prev: "\<forall>r \<in> set (case entries (names c) key of None \<Rightarrow> [] | Some rs \<Rightarrow> rs). rests_on obs key r"
    using assms by (cases "entries (names c) key") (auto simp: grounded_def)
  from observeLocked_entries [OF e] show "rests_on (obs @ [(key, name, who, now)]) k r"
    using observe_records_rest [OF prev] r assms rests_on_append by (auto simp: grounded_def)
qed

lemma observe_all_keeps:
  "cache_ok c \<Longrightarrow> grounded obs c \<Longrightarrow> clean_name name \<Longrightarrow>
   cache_ok (observe_all ip_string c name who now ips) \<and>
   grounded (obs @ observed ip_string name who now ips) (observe_all ip_string c name who now ips)"
proof (induction ips arbitrary: c obs)
  case (Cons ip ips)
  then show ?case
    using observeLocked_ok [OF Cons.prems(1,3)] observeLocked_grounded [OF Cons.prems(2)]
    by (cases ip) (fastforce simp: observe_all_def observed_def map_filter_simps)+
qed (simp add: observe_all_def observed_def map_filter_simps)

lemma cache_reach_ok: "cache_reach L parse_ip ip_string c obs \<Longrightarrow> cache_ok c \<and> grounded obs c"
proof (induction rule: cache_reach.induct)
  case new
  then show ?case by (simp add: NewNameCache_def cache_ok_def grounded_def lru_ok_empty nameCacheLimit_def) (simp add: lru_empty_def)
next
  case (observe c obs n name who client now ips)
  then show ?case using observe_all_keeps CleanHostName_clean by metis
next
  case (flag c obs w)
  then show ?case by (simp add: cache_ok_def grounded_def)
next
  case (clear c obs)
  then show ?case by (simp add: clear_names_def cache_ok_def grounded_def lru_ok_empty) (simp add: lru_empty_def)
qed

subsection \<open>Lookups\<close>

lemma match_records:
  "foldl (match_record who) m rs =
    \<lparr>Own = Own m @ map rec_name (filter (\<lambda>r. who \<noteq> [] \<and> who \<in> set (rec_clients r)) rs),
     Local = Local m @ map rec_name (filter (\<lambda>r. \<not> (who \<noteq> [] \<and> who \<in> set (rec_clients r)) \<and> rec_local r) rs),
     Others = Others m @ map rec_name (filter (\<lambda>r. \<not> (who \<noteq> [] \<and> who \<in> set (rec_clients r)) \<and> \<not> rec_local r) rs)\<rparr>"
  by (induction rs arbitrary: m) (auto simp: match_record_def)

lemma Lookup_records:
  assumes "wanted c" "entries (names c) (ip_string ip) = Some rs"
  shows "Lookup ip_string c client (Some ip) now =
    foldl (match_record (who_of ip_string client)) \<lparr>Own = [], Local = [], Others = []\<rparr> (filter (\<lambda>r. \<not> now - rec_seen r > cache_ttl c) rs)"
  using assms by (simp add: Lookup_def)

lemma Lookup_nothing:
  assumes "\<not> (wanted c \<and> (\<exists>rs. entries (names c) (ip_string ip) = Some rs))"
  shows "Lookup ip_string c client (Some ip) now = \<lparr>Own = [], Local = [], Others = []\<rparr>"
  using assms by (auto simp: Lookup_def Let_def split: option.splits)

text \<open>
  The cache of names stays within its bounds whatever is observed and in whatever order threads interleave: at most 8192
  addresses, each with at most 8 different names, each a host name of at most 253 bytes with at most 4 different clients.
\<close>

theorem name_cache_bounds:
  assumes "cache_reach L parse_ip ip_string c obs"
  shows "finite (dom (entries (names c))) \<and> card (dom (entries (names c))) \<le> 8192 \<and>
    (\<forall>k rs. entries (names c) k = Some rs \<longrightarrow> length rs \<le> 8 \<and> distinct (map rec_name rs) \<and>
      (\<forall>r \<in> set rs. clean_name (rec_name r) \<and> distinct (rec_clients r) \<and> length (rec_clients r) \<le> 4))"
proof -
  have ok: "lru_ok (names c)" "limit (names c) = 8192" "\<forall>k rs. entries (names c) k = Some rs \<longrightarrow> records_ok rs"
    using cache_reach_ok [OF assms] by (auto simp: cache_ok_def)
  have "finite (dom (entries (names c)))" using ok(1) by (metis lru_ok_def List.finite_set)
  moreover have "card (dom (entries (names c))) \<le> 8192" using lru_size_order [OF ok(1)] ok by (simp add: lru_ok_def lru_size_def)
  ultimately show ?thesis using ok(3) unfolding records_ok_def record_ok_def by blast
qed

definition demo_lib :: golib where
  "demo_lib = \<lparr>int_bits = 64, uni_lower = (\<lambda>s. s), uni_equal_fold = (=), re_compile = (\<lambda>_. None)\<rparr>"

lemma demo_clean: "CleanHostName demo_lib (\<lambda>_. None) (str ''A.io'') = str ''a.io''"
  by code_simp

lemma demo_reach:
  "cache_reach demo_lib (\<lambda>_. None) (\<lambda>ip. ip) (observe_all (\<lambda>ip. ip) NewNameCache (str ''a.io'') [9] 5 [Some [1]]) [([1], str ''a.io'', [9], 5)]"
  using cache_reach.observe [OF cache_reach.new demo_clean [symmetric] _ refl, of "\<lambda>ip. ip" "Some [9]" 5 "[Some [1]]"]
  by (simp add: observed_def map_filter_simps who_of_def str_def)

theorem name_cache_bounds_witness:
  "card (dom (entries (names (observe_all (\<lambda>ip. ip) NewNameCache (str ''a.io'') [9] 5 [Some [1]])))) \<le> 8192"
  using name_cache_bounds [OF demo_reach] by blast

lemma Lookup_parts:
  assumes "cache_reach L parse_ip ip_string c obs" "n \<in> set (Own m @ Local m @ Others m)" "m = Lookup ip_string c client (Some ip) now"
  obtains r where "rec_name r = n" "rests_on obs (ip_string ip) r" "now - rec_seen r \<le> nameCacheTTL"
    "n \<in> set (Own m) \<longrightarrow> who_of ip_string client \<noteq> [] \<and> who_of ip_string client \<in> set (rec_clients r)" "n \<in> set (Local m) \<longrightarrow> rec_local r"
proof -
  have inv: "cache_ok c" "grounded obs c" using cache_reach_ok [OF assms(1)] by simp_all
  obtain rs where rs: "wanted c" "entries (names c) (ip_string ip) = Some rs"
    using Lookup_nothing [of c ip_string ip client now] assms(2,3) by fastforce
  have m: "m = foldl (match_record (who_of ip_string client)) \<lparr>Own = [], Local = [], Others = []\<rparr> (filter (\<lambda>r. \<not> now - rec_seen r > cache_ttl c) rs)"
    using Lookup_records [of c ip_string ip rs] rs assms(3) by simp
  have inj: "inj_on rec_name (set rs)" using inv(1) rs(2) by (auto simp: cache_ok_def records_ok_def distinct_map)
  obtain r where r: "r \<in> set rs" "rec_name r = n" "now - rec_seen r \<le> cache_ttl c"
    using assms(2) unfolding m match_records by auto
  have "n \<in> set (Own m) \<longrightarrow> who_of ip_string client \<noteq> [] \<and> who_of ip_string client \<in> set (rec_clients r)" "n \<in> set (Local m) \<longrightarrow> rec_local r"
    using inj_onD [OF inj _ _ r(1)] r(2) unfolding m match_records by auto
  then show thesis using r inv rs(2) by (intro that) (auto simp: grounded_def cache_ok_def)
qed

lemma Lookup_names:
  assumes "cache_ok c" "m = Lookup ip_string c client (Some ip) now"
  shows "distinct (Own m @ Local m @ Others m)" "length (Own m @ Local m @ Others m) \<le> 8"
proof -
  have "distinct (Own m @ Local m @ Others m) \<and> length (Own m @ Local m @ Others m) \<le> 8"
  proof (cases "wanted c \<and> (\<exists>rs. entries (names c) (ip_string ip) = Some rs)")
    case True
    then obtain rs where rs: "wanted c" "entries (names c) (ip_string ip) = Some rs" by blast
    let ?w = "who_of ip_string client" and ?fresh = "filter (\<lambda>r. \<not> now - rec_seen r > cache_ttl c) rs"
    have m: "m = foldl (match_record ?w) \<lparr>Own = [], Local = [], Others = []\<rparr> ?fresh"
      using Lookup_records [of c ip_string ip rs] rs assms(2) by simp
    have ok: "distinct (map rec_name rs)" "length rs \<le> 8" using assms(1) rs(2) by (auto simp: cache_ok_def records_ok_def)
    let ?own = "\<lambda>r. ?w \<noteq> [] \<and> ?w \<in> set (rec_clients r)"
    have l: "length (filter ?own xs) + (length (filter (\<lambda>r. \<not> ?own r \<and> rec_local r) xs) + length (filter (\<lambda>r. \<not> ?own r \<and> \<not> rec_local r) xs)) = length xs" for xs
      by (induction xs) auto
    have "length (Own m @ Local m @ Others m) \<le> 8"
      using l [of ?fresh] order_trans [OF length_filter_le ok(2)] unfolding m match_records by simp
    moreover have "distinct (Own m @ Local m @ Others m)"
      using ok(1) unfolding m match_records by (auto simp: distinct_map inj_on_def)
    ultimately show ?thesis by simp
  next
    case False
    then show ?thesis using Lookup_nothing [of c ip_string ip client now] assms(2) by auto
  qed
  then show "distinct (Own m @ Local m @ Others m)" "length (Own m @ Local m @ Others m) \<le> 8" by simp_all
qed

text \<open>An observation is the first thing its client finds.\<close>

lemma observed_first:
  assumes "wanted c" "who_of ip_string client \<noteq> []" "CleanHostName L parse_ip name = n" "n \<noteq> []" "t' - t \<le> cache_ttl c"
  shows "\<exists>rest. Own (Lookup ip_string (Observe L parse_ip ip_string c client name [Some ip] t) client (Some ip) t') = n # rest"
proof -
  let ?w = "who_of ip_string client" and ?c = "observeLocked c (ip_string ip) n (who_of ip_string client) t"
  have o: "Observe L parse_ip ip_string c client name [Some ip] t = ?c"
    using assms(1,3,4) by (simp add: Observe_def observe_all_def Let_def)
  obtain rs where "entries (names ?c) (ip_string ip) = Some (observe_records (cache_ttl c) rs n ?w t)" "cache_ttl ?c = cache_ttl c" "wanted ?c"
    using assms(1) by (cases "entries (names c) (ip_string ip)") (auto simp: observeLocked_def)
  then show ?thesis
    using assms(2,5) unfolding o
    by (simp add: Lookup_records match_records) (simp add: observe_records_def Let_def new_clients_def)
qed



end
