(* ===== verification/Conn_State.thy ===== *)
theory Conn_State
  imports Set_Config
begin

text \<open>
  What the packet handlers remember of connections (\<^verbatim>\<open>src/nfq/connstate.go\<close>): the names of ClientHellos with the
  decision made for them, and the traffic of a connection with the answers of its server. Every operation holds the
  mutex of its table, so a run is a sequence of operations. A pointer to a set or to a matcher is the set
  or an address; a time is in nanoseconds and each reading of the clock is an argument, and so is the order in which a
  loop visits a map.
\<close>

subsection \<open>Tables that make room\<close>

text \<open>
  The loop that four tables share: when the table is full, entries that are too old are deleted, and if that was not enough
  the entry that was used the longest time ago.
\<close>

definition visit :: "('v \<Rightarrow> int) \<Rightarrow> ('v \<Rightarrow> bool) \<Rightarrow> (gostr \<rightharpoonup> 'v) \<times> (gostr \<times> int) option \<Rightarrow> gostr \<Rightarrow> (gostr \<rightharpoonup> 'v) \<times> (gostr \<times> int) option" where
  "visit stamp stale st k =
     (case st of (m, oldest) \<Rightarrow>
      case m k of
        None \<Rightarrow> st
      | Some v \<Rightarrow>
          if stale v then (m(k := None), oldest)
          else case oldest of
            None \<Rightarrow> (m, Some (k, stamp v))
          | Some (k0, t0) \<Rightarrow> if stamp v < t0 then (m, Some (k, stamp v)) else st)"

definition make_room :: "('v \<Rightarrow> int) \<Rightarrow> ('v \<Rightarrow> bool) \<Rightarrow> nat \<Rightarrow> gostr list \<Rightarrow> (gostr \<rightharpoonup> 'v) \<Rightarrow> (gostr \<rightharpoonup> 'v)" where
  "make_room stamp stale lim visited m =
     (if card (dom m) \<ge> lim then
        case foldl (visit stamp stale) (m, None) visited of (m, oldest) \<Rightarrow>
          (case oldest of
             None \<Rightarrow> m
           | Some (k, _) \<Rightarrow> if card (dom m) \<ge> lim \<and> k \<noteq> [] then m(k := None) else m)
      else m)"

definition prune :: "('v \<Rightarrow> bool) \<Rightarrow> (gostr \<rightharpoonup> 'v) \<Rightarrow> (gostr \<rightharpoonup> 'v)" where
  "prune stale m k = (case m k of None \<Rightarrow> None | Some v \<Rightarrow> if stale v then None else Some v)"

subsection \<open>Names of ClientHellos\<close>

definition second :: int where
  "second = 1000000000"

record tlsInfo =
  ti_host :: gostr
  ti_tlsVersion :: nat
  helloSeq :: "32 word"
  helloID :: nat
  namedAt :: int
  ti_gen :: nat
  ti_lastSeen :: int
  decidedBy :: "nat option"
  decidedMac :: gostr
  ti_set :: "SetConfig option"
  heldBy :: gostr

record tlsInfoCache =
  ti_conns :: "gostr \<rightharpoonup> tlsInfo"
  ti_current :: "nat option"
  ti_counter :: nat

definition maxTLSCacheEntries :: nat where
  "maxTLSCacheEntries = 20000"

definition tls_stale :: "int \<Rightarrow> tlsInfo \<Rightarrow> bool" where
  "tls_stale now v \<longleftrightarrow> now - ti_lastSeen v > 120 * second"

definition tls_Store ::
    "gostr list \<Rightarrow> int \<times> int \<Rightarrow> tlsInfoCache \<Rightarrow> gostr \<Rightarrow> gostr \<Rightarrow> nat \<Rightarrow> 32 word \<Rightarrow> nat \<Rightarrow> tlsInfoCache \<times> nat" where
  "tls_Store visited clock c connKey host tlsVersion seq hid =
     (case clock of (n1, now) \<Rightarrow>
      let m = make_room ti_lastSeen (tls_stale n1) maxTLSCacheEntries visited (ti_conns c);
          named = (case m connKey of
                     Some prev \<Rightarrow> if helloSeq prev = seq \<and> helloID prev = hid then namedAt prev else now
                   | None \<Rightarrow> now);
          gen = (ti_counter c + 1) mod 2 ^ 64
      in (c\<lparr>ti_counter := gen,
            ti_conns := m(connKey \<mapsto> \<lparr>ti_host = host, ti_tlsVersion = tlsVersion, helloSeq = seq, helloID = hid, namedAt = named,
              ti_gen = gen, ti_lastSeen = now, decidedBy = None, decidedMac = [], ti_set = None, heldBy = []\<rparr>)\<rparr>, gen))"

definition tls_Lookup :: "tlsInfoCache \<Rightarrow> gostr \<Rightarrow> (gostr \<times> nat) option" where
  "tls_Lookup c connKey = map_option (\<lambda>i. (ti_host i, ti_tlsVersion i)) (ti_conns c connKey)"

definition HelloAt :: "tlsInfoCache \<Rightarrow> gostr \<Rightarrow> 32 word \<Rightarrow> nat \<Rightarrow> tlsInfo option" where
  "HelloAt c connKey seq hid =
     (case ti_conns c connKey of
        None \<Rightarrow> None
      | Some i \<Rightarrow> if hid = 0 \<or> helloSeq i \<noteq> seq \<or> helloID i \<noteq> hid then None else Some i)"

definition Decision :: "int \<Rightarrow> tlsInfoCache \<Rightarrow> gostr \<Rightarrow> tlsInfoCache \<times> tlsInfo option" where
  "Decision now c connKey =
     (case ti_conns c connKey of
        None \<Rightarrow> (c, None)
      | Some i \<Rightarrow>
          (if now - ti_lastSeen i > second then c\<lparr>ti_conns := (ti_conns c)(connKey \<mapsto> i\<lparr>ti_lastSeen := now\<rparr>)\<rparr> else c, Some i))"

definition DecideHeld :: "tlsInfoCache \<Rightarrow> gostr \<Rightarrow> nat \<Rightarrow> nat option \<Rightarrow> gostr \<Rightarrow> SetConfig option \<Rightarrow> bool \<Rightarrow> tlsInfoCache" where
  "DecideHeld c connKey gen matcher srcMac s held =
     (if ti_current c \<noteq> None \<and> ti_current c \<noteq> matcher then c
      else case ti_conns c connKey of
        None \<Rightarrow> c
      | Some i \<Rightarrow>
          if ti_gen i = gen then
            c\<lparr>ti_conns := (ti_conns c)(connKey \<mapsto> i\<lparr>decidedBy := matcher, decidedMac := srcMac, ti_set := s,
               heldBy := (case s of Some s \<Rightarrow> if held then SetId s else [] | None \<Rightarrow> [])\<rparr>)\<rparr>
          else c)"

definition Decide :: "tlsInfoCache \<Rightarrow> gostr \<Rightarrow> nat \<Rightarrow> nat option \<Rightarrow> gostr \<Rightarrow> SetConfig option \<Rightarrow> tlsInfoCache" where
  "Decide c connKey gen matcher srcMac s = DecideHeld c connKey gen matcher srcMac s False"

definition ForgetDecisions :: "tlsInfoCache \<Rightarrow> nat option \<Rightarrow> tlsInfoCache" where
  "ForgetDecisions c current =
     c\<lparr>ti_current := current, ti_conns := map_option (\<lambda>i. i\<lparr>decidedBy := None, ti_set := None\<rparr>) \<circ> ti_conns c\<rparr>"

definition maxPendingHelloRecord :: nat where
  "maxPendingHelloRecord = 4096"

definition DropOtherConnection :: "tlsInfoCache \<Rightarrow> gostr \<Rightarrow> 32 word \<Rightarrow> tlsInfoCache \<times> bool" where
  "DropOtherConnection c connKey firstSeq =
     (case ti_conns c connKey of
        None \<Rightarrow> (c, False)
      | Some i \<Rightarrow>
          if unat (helloSeq i - firstSeq) \<le> maxPendingHelloRecord then (c, False)
          else (c\<lparr>ti_conns := (ti_conns c)(connKey := None)\<rparr>, True))"

definition tls_Cleanup :: "int \<Rightarrow> tlsInfoCache \<Rightarrow> tlsInfoCache" where
  "tls_Cleanup now c = c\<lparr>ti_conns := prune (tls_stale now) (ti_conns c)\<rparr>"

subsection \<open>Traffic of a connection\<close>

text \<open>The key of a connection: \<^verbatim>\<open>%s:%d->%s:%d\<close>.\<close>

definition connKey :: "gostr \<Rightarrow> nat \<Rightarrow> gostr \<Rightarrow> nat \<Rightarrow> gostr" where
  "connKey srcIP srcPort dstIP dstPort =
     srcIP @ [58] @ itoa (int srcPort) @ [45, 62] @ dstIP @ [58] @ itoa (int dstPort)"

record connInfo =
  bytesIn :: nat
  threshold :: nat
  ci_set :: "SetConfig option"
  ci_lastSeen :: int
  serverTTL :: byte
  ttlRecorded :: bool
  responseSeen :: bool
  rstCount :: nat
  serverHasOpts :: bool
  established :: bool

record earlySynAck =
  ea_ttl :: byte
  ea_hasOpts :: bool
  ea_at :: int

record connStateTracker =
  ci_conns :: "gostr \<rightharpoonup> connInfo"
  synAcks :: "gostr \<rightharpoonup> earlySynAck"

definition maxConnStateEntries :: nat where
  "maxConnStateEntries = 10000"

definition maxEarlySynAcks :: nat where
  "maxEarlySynAcks = 4096"

definition earlySynAckTTL :: int where
  "earlySynAckTTL = 5 * second"

definition conn_stale :: "int \<Rightarrow> connInfo \<Rightarrow> bool" where
  "conn_stale now v \<longleftrightarrow> now - ci_lastSeen v > 120 * second"

definition new_conn :: "SetConfig option \<Rightarrow> int \<Rightarrow> connInfo" where
  "new_conn s now = \<lparr>bytesIn = 0, threshold = 0, ci_set = s, ci_lastSeen = now, serverTTL = 0, ttlRecorded = False,
     responseSeen = False, rstCount = 0, serverHasOpts = False, established = False\<rparr>"

definition RegisterOutgoing :: "gostr list \<Rightarrow> int \<times> int \<Rightarrow> connStateTracker \<Rightarrow> gostr \<Rightarrow> SetConfig option \<Rightarrow> connStateTracker" where
  "RegisterOutgoing visited clock t key s =
     (case clock of (n1, now) \<Rightarrow>
      let m = make_room ci_lastSeen (conn_stale n1) maxConnStateEntries visited (ci_conns t) in
      case m key of
        Some existing \<Rightarrow> t\<lparr>ci_conns := m(key \<mapsto> existing\<lparr>ci_set := s, ci_lastSeen := now\<rparr>)\<rparr>
      | None \<Rightarrow>
          (case synAcks t key of
             None \<Rightarrow> t\<lparr>ci_conns := m(key \<mapsto> new_conn s now)\<rparr>
           | Some seen \<Rightarrow>
               t\<lparr>synAcks := (synAcks t)(key := None),
                 ci_conns := m(key \<mapsto>
                   if now - ea_at seen < earlySynAckTTL
                   then (new_conn s now)\<lparr>responseSeen := True, serverTTL := ea_ttl seen, ttlRecorded := True, serverHasOpts := ea_hasOpts seen\<rparr>
                   else new_conn s now)\<rparr>))"

definition pruneEarlySynAcks :: "int \<Rightarrow> (gostr \<rightharpoonup> earlySynAck) \<Rightarrow> (gostr \<rightharpoonup> earlySynAck)" where
  "pruneEarlySynAcks now m = prune (\<lambda>v. now - ea_at v \<ge> earlySynAckTTL) m"

text \<open>Deleting entries in the order of the loop until there is room.\<close>

fun drop_until :: "nat \<Rightarrow> (gostr \<rightharpoonup> 'v) \<Rightarrow> gostr list \<Rightarrow> (gostr \<rightharpoonup> 'v)" where
  "drop_until lim m [] = m"
| "drop_until lim m (k # ks) = (if card (dom m) < lim then m else drop_until lim (m(k := None)) ks)"

definition RecordEarlySynAck ::
    "gostr list \<Rightarrow> int \<Rightarrow> connStateTracker \<Rightarrow> gostr \<Rightarrow> nat \<Rightarrow> gostr \<Rightarrow> nat \<Rightarrow> byte \<Rightarrow> bool \<Rightarrow> connStateTracker" where
  "RecordEarlySynAck visited now t clientIP clientPort serverIP serverPort ttl hasOpts =
     (let key = connKey clientIP clientPort serverIP serverPort in
      if ttl = 0 \<or> ci_conns t key \<noteq> None then t
      else let m = (if synAcks t key = None \<and> card (dom (synAcks t)) \<ge> maxEarlySynAcks
                    then drop_until maxEarlySynAcks (pruneEarlySynAcks now (synAcks t)) visited else synAcks t)
        in t\<lparr>synAcks := m(key \<mapsto> \<lparr>ea_ttl = ttl, ea_hasOpts = hasOpts, ea_at = now\<rparr>)\<rparr>)"

definition update_conn :: "connStateTracker \<Rightarrow> gostr \<Rightarrow> (connInfo \<Rightarrow> connInfo) \<Rightarrow> connStateTracker" where
  "update_conn t key f = (case ci_conns t key of None \<Rightarrow> t | Some i \<Rightarrow> t\<lparr>ci_conns := (ci_conns t)(key \<mapsto> f i)\<rparr>)"

definition RecordServerResponse :: "connStateTracker \<Rightarrow> gostr \<Rightarrow> nat \<Rightarrow> gostr \<Rightarrow> nat \<Rightarrow> byte \<Rightarrow> bool \<Rightarrow> connStateTracker" where
  "RecordServerResponse t clientIP clientPort serverIP serverPort ttl hasOpts =
     update_conn t (connKey clientIP clientPort serverIP serverPort)
       (\<lambda>i. let i = i\<lparr>responseSeen := True\<rparr>;
                i = (if ttlRecorded i then i else i\<lparr>serverTTL := ttl, ttlRecorded := True\<rparr>)
            in if hasOpts then i\<lparr>serverHasOpts := True\<rparr> else i)"

definition suspicious_rst :: "connInfo \<Rightarrow> byte \<Rightarrow> bool \<Rightarrow> bool \<Rightarrow> int \<Rightarrow> bool" where
  "suspicious_rst i rstTTL rstHasOpts rstHasACK tolerance \<longleftrightarrow>
     rstCount i > 1 \<or> \<not> responseSeen i \<or> serverHasOpts i \<and> \<not> rstHasOpts \<or> serverHasOpts i \<and> \<not> rstHasACK \<or>
     ttlRecorded i \<and> \<bar>uint rstTTL - uint (serverTTL i)\<bar> > tolerance"

definition CheckRST ::
    "connStateTracker \<Rightarrow> gostr \<Rightarrow> nat \<Rightarrow> gostr \<Rightarrow> nat \<Rightarrow> byte \<Rightarrow> bool \<Rightarrow> bool \<Rightarrow> int \<Rightarrow> connStateTracker \<times> bool" where
  "CheckRST t clientIP clientPort serverIP serverPort rstTTL rstHasOpts rstHasACK tolerance =
     (let key = connKey clientIP clientPort serverIP serverPort in
      case ci_conns t key of
        None \<Rightarrow> (t, False)
      | Some i \<Rightarrow>
          let i = i\<lparr>rstCount := rstCount i + 1\<rparr> in
          (t\<lparr>ci_conns := (ci_conns t)(key \<mapsto> i)\<rparr>, suspicious_rst i rstTTL rstHasOpts rstHasACK tolerance))"

definition MarkEstablished :: "int \<Rightarrow> connStateTracker \<Rightarrow> gostr \<Rightarrow> connStateTracker" where
  "MarkEstablished now t key = update_conn t key (\<lambda>i. i\<lparr>established := True, ci_lastSeen := now\<rparr>)"

definition ShouldDropOutboundRST :: "connStateTracker \<Rightarrow> gostr \<Rightarrow> bool" where
  "ShouldDropOutboundRST t key = (case ci_conns t key of None \<Rightarrow> False | Some i \<Rightarrow> \<not> established i)"

definition GetSetForIncoming :: "int \<Rightarrow> connStateTracker \<Rightarrow> gostr \<Rightarrow> nat \<Rightarrow> gostr \<Rightarrow> nat \<Rightarrow> connStateTracker \<times> SetConfig option" where
  "GetSetForIncoming now t clientIP clientPort serverIP serverPort =
     (let key = connKey clientIP clientPort serverIP serverPort in
      case ci_conns t key of
        None \<Rightarrow> (t, None)
      | Some i \<Rightarrow>
          (case ci_set i of
             None \<Rightarrow> (t, None)
           | Some s \<Rightarrow> (update_conn t key (\<lambda>i. i\<lparr>ci_lastSeen := now\<rparr>), Some s)))"

text \<open>\<open>pick n\<close> is \<^verbatim>\<open>rand.Intn(n)\<close>, a number below \<open>n\<close>.\<close>

definition draw_threshold :: "(int \<Rightarrow> int) \<Rightarrow> int \<Rightarrow> int \<Rightarrow> nat" where
  "draw_threshold pick minKB maxKB =
     (let maxKB = (if maxKB = 0 \<or> maxKB < minKB then minKB else maxKB);
          (minKB, maxKB) = (if minKB \<le> 0 then (14, 14) else (minKB, maxKB))
      in if minKB = maxKB then nat (minKB * 1024) else nat ((minKB + pick (maxKB - minKB + 1)) * 1024))"

definition TrackIncomingBytes ::
    "(int \<Rightarrow> int) \<Rightarrow> int \<Rightarrow> connStateTracker \<Rightarrow> gostr \<Rightarrow> nat \<Rightarrow> gostr \<Rightarrow> nat \<Rightarrow> nat \<Rightarrow> int \<Rightarrow> int \<Rightarrow> connStateTracker \<times> bool" where
  "TrackIncomingBytes pick now t clientIP clientPort serverIP serverPort bytes incMin incMax =
     (let key = connKey clientIP clientPort serverIP serverPort in
      case ci_conns t key of
        None \<Rightarrow> (t, False)
      | Some i \<Rightarrow>
          let th = (if threshold i = 0 then draw_threshold pick incMin incMax else threshold i);
              total = bytesIn i + bytes;
              fired = bytesIn i < th \<and> total \<ge> th;
              i = i\<lparr>bytesIn := (if fired then 0 else total), threshold := (if fired then 0 else th), ci_lastSeen := now\<rparr>
          in (t\<lparr>ci_conns := (ci_conns t)(key \<mapsto> i)\<rparr>, fired))"

definition conn_Cleanup :: "int \<Rightarrow> connStateTracker \<Rightarrow> connStateTracker" where
  "conn_Cleanup now t = t\<lparr>ci_conns := prune (conn_stale now) (ci_conns t), synAcks := pruneEarlySynAcks now (synAcks t)\<rparr>"

end
