(* ===== verification/Conn_Tables.thy ===== *)
theory Conn_Tables
  imports Conn_State
begin

text \<open>
  The tables of connections stay within their limits, and what making room deletes: entries that are too old, and at most one
  other, the one that was used the longest time ago.
\<close>

subsection \<open>Making room\<close>

lemma visit_cases:
  "visit stamp stale (m, oldest) k =
     (case m k of
        None \<Rightarrow> (m, oldest)
      | Some v \<Rightarrow>
          if stale v then (m(k := None), oldest)
          else (m, if \<exists>k0 t0. oldest = Some (k0, t0) \<and> t0 \<le> stamp v then oldest else Some (k, stamp v)))"
  by (auto simp: visit_def split: option.splits)

text \<open>After the loop: no stale entry among those visited, and the oldest of the others is known.\<close>

definition visited_ok :: "('v \<Rightarrow> int) \<Rightarrow> ('v \<Rightarrow> bool) \<Rightarrow> gostr list \<Rightarrow> (gostr \<rightharpoonup> 'v) \<Rightarrow> (gostr \<rightharpoonup> 'v) \<times> (gostr \<times> int) option \<Rightarrow> bool" where
  "visited_ok stamp stale ks m0 st \<longleftrightarrow>
     (\<forall>k. fst st k = (if k \<in> set ks then prune stale m0 k else m0 k)) \<and>
     (case snd st of
        None \<Rightarrow> \<forall>k \<in> set ks. fst st k = None
      | Some (k0, t0) \<Rightarrow> k0 \<in> set ks \<and> (\<exists>v. fst st k0 = Some v \<and> stamp v = t0) \<and>
          (\<forall>k \<in> set ks. \<forall>v. fst st k = Some v \<longrightarrow> t0 \<le> stamp v))"

lemma visited_ok_step:
  assumes "visited_ok stamp stale ks m0 (m, oldest)" "k \<notin> set ks"
  shows "visited_ok stamp stale (ks @ [k]) m0 (visit stamp stale (m, oldest) k)"
proof -
  have m: "m0 k = m k" using assms by (auto simp: visited_ok_def)
  show ?thesis
  proof (cases "m k")
    case None
    then have "prune stale m0 k = None" using m by (simp add: prune_def)
    then show ?thesis using assms None unfolding visited_ok_def visit_cases by (auto split: option.splits)
  next
    case (Some v)
    show ?thesis
    proof (cases "stale v")
      case True
      then have "prune stale m0 k = None" using m Some by (simp add: prune_def)
      then show ?thesis using assms Some True unfolding visited_ok_def visit_cases by (auto split: option.splits)
    next
      case False
      then have "prune stale m0 k = Some v" using m Some by (simp add: prune_def)
      then show ?thesis using assms Some False unfolding visited_ok_def visit_cases
        by (cases oldest) (auto split: option.splits)
    qed
  qed
qed

lemma visited_ok_all: "distinct ks \<Longrightarrow> visited_ok stamp stale ks m0 (foldl (visit stamp stale) (m0, None) ks)"
proof (induction ks rule: rev_induct)
  case Nil
  then show ?case by (simp add: visited_ok_def)
next
  case (snoc k ks)
  then show ?case using visited_ok_step [of stamp stale ks m0] by (cases "foldl (visit stamp stale) (m0, None) ks") auto
qed

lemma dom_prune: "dom (prune stale m) \<subseteq> dom m"
  by (auto simp: prune_def dom_def split: option.splits)

lemma prune_le: "prune stale m k = Some v \<Longrightarrow> m k = Some v \<and> \<not> stale v"
  by (auto simp: prune_def split: option.splits if_splits)

text \<open>The loop over all keys of the map.\<close>

definition visits :: "gostr list \<Rightarrow> (gostr \<rightharpoonup> 'v) \<Rightarrow> bool" where
  "visits ks m \<longleftrightarrow> distinct ks \<and> set ks = dom m"

lemma visits_finite: "visits ks m \<Longrightarrow> finite (dom m)"
  by (metis List.finite_set visits_def)

text \<open>Where a table ends up: unchanged, without its stale entries, or also without its oldest one.\<close>

lemma make_room_cases:
  assumes "visits ks m"
  obtains (room) "card (dom m) < lim" "make_room stamp stale lim ks m = m"
  | (pruned) "card (dom m) \<ge> lim" "make_room stamp stale lim ks m = prune stale m" "card (dom (prune stale m)) < lim \<or> prune stale m = Map.empty \<or> [] \<in> dom m"
  | (evicted) k v where "card (dom (prune stale m)) \<ge> lim" "make_room stamp stale lim ks m = (prune stale m)(k := None)" "prune stale m k = Some v"
      "\<forall>k' v'. prune stale m k' = Some v' \<longrightarrow> stamp v \<le> stamp v'"
proof (cases "card (dom m) < lim")
  case True
  then show thesis by (intro room) (simp_all add: make_room_def)
next
  case False
  obtain m' old where f: "foldl (visit stamp stale) (m, None) ks = (m', old)" by fastforce
  have ok: "visited_ok stamp stale ks m (m', old)" using visited_ok_all [of ks stamp stale m] assms f by (simp add: visits_def)
  have m': "m' = prune stale m"
  proof
    fix k
    have "k \<notin> set ks \<Longrightarrow> prune stale m k = None \<and> m k = None" using assms by (auto simp: visits_def prune_def split: option.splits)
    then show "m' k = prune stale m k" using ok by (auto simp: visited_ok_def)
  qed
  have in_ks: "prune stale m k = Some v \<Longrightarrow> k \<in> set ks" for k v using assms prune_le [of stale m k v] by (auto simp: visits_def)
  show thesis
  proof (cases old)
    case None
    have "prune stale m k = None" for k using ok None m' in_ks [of k] by (cases "prune stale m k") (auto simp: visited_ok_def)
    then have "prune stale m = Map.empty" by auto
    then show thesis using False f None m' by (intro pruned) (simp_all add: make_room_def)
  next
    case (Some x)
    obtain k0 t0 where x: "x = (k0, t0)" by fastforce
    have o: "k0 \<in> set ks" "\<exists>v. prune stale m k0 = Some v \<and> stamp v = t0" "\<forall>k \<in> set ks. \<forall>v. prune stale m k = Some v \<longrightarrow> t0 \<le> stamp v"
      using ok Some x m' by (auto simp: visited_ok_def)
    show thesis
    proof (cases "card (dom (prune stale m)) \<ge> lim \<and> k0 \<noteq> []")
      case True
      obtain v where v: "prune stale m k0 = Some v" "stamp v = t0" using o(2) by blast
      have "\<forall>k' v'. prune stale m k' = Some v' \<longrightarrow> stamp v \<le> stamp v'" using o(3) in_ks v(2) by blast
      moreover have "make_room stamp stale lim ks m = (prune stale m)(k0 := None)" using False f Some x m' True by (simp add: make_room_def)
      ultimately show thesis using True v(1) by (intro evicted) auto
    next
      case no: False
      then have "make_room stamp stale lim ks m = prune stale m" using False f Some x m' by (auto simp: make_room_def)
      moreover have "card (dom (prune stale m)) < lim \<or> [] \<in> dom m" using no o(1) assms by (auto simp: visits_def)
      ultimately show thesis using False by (intro pruned) auto
    qed
  qed
qed

lemma make_room_bound:
  assumes "visits ks m" "[] \<notin> dom m" "0 < lim" "card (dom m) \<le> lim"
  shows "card (dom (make_room stamp stale lim ks m)) < lim"
proof (rule make_room_cases [OF assms(1), where lim = lim and stamp = stamp and stale = stale])
  fix k v
  assume e: "card (dom (prune stale m)) \<ge> lim" "make_room stamp stale lim ks m = (prune stale m)(k := None)" "prune stale m k = Some v"
  have "finite (dom (prune stale m))" using finite_subset [OF dom_prune visits_finite [OF assms(1)]] .
  moreover have "k \<in> dom (prune stale m)" using e(3) by auto
  moreover have "card (dom (prune stale m)) \<le> lim" using card_mono [OF visits_finite [OF assms(1)] dom_prune] assms(4) by (rule le_trans)
  ultimately have "card (dom (prune stale m) - {k}) < lim" using card_Diff1_less [of "dom (prune stale m)" k] by simp
  then show ?thesis using e(2) by simp
qed (use assms in auto)

lemma make_room_le: "visits ks m \<Longrightarrow> make_room stamp stale lim ks m k = Some v \<Longrightarrow> m k = Some v"
  by (rule make_room_cases [of ks m lim stamp stale]) (auto dest: prune_le split: if_splits)

lemma dom_make_room: "visits ks m \<Longrightarrow> dom (make_room stamp stale lim ks m) \<subseteq> dom m"
  using make_room_le [of ks m stamp stale lim] by (auto simp: dom_def)

text \<open>What is deleted was too old, or the table was full and nothing in it was used longer ago.\<close>

lemma make_room_deletes:
  assumes "visits ks m" "m k = Some v" "make_room stamp stale lim ks m k = None"
  shows "card (dom m) \<ge> lim \<and> (stale v \<or> (\<forall>k' v'. m k' = Some v' \<and> \<not> stale v' \<longrightarrow> stamp v \<le> stamp v'))"
proof (rule make_room_cases [OF assms(1), where lim = lim and stamp = stamp and stale = stale])
  assume "card (dom m) \<ge> lim" "make_room stamp stale lim ks m = prune stale m"
  then show ?thesis using assms(2,3) by (auto simp: prune_def split: if_splits)
next
  fix k0 v0
  assume e: "card (dom (prune stale m)) \<ge> lim" "make_room stamp stale lim ks m = (prune stale m)(k0 := None)" "prune stale m k0 = Some v0"
    "\<forall>k' v'. prune stale m k' = Some v' \<longrightarrow> stamp v0 \<le> stamp v'"
  have "card (dom (prune stale m)) \<le> card (dom m)" by (rule card_mono [OF visits_finite [OF assms(1)] dom_prune])
  then have c: "card (dom m) \<ge> lim" using e(1) by simp
  show ?thesis
  proof (cases "stale v")
    case False
    then have p: "prune stale m k = Some v" using assms(2) by (simp add: prune_def)
    then have "k = k0" using e(2) assms(3) by (auto split: if_splits)
    then have "v = v0" using p e(3) by simp
    moreover have "m k' = Some v' \<and> \<not> stale v' \<Longrightarrow> prune stale m k' = Some v'" for k' v' by (simp add: prune_def)
    ultimately show ?thesis using c e(4) by blast
  qed (use c in simp)
qed (use assms in auto)

subsection \<open>Bounded tables\<close>

definition tab_ok :: "nat \<Rightarrow> (gostr \<rightharpoonup> 'v) \<Rightarrow> bool" where
  "tab_ok lim m \<longleftrightarrow> finite (dom m) \<and> card (dom m) \<le> lim \<and> [] \<notin> dom m"

lemma tab_ok_sub: "tab_ok lim m \<Longrightarrow> dom m' \<subseteq> dom m \<Longrightarrow> tab_ok lim m'"
  by (auto simp: tab_ok_def intro: finite_subset order_trans [OF card_mono])

lemma tab_ok_prune: "tab_ok lim m \<Longrightarrow> tab_ok lim (prune stale m)"
  by (erule tab_ok_sub) (rule dom_prune)

lemma tab_ok_del: "tab_ok lim m \<Longrightarrow> tab_ok lim (m(k := None))"
  by (erule tab_ok_sub) auto

lemma tab_ok_upd: "tab_ok lim m \<Longrightarrow> m k = Some u \<Longrightarrow> tab_ok lim (m(k \<mapsto> v))"
  by (erule tab_ok_sub) auto

lemma tab_ok_empty [simp]: "tab_ok lim Map.empty"
  by (simp add: tab_ok_def)

lemma tab_ok_store:
  assumes "tab_ok lim m" "visits visited m" "k \<noteq> []" "0 < lim"
  shows "tab_ok lim ((make_room stamp stale lim visited m)(k \<mapsto> v))"
proof -
  let ?r = "make_room stamp stale lim visited m"
  have "card (dom ?r) < lim" using make_room_bound [OF assms(2) _ assms(4)] assms(1) by (simp add: tab_ok_def)
  moreover have "dom ?r \<subseteq> dom m" by (rule dom_make_room [OF assms(2)])
  ultimately show ?thesis using assms(1,3) finite_subset [of "dom ?r" "dom m"] by (auto simp: tab_ok_def card_insert_if)
qed

lemma tab_ok_room: "tab_ok lim m \<Longrightarrow> visits visited m \<Longrightarrow> tab_ok lim (make_room stamp stale lim visited m)"
  by (erule tab_ok_sub) (rule dom_make_room)

end
