(* ===== verification/Conn_Track.thy ===== *)
theory Conn_Track
  imports Conn_Tables
begin

text \<open>
  What the tracker of connections guarantees: which resets it lets through, and the bounds of its tables. The operations of all
  threads are one sequence, as the mutex orders them.
\<close>

subsection \<open>Runs\<close>

datatype conn_op =
    Register "gostr list" "int \<times> int" gostr "SetConfig option"
  | EarlySynAck "gostr list" int gostr nat gostr nat byte bool
  | Response gostr nat gostr nat byte bool
  | Rst gostr nat gostr nat byte bool bool int
  | Establish int gostr
  | Incoming int gostr nat gostr nat
  | Bytes "int \<Rightarrow> int" int gostr nat gostr nat nat int int
  | Tidy int

fun conn_step :: "connStateTracker \<Rightarrow> conn_op \<Rightarrow> connStateTracker \<times> bool" where
  "conn_step t (Register visited clock key s) = (RegisterOutgoing visited clock t key s, False)"
| "conn_step t (EarlySynAck visited now cip cport sip sport ttl opts) = (RecordEarlySynAck visited now t cip cport sip sport ttl opts, False)"
| "conn_step t (Response cip cport sip sport ttl opts) = (RecordServerResponse t cip cport sip sport ttl opts, False)"
| "conn_step t (Rst cip cport sip sport ttl opts ack tol) = CheckRST t cip cport sip sport ttl opts ack tol"
| "conn_step t (Establish now key) = (MarkEstablished now t key, False)"
| "conn_step t (Incoming now cip cport sip sport) = (fst (GetSetForIncoming now t cip cport sip sport), False)"
| "conn_step t (Bytes pick now cip cport sip sport n lo hi) = (fst (TrackIncomingBytes pick now t cip cport sip sport n lo hi), False)"
| "conn_step t (Tidy now) = (conn_Cleanup now t, False)"

definition new_tracker :: connStateTracker where
  "new_tracker = \<lparr>ci_conns = Map.empty, synAcks = Map.empty\<rparr>"

text \<open>The loops of a step visit the keys of the map.\<close>

fun loops_ok :: "connStateTracker \<Rightarrow> conn_op \<Rightarrow> bool" where
  "loops_ok t (Register visited clock key s) \<longleftrightarrow> visits visited (ci_conns t) \<and> key \<noteq> []"
| "loops_ok t (EarlySynAck visited now cip cport sip sport ttl opts) \<longleftrightarrow> visits visited (pruneEarlySynAcks now (synAcks t))"
| "loops_ok t _ \<longleftrightarrow> True"

inductive conn_reach :: "connStateTracker \<Rightarrow> bool" where
  new: "conn_reach new_tracker"
| step: "conn_reach t \<Longrightarrow> loops_ok t c \<Longrightarrow> conn_reach (fst (conn_step t c))"

subsection \<open>Bounds\<close>

lemma connKey_nonempty [simp]: "connKey a p b q \<noteq> []" "[] \<noteq> connKey a p b q"
  by (simp_all add: connKey_def)

lemma drop_until_bound:
  "finite (dom m) \<Longrightarrow> distinct ks \<Longrightarrow> set ks = dom m \<Longrightarrow> 0 < lim \<Longrightarrow> card (dom (drop_until lim m ks)) < lim"
proof (induction ks arbitrary: m)
  case (Cons k ks)
  define m1 where "m1 = m(k := None)"
  have "set ks = dom m1" "finite (dom m1)" using Cons.prems(1-3) by (auto simp: m1_def)
  then have "card (dom (drop_until lim m1 ks)) < lim" using Cons.IH Cons.prems(2,4) by simp
  then show ?case by (simp add: m1_def)
qed simp

lemma dom_drop_until: "dom (drop_until lim m ks) \<subseteq> dom m"
proof (induction ks arbitrary: m)
  case (Cons k ks)
  have "dom (m(k := None)) \<subseteq> dom m" by auto
  then have "dom (drop_until lim (m(k := None)) ks) \<subseteq> dom m" by (rule subset_trans [OF Cons.IH])
  then show ?case by simp
qed simp

lemma RecordEarlySynAck_ok:
  assumes "tab_ok 4096 (synAcks t)" "visits visited (pruneEarlySynAcks now (synAcks t))"
  shows "tab_ok 4096 (synAcks (RecordEarlySynAck visited now t cip cport sip sport ttl opts))"
proof -
  let ?key = "connKey cip cport sip sport" and ?v = "\<lparr>ea_ttl = ttl, ea_hasOpts = opts, ea_at = now\<rparr>"
  let ?p = "pruneEarlySynAcks now (synAcks t)"
  let ?d = "drop_until 4096 ?p visited"
  have sub: "dom ?d \<subseteq> dom (synAcks t)" using subset_trans [OF dom_drop_until dom_prune] by (simp add: pruneEarlySynAcks_def)
  have "card (dom ?d) < 4096" using drop_until_bound [of ?p visited 4096] assms(2) visits_finite [OF assms(2)] by (simp add: visits_def)
  then have "tab_ok 4096 (?d(?key \<mapsto> ?v))"
    using sub assms(1) finite_subset [OF sub] by (auto simp: tab_ok_def card_insert_if)
  moreover have "tab_ok 4096 ((synAcks t)(?key \<mapsto> ?v))" if "synAcks t ?key \<noteq> None \<or> card (dom (synAcks t)) < 4096"
    using that assms(1) by (auto simp: tab_ok_def card_insert_if)
  ultimately show ?thesis using assms(1) by (auto simp: RecordEarlySynAck_def Let_def maxEarlySynAcks_def)
qed

lemma RegisterOutgoing_ok:
  assumes "tab_ok 10000 (ci_conns t)" "tab_ok 4096 (synAcks t)" "visits visited (ci_conns t)" "key \<noteq> []"
  shows "tab_ok 10000 (ci_conns (RegisterOutgoing visited clock t key s)) \<and> tab_ok 4096 (synAcks (RegisterOutgoing visited clock t key s))"
proof -
  obtain n1 now where c: "clock = (n1, now)" by (cases clock)
  have "tab_ok 10000 ((make_room ci_lastSeen (conn_stale n1) 10000 visited (ci_conns t))(key \<mapsto> i))" for i
    using tab_ok_store [OF assms(1,3,4)] by simp
  then show ?thesis
    using assms(2) by (auto simp: RegisterOutgoing_def c Let_def maxConnStateEntries_def split: option.split intro: tab_ok_del)
qed

lemma update_conn_ok: "tab_ok n (ci_conns t) \<Longrightarrow> tab_ok n (ci_conns (update_conn t key f))"
  by (auto simp: update_conn_def intro: tab_ok_upd split: option.split)

lemma update_conn_other [simp]: "synAcks (update_conn t key f) = synAcks t"
  by (simp add: update_conn_def split: option.split)

lemma conn_step_ok:
  assumes "tab_ok 10000 (ci_conns t)" "tab_ok 4096 (synAcks t)" "loops_ok t c"
  shows "tab_ok 10000 (ci_conns (fst (conn_step t c))) \<and> tab_ok 4096 (synAcks (fst (conn_step t c)))"
proof (cases c)
  case (Register visited clock key s)
  then show ?thesis using assms RegisterOutgoing_ok by simp
next
  case (EarlySynAck visited now cip cport sip sport ttl opts)
  then show ?thesis using assms RecordEarlySynAck_ok [of t visited now] by (auto simp: RecordEarlySynAck_def Let_def)
next
  case (Rst cip cport sip sport ttl opts ack tol)
  then show ?thesis using assms by (auto simp: CheckRST_def Let_def intro: tab_ok_upd split: option.split)
next
  case (Incoming now cip cport sip sport)
  then show ?thesis using assms update_conn_ok by (simp add: GetSetForIncoming_def Let_def split: option.split)
next
  case (Bytes pick now cip cport sip sport n lo hi)
  then show ?thesis using assms by (auto simp: TrackIncomingBytes_def Let_def intro: tab_ok_upd split: option.split)
qed (use assms update_conn_ok in \<open>simp_all add: RecordServerResponse_def MarkEstablished_def conn_Cleanup_def pruneEarlySynAcks_def tab_ok_prune\<close>)

lemma conn_reach_ok: "conn_reach t \<Longrightarrow> tab_ok 10000 (ci_conns t) \<and> tab_ok 4096 (synAcks t)"
proof (induction rule: conn_reach.induct)
  case (step t c)
  then show ?case using conn_step_ok by blast
qed (simp add: new_tracker_def)

subsection \<open>Resets\<close>

text \<open>The entry of a connection survives an operation.\<close>

fun keeps_entry :: "gostr \<Rightarrow> connStateTracker \<Rightarrow> conn_op \<Rightarrow> bool" where
  "keeps_entry key t (Register visited clock k s) \<longleftrightarrow>
     make_room ci_lastSeen (conn_stale (fst clock)) maxConnStateEntries visited (ci_conns t) key = ci_conns t key"
| "keeps_entry key t (Tidy now) \<longleftrightarrow> prune (conn_stale now) (ci_conns t) key = ci_conns t key"
| "keeps_entry key t _ \<longleftrightarrow> True"

fun keeps_all :: "gostr \<Rightarrow> connStateTracker \<Rightarrow> conn_op list \<Rightarrow> bool" where
  "keeps_all key t [] \<longleftrightarrow> True"
| "keeps_all key t (c # cs) \<longleftrightarrow> keeps_entry key t c \<and> keeps_all key (fst (conn_step t c)) cs"

text \<open>The resets of a connection that are let through: hop limit, options, acknowledgement and tolerance.\<close>

fun let_through :: "gostr \<Rightarrow> connStateTracker \<Rightarrow> conn_op list \<Rightarrow> (byte \<times> bool \<times> bool \<times> int) list" where
  "let_through key t [] = []"
| "let_through key t (c # cs) =
     (case c of
        Rst cip cport sip sport ttl opts ack tol \<Rightarrow>
          if connKey cip cport sip sport = key \<and> \<not> snd (conn_step t c) then [(ttl, opts, ack, tol)] else []
      | _ \<Rightarrow> []) @ let_through key (fst (conn_step t c)) cs"

text \<open>What an operation does to the evidence: it is not forgotten.\<close>

definition evidence_le :: "connInfo \<Rightarrow> connInfo \<Rightarrow> bool" where
  "evidence_le i j \<longleftrightarrow> rstCount i \<le> rstCount j \<and> (ttlRecorded i \<longrightarrow> ttlRecorded j \<and> serverTTL j = serverTTL i) \<and>
     (serverHasOpts i \<longrightarrow> serverHasOpts j)"

lemma evidence_le_refl [simp]: "evidence_le i i"
  by (simp add: evidence_le_def)

lemma update_conn_evidence:
  assumes "ci_conns t key = Some i" "\<And>i. evidence_le i (f i)"
  shows "\<exists>j. ci_conns (update_conn t k f) key = Some j \<and> evidence_le i j"
  using assms by (auto simp: update_conn_def split: option.split)

lemma conn_step_evidence:
  assumes "ci_conns t key = Some i" "keeps_entry key t c"
  shows "\<exists>j. ci_conns (fst (conn_step t c)) key = Some j \<and> evidence_le i j"
proof (cases c)
  case (Register visited clock k s)
  then show ?thesis using assms
    by (cases clock) (auto simp: RegisterOutgoing_def Let_def evidence_le_def split: option.split)
next
  case (Response cip cport sip sport ttl opts)
  then show ?thesis using update_conn_evidence [OF assms(1)] by (simp add: RecordServerResponse_def evidence_le_def Let_def)
next
  case (Establish now k)
  then show ?thesis using update_conn_evidence [OF assms(1)] by (simp add: MarkEstablished_def evidence_le_def)
next
  case (Incoming now cip cport sip sport)
  then show ?thesis using update_conn_evidence [OF assms(1)] assms(1) by (simp add: GetSetForIncoming_def Let_def evidence_le_def split: option.split)
qed (use assms in \<open>auto simp: RecordEarlySynAck_def CheckRST_def TrackIncomingBytes_def conn_Cleanup_def Let_def evidence_le_def split: option.split\<close>)

lemma Rst_step:
  assumes "ci_conns t (connKey cip cport sip sport) = Some i" "c = Rst cip cport sip sport ttl opts ack tol"
  shows "ci_conns (fst (conn_step t c)) (connKey cip cport sip sport) = Some (i\<lparr>rstCount := rstCount i + 1\<rparr>)"
    "\<not> snd (conn_step t c) \<Longrightarrow> rstCount i = 0 \<and> responseSeen i \<and> (serverHasOpts i \<longrightarrow> opts \<and> ack) \<and>
      (ttlRecorded i \<longrightarrow> \<bar>uint ttl - uint (serverTTL i)\<bar> \<le> tol)"
  using assms by (auto simp: CheckRST_def Let_def suspicious_rst_def)

lemma let_through_none:
  "ci_conns t key = Some i \<Longrightarrow> keeps_all key t cs \<Longrightarrow> 1 \<le> rstCount i \<Longrightarrow> let_through key t cs = []"
proof (induction cs arbitrary: t i)
  case (Cons c cs)
  obtain j where j: "ci_conns (fst (conn_step t c)) key = Some j" "evidence_le i j"
    using conn_step_evidence [OF Cons.prems(1)] Cons.prems(2) by auto
  have "let_through key (fst (conn_step t c)) cs = []"
    using Cons.IH [OF j(1)] Cons.prems(2,3) j(2) by (simp add: evidence_le_def)
  moreover have "snd (conn_step t c)" if "c = Rst cip cport sip sport ttl opts ack tol" "connKey cip cport sip sport = key" for cip cport sip sport ttl opts ack tol
    using Rst_step(2) [of t cip cport sip sport i c ttl opts ack tol] Cons.prems(1,3) that by auto
  ultimately show ?case by (cases c) auto
qed simp



subsection \<open>Names of ClientHellos\<close>

inductive tls_reach :: "tlsInfoCache \<Rightarrow> bool" where
  new: "tls_reach \<lparr>ti_conns = Map.empty, ti_current = None, ti_counter = 0\<rparr>"
| store: "tls_reach c \<Longrightarrow> visits visited (ti_conns c) \<Longrightarrow> key \<noteq> [] \<Longrightarrow> tls_reach (fst (tls_Store visited clock c key host v seq hid))"
| decision: "tls_reach c \<Longrightarrow> tls_reach (fst (Decision now c key))"
| decide: "tls_reach c \<Longrightarrow> tls_reach (DecideHeld c key gen matcher mac s held)"
| forget: "tls_reach c \<Longrightarrow> tls_reach (ForgetDecisions c current)"
| drop_other: "tls_reach c \<Longrightarrow> tls_reach (fst (DropOtherConnection c key seq))"
| cleanup: "tls_reach c \<Longrightarrow> tls_reach (tls_Cleanup now c)"

text \<open>Once a matcher is current, only its decisions are in the table.\<close>

definition decisions_current :: "tlsInfoCache \<Rightarrow> bool" where
  "decisions_current c \<longleftrightarrow> (\<forall>m k i. ti_current c = Some m \<longrightarrow> ti_conns c k = Some i \<longrightarrow> decidedBy i = None \<or> decidedBy i = Some m)"

lemma tls_reach_ok: "tls_reach c \<Longrightarrow> tab_ok 20000 (ti_conns c) \<and> decisions_current c"
proof (induction rule: tls_reach.induct)
  case new
  then show ?case by (simp add: decisions_current_def)
next
  case (store c visited key clock host v seq hid)
  obtain n1 now where cl: "clock = (n1, now)" by (cases clock)
  have "tab_ok 20000 ((make_room ti_lastSeen (tls_stale n1) 20000 visited (ti_conns c))(key \<mapsto> i))" for i
    using store by (intro tab_ok_store) auto
  moreover obtain i where i: "ti_conns (fst (tls_Store visited clock c key host v seq hid)) =
      (make_room ti_lastSeen (tls_stale n1) 20000 visited (ti_conns c))(key \<mapsto> i)" "decidedBy i = None"
      "ti_current (fst (tls_Store visited clock c key host v seq hid)) = ti_current c"
    by (simp add: tls_Store_def cl Let_def maxTLSCacheEntries_def)
  moreover have "decisions_current (fst (tls_Store visited clock c key host v seq hid))"
    using store.IH make_room_le [OF store.hyps(2)] i(2) unfolding decisions_current_def i(1,3) fun_upd_apply by (metis option.inject)
  ultimately show ?case by metis
next
  case (decision c now key)
  then show ?case by (auto simp: Decision_def decisions_current_def intro: tab_ok_upd split: option.split)
next
  case (decide c key gen matcher mac s held)
  then show ?case by (auto simp: DecideHeld_def decisions_current_def intro: tab_ok_upd split: option.split)
next
  case (forget c current)
  have "dom (ti_conns (ForgetDecisions c current)) \<subseteq> dom (ti_conns c)" by (auto simp: ForgetDecisions_def)
  with forget.IH have "tab_ok 20000 (ti_conns (ForgetDecisions c current))" by (blast intro: tab_ok_sub)
  moreover have "decisions_current (ForgetDecisions c current)" by (auto simp: ForgetDecisions_def decisions_current_def)
  ultimately show ?case by simp
next
  case (drop_other c key seq)
  then show ?case by (auto simp: DropOtherConnection_def decisions_current_def intro: tab_ok_del split: option.split)
next
  case (cleanup c now)
  then show ?case by (auto simp: tls_Cleanup_def decisions_current_def intro: tab_ok_prune dest: prune_le)
qed

text \<open>
  C18. The tables of connections stay within their limits in every state they reach: 10000 connections, 4096 early SYN-ACKs and 20000
  names; and after a change of configuration the table of names only holds decisions of the current matcher, so that a
  decision made by an older one cannot be applied late.
\<close>

theorem connection_tables:
  assumes "conn_reach t" "tls_reach c"
  shows "card (dom (ci_conns t)) \<le> 10000 \<and> card (dom (synAcks t)) \<le> 4096 \<and> card (dom (ti_conns c)) \<le> 20000 \<and>
    (\<forall>m k i. ti_current c = Some m \<longrightarrow> ti_conns c k = Some i \<longrightarrow> decidedBy i = None \<or> decidedBy i = Some m)"
  using conn_reach_ok [OF assms(1)] tls_reach_ok [OF assms(2)] unfolding tab_ok_def decisions_current_def by blast

theorem connection_tables_witness:
  "card (dom (ci_conns (fst (conn_step new_tracker (Register [] (1, 2) (connKey [49] 5 [50] 443) None))))) \<le> 10000"
proof -
  have "conn_reach (fst (conn_step new_tracker (Register [] (1, 2) (connKey [49] 5 [50] 443) None)))"
    by (intro conn_reach.step conn_reach.new) (simp add: visits_def new_tracker_def)
  then show ?thesis using connection_tables [OF _ tls_reach.new] by blast
qed

end
