(* ===== verification/Dest_State.thy ===== *)
theory Dest_State
  imports Conn_Tables Matcher
begin

text \<open>
  What the packet handlers remember of destinations (\<^verbatim>\<open>src/nfq/connstate.go\<close>, \<^verbatim>\<open>escalate.go\<close> and the watches of
  \<^verbatim>\<open>hellosilence.go\<close>): repeated ClientHellos, blocked addresses, which set a host was escalated to, failures in a window
  of time, and the ClientHellos that wait for an answer. Each operation holds a mutex. Routes that an escalation
  registers are a flag of the result.
\<close>

record ipBlockEntry =
  ib_firstSeen :: int
  retransmits :: nat
  rstSent :: bool
  ib_host :: gostr
  ib_ack :: "32 word"

record escalationEntry =
  es_setId :: gostr
  setAt :: int
  hops :: nat
  es_ttl :: int
  es_reason :: gostr
  routedAt :: "int option"
  dscpAt :: "int option"
  capLogAt :: "int option"

record failEntry =
  fe_count :: nat
  firstAt :: int
  window :: int

record helloWatch =
  hw_key :: gostr
  hw_gen :: nat
  hw_dst :: bytes
  hw_port :: nat
  hw_client :: bytes
  hw_cport :: nat
  hw_wire :: bytes
  hw_tun :: bool
  hw_ver :: nat
  hw_ihl :: nat
  hw_hdr :: bytes
  helloAck :: "32 word"
  hw_host :: gostr
  hw_setID :: gostr
  hw_set :: gostr
  hw_sniSet :: gostr
  hw_ipSet :: gostr
  hw_mac :: gostr
  hw_scope :: "nat option"
  hw_tls :: nat
  deadline :: int
  probing :: bool
  parked :: bool
  closed :: bool
  fakesCloseEntry :: bool

record destStateTracker =
  ds_conns :: "gostr \<rightharpoonup> ipBlockEntry"
  blocked :: "gostr \<rightharpoonup> int"
  escalations :: "gostr \<rightharpoonup> escalationEntry"
  rstKills :: "gostr \<rightharpoonup> failEntry"
  dnsFails :: "gostr \<rightharpoonup> failEntry"
  watches :: "gostr \<rightharpoonup> helloWatch"
  watchGen :: nat
  watching :: nat

definition new_dest :: destStateTracker where
  "new_dest = \<lparr>ds_conns = Map.empty, blocked = Map.empty, escalations = Map.empty, rstKills = Map.empty, dnsFails = Map.empty,
     watches = Map.empty, watchGen = 0, watching = 0\<rparr>"

definition maxIPBlockEntries :: nat where
  "maxIPBlockEntries = 10000"

definition maxIPBlockCacheEntries :: nat where
  "maxIPBlockCacheEntries = 5000"

definition maxEscalationCacheEntries :: nat where
  "maxEscalationCacheEntries = 5000"

definition maxRSTKillEntries :: nat where
  "maxRSTKillEntries = 5000"

definition MaxEscalationHops :: nat where
  "MaxEscalationHops = 8"

definition EscalationTTL :: int where
  "EscalationTTL = 3600 * second"

subsection \<open>Repeated ClientHellos and blocked addresses\<close>

definition RecordClientHello :: "int \<times> int \<Rightarrow> destStateTracker \<Rightarrow> gostr \<Rightarrow> gostr \<Rightarrow> 32 word \<Rightarrow> destStateTracker \<times> nat \<times> int" where
  "RecordClientHello clock t key host ack =
     (case clock of (n1, now) \<Rightarrow>
      let m = (if card (dom (ds_conns t)) \<ge> maxIPBlockEntries
               then prune (\<lambda>v. n1 - ib_firstSeen v > 120 * second) (ds_conns t) else ds_conns t);
          fresh = \<lparr>ib_firstSeen = now, retransmits = 0, rstSent = False, ib_host = host, ib_ack = ack\<rparr>;
          entry = (case m key of None \<Rightarrow> fresh | Some e \<Rightarrow> if ib_ack e \<noteq> ack then fresh else e);
          entry = entry\<lparr>retransmits := retransmits entry + 1\<rparr>
      in (t\<lparr>ds_conns := m(key \<mapsto> entry)\<rparr>, retransmits entry, ib_firstSeen entry))"

definition ClearClientHellos :: "destStateTracker \<Rightarrow> gostr \<Rightarrow> destStateTracker" where
  "ClearClientHellos t key = t\<lparr>ds_conns := (ds_conns t)(key := None)\<rparr>"

definition HasRSTSent :: "destStateTracker \<Rightarrow> gostr \<Rightarrow> bool" where
  "HasRSTSent t key = (case ds_conns t key of None \<Rightarrow> False | Some e \<Rightarrow> rstSent e)"

definition MarkRSTSent :: "destStateTracker \<Rightarrow> gostr \<Rightarrow> destStateTracker" where
  "MarkRSTSent t key = (case ds_conns t key of None \<Rightarrow> t | Some e \<Rightarrow> t\<lparr>ds_conns := (ds_conns t)(key \<mapsto> e\<lparr>rstSent := True\<rparr>)\<rparr>)"

definition unwatchLocked :: "destStateTracker \<Rightarrow> gostr \<Rightarrow> destStateTracker" where
  "unwatchLocked t key = (let m = (watches t)(key := None) in t\<lparr>watches := m, watching := card (dom m)\<rparr>)"

definition Unwatch :: "destStateTracker \<Rightarrow> gostr \<Rightarrow> destStateTracker \<times> bool" where
  "Unwatch t key = (if \<not> 0 < watching t \<or> watches t key = None then (t, False) else (unwatchLocked t key, True))"

definition ForgetConnection :: "destStateTracker \<Rightarrow> gostr \<Rightarrow> destStateTracker" where
  "ForgetConnection t key = ClearClientHellos (fst (Unwatch t key)) key"

definition IsBlocked :: "destStateTracker \<Rightarrow> gostr \<Rightarrow> bool" where
  "IsBlocked t key \<longleftrightarrow> blocked t key \<noteq> None"

definition AddBlocked :: "int \<times> int \<Rightarrow> destStateTracker \<Rightarrow> gostr \<Rightarrow> destStateTracker" where
  "AddBlocked clock t key =
     (case clock of (n1, now) \<Rightarrow>
      let m = (if card (dom (blocked t)) \<ge> maxIPBlockCacheEntries then prune (\<lambda>v. n1 - v > 300 * second) (blocked t) else blocked t)
      in t\<lparr>blocked := m(key \<mapsto> now)\<rparr>)"

definition Unblock :: "destStateTracker \<Rightarrow> gostr \<Rightarrow> destStateTracker" where
  "Unblock t key = t\<lparr>blocked := (blocked t)(key := None)\<rparr>"

definition ResetBlocked :: "destStateTracker \<Rightarrow> destStateTracker \<times> nat" where
  "ResetBlocked t = (t\<lparr>blocked := Map.empty\<rparr>, card (dom (blocked t)))"

subsection \<open>Escalations\<close>

definition es_stale :: "int \<Rightarrow> escalationEntry \<Rightarrow> bool" where
  "es_stale now e \<longleftrightarrow> now - setAt e > es_ttl e"

definition fe_stale :: "int \<Rightarrow> failEntry \<Rightarrow> bool" where
  "fe_stale now e \<longleftrightarrow> now - firstAt e > window e"

definition dest_Cleanup :: "int \<Rightarrow> int \<Rightarrow> destStateTracker \<Rightarrow> destStateTracker" where
  "dest_Cleanup now cacheTTL t =
     t\<lparr>ds_conns := prune (\<lambda>v. now - ib_firstSeen v > 120 * second) (ds_conns t),
       blocked := (if cacheTTL > 0 then prune (\<lambda>v. now - v > cacheTTL) (blocked t) else blocked t),
       escalations := prune (es_stale now) (escalations t),
       rstKills := prune (fe_stale now) (rstKills t),
       dnsFails := prune (fe_stale now) (dnsFails t)\<rparr>"

definition GetEscalation :: "int \<Rightarrow> destStateTracker \<Rightarrow> gostr \<Rightarrow> (gostr \<times> nat) option" where
  "GetEscalation now t host =
     (case escalations t host of
        None \<Rightarrow> None
      | Some e \<Rightarrow> if es_stale now e then None else Some (es_setId e, hops e))"

definition GetEscalationReason :: "int \<Rightarrow> destStateTracker \<Rightarrow> gostr \<Rightarrow> gostr" where
  "GetEscalationReason now t host =
     (case escalations t host of None \<Rightarrow> [] | Some e \<Rightarrow> if es_stale now e then [] else es_reason e)"

definition SetEscalation ::
    "gostr list \<Rightarrow> int \<times> int \<times> int \<Rightarrow> destStateTracker \<Rightarrow> gostr \<Rightarrow> gostr \<Rightarrow> gostr \<Rightarrow> int \<Rightarrow> destStateTracker \<times> bool" where
  "SetEscalation visited clock t host setId reason ttl =
     (case clock of (n1, n2, now) \<Rightarrow>
      let ttl = (if ttl \<le> 0 then EscalationTTL else ttl);
          m = make_room setAt (es_stale n1) maxEscalationCacheEntries visited (escalations t);
          (m, prev) = (case m host of
                         None \<Rightarrow> (m, None)
                       | Some e \<Rightarrow> if es_stale n2 e then (m(host := None), None) else (m, Some e));
          n = (case prev of None \<Rightarrow> 1 | Some e \<Rightarrow> hops e + 1)
      in if n > MaxEscalationHops then (t\<lparr>escalations := m\<rparr>, False)
         else (t\<lparr>escalations := m(host \<mapsto> \<lparr>es_setId = setId, setAt = now, hops = n, es_ttl = ttl, es_reason = reason,
                 routedAt = None, dscpAt = None, capLogAt = (case prev of None \<Rightarrow> None | Some e \<Rightarrow> capLogAt e)\<rparr>)\<rparr>, True))"

definition ShouldLogHopCap :: "int \<Rightarrow> destStateTracker \<Rightarrow> gostr \<Rightarrow> destStateTracker \<times> bool" where
  "ShouldLogHopCap now t host =
     (case escalations t host of
        None \<Rightarrow> (t, True)
      | Some e \<Rightarrow>
          if (case capLogAt e of None \<Rightarrow> False | Some c \<Rightarrow> now - c < 60 * second) then (t, False)
          else (t\<lparr>escalations := (escalations t)(host \<mapsto> e\<lparr>capLogAt := Some now\<rparr>)\<rparr>, True))"

definition shouldRefresh :: "int \<Rightarrow> destStateTracker \<Rightarrow> gostr \<Rightarrow> int \<Rightarrow> bool \<Rightarrow> destStateTracker \<times> bool" where
  "shouldRefresh now t host interval dscp =
     (if interval \<le> 0 then (t, False)
      else case escalations t host of
        None \<Rightarrow> (t, False)
      | Some e \<Rightarrow>
          if es_stale now e then (t, False)
          else if (case (if dscp then dscpAt e else routedAt e) of None \<Rightarrow> False | Some l \<Rightarrow> now - l < interval) then (t, False)
          else (t\<lparr>escalations := (escalations t)(host \<mapsto>
                   (if dscp then e\<lparr>dscpAt := Some now\<rparr> else e\<lparr>routedAt := Some now\<rparr>))\<rparr>, True))"

definition ShouldRefreshRoute :: "int \<Rightarrow> destStateTracker \<Rightarrow> gostr \<Rightarrow> int \<Rightarrow> destStateTracker \<times> bool" where
  "ShouldRefreshRoute now t host interval = shouldRefresh now t host interval False"

definition ShouldRefreshDSCP :: "int \<Rightarrow> destStateTracker \<Rightarrow> gostr \<Rightarrow> int \<Rightarrow> destStateTracker \<times> bool" where
  "ShouldRefreshDSCP now t host interval = shouldRefresh now t host interval True"

definition PruneEscalations :: "destStateTracker \<Rightarrow> (gostr \<Rightarrow> bool) option \<Rightarrow> destStateTracker" where
  "PruneEscalations t valid =
     (case valid of None \<Rightarrow> t | Some f \<Rightarrow> t\<lparr>escalations := prune (\<lambda>e. \<not> f (es_setId e)) (escalations t)\<rparr>)"

definition ListEscalations :: "gostr list \<Rightarrow> int \<Rightarrow> destStateTracker \<Rightarrow> (gostr \<times> gostr \<times> nat \<times> int \<times> int) list" where
  "ListEscalations visited now t =
     List.map_filter (\<lambda>host. case escalations t host of
        None \<Rightarrow> None
      | Some e \<Rightarrow> if es_stale now e then None else Some (host, es_setId e, hops e, setAt e, setAt e + es_ttl e)) visited"

definition ClearEscalation :: "destStateTracker \<Rightarrow> gostr \<Rightarrow> destStateTracker" where
  "ClearEscalation t host = t\<lparr>escalations := (escalations t)(host := None)\<rparr>"

definition ResetEscalations :: "destStateTracker \<Rightarrow> destStateTracker" where
  "ResetEscalations t = t\<lparr>escalations := Map.empty, rstKills := Map.empty, dnsFails := Map.empty\<rparr>"

subsection \<open>Failures in a window of time\<close>

definition recordFailureLocked :: "gostr list \<Rightarrow> int \<Rightarrow> (gostr \<rightharpoonup> failEntry) \<Rightarrow> gostr \<Rightarrow> int \<Rightarrow> int \<Rightarrow> (gostr \<rightharpoonup> failEntry) \<times> bool" where
  "recordFailureLocked visited now m host need win =
     (let m = make_room firstAt (fe_stale now) maxRSTKillEntries visited m;
          first = (m(host \<mapsto> \<lparr>fe_count = 1, firstAt = now, window = win\<rparr>), need \<le> 1)
      in case m host of
           None \<Rightarrow> first
         | Some e \<Rightarrow>
             if fe_stale now e then first
             else if int (fe_count e + 1) \<ge> need then (m(host := None), True)
             else (m(host \<mapsto> e\<lparr>fe_count := fe_count e + 1\<rparr>), False))"

definition RecordRSTKill :: "gostr list \<Rightarrow> int \<Rightarrow> destStateTracker \<Rightarrow> gostr \<Rightarrow> int \<Rightarrow> int \<Rightarrow> destStateTracker \<times> bool" where
  "RecordRSTKill visited now t host need win =
     (let (m, r) = recordFailureLocked visited now (rstKills t) host (if need \<le> 0 then 3 else need) (if win \<le> 0 then 30 * second else win)
      in (t\<lparr>rstKills := m\<rparr>, r))"

definition RecordDNSFailure :: "gostr list \<Rightarrow> int \<Rightarrow> destStateTracker \<Rightarrow> gostr \<Rightarrow> int \<Rightarrow> int \<Rightarrow> destStateTracker \<times> bool" where
  "RecordDNSFailure visited now t host need win =
     (let (m, r) = recordFailureLocked visited now (dnsFails t) host (if need \<le> 0 then 2 else need) (if win \<le> 0 then 120 * second else win)
      in (t\<lparr>dnsFails := m\<rparr>, r))"

definition ClearDNSFailures :: "destStateTracker \<Rightarrow> gostr \<Rightarrow> destStateTracker" where
  "ClearDNSFailures t host = t\<lparr>dnsFails := (dnsFails t)(host := None)\<rparr>"

subsection \<open>ClientHellos that wait for an answer\<close>

definition maxHelloWatches :: nat where
  "maxHelloWatches = 4096"

definition helloWatchTTL :: int where
  "helloWatchTTL = 120 * second"

definition WatchHello :: "destStateTracker \<Rightarrow> helloWatch \<Rightarrow> destStateTracker" where
  "WatchHello t h =
     (if (case watches t (hw_key h) of Some prev \<Rightarrow> hw_setID prev = hw_setID h | None \<Rightarrow> card (dom (watches t)) \<ge> maxHelloWatches) then t
      else let gen = (watchGen t + 1) mod 2 ^ 64;
               m = (watches t)(hw_key h \<mapsto> h\<lparr>hw_gen := gen\<rparr>)
        in t\<lparr>watchGen := gen, watches := m, watching := card (dom m)\<rparr>)"

text \<open>The client's packets: a new acknowledgement means that the server has answered.\<close>

definition NoteClientPacket :: "destStateTracker \<Rightarrow> gostr \<Rightarrow> 32 word \<Rightarrow> bool \<Rightarrow> bool \<Rightarrow> int \<Rightarrow> destStateTracker" where
  "NoteClientPacket t key ack acked closing now =
     (if \<not> 0 < watching t then t
      else case watches t key of
        None \<Rightarrow> t
      | Some h \<Rightarrow>
          let answered = acked \<and> sint (ack - helloAck h) > 0 in
          if \<not> answered \<and> \<not> closing then t
          else if answered \<or> now < deadline h then unwatchLocked t key
          else t\<lparr>watches := (watches t)(key \<mapsto> h\<lparr>closed := True\<rparr>)\<rparr>)"

definition EndWatch :: "destStateTracker \<Rightarrow> helloWatch \<Rightarrow> destStateTracker \<times> bool" where
  "EndWatch t h =
     (if \<not> 0 < watching t then (t, False)
      else case watches t (hw_key h) of
        None \<Rightarrow> (t, False)
      | Some cur \<Rightarrow> if hw_gen cur \<noteq> hw_gen h then (t, False) else (unwatchLocked t (hw_key h), True))"

definition updateWatch :: "destStateTracker \<Rightarrow> helloWatch \<Rightarrow> (helloWatch \<Rightarrow> helloWatch) \<Rightarrow> destStateTracker" where
  "updateWatch t h change =
     (if \<not> 0 < watching t then t
      else case watches t (hw_key h) of
        None \<Rightarrow> t
      | Some cur \<Rightarrow> if hw_gen cur = hw_gen h then t\<lparr>watches := (watches t)(hw_key h \<mapsto> change cur)\<rparr> else t)"

definition Unprobe :: "destStateTracker \<Rightarrow> helloWatch \<Rightarrow> destStateTracker" where
  "Unprobe t h = updateWatch t h (\<lambda>w. w\<lparr>probing := False\<rparr>)"

definition Park :: "destStateTracker \<Rightarrow> helloWatch \<Rightarrow> destStateTracker" where
  "Park t h = updateWatch t h (\<lambda>w. w\<lparr>probing := False, parked := True\<rparr>)"

definition due_step :: "int \<Rightarrow> destStateTracker \<times> helloWatch list \<Rightarrow> gostr \<Rightarrow> destStateTracker \<times> helloWatch list" where
  "due_step now st key =
     (case st of (t, due) \<Rightarrow>
      case watches t key of
        None \<Rightarrow> st
      | Some h \<Rightarrow>
          if now < deadline h then st
          else if now - deadline h > helloWatchTTL then (unwatchLocked t key, due)
          else if probing h \<or> parked h \<and> \<not> closed h then st
          else (t\<lparr>watches := (watches t)(key \<mapsto> h\<lparr>probing := True\<rparr>)\<rparr>, due @ [h\<lparr>probing := True\<rparr>]))"

definition DueSilent :: "gostr list \<Rightarrow> int \<Rightarrow> destStateTracker \<Rightarrow> destStateTracker \<times> helloWatch list" where
  "DueSilent visited now t = (if \<not> 0 < watching t then (t, []) else foldl (due_step now) (t, []) visited)"

definition take_step :: "(bytes \<Rightarrow> bytes \<Rightarrow> bool) \<Rightarrow> bytes \<Rightarrow> nat \<Rightarrow> destStateTracker \<times> helloWatch list \<Rightarrow> gostr \<Rightarrow> destStateTracker \<times> helloWatch list" where
  "take_step ip_equal ip port st key =
     (case st of (t, taken) \<Rightarrow>
      case watches t key of
        None \<Rightarrow> st
      | Some h \<Rightarrow>
          if (probing h \<or> parked h) \<and> hw_port h = port \<and> ip_equal (hw_dst h) ip then (unwatchLocked t key, taken @ [h]) else st)"

text \<open>\<open>ip_equal\<close> is \<^verbatim>\<open>net.IP.Equal\<close>.\<close>

definition TakeSilent :: "(bytes \<Rightarrow> bytes \<Rightarrow> bool) \<Rightarrow> gostr list \<Rightarrow> destStateTracker \<Rightarrow> bytes \<Rightarrow> nat \<Rightarrow> destStateTracker \<times> helloWatch list" where
  "TakeSilent ip_equal visited t ip port =
     (if \<not> 0 < watching t then (t, []) else foldl (take_step ip_equal ip port) (t, []) visited)"

subsection \<open>Escalating a host to the next set\<close>

record EscalateConfig =
  To :: gostr
  RstThreshold :: int
  RstWindowSec :: int
  TtlSec :: int
  StallThreshold :: int
  StallTimeoutMs :: int
  DNSThreshold :: int

definition Active :: "EscalateConfig \<Rightarrow> bool" where
  "Active c \<longleftrightarrow> To c \<noteq> []"

definition ResolvedRstThreshold :: "EscalateConfig \<Rightarrow> int" where
  "ResolvedRstThreshold c = (if RstThreshold c \<le> 0 then 3 else RstThreshold c)"

definition ResolvedRstWindow :: "EscalateConfig \<Rightarrow> int" where
  "ResolvedRstWindow c = (if RstWindowSec c \<le> 0 then 30 * second else RstWindowSec c * second)"

definition ResolvedTTL :: "EscalateConfig \<Rightarrow> int" where
  "ResolvedTTL c = (if TtlSec c \<le> 0 then 3600 * second else TtlSec c * second)"

definition ResolvedStallThreshold :: "EscalateConfig \<Rightarrow> int" where
  "ResolvedStallThreshold c = (if StallThreshold c \<le> 0 then 3 else StallThreshold c)"

definition ResolvedStallTimeout :: "EscalateConfig \<Rightarrow> int" where
  "ResolvedStallTimeout c = (if StallTimeoutMs c \<le> 0 then 3000 * 1000000 else StallTimeoutMs c * 1000000)"

definition ResolvedDNSThreshold :: "EscalateConfig \<Rightarrow> int" where
  "ResolvedDNSThreshold c = (if DNSThreshold c \<le> 0 then 2 else DNSThreshold c)"

definition routingBlocks :: "SetConfig option \<Rightarrow> bool" where
  "routingBlocks s = (case s of None \<Rightarrow> False | Some s \<Rightarrow> REnabled (Routing s) \<and> RoutingIsBlock (RMode (Routing s)))"

definition escalatedSetFor ::
    "golib \<Rightarrow> int \<Rightarrow> destStateTracker \<Rightarrow> SetConfig list \<Rightarrow> SetConfig option \<Rightarrow> gostr \<Rightarrow> gostr \<Rightarrow> SetFilter list \<Rightarrow>
     destStateTracker \<times> SetConfig option" where
  "escalatedSetFor L now t sets selected host srcMac keep =
     (if host = [] \<or> routingBlocks selected then (t, None)
      else case GetEscalation now t host of
        None \<Rightarrow> (t, None)
      | Some (escId, _) \<Rightarrow>
          (case GetSetById sets escId of
             None \<Rightarrow> (ClearEscalation t host, None)
           | Some s \<Rightarrow>
               if \<not> Enabled s then (ClearEscalation t host, None)
               else if \<not> SetMatchesSource L (Some s) srcMac keep then (t, None)
               else (t, Some s)))"

text \<open>The walk along the links, of at most \<open>MaxEscalationHops\<close> sets.\<close>

fun escalation_walk :: "nat \<Rightarrow> SetConfig list \<Rightarrow> SetConfig \<Rightarrow> gostr \<Rightarrow> bool" where
  "escalation_walk 0 sets current i = False"
| "escalation_walk (Suc n) sets current i =
     (if EscalateTo current = [] then False
      else if EscalateTo current = i then True
      else case GetSetById sets (EscalateTo current) of
        None \<Rightarrow> False
      | Some s \<Rightarrow> if \<not> Enabled s then False else escalation_walk n sets s i)"

definition escalationReaches :: "SetConfig list \<Rightarrow> SetConfig \<Rightarrow> gostr \<Rightarrow> bool" where
  "escalationReaches sets from i = (if i = [] then False else escalation_walk MaxEscalationHops sets from i)"

text \<open>The set to switch to, whether its routes are registered, and the tracker. \<open>learns\<close> is the answer of the packet's scope.\<close>

definition tryEscalate ::
    "golib \<Rightarrow> gostr list \<Rightarrow> int \<times> int \<times> int \<Rightarrow> int \<Rightarrow> destStateTracker \<Rightarrow> SetConfig list \<Rightarrow> SetConfig \<Rightarrow> EscalateConfig \<Rightarrow> gostr \<Rightarrow> gostr \<Rightarrow>
     gostr \<Rightarrow> SetFilter list \<Rightarrow> bool \<Rightarrow> destStateTracker \<times> SetConfig option \<times> bool" where
  "tryEscalate L visited clock logNow t sets s esc host srcMac reason keep learns =
     (if host = [] \<or> \<not> Active esc \<or> routingBlocks (Some s) then (t, None, False)
      else case GetSetById sets (To esc) of
        None \<Rightarrow> (t, None, False)
      | Some nxt \<Rightarrow>
          if \<not> Enabled nxt \<or> \<not> SetMatchesSource L (Some nxt) srcMac keep then (t, None, False)
          else (case SetEscalation visited clock t host (SetId nxt) reason (ResolvedTTL esc) of
                  (t, False) \<Rightarrow> (fst (ShouldLogHopCap logNow t host), None, False)
                | (t, True) \<Rightarrow> (t, Some nxt, learns)))"

definition escalateOnStall :: "EscalateConfig \<Rightarrow> int \<Rightarrow> int \<Rightarrow> int \<Rightarrow> bool" where
  "escalateOnStall c n now first =
     (if \<not> Active c then False
      else if n \<ge> ResolvedStallThreshold c then True
      else n > 1 \<and> now - first > ResolvedStallTimeout c)"

definition routeRefreshInterval :: "int \<Rightarrow> int \<Rightarrow> int" where
  "routeRefreshInterval ttl default_ttl =
     (let ttl = (if ttl \<le> 0 then default_ttl else ttl);
          ttl = (if ttl \<le> 0 then 3600 else ttl);
          interval = (ttl div 2) * second
      in if interval < 30 * second then 30 * second else interval)"

end
