(* ===== verification/Dest_Tables.thy ===== *)
theory Dest_Tables
  imports Dest_State
begin

text \<open>
  What the tracker of destinations guarantees: the ladder of escalations of a host, the count of failures in a
  window, and the bounds of its tables in every state it reaches.
\<close>

subsection \<open>The ladder of escalations\<close>

lemma make_room_free: "card (dom m) < lim \<Longrightarrow> make_room stamp stale lim visited m = m"
  by (simp add: make_room_def)

definition rung :: "int \<Rightarrow> destStateTracker \<Rightarrow> gostr \<Rightarrow> nat" where
  "rung now t host = (case GetEscalation now t host of None \<Rightarrow> 0 | Some (_, n) \<Rightarrow> n)"

definition lifetime :: "int \<Rightarrow> int" where
  "lifetime ttl = (if ttl \<le> 0 then 3600000000000 else ttl)"



lemma GetSetById_found: "GetSetById sets i = Some s \<Longrightarrow> SetId s = i \<and> GetSetById sets (SetId s) = Some s"
  by (auto simp: GetSetById_def find_Some_iff)

lemma SetEscalation_True:
  assumes "card (dom (escalations t)) < 5000" "SetEscalation visited (n1, n2, now) t host i reason ttl = (t', True)" "now' - now \<le> lifetime ttl"
  shows "\<exists>n. GetEscalation now' t' host = Some (i, n)"
proof -
  have r: "make_room setAt (es_stale n1) maxEscalationCacheEntries visited (escalations t) = escalations t"
    using assms(1) by (simp add: make_room_free maxEscalationCacheEntries_def)
  show ?thesis
    using assms(2,3)
    by (auto simp: SetEscalation_def Let_def r GetEscalation_def es_stale_def lifetime_def EscalationTTL_def second_def split: option.splits if_splits)
qed

lemma tryEscalate_Some:
  assumes "tryEscalate L visited clock logNow t sets s esc host srcMac reason keep learns = (t', Some nxt, routed)"
  shows "host \<noteq> [] \<and> \<not> routingBlocks (Some s) \<and> GetSetById sets (To esc) = Some nxt \<and> Enabled nxt \<and> SetMatchesSource L (Some nxt) srcMac keep \<and>
    SetEscalation visited clock t host (SetId nxt) reason (ResolvedTTL esc) = (t', True)"
  using assms by (auto simp: tryEscalate_def split: if_splits option.splits prod.splits bool.splits)


definition to_b :: EscalateConfig where
  "to_b = \<lparr>To = str ''b'', RstThreshold = 0, RstWindowSec = 0, TtlSec = 0, StallThreshold = 0, StallTimeoutMs = 0, DNSThreshold = 0\<rparr>"


subsection \<open>Failures in a window\<close>

fun record_failures :: "gostr list \<Rightarrow> gostr \<Rightarrow> int \<Rightarrow> int \<Rightarrow> (gostr \<rightharpoonup> failEntry) \<Rightarrow> int list \<Rightarrow> (gostr \<rightharpoonup> failEntry) \<times> bool list" where
  "record_failures visited host need win m [] = (m, [])"
| "record_failures visited host need win m (t # ts) =
     (let (m, r) = recordFailureLocked visited t m host need win;
          (m, rs) = record_failures visited host need win m ts
      in (m, r # rs))"

lemma record_first:
  assumes "card (dom m) < 5000" "m host = None \<or> (\<exists>e. m host = Some e \<and> fe_stale t e)"
  shows "recordFailureLocked visited t m host need win = (m(host \<mapsto> \<lparr>fe_count = 1, firstAt = t, window = win\<rparr>), need \<le> 1)"
  using assms by (auto simp: recordFailureLocked_def make_room_free maxRSTKillEntries_def Let_def)

lemma record_next:
  assumes "card (dom m) < 5000" "m host = Some e" "\<not> fe_stale t e"
  shows "recordFailureLocked visited t m host need win =
    (if int (fe_count e + 1) \<ge> need then (m(host := None), True) else (m(host \<mapsto> e\<lparr>fe_count := fe_count e + 1\<rparr>), False))"
  using assms by (auto simp: recordFailureLocked_def make_room_free maxRSTKillEntries_def Let_def)

lemma card_dom_upd: "card (dom (m(k \<mapsto> v))) \<le> card (dom m) + 1"
  by (simp add: card_insert_le_m1)

lemma card_dom_existing: "m k = Some u \<Longrightarrow> dom (m(k \<mapsto> v)) = dom m"
  by auto

text \<open>Below the threshold the failures are counted.\<close>

lemma record_below:
  "card (dom m) < 5000 \<Longrightarrow> m host = Some \<lparr>fe_count = c, firstAt = t0, window = win\<rparr> \<Longrightarrow> \<forall>t \<in> set ts. t - t0 \<le> win \<Longrightarrow>
   int (c + length ts) < need \<Longrightarrow>
   record_failures visited host need win m ts =
     (m(host \<mapsto> \<lparr>fe_count = c + length ts, firstAt = t0, window = win\<rparr>), replicate (length ts) False)"
proof (induction ts arbitrary: m c)
  case Nil
  then show ?case by (simp add: map_upd_triv)
next
  case (Cons t ts)
  define m1 where "m1 = m(host \<mapsto> \<lparr>fe_count = c + 1, firstAt = t0, window = win\<rparr>)"
  have "recordFailureLocked visited t m host need win = (m1, False)"
    using record_next [OF Cons.prems(1,2), of t visited need win] Cons.prems(3,4) by (simp add: fe_stale_def m1_def)
  moreover have "dom m1 = dom m" "m1 host = Some \<lparr>fe_count = c + 1, firstAt = t0, window = win\<rparr>"
    using card_dom_existing [of m host] Cons.prems(2) by (simp_all add: m1_def)
  moreover have "m1(host \<mapsto> v) = m(host \<mapsto> v)" for v by (simp add: m1_def)
  ultimately show ?case using Cons.IH [of m1 "c + 1"] Cons.prems(1,3,4) by simp
qed

lemma record_apart:
  "card (dom m) + 1 < 5000 \<Longrightarrow> m host = Some \<lparr>fe_count = 1, firstAt = t0, window = win\<rparr> \<Longrightarrow> sorted_wrt (\<lambda>a b. b - a > win) (t0 # ts) \<Longrightarrow>
   1 < need \<Longrightarrow> snd (record_failures visited host need win m ts) = replicate (length ts) False"
proof (induction ts arbitrary: m t0)
  case (Cons t ts)
  define m1 where "m1 = m(host \<mapsto> \<lparr>fe_count = 1, firstAt = t, window = win\<rparr>)"
  have "recordFailureLocked visited t m host need win = (m1, False)"
    using record_first [of m host t visited need win] Cons.prems by (auto simp: fe_stale_def m1_def)
  moreover have "dom m1 = dom m" "m1 host = Some \<lparr>fe_count = 1, firstAt = t, window = win\<rparr>"
    using card_dom_existing [of m host] Cons.prems(2) by (simp_all add: m1_def)
  ultimately show ?case using Cons.IH [of m1 t] Cons.prems(1,3,4) by (simp add: split_beta)
qed simp

lemma record_failures_append:
  "record_failures visited host need win m (ts @ us) =
     (let (m, rs) = record_failures visited host need win m ts; (m, qs) = record_failures visited host need win m us in (m, rs @ qs))"
  by (induction ts arbitrary: m) (auto simp: Let_def split_beta)

text \<open>
  Failures of a host (forged resets, DNS answers) are counted in a window that starts with the first: the threshold is
  reported with exactly the failure that reaches it, and the count starts over; failures that are further apart than the window are
  never reported. While the table has room.
\<close>

theorem failures_in_window:
  assumes "card (dom m) + 2 < 5000" "m host = None \<or> (\<exists>e. m host = Some e \<and> fe_stale t0 e)" "1 < need"
  shows "(length ts + 1 = nat need \<and> (\<forall>t \<in> set ts. t - t0 \<le> win) \<longrightarrow>
      record_failures visited host need win m (t0 # ts) = (m(host := None), replicate (length ts) False @ [True])) \<and>
    (sorted_wrt (\<lambda>a b. b - a > win) (t0 # ts) \<longrightarrow>
      snd (record_failures visited host need win m (t0 # ts)) = replicate (length (t0 # ts)) False)"
proof -
  define m1 where "m1 = m(host \<mapsto> \<lparr>fe_count = 1, firstAt = t0, window = win\<rparr>)"
  have f: "recordFailureLocked visited t0 m host need win = (m1, False)"
    using record_first [of m host t0 visited need win] assms by (simp add: m1_def)
  have h: "m1 host = Some \<lparr>fe_count = 1, firstAt = t0, window = win\<rparr>" "m1(host := x) = m(host := x)" for x by (simp_all add: m1_def)
  have c: "card (dom m1) + 1 < 5000" using assms(1) card_dom_upd [of m host "\<lparr>fe_count = 1, firstAt = t0, window = win\<rparr>"] unfolding m1_def by linarith
  have "record_failures visited host need win m (t0 # ts) = (m(host := None), replicate (length ts) False @ [True])"
    if w: "length ts + 1 = nat need \<and> (\<forall>t \<in> set ts. t - t0 \<le> win)"
  proof -
    obtain us u where ts: "ts = us @ [u]" using w assms(3) by (cases ts rule: rev_cases) auto
    define m2 where "m2 = m1(host \<mapsto> \<lparr>fe_count = 1 + length us, firstAt = t0, window = win\<rparr>)"
    have "length us + 2 = nat need" using w ts by simp
    then have nd: "need = int (length us) + 2" using assms(3) by linarith
    have "record_failures visited host need win m1 us = (m2, replicate (length us) False)"
      using record_below [of m1 host 1 t0 win us need visited] c h(1) w ts nd by (simp add: m2_def)
    moreover have "recordFailureLocked visited u m2 host need win = (m2(host := None), True)"
      using record_next [of m2 host "\<lparr>fe_count = 1 + length us, firstAt = t0, window = win\<rparr>" u visited need win] c w ts nd
        card_dom_existing [of m1 host] h(1) by (simp add: fe_stale_def m2_def)
    moreover have "m2(host := None) = m(host := None)" by (simp add: m2_def m1_def)
    ultimately show ?thesis using f ts by (simp add: record_failures_append)
  qed
  moreover have "snd (record_failures visited host need win m (t0 # ts)) = replicate (length (t0 # ts)) False"
    if "sorted_wrt (\<lambda>a b. b - a > win) (t0 # ts)"
    using record_apart [of m1 host t0 win ts need visited] c h(1) that assms(3) f by (simp add: split_beta)
  ultimately show ?thesis by blast
qed

theorem failures_in_window_witness:
  "record_failures [] (str ''h'') 3 30 Map.empty [100, 110, 120] = (Map.empty, [False, False, True])"
  using failures_in_window [of Map.empty "str ''h''" 100 3 "[110, 120]" 30 "[]"] by simp

subsection \<open>Bounds\<close>

inductive dest_reach :: "destStateTracker \<Rightarrow> bool" where
  new: "dest_reach new_dest"
| hello: "dest_reach t \<Longrightarrow> dest_reach (fst (RecordClientHello clock t key host ack))"
| clear_hellos: "dest_reach t \<Longrightarrow> dest_reach (ClearClientHellos t key)"
| mark_rst: "dest_reach t \<Longrightarrow> dest_reach (MarkRSTSent t key)"
| forget: "dest_reach t \<Longrightarrow> dest_reach (ForgetConnection t key)"
| add_blocked: "dest_reach t \<Longrightarrow> dest_reach (AddBlocked clock t key)"
| unblock: "dest_reach t \<Longrightarrow> dest_reach (Unblock t key)"
| reset_blocked: "dest_reach t \<Longrightarrow> dest_reach (fst (ResetBlocked t))"
| cleanup: "dest_reach t \<Longrightarrow> dest_reach (dest_Cleanup now cacheTTL t)"
| escalate: "dest_reach t \<Longrightarrow> visits visited (escalations t) \<Longrightarrow> host \<noteq> [] \<Longrightarrow> dest_reach (fst (SetEscalation visited clock t host i reason ttl))"
| log_cap: "dest_reach t \<Longrightarrow> dest_reach (fst (ShouldLogHopCap now t host))"
| refresh: "dest_reach t \<Longrightarrow> dest_reach (fst (shouldRefresh now t host interval dscp))"
| prune_sets: "dest_reach t \<Longrightarrow> dest_reach (PruneEscalations t valid)"
| clear_escalation: "dest_reach t \<Longrightarrow> dest_reach (ClearEscalation t host)"
| reset: "dest_reach t \<Longrightarrow> dest_reach (ResetEscalations t)"
| rst_kill: "dest_reach t \<Longrightarrow> visits visited (rstKills t) \<Longrightarrow> host \<noteq> [] \<Longrightarrow> dest_reach (fst (RecordRSTKill visited now t host need win))"
| dns_fail: "dest_reach t \<Longrightarrow> visits visited (dnsFails t) \<Longrightarrow> host \<noteq> [] \<Longrightarrow> dest_reach (fst (RecordDNSFailure visited now t host need win))"
| clear_dns: "dest_reach t \<Longrightarrow> dest_reach (ClearDNSFailures t host)"
| watch: "dest_reach t \<Longrightarrow> dest_reach (WatchHello t h)"
| client_packet: "dest_reach t \<Longrightarrow> dest_reach (NoteClientPacket t key ack acked closing now)"
| unwatch: "dest_reach t \<Longrightarrow> dest_reach (fst (Unwatch t key))"
| end_watch: "dest_reach t \<Longrightarrow> dest_reach (fst (EndWatch t h))"
| unprobe: "dest_reach t \<Longrightarrow> dest_reach (Unprobe t h)"
| park: "dest_reach t \<Longrightarrow> dest_reach (Park t h)"
| due: "dest_reach t \<Longrightarrow> dest_reach (fst (DueSilent visited now t))"
| taken: "dest_reach t \<Longrightarrow> dest_reach (fst (TakeSilent ip_equal visited t ip port))"

definition rungs_ok :: "(gostr \<rightharpoonup> escalationEntry) \<Rightarrow> bool" where
  "rungs_ok m \<longleftrightarrow> (\<forall>h e. m h = Some e \<longrightarrow> 1 \<le> hops e \<and> hops e \<le> 8 \<and> 0 < es_ttl e)"

definition watch_ok :: "destStateTracker \<Rightarrow> bool" where
  "watch_ok t \<longleftrightarrow> finite (dom (watches t)) \<and> card (dom (watches t)) \<le> 4096 \<and> watching t = card (dom (watches t))"

definition dest_ok :: "destStateTracker \<Rightarrow> bool" where
  "dest_ok t \<longleftrightarrow> tab_ok 5000 (escalations t) \<and> rungs_ok (escalations t) \<and> tab_ok 5000 (rstKills t) \<and> tab_ok 5000 (dnsFails t) \<and> watch_ok t"

named_theorems dest_defs "the operations of the tracker of destinations"

declare RecordClientHello_def [dest_defs] ClearClientHellos_def [dest_defs] MarkRSTSent_def [dest_defs] AddBlocked_def [dest_defs]
  Unblock_def [dest_defs] ResetBlocked_def [dest_defs] ShouldLogHopCap_def [dest_defs] shouldRefresh_def [dest_defs]
  PruneEscalations_def [dest_defs] ClearEscalation_def [dest_defs] ResetEscalations_def [dest_defs] ClearDNSFailures_def [dest_defs]
  dest_Cleanup_def [dest_defs]

lemma rungs_ok_sub: "rungs_ok m \<Longrightarrow> (\<And>h e. m' h = Some e \<Longrightarrow> m h = Some e) \<Longrightarrow> rungs_ok m'"
  by (auto simp: rungs_ok_def)

lemma rungs_ok_prune: "rungs_ok m \<Longrightarrow> rungs_ok (prune stale m)"
  by (erule rungs_ok_sub) (auto dest: prune_le)

lemma rungs_ok_simps [simp]: "rungs_ok Map.empty" "rungs_ok m \<Longrightarrow> rungs_ok (m(h := None))"
  "rungs_ok m \<Longrightarrow> 1 \<le> hops e \<and> hops e \<le> 8 \<and> 0 < es_ttl e \<Longrightarrow> rungs_ok (m(h \<mapsto> e))"
  by (auto simp: rungs_ok_def)

lemma SetEscalation_ok:
  assumes "tab_ok 5000 (escalations t)" "rungs_ok (escalations t)" "visits visited (escalations t)" "host \<noteq> []"
  shows "tab_ok 5000 (escalations (fst (SetEscalation visited clock t host i reason ttl)))"
    "rungs_ok (escalations (fst (SetEscalation visited clock t host i reason ttl)))"
proof -
  obtain n1 n2 now where clock: "clock = (n1, n2, now)" by (cases clock)
  let ?m = "make_room setAt (es_stale n1) 5000 visited (escalations t)"
  have m: "tab_ok 5000 ?m" "rungs_ok ?m" "tab_ok 5000 (?m(host \<mapsto> e))" for e
    using tab_ok_room [OF assms(1,3)] rungs_ok_sub [OF assms(2) make_room_le [OF assms(3)]] tab_ok_store [OF assms(1,3,4)] by auto
  have "hops e + 1 \<le> 8 \<or> 8 < hops e + 1" for e :: escalationEntry by linarith
  then show "tab_ok 5000 (escalations (fst (SetEscalation visited clock t host i reason ttl)))"
    "rungs_ok (escalations (fst (SetEscalation visited clock t host i reason ttl)))"
    using m by (auto simp: SetEscalation_def clock Let_def maxEscalationCacheEntries_def MaxEscalationHops_def EscalationTTL_def second_def
      split: option.splits intro!: tab_ok_del)
qed

lemma SetEscalation_other:
  "rstKills (fst (SetEscalation visited clock t host i reason ttl)) = rstKills t"
  "dnsFails (fst (SetEscalation visited clock t host i reason ttl)) = dnsFails t"
  "watches (fst (SetEscalation visited clock t host i reason ttl)) = watches t"
  "watching (fst (SetEscalation visited clock t host i reason ttl)) = watching t"
  by (auto simp: SetEscalation_def Let_def split: prod.split option.split)

lemma recordFailureLocked_ok:
  assumes "tab_ok 5000 m" "visits visited m" "host \<noteq> []"
  shows "tab_ok 5000 (fst (recordFailureLocked visited now m host need win))"
  using tab_ok_store [OF assms, of firstAt "fe_stale now"] tab_ok_room [OF assms(1,2), of firstAt "fe_stale now"]
  by (auto simp: recordFailureLocked_def Let_def maxRSTKillEntries_def split: option.splits intro: tab_ok_del)

lemma watch_ok_unwatch: "watch_ok t \<Longrightarrow> watch_ok (unwatchLocked t key)"
  using card_Diff1_le [of "dom (watches t)" key] by (auto simp: watch_ok_def unwatchLocked_def Let_def intro: order_trans)

lemma watch_ok_change: "watch_ok t \<Longrightarrow> watches t key = Some u \<Longrightarrow> watch_ok (t\<lparr>watches := (watches t)(key \<mapsto> h)\<rparr>)"
  using card_dom_existing [of "watches t" key] by (simp add: watch_ok_def)

lemma watch_ok_new: "watch_ok t \<Longrightarrow> watch_ok (WatchHello t h)"
  by (auto simp: watch_ok_def WatchHello_def Let_def maxHelloWatches_def card_insert_if domIff split: option.splits)

text \<open>Operations that only change watches.\<close>

definition only_watches :: "destStateTracker \<Rightarrow> destStateTracker \<Rightarrow> bool" where
  "only_watches t t' \<longleftrightarrow> escalations t' = escalations t \<and> rstKills t' = rstKills t \<and> dnsFails t' = dnsFails t \<and> (watch_ok t \<longrightarrow> watch_ok t')"

lemma only_watches_trans: "only_watches a b \<Longrightarrow> only_watches b c \<Longrightarrow> only_watches a c"
  by (simp add: only_watches_def)

lemma only_watches_unwatch: "only_watches t (unwatchLocked t key)"
  using watch_ok_unwatch by (simp add: only_watches_def unwatchLocked_def Let_def)

lemma only_watches_change: "watches t key = Some u \<Longrightarrow> only_watches t (t\<lparr>watches := (watches t)(key \<mapsto> h)\<rparr>)"
  using watch_ok_change by (simp add: only_watches_def)

lemma only_watches_id [simp]: "only_watches t t"
  by (simp add: only_watches_def)

lemma only_watches_fold:
  "(\<And>st k. only_watches (fst st) (fst (f st k))) \<Longrightarrow> only_watches (fst st) (fst (foldl f st ks))"
proof (induction ks arbitrary: st)
  case (Cons k ks)
  have "only_watches (fst st) (fst (f st k))" by (rule Cons.prems)
  moreover have "only_watches (fst (f st k)) (fst (foldl f (f st k) ks))" by (rule Cons.IH [OF Cons.prems])
  ultimately show ?case using only_watches_trans by simp
qed simp

lemma only_watches_ops:
  "only_watches t (WatchHello t h)" "only_watches t (NoteClientPacket t key ack acked closing now)" "only_watches t (fst (Unwatch t key))"
  "only_watches t (fst (EndWatch t h))" "only_watches t (Unprobe t h)" "only_watches t (Park t h)"
  "only_watches t (fst (DueSilent visited now t))" "only_watches t (fst (TakeSilent ip_equal visited t ip port))"
proof -
  show "only_watches t (WatchHello t h)" using watch_ok_new by (auto simp: only_watches_def WatchHello_def Let_def)
  show "only_watches t (fst (DueSilent visited now t))"
    using only_watches_fold [of "due_step now" "(t, [])" visited] only_watches_unwatch only_watches_change
    by (fastforce simp: DueSilent_def due_step_def split: prod.splits option.splits)
  show "only_watches t (fst (TakeSilent ip_equal visited t ip port))"
    using only_watches_fold [of "take_step ip_equal ip port" "(t, [])" visited] only_watches_unwatch
    by (fastforce simp: TakeSilent_def take_step_def split: prod.splits option.splits)
qed (auto simp: NoteClientPacket_def Unwatch_def EndWatch_def Unprobe_def Park_def updateWatch_def Let_def split: option.splits
    intro: only_watches_unwatch only_watches_change)

lemma dest_ok_watches: "only_watches t t' \<Longrightarrow> dest_ok t \<Longrightarrow> dest_ok t'"
  by (simp add: only_watches_def dest_ok_def)

lemmas watch_ops_ok = only_watches_ops [THEN dest_ok_watches]

lemma dest_ok_escalations:
  "dest_ok t \<Longrightarrow> escalations t h = Some e \<Longrightarrow> hops e' = hops e \<and> es_ttl e' = es_ttl e \<Longrightarrow>
   dest_ok (t\<lparr>escalations := (escalations t)(h \<mapsto> e')\<rparr>)"
  by (auto simp: dest_ok_def watch_ok_def intro: tab_ok_upd) (auto simp: rungs_ok_def)

lemma dest_reach_ok: "dest_reach t \<Longrightarrow> dest_ok t"
proof (induction rule: dest_reach.induct)
  case new
  then show ?case by (simp add: dest_ok_def new_dest_def watch_ok_def)
next
  case (forget t key)
  have "dest_ok (fst (Unwatch t key))" by (rule dest_ok_watches [OF only_watches_ops(3) forget.IH])
  then show ?case by (simp add: ForgetConnection_def ClearClientHellos_def dest_ok_def watch_ok_def)
next
  case (escalate t visited host clock i reason ttl)
  then show ?case
    using SetEscalation_ok [of t visited host clock i reason ttl] SetEscalation_other [of visited clock t host i reason ttl]
    by (simp add: dest_ok_def watch_ok_def)
next
  case (rst_kill t visited host now need win)
  then show ?case
    using recordFailureLocked_ok [of "rstKills t" visited host] by (simp add: RecordRSTKill_def dest_ok_def watch_ok_def split_beta)
next
  case (dns_fail t visited host now need win)
  then show ?case
    using recordFailureLocked_ok [of "dnsFails t" visited host] by (simp add: RecordDNSFailure_def dest_ok_def watch_ok_def split_beta)
next
  case (log_cap t now host)
  then show ?case using dest_ok_escalations by (auto simp: dest_defs split: option.splits)
next
  case (refresh t now host interval dscp)
  then show ?case using dest_ok_escalations by (auto simp: dest_defs split: option.splits)
next
  case (hello t clock key host ack)
  then show ?case by (simp add: dest_defs dest_ok_def watch_ok_def Let_def split: prod.split)
next
  case (prune_sets t valid)
  then show ?case by (cases valid) (simp_all add: dest_defs dest_ok_def watch_ok_def tab_ok_prune rungs_ok_prune)
qed (erule watch_ops_ok |
    simp add: dest_defs dest_ok_def watch_ok_def tab_ok_prune rungs_ok_prune tab_ok_del Let_def split: option.split prod.split)+



end
