(* ===== verification/Spec2Isabelle.thy ===== *)
theory Spec2Isabelle
  imports Tls_Gen Quic_Crypto Match_Select Tcp_Send Tcp_Inject Udp_Replace Dns_Filter Dns_Lookup Name_Cache Conn_Track Dest_Tables
begin

text \<open>
  A verification development for b4, a service that inspects and rewrites the traffic of a router
  to get around deep packet inspection.

  \<^bold>\<open>The program and its parts.\<close> Packets reach the service through a netfilter queue (\<^verbatim>\<open>src/nfq\<close>). From a
  packet it reads the server name of a TLS ClientHello (\<^verbatim>\<open>src/sni\<close>) or of a QUIC Initial (\<^verbatim>\<open>src/quic\<close>), or the name of a
  DNS query (\<^verbatim>\<open>src/dns\<close>). The matcher (\<^verbatim>\<open>src/sni/match.go\<close>) selects one of the sets of the configuration
  (\<^verbatim>\<open>src/config\<close>) by name, address, port, protocol and device. The set says how the packet is sent: cut into
  segments or IP fragments, among fakes that must not reach the server, through a raw socket (\<^verbatim>\<open>src/sock\<close>,
  \<^verbatim>\<open>src/tlsgen\<close>). What was decided for a connection and how its server answered is remembered
  (\<^verbatim>\<open>src/nfq/connstate.go\<close>), and a host that keeps failing is escalated to another set.
  Paths are relative to the directory \<^verbatim>\<open>src\<close> of the repository.

  \<^bold>\<open>Theories.\<close>
  \<^item> \<^verbatim>\<open>B4_Prelude\<close>, \<^verbatim>\<open>Go_Strings\<close>: bytes, slices, big-endian numbers, panics, and the parts of Go's library the code calls.
  \<^item> \<^verbatim>\<open>Tls_Hello\<close> (\<^verbatim>\<open>sni/tls.go\<close>, \<^verbatim>\<open>sni/locate.go\<close>): the readers of a ClientHello. They do not panic on any input, the names they return
    are valid, and located names lie in the payload. \<^verbatim>\<open>Tls_Gen\<close> (\<^verbatim>\<open>tlsgen/generator.go\<close>): a generated
    ClientHello is parsed back.
  \<^item> \<^verbatim>\<open>Quic_Varint\<close>, \<^verbatim>\<open>Quic_Packet\<close>, \<^verbatim>\<open>Quic_Crypto\<close> (\<^verbatim>\<open>quic\<close>): variable-length integers, key derivation, decryption and
    construction of Initials, CRYPTO frames and their reassembly. The dummy Initial decrypts to its payload; the
    reassembled prefix is the stream the client sent, whatever the order and overlap of its frames.
  \<^item> \<^verbatim>\<open>Set_Config\<close> (\<^verbatim>\<open>config/types.go\<close>, \<^verbatim>\<open>config/methods.go\<close>): a set, its ports and its escalation links. Links that would make a
    chain of escalations endless are removed.
  \<^item> \<^verbatim>\<open>Domain\<close> (\<^verbatim>\<open>sni/domain.go\<close>, \<^verbatim>\<open>overlap.go\<close>), \<^verbatim>\<open>Caches\<close>, \<^verbatim>\<open>Matcher\<close>, \<^verbatim>\<open>Match_Names\<close>, \<^verbatim>\<open>Match_State\<close>, \<^verbatim>\<open>Match_Select\<close>
    (\<^verbatim>\<open>sni/match.go\<close>): the matcher as a state with caches. \<^verbatim>\<open>Matcher\<close> has the operations; the others relate the index to the configuration it
    was built from, show that caches do not change answers, and which set a device gets.
  \<^item> \<^verbatim>\<open>Ip_Checksum\<close>, \<^verbatim>\<open>Ip_Fragments\<close> (\<^verbatim>\<open>sock\<close>): checksums, and IP fragments that a receiver puts together again.
  \<^item> \<^verbatim>\<open>Tcp_Segments\<close>, \<^verbatim>\<open>Tcp_View\<close>, \<^verbatim>\<open>Tcp_Strategies\<close>, \<^verbatim>\<open>Tcp_Reassembly\<close>, \<^verbatim>\<open>Tcp_Delivery\<close>, \<^verbatim>\<open>Tcp_Oob\<close>, \<^verbatim>\<open>Tcp_Send\<close>
    (\<^verbatim>\<open>nfq/common.go\<close> and the files of the strategies): how a segment is cut and sent. The abstract specification is the stream
    of the client: every strategy delivers it, over IPv4 and IPv6, because fakes expire on the way and
    segments that arrive contradict no byte of it. The locale \<open>segment_family\<close> is the contract of the functions that build segments; both
    address families are interpretations.
  \<^item> \<^verbatim>\<open>Tcp_Options\<close> (\<^verbatim>\<open>sock/sack.go\<close>, \<^verbatim>\<open>tcp_md5.go\<close>, \<^verbatim>\<open>tcp_timestamp.go\<close>), \<^verbatim>\<open>Fake_Payload\<close> (\<^verbatim>\<open>sock/tls.go\<close>, \<^verbatim>\<open>mirror.go\<close>, \<^verbatim>\<open>payload.go\<close>),
    \<^verbatim>\<open>Fake_Packets\<close> (\<^verbatim>\<open>sock/fake_ipv4.go\<close>, \<^verbatim>\<open>fake_ipv6.go\<close>, the fake sequences of \<^verbatim>\<open>nfq\<close>) and \<^verbatim>\<open>Fake_Syn\<close> (\<^verbatim>\<open>nfq/syn.go\<close>): fake ClientHellos and SYNs. Each fake
    is one the server does not take for data of the client. The locale \<open>fake_family\<close> is the contract of packets whose options
    and checksums are edited; \<open>f4\<close> and \<open>f6\<close> are its interpretations.
  \<^item> \<^verbatim>\<open>Tcp_Desync\<close> (\<^verbatim>\<open>nfq/desync.go\<close>, \<^verbatim>\<open>post_desync.go\<close>, \<^verbatim>\<open>win.go\<close>): the attacks on the state of a censor. The locale \<open>header_fakes\<close> is the contract of a
    routine that copies and edits the headers of a segment; what the attacks send is proved in it once (\<open>hf4\<close>, \<open>hf6\<close>).
  \<^item> \<^verbatim>\<open>Hello_Mutation\<close>, \<^verbatim>\<open>Hello_Names\<close> (\<^verbatim>\<open>nfq/mutation.go\<close>, \<^verbatim>\<open>mutation_ipv6.go\<close>, \<^verbatim>\<open>httpmethod.go\<close>): how the ClientHello itself is changed. A mutated
    packet is an intact segment, and its extensions are exactly the old ones with those of the mode. The locale \<open>hello_packets\<close> is the
    contract of packets that carry a ClientHello (\<open>hm4\<close>, \<open>hm6\<close>).
  \<^item> \<^verbatim>\<open>Tcp_Inject\<close> (\<^verbatim>\<open>dropAndInjectTCP\<close> of \<^verbatim>\<open>nfq/nfq.go\<close> and its twin for IPv6): the composition of all of these. The locale
    \<open>inject_family\<close> collects what the parts promise; its interpretations \<open>in4\<close> and \<open>in6\<close> rest on the theorems of the parts, and the
    stream of the client survives the whole pipeline.
  \<^item> \<^verbatim>\<open>Udp_Send\<close> (\<^verbatim>\<open>dropAndInjectQUIC\<close> of \<^verbatim>\<open>nfq/nfq.go\<close> and its twin, \<^verbatim>\<open>sock/udp_ipv4.go\<close>, \<^verbatim>\<open>udp_ipv6.go\<close>, \<^verbatim>\<open>quic_fake.go\<close>, \<^verbatim>\<open>stun_fake.go\<close>,
    \<^verbatim>\<open>nfq/l7.go\<close> and the recognisers of \<^verbatim>\<open>stun\<close> and \<^verbatim>\<open>discord\<close>): fakes and fragments of datagrams. The locale \<open>udp_family\<close> is the contract of a builder of
    fakes and a routine that cuts a datagram; in both interpretations \<open>u4\<close> and \<open>u6\<close> the fakes expire and the datagram arrives. \<^verbatim>\<open>Udp_Replace\<close>
    (\<^verbatim>\<open>sock/udp_replace.go\<close>): a datagram whose payload is replaced is read as the same datagram with the new payload.
  \<^item> \<^verbatim>\<open>Dns_Message\<close>, \<^verbatim>\<open>Dns_Answer\<close>, \<^verbatim>\<open>Dns_Names\<close>, \<^verbatim>\<open>Dns_Query\<close>, \<^verbatim>\<open>Dns_Filter\<close> (\<^verbatim>\<open>dns/dns.go\<close>, \<^verbatim>\<open>answer.go\<close>, \<^verbatim>\<open>query.go\<close>): messages and how
    they are rewritten. No message makes a reader panic; what is built is read back; an answer from which
    addresses were removed holds exactly the others.
  \<^item> \<^verbatim>\<open>Dns_Lookup\<close> (\<^verbatim>\<open>dns/lookup.go\<close>, \<^verbatim>\<open>sourcehealth.go\<close>): the circuit breaker of DNS servers. \<^verbatim>\<open>Name_Cache\<close> (\<^verbatim>\<open>dns/names.go\<close>): which names were
    observed for an address, in every interleaving of its operations.
  \<^item> \<^verbatim>\<open>Conn_State\<close>, \<^verbatim>\<open>Conn_Tables\<close>, \<^verbatim>\<open>Conn_Track\<close> and \<^verbatim>\<open>Dest_State\<close>, \<^verbatim>\<open>Dest_Tables\<close> (\<^verbatim>\<open>nfq/connstate.go\<close>, \<^verbatim>\<open>escalate.go\<close>, \<^verbatim>\<open>hellosilence.go\<close>): what is
    remembered of connections and destinations, the resets that are let through, and escalation.

  \<^bold>\<open>Conventions.\<close>
  \<^item> A panic is \<^const>\<open>None\<close> of the outer option; the code's own failure is an inner \<^const>\<open>None\<close> or a flag.
  \<^item> Offsets and lengths are \<^typ>\<open>nat\<close> or \<^typ>\<open>int\<close>, which packets cannot exceed; values of the wire have their
    width, and a conversion to \<^verbatim>\<open>int\<close> without a bound is explicit with the width of the platform.
  \<^item> The clock, the random source and the order in which a loop visits a map are arguments; theorems hold for all of them.
  \<^item> A shared table with a mutex is a state and its operations; its runs are an inductive set of reachable states in which
    the operations occur in any order.
  \<^item> Recursion follows the length of the input; loops need no fuel, except the walk along
    escalation links, whose bound is the number of sets.

  \<^bold>\<open>Parameters.\<close> Code outside the repository is an argument with its documented behaviour as a hypothesis: the cipher and the
  hash of QUIC (\<open>crypto_lib\<close>), the network index and textual addresses (\<open>netlib\<close>), case folding beyond ASCII and regular
  expressions (\<open>golib\<close>). What the network answers to a lookup is an argument too.

  \<^bold>\<open>Not modelled.\<close> Everything that only moves data between the kernel, the network, files or the web interface: the queue
  workers, the firewall and routing tables (\<^verbatim>\<open>tables\<close>), the web server and its handlers (\<^verbatim>\<open>http\<close>), the discovery of working
  strategies, the Telegram and SOCKS proxies, the tunnel device, the watchdog, metrics and logs, and the hub
  server. They run external commands or wait on sockets, and their own decisions are thin. The dispatcher of
  \<^verbatim>\<open>nfq/handler.go\<close>, which reads a packet, asks the matcher and calls the modelled functions between netfilter verdicts, and the handlers of DNS
  packets are left out. Pauses between packets are
  left out; the theorems on delivery hold for every order of arrival.
\<close>

section \<open>Everything that reads the wire\<close>



end
